(* ===== verification/Py_Prelude.thy ===== *)
theory Py_Prelude
  imports Complex_Main "HOL-Library.AList" "HOL-Library.List_Lexorder"
    "HOL-Library.Product_Lexorder" "HOL-Library.Multiset"
begin

text \<open>
  Shared vocabulary of the development: how the Python constructs that every component uses
  are rendered in HOL.

  \<^item> An exception is a value of \<open>py_error\<close>; a fallible call has type \<open>'a result\<close>
    (\<open>Inl\<close> the exception, \<open>Inr\<close> the value) and is sequenced with \<open>r_bind\<close>.
  \<^item> A \<open>dict\<close> is an association list in insertion order (\<open>map_of\<close> looks a key up,
    \<open>AList.update\<close> overwrites in place or appends, as Python does); where neither order nor
    iteration matters it is a map.
  \<^item> \<open>min(xs, key=f)\<close> is \<open>arg_min_list f xs\<close> and \<open>sorted(xs, key=f)\<close> is \<open>sort_key f xs\<close>:
    both return the first of several equal elements first, as Python does.
  \<^item> A \<open>float\<close> is a rational number: arithmetic is exact, and an explicit infinity of the
    source is \<open>None\<close> of an option type.
\<close>

section \<open>Collections of rewrite rules\<close>

named_theorems py_simps \<open>unfolding rules of the result type and of Python's containers\<close>
named_theorems mem_inv \<open>invariants of the memory backends and their preservation\<close>

section \<open>Exceptions and results\<close>

datatype py_error =
    RuntimeError string
  | ValueError string
  | IndexError string
  | KeyError
  | ZeroDivisionError
  | TypeError
  | StopIteration
  | AttributeError
  | AssertionError string
  | UnboundLocalError
  | InvalidStateError

type_synonym 'a result = "py_error + 'a"

fun r_bind :: "'e + 'a \<Rightarrow> ('a \<Rightarrow> 'e + 'b) \<Rightarrow> 'e + 'b" where
  "r_bind (Inl e) k = Inl e"
| "r_bind (Inr x) k = k x"

lemma r_bind_cong [fundef_cong]:
  "m = m' \<Longrightarrow> (\<And>x. m' = Inr x \<Longrightarrow> k x = k' x) \<Longrightarrow> r_bind m k = r_bind m' k'"
  by (cases m') auto

text \<open>As a congruence rule: a continuation is simplified only once its argument is known.\<close>

lemma r_bind_weak_cong: "m = m' \<Longrightarrow> r_bind m k = r_bind m' k"
  by simp

lemma r_bind_Inr_iff [py_simps]: "r_bind m k = Inr y \<longleftrightarrow> (\<exists>x. m = Inr x \<and> k x = Inr y)"
  by (cases m) auto

lemma r_bind_Inl_iff [py_simps]:
  "r_bind m k = Inl e \<longleftrightarrow> m = Inl e \<or> (\<exists>x. m = Inr x \<and> k x = Inl e)"
  by (cases m) auto

lemma r_bind_assoc [py_simps]: "r_bind (r_bind m k) h = r_bind m (\<lambda>x. r_bind (k x) h)"
  by (cases m) auto

lemma r_bind_return [simp]: "r_bind m Inr = m"
  by (cases m) auto

text \<open>A loop over a list whose body may raise.\<close>

fun r_foldl :: "('s \<Rightarrow> 'x \<Rightarrow> 'e + 's) \<Rightarrow> 's \<Rightarrow> 'x list \<Rightarrow> 'e + 's" where
  "r_foldl f s [] = Inr s"
| "r_foldl f s (x # xs) = r_bind (f s x) (\<lambda>s'. r_foldl f s' xs)"

lemma r_foldl_cong [fundef_cong]:
  "s = s' \<Longrightarrow> xs = xs' \<Longrightarrow> (\<And>a x. x \<in> set xs' \<Longrightarrow> f a x = g a x) \<Longrightarrow>
   r_foldl f s xs = r_foldl g s' xs'"
proof (induction xs arbitrary: s s' xs')
  case (Cons x xs)
  then show ?case by (cases "g s' x") auto
qed simp

lemma r_foldl_append: "r_foldl f s (xs @ ys) = r_bind (r_foldl f s xs) (\<lambda>s'. r_foldl f s' ys)"
  by (induction xs arbitrary: s) (auto simp: r_bind_assoc)

lemma r_foldl_invariant:
  assumes "r_foldl f s xs = Inr s'" and "P s"
    and "\<And>a x b. P a \<Longrightarrow> x \<in> set xs \<Longrightarrow> f a x = Inr b \<Longrightarrow> P b"
  shows "P s'"
  using assms
proof (induction xs arbitrary: s)
  case (Cons x xs)
  from Cons.prems(1) obtain b where b: "f s x = Inr b" "r_foldl f b xs = Inr s'"
    by (auto simp: py_simps)
  have "P b" using Cons.prems(2,3) b(1) by auto
  moreover have "\<And>a y c. P a \<Longrightarrow> y \<in> set xs \<Longrightarrow> f a y = Inr c \<Longrightarrow> P c"
    using Cons.prems(3) by auto
  ultimately show ?case using Cons.IH [OF b(2)] by blast
qed simp

text \<open>A loop whose body always returns under an invariant returns.\<close>

lemma r_foldl_total:
  assumes "P s" and "\<And>a x. P a \<Longrightarrow> x \<in> set xs \<Longrightarrow> \<exists>b. f a x = Inr b \<and> P b"
  shows "\<exists>s'. r_foldl f s xs = Inr s' \<and> P s'"
  using assms
proof (induction xs arbitrary: s)
  case (Cons x xs)
  obtain b where b: "f s x = Inr b" "P b" using Cons.prems by force
  have "\<exists>s'. r_foldl f b xs = Inr s' \<and> P s'"
    by (rule Cons.IH) (use b Cons.prems(2) in auto)
  with b show ?case by simp
qed simp

text \<open>A list comprehension whose element expression may raise.\<close>

fun r_map :: "('x \<Rightarrow> 'e + 'y) \<Rightarrow> 'x list \<Rightarrow> 'e + 'y list" where
  "r_map f [] = Inr []"
| "r_map f (x # xs) = r_bind (f x) (\<lambda>y. r_bind (r_map f xs) (\<lambda>ys. Inr (y # ys)))"

lemma r_map_cong [fundef_cong]:
  "xs = xs' \<Longrightarrow> (\<And>x. x \<in> set xs' \<Longrightarrow> f x = g x) \<Longrightarrow> r_map f xs = r_map g xs'"
proof (induction xs arbitrary: xs')
  case (Cons x xs)
  then show ?case by (cases "g x") auto
qed simp

lemma r_map_Inr_iff: "r_map f xs = Inr ys \<longleftrightarrow> list_all2 (\<lambda>x y. f x = Inr y) xs ys"
  by (induction xs arbitrary: ys) (auto simp: py_simps list_all2_Cons1)

lemma r_map_total: "(\<And>x. x \<in> set xs \<Longrightarrow> f x = Inr (g x)) \<Longrightarrow> r_map f xs = Inr (map g xs)"
  by (induction xs) auto

lemma r_map_exists:
  assumes "\<And>x. x \<in> set xs \<Longrightarrow> \<exists>y. f x = Inr y"
  shows "\<exists>ys. r_map f xs = Inr ys"
proof -
  have "f x = Inr (projr (f x))" if "x \<in> set xs" for x using assms [OF that] by auto
  then show ?thesis using r_map_total [of xs f "\<lambda>x. projr (f x)"] by blast
qed

text \<open>Division of floats raises on a zero divisor.\<close>

definition py_div :: "rat \<Rightarrow> rat \<Rightarrow> rat result" where
  "py_div a b = (if b = 0 then Inl ZeroDivisionError else Inr (a / b))"

lemma py_div_Inr_iff [py_simps]: "py_div a b = Inr c \<longleftrightarrow> b \<noteq> 0 \<and> c = a / b"
  by (auto simp: py_div_def)

lemma py_div_nonzero [simp]: "b \<noteq> 0 \<Longrightarrow> py_div a b = Inr (a / b)"
  by (simp add: py_div_def)

section \<open>Dictionaries\<close>

text \<open>\<open>d[k]\<close> raises \<open>KeyError\<close> on a missing key; \<open>d.get(k, v)\<close> does not.\<close>

definition dict_get :: "('k \<times> 'v) list \<Rightarrow> 'k \<Rightarrow> 'v result" where
  "dict_get d k = (case map_of d k of None \<Rightarrow> Inl KeyError | Some v \<Rightarrow> Inr v)"

definition get_default :: "('k \<rightharpoonup> 'v) \<Rightarrow> 'k \<Rightarrow> 'v \<Rightarrow> 'v" where
  "get_default m k v = (case m k of None \<Rightarrow> v | Some w \<Rightarrow> w)"

lemma dict_get_Inr_iff [py_simps]: "dict_get d k = Inr v \<longleftrightarrow> map_of d k = Some v"
  by (auto simp: dict_get_def split: option.splits)

lemma dict_get_Some [simp]: "map_of d k = Some v \<Longrightarrow> dict_get d k = Inr v"
  by (simp add: dict_get_def)

lemma get_default_upd [simp]:
  "get_default (m(k \<mapsto> v)) k' d = (if k' = k then v else get_default m k' d)"
  by (simp add: get_default_def)

text \<open>A dict comprehension: a later pair overwrites the value of an earlier one in place.\<close>

definition dict_of :: "('k \<times> 'v) list \<Rightarrow> ('k \<times> 'v) list" where
  "dict_of kvs = foldl (\<lambda>d (k, v). AList.update k v d) [] kvs"

lemma map_of_dict_fold:
  "map_of (foldl (\<lambda>d (k, v). AList.update k v d) d kvs) = map_of d ++ map_of (rev kvs)"
  by (induction kvs arbitrary: d) (auto simp: AList.update_conv' split: prod.splits)

lemma map_of_dict_of: "map_of (dict_of kvs) = map_of (rev kvs)"
  by (simp add: dict_of_def map_of_dict_fold)

lemma dict_of_values: "map_of (dict_of kvs) k = Some v \<Longrightarrow> (k, v) \<in> set kvs"
  by (metis map_of_SomeD map_of_dict_of set_rev)

lemma dict_of_total: "k \<in> fst ` set kvs \<Longrightarrow> \<exists>v. map_of (dict_of kvs) k = Some v"
  by (metis map_of_dict_of map_of_eq_None_iff not_None_eq set_map set_rev list.set_map)

lemma dict_of_keys: "fst ` set (dict_of kvs) = fst ` set kvs"
  by (metis dom_map_of_conv_image_fst map_of_dict_of set_rev)

lemma dict_of_distinct_keys: "distinct (map fst (dict_of kvs))"
proof -
  have "distinct (map fst d) \<Longrightarrow> distinct (map fst (foldl (\<lambda>d (k, v). AList.update k v d) d kvs))" for d
    by (induction kvs arbitrary: d) (auto simp: distinct_update split: prod.splits)
  then show ?thesis by (simp add: dict_of_def)
qed

lemma map_of_map_key: "map_of (map (\<lambda>(k, v). (k, f k v)) d) k = map_option (f k) (map_of d k)"
  by (induction d) auto

lemma update_new: "k \<notin> fst ` set d \<Longrightarrow> AList.update k v d = d @ [(k, v)]"
  by (induction d) auto

lemma keys_update: "k \<in> fst ` set d \<Longrightarrow> map fst (AList.update k v d) = map fst d"
  by (simp add: update_keys)

lemma set_update: "set (AList.update k v d) \<subseteq> insert (k, v) (set d)"
  by (induction d) auto

lemma ball_update: "\<forall>x \<in> set d. P x \<Longrightarrow> P (k, v) \<Longrightarrow> \<forall>x \<in> set (AList.update k v d). P x"
  by (induction d) auto

lemma map_of_mem: "k \<in> fst ` set d \<Longrightarrow> \<exists>v. map_of d k = Some v"
  by (metis map_of_eq_None_iff not_None_eq)

lemma map_of_inject_set:
  "distinct (map fst d) \<Longrightarrow> distinct (map fst e) \<Longrightarrow> map_of d = map_of e \<Longrightarrow> set d = set e"
  by (metis map_of_eq_Some_iff subsetI subset_antisym surj_pair)

section \<open>Python's \<open>isclose\<close>\<close>

definition py_isclose :: "rat \<Rightarrow> rat \<Rightarrow> bool" where
  \<comment> \<open>\<open>math.isclose(a, b, abs_tol=1e-9)\<close>, with the default relative tolerance 1e-9\<close>
  "py_isclose a b \<longleftrightarrow> \<bar>a - b\<bar> \<le> max (max \<bar>a\<bar> \<bar>b\<bar> / 10 ^ 9) (1 / 10 ^ 9)"

lemma py_isclose_refl [simp]: "py_isclose a a"
  by (simp add: py_isclose_def le_max_iff_disj)

section \<open>Lists\<close>

text \<open>\<open>xs[i]\<close> for a non-negative index raises \<open>IndexError\<close> out of range.\<close>

definition list_get :: "'a list \<Rightarrow> nat \<Rightarrow> 'a result" where
  "list_get xs i = (if i < length xs then Inr (xs ! i) else Inl (IndexError ''list index out of range''))"

text \<open>The adjacent-pair test \<open>any(a > b for a, b in zip(xs, xs[1:]))\<close>.\<close>

definition any_adjacent :: "('a \<Rightarrow> 'a \<Rightarrow> bool) \<Rightarrow> 'a list \<Rightarrow> bool" where
  "any_adjacent P xs \<longleftrightarrow> list_ex (\<lambda>(a, b). P a b) (zip xs (tl xs))"

lemma any_adjacent_Cons2 [simp]:
  "any_adjacent P (x # y # zs) \<longleftrightarrow> P x y \<or> any_adjacent P (y # zs)"
  by (simp add: any_adjacent_def)

lemma any_adjacent_short [simp]: "\<not> any_adjacent P []" "\<not> any_adjacent P [x]"
  by (simp_all add: any_adjacent_def)

lemma any_adjacent_iff:
  assumes "transp R" and "\<And>a b. P a b \<longleftrightarrow> \<not> R a b"
  shows "any_adjacent P xs \<longleftrightarrow> \<not> sorted_wrt R xs"
proof (induction xs rule: induct_list012)
  case (3 x y zs)
  have "sorted_wrt R (x # y # zs) \<longleftrightarrow> R x y \<and> sorted_wrt R (y # zs)"
    using assms(1) by (rule sorted_wrt2)
  with 3 assms(2) show ?case by auto
qed auto

lemma any_adjacent_sorted: "any_adjacent (\<lambda>a b. a > b) xs \<longleftrightarrow> \<not> sorted (xs :: 'a :: linorder list)"
  by (rule any_adjacent_iff) (auto simp: transp_on_def)

lemma any_adjacent_antitone:
  "any_adjacent (\<lambda>a b. a < b) xs \<longleftrightarrow> \<not> sorted_wrt (\<ge>) (xs :: 'a :: linorder list)"
  by (rule any_adjacent_iff) (auto simp: transp_on_def)

lemma sorted_wrt_ge_nth:
  "sorted_wrt (\<ge>) xs \<Longrightarrow> i \<le> j \<Longrightarrow> j < length xs \<Longrightarrow> xs ! j \<le> (xs ! i :: 'a :: linorder)"
  by (cases "i = j") (auto simp: sorted_wrt_iff_nth_less)

text \<open>\<open>bisect_right(xs, x)\<close> on a sorted list: the number of leading elements at most \<open>x\<close>.\<close>

definition bisect_right :: "'a :: linorder list \<Rightarrow> 'a \<Rightarrow> nat" where
  "bisect_right xs x = length (takeWhile (\<lambda>y. y \<le> x) xs)"

lemma bisect_right_le: "bisect_right xs x \<le> length xs"
  by (simp add: bisect_right_def length_takeWhile_le)

lemma bisect_right_before: "i < bisect_right xs x \<Longrightarrow> xs ! i \<le> x"
  by (metis bisect_right_def nth_mem set_takeWhileD takeWhile_nth)

lemma bisect_right_at: "bisect_right xs x < length xs \<Longrightarrow> x < xs ! bisect_right xs x"
  unfolding bisect_right_def by (metis nth_length_takeWhile not_le)

text \<open>The first element with a minimal key is an element, and no key is smaller.\<close>

lemma arg_min_list_cong:
  "xs \<noteq> [] \<Longrightarrow> (\<And>x. x \<in> set xs \<Longrightarrow> f x = g x) \<Longrightarrow> arg_min_list f xs = arg_min_list (g :: _ \<Rightarrow> _ :: linorder) xs"
proof (induction xs rule: induct_list012)
  case (3 x y zs)
  have "arg_min_list g (y # zs) \<in> set (y # zs)" by (rule arg_min_list_in) simp
  with 3 show ?case by (simp add: Let_def)
qed simp_all

lemma arg_min_list_le: "x \<in> set xs \<Longrightarrow> f (arg_min_list f xs) \<le> (f x :: 'a :: linorder)"
  by (cases xs) (auto simp: f_arg_min_list_f)

lemma arg_min_list_mem: "xs \<noteq> [] \<Longrightarrow> arg_min_list f xs \<in> set xs"
  by (rule arg_min_list_in)

lemma sorted_le_last: "sorted xs \<Longrightarrow> x \<in> set xs \<Longrightarrow> x \<le> last xs"
  by (induction xs rule: rev_induct) (auto simp: sorted_append)

lemma length_remove1_less: "x \<in> set xs \<Longrightarrow> length (remove1 x xs) < length xs"
  by (induction xs) auto

lemma sum_list_remove1:
  "x \<in> set xs \<Longrightarrow> sum_list (map f (remove1 x xs)) = sum_list (map f xs) - (f x :: 'a :: ab_group_add)"
  by (induction xs) auto

lemma sum_list_filter_split:
  "sum_list (map f xs) = sum_list (map f (filter P xs)) + (sum_list (map f (filter (\<lambda>x. \<not> P x) xs)) :: 'a :: comm_monoid_add)"
  by (induction xs) (auto simp: algebra_simps)

lemma sum_list_map_le:
  "(\<And>x. x \<in> set xs \<Longrightarrow> f x \<le> (g x :: 'a :: ordered_comm_monoid_add)) \<Longrightarrow>
   sum_list (map f xs) \<le> sum_list (map g xs)"
  by (rule sum_list_mono)

lemma sum_list_nonneg_map:
  "(\<And>x. x \<in> set xs \<Longrightarrow> 0 \<le> (f x :: 'a :: ordered_comm_monoid_add)) \<Longrightarrow> 0 \<le> sum_list (map f xs)"
  by (rule sum_list_nonneg) auto

end
