(* ===== verification/Stall_Table.thy ===== *)
theory Stall_Table
  imports Py_Prelude
begin

text \<open>
  The prefix-stall table of the tensor-level simulator
  (\<open>src/evaluation/tensor_simulator/tensor_sim_mckp.py\<close>, class \<open>PrefixStallTable\<close>):
  validation of the measured document, piecewise-linear lookup over the measured input
  lengths, the defensive curve, the replay of a profile row, and the split of an exposed
  stall into its transfer and allocation shares.

  The document is given parsed: the JSON numbers are \<open>int\<close> and \<open>rat\<close>, an absent optional
  field is \<open>None\<close>. The two memo dictionaries of the class cache pure functions of an object
  that is not written after construction, so they are left out.
\<close>

section \<open>Data\<close>

datatype extrapolation = Clamp | Linear

datatype stall_field = PrefixStall | SuffixStall

record stall_group =
  sg_logical_bytes :: int
  sg_observed :: bool

record stall_row =
  input_tokens :: int
  prefix_stall_ms :: "rat list"
  suffix_stall_ms :: "rat list option"
  group_boundary_ms :: "rat list option"
  median_baseline_wall_ms :: "rat option"

text \<open>A model of the document, and of the table: the table adds the sorted token column.\<close>

record doc_model =
  doc_group_count :: int
  doc_prefix_bytes :: "int list"
  doc_rows :: "stall_row list"
  doc_groups :: "stall_group list option"

record stall_model =
  sm_group_count :: int
  sm_prefix_bytes :: "int list"
  sm_rows :: "stall_row list"
  sm_tokens :: "int list"
  sm_groups :: "stall_group list option"

record stall_document =
  doc_format :: string
  doc_h2d_gbps :: "rat option"
  doc_segment_allocation_ms :: "rat option"
  doc_models :: "(int \<times> doc_model) list"

record stall_table =
  st_extrapolation :: extrapolation
  st_h2d_gbps :: "rat option"
  st_segment_allocation_ms :: "rat option"
  st_models :: "(int \<times> stall_model) list"

section \<open>Validation\<close>

text \<open>
  The checks of one measured row, in the order of the constructor. \<open>stalls[-1]\<close> raises on
  an empty list, which the length check leaves possible only for a group count of \<open>-1\<close>.
\<close>

definition check_suffix :: "int \<Rightarrow> rat list \<Rightarrow> unit result" where
  "check_suffix group_count suffix =
     (if int (length suffix) \<noteq> group_count + 1 then Inl (ValueError ''suffix stall count mismatch'')
      else if suffix = [] then Inl (IndexError ''list index out of range'')
      else if hd suffix \<noteq> 0 then Inl (ValueError ''full suffix stall is not zero'')
      else if any_adjacent (\<lambda>left right. left > right) suffix
      then Inl (ValueError ''stall is not suffix-monotonic'')
      else Inr ())"

definition check_row :: "int \<Rightarrow> stall_row \<Rightarrow> unit result" where
  "check_row group_count row =
     (let stalls = prefix_stall_ms row in
      if int (length stalls) \<noteq> group_count + 1 then Inl (ValueError ''prefix stall count mismatch'')
      else if stalls = [] then Inl (IndexError ''list index out of range'')
      else if last stalls \<noteq> 0 then Inl (ValueError ''full-resident stall is not zero'')
      else if any_adjacent (\<lambda>left right. left < right) stalls
      then Inl (ValueError ''stall is not prefix-monotonic'')
      else case suffix_stall_ms row of
             None \<Rightarrow> Inr ()
           | Some suffix \<Rightarrow> check_suffix group_count suffix)"

definition load_model :: "doc_model \<Rightarrow> stall_model result" where
  "load_model item =
     (let group_count = doc_group_count item;
          prefix_bytes = doc_prefix_bytes item;
          rows = sort_key input_tokens (doc_rows item);
          tokens = map input_tokens rows in
      if int (length prefix_bytes) \<noteq> group_count + 1
      then Inl (ValueError ''prefix byte count mismatch'')
      else if any_adjacent (\<lambda>a b. a > b) prefix_bytes
      then Inl (ValueError ''prefix bytes are not monotonic'')
      else if rows = [] \<or> \<not> distinct tokens
      then Inl (ValueError ''empty or duplicate input rows'')
      else r_bind (r_foldl (\<lambda>_. check_row group_count) () rows)
        (\<lambda>_. Inr \<lparr> sm_group_count = group_count, sm_prefix_bytes = prefix_bytes,
                   sm_rows = rows, sm_tokens = tokens, sm_groups = doc_groups item \<rparr>))"

definition make_table :: "stall_document \<Rightarrow> extrapolation \<Rightarrow> stall_table result" where
  "make_table document ex =
     (if doc_format document \<noteq> ''layerweave-prefix-stall-v1''
      then Inl (ValueError ''unsupported prefix stall table format'')
      else r_bind (r_map (\<lambda>(key, item). r_bind (load_model item) (\<lambda>m. Inr (key, m)))
                    (doc_models document))
        (\<lambda>ms. Inr \<lparr> st_extrapolation = ex, st_h2d_gbps = doc_h2d_gbps document,
                    st_segment_allocation_ms = doc_segment_allocation_ms document,
                    st_models = ms \<rparr>))"

section \<open>Lookup\<close>

definition group_count :: "stall_table \<Rightarrow> int \<Rightarrow> int result" where
  "group_count t model_id = r_bind (dict_get (st_models t) model_id) (\<lambda>m. Inr (sm_group_count m))"

definition table_prefix_bytes :: "stall_table \<Rightarrow> int \<Rightarrow> nat \<Rightarrow> int result" where
  "table_prefix_bytes t model_id prefix_count =
     r_bind (dict_get (st_models t) model_id) (\<lambda>m.
       if \<not> int prefix_count \<le> sm_group_count m
       then Inl (IndexError ''prefix count is outside the model'')
       else if prefix_count < length (sm_prefix_bytes m)
       then Inr (sm_prefix_bytes m ! prefix_count)
       else Inl (IndexError ''list index out of range''))"

text \<open>
  Where an input length falls among the measured ones: on a row (below the first, or above
  the last when clamping), or between two rows with the weight of the upper one. The three
  interpolating methods of the class share these branches.
\<close>

datatype interp_pos = AtRow nat | Between nat nat rat

definition interp_position :: "extrapolation \<Rightarrow> int list \<Rightarrow> int \<Rightarrow> interp_pos result" where
  "interp_position ex tokens x =
     (if tokens = [] then Inl (IndexError ''list index out of range'')
      else if x \<le> hd tokens then Inr (AtRow 0)
      else if last tokens \<le> x \<and> (ex = Clamp \<or> length tokens = 1)
      then Inr (AtRow (length tokens - 1))
      else
        (let upper = (if last tokens \<le> x then length tokens - 1 else bisect_right tokens x);
             lower = upper - 1;
             left_tokens = tokens ! lower;
             right_tokens = tokens ! upper in
         r_bind (py_div (of_int x - of_int left_tokens) (of_int right_tokens - of_int left_tokens))
           (\<lambda>weight. Inr (Between lower upper weight))))"

definition interpolate :: "interp_pos \<Rightarrow> (nat \<Rightarrow> rat result) \<Rightarrow> rat result" where
  "interpolate pos value =
     (case pos of
        AtRow i \<Rightarrow> value i
      | Between lower upper weight \<Rightarrow>
          r_bind (value lower) (\<lambda>left. r_bind (value upper) (\<lambda>right.
            Inr (left + weight * (right - left)))))"

definition interpolate_clamped :: "interp_pos \<Rightarrow> (nat \<Rightarrow> rat result) \<Rightarrow> rat result" where
  "interpolate_clamped pos value =
     (case pos of
        AtRow i \<Rightarrow> value i
      | Between lower upper weight \<Rightarrow>
          r_bind (interpolate pos value) (\<lambda>v. Inr (max 0 v)))"

fun row_field :: "stall_field \<Rightarrow> stall_row \<Rightarrow> rat list option" where
  "row_field PrefixStall row = Some (prefix_stall_ms row)"
| "row_field SuffixStall row = suffix_stall_ms row"

definition row_value :: "stall_field \<Rightarrow> nat \<Rightarrow> stall_row list \<Rightarrow> nat \<Rightarrow> rat result" where
  "row_value fld state_count rows i =
     (case row_field fld (rows ! i) of
        None \<Rightarrow> Inl KeyError
      | Some xs \<Rightarrow> if state_count < length xs then Inr (xs ! state_count)
                   else Inl (IndexError ''list index out of range''))"

definition lookup_field :: "stall_table \<Rightarrow> int \<Rightarrow> int \<Rightarrow> nat \<Rightarrow> stall_field \<Rightarrow> rat result" where
  "lookup_field t model_id tokens state_count fld =
     r_bind (dict_get (st_models t) model_id) (\<lambda>m.
       if \<not> int state_count \<le> sm_group_count m
       then Inl (IndexError ''residency state is outside the model'')
       else if sm_rows m = [] then Inl (IndexError ''list index out of range'')
       else if row_field fld (hd (sm_rows m)) = None
       then Inl (ValueError ''stall table does not contain the field'')
       else r_bind (interp_position (st_extrapolation t) (sm_tokens m) tokens)
         (\<lambda>pos. interpolate_clamped pos (row_value fld state_count (sm_rows m))))"

definition lookup :: "stall_table \<Rightarrow> int \<Rightarrow> int \<Rightarrow> nat \<Rightarrow> rat result" where
  "lookup t model_id tokens prefix_count = lookup_field t model_id tokens prefix_count PrefixStall"

definition lookup_suffix :: "stall_table \<Rightarrow> int \<Rightarrow> int \<Rightarrow> nat \<Rightarrow> rat result" where
  "lookup_suffix t model_id tokens suffix_start =
     lookup_field t model_id tokens suffix_start SuffixStall"

text \<open>\<open>curve\<close>: all prefixes of a model, the last forced to zero and made antitone from the right.\<close>

fun envelope :: "rat list \<Rightarrow> rat list" where
  "envelope [] = []"
| "envelope [v] = [v]"
| "envelope (v # w # vs) =
     (let rest = envelope (w # vs) in max v (hd rest) # rest)"

definition curve :: "stall_table \<Rightarrow> int \<Rightarrow> int \<Rightarrow> rat list result" where
  "curve t model_id tokens =
     r_bind (group_count t model_id) (\<lambda>count.
     r_bind (r_map (lookup t model_id tokens) [0..<nat (count + 1)]) (\<lambda>values.
       if values = [] then Inl (IndexError ''list assignment index out of range'')
       else Inr (envelope (values[length values - 1 := 0]))))"

definition input_median :: "stall_table \<Rightarrow> int \<Rightarrow> int result" where
  "input_median t model_id =
     r_bind (dict_get (st_models t) model_id) (\<lambda>m.
       if sm_tokens m = [] then Inl (IndexError ''list index out of range'')
       else Inr (sm_tokens m ! (length (sm_tokens m) div 2)))"

definition baseline_ms :: "stall_table \<Rightarrow> int \<Rightarrow> int \<Rightarrow> rat result" where
  "baseline_ms t model_id tokens =
     r_bind (dict_get (st_models t) model_id) (\<lambda>m.
     r_bind (interp_position (st_extrapolation t) (sm_tokens m) tokens) (\<lambda>pos.
       interpolate pos (\<lambda>i. Inr (case median_baseline_wall_ms (sm_rows m ! i) of
                                  None \<Rightarrow> 0 | Some v \<Rightarrow> v))))"

section \<open>Replaying a profile row\<close>

text \<open>
  \<open>_simulate_component_stall\<close>: the loop over the measured group boundaries. \<open>prev\<close> holds
  \<open>actual_previous\<close> and \<open>baseline_previous\<close>, which the source sets together; \<open>bandwidth\<close> is
  \<open>None\<close> when the transfer cost is left out.
\<close>

fun replay_groups ::
  "(nat \<Rightarrow> bool) \<Rightarrow> rat option \<Rightarrow> rat \<Rightarrow> nat \<Rightarrow> (rat \<times> stall_group) list \<Rightarrow>
   (rat \<times> rat) option \<Rightarrow> rat \<Rightarrow> (rat \<times> rat) option result" where
  "replay_groups resident bandwidth allocation_ms index [] prev copy_end = Inr prev"
| "replay_groups resident bandwidth allocation_ms index ((baseline, grp) # rest) prev copy_end =
     (let compute_ready =
            (case prev of
               None \<Rightarrow> baseline
             | Some (actual, baseline_previous) \<Rightarrow> actual + max 0 (baseline - baseline_previous)) in
      if sg_observed grp \<and> \<not> resident index then
        r_bind (case bandwidth of None \<Rightarrow> Inr 0 | Some b \<Rightarrow> py_div (of_int (sg_logical_bytes grp)) b)
          (\<lambda>transfer.
            let load_ms = transfer + allocation_ms;
                load_start = (case prev of None \<Rightarrow> copy_end | Some (actual, _) \<Rightarrow> max copy_end actual);
                copy_end' = load_start + load_ms in
            replay_groups resident bandwidth allocation_ms (Suc index) rest
              (Some (max compute_ready copy_end', baseline)) copy_end')
      else
        replay_groups resident bandwidth allocation_ms (Suc index) rest
          (Some (compute_ready, baseline)) copy_end)"

definition simulate_component_stall ::
  "rat list \<Rightarrow> stall_group list \<Rightarrow> (nat \<Rightarrow> bool) \<Rightarrow> rat option \<Rightarrow> rat \<Rightarrow> rat result" where
  "simulate_component_stall boundaries grps resident bandwidth allocation_ms =
     (if boundaries = [] then Inr 0
      else r_bind (replay_groups resident bandwidth allocation_ms 0 (zip boundaries grps) None 0)
        (\<lambda>prev. case prev of
                   None \<Rightarrow> Inl TypeError
                 | Some (actual, _) \<Rightarrow> Inr (max 0 (actual - last boundaries))))"

text \<open>
  \<open>exposed_loading_components\<close>: the exposed stall split between transfer and allocation by
  the Shapley value of the two costs, scaled to the stall the table reports.
\<close>

definition replay_row ::
  "stall_group list \<Rightarrow> (nat \<Rightarrow> bool) \<Rightarrow> rat \<Rightarrow> rat \<Rightarrow> stall_row list \<Rightarrow> bool \<Rightarrow> bool \<Rightarrow> nat \<Rightarrow> rat result" where
  "replay_row grps resident bandwidth allocation_ms rows use_h2d use_allocation i =
     (case group_boundary_ms (rows ! i) of
        None \<Rightarrow> Inl KeyError
      | Some boundaries \<Rightarrow>
          simulate_component_stall boundaries grps resident
            (if use_h2d then Some bandwidth else None)
            (if use_allocation then allocation_ms else 0))"

definition shapley_split :: "rat \<Rightarrow> rat \<Rightarrow> rat \<Rightarrow> rat \<Rightarrow> rat \<times> rat" where
  "shapley_split target h2d_only allocation_only both =
     (let h2d = (1 / 2) * (h2d_only + both - allocation_only);
          allocation = (1 / 2) * (allocation_only + both - h2d_only);
          attributed = h2d + allocation in
      if target \<le> 0 \<or> attributed \<le> 0 then (max 0 target, 0)
      else (let scale = target / attributed in
            (max 0 (h2d * scale), max 0 (allocation * scale))))"

definition exposed_loading_components ::
  "stall_table \<Rightarrow> int \<Rightarrow> int \<Rightarrow> nat \<Rightarrow> stall_field \<Rightarrow> (rat \<times> rat) result" where
  "exposed_loading_components t model_id tokens state_count kind =
     r_bind (dict_get (st_models t) model_id) (\<lambda>m.
       case (sm_groups m, st_h2d_gbps t, st_segment_allocation_ms t) of
         (Some (g # gs), Some h2d_gbps, Some allocation_ms) \<Rightarrow>
           if list_ex (\<lambda>row. group_boundary_ms row = None) (sm_rows m)
           then r_bind (lookup_field t model_id tokens state_count kind) (\<lambda>exposed. Inr (exposed, 0))
           else
             (let resident = (case kind of PrefixStall \<Rightarrow> (\<lambda>index. index < state_count)
                                         | SuffixStall \<Rightarrow> (\<lambda>index. state_count \<le> index));
                  bandwidth = h2d_gbps * 1000000;
                  replay = (\<lambda>use_h2d use_allocation.
                    r_bind (interp_position (st_extrapolation t) (sm_tokens m) tokens)
                      (\<lambda>pos. interpolate_clamped pos
                         (replay_row (g # gs) resident bandwidth allocation_ms (sm_rows m)
                            use_h2d use_allocation))) in
              r_bind (lookup_field t model_id tokens state_count kind) (\<lambda>target.
              r_bind (replay True False) (\<lambda>h2d_only.
              r_bind (replay False True) (\<lambda>allocation_only.
              r_bind (replay True True) (\<lambda>both.
                Inr (shapley_split target h2d_only allocation_only both))))))
       | _ \<Rightarrow> r_bind (lookup_field t model_id tokens state_count kind) (\<lambda>exposed. Inr (exposed, 0)))"

section \<open>The invariant of a validated table\<close>

definition suffix_ok :: "int \<Rightarrow> rat list \<Rightarrow> bool" where
  "suffix_ok n suffix \<longleftrightarrow>
     int (length suffix) = n + 1 \<and> suffix \<noteq> [] \<and> hd suffix = 0 \<and> sorted suffix"

definition row_ok :: "int \<Rightarrow> stall_row \<Rightarrow> bool" where
  "row_ok n row \<longleftrightarrow>
     int (length (prefix_stall_ms row)) = n + 1 \<and> prefix_stall_ms row \<noteq> []
     \<and> last (prefix_stall_ms row) = 0 \<and> sorted_wrt (\<ge>) (prefix_stall_ms row)
     \<and> (case suffix_stall_ms row of None \<Rightarrow> True | Some s \<Rightarrow> suffix_ok n s)"

definition model_ok :: "stall_model \<Rightarrow> bool" where
  "model_ok m \<longleftrightarrow>
     int (length (sm_prefix_bytes m)) = sm_group_count m + 1 \<and> sorted (sm_prefix_bytes m)
     \<and> sm_rows m \<noteq> [] \<and> sm_tokens m = map input_tokens (sm_rows m)
     \<and> sorted_wrt (<) (sm_tokens m) \<and> (\<forall>row \<in> set (sm_rows m). row_ok (sm_group_count m) row)"

definition table_ok :: "stall_table \<Rightarrow> bool" where
  "table_ok t \<longleftrightarrow> (\<forall>(k, m) \<in> set (st_models t). model_ok m)"

lemma check_suffix_iff: "check_suffix n suffix = Inr u \<longleftrightarrow> suffix_ok n suffix"
  by (auto simp: check_suffix_def suffix_ok_def any_adjacent_sorted split: if_splits)

lemma check_row_iff: "check_row n row = Inr u \<longleftrightarrow> row_ok n row"
  by (auto simp: check_row_def row_ok_def Let_def any_adjacent_antitone check_suffix_iff
      split: if_splits option.splits)

lemma check_rows_iff:
  "r_foldl (\<lambda>_. check_row n) () rows = Inr u \<longleftrightarrow> (\<forall>row \<in> set rows. row_ok n row)"
  by (induction rows) (auto simp: py_simps check_row_iff)

lemma load_model_ok: "load_model item = Inr m \<Longrightarrow> model_ok m"
  by (auto simp: load_model_def Let_def py_simps check_rows_iff model_ok_def
      any_adjacent_sorted strict_sorted_iff split: if_splits)

lemma table_ok_model: "table_ok t \<Longrightarrow> map_of (st_models t) model_id = Some m \<Longrightarrow> model_ok m"
  by (auto simp: table_ok_def dest: map_of_SomeD)

text \<open>A table is accepted exactly when every model of the document passes its checks.\<close>

lemma make_table_models:
  assumes "make_table doc ex = Inr t"
  shows "list_all2 (\<lambda>(k, item) (k', m). k = k' \<and> load_model item = Inr m)
           (doc_models doc) (st_models t)"
  using assms
  by (auto simp: make_table_def py_simps r_map_Inr_iff split: if_splits elim!: list_all2_mono)

lemma make_table_table_ok:
  assumes "make_table doc ex = Inr t"
  shows "table_ok t"
proof -
  have "model_ok m" if "(k, m) \<in> set (st_models t)" for k m
    using make_table_models [OF assms] that
    by (auto simp: list_all2_conv_all_nth set_conv_nth split: prod.splits)
       (metis fst_conv load_model_ok snd_conv surj_pair)
  then show ?thesis by (auto simp: table_ok_def)
qed

section \<open>Interpolation\<close>

text \<open>
  On a strictly increasing token column, an input length is on a row or strictly between two
  neighbouring rows, with a weight that is non-negative and, unless the lookup extrapolates,
  at most one.
\<close>

lemma strict_sorted_nth_less:
  "sorted_wrt (<) xs \<Longrightarrow> i < j \<Longrightarrow> j < length xs \<Longrightarrow> xs ! i < (xs ! j :: int)"
  by (simp add: sorted_wrt_iff_nth_less)

lemma interp_position_cases:
  assumes sorted: "sorted_wrt (<) tokens" and ne: "tokens \<noteq> []"
  obtains
    (row) i where "interp_position ex tokens x = Inr (AtRow i)" "i < length tokens"
      "i = 0 \<and> x \<le> tokens ! 0 \<or> i = length tokens - 1 \<and> tokens ! i \<le> x"
  | (between) l w where "interp_position ex tokens x = Inr (Between l (Suc l) w)"
      "Suc l < length tokens" "tokens ! l \<le> x" "0 \<le> w" "ex = Clamp \<Longrightarrow> w \<le> 1"
      "w * (of_int (tokens ! Suc l) - of_int (tokens ! l)) = of_int x - of_int (tokens ! l)"
proof (cases "x \<le> hd tokens \<or> last tokens \<le> x \<and> (ex = Clamp \<or> length tokens = 1)")
  case True
  with ne show ?thesis
    by (intro row [of "if x \<le> hd tokens then 0 else length tokens - 1"])
       (auto simp: interp_position_def hd_conv_nth last_conv_nth)
next
  case False
  define u where "u = (if last tokens \<le> x then length tokens - 1 else bisect_right tokens x)"
  have len: "1 < length tokens"
    using ne False by (cases tokens) (auto simp: last_conv_nth)
  have hd_le: "hd tokens \<le> x" using False by simp
  have u_all: "0 < u \<and> u < length tokens \<and> tokens ! (u - 1) \<le> x \<and> (ex = Clamp \<longrightarrow> x \<le> tokens ! u)"
  proof (cases "last tokens \<le> x")
    case True
    have "tokens ! (length tokens - 1 - 1) < tokens ! (length tokens - 1)"
      using sorted len by (intro strict_sorted_nth_less) auto
    with True False len ne show ?thesis
      by (auto simp: u_def last_conv_nth)
  next
    case last: False
    have pos: "0 < bisect_right tokens x"
      using ne hd_le by (cases tokens) (auto simp: bisect_right_def)
    have "bisect_right tokens x \<noteq> length tokens"
      using last ne bisect_right_before [of "length tokens - 1" tokens x]
      by (auto simp: last_conv_nth)
    then have "bisect_right tokens x < length tokens"
      using bisect_right_le [of tokens x] by simp
    with last pos show ?thesis
      by (auto simp: u_def intro: bisect_right_before order.strict_implies_order bisect_right_at)
  qed
  then have u: "0 < u" "u < length tokens" "tokens ! (u - 1) \<le> x"
    and clamp: "ex = Clamp \<Longrightarrow> x \<le> tokens ! u" and su: "Suc (u - 1) = u" by auto
  have step: "tokens ! (u - 1) < tokens ! u"
    using sorted u by (intro strict_sorted_nth_less) auto
  let ?d = "of_int (tokens ! u) - of_int (tokens ! (u - 1)) :: rat"
  let ?w = "(of_int x - of_int (tokens ! (u - 1))) / ?d"
  have d: "0 < ?d" using step by simp
  have "interp_position ex tokens x = Inr (Between (u - 1) (Suc (u - 1)) ?w)"
    using False ne d u(1) by (auto simp: interp_position_def u_def [symmetric] Let_def)
  moreover have "0 \<le> ?w" using d u by simp
  moreover have "ex = Clamp \<Longrightarrow> ?w \<le> 1" using d clamp by simp
  ultimately show ?thesis
    using d u by (intro between [of "u - 1" ?w]) (auto simp: su)
qed

lemma interp_bounds:
  fixes a b :: rat
  assumes "0 \<le> w" "w \<le> 1" "a \<le> a'" "b \<le> b'"
  shows "a + w * (b - a) \<le> a' + w * (b' - a')"
proof -
  have "(1 - w) * a + w * b \<le> (1 - w) * a' + w * b'"
    using assms by (intro add_mono mult_left_mono) auto
  then show ?thesis by (simp add: algebra_simps)
qed

text \<open>
  A lookup of a validated model never raises, and its value is read off the rows of the model:
  the general form, from which the properties below follow.
\<close>

definition stall_at :: "stall_model \<Rightarrow> nat \<Rightarrow> nat \<Rightarrow> rat" where
  "stall_at m i p = prefix_stall_ms (sm_rows m ! i) ! p"

definition pos_value :: "interp_pos \<Rightarrow> (nat \<Rightarrow> rat) \<Rightarrow> rat" where
  "pos_value pos v =
     (case pos of AtRow i \<Rightarrow> v i | Between l u w \<Rightarrow> max 0 (v l + w * (v u - v l)))"

lemma interpolate_clamped_total:
  assumes "\<And>i. (case pos of AtRow j \<Rightarrow> i = j | Between l u w \<Rightarrow> i = l \<or> i = u) \<Longrightarrow> value i = Inr (v i)"
  shows "interpolate_clamped pos value = Inr (pos_value pos v)"
  using assms by (cases pos) (auto simp: interpolate_clamped_def interpolate_def pos_value_def)

lemma row_value_prefix:
  assumes "model_ok m" "i < length (sm_rows m)" "int p \<le> sm_group_count m"
  shows "row_value PrefixStall p (sm_rows m) i = Inr (stall_at m i p)"
proof -
  have "row_ok (sm_group_count m) (sm_rows m ! i)" using assms by (simp add: model_ok_def)
  then have "p < length (prefix_stall_ms (sm_rows m ! i))" using assms(3) by (simp add: row_ok_def)
  then show ?thesis by (simp add: row_value_def stall_at_def)
qed

definition valid_pos :: "extrapolation \<Rightarrow> nat \<Rightarrow> interp_pos \<Rightarrow> bool" where
  "valid_pos ex n pos \<longleftrightarrow>
     (case pos of AtRow i \<Rightarrow> i < n
      | Between l u w \<Rightarrow> u = Suc l \<and> u < n \<and> 0 \<le> w \<and> (ex = Clamp \<longrightarrow> w \<le> 1))"

lemma interp_position_valid:
  assumes "sorted_wrt (<) tokens" "tokens \<noteq> []"
  obtains pos where "interp_position ex tokens x = Inr pos" "valid_pos ex (length tokens) pos"
  using assms by (cases rule: interp_position_cases [of tokens ex x]) (auto simp: valid_pos_def)

lemma lookup_pos:
  assumes "table_ok t" "map_of (st_models t) model_id = Some m"
  obtains pos where "valid_pos (st_extrapolation t) (length (sm_rows m)) pos"
    "interp_position (st_extrapolation t) (sm_tokens m) x = Inr pos"
    "\<And>p. int p \<le> sm_group_count m \<Longrightarrow>
       lookup t model_id x p = Inr (pos_value pos (\<lambda>i. stall_at m i p))"
proof -
  have ok: "model_ok m" by (rule table_ok_model) fact+
  then have tok: "sorted_wrt (<) (sm_tokens m)" "sm_tokens m \<noteq> []"
      "length (sm_tokens m) = length (sm_rows m)" "sm_rows m \<noteq> []"
    by (auto simp: model_ok_def)
  obtain pos where pos: "interp_position (st_extrapolation t) (sm_tokens m) x = Inr pos"
      "valid_pos (st_extrapolation t) (length (sm_rows m)) pos"
    using interp_position_valid [OF tok(1,2)] tok(3) by metis
  have "lookup t model_id x p = Inr (pos_value pos (\<lambda>i. stall_at m i p))"
    if p: "int p \<le> sm_group_count m" for p
  proof -
    have "interpolate_clamped pos (row_value PrefixStall p (sm_rows m))
        = Inr (pos_value pos (\<lambda>i. stall_at m i p))"
      using pos(2) by (intro interpolate_clamped_total row_value_prefix ok p)
        (auto simp: valid_pos_def split: interp_pos.splits)
    with assms(2) p tok(4) pos(1) show ?thesis
      by (simp add: lookup_def lookup_field_def)
  qed
  with pos that show ?thesis by blast
qed

lemma stall_at_antitone:
  assumes "model_ok m" "i < length (sm_rows m)" "p \<le> q" "int q \<le> sm_group_count m"
  shows "stall_at m i q \<le> stall_at m i p"
proof -
  have "row_ok (sm_group_count m) (sm_rows m ! i)" using assms by (simp add: model_ok_def)
  then show ?thesis
    using assms(3,4) by (auto simp: row_ok_def stall_at_def intro: sorted_wrt_ge_nth)
qed

lemma stall_at_full:
  assumes "model_ok m" "i < length (sm_rows m)" "int p = sm_group_count m"
  shows "stall_at m i p = 0"
proof -
  have ok: "row_ok (sm_group_count m) (sm_rows m ! i)" using assms by (simp add: model_ok_def)
  then have "p = length (prefix_stall_ms (sm_rows m ! i)) - 1" using assms(3) by (auto simp: row_ok_def)
  with ok show ?thesis by (auto simp: row_ok_def stall_at_def last_conv_nth)
qed

lemma group_count_nonneg: "model_ok m \<Longrightarrow> 0 \<le> sm_group_count m"
  by (auto simp: model_ok_def row_ok_def neq_Nil_conv)

lemma stall_at_nonneg:
  assumes "model_ok m" "i < length (sm_rows m)" "int p \<le> sm_group_count m"
  shows "0 \<le> stall_at m i p"
  using stall_at_antitone [OF assms(1,2), of p "nat (sm_group_count m)"]
    stall_at_full [OF assms(1,2), of "nat (sm_group_count m)"] assms(3) group_count_nonneg [OF assms(1)]
  by auto

lemma pos_value_mono:
  assumes "valid_pos Clamp n pos" "\<And>i. i < n \<Longrightarrow> v i \<le> v' i"
  shows "pos_value pos v \<le> pos_value pos v'"
proof (cases pos)
  case (AtRow i)
  with assms show ?thesis by (simp add: valid_pos_def pos_value_def)
next
  case (Between l u w)
  with assms have "v l + w * (v u - v l) \<le> v' l + w * (v' u - v' l)"
    by (intro interp_bounds) (auto simp: valid_pos_def)
  with Between show ?thesis
    by (simp only: pos_value_def interp_pos.case max.mono)
qed

lemma pos_value_nonneg:
  assumes "valid_pos ex n pos" "\<And>i. i < n \<Longrightarrow> 0 \<le> v i"
  shows "0 \<le> pos_value pos v"
  using assms by (auto simp: valid_pos_def pos_value_def split: interp_pos.splits)

lemma pos_value_zero:
  assumes "valid_pos ex n pos" "\<And>i. i < n \<Longrightarrow> v i = 0"
  shows "pos_value pos v = 0"
  using assms by (auto simp: valid_pos_def pos_value_def split: interp_pos.splits)

section \<open>Properties of the lookup\<close>

text \<open>
  C14. The constructor validates: whatever table \<open>PrefixStallTable\<close> accepts has, for every
  model of the document and in its order, as many prefix sizes and stalls as prefixes, prefix
  sizes that never shrink, stalls that never grow with the prefix and end at zero, and measured
  input lengths that are strictly increasing.
\<close>

theorem make_table_valid:
  assumes "make_table doc ex = Inr t"
  shows "table_ok t \<and> map fst (st_models t) = map fst (doc_models doc) \<and> st_extrapolation t = ex"
proof -
  have "map fst (doc_models doc) = map fst (st_models t)"
    using make_table_models [OF assms]
    by (induction rule: list_all2_induct) (auto split: prod.splits)
  moreover have "st_extrapolation t = ex"
    using assms by (auto simp: make_table_def py_simps split: if_splits)
  ultimately show ?thesis using make_table_table_ok [OF assms] by simp
qed

text \<open>
  C15. With the default clamping, looking a validated table up never raises for a prefix of the
  model, never returns a negative stall, and a longer resident prefix never has a larger stall;
  the fully resident model has none.
\<close>

theorem lookup_antitone:
  assumes "table_ok t" "map_of (st_models t) model_id = Some m" "st_extrapolation t = Clamp"
    and "p \<le> q" "int q \<le> sm_group_count m"
  shows "\<exists>a b. lookup t model_id x p = Inr a \<and> lookup t model_id x q = Inr b
     \<and> 0 \<le> b \<and> b \<le> a \<and> (int q = sm_group_count m \<longrightarrow> b = 0)"
proof -
  have ok: "model_ok m" by (rule table_ok_model) fact+
  obtain pos where pos: "valid_pos Clamp (length (sm_rows m)) pos"
    and val: "\<And>p. int p \<le> sm_group_count m \<Longrightarrow>
       lookup t model_id x p = Inr (pos_value pos (\<lambda>i. stall_at m i p))"
    using lookup_pos [OF assms(1,2), of x] assms(3) by metis
  have p: "int p \<le> sm_group_count m" using assms(4,5) by linarith
  have "pos_value pos (\<lambda>i. stall_at m i q) \<le> pos_value pos (\<lambda>i. stall_at m i p)"
    by (rule pos_value_mono [OF pos]) (rule stall_at_antitone [OF ok _ assms(4,5)])
  moreover have "0 \<le> pos_value pos (\<lambda>i. stall_at m i q)"
    by (rule pos_value_nonneg [OF pos]) (rule stall_at_nonneg [OF ok _ assms(5)])
  moreover have "pos_value pos (\<lambda>i. stall_at m i q) = 0" if "int q = sm_group_count m"
    by (rule pos_value_zero [OF pos]) (rule stall_at_full [OF ok _ that])
  ultimately show ?thesis using val [OF p] val [OF assms(5)] by auto
qed

text \<open>
  A measured point is reproduced: looking up a measured input length returns the stall of
  that row, in both extrapolation modes.
\<close>

lemma lookup_measured:
  assumes "table_ok t" "map_of (st_models t) model_id = Some m"
    and "i < length (sm_rows m)" "int p \<le> sm_group_count m"
  shows "lookup t model_id (input_tokens (sm_rows m ! i)) p = Inr (prefix_stall_ms (sm_rows m ! i) ! p)"
proof -
  have ok: "model_ok m" by (rule table_ok_model) fact+
  let ?x = "input_tokens (sm_rows m ! i)"
  have tok: "sorted_wrt (<) (sm_tokens m)" "sm_tokens m \<noteq> []" "length (sm_tokens m) = length (sm_rows m)"
    and x: "?x = sm_tokens m ! i"
    using ok assms(3) by (auto simp: model_ok_def)
  obtain pos where pos: "interp_position (st_extrapolation t) (sm_tokens m) ?x = Inr pos"
    and val: "lookup t model_id ?x p = Inr (pos_value pos (\<lambda>i. stall_at m i p))"
    using lookup_pos [OF assms(1,2), of ?x] assms(4) by metis
  have "pos_value pos (\<lambda>i. stall_at m i p) = stall_at m i p"
    using tok(1,2)
  proof (cases rule: interp_position_cases [of _ "st_extrapolation t" ?x])
    case (row j)
    have "j = i"
      using row(2,3) assms(3) tok x strict_sorted_nth_less [OF tok(1), of j i]
        strict_sorted_nth_less [OF tok(1), of i j]
      by (cases "j < i"; cases "i < j") (auto simp: less_Suc_eq_le)
    with row(1) pos show ?thesis by (simp add: pos_value_def)
  next
    case (between l w)
    let ?a = "of_int (sm_tokens m ! l) :: rat" and ?b = "of_int (sm_tokens m ! Suc l) :: rat"
    have ab: "?a < ?b" using strict_sorted_nth_less [OF tok(1), of l "Suc l"] between(2) by simp
    have n: "0 \<le> stall_at m i p" by (rule stall_at_nonneg [OF ok assms(3,4)])
    have pos_eq: "pos = Between l (Suc l) w" using between(1) pos by simp
    consider "i = l" | "i = Suc l" | "Suc l < i"
      using strict_sorted_nth_less [OF tok(1), of i l] between(2,3) x by fastforce
    then show ?thesis
    proof cases
      case 1
      with between(6) x ab have "w = 0" by simp
      with 1 n pos_eq show ?thesis by (simp add: pos_value_def)
    next
      case 2
      with between(6) x ab have "w = 1" by simp
      with 2 n pos_eq show ?thesis by (simp add: pos_value_def)
    next
      case 3
      have "interp_position (st_extrapolation t) (sm_tokens m) ?x = Inr (Between l (Suc l) w)"
        by (rule between(1))
      then have "Suc l = bisect_right (sm_tokens m) ?x \<or> Suc l = length (sm_tokens m) - 1"
        by (auto simp: interp_position_def Let_def py_simps split: if_splits)
      moreover have "Suc l \<noteq> length (sm_tokens m) - 1" using 3 assms(3) tok(3) by simp
      ultimately have "?x < sm_tokens m ! Suc l"
        using bisect_right_at [of "sm_tokens m" ?x] between(2) by simp
      moreover have "sm_tokens m ! Suc l < ?x"
        unfolding x using tok(1,3) 3 assms(3) by (intro strict_sorted_nth_less) auto
      ultimately show ?thesis by simp
    qed
  qed
  with val show ?thesis by (simp add: stall_at_def)
qed

section \<open>The curve of a model\<close>

lemma length_envelope [simp]: "length (envelope vs) = length vs"
  by (induction vs rule: envelope.induct) (auto simp: Let_def)

lemma last_envelope: "vs \<noteq> [] \<Longrightarrow> last (envelope vs) = last vs"
proof (induction vs rule: envelope.induct)
  case (3 v w vs)
  have "envelope (w # vs) \<noteq> []" by (metis length_envelope length_0_conv list.discI)
  with 3 show ?case by (simp add: Let_def)
qed auto

lemma envelope_antitone: "sorted_wrt (\<ge>) (envelope vs)"
proof (induction vs rule: envelope.induct)
  case (3 v w vs)
  have "envelope (w # vs) \<noteq> []" by (metis length_envelope length_0_conv list.discI)
  then obtain y ys where y: "envelope (w # vs) = y # ys" by (cases "envelope (w # vs)") auto
  with 3 have "sorted_wrt (\<ge>) (y # ys)" by simp
  with y show ?case by (auto simp: Let_def)
qed auto

text \<open>A curve that is antitone already is left as it is.\<close>

lemma envelope_id: "sorted_wrt (\<ge>) vs \<Longrightarrow> envelope vs = vs"
  by (induction vs rule: envelope.induct) (auto simp: Let_def max_def)

text \<open>
  \<open>curve\<close> of a validated table returns one stall per prefix, in both extrapolation
  modes: never growing along the prefixes, zero for the full model, and, when the table clamps,
  exactly the looked-up stalls.
\<close>

lemma curve_correct:
  assumes "table_ok t" "map_of (st_models t) model_id = Some m"
  shows "\<exists>vs. curve t model_id x = Inr vs \<and> int (length vs) = sm_group_count m + 1
     \<and> sorted_wrt (\<ge>) vs \<and> last vs = 0
     \<and> (st_extrapolation t = Clamp \<longrightarrow> (\<forall>p < length vs. lookup t model_id x p = Inr (vs ! p)))"
proof -
  have ok: "model_ok m" by (rule table_ok_model) fact+
  let ?n = "nat (sm_group_count m + 1)"
  have n: "0 < ?n" "int ?n = sm_group_count m + 1" using group_count_nonneg [OF ok] by auto
  obtain pos where pos: "valid_pos (st_extrapolation t) (length (sm_rows m)) pos"
    and val: "\<And>p. int p \<le> sm_group_count m \<Longrightarrow>
       lookup t model_id x p = Inr (pos_value pos (\<lambda>i. stall_at m i p))"
    using lookup_pos [OF assms, of x] by metis
  define f where "f p = pos_value pos (\<lambda>i. stall_at m i p)" for p
  define vs where "vs = (map f [0..<?n])[?n - 1 := 0]"
  have "r_map (lookup t model_id x) [0..<?n] = Inr (map f [0..<?n])"
    by (rule r_map_total) (use n(2) in \<open>auto simp: f_def intro!: val\<close>)
  then have c: "curve t model_id x = Inr (envelope vs)"
    using assms(2) n(1) by (simp add: curve_def group_count_def vs_def)
  have last: "last (envelope vs) = 0" using n(1) by (simp add: last_envelope vs_def last_conv_nth)
  have "lookup t model_id x p = Inr (envelope vs ! p)" if ex: "st_extrapolation t = Clamp" and p: "p < ?n" for p
  proof -
    have mono: "f q \<le> f p" if "p \<le> q" "q < ?n" for p q
      unfolding f_def using pos ex that
      by (intro pos_value_mono [of "length (sm_rows m)"] stall_at_antitone [OF ok]) auto
    have f0: "f (?n - 1) = 0"
      unfolding f_def by (rule pos_value_zero [OF pos], rule stall_at_full [OF ok]) (use n in auto)
    have vs_f: "vs = map f [0..<?n]"
      by (rule nth_equalityI) (use f0 in \<open>auto simp: vs_def nth_list_update\<close>)
    have "sorted_wrt (\<ge>) vs" unfolding vs_f sorted_wrt_iff_nth_less using mono by auto
    then have "envelope vs ! p = f p" using p by (simp add: envelope_id vs_f)
    then show ?thesis using val [of p] p by (simp add: f_def)
  qed
  then show ?thesis using c last envelope_antitone [of vs] n by (auto simp: vs_def)
qed

section \<open>Splitting an exposed stall\<close>

text \<open>
  The replay over a fixed load time per group: what \<open>replay_groups\<close> computes when the bandwidth
  is not zero.
\<close>

fun replay_pure ::
  "(nat \<Rightarrow> bool) \<Rightarrow> (stall_group \<Rightarrow> rat) \<Rightarrow> nat \<Rightarrow> (rat \<times> stall_group) list \<Rightarrow>
   (rat \<times> rat) option \<Rightarrow> rat \<Rightarrow> (rat \<times> rat) option" where
  "replay_pure resident load index [] prev copy_end = prev"
| "replay_pure resident load index ((baseline, grp) # rest) prev copy_end =
     (let compute_ready =
            (case prev of None \<Rightarrow> baseline | Some (actual, bp) \<Rightarrow> actual + max 0 (baseline - bp)) in
      if sg_observed grp \<and> \<not> resident index then
        (let copy_end' = (case prev of None \<Rightarrow> copy_end | Some (actual, _) \<Rightarrow> max copy_end actual) + load grp in
         replay_pure resident load (Suc index) rest
           (Some (max compute_ready copy_end', baseline)) copy_end')
      else replay_pure resident load (Suc index) rest (Some (compute_ready, baseline)) copy_end)"

definition group_load :: "rat option \<Rightarrow> rat \<Rightarrow> stall_group \<Rightarrow> rat" where
  "group_load bandwidth allocation_ms grp =
     (case bandwidth of None \<Rightarrow> 0 | Some b \<Rightarrow> of_int (sg_logical_bytes grp) / b) + allocation_ms"

lemma replay_groups_pure:
  assumes "bandwidth \<noteq> Some 0"
  shows "replay_groups resident bandwidth a index xs prev copy_end
     = Inr (replay_pure resident (group_load bandwidth a) index xs prev copy_end)"
  using assms
  by (induction xs arbitrary: index prev copy_end)
     (auto simp: Let_def group_load_def split: option.splits)

fun prev_le :: "(rat \<times> rat) option \<Rightarrow> (rat \<times> rat) option \<Rightarrow> bool" where
  "prev_le None None = True"
| "prev_le (Some (a, b)) (Some (a', b')) = (a \<le> a' \<and> b = b')"
| "prev_le _ _ = False"

lemma replay_pure_mono:
  assumes "\<And>b g. (b, g) \<in> set xs \<Longrightarrow> load g \<le> load' g" "prev_le prev prev'" "copy_end \<le> copy_end'"
  shows "prev_le (replay_pure resident load index xs prev copy_end)
     (replay_pure resident load' index xs prev' copy_end')"
  using assms
proof (induction xs arbitrary: index prev prev' copy_end copy_end')
  case (Cons x xs)
  obtain b g where x: "x = (b, g)" by (cases x)
  have load: "load g \<le> load' g" and rest: "\<And>b g. (b, g) \<in> set xs \<Longrightarrow> load g \<le> load' g"
    using Cons.prems(1) x by auto
  show ?case
    using Cons.prems(2,3) load unfolding x
    by (cases prev; cases prev')
       (auto simp: Let_def intro!: Cons.IH [OF rest] add_mono max.mono)
qed simp

lemma replay_pure_Some: "prev \<noteq> None \<or> xs \<noteq> [] \<Longrightarrow> replay_pure resident load index xs prev copy_end \<noteq> None"
  by (induction xs arbitrary: index prev copy_end) (auto simp: Let_def)

definition stall_pure :: "rat list \<Rightarrow> stall_group list \<Rightarrow> (nat \<Rightarrow> bool) \<Rightarrow> (stall_group \<Rightarrow> rat) \<Rightarrow> rat" where
  "stall_pure boundaries grps resident load =
     (case replay_pure resident load 0 (zip boundaries grps) None 0 of
        None \<Rightarrow> 0 | Some (actual, _) \<Rightarrow> max 0 (actual - last boundaries))"

lemma simulate_component_stall_pure:
  assumes "bandwidth \<noteq> Some 0" "grps \<noteq> []"
  shows "simulate_component_stall boundaries grps resident bandwidth a
     = Inr (stall_pure boundaries grps resident (group_load bandwidth a))"
proof (cases boundaries)
  case (Cons b bs)
  then have "replay_pure resident (group_load bandwidth a) 0 (zip boundaries grps) None 0 \<noteq> None"
    using assms(2) by (intro replay_pure_Some) (auto simp: neq_Nil_conv)
  with assms Cons show ?thesis
    by (auto simp: simulate_component_stall_def replay_groups_pure stall_pure_def split: option.splits)
qed (simp add: simulate_component_stall_def stall_pure_def)

lemma stall_pure_mono:
  assumes "\<And>g. g \<in> set grps \<Longrightarrow> load g \<le> load' g"
  shows "stall_pure boundaries grps resident load \<le> stall_pure boundaries grps resident load'"
proof -
  have "prev_le (replay_pure resident load 0 (zip boundaries grps) None 0)
     (replay_pure resident load' 0 (zip boundaries grps) None 0)"
    by (rule replay_pure_mono) (auto dest: set_zip_rightD intro: assms)
  then show ?thesis
    by (auto simp: stall_pure_def split: option.splits intro!: max.mono)
qed

lemma shapley_split_additive:
  assumes "0 \<le> target" "h2d_only \<le> both" "allocation_only \<le> both" "0 \<le> h2d_only" "0 \<le> allocation_only"
    and "shapley_split target h2d_only allocation_only both = (h, a)"
  shows "0 \<le> h \<and> 0 \<le> a \<and> h + a = target"
proof -
  let ?h = "(1 / 2) * (h2d_only + both - allocation_only)"
  let ?a = "(1 / 2) * (allocation_only + both - h2d_only)"
  have sum: "?h + ?a = both" by (simp add: field_simps)
  show ?thesis
  proof (cases "target \<le> 0 \<or> both \<le> 0")
    case True
    then have "shapley_split target h2d_only allocation_only both = (max 0 target, 0)"
      unfolding shapley_split_def Let_def sum by simp
    with assms(1,6) show ?thesis by auto
  next
    case False
    let ?s = "target / both"
    have "0 \<le> ?h * ?s" "0 \<le> ?a * ?s"
      using assms False by (auto intro!: mult_nonneg_nonneg divide_nonneg_pos)
    moreover have "?h * ?s + ?a * ?s = target"
      unfolding distrib_right [symmetric] sum using False by simp
    moreover have "shapley_split target h2d_only allocation_only both
        = (max 0 (?h * ?s), max 0 (?a * ?s))"
      unfolding shapley_split_def Let_def sum using False by simp
    ultimately show ?thesis using assms(6) by auto
  qed
qed

definition row_stall ::
  "stall_model \<Rightarrow> stall_group list \<Rightarrow> (nat \<Rightarrow> bool) \<Rightarrow> (stall_group \<Rightarrow> rat) \<Rightarrow> nat \<Rightarrow> rat" where
  "row_stall m grps resident load i =
     stall_pure (the (group_boundary_ms (sm_rows m ! i))) grps resident load"

lemma replay_row_pure:
  assumes "bandwidth \<noteq> 0" "grps \<noteq> []" "group_boundary_ms (sm_rows m ! i) \<noteq> None"
  shows "replay_row grps resident bandwidth al (sm_rows m) use_h2d use_al i
     = Inr (row_stall m grps resident
         (group_load (if use_h2d then Some bandwidth else None) (if use_al then al else 0)) i)"
proof -
  obtain bs where "group_boundary_ms (sm_rows m ! i) = Some bs" using assms(3) by auto
  then show ?thesis
    using simulate_component_stall_pure
        [of "if use_h2d then Some bandwidth else None" grps bs resident "if use_al then al else 0"] assms(1,2)
    by (auto simp: replay_row_def row_stall_def)
qed

lemma row_stall_nonneg: "0 \<le> row_stall m grps resident load i"
  by (auto simp: row_stall_def stall_pure_def split: option.splits)

lemma exposed_components_split:
  assumes "table_ok t" "map_of (st_models t) model_id = Some m" "st_extrapolation t = Clamp"
    and h2d: "st_h2d_gbps t = Some gbps" "0 < gbps"
    and al: "st_segment_allocation_ms t = Some al" "0 \<le> al"
    and grps: "sm_groups m = Some grps" "grps \<noteq> []" "\<forall>g \<in> set grps. 0 \<le> sg_logical_bytes g"
    and rows: "\<forall>row \<in> set (sm_rows m). group_boundary_ms row \<noteq> None"
    and p: "int p \<le> sm_group_count m"
  shows "\<exists>h a target. lookup t model_id x p = Inr target
     \<and> exposed_loading_components t model_id x p PrefixStall = Inr (h, a)
     \<and> 0 \<le> h \<and> 0 \<le> a \<and> h + a = target"
proof -
  have ok: "model_ok m" by (rule table_ok_model) fact+
  let ?res = "\<lambda>index. index < p" and ?bw = "gbps * 1000000"
  obtain pos where pos: "valid_pos Clamp (length (sm_rows m)) pos"
    and ip: "interp_position (st_extrapolation t) (sm_tokens m) x = Inr pos"
    and val: "lookup t model_id x p = Inr (pos_value pos (\<lambda>i. stall_at m i p))"
    using lookup_pos [OF assms(1,2), of x] assms(3) p by metis
  define v where "v u_h u_a = pos_value pos (row_stall m grps ?res
    (group_load (if u_h then Some ?bw else None) (if u_a then al else 0)))" for u_h u_a
  have replay: "interpolate_clamped pos (replay_row grps ?res ?bw al (sm_rows m) u_h u_a) = Inr (v u_h u_a)"
    for u_h u_a
    unfolding v_def
    by (rule interpolate_clamped_total, rule replay_row_pure)
       (use h2d grps rows pos in \<open>auto simp: valid_pos_def split: interp_pos.splits\<close>)
  have mono: "v u_h u_a \<le> v True True" for u_h u_a
    unfolding v_def row_stall_def
    by (rule pos_value_mono [OF pos], rule stall_pure_mono)
       (use h2d al grps in \<open>auto simp: group_load_def intro!: add_mono divide_nonneg_pos\<close>)
  have nonneg: "0 \<le> v u_h u_a" for u_h u_a
    unfolding v_def by (rule pos_value_nonneg [OF pos]) (rule row_stall_nonneg)
  define target where "target = pos_value pos (\<lambda>i. stall_at m i p)"
  obtain h a where ha: "shapley_split target (v True False) (v False True) (v True True) = (h, a)"
    by (cases "shapley_split target (v True False) (v False True) (v True True)")
  have t0: "0 \<le> target"
    unfolding target_def by (rule pos_value_nonneg [OF pos]) (rule stall_at_nonneg [OF ok _ p])
  obtain g gs where ggs: "grps = g # gs" using grps(2) by (cases grps) auto
  have "exposed_loading_components t model_id x p PrefixStall = Inr (h, a)"
    using assms(2) h2d(1) al(1) grps(1) rows val ha ip replay
    unfolding target_def [symmetric]
    by (simp add: exposed_loading_components_def ggs list_ex_iff lookup_def [symmetric] Let_def) fastforce
  moreover have "0 \<le> h \<and> 0 \<le> a \<and> h + a = target"
    by (rule shapley_split_additive [OF t0 mono mono nonneg nonneg ha])
  ultimately show ?thesis using val target_def by blast
qed

text \<open>
  The split of an exposed stall is additive: on a validated, clamping table whose profile
  carries the group boundaries, \<open>exposed_loading_components\<close> returns two non-negative shares,
  transfer and allocation, that add up to the stall the table reports for that prefix.
\<close>

lemma exposed_components_additive:
  assumes "table_ok t" "map_of (st_models t) model_id = Some m" "st_extrapolation t = Clamp"
    and h2d: "st_h2d_gbps t = Some gbps" "0 < gbps"
    and al: "st_segment_allocation_ms t = Some al" "0 \<le> al"
    and grps: "sm_groups m = Some grps" "grps \<noteq> []" "\<forall>g \<in> set grps. 0 \<le> sg_logical_bytes g"
    and rows: "\<forall>row \<in> set (sm_rows m). group_boundary_ms row \<noteq> None"
    and p: "int p \<le> sm_group_count m"
  shows "\<exists>h a target. lookup t model_id x p = Inr target
     \<and> exposed_loading_components t model_id x p PrefixStall = Inr (h, a)
     \<and> 0 \<le> h \<and> 0 \<le> a \<and> h + a = target"
  using assms by (rule exposed_components_split)

section \<open>Concrete tables\<close>

text \<open>
  A small profiled document: one model of two groups, measured at 50 and 100 input tokens
  (listed out of order, as the constructor sorts them).
\<close>

definition demo_row :: "int \<Rightarrow> rat list \<Rightarrow> stall_row" where
  "demo_row x stalls = \<lparr> input_tokens = x, prefix_stall_ms = stalls, suffix_stall_ms = None,
     group_boundary_ms = Some [1, 2], median_baseline_wall_ms = Some 5 \<rparr>"

definition demo_doc :: stall_document where
  "demo_doc = \<lparr> doc_format = ''layerweave-prefix-stall-v1'', doc_h2d_gbps = Some 20,
     doc_segment_allocation_ms = Some (1 / 2),
     doc_models = [(7, \<lparr> doc_group_count = 2, doc_prefix_bytes = [0, 10, 30],
       doc_rows = [demo_row 100 [8, 3, 0], demo_row 50 [6, 2, 0]],
       doc_groups = Some [\<lparr> sg_logical_bytes = 10, sg_observed = True \<rparr>,
                          \<lparr> sg_logical_bytes = 20, sg_observed = True \<rparr>] \<rparr>)] \<rparr>"

definition demo_model :: stall_model where
  "demo_model = \<lparr> sm_group_count = 2, sm_prefix_bytes = [0, 10, 30],
     sm_rows = [demo_row 50 [6, 2, 0], demo_row 100 [8, 3, 0]], sm_tokens = [50, 100],
     sm_groups = Some [\<lparr> sg_logical_bytes = 10, sg_observed = True \<rparr>,
                       \<lparr> sg_logical_bytes = 20, sg_observed = True \<rparr>] \<rparr>"

definition demo_table :: stall_table where
  "demo_table = \<lparr> st_extrapolation = Clamp, st_h2d_gbps = Some 20,
     st_segment_allocation_ms = Some (1 / 2), st_models = [(7, demo_model)] \<rparr>"

lemma demo_table_made: "make_table demo_doc Clamp = Inr demo_table"
  by (simp add: make_table_def demo_doc_def demo_table_def demo_model_def demo_row_def load_model_def
      Let_def check_row_def any_adjacent_def)

lemma demo_table_facts:
  "map_of (st_models demo_table) 7 = Some demo_model" "st_extrapolation demo_table = Clamp"
  "sm_group_count demo_model = 2" "st_h2d_gbps demo_table = Some 20"
  "st_segment_allocation_ms demo_table = Some (1 / 2)" "length (sm_rows demo_model) = 2"
  "sm_groups demo_model = Some [\<lparr> sg_logical_bytes = 10, sg_observed = True \<rparr>,
     \<lparr> sg_logical_bytes = 20, sg_observed = True \<rparr>]"
  by (simp_all add: demo_table_def demo_model_def)

lemma demo_table_ok: "table_ok demo_table"
  by (rule make_table_table_ok [OF demo_table_made])

theorem make_table_valid_witness:
  "make_table demo_doc Clamp = Inr demo_table \<and> table_ok demo_table \<and> map fst (st_models demo_table) = [7]"
  using make_table_valid [OF demo_table_made] demo_table_made by (simp add: demo_doc_def)

theorem lookup_antitone_witness:
  "\<exists>a b. lookup demo_table 7 75 1 = Inr a \<and> lookup demo_table 7 75 2 = Inr b \<and> 0 \<le> b \<and> b \<le> a \<and> b = 0"
  using lookup_antitone [OF demo_table_ok demo_table_facts(1,2), of 1 2 75]
  by (simp add: demo_table_facts)

text \<open>
  Linear extrapolation gives up what clamping guarantees: beyond the last measured length a
  validated table can report a larger stall for a longer resident prefix, so the looked-up
  stalls need the defensive envelope of \<open>curve\<close> (a plain lookup, as the eviction planner
  makes it, does not go through it).
\<close>

lemma linear_lookup_not_antitone:
  "\<exists>doc t. make_table doc Linear = Inr t \<and> lookup t 7 150 0 = Inr 10 \<and> lookup t 7 150 1 = Inr 20"
proof (intro exI conjI)
  let ?rows = "[demo_row 50 [10, 0, 0], demo_row 100 [10, 10, 0]]"
  let ?doc = "demo_doc\<lparr> doc_models := [(7, \<lparr> doc_group_count = 2, doc_prefix_bytes = [0, 10, 30],
       doc_rows = ?rows, doc_groups = None \<rparr>)] \<rparr>"
  let ?t = "\<lparr> st_extrapolation = Linear, st_h2d_gbps = Some 20, st_segment_allocation_ms = Some (1 / 2),
     st_models = [(7, \<lparr> sm_group_count = 2, sm_prefix_bytes = [0, 10, 30], sm_rows = ?rows,
       sm_tokens = [50, 100], sm_groups = None \<rparr>)] \<rparr>"
  show "make_table ?doc Linear = Inr ?t"
    by (simp add: make_table_def demo_doc_def demo_row_def load_model_def Let_def check_row_def any_adjacent_def)
  show "lookup ?t 7 150 0 = Inr 10" "lookup ?t 7 150 1 = Inr 20"
    by (simp_all add: lookup_def lookup_field_def interp_position_def interpolate_clamped_def
        interpolate_def row_value_def demo_row_def Let_def py_div_def)
qed

end
