(* ===== verification/Pareto_Search.thy ===== *)
theory Pareto_Search
  imports Py_Prelude
begin

text \<open>
  The search both knapsack solvers of the repository run: process the models one after the
  other, extend every kept state by every option of the model, prune. This theory states the
  search, and the interface a pruning step has to offer for the search to lose nothing, as a
  locale. \<open>Prefix_Mckp\<close> (the covering knapsack of the tensor simulator) and \<open>Layer_Mckp\<close>
  (the packing knapsack of the LayerWeave cache policy) interpret it.
\<close>

section \<open>The search\<close>

definition expand_states :: "('s \<Rightarrow> 'o \<Rightarrow> 's) \<Rightarrow> 's list \<Rightarrow> 'o list \<Rightarrow> 's list" where
  "expand_states ext states options = concat (map (\<lambda>s. map (ext s) options) states)"

fun search :: "('s list \<Rightarrow> 's list) \<Rightarrow> ('s \<Rightarrow> 'o \<Rightarrow> 's) \<Rightarrow> 's list \<Rightarrow> 'o list list \<Rightarrow> 's list" where
  "search prune ext states [] = states"
| "search prune ext states (os # oss) = search prune ext (prune (expand_states ext states os)) oss"

text \<open>The reference: every way to pick one option per model, applied in order.\<close>

definition all_states :: "('s \<Rightarrow> 'o \<Rightarrow> 's) \<Rightarrow> 's \<Rightarrow> 'o list list \<Rightarrow> 's set" where
  "all_states ext s oss = foldl ext s ` set (product_lists oss)"

lemma set_expand_states [simp]:
  "set (expand_states ext states options) = {ext s x |s x. s \<in> set states \<and> x \<in> set options}"
  by (auto simp: expand_states_def)

lemma all_states_Nil [simp]: "all_states ext s [] = {s}"
  by (simp add: all_states_def)

lemma all_states_Cons: "all_states ext s (os # oss) = (\<Union>x \<in> set os. all_states ext (ext s x) oss)"
proof -
  have "set (product_lists (os # oss)) = (\<Union>x \<in> set os. (#) x ` set (product_lists oss))"
    by auto
  then have "all_states ext s (os # oss) = foldl ext s ` (\<Union>x \<in> set os. (#) x ` set (product_lists oss))"
    by (simp add: all_states_def)
  also have "\<dots> = (\<Union>x \<in> set os. all_states ext (ext s x) oss)"
    by (simp add: all_states_def image_UN image_image)
  finally show ?thesis .
qed

lemma all_states_snoc:
  "all_states ext s (oss @ [os]) = {ext s' x |s' x. s' \<in> all_states ext s oss \<and> x \<in> set os}"
  by (induction oss arbitrary: s) (auto simp: all_states_Cons)

section \<open>What a pruning step must offer\<close>

text \<open>
  \<open>dom s' s\<close>: the state \<open>s'\<close> is at least as good as \<open>s\<close>, now and after any further options.
  \<open>viable s\<close>: the state may still lead to a solution. A prune that keeps a dominating state
  for every viable one, and invents none, keeps the search exact. \<open>inv\<close> holds of every state the
  search can reach, so that the pruning may rely on it.
\<close>

locale pareto_prune =
  fixes inv :: "'s \<Rightarrow> bool"
    and dom :: "'s \<Rightarrow> 's \<Rightarrow> bool"
    and viable :: "'s \<Rightarrow> bool"
    and ext :: "'s \<Rightarrow> 'o \<Rightarrow> 's"
    and good :: "'o \<Rightarrow> bool"
    and prune :: "'s list \<Rightarrow> 's list"
  assumes dom_refl: "dom s s"
    and dom_trans: "dom a b \<Longrightarrow> dom b c \<Longrightarrow> dom a c"
    and dom_ext: "dom s' s \<Longrightarrow> good x \<Longrightarrow> dom (ext s' x) (ext s x)"
    and viable_dom: "dom s' s \<Longrightarrow> viable s \<Longrightarrow> viable s'"
    and viable_ext: "good x \<Longrightarrow> viable (ext s x) \<Longrightarrow> viable s"
    and prune_subset: "set (prune states) \<subseteq> set states"
    and prune_viable: "s \<in> set (prune states) \<Longrightarrow> viable s"
    and prune_dom: "\<forall>s \<in> set states. inv s \<Longrightarrow> s \<in> set states \<Longrightarrow> viable s \<Longrightarrow> \<exists>s' \<in> set (prune states). dom s' s"
    and inv_ext: "inv s \<Longrightarrow> good x \<Longrightarrow> inv (ext s x)"
begin

lemma search_sound:
  assumes "s \<in> set (search prune ext states oss)"
  shows "\<exists>s0 \<in> set states. s \<in> all_states ext s0 oss"
  using assms
proof (induction oss arbitrary: states)
  case (Cons os oss)
  then obtain s1 where "s1 \<in> set (prune (expand_states ext states os))" "s \<in> all_states ext s1 oss"
    by auto
  moreover have "set (prune (expand_states ext states os)) \<subseteq> set (expand_states ext states os)"
    by (rule prune_subset)
  ultimately obtain s0 x where "s0 \<in> set states" "x \<in> set os" "s1 = ext s0 x"
    by auto
  with \<open>s \<in> all_states ext s1 oss\<close> show ?case by (auto simp: all_states_Cons)
qed simp

lemma search_viable:
  "\<forall>s \<in> set states. viable s \<Longrightarrow> s \<in> set (search prune ext states oss) \<Longrightarrow> viable s"
  by (induction oss arbitrary: states) (auto dest: prune_viable)

lemma all_states_viable:
  "\<forall>os \<in> set oss. \<forall>x \<in> set os. good x \<Longrightarrow> s \<in> all_states ext s0 oss \<Longrightarrow> viable s \<Longrightarrow> viable s0"
proof (induction oss arbitrary: s0)
  case (Cons os oss)
  then obtain x where "x \<in> set os" "s \<in> all_states ext (ext s0 x) oss"
    by (auto simp: all_states_Cons)
  with Cons show ?case by (auto intro: viable_ext)
qed simp

lemma all_states_dom:
  "\<forall>os \<in> set oss. \<forall>x \<in> set os. good x \<Longrightarrow> dom s0' s0 \<Longrightarrow> s \<in> all_states ext s0 oss \<Longrightarrow>
   \<exists>s' \<in> all_states ext s0' oss. dom s' s"
proof (induction oss arbitrary: s0 s0')
  case (Cons os oss)
  then obtain x where x: "x \<in> set os" "s \<in> all_states ext (ext s0 x) oss"
    by (auto simp: all_states_Cons)
  have "dom (ext s0' x) (ext s0 x)" using Cons.prems x by (auto intro: dom_ext)
  then obtain s' where "s' \<in> all_states ext (ext s0' x) oss" "dom s' s"
    using Cons.IH [of "ext s0' x" "ext s0 x"] Cons.prems x(2) by auto
  with x show ?case by (auto simp: all_states_Cons)
qed simp

lemma search_complete:
  assumes "\<forall>os \<in> set oss. \<forall>x \<in> set os. good x"
    and "s0 \<in> set states" "s \<in> all_states ext s0 oss" "viable s" "\<forall>s \<in> set states. inv s"
  shows "\<exists>s' \<in> set (search prune ext states oss). dom s' s"
  using assms
proof (induction oss arbitrary: states s0 s)
  case Nil
  then show ?case by (auto intro: dom_refl)
next
  case (Cons os oss)
  from Cons.prems(3) obtain x where x: "x \<in> set os" "s \<in> all_states ext (ext s0 x) oss"
    by (auto simp: all_states_Cons)
  have good: "\<forall>os \<in> set oss. \<forall>x \<in> set os. good x" using Cons.prems(1) by simp
  have "viable (ext s0 x)" by (rule all_states_viable [OF good x(2) Cons.prems(4)])
  moreover have "ext s0 x \<in> set (expand_states ext states os)" using Cons.prems(2) x by auto
  moreover have inv: "\<forall>s \<in> set (expand_states ext states os). inv s"
    using Cons.prems(1,5) by (auto intro: inv_ext)
  ultimately obtain s1 where s1: "s1 \<in> set (prune (expand_states ext states os))" "dom s1 (ext s0 x)"
    using prune_dom by blast
  have inv': "\<forall>s \<in> set (prune (expand_states ext states os)). inv s" using inv prune_subset by blast
  obtain s2 where s2: "s2 \<in> all_states ext s1 oss" "dom s2 s"
    using all_states_dom [OF good s1(2) x(2)] by blast
  have "viable s2" by (rule viable_dom [OF s2(2) Cons.prems(4)])
  then obtain s' where "s' \<in> set (search prune ext (prune (expand_states ext states os)) oss)" "dom s' s2"
    using Cons.IH [OF good s1(1) s2(1) _ inv'] by blast
  with s2 show ?case by (auto intro: dom_trans)
qed

end

section \<open>Keeping one best entry per key\<close>

text \<open>
  Both prunings first fold the expanded states into a dictionary that keeps, per key, the
  first state no later one strictly improves on.
\<close>

definition keep_best ::
  "('s \<Rightarrow> 'k) \<Rightarrow> ('s \<Rightarrow> 's \<Rightarrow> bool) \<Rightarrow> ('k \<times> 's) list \<Rightarrow> 's \<Rightarrow> ('k \<times> 's) list" where
  "keep_best key better best state =
     (case map_of best (key state) of
        None \<Rightarrow> AList.update (key state) state best
      | Some old \<Rightarrow> if better state old then AList.update (key state) state best else best)"

definition best_by :: "('s \<Rightarrow> 'k) \<Rightarrow> ('s \<Rightarrow> 's \<Rightarrow> bool) \<Rightarrow> 's list \<Rightarrow> ('k \<times> 's) list" where
  "best_by key better states = foldl (keep_best key better) [] states"

lemma keep_best_map_of:
  "map_of (keep_best key better best state) =
     (if (case map_of best (key state) of None \<Rightarrow> True | Some old \<Rightarrow> better state old)
      then (map_of best)(key state \<mapsto> state) else map_of best)"
  by (auto simp: keep_best_def update_conv' split: option.splits)

lemma keep_best_distinct: "distinct (map fst best) \<Longrightarrow> distinct (map fst (keep_best key better best state))"
  by (auto simp: keep_best_def distinct_update split: option.splits)

lemma best_by_snoc: "best_by key better (xs @ [x]) = keep_best key better (best_by key better xs) x"
  by (simp add: best_by_def)

lemma best_by_distinct: "distinct (map fst (best_by key better states))"
  by (induction states rule: rev_induct) (auto simp: best_by_snoc keep_best_distinct, simp add: best_by_def)

lemma best_by_sound:
  "map_of (best_by key better states) k = Some s \<Longrightarrow> s \<in> set states \<and> key s = k"
proof (induction states arbitrary: k s rule: rev_induct)
  case Nil
  then show ?case by (simp add: best_by_def)
next
  case (snoc x xs)
  then show ?case
    by (auto simp: best_by_snoc keep_best_map_of split: if_splits)
qed

lemma best_by_complete:
  assumes better: "\<And>a b. better a b \<longleftrightarrow> rank a < (rank b :: 'r :: linorder)"
    and "s \<in> set states"
  shows "\<exists>s'. map_of (best_by key better states) (key s) = Some s' \<and> rank s' \<le> rank s"
  using assms(2)
proof (induction states rule: rev_induct)
  case (snoc x xs)
  show ?case
  proof (cases "s \<in> set xs")
    case True
    then obtain s' where s': "map_of (best_by key better xs) (key s) = Some s'" "rank s' \<le> rank s"
      using snoc.IH by blast
    show ?thesis
    proof (cases "key x = key s")
      case True
      with s' better [of x s'] show ?thesis by (auto simp: best_by_snoc keep_best_map_of)
    next
      case False
      with s' show ?thesis by (auto simp: best_by_snoc keep_best_map_of)
    qed
  next
    case False
    with snoc.prems have "x = s" by simp
    then show ?thesis
      using better [of s "the (map_of (best_by key better xs) (key s))"]
      by (cases "map_of (best_by key better xs) (key s)") (auto simp: best_by_snoc keep_best_map_of)
  qed
qed simp

lemma best_by_values:
  assumes "\<And>a b. better a b \<longleftrightarrow> rank a < (rank b :: 'r :: linorder)"
  shows "set (map snd (best_by key better states)) \<subseteq> set states"
    and "s \<in> set states \<Longrightarrow> \<exists>s' \<in> set (map snd (best_by key better states)). key s' = key s \<and> rank s' \<le> rank s"
proof -
  show "set (map snd (best_by key better states)) \<subseteq> set states"
  proof
    fix v assume "v \<in> set (map snd (best_by key better states))"
    then obtain k where "(k, v) \<in> set (best_by key better states)" by auto
    then have "map_of (best_by key better states) k = Some v"
      by (rule map_of_is_SomeI [OF best_by_distinct])
    then show "v \<in> set states" using best_by_sound by fast
  qed
  assume "s \<in> set states"
  then obtain s' where s': "map_of (best_by key better states) (key s) = Some s'" "rank s' \<le> rank s"
    using best_by_complete [of better rank s states key] assms by blast
  moreover have "key s' = key s" using best_by_sound [OF s'(1)] by simp
  moreover have "s' \<in> set (map snd (best_by key better states))" using map_of_SomeD [OF s'(1)] by force
  ultimately show "\<exists>s' \<in> set (map snd (best_by key better states)). key s' = key s \<and> rank s' \<le> rank s"
    by blast
qed

end
