(* ===== verification/Prefix_Mckp.thy ===== *)
theory Prefix_Mckp
  imports Stall_Table Pareto_Search
begin

text \<open>
  The eviction planner of the tensor simulator
  (\<open>src/evaluation/tensor_simulator/tensor_sim_mckp.py\<close>, from \<open>PrefixOption\<close> on): every
  inactive model gives up a suffix of its resident groups, the planner picks how much from
  whom so that enough bytes are freed at the least predicted stall damage. The wall-clock
  time the plan reports is left out; the infinite damage of an infeasible plan is \<open>None\<close>.
\<close>

section \<open>Options and plans\<close>

record prefix_option =
  po_model_id :: int
  po_prefix_count :: nat
  po_freed_bytes :: int
  po_damage_ms :: rat
  po_evicted_groups :: nat

record mckp_plan =
  feasible :: bool
  required_free_bytes :: int
  planned_free_bytes :: int
  predicted_future_damage_ms :: "rat option"
  choices :: "(int \<times> nat) list"
  victim_keys :: "(int \<times> nat) list"
  frontier_peak_states :: nat
  options_considered :: nat

definition overrelease_bytes :: "mckp_plan \<Rightarrow> int" where
  "overrelease_bytes plan = max 0 (planned_free_bytes plan - required_free_bytes plan)"

type_synonym mckp_state = "int \<times> rat \<times> nat \<times> (int \<times> nat) list"

text \<open>
  \<open>build_model_options\<close>: one option per prefix the model can be cut back to, from the whole
  resident prefix down to nothing. The size of a prefix is a parameter: the table's own sizes
  or, for the page backends, the physical ones.
\<close>

definition build_model_options ::
  "stall_table \<Rightarrow> int \<Rightarrow> nat \<Rightarrow> (int \<times> rat) list \<Rightarrow> (int \<Rightarrow> nat \<Rightarrow> int result) \<Rightarrow> prefix_option list result" where
  "build_model_options table model_id resident_prefix samples prefix_bytes =
     r_bind (prefix_bytes model_id resident_prefix) (\<lambda>current_bytes.
     r_bind (r_map (\<lambda>(tokens, weight).
               r_bind (lookup table model_id tokens resident_prefix) (\<lambda>b. Inr (tokens, weight, b)))
             (filter (\<lambda>(_, weight). 0 < weight) samples)) (\<lambda>baselines.
     r_map (\<lambda>prefix.
         r_bind (r_map (\<lambda>(tokens, weight, b).
                   r_bind (lookup table model_id tokens prefix) (\<lambda>v. Inr (weight * max 0 (v - b))))
                 baselines) (\<lambda>damages.
         r_bind (prefix_bytes model_id prefix) (\<lambda>bytes.
         Inr \<lparr> po_model_id = model_id, po_prefix_count = prefix,
               po_freed_bytes = current_bytes - bytes, po_damage_ms = sum_list damages,
               po_evicted_groups = resident_prefix - prefix \<rparr>)))
       (rev [0..<Suc resident_prefix])))"

section \<open>The frontier\<close>

fun state_rank :: "mckp_state \<Rightarrow> int \<Rightarrow> rat \<times> int \<times> nat \<times> (int \<times> nat) list" where
  "state_rank (freed, cost, evicted, selected) required =
     (cost, max 0 (freed - required), evicted, selected)"

fun state_freed :: "mckp_state \<Rightarrow> int" where
  "state_freed (freed, cost, evicted, selected) = freed"

fun state_cost :: "mckp_state \<Rightarrow> rat" where
  "state_cost (freed, cost, evicted, selected) = cost"

text \<open>
  The scan over the infeasible states in decreasing freed bytes: a state survives iff it is
  cheaper than every state seen before. \<open>None\<close> is the initial infinite cost.
\<close>

fun pareto_scan :: "mckp_state list \<Rightarrow> rat option \<Rightarrow> mckp_state list" where
  "pareto_scan [] best_cost = []"
| "pareto_scan (s # ss) best_cost =
     (if (case best_cost of None \<Rightarrow> True | Some b \<Rightarrow> state_cost s < b)
      then s # pareto_scan ss (Some (state_cost s))
      else pareto_scan ss best_cost)"

definition prune_frontier :: "mckp_state list \<Rightarrow> int \<Rightarrow> mckp_state list" where
  "prune_frontier states required =
     (let best_by_freed = map snd (best_by state_freed
            (\<lambda>a b. state_rank a required < state_rank b required) states);
          covering = filter (\<lambda>s. required \<le> state_freed s) best_by_freed;
          short = sort_key (\<lambda>s. - state_freed s)
                    (filter (\<lambda>s. state_freed s < required) best_by_freed);
          kept = rev (pareto_scan short None) in
      if covering = [] then kept
      else kept @ [arg_min_list (\<lambda>s. state_rank s required) covering])"

fun option_state :: "mckp_state \<Rightarrow> prefix_option \<Rightarrow> mckp_state" where
  "option_state (freed, cost, evicted, selected) x =
     (freed + po_freed_bytes x, cost + po_damage_ms x, evicted + po_evicted_groups x,
      selected @ [(po_model_id x, po_prefix_count x)])"

section \<open>The solver\<close>

definition mckp_step ::
  "stall_table \<Rightarrow> (int \<times> nat) list \<Rightarrow> int \<Rightarrow> int \<Rightarrow> (int \<rightharpoonup> (int \<times> rat) list) \<Rightarrow> (int \<Rightarrow> nat \<Rightarrow> int result) \<Rightarrow>
   mckp_state list \<times> nat \<times> nat \<Rightarrow> int \<Rightarrow> (mckp_state list \<times> nat \<times> nat) result" where
  "mckp_step table residents active required samples prefix_bytes = (\<lambda>(frontier, peak, considered) model_id.
     if model_id = active then Inr (frontier, peak, considered)
     else r_bind (dict_get residents model_id) (\<lambda>resident_prefix.
       r_bind (build_model_options table model_id resident_prefix
                 (get_default samples model_id []) prefix_bytes) (\<lambda>options.
         let frontier' = prune_frontier (expand_states option_state frontier options) required in
         Inr (frontier', max peak (length frontier'), considered + length options))))"

definition plan_victims :: "(int \<times> nat) list \<Rightarrow> (int \<times> nat) list \<Rightarrow> int \<Rightarrow> (int \<times> nat) list result" where
  "plan_victims residents chosen active =
     r_bind (r_map (\<lambda>(model_id, old_prefix).
               r_bind (dict_get chosen model_id) (\<lambda>prefix.
                 Inr (if model_id \<noteq> active then map (Pair model_id) [prefix..<old_prefix] else [])))
             (sort residents))
       (\<lambda>vss. Inr (concat vss))"

definition solve_covering_mckp ::
  "stall_table \<Rightarrow> (int \<times> nat) list \<Rightarrow> int \<Rightarrow> int \<Rightarrow> (int \<rightharpoonup> (int \<times> rat) list) \<Rightarrow>
   (int \<Rightarrow> nat \<Rightarrow> int result) \<Rightarrow> mckp_plan result" where
  "solve_covering_mckp table residents active required_free samples prefix_bytes =
     (let required = max 0 required_free in
      if required = 0 then
        Inr \<lparr> feasible = True, required_free_bytes = 0, planned_free_bytes = 0,
              predicted_future_damage_ms = Some 0, choices = residents, victim_keys = [],
              frontier_peak_states = 1, options_considered = 0 \<rparr>
      else
        r_bind (r_foldl (mckp_step table residents active required samples prefix_bytes)
                  ([(0, 0, 0, [])], 1, 0) (sort (map fst residents)))
          (\<lambda>(frontier, peak, considered).
            case filter (\<lambda>s. required \<le> state_freed s) frontier of
              [] \<Rightarrow> Inr \<lparr> feasible = False, required_free_bytes = required, planned_free_bytes = 0,
                     predicted_future_damage_ms = None, choices = residents, victim_keys = [],
                     frontier_peak_states = peak, options_considered = considered \<rparr>
            | s # ss \<Rightarrow>
                (case arg_min_list (\<lambda>s. state_rank s required) (s # ss) of
                   (freed, cost, evicted, selected) \<Rightarrow>
                     let chosen = foldl (\<lambda>d (k, v). AList.update k v d) residents selected in
                     r_bind (plan_victims residents chosen active) (\<lambda>victims.
                     Inr \<lparr> feasible = True, required_free_bytes = required, planned_free_bytes = freed,
                           predicted_future_damage_ms = Some cost, choices = chosen, victim_keys = victims,
                           frontier_peak_states = peak, options_considered = considered \<rparr>))))"

section \<open>Pruning loses nothing\<close>

lemma pareto_scan_subset: "set (pareto_scan ss best) \<subseteq> set ss"
  by (induction ss best rule: pareto_scan.induct) auto

lemma pareto_scan_covers:
  "sorted_wrt (\<lambda>a b. state_freed b \<le> state_freed a) ss \<Longrightarrow> s \<in> set ss \<Longrightarrow>
   (\<exists>b. best = Some b \<and> b \<le> state_cost s)
   \<or> (\<exists>s' \<in> set (pareto_scan ss best). state_cost s' \<le> state_cost s \<and> state_freed s \<le> state_freed s')"
proof (induction ss best rule: pareto_scan.induct)
  case (2 x ss best)
  show ?case
  proof (cases "case best of None \<Rightarrow> True | Some b \<Rightarrow> state_cost x < b")
    case True
    then show ?thesis using 2 by (cases "s = x") auto
  next
    case False
    then obtain b where "best = Some b" "b \<le> state_cost x" by (auto split: option.splits)
    then show ?thesis using 2 False by (cases "s = x") auto
  qed
qed simp

definition mckp_dominates :: "int \<Rightarrow> mckp_state \<Rightarrow> mckp_state \<Rightarrow> bool" where
  "mckp_dominates required s' s \<longleftrightarrow>
     state_cost s' \<le> state_cost s \<and> min required (state_freed s) \<le> state_freed s'"

lemma prune_frontier_subset: "set (prune_frontier states required) \<subseteq> set states"
proof -
  let ?best = "map snd (best_by state_freed (\<lambda>a b. state_rank a required < state_rank b required) states)"
  let ?cov = "filter (\<lambda>s. required \<le> state_freed s) ?best"
  have best: "set ?best \<subseteq> set states"
    by (rule best_by_values(1) [where rank = "\<lambda>s. state_rank s required"]) simp
  let ?short = "sort_key (\<lambda>s. - state_freed s) (filter (\<lambda>s. state_freed s < required) ?best)"
  have "set (pareto_scan ?short None) \<subseteq> set ?short" by (rule pareto_scan_subset)
  then have kept: "set (rev (pareto_scan ?short None)) \<subseteq> set ?best" by auto
  have cov: "arg_min_list (\<lambda>s. state_rank s required) ?cov \<in> set ?best" if "?cov \<noteq> []"
    using arg_min_list_mem [OF that] by (rule filter_is_subset [THEN subsetD])
  have "set (prune_frontier states required) \<subseteq> set ?best"
    unfolding prune_frontier_def Let_def
    using kept cov by (simp del: set_map set_rev set_sort set_filter)
  with best show ?thesis by (rule order_trans [rotated])
qed

lemma state_rank_cost: "state_rank a r \<le> state_rank b r \<Longrightarrow> state_cost a \<le> state_cost b"
  by (cases a; cases b) (auto simp: less_eq_prod_def)

lemma prune_frontier_dominates:
  assumes "s \<in> set states"
  shows "\<exists>s' \<in> set (prune_frontier states required). mckp_dominates required s' s"
proof -
  let ?rank = "\<lambda>s. state_rank s required"
  let ?best = "map snd (best_by state_freed (\<lambda>a b. ?rank a < ?rank b) states)"
  let ?cov = "filter (\<lambda>s. required \<le> state_freed s) ?best"
  let ?short = "sort_key (\<lambda>s. - state_freed s) (filter (\<lambda>s. state_freed s < required) ?best)"
  obtain s1 where s1: "s1 \<in> set ?best" "state_freed s1 = state_freed s" "?rank s1 \<le> ?rank s"
    using best_by_values(2) [where rank = ?rank and key = state_freed
        and better = "\<lambda>a b. ?rank a < ?rank b", OF refl assms] by (metis (no_types))
  have cost: "state_cost s1 \<le> state_cost s" using s1(3) by (rule state_rank_cost)
  show ?thesis
  proof (cases "required \<le> state_freed s1")
    case True
    let ?m = "arg_min_list ?rank ?cov"
    have cov: "s1 \<in> set ?cov" using True s1(1) by simp
    then have ne: "?cov \<noteq> []" by force
    have "?m \<in> set ?cov" by (rule arg_min_list_mem [OF ne])
    moreover have "?rank ?m \<le> ?rank s1" by (rule arg_min_list_le [OF cov])
    moreover have "?m \<in> set (prune_frontier states required)"
      using ne by (simp add: prune_frontier_def Let_def)
    ultimately show ?thesis
      using cost by (intro bexI [of _ ?m]) (auto simp: mckp_dominates_def dest: state_rank_cost)
  next
    case False
    have "sorted_wrt (\<lambda>a b. state_freed b \<le> state_freed a) ?short"
      using sorted_sort_key [of "\<lambda>s. - state_freed s" "filter (\<lambda>s. state_freed s < required) ?best"]
      by (simp add: sorted_map)
    moreover have "s1 \<in> set ?short" using False s1(1) by simp
    ultimately obtain s' where s': "s' \<in> set (pareto_scan ?short None)"
        "state_cost s' \<le> state_cost s1" "state_freed s1 \<le> state_freed s'"
      using pareto_scan_covers [of ?short s1 None] by blast
    have "s' \<in> set (prune_frontier states required)"
      using s'(1) by (simp add: prune_frontier_def Let_def)
    with s' s1(2) cost show ?thesis
      by (intro bexI [of _ s']) (auto simp: mckp_dominates_def)
  qed
qed

lemma option_state_proj [simp]:
  "state_freed (option_state s x) = state_freed s + po_freed_bytes x"
  "state_cost (option_state s x) = state_cost s + po_damage_ms x"
  by (cases s; simp)+

interpretation covering: pareto_prune "\<lambda>_. True" "mckp_dominates required" "\<lambda>_. True" option_state
    "\<lambda>x. 0 \<le> po_freed_bytes x" "\<lambda>states. prune_frontier states required" for required
proof unfold_locales
  show "\<forall>s \<in> set states. True \<Longrightarrow> s \<in> set states \<Longrightarrow> True \<Longrightarrow> \<exists>s' \<in> set (prune_frontier states required). mckp_dominates required s' s"
    for s states by (rule prune_frontier_dominates)
qed (use prune_frontier_subset in \<open>auto simp: mckp_dominates_def\<close>)

section \<open>The specification of a reclamation\<close>

text \<open>
  A cut \<open>c\<close> gives every inactive model the prefix it keeps. What it frees and what damage it
  is predicted to do are sums over the inactive models; the planner has to find the cheapest
  cut that frees enough.
\<close>

definition inactive_models :: "(int \<times> nat) list \<Rightarrow> int \<Rightarrow> int list" where
  "inactive_models residents active = filter (\<lambda>m. m \<noteq> active) (sort (map fst residents))"

definition resident_of :: "(int \<times> nat) list \<Rightarrow> int \<Rightarrow> nat" where
  "resident_of residents m = (case map_of residents m of None \<Rightarrow> 0 | Some p \<Rightarrow> p)"

definition stall_of :: "stall_table \<Rightarrow> int \<Rightarrow> int \<Rightarrow> nat \<Rightarrow> rat" where
  "stall_of t m x p = projr (lookup t m x p)"

definition prefix_damage :: "stall_table \<Rightarrow> int \<Rightarrow> nat \<Rightarrow> (int \<times> rat) list \<Rightarrow> nat \<Rightarrow> rat" where
  "prefix_damage t m r samples p =
     (\<Sum>(x, w) \<leftarrow> filter (\<lambda>(_, w). 0 < w) samples. w * max 0 (stall_of t m x p - stall_of t m x r))"

definition valid_cut :: "(int \<times> nat) list \<Rightarrow> int \<Rightarrow> (int \<Rightarrow> nat) \<Rightarrow> bool" where
  "valid_cut residents active c \<longleftrightarrow>
     (\<forall>m \<in> set (inactive_models residents active). c m \<le> resident_of residents m)"

definition cut_freed :: "(int \<Rightarrow> nat \<Rightarrow> int) \<Rightarrow> (int \<times> nat) list \<Rightarrow> int \<Rightarrow> (int \<Rightarrow> nat) \<Rightarrow> int" where
  "cut_freed bytes_of residents active c =
     (\<Sum>m \<leftarrow> inactive_models residents active. bytes_of m (resident_of residents m) - bytes_of m (c m))"

definition cut_damage ::
  "stall_table \<Rightarrow> (int \<rightharpoonup> (int \<times> rat) list) \<Rightarrow> (int \<times> nat) list \<Rightarrow> int \<Rightarrow> (int \<Rightarrow> nat) \<Rightarrow> rat" where
  "cut_damage t samples residents active c =
     (\<Sum>m \<leftarrow> inactive_models residents active.
        prefix_damage t m (resident_of residents m) (get_default samples m []) (c m))"

text \<open>What the planner relies on: a validated table that knows the resident prefixes, and prefix
  sizes that are defined for them and do not shrink.\<close>

definition mckp_ready ::
  "stall_table \<Rightarrow> (int \<Rightarrow> nat \<Rightarrow> int result) \<Rightarrow> (int \<Rightarrow> nat \<Rightarrow> int) \<Rightarrow> (int \<times> nat) list \<Rightarrow> bool" where
  "mckp_ready t prefix_bytes bytes_of residents \<longleftrightarrow>
     table_ok t \<and> distinct (map fst residents)
     \<and> (\<forall>(m, r) \<in> set residents.
          (\<exists>sm. map_of (st_models t) m = Some sm \<and> int r \<le> sm_group_count sm)
          \<and> (\<forall>p \<le> r. prefix_bytes m p = Inr (bytes_of m p))
          \<and> (\<forall>q \<le> r. \<forall>p \<le> q. bytes_of m p \<le> bytes_of m q))"

definition cut_option ::
  "stall_table \<Rightarrow> (int \<Rightarrow> nat \<Rightarrow> int) \<Rightarrow> (int \<rightharpoonup> (int \<times> rat) list) \<Rightarrow> (int \<times> nat) list \<Rightarrow> int \<Rightarrow> nat \<Rightarrow> prefix_option" where
  "cut_option t bytes_of samples residents m p =
     (let r = resident_of residents m in
      \<lparr> po_model_id = m, po_prefix_count = p, po_freed_bytes = bytes_of m r - bytes_of m p,
        po_damage_ms = prefix_damage t m r (get_default samples m []) p,
        po_evicted_groups = r - p \<rparr>)"

section \<open>Correctness of the solver\<close>

lemma lookup_total:
  assumes "table_ok t" "map_of (st_models t) m = Some sm" "int p \<le> sm_group_count sm"
  shows "lookup t m x p = Inr (stall_of t m x p)"
proof -
  obtain pos where "lookup t m x p = Inr (pos_value pos (\<lambda>i. stall_at sm i p))"
    using lookup_pos [OF assms(1,2), of x] assms(3) by metis
  then show ?thesis by (simp add: stall_of_def)
qed

lemma mckp_readyD:
  assumes "mckp_ready t pb bytes_of residents" "map_of residents m = Some r"
  shows "table_ok t" "\<exists>sm. map_of (st_models t) m = Some sm \<and> int r \<le> sm_group_count sm"
    "p \<le> r \<Longrightarrow> pb m p = Inr (bytes_of m p)" "p \<le> q \<Longrightarrow> q \<le> r \<Longrightarrow> bytes_of m p \<le> bytes_of m q"
    "resident_of residents m = r"
  using assms map_of_SomeD [OF assms(2)] by (fastforce simp: mckp_ready_def resident_of_def)+

lemma build_model_options_total:
  assumes ready: "mckp_ready t pb bytes_of residents" and r: "map_of residents m = Some r"
  shows "build_model_options t m r (get_default samples m []) pb
     = Inr (map (cut_option t bytes_of samples residents m) (rev [0..<Suc r]))"
proof -
  note facts = mckp_readyD [OF ready r]
  let ?samples = "filter (\<lambda>(_, w). 0 < w) (get_default samples m [])"
  have look: "lookup t m x p = Inr (stall_of t m x p)" if "p \<le> r" for x p
    using facts(1,2) that by (auto intro: lookup_total)
  have base: "r_map (\<lambda>(x, w). r_bind (lookup t m x r) (\<lambda>b. Inr (x, w, b))) ?samples
      = Inr (map (\<lambda>(x, w). (x, w, stall_of t m x r)) ?samples)"
    by (rule r_map_total) (auto simp: look)
  have damages: "r_map (\<lambda>(x, w, b). r_bind (lookup t m x p) (\<lambda>v. Inr (w * max 0 (v - b))))
        (map (\<lambda>(x, w). (x, w, stall_of t m x r)) ?samples)
      = Inr (map (\<lambda>(x, w, b). w * max 0 (stall_of t m x p - b))
          (map (\<lambda>(x, w). (x, w, stall_of t m x r)) ?samples))" if "p \<le> r" for p
    by (rule r_map_total) (auto simp: look that)
  have sum: "sum_list (map (\<lambda>(x, w, b). w * max 0 (stall_of t m x p - b))
        (map (\<lambda>(x, w). (x, w, stall_of t m x r)) ?samples)) = prefix_damage t m r (get_default samples m []) p" for p
    by (simp add: prefix_damage_def comp_def case_prod_beta')
  show ?thesis
    unfolding build_model_options_def facts(3) [OF order_refl] r_bind.simps base
    by (rule r_map_total) (auto simp: damages sum facts(3,5) cut_option_def simp del: map_map)
qed

lemma mckp_fold:
  assumes ready: "mckp_ready t pb bytes_of residents" and "set ms \<subseteq> fst ` set residents"
  shows "\<exists>peak' considered'.
     r_foldl (mckp_step t residents active required samples pb) (frontier, peak, considered) ms
     = Inr (search (\<lambda>states. prune_frontier states required) option_state frontier
         (map (\<lambda>m. map (cut_option t bytes_of samples residents m) (rev [0..<Suc (resident_of residents m)]))
            (filter (\<lambda>m. m \<noteq> active) ms)), peak', considered')"
  using assms(2)
proof (induction ms arbitrary: frontier peak considered)
  case (Cons m ms)
  obtain r where r: "map_of residents m = Some r"
    using Cons.prems by (auto simp: map_of_eq_None_iff dest: domI)
       (metis Cons.prems list.set_intros(1) map_of_eq_None_iff not_Some_eq subsetD)
  show ?case
  proof (cases "m = active")
    case True
    then show ?thesis using Cons by (simp add: mckp_step_def)
  next
    case False
    then show ?thesis
      using Cons build_model_options_total [OF ready r, of samples] r mckp_readyD(5) [OF ready r]
      by (simp add: mckp_step_def Let_def del: upt_Suc)
  qed
qed simp

lemma foldl_option_state:
  "foldl option_state (a, b, n, sel) xs =
     (a + (\<Sum>x \<leftarrow> xs. po_freed_bytes x), b + (\<Sum>x \<leftarrow> xs. po_damage_ms x),
      n + (\<Sum>x \<leftarrow> xs. po_evicted_groups x), sel @ map (\<lambda>x. (po_model_id x, po_prefix_count x)) xs)"
  by (induction xs arbitrary: a b n sel) (simp_all add: add.assoc)

lemma product_choices:
  assumes "distinct ms"
  shows "set (product_lists (map (\<lambda>m. map (g m) (rev [0..<Suc (r m)])) ms))
     = {map (\<lambda>m. g m (c m)) ms |c. \<forall>m \<in> set ms. c m \<le> r m}"
  using assms
proof (induction ms)
  case (Cons m ms)
  let ?tail = "set (product_lists (map (\<lambda>m. map (g m) (rev [0..<Suc (r m)])) ms))"
  have "set (product_lists (map (\<lambda>m. map (g m) (rev [0..<Suc (r m)])) (m # ms)))
      = {g m p # sel |p sel. p \<le> r m \<and> sel \<in> ?tail}"
    by (auto simp del: upt_Suc simp: less_Suc_eq_le)
  also have "\<dots> = {map (\<lambda>m. g m (c m)) (m # ms) |c. \<forall>m \<in> set (m # ms). c m \<le> r m}" (is "?L = ?R")
  proof (intro equalityI subsetI)
    fix x assume "x \<in> ?L"
    then obtain p c where pc: "x = g m p # map (\<lambda>m. g m (c m)) ms" "p \<le> r m" "\<forall>m \<in> set ms. c m \<le> r m"
      using Cons by auto
    have "map (\<lambda>k. g k ((c(m := p)) k)) ms = map (\<lambda>m. g m (c m)) ms"
      using Cons.prems by auto
    with pc show "x \<in> ?R" by (intro CollectI exI [of _ "c(m := p)"]) auto
  qed (use Cons in auto)
  finally show ?case .
qed simp

lemma map_of_updates:
  "map_of (foldl (\<lambda>d (k, v). AList.update k v d) d xs) = map_of d ++ map_of (rev xs)"
  by (induction xs arbitrary: d) (auto simp: update_conv' map_add_def split: option.splits)

lemma keys_updates:
  "fst ` set xs \<subseteq> fst ` set d \<Longrightarrow>
   map fst (foldl (\<lambda>d (k, v). AList.update k v d) d xs) = map fst d"
proof (induction xs arbitrary: d)
  case (Cons x xs)
  obtain k v where x: "x = (k, v)" by (cases x)
  have "map fst (AList.update k v d) = map fst d"
    using Cons.prems x by (simp add: update_keys)
  moreover from this have "fst ` set (AList.update k v d) = fst ` set d"
    by (metis set_map)
  ultimately show ?case using Cons x by auto
qed simp

lemma inactive_models_props:
  assumes "distinct (map fst residents)"
  shows "distinct (inactive_models residents active)"
    "set (inactive_models residents active) = fst ` set residents - {active}"
  using assms by (auto simp: inactive_models_def)

lemma chosen_cut:
  fixes c :: "int \<Rightarrow> nat"
  assumes "distinct ms" "set ms \<subseteq> fst ` set residents"
  defines "chosen \<equiv> foldl (\<lambda>d (k, v). AList.update k v d) residents (map (\<lambda>m. (m, c m)) ms)"
  shows "map_of chosen m = (if m \<in> set ms then Some (c m) else map_of residents m)"
    "map fst chosen = map fst residents"
proof -
  have "map_of (rev (map (\<lambda>m. (m, c m)) ms)) m = (if m \<in> set ms then Some (c m) else None)"
    using map_of_map_restrict [of c "rev ms"] by (auto simp: rev_map restrict_map_def)
  then show "map_of chosen m = (if m \<in> set ms then Some (c m) else map_of residents m)"
    by (simp add: chosen_def map_of_updates map_add_def)
  show "map fst chosen = map fst residents"
    unfolding chosen_def by (rule keys_updates) (use assms(2) in auto)
qed

lemma plan_victims_total:
  assumes "distinct (map fst residents)" "map fst chosen = map fst residents"
  shows "\<exists>vs. plan_victims residents chosen active = Inr vs
     \<and> set vs = {(m, g). m \<noteq> active \<and> (\<exists>old p. map_of residents m = Some old \<and> map_of chosen m = Some p
                      \<and> p \<le> g \<and> g < old)}"
proof -
  let ?cut = "\<lambda>(m, old). if m \<noteq> active then map (Pair m) [the (map_of chosen m)..<old] else []"
  have ex: "\<exists>p. map_of chosen m = Some p" if "(m, old) \<in> set residents" for m old
  proof -
    have "m \<in> set (map fst chosen)" using that assms(2) by force
    then show ?thesis by (metis map_of_eq_None_iff not_None_eq set_map)
  qed
  have "r_map (\<lambda>(m, old). r_bind (dict_get chosen m) (\<lambda>p.
           Inr (if m \<noteq> active then map (Pair m) [p..<old] else []))) (sort residents)
      = Inr (map ?cut (sort residents))"
    by (rule r_map_total) (auto dest!: ex)
  then have v: "plan_victims residents chosen active = Inr (concat (map ?cut (sort residents)))"
    by (simp add: plan_victims_def)
  have "(m, g) \<in> set (concat (map ?cut (sort residents))) \<longleftrightarrow>
      m \<noteq> active \<and> (\<exists>old. (m, old) \<in> set residents \<and> the (map_of chosen m) \<le> g \<and> g < old)" for m g
    by (auto split: if_splits) force
  then have "set (concat (map ?cut (sort residents))) = {(m, g). m \<noteq> active \<and>
      (\<exists>old p. map_of residents m = Some old \<and> map_of chosen m = Some p \<and> p \<le> g \<and> g < old)}"
    using ex by (fastforce simp: map_of_eq_Some_iff [OF assms(1)])
  with v show ?thesis by blast
qed

text \<open>The states the frontier is searched among are the cuts.\<close>

lemma all_states_cuts:
  assumes "distinct (map fst residents)"
  shows "all_states option_state (0, 0, 0, [])
      (map (\<lambda>m. map (cut_option t bytes_of samples residents m) (rev [0..<Suc (resident_of residents m)]))
         (inactive_models residents active))
    = {(cut_freed bytes_of residents active c, cut_damage t samples residents active c,
        \<Sum>m \<leftarrow> inactive_models residents active. resident_of residents m - c m,
        map (\<lambda>m. (m, c m)) (inactive_models residents active)) |c. valid_cut residents active c}"
proof -
  have "foldl option_state (0, 0, 0, [])
        (map (\<lambda>m. cut_option t bytes_of samples residents m (c m)) (inactive_models residents active))
      = (cut_freed bytes_of residents active c, cut_damage t samples residents active c,
         \<Sum>m \<leftarrow> inactive_models residents active. resident_of residents m - c m,
         map (\<lambda>m. (m, c m)) (inactive_models residents active))" for c
    by (simp add: foldl_option_state cut_option_def Let_def cut_freed_def cut_damage_def comp_def)
  then show ?thesis
    unfolding all_states_def product_choices [OF inactive_models_props(1) [OF assms]] valid_cut_def
    by (simp add: setcompr_eq_image image_image)
qed

lemma mckp_ready_good:
  assumes "mckp_ready t pb bytes_of residents" "m \<in> set (inactive_models residents active)"
    and "p \<le> resident_of residents m"
  shows "0 \<le> po_freed_bytes (cut_option t bytes_of samples residents m p)"
proof -
  obtain r where "map_of residents m = Some r"
    using assms(2) by (auto simp: inactive_models_def) (metis not_None_eq map_of_eq_None_iff image_eqI fst_conv)
  then show ?thesis
    using assms(3) mckp_readyD(4,5) [OF assms(1)] by (auto simp: cut_option_def Let_def)
qed

lemma solve_covering_mckp_search:
  assumes ready: "mckp_ready t pb bytes_of residents" and pos: "0 < required"
  obtains frontier peak considered where
    "r_foldl (mckp_step t residents active required samples pb) ([(0, 0, 0, [])], 1, 0)
       (sort (map fst residents)) = Inr (frontier, peak, considered)"
    "\<And>s. s \<in> set frontier \<Longrightarrow> \<exists>c. valid_cut residents active c
       \<and> state_freed s = cut_freed bytes_of residents active c
       \<and> state_cost s = cut_damage t samples residents active c
       \<and> snd (snd (snd s)) = map (\<lambda>m. (m, c m)) (inactive_models residents active)"
    "\<And>c. valid_cut residents active c \<Longrightarrow> \<exists>s \<in> set frontier.
       state_cost s \<le> cut_damage t samples residents active c
       \<and> min required (cut_freed bytes_of residents active c) \<le> state_freed s"
proof -
  have dist: "distinct (map fst residents)" using ready by (simp add: mckp_ready_def)
  let ?oss = "map (\<lambda>m. map (cut_option t bytes_of samples residents m) (rev [0..<Suc (resident_of residents m)]))
      (inactive_models residents active)"
  let ?F = "search (\<lambda>states. prune_frontier states required) option_state [(0, 0, 0, [])] ?oss"
  obtain peak considered where fold:
    "r_foldl (mckp_step t residents active required samples pb) ([(0, 0, 0, [])], 1, 0)
       (sort (map fst residents)) = Inr (?F, peak, considered)"
    using mckp_fold [OF ready, of "sort (map fst residents)" active required samples "[(0, 0, 0, [])]" 1 0]
    unfolding inactive_models_def [symmetric] by auto
  have sound: "s \<in> all_states option_state (0, 0, 0, []) ?oss" if "s \<in> set ?F" for s
    using covering.search_sound [OF that] by simp
  have complete: "\<exists>s \<in> set ?F. mckp_dominates required s s0"
    if "s0 \<in> all_states option_state (0, 0, 0, []) ?oss" for s0
    by (rule covering.search_complete [OF _ _ that])
       (auto intro!: mckp_ready_good [OF ready] simp: less_Suc_eq_le simp del: upt_Suc)
  show ?thesis
  proof (rule that [OF fold])
    fix s assume "s \<in> set ?F"
    from sound [OF this] obtain c where "valid_cut residents active c"
        "s = (cut_freed bytes_of residents active c, cut_damage t samples residents active c,
           \<Sum>m \<leftarrow> inactive_models residents active. resident_of residents m - c m,
           map (\<lambda>m. (m, c m)) (inactive_models residents active))"
      unfolding all_states_cuts [OF dist] by blast
    then show "\<exists>c. valid_cut residents active c
       \<and> state_freed s = cut_freed bytes_of residents active c
       \<and> state_cost s = cut_damage t samples residents active c
       \<and> snd (snd (snd s)) = map (\<lambda>m. (m, c m)) (inactive_models residents active)" by auto
  next
    fix c assume "valid_cut residents active c"
    then have "(cut_freed bytes_of residents active c, cut_damage t samples residents active c,
        \<Sum>m \<leftarrow> inactive_models residents active. resident_of residents m - c m,
        map (\<lambda>m. (m, c m)) (inactive_models residents active)) \<in> all_states option_state (0, 0, 0, []) ?oss"
      unfolding all_states_cuts [OF dist] by blast
    from complete [OF this] show "\<exists>s \<in> set ?F.
       state_cost s \<le> cut_damage t samples residents active c
       \<and> min required (cut_freed bytes_of residents active c) \<le> state_freed s"
      by (auto simp: mckp_dominates_def)
  qed
qed

text \<open>A feasible plan, as every client of the planner uses it.\<close>

definition plan_is_cut ::
  "(int \<Rightarrow> nat \<Rightarrow> int) \<Rightarrow> (int \<times> nat) list \<Rightarrow> int \<Rightarrow> (int \<Rightarrow> nat) \<Rightarrow> mckp_plan \<Rightarrow> bool" where
  "plan_is_cut bytes_of residents active c plan \<longleftrightarrow>
     valid_cut residents active c
     \<and> map fst (choices plan) = map fst residents
     \<and> (\<forall>m. map_of (choices plan) m = (if m \<in> set (inactive_models residents active)
                                          then Some (c m) else map_of residents m))
     \<and> set (victim_keys plan) = {(m, g). m \<in> set (inactive_models residents active)
                                          \<and> c m \<le> g \<and> g < resident_of residents m}
     \<and> planned_free_bytes plan = cut_freed bytes_of residents active c"

lemma solve_covering_mckp_cases:
  assumes ready: "mckp_ready t pb bytes_of residents" and pos: "0 < required"
  obtains
    (infeasible) plan where "solve_covering_mckp t residents active required samples pb = Inr plan"
      "\<not> feasible plan" "predicted_future_damage_ms plan = None"
      "\<And>c. valid_cut residents active c \<Longrightarrow> cut_freed bytes_of residents active c < required"
  | (solved) plan c where "solve_covering_mckp t residents active required samples pb = Inr plan"
      "feasible plan" "required_free_bytes plan = required" "plan_is_cut bytes_of residents active c plan"
      "required \<le> planned_free_bytes plan"
      "predicted_future_damage_ms plan = Some (cut_damage t samples residents active c)"
      "\<And>c'. valid_cut residents active c' \<Longrightarrow> required \<le> cut_freed bytes_of residents active c' \<Longrightarrow>
         cut_damage t samples residents active c \<le> cut_damage t samples residents active c'"
proof -
  have dist: "distinct (map fst residents)" using ready by (simp add: mckp_ready_def)
  let ?ms = "inactive_models residents active"
  obtain frontier peak considered where fold:
    "r_foldl (mckp_step t residents active required samples pb) ([(0, 0, 0, [])], 1, 0)
       (sort (map fst residents)) = Inr (frontier, peak, considered)"
    and sound: "\<And>s. s \<in> set frontier \<Longrightarrow> \<exists>c. valid_cut residents active c
       \<and> state_freed s = cut_freed bytes_of residents active c
       \<and> state_cost s = cut_damage t samples residents active c
       \<and> snd (snd (snd s)) = map (\<lambda>m. (m, c m)) ?ms"
    and complete: "\<And>c. valid_cut residents active c \<Longrightarrow> \<exists>s \<in> set frontier.
       state_cost s \<le> cut_damage t samples residents active c
       \<and> min required (cut_freed bytes_of residents active c) \<le> state_freed s"
    by (rule solve_covering_mckp_search [OF ready pos, of active samples])
       (rule that, assumption, simp, simp)
  let ?cov = "filter (\<lambda>s. required \<le> state_freed s) frontier"
  have enough: "\<exists>s \<in> set ?cov. state_cost s \<le> cut_damage t samples residents active c"
    if cut: "valid_cut residents active c" "required \<le> cut_freed bytes_of residents active c" for c
  proof -
    from complete [OF cut(1)] obtain s where "s \<in> set frontier"
        "state_cost s \<le> cut_damage t samples residents active c" "required \<le> state_freed s"
      using cut(2) by (auto simp: min_absorb1)
    then show ?thesis by (intro bexI [of _ s]) auto
  qed
  show ?thesis
  proof (cases ?cov)
    case Nil
    have short: "cut_freed bytes_of residents active c < required" if "valid_cut residents active c" for c
      using enough [OF that] Nil by (cases "required \<le> cut_freed bytes_of residents active c") auto
    define plan where "plan = \<lparr> feasible = False, required_free_bytes = required,
      planned_free_bytes = 0, predicted_future_damage_ms = None, choices = residents,
      victim_keys = [], frontier_peak_states = peak, options_considered = considered \<rparr>"
    have "solve_covering_mckp t residents active required samples pb = Inr plan"
      using fold pos Nil by (simp add: solve_covering_mckp_def plan_def)
    with short show ?thesis by (intro infeasible [of plan]) (auto simp: plan_def)
  next
    case (Cons s0 ss)
    define s where "s = arg_min_list (\<lambda>s. state_rank s required) ?cov"
    have s_mem: "s \<in> set ?cov" unfolding s_def by (rule arg_min_list_mem) (simp add: Cons)
    have s_min: "state_cost s \<le> state_cost s'" if "s' \<in> set ?cov" for s'
      unfolding s_def by (rule state_rank_cost [OF arg_min_list_le [OF that]])
    have "s \<in> set frontier" using s_mem by simp
    from sound [OF this] obtain c where c: "valid_cut residents active c" "state_freed s = cut_freed bytes_of residents active c"
        "state_cost s = cut_damage t samples residents active c"
        "snd (snd (snd s)) = map (\<lambda>m. (m, c m)) ?ms"
      by blast
    define chosen where "chosen = foldl (\<lambda>d (k, v). AList.update k v d) residents (map (\<lambda>m. (m, c m)) ?ms)"
    note ch = chosen_cut [of ?ms residents c, folded chosen_def,
        OF inactive_models_props(1) [OF dist], unfolded inactive_models_props(2) [OF dist]]
    obtain vs where vs: "plan_victims residents chosen active = Inr vs"
      "set vs = {(m, g). m \<noteq> active \<and> (\<exists>old p. map_of residents m = Some old \<and> map_of chosen m = Some p
                      \<and> p \<le> g \<and> g < old)}"
      using plan_victims_total [OF dist, of chosen active] ch(2) by auto
    define plan where "plan = \<lparr> feasible = True, required_free_bytes = required,
      planned_free_bytes = state_freed s, predicted_future_damage_ms = Some (state_cost s),
      choices = chosen, victim_keys = vs, frontier_peak_states = peak, options_considered = considered \<rparr>"
    have run: "solve_covering_mckp t residents active required samples pb = Inr plan"
      using fold pos c(4) vs(1) s_def [symmetric]
      by (cases s) (auto simp: solve_covering_mckp_def Cons plan_def chosen_def [symmetric])
    have "(m, g) \<in> set vs \<longleftrightarrow> m \<in> set ?ms \<and> c m \<le> g \<and> g < resident_of residents m" for m g
      using ch(1) [of m] unfolding vs(2) inactive_models_props(2) [OF dist]
      by (auto simp: resident_of_def split: option.splits dest: map_of_SomeD)
    then have "plan_is_cut bytes_of residents active c plan"
      using c ch by (auto simp: plan_is_cut_def plan_def inactive_models_props(2) [OF dist])
    moreover have "cut_damage t samples residents active c \<le> cut_damage t samples residents active c'"
      if "valid_cut residents active c'" "required \<le> cut_freed bytes_of residents active c'" for c'
      using enough [OF that] s_min c(3) by force
    ultimately show ?thesis
      using run s_mem c(3) by (intro solved [of plan c]) (auto simp: plan_def)
  qed
qed

text \<open>
  C3. The planner is exact. On a validated table, for any positive demand,
  \<open>solve_covering_mckp\<close> returns a plan; it is feasible exactly when some cut of the inactive
  models frees the demanded bytes, and then its choices are such a cut, it plans the bytes that
  cut frees, and no other sufficient cut has a smaller predicted damage: dropping dominated
  states from the frontier loses no optimum.
\<close>

theorem solve_covering_mckp_exact:
  assumes "mckp_ready t pb bytes_of residents" and "0 < required"
  shows "\<exists>plan. solve_covering_mckp t residents active required samples pb = Inr plan
     \<and> (feasible plan \<longleftrightarrow>
          (\<exists>c. valid_cut residents active c \<and> required \<le> cut_freed bytes_of residents active c))
     \<and> (feasible plan \<longrightarrow>
          (\<exists>c. plan_is_cut bytes_of residents active c plan \<and> required \<le> planned_free_bytes plan
             \<and> predicted_future_damage_ms plan = Some (cut_damage t samples residents active c)
             \<and> (\<forall>c'. valid_cut residents active c' \<and> required \<le> cut_freed bytes_of residents active c'
                  \<longrightarrow> cut_damage t samples residents active c \<le> cut_damage t samples residents active c')))"
  using assms
proof (cases rule: solve_covering_mckp_cases [of t pb bytes_of residents required active samples])
  case (infeasible plan)
  then show ?thesis by (force simp: not_less [symmetric])
next
  case (solved plan c)
  then have "valid_cut residents active c \<and> required \<le> cut_freed bytes_of residents active c"
    by (auto simp: plan_is_cut_def)
  with solved show ?thesis by blast
qed

text \<open>
  Nothing is planned for nothing: when no bytes are demanded the plan keeps every resident
  prefix, evicts nothing and costs nothing, whatever the table holds.
\<close>

lemma solve_covering_mckp_zero:
  assumes "required \<le> 0"
  shows "\<exists>plan. solve_covering_mckp t residents active required samples pb = Inr plan
     \<and> feasible plan \<and> choices plan = residents \<and> victim_keys plan = []
     \<and> planned_free_bytes plan = 0 \<and> predicted_future_damage_ms plan = Some 0 \<and> overrelease_bytes plan = 0"
  using assms by (simp add: solve_covering_mckp_def overrelease_bytes_def)

section \<open>A concrete plan\<close>

text \<open>Two models of the demonstration table, both resident; model 7 is cut, model 3 is active.\<close>

definition demo_pair :: stall_table where
  "demo_pair = demo_table\<lparr> st_models := [(7, demo_model), (3, demo_model)] \<rparr>"

lemma demo_pair_ok: "table_ok demo_pair"
  using demo_table_ok by (simp add: table_ok_def demo_pair_def demo_table_def)

lemma demo_pair_ready:
  "mckp_ready demo_pair (table_prefix_bytes demo_pair) (\<lambda>m p. [0, 10, 30] ! p) [(7, 2), (3, 1)]"
proof -
  have two: "p \<le> 2 \<longleftrightarrow> p = 0 \<or> p = Suc 0 \<or> p = 2" for p :: nat by auto
  have one: "p \<le> Suc 0 \<longleftrightarrow> p = 0 \<or> p = Suc 0" for p :: nat by auto
  have "table_prefix_bytes demo_pair 7 p = Inr ([0, 10, 30] ! p)" if "p \<le> 2" for p
    using that by (auto simp: two table_prefix_bytes_def demo_pair_def demo_model_def)
  moreover have "table_prefix_bytes demo_pair 3 p = Inr ([0, 10, 30] ! p)" if "p \<le> Suc 0" for p
    using that by (auto simp: one table_prefix_bytes_def demo_pair_def demo_model_def)
  moreover have "[0, 10, 30] ! p \<le> ([0, 10, 30] ! q :: int)" if "q \<le> 2" "p \<le> q" for p q :: nat
    using that by (auto simp: two one)
  ultimately show ?thesis
    using demo_pair_ok by (auto simp: mckp_ready_def) (auto simp: demo_pair_def demo_model_def)
qed

theorem solve_covering_mckp_exact_witness:
  "\<exists>plan. solve_covering_mckp demo_pair [(7, 2), (3, 1)] 3 15 [7 \<mapsto> [(75, 1)]] (table_prefix_bytes demo_pair) = Inr plan
     \<and> feasible plan \<and> 15 \<le> planned_free_bytes plan"
proof -
  let ?size = "\<lambda>m p. [0, 10, 30] ! p :: int"
  have "valid_cut [(7, 2), (3, 1)] 3 (\<lambda>_. 1)
      \<and> 15 \<le> cut_freed ?size [(7, 2), (3, 1)] 3 (\<lambda>_. 1)"
    by (simp add: valid_cut_def cut_freed_def inactive_models_def resident_of_def)
  then show ?thesis
    using solve_covering_mckp_exact [OF demo_pair_ready, of 15 3 "[7 \<mapsto> [(75, 1)]]"] by auto
qed

end
