(* ===== verification/Memory_Common.thy ===== *)
theory Memory_Common
  imports Prefix_Mckp
begin

text \<open>
  The types and the base class every memory organization of the simulator shares
  (\<open>tensor_sim_memory_common.py\<close>): tensors, groups and models, the cost record with its
  accumulation, page arithmetic, the base backend's state, and the choice of an eviction
  victim. A method a subclass overrides is a function parameter; the state of a subclass is
  an extension of the record \<open>mem_base\<close>. A Python set is a duplicate-free list, and the
  order of its elements is shown not to matter for the victim that is chosen
  (\<open>select_victim_order\<close>). The two wall-clock fields of the cost record, which only
  measure the simulator itself, are left out.
\<close>

section \<open>Tensors, groups and models\<close>

record tensor_spec =
  tensor_id :: int
  ts_name :: string
  layer_id :: "int option"
  ts_bytes :: int
  ts_offset :: int

record tensor_group =
  group_id :: nat
  tensor_ids :: "int list"
  tg_bytes :: int
  tg_offset :: int

record tensor_model =
  tm_model_id :: int
  tensors :: "tensor_spec list"
  tm_bytes :: int
  max_input_tokens :: int
  groups :: "tensor_group list"
  tensor_to_group :: "(int \<times> nat) list"

type_synonym mem_key = "int \<times> nat"

section \<open>Costs\<close>

record load_cost =
  h2d_bytes :: int
  h2d_ms :: rat
  allocation_ms :: rat
  map_ms :: rat
  unmap_ms :: rat
  compaction_ms :: rat
  evicted_objects :: int
  evicted_bytes :: int
  map_calls :: int
  unmap_calls :: int
  mapped_pages :: int
  unmapped_pages :: int
  compaction_moved_bytes :: int
  mckp_required_free_bytes :: int
  mckp_planned_free_bytes :: int
  mckp_predicted_damage_ms :: rat
  mckp_frontier_peak_states :: int
  mckp_evicted_groups :: int
  mckp_evicted_models :: int
  model_reload_events :: int
  naive_relocation_bytes :: int

definition no_cost :: load_cost where
  "no_cost = \<lparr> h2d_bytes = 0, h2d_ms = 0, allocation_ms = 0, map_ms = 0, unmap_ms = 0,
     compaction_ms = 0, evicted_objects = 0, evicted_bytes = 0, map_calls = 0, unmap_calls = 0,
     mapped_pages = 0, unmapped_pages = 0, compaction_moved_bytes = 0,
     mckp_required_free_bytes = 0, mckp_planned_free_bytes = 0, mckp_predicted_damage_ms = 0,
     mckp_frontier_peak_states = 0, mckp_evicted_groups = 0, mckp_evicted_models = 0,
     model_reload_events = 0, naive_relocation_bytes = 0 \<rparr>"

definition ready_ms :: "load_cost \<Rightarrow> rat" where
  "ready_ms c = h2d_ms c + allocation_ms c + map_ms c + unmap_ms c + compaction_ms c"

definition cost_add :: "load_cost \<Rightarrow> load_cost \<Rightarrow> load_cost" where
  "cost_add a b = \<lparr>
     h2d_bytes = h2d_bytes a + h2d_bytes b,
     h2d_ms = h2d_ms a + h2d_ms b,
     allocation_ms = allocation_ms a + allocation_ms b,
     map_ms = map_ms a + map_ms b,
     unmap_ms = unmap_ms a + unmap_ms b,
     compaction_ms = compaction_ms a + compaction_ms b,
     evicted_objects = evicted_objects a + evicted_objects b,
     evicted_bytes = evicted_bytes a + evicted_bytes b,
     map_calls = map_calls a + map_calls b,
     unmap_calls = unmap_calls a + unmap_calls b,
     mapped_pages = mapped_pages a + mapped_pages b,
     unmapped_pages = unmapped_pages a + unmapped_pages b,
     compaction_moved_bytes = compaction_moved_bytes a + compaction_moved_bytes b,
     mckp_required_free_bytes = mckp_required_free_bytes a + mckp_required_free_bytes b,
     mckp_planned_free_bytes = mckp_planned_free_bytes a + mckp_planned_free_bytes b,
     mckp_predicted_damage_ms = mckp_predicted_damage_ms a + mckp_predicted_damage_ms b,
     mckp_frontier_peak_states = mckp_frontier_peak_states a + mckp_frontier_peak_states b,
     mckp_evicted_groups = mckp_evicted_groups a + mckp_evicted_groups b,
     mckp_evicted_models = mckp_evicted_models a + mckp_evicted_models b,
     model_reload_events = model_reload_events a + model_reload_events b,
     naive_relocation_bytes = naive_relocation_bytes a + naive_relocation_bytes b \<rparr>"

lemma no_cost_sel [simp]:
  "h2d_bytes no_cost = 0" "h2d_ms no_cost = 0" "evicted_objects no_cost = 0"
  "evicted_bytes no_cost = 0" "unmap_ms no_cost = 0" "unmapped_pages no_cost = 0"
  "compaction_moved_bytes no_cost = 0" "mckp_planned_free_bytes no_cost = 0"
  "compaction_ms no_cost = 0" "map_ms no_cost = 0" "allocation_ms no_cost = 0"
  "ready_ms no_cost = 0" "unmap_calls no_cost = 0"
  by (simp_all add: no_cost_def ready_ms_def)

lemma cost_add_sel [simp]:
  "h2d_bytes (cost_add a b) = h2d_bytes a + h2d_bytes b"
  "h2d_ms (cost_add a b) = h2d_ms a + h2d_ms b"
  "allocation_ms (cost_add a b) = allocation_ms a + allocation_ms b"
  "map_ms (cost_add a b) = map_ms a + map_ms b"
  "unmap_ms (cost_add a b) = unmap_ms a + unmap_ms b"
  "compaction_ms (cost_add a b) = compaction_ms a + compaction_ms b"
  "evicted_objects (cost_add a b) = evicted_objects a + evicted_objects b"
  "evicted_bytes (cost_add a b) = evicted_bytes a + evicted_bytes b"
  "unmapped_pages (cost_add a b) = unmapped_pages a + unmapped_pages b"
  "unmap_calls (cost_add a b) = unmap_calls a + unmap_calls b"
  "ready_ms (cost_add a b) = ready_ms a + ready_ms b"
  by (simp_all add: cost_add_def ready_ms_def)

lemma cost_add_assoc: "cost_add (cost_add a b) c = cost_add a (cost_add b c)"
  by (simp add: cost_add_def add.assoc)

lemma cost_add_commute: "cost_add a b = cost_add b a"
  by (simp add: cost_add_def add.commute)

lemma cost_add_no_cost [simp]: "cost_add no_cost a = a" "cost_add a no_cost = a"
  by (simp_all add: cost_add_def no_cost_def)

text \<open>The time components of a cost, all of them non-negative for every backend.\<close>

definition cost_ok :: "load_cost \<Rightarrow> bool" where
  "cost_ok c \<longleftrightarrow> 0 \<le> h2d_ms c \<and> 0 \<le> allocation_ms c \<and> 0 \<le> map_ms c \<and> 0 \<le> unmap_ms c
     \<and> 0 \<le> compaction_ms c"

lemma cost_ok_add [intro]: "cost_ok a \<Longrightarrow> cost_ok b \<Longrightarrow> cost_ok (cost_add a b)"
  by (simp add: cost_ok_def)

lemma cost_ok_no_cost [simp]: "cost_ok no_cost"
  by (simp add: cost_ok_def)

lemma cost_ok_ready: "cost_ok c \<Longrightarrow> 0 \<le> ready_ms c"
  by (simp add: cost_ok_def ready_ms_def)

section \<open>Page arithmetic\<close>

definition ceil_div :: "int \<Rightarrow> int \<Rightarrow> int" where
  \<comment> \<open>for a non-zero divisor; every caller divides by a positive page or block size\<close>
  "ceil_div v divisor = (v + divisor - 1) div divisor"

definition contiguous_runs :: "int list \<Rightarrow> nat" where
  "contiguous_runs pages =
     (if pages = [] then 0
      else let ordered = sort pages in
        1 + length (filter (\<lambda>(previous, current). current \<noteq> previous + 1) (zip ordered (tl ordered))))"

lemma ceil_div_least:
  assumes "0 < d"
  shows "v \<le> ceil_div v d * d" and "v \<le> k * d \<Longrightarrow> ceil_div v d \<le> k"
proof -
  have "(v + d - 1) div d * d + (v + d - 1) mod d = v + d - 1" by (rule div_mult_mod_eq)
  moreover have "(v + d - 1) mod d < d" using assms by (rule pos_mod_bound)
  ultimately show "v \<le> ceil_div v d * d" unfolding ceil_div_def by linarith
next
  assume "v \<le> k * d"
  then have "v + d - 1 < (k + 1) * d" by (simp add: algebra_simps)
  moreover have "(v + d - 1) div d * d + (v + d - 1) mod d = v + d - 1" by (rule div_mult_mod_eq)
  moreover have "0 \<le> (v + d - 1) mod d" using assms by (rule pos_mod_sign)
  ultimately have "(v + d - 1) div d * d < (k + 1) * d" by linarith
  then have "(v + d - 1) div d < k + 1" using assms mult_less_cancel_right_pos by blast
  then show "ceil_div v d \<le> k" by (simp add: ceil_div_def)
qed

lemma ceil_div_nonneg: "0 < d \<Longrightarrow> 0 \<le> v \<Longrightarrow> 0 \<le> ceil_div v d"
  by (simp add: ceil_div_def pos_imp_zdiv_nonneg_iff)

lemma ceil_div_mono: "0 < d \<Longrightarrow> v \<le> w \<Longrightarrow> ceil_div v d \<le> ceil_div w d"
  by (simp add: ceil_div_def zdiv_mono1)

lemma ceil_div_mult: "0 < d \<Longrightarrow> ceil_div (k * d) d = k"
  using ceil_div_least [of d "k * d"] by (metis mult_le_cancel_right_pos order.antisym order_refl)

text \<open>
  \<open>contiguous_runs\<close> counts the maximal runs of consecutive pages: it is the number of
  pages whose predecessor is not in the set, in whatever order the set is enumerated.
\<close>

lemma contiguous_runs_card:
  assumes "distinct pages"
  shows "contiguous_runs pages = card {p \<in> set pages. p - 1 \<notin> set pages}"
proof -
  have *: "xs \<noteq> [] \<Longrightarrow> sorted xs \<Longrightarrow> distinct xs \<Longrightarrow>
      1 + length (filter (\<lambda>(a, b). b \<noteq> a + 1) (zip xs (tl xs))) = card {p \<in> set xs. p - 1 \<notin> set xs}"
    for xs :: "int list"
  proof (induction xs rule: induct_list012)
    case (2 x)
    have "{p \<in> set [x]. p - 1 \<notin> set [x]} = {x}" by auto
    then show ?case by simp
  next
    case (3 x y zs)
    define Y where "Y = set (y # zs)"
    let ?S = "\<lambda>A. {p \<in> A. p - 1 \<notin> A}"
    have above: "x < y \<and> y \<le> q" if "q \<in> Y" for q using 3(4,5) that by (auto simp: Y_def)
    have mem: "y \<in> Y" "finite Y" by (auto simp: Y_def)
    have less: "x < q" if "q \<in> Y" for q using above [OF that] by linarith
    have y_first: "y - 1 \<notin> Y" using above by fastforce
    have x_first: "x - 1 \<notin> insert x Y" using above by fastforce
    have pred: "q - 1 = x \<longleftrightarrow> q = y \<and> y = x + 1" if "q \<in> Y" for q
      using above [OF that] by arith
    have S: "q \<in> ?S (insert x Y) \<longleftrightarrow> q = x \<or> q \<in> ?S Y \<and> \<not> (q = y \<and> y = x + 1)" for q
      using x_first pred [of q] less [of q] by (cases "q = x") auto
    have "card (?S (insert x Y)) = (if y = x + 1 then card (?S Y) else Suc (card (?S Y)))"
    proof (cases "y = x + 1")
      case True
      then have "?S (insert x Y) = insert x (?S Y - {y})" using S by blast
      moreover have "x \<notin> Y" using less by blast
      ultimately have "card (?S (insert x Y)) = Suc (card (?S Y - {y}))"
        using mem(2) by simp
      also have "\<dots> = card (?S Y)" using mem y_first by (intro card.remove [symmetric]) auto
      finally show ?thesis using True by simp
    next
      case False
      then have "?S (insert x Y) = insert x (?S Y)" using S by blast
      moreover have "x \<notin> Y" using less by blast
      ultimately show ?thesis using mem(2) False by simp
    qed
    moreover have "1 + length (filter (\<lambda>(a, b). b \<noteq> a + 1) (zip (y # zs) (tl (y # zs)))) = card (?S Y)"
      unfolding Y_def by (rule 3(2)) (use 3(4,5) in auto)
    moreover have "set (x # y # zs) = insert x Y" by (auto simp: Y_def)
    ultimately show ?case by (cases "y = x + 1") simp_all
  qed auto
  have "sort pages \<noteq> []" if "pages \<noteq> []" using that by (metis set_empty set_sort)
  with * [of "sort pages"] assms show ?thesis by (simp add: contiguous_runs_def Let_def)
qed

section \<open>Settings\<close>

datatype replacement_policy =
    Lru | LruPrefix | MckpPrefix | FrequencyLru | FrequencyLruSuffixFirst
  | PipelineValue | ProtectedPipeline | ProtectedPipelineShadow

datatype compaction_policy = Never | OnAllocationFailure | CostAware

datatype memory_layout = Segment | LegacySegment | TensorPage | CompactPage

datatype robust_stat = RobustMean | RobustP90 | RobustMax

record sim_args =
  replacement_policy :: replacement_policy
  pipeline_robust_stat :: robust_stat
  pipeline_protected_threshold_ms :: rat
  shadow_max_churn_ratio :: rat
  memory_layout :: memory_layout
  page_size_bytes :: int
  compaction_policy :: compaction_policy
  h2d_bytes_per_ms :: rat
  gpu_copy_bytes_per_ms :: rat
  segment_allocation_ms :: rat
  map_fixed_ms :: rat
  map_per_page_ms :: rat
  unmap_fixed_ms :: rat
  unmap_per_page_ms :: rat
  compaction_fixed_ms :: rat
  kv_block_tokens :: int
  kv_block_bytes :: int

text \<open>What the command line guarantees of the settings: rates positive, times non-negative.\<close>

definition args_ok :: "'x sim_args_scheme \<Rightarrow> bool" where
  "args_ok a \<longleftrightarrow> 0 < h2d_bytes_per_ms a \<and> 0 < gpu_copy_bytes_per_ms a \<and> 0 \<le> segment_allocation_ms a
     \<and> 0 \<le> map_fixed_ms a \<and> 0 \<le> map_per_page_ms a \<and> 0 \<le> unmap_fixed_ms a \<and> 0 \<le> unmap_per_page_ms a
     \<and> 0 \<le> compaction_fixed_ms a \<and> 0 < kv_block_tokens a \<and> 0 < kv_block_bytes a"

section \<open>The base backend\<close>

record mem_base =
  mb_models :: "(int \<times> tensor_model) list"
  capacity_bytes :: int
  weight_capacity_bytes :: int
  page_size :: int
  mb_args :: sim_args
  clock :: int
  model_accesses :: "int \<rightharpoonup> int"
  last_access :: "mem_key \<rightharpoonup> int"
  pipeline_benefits :: "mem_key \<rightharpoonup> rat"
  future_model_probabilities :: "int \<rightharpoonup> rat"
  prefix_stall_table :: "stall_table option"
  mckp_prediction_samples :: "int \<rightharpoonup> (int \<times> rat) list"
  last_mckp_plan :: "mckp_plan option"

definition mem_init :: "(int \<times> tensor_model) list \<Rightarrow> int \<Rightarrow> int \<Rightarrow> sim_args \<Rightarrow> mem_base" where
  "mem_init models capacity page args = \<lparr>
     mb_models = models, capacity_bytes = capacity, weight_capacity_bytes = capacity,
     page_size = page, mb_args = args, clock = 0,
     model_accesses = (\<lambda>m. if m \<in> fst ` set models then Some 0 else None),
     last_access = Map.empty, pipeline_benefits = Map.empty,
     future_model_probabilities = Map.empty, prefix_stall_table = None,
     mckp_prediction_samples = Map.empty, last_mckp_plan = None \<rparr>"

abbreviation mem_policy :: "'x mem_base_scheme \<Rightarrow> replacement_policy" where
  "mem_policy b \<equiv> replacement_policy (mb_args b)"

text \<open>\<open>_trim_to_capacity\<close> is the subclass's.\<close>

definition mem_begin_request ::
  "(int \<Rightarrow> 'x mem_base_scheme \<Rightarrow> ('x mem_base_scheme \<times> load_cost) result) \<Rightarrow>
   int \<Rightarrow> int \<Rightarrow> 'x mem_base_scheme \<Rightarrow> ('x mem_base_scheme \<times> load_cost) result" where
  "mem_begin_request trim_to_capacity kv_bytes active_model b =
     trim_to_capacity active_model
       (b\<lparr> weight_capacity_bytes := max 0 (capacity_bytes b - kv_bytes) \<rparr>)"

definition mem_finish_request :: "int \<Rightarrow> 'x mem_base_scheme \<Rightarrow> 'x mem_base_scheme result" where
  "mem_finish_request model_id b =
     (case model_accesses b model_id of
        None \<Rightarrow> Inl KeyError
      | Some n \<Rightarrow> Inr (b\<lparr> model_accesses := (model_accesses b)(model_id \<mapsto> n + 1) \<rparr>))"

definition mem_touch :: "mem_key \<Rightarrow> 'x mem_base_scheme \<Rightarrow> 'x mem_base_scheme" where
  "mem_touch key b =
     b\<lparr> clock := clock b + 1, last_access := (last_access b)(key \<mapsto> clock b + 1) \<rparr>"

text \<open>\<open>models[model_id].groups[i]\<close>, and the group of a tensor.\<close>

definition group_at :: "'x mem_base_scheme \<Rightarrow> mem_key \<Rightarrow> tensor_group result" where
  "group_at b key =
     r_bind (dict_get (mb_models b) (fst key)) (\<lambda>model.
       if snd key < length (groups model) then Inr (groups model ! snd key)
       else Inl (IndexError ''list index out of range''))"

definition mem_group :: "'x mem_base_scheme \<Rightarrow> int \<Rightarrow> tensor_spec \<Rightarrow> tensor_group result" where
  "mem_group b model_id tensor =
     r_bind (dict_get (mb_models b) model_id) (\<lambda>model.
       r_bind (dict_get (tensor_to_group model) (tensor_id tensor)) (\<lambda>index.
         group_at b (model_id, index)))"

section \<open>Eviction values and victims\<close>

abbreviation last_use :: "'x mem_base_scheme \<Rightarrow> mem_key \<Rightarrow> rat" where
  "last_use b key \<equiv> of_int (get_default (last_access b) key (- 1))"

abbreviation benefit_of :: "'x mem_base_scheme \<Rightarrow> mem_key \<Rightarrow> rat" where
  "benefit_of b key \<equiv> get_default (pipeline_benefits b) key 0"

definition future_probability :: "'x mem_base_scheme \<Rightarrow> int \<Rightarrow> rat" where
  \<comment> \<open>the default \<open>1.0 / len(models)\<close>; \<open>select_victim\<close> raises first when there is no model\<close>
  "future_probability b model_id =
     get_default (future_model_probabilities b) model_id (1 / of_nat (length (mb_models b)))"

definition frequency_value :: "'x mem_base_scheme \<Rightarrow> mem_key \<Rightarrow> rat list" where
  "frequency_value b key =
     (if mem_policy b = FrequencyLruSuffixFirst
      then [of_int (get_default (model_accesses b) (fst key) 0), - of_nat (snd key), last_use b key]
      else [of_int (get_default (model_accesses b) (fst key) 0), last_use b key])"

definition pipeline_loss :: "'x mem_base_scheme \<Rightarrow> mem_key \<Rightarrow> rat" where
  "pipeline_loss b key = future_probability b (fst key) * benefit_of b key"

definition protected_policy :: "replacement_policy \<Rightarrow> bool" where
  \<comment> \<open>\<open>replacement_policy.startswith("protected-pipeline")\<close>\<close>
  "protected_policy p \<longleftrightarrow> p = ProtectedPipeline \<or> p = ProtectedPipelineShadow"

definition is_protected :: "'x mem_base_scheme \<Rightarrow> mem_key \<Rightarrow> bool" where
  "is_protected b key \<longleftrightarrow> pipeline_protected_threshold_ms (mb_args b) < benefit_of b key"

definition mem_value :: "(mem_key \<Rightarrow> int) \<Rightarrow> 'x mem_base_scheme \<Rightarrow> mem_key \<Rightarrow> rat list" where
  "mem_value placement_rank b key =
     (if mem_policy b = Lru then [last_use b key]
      else if mem_policy b = PipelineValue then [pipeline_loss b key, last_use b key]
      else if protected_policy (mem_policy b)
      then [of_bool (is_protected b key), future_probability b (fst key), benefit_of b key,
            of_int (placement_rank key), last_use b key]
      else frequency_value b key)"

definition select_victim ::
  "(mem_key \<Rightarrow> int) \<Rightarrow> (mem_key \<Rightarrow> int result) \<Rightarrow> 'x mem_base_scheme \<Rightarrow> mem_key list \<Rightarrow>
   mem_key option result" where
  "select_victim placement_rank object_bytes b keys =
     (if keys = [] then Inr None
      else if (mem_policy b = PipelineValue \<or> protected_policy (mem_policy b)) \<and> mb_models b = []
      then Inl ZeroDivisionError
      else let pipeline = arg_min_list (mem_value placement_rank b) keys in
        if mem_policy b \<noteq> ProtectedPipelineShadow then Inr (Some pipeline)
        else let frequency = arg_min_list (frequency_value b) keys in
          if pipeline = frequency then Inr (Some pipeline)
          else r_bind (object_bytes pipeline) (\<lambda>pipeline_bytes.
            r_bind (object_bytes frequency) (\<lambda>frequency_bytes.
              let pipeline_soft = \<not> is_protected b pipeline;
                  frequency_protected = is_protected b frequency;
                  pipeline_churn = future_probability b (fst pipeline) * of_int pipeline_bytes;
                  frequency_churn = future_probability b (fst frequency) * of_int frequency_bytes;
                  churn_safe = pipeline_churn \<le> frequency_churn * shadow_max_churn_ratio (mb_args b)
              in Inr (Some (if pipeline_soft \<and> frequency_protected \<and> churn_safe
                            then pipeline else frequency)))))"

lemma select_victim_mem: "select_victim rank obj b keys = Inr (Some k) \<Longrightarrow> k \<in> set keys"
  by (auto simp: select_victim_def Let_def py_simps arg_min_list_mem split: if_splits)

lemma select_victim_None: "select_victim rank obj b keys = Inr None \<longleftrightarrow> keys = []"
  by (auto simp: select_victim_def Let_def py_simps split: if_splits)

text \<open>With models configured and every object measurable, a victim is always found.\<close>

lemma select_victim_total:
  assumes "keys \<noteq> []" and "mb_models b \<noteq> []" and "\<And>k. k \<in> set keys \<Longrightarrow> \<exists>n. obj k = Inr n"
  shows "\<exists>k. select_victim rank obj b keys = Inr (Some k) \<and> k \<in> set keys"
proof -
  have "arg_min_list f keys \<in> set keys" for f :: "mem_key \<Rightarrow> rat list"
    using assms(1) by (rule arg_min_list_mem)
  then obtain n n' where "obj (arg_min_list (mem_value rank b) keys) = Inr n"
      "obj (arg_min_list (frequency_value b) keys) = Inr n'"
    using assms(3) by meson
  then have "\<exists>k. select_victim rank obj b keys = Inr (Some k)"
    using assms(1,2) by (simp add: select_victim_def Let_def)
  then show ?thesis by (auto dest: select_victim_mem)
qed

text \<open>Every value ends in the last use, so keys used at different times have different values.\<close>

lemma arg_min_list_set_eq:
  assumes "xs \<noteq> []" and "set xs = set ys" and "inj_on f (set xs)"
  shows "arg_min_list f xs = arg_min_list (f :: _ \<Rightarrow> 'a :: linorder) ys"
proof -
  have "ys \<noteq> []" using assms(1,2) by auto
  then have mem: "arg_min_list f xs \<in> set xs" "arg_min_list f ys \<in> set xs"
    using assms(1,2) arg_min_list_mem by metis+
  then have "f (arg_min_list f xs) = f (arg_min_list f ys)"
    using assms(2) by (intro order.antisym arg_min_list_le) auto
  with assms(3) mem show ?thesis by (auto dest: inj_onD)
qed

lemma value_inj:
  assumes "inj_on (\<lambda>k. get_default (last_access b) k (- 1)) K"
  shows "inj_on (mem_value rank b) K" and "inj_on (frequency_value b) K"
  using assms by (auto simp: inj_on_def mem_value_def frequency_value_def split: if_splits)

text \<open>
  The victim does not depend on the order in which Python enumerates a set: when no two
  of the candidate objects were last used at the same tick, any two enumerations of the same
  set of candidates select the same victim, under every replacement policy.
\<close>

lemma select_victim_order:
  assumes "set keys = set keys'"
    and "inj_on (\<lambda>k. get_default (last_access b) k (- 1)) (set keys)"
  shows "select_victim rank obj b keys = select_victim rank obj b keys'"
proof (cases "keys = []")
  case False
  have mins: "arg_min_list (mem_value rank b) keys = arg_min_list (mem_value rank b) keys'"
    "arg_min_list (frequency_value b) keys = arg_min_list (frequency_value b) keys'"
    using False assms(1) value_inj [OF assms(2)] by (auto intro: arg_min_list_set_eq)
  have "keys' \<noteq> []" using False assms(1) by auto
  with False show ?thesis unfolding select_victim_def mins by simp
qed (use assms(1) in auto)

text \<open>
  What the victim is, by policy: plain LRU evicts an object nobody used later; the
  protected policy evicts an object whose stall benefit is above the threshold only when every
  candidate is; and its shadow variant departs from the frequency order only to spare a
  protected object by evicting an unprotected one whose expected reload volume is within the
  configured ratio.
\<close>

lemma select_victim_policy:
  assumes "select_victim rank obj b keys = Inr (Some k)"
  shows "(mem_policy b = Lru \<longrightarrow> (\<forall>k' \<in> set keys. last_use b k \<le> last_use b k'))
    \<and> (mem_policy b = ProtectedPipeline \<longrightarrow> is_protected b k \<longrightarrow> (\<forall>k' \<in> set keys. is_protected b k'))
    \<and> (mem_policy b = ProtectedPipelineShadow \<longrightarrow> k \<noteq> arg_min_list (frequency_value b) keys \<longrightarrow>
       \<not> is_protected b k \<and> is_protected b (arg_min_list (frequency_value b) keys)
       \<and> (\<exists>n n'. obj k = Inr n \<and> obj (arg_min_list (frequency_value b) keys) = Inr n'
            \<and> future_probability b (fst k) * of_int n
                \<le> future_probability b (fst (arg_min_list (frequency_value b) keys)) * of_int n'
                    * shadow_max_churn_ratio (mb_args b)))"
proof -
  have k: "k = arg_min_list (mem_value rank b) keys" if "mem_policy b \<noteq> ProtectedPipelineShadow"
    using assms that by (auto simp: select_victim_def Let_def split: if_splits)
  then have le: "mem_value rank b k \<le> mem_value rank b k'"
    if "mem_policy b \<noteq> ProtectedPipelineShadow" "k' \<in> set keys" for k'
    using that by (simp add: arg_min_list_le)
  have 1: "mem_policy b = Lru \<longrightarrow> (\<forall>k' \<in> set keys. last_use b k \<le> last_use b k')"
    using le by (fastforce simp: mem_value_def)
  have 2: "mem_policy b = ProtectedPipeline \<longrightarrow> is_protected b k \<longrightarrow> (\<forall>k' \<in> set keys. is_protected b k')"
  proof (intro impI ballI)
    fix k' assume "mem_policy b = ProtectedPipeline" "is_protected b k" "k' \<in> set keys"
    then show "is_protected b k'"
      using le [of k'] by (cases "is_protected b k'") (auto simp: mem_value_def protected_policy_def)
  qed
  have 3: "mem_policy b = ProtectedPipelineShadow \<longrightarrow> k \<noteq> arg_min_list (frequency_value b) keys \<longrightarrow>
       \<not> is_protected b k \<and> is_protected b (arg_min_list (frequency_value b) keys)
       \<and> (\<exists>n n'. obj k = Inr n \<and> obj (arg_min_list (frequency_value b) keys) = Inr n'
            \<and> future_probability b (fst k) * of_int n
                \<le> future_probability b (fst (arg_min_list (frequency_value b) keys)) * of_int n'
                    * shadow_max_churn_ratio (mb_args b))"
    using assms by (auto simp: select_victim_def Let_def py_simps split: if_splits)
  from 1 2 3 show ?thesis by blast
qed

section \<open>Well-formed models\<close>

text \<open>
  What the loaders establish of the models (\<open>Tensor_Groups\<close>) and every backend relies on:
  group ids are positions, every tensor is in a group, and sizes are non-negative.
\<close>

definition model_wf :: "tensor_model \<Rightarrow> bool" where
  "model_wf m \<longleftrightarrow>
     (\<forall>i < length (groups m). group_id (groups m ! i) = i \<and> 0 \<le> tg_bytes (groups m ! i))
     \<and> (\<forall>t \<in> set (tensors m). \<exists>g. map_of (tensor_to_group m) (tensor_id t) = Some g
          \<and> g < length (groups m))"

definition models_wf :: "(int \<times> tensor_model) list \<Rightarrow> bool" where
  "models_wf ms \<longleftrightarrow> distinct (map fst ms) \<and> (\<forall>(i, m) \<in> set ms. model_wf m)"

lemma group_at_wf:
  assumes "models_wf (mb_models b)" and "group_at b key = Inr g"
  shows "group_id g = snd key" and "0 \<le> tg_bytes g"
  using assms by (auto simp: group_at_def py_simps models_wf_def model_wf_def dest!: map_of_SomeD split: if_splits)

lemma mem_group_wf:
  assumes "models_wf (mb_models b)" and "mem_group b m t = Inr g"
  shows "group_at b (m, group_id g) = Inr g" and "0 \<le> tg_bytes g"
proof -
  obtain i where i: "group_at b (m, i) = Inr g" using assms(2) by (auto simp: mem_group_def py_simps)
  with group_at_wf [OF assms(1) this] show "group_at b (m, group_id g) = Inr g" "0 \<le> tg_bytes g"
    by simp_all
qed

lemma mem_group_total:
  assumes "models_wf (mb_models b)" and "map_of (mb_models b) m = Some model" and "t \<in> set (tensors model)"
  shows "\<exists>g. mem_group b m t = Inr g"
proof -
  have "model_wf model" using assms(1,2) by (auto simp: models_wf_def dest!: map_of_SomeD)
  then obtain g where "map_of (tensor_to_group model) (tensor_id t) = Some g" "g < length (groups model)"
    using assms(3) by (auto simp: model_wf_def)
  then show ?thesis using assms(2) by (simp add: mem_group_def group_at_def)
qed

lemma group_at_cong: "mb_models b = mb_models b' \<Longrightarrow> group_at b key = group_at b' key"
  by (simp add: group_at_def)

lemma mem_group_cong: "mb_models b = mb_models b' \<Longrightarrow> mem_group b m t = mem_group b' m t"
  by (simp add: mem_group_def group_at_def)

section \<open>A concrete backend\<close>

definition demo_args :: "replacement_policy \<Rightarrow> sim_args" where
  "demo_args policy = \<lparr> replacement_policy = policy, pipeline_robust_stat = RobustMean,
     pipeline_protected_threshold_ms = 5, shadow_max_churn_ratio = 5 / 4,
     memory_layout = TensorPage, page_size_bytes = 64, compaction_policy = OnAllocationFailure,
     h2d_bytes_per_ms = 10, gpu_copy_bytes_per_ms = 100, segment_allocation_ms = 1,
     map_fixed_ms = 1, map_per_page_ms = 1, unmap_fixed_ms = 1, unmap_per_page_ms = 1,
     compaction_fixed_ms = 1, kv_block_tokens = 32, kv_block_bytes = 64 \<rparr>"

definition demo_tensor :: "int \<Rightarrow> tensor_spec" where
  "demo_tensor i = \<lparr> tensor_id = i, ts_name = ''w'', layer_id = Some i, ts_bytes = 100,
     ts_offset = i * 100 \<rparr>"

definition demo_tensor_model :: "int \<Rightarrow> tensor_model" where
  "demo_tensor_model m = \<lparr> tm_model_id = m, tensors = [demo_tensor 0, demo_tensor 1], tm_bytes = 200,
     max_input_tokens = 100,
     groups = [\<lparr> group_id = 0, tensor_ids = [0], tg_bytes = 100, tg_offset = 0 \<rparr>,
               \<lparr> group_id = 1, tensor_ids = [1], tg_bytes = 100, tg_offset = 100 \<rparr>],
     tensor_to_group = [(0, 0), (1, 1)] \<rparr>"

definition demo_models :: "(int \<times> tensor_model) list" where
  "demo_models = [(1, demo_tensor_model 1), (2, demo_tensor_model 2)]"

lemma demo_models_wf: "models_wf demo_models"
  by (auto simp: models_wf_def model_wf_def demo_models_def demo_tensor_model_def demo_tensor_def
      less_Suc_eq)

lemma demo_args_ok: "args_ok (demo_args policy)"
  by (simp add: args_ok_def demo_args_def)

definition demo_base :: "replacement_policy \<Rightarrow> mem_base" where
  "demo_base policy = mem_touch (2, 0) (mem_touch (1, 0) (mem_init demo_models 300 64 (demo_args policy)))"

end
