(* ===== verification/Page_Prefix.thy ===== *)
theory Page_Prefix
  imports Memory_Common
begin

text \<open>
  Prefix replacement shared by the two page layouts (\<open>PagePrefixMckpMixin\<close> of
  \<open>tensor_sim_page_backends.py\<close>). The mixin calls three methods of the layout that inherits
  it; they are parameters of the definitions and the \<open>fixes\<close> of the locale \<open>page_prefix\<close>,
  whose \<open>assumes\<close> are what the mixin relies on. Inside the locale the reclamation is shown to
  free at least what it is asked for, at minimal predicted damage, and never to trip over one
  of its own consistency checks.
\<close>

section \<open>The mixin\<close>

definition resident_prefixes ::
  "('x mem_base_scheme \<Rightarrow> int \<Rightarrow> nat result) \<Rightarrow> 'x mem_base_scheme \<Rightarrow> (int \<times> nat) list result" where
  "resident_prefixes prefix_count b =
     r_map (\<lambda>(model_id, _). r_bind (prefix_count b model_id) (\<lambda>p. Inr (model_id, p))) (mb_models b)"

definition resident_model_bytes ::
  "('x mem_base_scheme \<Rightarrow> int \<Rightarrow> nat result) \<Rightarrow> ('x mem_base_scheme \<Rightarrow> int \<Rightarrow> nat \<Rightarrow> int result) \<Rightarrow>
   'x mem_base_scheme \<Rightarrow> int \<Rightarrow> int result" where
  "resident_model_bytes prefix_count prefix_physical_bytes b model_id =
     r_bind (prefix_count b model_id) (\<lambda>p. prefix_physical_bytes b model_id p)"

text \<open>One model of the commit loop; the third component collects the models that lost pages.\<close>

definition commit_step ::
  "(int \<Rightarrow> nat \<Rightarrow> nat \<Rightarrow> 'b \<times> load_cost \<Rightarrow> ('b \<times> load_cost) result) \<Rightarrow> (int \<times> nat) list \<Rightarrow>
   'b \<times> load_cost \<times> int list \<Rightarrow> int \<times> nat \<Rightarrow> ('b \<times> load_cost \<times> int list) result" where
  "commit_step commit_prefix chosen = (\<lambda>(b, cost, evicted) (model_id, old_prefix).
     r_bind (dict_get chosen model_id) (\<lambda>new_prefix.
       if new_prefix < old_prefix
       then r_bind (commit_prefix model_id old_prefix new_prefix (b, cost)) (\<lambda>(b', cost').
              Inr (b', cost', List.insert model_id evicted))
       else Inr (b, cost, evicted)))"

definition mckp_reclaim ::
  "('x mem_base_scheme \<Rightarrow> int \<Rightarrow> nat result) \<Rightarrow>
   ('x mem_base_scheme \<Rightarrow> int \<Rightarrow> nat \<Rightarrow> int result) \<Rightarrow>
   (int \<Rightarrow> nat \<Rightarrow> nat \<Rightarrow> 'x mem_base_scheme \<times> load_cost \<Rightarrow> ('x mem_base_scheme \<times> load_cost) result) \<Rightarrow>
   int \<Rightarrow> int \<Rightarrow> 'x mem_base_scheme \<Rightarrow> ('x mem_base_scheme \<times> load_cost) result" where
  "mckp_reclaim prefix_count prefix_physical_bytes commit_prefix active_model required_free b =
     (let required = max 0 required_free in
      if required = 0 then Inr (b, no_cost)
      else case prefix_stall_table b of
        None \<Rightarrow> Inl (RuntimeError ''mckp-prefix requires a prefix stall table'')
      | Some table \<Rightarrow>
          r_bind (resident_prefixes prefix_count b) (\<lambda>before.
          r_bind (solve_covering_mckp table before active_model required
                    (mckp_prediction_samples b) (prefix_physical_bytes b)) (\<lambda>plan.
          if \<not> feasible plan then Inl (RuntimeError ''Prefix-MCKP cannot reclaim enough page space'')
          else
          r_bind (r_foldl (commit_step commit_prefix (choices plan)) (b, no_cost, []) before)
            (\<lambda>(b', cost, evicted_models).
          if evicted_bytes cost \<noteq> planned_free_bytes plan
          then Inl (RuntimeError ''Prefix-MCKP page preview/commit byte mismatch'')
          else
          r_bind (resident_prefixes prefix_count b') (\<lambda>after.
          if set after \<noteq> set (choices plan)
          then Inl (RuntimeError ''Prefix-MCKP page preview/commit prefix mismatch'')
          else
          r_bind (r_map (\<lambda>(model_id, p). r_bind (dict_get before model_id) (\<lambda>q. Inr (int q - int p)))
                    (choices plan)) (\<lambda>lost.
            Inr (b'\<lparr> last_mckp_plan := Some plan \<rparr>,
                 cost\<lparr> mckp_required_free_bytes := required_free_bytes plan,
                       mckp_planned_free_bytes := evicted_bytes cost,
                       mckp_predicted_damage_ms :=
                         (case predicted_future_damage_ms plan of None \<Rightarrow> 0 | Some d \<Rightarrow> d),
                       mckp_frontier_peak_states := int (frontier_peak_states plan),
                       mckp_evicted_groups := sum_list lost,
                       mckp_evicted_models := int (length evicted_models) \<rparr>)))))))"

definition prefix_reclaim ::
  "('x mem_base_scheme \<Rightarrow> int \<Rightarrow> nat result) \<Rightarrow>
   ('x mem_base_scheme \<Rightarrow> int \<Rightarrow> nat \<Rightarrow> int result) \<Rightarrow>
   (int \<Rightarrow> nat \<Rightarrow> nat \<Rightarrow> 'x mem_base_scheme \<times> load_cost \<Rightarrow> ('x mem_base_scheme \<times> load_cost) result) \<Rightarrow>
   int \<Rightarrow> int \<Rightarrow> 'x mem_base_scheme \<Rightarrow> ('x mem_base_scheme \<times> load_cost) result" where
  "prefix_reclaim prefix_count prefix_physical_bytes commit_prefix active_model required_free b =
     (if mem_policy b \<noteq> MckpPrefix then Inl (RuntimeError ''not a page prefix replacement policy'')
      else mckp_reclaim prefix_count prefix_physical_bytes commit_prefix active_model required_free b)"

text \<open>\<open>plan_request\<close>, with the layout's \<open>used_bytes\<close> and \<open>_missing_request_physical_bytes\<close>.\<close>

definition plan_request ::
  "('x mem_base_scheme \<Rightarrow> int result) \<Rightarrow>
   ('x mem_base_scheme \<Rightarrow> int \<Rightarrow> tensor_spec list \<Rightarrow> int result) \<Rightarrow>
   (int \<Rightarrow> int \<Rightarrow> 'x mem_base_scheme \<Rightarrow> ('x mem_base_scheme \<times> load_cost) result) \<Rightarrow>
   int \<Rightarrow> tensor_spec list \<Rightarrow> 'x mem_base_scheme \<Rightarrow> ('x mem_base_scheme \<times> load_cost) result" where
  "plan_request used_bytes missing_bytes reclaim model_id ts b =
     (if mem_policy b \<noteq> MckpPrefix then Inr (b, no_cost)
      else r_bind (missing_bytes b model_id ts) (\<lambda>needed.
           r_bind (used_bytes b) (\<lambda>used.
             reclaim model_id (max 0 (used + needed - weight_capacity_bytes b)) b)))"

text \<open>The cost of releasing \<open>objects\<close> allocations of \<open>pages\<close> pages together.\<close>

definition charge_unmap :: "'x mem_base_scheme \<Rightarrow> int \<Rightarrow> int \<Rightarrow> load_cost \<Rightarrow> load_cost" where
  "charge_unmap b objects pages cost = cost\<lparr>
     evicted_objects := evicted_objects cost + objects,
     evicted_bytes := evicted_bytes cost + pages * page_size b,
     unmapped_pages := unmapped_pages cost + pages,
     unmap_calls := unmap_calls cost + pages,
     unmap_ms := unmap_ms cost
       + of_int pages * (unmap_fixed_ms (mb_args b) + unmap_per_page_ms (mb_args b)) \<rparr>"

lemma cost_ok_charge:
  "args_ok (mb_args b) \<Longrightarrow> 0 \<le> pages \<Longrightarrow> cost_ok cost \<Longrightarrow> cost_ok (charge_unmap b n pages cost)"
  by (simp add: cost_ok_def charge_unmap_def args_ok_def)

section \<open>Sums over the resident models\<close>

lemma cut_freed_residents:
  assumes "distinct (map fst residents)"
  shows "(\<Sum>(m, r) \<leftarrow> residents. bytes_of m r - bytes_of m (if m = active then r else c m))
     = cut_freed bytes_of residents active c"
proof -
  let ?f = "\<lambda>m. bytes_of m (resident_of residents m) - bytes_of m (c m)"
  have "(\<Sum>(m, r) \<leftarrow> residents. bytes_of m r - bytes_of m (if m = active then r else c m))
      = (\<Sum>m \<leftarrow> map fst residents. if m \<noteq> active then ?f m else 0)"
    unfolding map_map
  proof (rule arg_cong [of _ _ sum_list], rule map_cong [OF refl], clarsimp)
    fix m r assume "(m, r) \<in> set residents" "m \<noteq> active"
    then show "bytes_of m r = bytes_of m (resident_of residents m)"
      using assms by (simp add: resident_of_def)
  qed
  also have "\<dots> = (\<Sum>m \<leftarrow> filter (\<lambda>m. m \<noteq> active) (map fst residents). ?f m)"
    by (rule sum_list_map_filter' [symmetric])
  also have "\<dots> = (\<Sum>m \<leftarrow> filter (\<lambda>m. m \<noteq> active) (sort (map fst residents)). ?f m)"
    by (metis (no_types, lifting) mset_filter mset_map mset_sort sum_mset_sum_list)
  finally show ?thesis by (simp add: cut_freed_def inactive_models_def)
qed

text \<open>Group ids that extend a resident prefix of \<open>p\<close> groups one group at a time.\<close>

fun in_order :: "nat \<Rightarrow> nat list \<Rightarrow> bool" where
  "in_order p [] = True"
| "in_order p (g # gs) \<longleftrightarrow> g \<le> p \<and> in_order (max p (Suc g)) gs"

lemma in_order_mono: "in_order p gs \<Longrightarrow> p \<le> q \<Longrightarrow> in_order q gs"
proof (induction gs arbitrary: p q)
  case (Cons g gs)
  have "in_order (max q (Suc g)) gs" by (rule Cons.IH [of "max p (Suc g)"]) (use Cons.prems in auto)
  then show ?case using Cons.prems by simp
qed simp

section \<open>The contract of a page layout\<close>

definition group_total :: "'x mem_base_scheme \<Rightarrow> int \<Rightarrow> nat" where
  "group_total b m = (case map_of (mb_models b) m of None \<Rightarrow> 0 | Some model \<Rightarrow> length (groups model))"

text \<open>A stall table the planner may use for the configured models.\<close>

definition table_covers :: "stall_table \<Rightarrow> 'x mem_base_scheme \<Rightarrow> bool" where
  "table_covers t b \<longleftrightarrow> table_ok t \<and> (\<forall>m \<in> fst ` set (mb_models b).
     \<exists>sm. map_of (st_models t) m = Some sm \<and> int (group_total b m) \<le> sm_group_count sm)"

text \<open>
  \<open>content b m\<close> is what is resident of model \<open>m\<close> and \<open>bytes_of b m p\<close> the bytes of its first \<open>p\<close> groups. Committing a shorter prefix of one model
  keeps every other model, the base state and the sizes, releases exactly the difference of
  the prefix sizes and charges it to the cost.
\<close>

locale page_prefix =
  fixes inv :: "'x mem_base_scheme \<Rightarrow> bool"
    and prefix_count :: "'x mem_base_scheme \<Rightarrow> int \<Rightarrow> nat result"
    and prefix_bytes :: "'x mem_base_scheme \<Rightarrow> int \<Rightarrow> nat \<Rightarrow> int result"
    and commit :: "int \<Rightarrow> nat \<Rightarrow> nat \<Rightarrow> 'x mem_base_scheme \<times> load_cost \<Rightarrow> ('x mem_base_scheme \<times> load_cost) result"
    and content :: "'x mem_base_scheme \<Rightarrow> int \<Rightarrow> nat set"
    and bytes_of :: "'x mem_base_scheme \<Rightarrow> int \<Rightarrow> nat \<Rightarrow> int"
    and used :: "'x mem_base_scheme \<Rightarrow> int"
  assumes models_distinct: "inv b \<Longrightarrow> distinct (map fst (mb_models b))"
    and count_total: "inv b \<Longrightarrow> m \<in> fst ` set (mb_models b) \<Longrightarrow>
      \<exists>p \<le> group_total b m. prefix_count b m = Inr p"
    and bytes_total: "inv b \<Longrightarrow> m \<in> fst ` set (mb_models b) \<Longrightarrow> p \<le> group_total b m \<Longrightarrow>
      prefix_bytes b m p = Inr (bytes_of b m p)"
    and bytes_mono: "inv b \<Longrightarrow> m \<in> fst ` set (mb_models b) \<Longrightarrow> q \<le> group_total b m \<Longrightarrow> p \<le> q \<Longrightarrow>
      bytes_of b m p \<le> bytes_of b m q"
    and bytes_zero: "inv b \<Longrightarrow> m \<in> fst ` set (mb_models b) \<Longrightarrow> bytes_of b m 0 = 0"
    and commit_ok: "inv b \<Longrightarrow> m \<in> fst ` set (mb_models b) \<Longrightarrow> prefix_count b m = Inr old \<Longrightarrow> new < old \<Longrightarrow>
      \<exists>b' cost'. commit m old new (b, cost) = Inr (b', cost') \<and> inv b'
        \<and> mem_base.truncate b' = mem_base.truncate b \<and> bytes_of b' = bytes_of b
        \<and> prefix_count b' m = Inr new
        \<and> (\<forall>m'. m' \<noteq> m \<longrightarrow> prefix_count b' m' = prefix_count b m' \<and> content b' m' = content b m')
        \<and> content b' m \<subseteq> content b m
        \<and> evicted_bytes cost' = evicted_bytes cost + (bytes_of b m old - bytes_of b m new)
        \<and> used b' = used b - (bytes_of b m old - bytes_of b m new)
        \<and> (cost_ok cost \<longrightarrow> cost_ok cost')"
    and plan_neutral: "inv (b\<lparr> last_mckp_plan := x \<rparr>) = inv b"
      "prefix_count (b\<lparr> last_mckp_plan := x \<rparr>) = prefix_count b"
      "content (b\<lparr> last_mckp_plan := x \<rparr>) = content b" "used (b\<lparr> last_mckp_plan := x \<rparr>) = used b"
begin

lemma truncate_models: "mem_base.truncate b' = mem_base.truncate b \<Longrightarrow> mb_models b' = mb_models b"
  by (simp add: mem_base.truncate_def)

text \<open>What is left after the commit loop has worked through the models \<open>xs\<close>.\<close>

definition committed ::
  "'x mem_base_scheme \<Rightarrow> load_cost \<Rightarrow> (int \<Rightarrow> nat) \<Rightarrow> (int \<times> nat) list \<Rightarrow> 'x mem_base_scheme \<Rightarrow> load_cost \<Rightarrow> bool" where
  "committed b cost new xs b' cost' \<longleftrightarrow>
     inv b' \<and> mem_base.truncate b' = mem_base.truncate b \<and> bytes_of b' = bytes_of b
     \<and> (\<forall>m. prefix_count b' m = (if m \<in> fst ` set xs then Inr (new m) else prefix_count b m))
     \<and> (\<forall>m. content b' m \<subseteq> content b m)
     \<and> (\<forall>m. m \<notin> fst ` set xs \<or> prefix_count b m = Inr (new m) \<longrightarrow> content b' m = content b m)
     \<and> evicted_bytes cost' = evicted_bytes cost + (\<Sum>(m, r) \<leftarrow> xs. bytes_of b m r - bytes_of b m (new m))
     \<and> used b' = used b - (\<Sum>(m, r) \<leftarrow> xs. bytes_of b m r - bytes_of b m (new m))
     \<and> (cost_ok cost \<longrightarrow> cost_ok cost')"

lemma commit_fold:
  assumes "inv b" and "distinct (map fst xs)" and "fst ` set xs \<subseteq> fst ` set (mb_models b)"
    and "\<And>m r. (m, r) \<in> set xs \<Longrightarrow> prefix_count b m = Inr r \<and> map_of chosen m = Some (new m) \<and> new m \<le> r"
  shows "\<exists>b' cost' ev'. r_foldl (commit_step commit chosen) (b, cost, ev) xs = Inr (b', cost', ev')
     \<and> committed b cost new xs b' cost'"
  using assms
proof (induction xs arbitrary: b cost ev)
  case Nil
  then show ?case by (simp add: committed_def)
next
  case (Cons x xs)
  obtain m r where x: "x = (m, r)" by fastforce
  have m: "prefix_count b m = Inr r" "map_of chosen m = Some (new m)" "new m \<le> r"
      "m \<in> fst ` set (mb_models b)" "m \<notin> fst ` set xs"
    using Cons.prems(2-4) x by (auto simp: image_iff)
  show ?case
  proof (cases "new m < r")
    case True
    obtain b1 cost1 where c: "commit m r (new m) (b, cost) = Inr (b1, cost1)" "inv b1"
        "mem_base.truncate b1 = mem_base.truncate b" "bytes_of b1 = bytes_of b"
        "prefix_count b1 m = Inr (new m)"
        "\<forall>m'. m' \<noteq> m \<longrightarrow> prefix_count b1 m' = prefix_count b m' \<and> content b1 m' = content b m'"
        "content b1 m \<subseteq> content b m"
        "evicted_bytes cost1 = evicted_bytes cost + (bytes_of b m r - bytes_of b m (new m))"
        "used b1 = used b - (bytes_of b m r - bytes_of b m (new m))" "cost_ok cost \<longrightarrow> cost_ok cost1"
      using commit_ok [OF Cons.prems(1) m(4,1) True, of cost] by blast
    have keep: "prefix_count b1 m' = Inr r' \<and> map_of chosen m' = Some (new m') \<and> new m' \<le> r'"
      if "(m', r') \<in> set xs" for m' r'
      using Cons.prems(4) [of m' r'] c(6) that m(5) by (auto simp: image_iff)
    have "\<exists>b' cost' ev'. r_foldl (commit_step commit chosen) (b1, cost1, List.insert m ev) xs = Inr (b', cost', ev')
        \<and> committed b1 cost1 new xs b' cost'"
      by (rule Cons.IH [OF c(2)]) (use Cons.prems(2,3) keep truncate_models [OF c(3)] in auto)
    then obtain b' cost' ev' where
      run: "r_foldl (commit_step commit chosen) (b1, cost1, List.insert m ev) xs = Inr (b', cost', ev')"
      and com: "committed b1 cost1 new xs b' cost'" by blast
    have "committed b cost new (x # xs) b' cost'"
    proof -
      have "content b' m' \<subseteq> content b m'" for m'
        using com c(6,7) unfolding committed_def by (cases "m' = m") blast+
      moreover have "content b' m' = content b m'"
        if "m' \<notin> fst ` set (x # xs) \<or> prefix_count b m' = Inr (new m')" for m'
        using com c(6) m(1) that True x unfolding committed_def by (cases "m' = m") auto
      ultimately show ?thesis
        using com c m(1,5) x unfolding committed_def by auto
    qed
    with run m c(1) True x show ?thesis by (auto simp: commit_step_def)
  next
    case False
    then have eq: "new m = r" using m(3) by simp
    have "\<exists>b' cost' ev'. r_foldl (commit_step commit chosen) (b, cost, ev) xs = Inr (b', cost', ev')
        \<and> committed b cost new xs b' cost'"
      by (rule Cons.IH [OF Cons.prems(1)]) (use Cons.prems(2-4) in auto)
    then obtain b' cost' ev' where
      "r_foldl (commit_step commit chosen) (b, cost, ev) xs = Inr (b', cost', ev')"
      "committed b cost new xs b' cost'" by blast
    with eq m x show ?thesis by (auto simp: commit_step_def committed_def)
  qed
qed

definition inactive_bytes :: "'x mem_base_scheme \<Rightarrow> int \<Rightarrow> int" where
  "inactive_bytes b active =
     (\<Sum>m \<leftarrow> filter (\<lambda>m. m \<noteq> active) (map fst (mb_models b)). bytes_of b m (projr (prefix_count b m)))"

lemma resident_prefixes_run:
  assumes "inv b"
  shows "\<exists>before. resident_prefixes prefix_count b = Inr before \<and> map fst before = map fst (mb_models b)
     \<and> (\<forall>(m, r) \<in> set before. prefix_count b m = Inr r \<and> r \<le> group_total b m)"
proof -
  let ?p = "\<lambda>m. projr (prefix_count b m)"
  have p: "prefix_count b m = Inr (?p m) \<and> ?p m \<le> group_total b m" if "m \<in> fst ` set (mb_models b)" for m
    using count_total [OF assms that] by auto
  have "resident_prefixes prefix_count b = Inr (map (\<lambda>(m, _). (m, ?p m)) (mb_models b))"
    unfolding resident_prefixes_def
  proof (rule r_map_total)
    fix x assume "x \<in> set (mb_models b)"
    then obtain k where "prefix_count b (fst x) = Inr k" using count_total [OF assms] by blast
    then show "(case x of (m, _) \<Rightarrow> r_bind (prefix_count b m) (\<lambda>p. Inr (m, p)))
        = Inr (case x of (m, _) \<Rightarrow> (m, ?p m))" by (simp add: split_def)
  qed
  moreover have "map fst (map (\<lambda>(m, _). (m, ?p m)) (mb_models b)) = map fst (mb_models b)"
    by (simp add: o_def split_def)
  ultimately show ?thesis using p by (intro exI conjI) (assumption | force)+
qed

lemma residents_mem:
  assumes "map fst before = map fst (mb_models b)"
    and "\<forall>(m, r) \<in> set before. prefix_count b m = Inr r \<and> r \<le> group_total b m" and "(m, r) \<in> set before"
  shows "m \<in> fst ` set (mb_models b) \<and> prefix_count b m = Inr r \<and> r \<le> group_total b m"
proof -
  have "m \<in> set (map fst before)" using assms(3) by force
  then show ?thesis using assms by auto
qed

lemma residents_ready:
  assumes "inv b" and "table_covers t b" and "map fst before = map fst (mb_models b)"
    and "\<forall>(m, r) \<in> set before. prefix_count b m = Inr r \<and> r \<le> group_total b m"
  shows "mckp_ready t (prefix_bytes b) (bytes_of b) before"
proof -
  have mem: "m \<in> fst ` set (mb_models b) \<and> r \<le> group_total b m" if "(m, r) \<in> set before" for m r
    using residents_mem [OF assms(3,4) that] by blast
  have 1: "\<exists>sm. map_of (st_models t) m = Some sm \<and> int r \<le> sm_group_count sm" if "(m, r) \<in> set before" for m r
    using assms(2) mem [OF that] unfolding table_covers_def by (meson of_nat_mono order_trans)
  have 2: "prefix_bytes b m p = Inr (bytes_of b m p)" if "(m, r) \<in> set before" "p \<le> r" for m r p
    using mem [OF that(1)] that(2) bytes_total [OF assms(1)] by simp
  have 3: "bytes_of b m p \<le> bytes_of b m q" if "(m, r) \<in> set before" "q \<le> r" "p \<le> q" for m r p q
    using mem [OF that(1)] that(2,3) bytes_mono [OF assms(1)] by simp
  have "table_ok t" "distinct (map fst before)"
    using assms(2) models_distinct [OF assms(1)] by (simp_all add: table_covers_def assms(3))
  then show ?thesis
    unfolding mckp_ready_def by (intro conjI ballI) (assumption | (clarify, intro conjI allI impI; simp add: 1 2 3))+
qed

text \<open>The largest cut drops everything that is inactive.\<close>

lemma cut_freed_bounds:
  assumes "inv b" and "map fst before = map fst (mb_models b)"
    and "\<forall>(m, r) \<in> set before. prefix_count b m = Inr r \<and> r \<le> group_total b m"
  shows "cut_freed (bytes_of b) before active (\<lambda>_. 0) = inactive_bytes b active"
    and "valid_cut before active c \<Longrightarrow> cut_freed (bytes_of b) before active c \<le> inactive_bytes b active"
proof -
  have dist: "distinct (map fst before)" using assms(1,2) models_distinct by simp
  have count: "resident_of before m = projr (prefix_count b m) \<and> m \<in> fst ` set (mb_models b)
      \<and> projr (prefix_count b m) \<le> group_total b m"
    if mem: "m \<in> set (inactive_models before active)" for m
  proof -
    have "m \<in> fst ` set before" using mem by (auto simp: inactive_models_def)
    then obtain r where r: "(m, r) \<in> set before" by auto
    then have "map_of before m = Some r" using dist by simp
    with residents_mem [OF assms(2,3) r] show ?thesis by (simp add: resident_of_def)
  qed
  have sums: "(\<Sum>m \<leftarrow> inactive_models before active. bytes_of b m (projr (prefix_count b m))) = inactive_bytes b active"
    unfolding inactive_bytes_def inactive_models_def assms(2)
    by (metis (no_types, lifting) mset_filter mset_map mset_sort sum_mset_sum_list)
  show "cut_freed (bytes_of b) before active (\<lambda>_. 0) = inactive_bytes b active"
    unfolding cut_freed_def sums [symmetric]
    by (rule arg_cong [of _ _ sum_list], rule map_cong [OF refl])
       (use count bytes_zero [OF assms(1)] in auto)
  assume cut: "valid_cut before active c"
  have nonneg: "0 \<le> bytes_of b m (c m)" if "m \<in> set (inactive_models before active)" for m
  proof -
    have "c m \<le> resident_of before m" using cut that by (auto simp: valid_cut_def)
    then show ?thesis
      using count [OF that] bytes_mono [OF assms(1), of m "c m" 0] bytes_zero [OF assms(1), of m] by auto
  qed
  show "cut_freed (bytes_of b) before active c \<le> inactive_bytes b active"
    unfolding cut_freed_def sums [symmetric]
    by (rule sum_list_mono) (use nonneg count in force)
qed

text \<open>What a successful reclamation of \<open>required\<close> bytes leaves behind.\<close>

definition reclaimed :: "'x mem_base_scheme \<Rightarrow> int \<Rightarrow> int \<Rightarrow> 'x mem_base_scheme \<Rightarrow> load_cost \<Rightarrow> bool" where
  "reclaimed b active required b' cost \<longleftrightarrow>
     inv b' \<and> (\<exists>plan. mem_base.truncate b' = (mem_base.truncate b)\<lparr> last_mckp_plan := plan \<rparr>)
     \<and> (\<forall>m. content b' m \<subseteq> content b m) \<and> content b' active = content b active
     \<and> used b' = used b - evicted_bytes cost \<and> max 0 required \<le> evicted_bytes cost \<and> cost_ok cost"

lemma committed_prefixes:
  assumes "committed b cost new before b' cost'" and "inv b" and "map fst before = map fst (mb_models b)"
    and "map fst chosen = map fst before"
    and "\<And>m. m \<in> fst ` set before \<Longrightarrow> map_of chosen m = Some (new m)"
  shows "\<exists>after. resident_prefixes prefix_count b' = Inr after \<and> set after = set chosen"
proof -
  have b': "inv b'" "mb_models b' = mb_models b"
    and count: "\<And>m. prefix_count b' m = (if m \<in> fst ` set before then Inr (new m) else prefix_count b m)"
    using assms(1) truncate_models by (auto simp: committed_def)
  obtain after where after: "resident_prefixes prefix_count b' = Inr after" "map fst after = map fst before"
      "\<forall>(m, r) \<in> set after. prefix_count b' m = Inr r \<and> r \<le> group_total b' m"
    using resident_prefixes_run [OF b'(1)] unfolding b'(2) assms(3) [symmetric] by blast
  have keys: "fst ` set after = fst ` set before" "fst ` set chosen = fst ` set before"
    using after(2) assms(4) by (metis list.set_map)+
  have dist: "distinct (map fst after)" "distinct (map fst chosen)"
    using after(2) assms(2,3,4) models_distinct by auto
  have val: "map_of after m = (if m \<in> fst ` set before then Some (new m) else None)" for m
  proof (cases "m \<in> fst ` set before")
    case True
    then obtain r where r: "(m, r) \<in> set after" using keys(1) by (metis imageE prod.collapse)
    then have "r = new m" using after(3) count [of m] True by auto
    then show ?thesis using True dist(1) r by simp
  next
    case False
    then show ?thesis using keys(1) by (auto simp: map_of_eq_None_iff)
  qed
  have "map_of after = map_of chosen"
  proof
    fix m
    have "map_of chosen m = None" if "m \<notin> fst ` set before" using that keys(2) by (simp add: map_of_eq_None_iff)
    then show "map_of after m = map_of chosen m" using val [of m] assms(5) [of m] by simp
  qed
  with dist after(1) show ?thesis by (metis map_of_inject_set)
qed

lemma mckp_reclaim_ok:
  assumes inv: "inv b" and table: "prefix_stall_table b = Some t" "table_covers t b"
    and enough: "required \<le> inactive_bytes b active"
  shows "\<exists>b' cost. mckp_reclaim prefix_count prefix_bytes commit active required b = Inr (b', cost)
     \<and> reclaimed b active required b' cost"
proof (cases "0 < required")
  case False
  then show ?thesis using inv by (auto simp: mckp_reclaim_def reclaimed_def mem_base.truncate_def)
next
  case pos: True
  obtain before where before: "resident_prefixes prefix_count b = Inr before"
      "map fst before = map fst (mb_models b)"
      "\<forall>(m, r) \<in> set before. prefix_count b m = Inr r \<and> r \<le> group_total b m"
    using resident_prefixes_run [OF inv] by blast
  have dist: "distinct (map fst before)" using before(2) models_distinct [OF inv] by simp
  note ready = residents_ready [OF inv table(2) before(2,3)]
  note freed = cut_freed_bounds [OF inv before(2,3)]
  show ?thesis
  proof (cases rule: solve_covering_mckp_cases [OF ready pos, of active "mckp_prediction_samples b"])
    case (1 plan)
    have "valid_cut before active (\<lambda>_. 0)" by (simp add: valid_cut_def)
    from 1(4) [OF this] freed(1) [of active] enough show ?thesis by simp
  next
    case (2 plan c)
    note plan = 2(4) [unfolded plan_is_cut_def]
    define new where "new = (\<lambda>m. if m = active then resident_of before m else c m)"
    have chosen: "map_of (choices plan) m = Some (new m)" if mem: "m \<in> fst ` set before" for m
    proof -
      obtain r where "map_of before m = Some r" using map_of_mem [OF mem] by blast
      with plan mem show ?thesis
        by (auto simp: new_def inactive_models_def resident_of_def)
    qed
    have entry: "prefix_count b m = Inr r \<and> map_of (choices plan) m = Some (new m) \<and> new m \<le> r"
      if "(m, r) \<in> set before" for m r
    proof -
      have "m \<in> fst ` set before" "map_of before m = Some r" using that dist by force+
      moreover have "new m \<le> r"
        using plan calculation by (auto simp: new_def valid_cut_def inactive_models_def resident_of_def)
      ultimately show ?thesis using chosen before(3) that by auto
    qed
    have "fst ` set before \<subseteq> fst ` set (mb_models b)" using before(2) by (metis list.set_map order_refl)
    from commit_fold [OF inv dist this entry, of no_cost "[]"] obtain b' cost ev where
      run: "r_foldl (commit_step commit (choices plan)) (b, no_cost, []) before = Inr (b', cost, ev)"
      and com: "committed b no_cost new before b' cost" by blast
    have sum: "(\<Sum>(m, r) \<leftarrow> before. bytes_of b m r - bytes_of b m (new m)) = planned_free_bytes plan"
    proof -
      have "(\<Sum>(m, r) \<leftarrow> before. bytes_of b m r - bytes_of b m (new m))
          = (\<Sum>(m, r) \<leftarrow> before. bytes_of b m r - bytes_of b m (if m = active then r else c m))"
        using dist by (intro arg_cong [of _ _ sum_list] map_cong) (auto simp: new_def resident_of_def)
      then show ?thesis using cut_freed_residents [OF dist, of "bytes_of b" active c] plan by simp
    qed
    obtain after where after: "resident_prefixes prefix_count b' = Inr after" "set after = set (choices plan)"
      using committed_prefixes [OF com inv before(2), of "choices plan"] plan chosen by auto
    have "\<exists>ls. r_map (\<lambda>(m, p). r_bind (dict_get before m) (\<lambda>q. Inr (int q - int p))) (choices plan) = Inr ls"
    proof (rule r_map_exists, clarify)
      fix m p assume "(m, p) \<in> set (choices plan)"
      then have "m \<in> set (map fst (choices plan))" by force
      then have "m \<in> fst ` set before" using plan by simp
      from map_of_mem [OF this] obtain q where "map_of before m = Some q" by blast
      then show "\<exists>y. r_bind (dict_get before m) (\<lambda>q. Inr (int q - int p)) = Inr y" by simp
    qed
    then obtain ls where ls: "r_map (\<lambda>(m, p). r_bind (dict_get before m) (\<lambda>q. Inr (int q - int p))) (choices plan) = Inr ls"
      by blast
    have active: "content b' active = content b active"
    proof (cases "active \<in> fst ` set before")
      case True
      then obtain r where "(active, r) \<in> set before" by auto
      then have "prefix_count b active = Inr (new active)"
        using before(3) dist by (auto simp: new_def resident_of_def)
      then show ?thesis using com by (simp add: committed_def)
    qed (use com in \<open>simp add: committed_def\<close>)
    show ?thesis
      using before(1) 2 run after ls com sum pos table(1) active
      by (simp add: mckp_reclaim_def reclaimed_def committed_def plan_neutral mem_base.truncate_def cost_ok_def)
  qed
qed

text \<open>Conversely, nothing is reclaimed when even evicting every inactive prefix is not enough.\<close>

lemma mckp_reclaim_fails:
  assumes inv: "inv b" and table: "prefix_stall_table b = Some t" "table_covers t b"
    and short: "inactive_bytes b active < required" and pos: "0 < required"
  shows "\<exists>e. mckp_reclaim prefix_count prefix_bytes commit active required b = Inl (RuntimeError e)"
proof -
  obtain before where before: "resident_prefixes prefix_count b = Inr before"
      "map fst before = map fst (mb_models b)"
      "\<forall>(m, r) \<in> set before. prefix_count b m = Inr r \<and> r \<le> group_total b m"
    using resident_prefixes_run [OF inv] by blast
  note ready = residents_ready [OF inv table(2) before(2,3)]
  show ?thesis
  proof (cases rule: solve_covering_mckp_cases [OF ready pos, of active "mckp_prediction_samples b"])
    case (1 plan)
    then show ?thesis using before(1) table(1) pos by (simp add: mckp_reclaim_def)
  next
    case (2 plan c)
    then have "cut_freed (bytes_of b) before active c \<le> inactive_bytes b active"
      using cut_freed_bounds(2) [OF inv before(2,3)] by (simp add: plan_is_cut_def)
    with 2 short show ?thesis by (simp add: plan_is_cut_def)
  qed
qed

end

end
