(* ===== verification/Tensor_Groups.thy ===== *)
theory Tensor_Groups
  imports Memory_Common
begin

text \<open>
  How the simulator builds its models (\<open>layerweave_tensor_pipeline_sim.py\<close>): tensors are read
  from a layout document and merged greedily into transfer groups, or one synthetic tensor per
  group is built from a prefix stall table; a configured permutation maps the model ids of the
  trace to physical ones. The JSON documents are already parsed here.
\<close>

section \<open>Grouping tensors\<close>

record group_state =
  gs_groups :: "tensor_group list"
  gs_current :: "int list"
  gs_bytes :: int
  gs_offset :: int

definition group_step :: "int \<Rightarrow> group_state \<Rightarrow> tensor_spec \<Rightarrow> group_state" where
  "group_step minimum_bytes s tensor =
     (let offset = (if gs_current s = [] then ts_offset tensor else gs_offset s);
          current = gs_current s @ [tensor_id tensor];
          current_bytes = gs_bytes s + ts_bytes tensor in
      if minimum_bytes \<le> 0 \<or> minimum_bytes \<le> current_bytes
      then \<lparr> gs_groups = gs_groups s @ [\<lparr> group_id = length (gs_groups s), tensor_ids = current,
                                          tg_bytes = current_bytes, tg_offset = offset \<rparr>],
             gs_current = [], gs_bytes = 0, gs_offset = offset \<rparr>
      else s\<lparr> gs_current := current, gs_bytes := current_bytes, gs_offset := offset \<rparr>)"

definition close_groups :: "int \<Rightarrow> group_state \<Rightarrow> tensor_group list" where
  "close_groups minimum_bytes s =
     (if gs_current s = [] then gs_groups s
      else if gs_groups s \<noteq> [] \<and> 0 < minimum_bytes
      then let previous = last (gs_groups s) in
        butlast (gs_groups s) @ [\<lparr> group_id = group_id previous,
           tensor_ids = tensor_ids previous @ gs_current s,
           tg_bytes = tg_bytes previous + gs_bytes s, tg_offset = tg_offset previous \<rparr>]
      else gs_groups s @ [\<lparr> group_id = length (gs_groups s), tensor_ids = gs_current s,
                            tg_bytes = gs_bytes s, tg_offset = gs_offset s \<rparr>])"

definition set_tensor_groups :: "tensor_model \<Rightarrow> int \<Rightarrow> tensor_model" where
  "set_tensor_groups model minimum_bytes =
     (let gs = close_groups minimum_bytes
                 (foldl (group_step minimum_bytes)
                    \<lparr> gs_groups = [], gs_current = [], gs_bytes = 0, gs_offset = 0 \<rparr> (tensors model)) in
      model\<lparr> groups := gs,
             tensor_to_group := dict_of [(t, group_id g). g \<leftarrow> gs, t \<leftarrow> tensor_ids g] \<rparr>)"

definition models_with_group_size :: "(int \<times> tensor_model) list \<Rightarrow> int \<Rightarrow> (int \<times> tensor_model) list" where
  "models_with_group_size models minimum_bytes = map (\<lambda>(i, m). (i, set_tensor_groups m minimum_bytes)) models"

section \<open>Loading models\<close>

definition load_tensor_models ::
  "(int \<times> tensor_spec list) list \<Rightarrow> (int \<times> int) list \<Rightarrow> (int \<times> tensor_model) list result" where
  "load_tensor_models document limits =
     r_foldl (\<lambda>models (model_id, ts).
       r_bind (dict_get limits model_id) (\<lambda>limit.
         let model = \<lparr> tm_model_id = model_id, tensors = ts, tm_bytes = sum_list (map ts_bytes ts),
                       max_input_tokens = limit, groups = [], tensor_to_group = [] \<rparr> in
         Inr (AList.update model_id (set_tensor_groups model 0) models))) [] document"

definition runtime_tensor :: "nat \<Rightarrow> int \<times> int \<Rightarrow> tensor_spec" where
  \<comment> \<open>the name \<open>f"runtime_group_{group_id}"\<close>, without the number, which nothing reads back\<close>
  "runtime_tensor i = (\<lambda>(left, right). \<lparr> tensor_id = int i, ts_name = ''runtime_group_'',
     layer_id = Some (int i), ts_bytes = right - left, ts_offset = left \<rparr>)"

definition runtime_group :: "nat \<Rightarrow> int \<times> int \<Rightarrow> tensor_group" where
  "runtime_group i = (\<lambda>(left, right). \<lparr> group_id = i, tensor_ids = [int i],
     tg_bytes = right - left, tg_offset = left \<rparr>)"

definition runtime_model :: "int \<Rightarrow> int list \<Rightarrow> int \<Rightarrow> tensor_model" where
  "runtime_model model_id pb limit =
     (let spans = zip pb (tl pb) in
      \<lparr> tm_model_id = model_id, tensors = map2 runtime_tensor [0..<length spans] spans,
        tm_bytes = last pb, max_input_tokens = limit,
        groups = map2 runtime_group [0..<length spans] spans,
        tensor_to_group = map (\<lambda>i. (int i, i)) [0..<length spans] \<rparr>)"

definition models_from_prefix_stall_table ::
  "stall_table \<Rightarrow> (int \<times> int) list \<Rightarrow> (int \<times> tensor_model) list result" where
  "models_from_prefix_stall_table table limits =
     r_map (\<lambda>(model_id, item).
       if sm_prefix_bytes item = [] then Inl (IndexError ''list index out of range'')
       else r_bind (dict_get limits model_id) (\<lambda>limit.
         Inr (model_id, runtime_model model_id (sm_prefix_bytes item) limit)))
     (st_models table)"

section \<open>Mapping the models of a trace\<close>

record request =
  request_id :: int
  rq_model_id :: int
  rq_input_tokens :: int
  rq_output_tokens :: int
  trace_output_tokens :: int

datatype mapping_order = NoOrder | NotAList | Order "int list"

definition load_model_mapping :: "mapping_order \<Rightarrow> int list \<Rightarrow> (int \<times> int) list result" where
  "load_model_mapping order model_ids =
     (case order of
        NoOrder \<Rightarrow> Inr (map (\<lambda>m. (m, m)) (remdups model_ids))
      | NotAList \<Rightarrow> Inl (ValueError ''model_mapping_order must be a list'')
      | Order ids \<Rightarrow>
          let mapping = zip (map int [0..<length ids]) ids in
          if fst ` set mapping \<noteq> set model_ids \<or> snd ` set mapping \<noteq> set model_ids
          then Inl (ValueError ''model_mapping_order must be a permutation of all model ids'')
          else Inr mapping)"

definition remap_requests :: "request list \<Rightarrow> (int \<times> int) list \<Rightarrow> request list result" where
  "remap_requests requests model_mapping =
     r_map (\<lambda>r. r_bind (dict_get model_mapping (rq_model_id r)) (\<lambda>m. Inr (r\<lparr> rq_model_id := m \<rparr>))) requests"

section \<open>Grouping is a partition\<close>

text \<open>The group of a run of tensors, and the groups of a list of runs.\<close>

definition chunk_group :: "nat \<Rightarrow> tensor_spec list \<Rightarrow> tensor_group" where
  "chunk_group i ts = \<lparr> group_id = i, tensor_ids = map tensor_id ts,
     tg_bytes = sum_list (map ts_bytes ts), tg_offset = ts_offset (hd ts) \<rparr>"

definition chunk_groups :: "tensor_spec list list \<Rightarrow> tensor_group list" where
  "chunk_groups cs = map2 chunk_group [0..<length cs] cs"

lemma chunk_groups_snoc: "chunk_groups (cs @ [c]) = chunk_groups cs @ [chunk_group (length cs) c]"
  by (simp add: chunk_groups_def)

lemma length_chunk_groups [simp]: "length (chunk_groups cs) = length cs"
  by (simp add: chunk_groups_def)

lemma nth_chunk_groups: "i < length cs \<Longrightarrow> chunk_groups cs ! i = chunk_group i (cs ! i)"
  by (simp add: chunk_groups_def)

text \<open>A finished run reaches the minimum; without a minimum it is a single tensor.\<close>

definition chunk_full :: "int \<Rightarrow> tensor_spec list \<Rightarrow> bool" where
  "chunk_full minimum c \<longleftrightarrow> c \<noteq> [] \<and> (0 < minimum \<longrightarrow> minimum \<le> sum_list (map ts_bytes c))
     \<and> (minimum \<le> 0 \<longrightarrow> length c = 1)"

definition grouping_state :: "int \<Rightarrow> tensor_spec list list \<Rightarrow> tensor_spec list \<Rightarrow> group_state \<Rightarrow> bool" where
  "grouping_state minimum cs rest s \<longleftrightarrow>
     gs_groups s = chunk_groups cs \<and> gs_current s = map tensor_id rest
     \<and> gs_bytes s = sum_list (map ts_bytes rest) \<and> (rest \<noteq> [] \<longrightarrow> gs_offset s = ts_offset (hd rest))
     \<and> (\<forall>c \<in> set cs. chunk_full minimum c) \<and> (minimum \<le> 0 \<longrightarrow> rest = [])"

lemma group_step_state:
  assumes "grouping_state minimum cs rest s"
  shows "\<exists>cs' rest'. grouping_state minimum cs' rest' (group_step minimum s t)
           \<and> concat cs' @ rest' = concat cs @ rest @ [t]"
proof (cases "minimum \<le> 0 \<or> minimum \<le> gs_bytes s + ts_bytes t")
  case True
  have "grouping_state minimum (cs @ [rest @ [t]]) [] (group_step minimum s t)"
    using assms True
    by (cases rest)
       (auto simp: Let_def grouping_state_def group_step_def chunk_groups_snoc chunk_group_def chunk_full_def add.assoc)
  then show ?thesis by (intro exI [of _ "cs @ [rest @ [t]]"] exI [of _ "[]"]) simp
next
  case False
  have "grouping_state minimum cs (rest @ [t]) (group_step minimum s t)"
    using assms False by (auto simp: grouping_state_def group_step_def Let_def hd_append)
  then show ?thesis by (intro exI [of _ cs] exI [of _ "rest @ [t]"]) simp
qed

lemma group_fold_state:
  "grouping_state minimum cs rest s \<Longrightarrow>
   \<exists>cs' rest'. grouping_state minimum cs' rest' (foldl (group_step minimum) s ts)
     \<and> concat cs' @ rest' = concat cs @ rest @ ts"
proof (induction ts arbitrary: cs rest s)
  case (Cons t ts)
  from group_step_state [OF Cons.prems] obtain cs1 rest1
    where "grouping_state minimum cs1 rest1 (group_step minimum s t)"
      and "concat cs1 @ rest1 = concat cs @ rest @ [t]" by blast
  with Cons.IH [OF this(1)] show ?case by (metis append.assoc append_Cons append_Nil foldl_Cons)
qed auto

lemma close_groups_chunks:
  assumes "grouping_state minimum cs rest s" and "\<forall>t \<in> set rest. 0 \<le> ts_bytes t"
  shows "\<exists>cs'. close_groups minimum s = chunk_groups cs' \<and> concat cs' = concat cs @ rest
     \<and> [] \<notin> set cs' \<and> (1 < length cs' \<or> minimum \<le> 0 \<longrightarrow> (\<forall>c \<in> set cs'. chunk_full minimum c))"
proof (cases "rest = []")
  case True
  then show ?thesis
    using assms(1) by (intro exI [of _ cs]) (auto simp: grouping_state_def close_groups_def chunk_full_def)
next
  case rest: False
  then have pos: "0 < minimum" using assms(1) by (auto simp: grouping_state_def not_le [symmetric])
  show ?thesis
  proof (cases cs rule: rev_cases)
    case Nil
    then show ?thesis
      using assms(1) rest pos
      by (intro exI [of _ "[rest]"])
         (auto simp: grouping_state_def close_groups_def chunk_groups_def chunk_group_def)
  next
    case (snoc ds d)
    have nonneg: "0 \<le> sum_list (map ts_bytes rest)" using assms(2) by (intro sum_list_nonneg) auto
    have "close_groups minimum s = chunk_groups (ds @ [d @ rest])"
      using assms(1) rest pos snoc
      by (auto simp: grouping_state_def close_groups_def chunk_groups_snoc chunk_group_def chunk_full_def)
    then show ?thesis
      using assms(1) snoc nonneg pos
      by (intro exI [of _ "ds @ [d @ rest]"]) (auto simp: grouping_state_def chunk_full_def)
  qed
qed

lemma chunk_groups_ids: "concat (map tensor_ids (chunk_groups cs)) = map tensor_id (concat cs)"
  by (induction cs rule: rev_induct) (auto simp: chunk_groups_snoc chunk_groups_def chunk_group_def)

lemma chunk_groups_bytes: "sum_list (map tg_bytes (chunk_groups cs)) = sum_list (map ts_bytes (concat cs))"
  by (induction cs rule: rev_induct) (auto simp: chunk_groups_snoc chunk_groups_def chunk_group_def)

text \<open>
  Greedy grouping is a partition of the compute order: the groups are consecutive,
  non-empty runs of the model's tensors, numbered by position, each with the bytes of its
  tensors and the arena offset of its first one; every group reaches the minimum size as soon
  as there is more than one, without a minimum every tensor is its own group, and the result
  is a well-formed model.
\<close>

lemma set_tensor_groups_partition:
  assumes "\<forall>t \<in> set (tensors m). 0 \<le> ts_bytes t"
  shows "(\<exists>cs. groups (set_tensor_groups m minimum) = chunk_groups cs
            \<and> concat cs = tensors m \<and> [] \<notin> set cs
            \<and> (1 < length cs \<or> minimum \<le> 0 \<longrightarrow> (\<forall>c \<in> set cs. chunk_full minimum c)))
     \<and> model_wf (set_tensor_groups m minimum)"
proof -
  let ?s0 = "\<lparr> gs_groups = [], gs_current = [], gs_bytes = 0, gs_offset = 0 \<rparr>"
  have "grouping_state minimum [] [] ?s0" by (simp add: grouping_state_def chunk_groups_def)
  from group_fold_state [OF this, of "tensors m"] obtain ds rest where
    st: "grouping_state minimum ds rest (foldl (group_step minimum) ?s0 (tensors m))"
    and parts: "concat ds @ rest = tensors m" by auto
  have "\<forall>t \<in> set rest. 0 \<le> ts_bytes t" using assms parts by (metis Un_iff set_append)
  from close_groups_chunks [OF st this] obtain cs where
    cs: "groups (set_tensor_groups m minimum) = chunk_groups cs" "concat cs = tensors m" "[] \<notin> set cs"
      "1 < length cs \<or> minimum \<le> 0 \<longrightarrow> (\<forall>c \<in> set cs. chunk_full minimum c)"
    using parts by (auto simp: set_tensor_groups_def Let_def)
  define kvs where "kvs = [(t, group_id g). g \<leftarrow> chunk_groups cs, t \<leftarrow> tensor_ids g]"
  have dict: "tensor_to_group (set_tensor_groups m minimum) = dict_of kvs"
    using cs(1) by (simp add: set_tensor_groups_def Let_def kvs_def)
  have keys: "fst ` set kvs = tensor_id ` set (tensors m)"
  proof -
    have "fst ` set kvs = set (concat (map tensor_ids (chunk_groups cs)))" by (force simp: kvs_def)
    then show ?thesis by (simp add: chunk_groups_ids cs(2))
  qed
  have vals: "v < length cs" if "(k, v) \<in> set kvs" for k v
    using that by (auto simp: kvs_def in_set_conv_nth nth_chunk_groups chunk_group_def)
  have "0 \<le> sum_list (map ts_bytes c)" if "c \<in> set cs" for c
    using that assms by (intro sum_list_nonneg) (auto simp: cs(2) [symmetric])
  then have "model_wf (set_tensor_groups m minimum)"
    unfolding model_wf_def cs(1) dict
    using dict_of_total [of _ kvs] dict_of_values [of kvs] keys vals
    by (auto simp: nth_chunk_groups chunk_group_def set_tensor_groups_def Let_def) blast
  with cs show ?thesis by blast
qed

section \<open>Models of a stall table\<close>

lemma runtime_model_bytes:
  "p < length pb \<Longrightarrow> sum_list (map tg_bytes (take p (groups (runtime_model m pb limit)))) = pb ! p - pb ! 0"
proof (induction p)
  case (Suc p)
  then have "take (Suc p) (groups (runtime_model m pb limit))
      = take p (groups (runtime_model m pb limit)) @ [runtime_group p (pb ! p, pb ! Suc p)]"
    by (simp add: runtime_model_def Let_def take_Suc_conv_app_nth nth_tl)
  with Suc show ?case by (simp add: runtime_group_def)
qed simp

lemma runtime_model_wf: "sorted pb \<Longrightarrow> model_wf (runtime_model m pb limit)"
proof -
  assume sorted: "sorted pb"
  have "map_of (map (\<lambda>i. (int i, i)) [0..<n]) (int i) = Some i" if "i < n" for i n
    using that by (intro map_of_is_SomeI) (auto simp: distinct_map o_def inj_on_def)
  moreover have "pb ! i \<le> pb ! Suc i" if "Suc i < length pb" for i
    using sorted that by (simp add: sorted_nth_mono)
  ultimately show ?thesis
    by (auto simp: model_wf_def runtime_model_def Let_def runtime_group_def runtime_tensor_def nth_tl
        set_zip in_set_zip)
qed

lemma models_from_table_run:
  assumes ok: "table_ok table" and caps: "\<forall>m \<in> fst ` set (st_models table). map_of limits m = Some (cap_of m)"
  shows "models_from_prefix_stall_table table limits
     = Inr (map (\<lambda>(m, item). (m, runtime_model m (sm_prefix_bytes item) (cap_of m))) (st_models table))"
  unfolding models_from_prefix_stall_table_def
proof (rule r_map_total)
  fix x assume mem: "x \<in> set (st_models table)"
  then have "sm_prefix_bytes (snd x) \<noteq> []"
    using ok by (cases "sm_rows (snd x)") (auto simp: table_ok_def model_ok_def row_ok_def)
  moreover have "map_of limits (fst x) = Some (cap_of (fst x))" using caps mem by blast
  ultimately show "(case x of (m, item) \<Rightarrow>
      if sm_prefix_bytes item = [] then Inl (IndexError ''list index out of range'')
      else r_bind (dict_get limits m) (\<lambda>limit. Inr (m, runtime_model m (sm_prefix_bytes item) limit)))
     = Inr (case x of (m, item) \<Rightarrow> (m, runtime_model m (sm_prefix_bytes item) (cap_of m)))"
    by (simp add: split_def)
qed

text \<open>
  The models built from a validated stall table agree with it: the result is well formed,
  there is one group per measured group, and the bytes of the first groups are the differences
  of the table's prefix sizes, so freeing a suffix frees what the planner counts on.
\<close>

lemma models_from_table_bytes:
  assumes "table_ok table" and "distinct (map fst (st_models table))"
    and "\<forall>m \<in> fst ` set (st_models table). \<exists>limit. map_of limits m = Some limit"
  shows "\<exists>ms. models_from_prefix_stall_table table limits = Inr ms \<and> models_wf ms
     \<and> map fst ms = map fst (st_models table)
     \<and> (\<forall>m model item. map_of ms m = Some model \<longrightarrow> map_of (st_models table) m = Some item \<longrightarrow>
          int (length (groups model)) = sm_group_count item
          \<and> (\<forall>p \<le> length (groups model).
               sum_list (map tg_bytes (take p (groups model)))
                 = sm_prefix_bytes item ! p - sm_prefix_bytes item ! 0))"
proof -
  define cap_of where "cap_of = (\<lambda>m. the (map_of limits m))"
  have caps: "\<forall>m \<in> fst ` set (st_models table). map_of limits m = Some (cap_of m)"
  proof
    fix m assume "m \<in> fst ` set (st_models table)"
    with assms(3) obtain limit where "map_of limits m = Some limit" by blast
    then show "map_of limits m = Some (cap_of m)" by (simp add: cap_of_def)
  qed
  let ?ms = "map (\<lambda>(m, item). (m, runtime_model m (sm_prefix_bytes item) (cap_of m))) (st_models table)"
  have run: "models_from_prefix_stall_table table limits = Inr ?ms"
    using assms(1) caps by (rule models_from_table_run)
  have ok: "model_ok item" if "(m, item) \<in> set (st_models table)" for m item
    using assms(1) that by (auto simp: table_ok_def)
  have fst_eq: "map fst ?ms = map fst (st_models table)" by (simp add: o_def split_def)
  have wf: "models_wf ?ms"
    unfolding models_wf_def fst_eq using assms(2) ok by (auto simp: model_ok_def runtime_model_wf)
  have "int (length (groups model)) = sm_group_count item
      \<and> (\<forall>p \<le> length (groups model). sum_list (map tg_bytes (take p (groups model)))
            = sm_prefix_bytes item ! p - sm_prefix_bytes item ! 0)"
    if "map_of ?ms m = Some model" "map_of (st_models table) m = Some item" for m model item
  proof -
    have model: "model = runtime_model m (sm_prefix_bytes item) (cap_of m)"
      using that by (simp add: map_of_map_key)
    have item: "model_ok item" using ok map_of_SomeD [OF that(2)] by blast
    then have "sm_prefix_bytes item \<noteq> []"
      by (cases "sm_rows item") (auto simp: model_ok_def row_ok_def)
    then have len: "Suc (length (groups model)) = length (sm_prefix_bytes item)"
      by (simp add: model runtime_model_def Let_def)
    then show ?thesis using item runtime_model_bytes [of _ "sm_prefix_bytes item" m "cap_of m"]
      by (auto simp: model model_ok_def)
  qed
  with run wf fst_eq show ?thesis by blast
qed

section \<open>Mapping is a permutation\<close>

text \<open>
  An accepted model mapping is a permutation of the physical models: it is defined exactly
  on them and maps them bijectively onto themselves, so that remapping a trace of known models
  never fails and changes nothing but the model id.
\<close>

lemma model_mapping_permutation:
  assumes "load_model_mapping order ids = Inr mapping" and "\<forall>r \<in> set requests. rq_model_id r \<in> set ids"
  shows "dom (map_of mapping) = set ids
     \<and> bij_betw (\<lambda>m. the (map_of mapping m)) (set ids) (set ids)
     \<and> remap_requests requests mapping
         = Inr (map (\<lambda>r. r\<lparr> rq_model_id := the (map_of mapping (rq_model_id r)) \<rparr>) requests)"
proof -
  have bij: "dom (map_of mapping) = set ids \<and> bij_betw (\<lambda>m. the (map_of mapping m)) (set ids) (set ids)"
  proof (cases order)
    case NoOrder
    then have "map_of mapping m = (if m \<in> set ids then Some m else None)" for m
      using assms(1) by (auto simp: load_model_mapping_def map_of_map_restrict [of "\<lambda>m. m", simplified]
          restrict_map_def)
    then show ?thesis by (auto simp: bij_betw_def inj_on_def dom_def image_iff)
  next
    case (Order xs)
    have m: "mapping = zip (map int [0..<length xs]) xs"
      and keys': "set (map int [0..<length xs]) = set ids" and vals: "set xs = set ids"
      using assms(1) Order
      by (simp_all add: load_model_mapping_def Let_def set_map [symmetric] del: set_map split: if_splits)
    have keys: "set ids = int ` {0..<length xs}" using keys' by simp
    have "card (set xs) = length xs" by (simp add: vals keys card_image)
    then have "distinct xs" by (simp add: card_distinct)
    have at: "map_of mapping (int i) = Some (xs ! i)" if "i < length xs" for i
      using that by (intro map_of_is_SomeI) (auto simp: m in_set_zip distinct_map inj_on_def intro!: exI [of _ i])
    have "bij_betw (\<lambda>i. xs ! i) {0..<length xs} (set xs)"
      using \<open>distinct xs\<close> by (simp add: bij_betw_nth atLeast0LessThan)
    then have "bij_betw (\<lambda>m. the (map_of mapping m)) (int ` {0..<length xs}) (set xs)"
      using at by (auto simp: bij_betw_def inj_on_def image_image)
    then show ?thesis by (simp add: keys vals m dom_map_of_zip)
  qed (use assms(1) in \<open>simp add: load_model_mapping_def\<close>)
  moreover have "remap_requests requests mapping
      = Inr (map (\<lambda>r. r\<lparr> rq_model_id := the (map_of mapping (rq_model_id r)) \<rparr>) requests)"
    unfolding remap_requests_def
  proof (rule r_map_total)
    fix r assume "r \<in> set requests"
    then obtain m where "map_of mapping (rq_model_id r) = Some m" using assms(2) bij by blast
    then show "r_bind (dict_get mapping (rq_model_id r)) (\<lambda>m. Inr (r\<lparr> rq_model_id := m \<rparr>))
        = Inr (r\<lparr> rq_model_id := the (map_of mapping (rq_model_id r)) \<rparr>)" by simp
  qed
  ultimately show ?thesis by blast
qed

section \<open>Concrete models\<close>

end
