(* ===== verification/Execution.thy ===== *)
theory Execution
  imports Tensor_Groups
begin

text \<open>
  Executing one request against a memory backend (\<open>compute_durations\<close>, \<open>kv_bytes\<close>,
  \<open>_pipeline_group_stalls\<close>, \<open>execute_request\<close> and the profile-driven variants of
  \<open>layerweave_tensor_pipeline_sim.py\<close>, and \<open>compute_features.py\<close>). The backend is a record of its
  methods, so that one definition serves all memory organizations as the dynamic dispatch of
  the source does; what a backend promises is the locale \<open>mem_backend\<close>.
\<close>

section \<open>The methods of a backend\<close>

record mem_metrics =
  logical_resident_bytes :: int
  physical_resident_bytes :: int
  internal_fragmentation_bytes :: int
  external_fragmentation_ratio :: rat
  largest_free_extent_bytes :: int
  stranded_resident_bytes :: int
  kv_resident_bytes :: "int option"

record 'b backend_ops =
  op_begin :: "int \<Rightarrow> int \<Rightarrow> 'b \<Rightarrow> ('b \<times> load_cost) result"
  op_plan :: "int \<Rightarrow> tensor_spec list \<Rightarrow> 'b \<Rightarrow> ('b \<times> load_cost) result"
  op_prepare :: "int \<Rightarrow> tensor_spec \<Rightarrow> 'b \<Rightarrow> ('b \<times> load_cost) result"
  op_finish :: "int \<Rightarrow> 'b \<Rightarrow> 'b result"
  op_resident :: "'b \<Rightarrow> int \<Rightarrow> tensor_spec \<Rightarrow> bool result"
  op_physical_bytes :: "'b \<Rightarrow> int \<Rightarrow> int result"
  op_resident_bytes :: "'b \<Rightarrow> int \<Rightarrow> int result"
  op_prefix_count :: "'b \<Rightarrow> int \<Rightarrow> nat result"
  op_suffix_start :: "'b \<Rightarrow> int \<Rightarrow> nat result"
  op_metrics :: "'b \<Rightarrow> mem_metrics result"

section \<open>Compute durations\<close>

record batch =
  ba_batch_size :: "int option"
  ba_input_tokens :: int
  ba_max_input_tokens :: "int option"
  ba_sum_squared :: "rat option"

definition batch_features :: "batch \<Rightarrow> rat list" where
  "batch_features b =
     (let batch_size = max 1 (case ba_batch_size b of None \<Rightarrow> 1 | Some n \<Rightarrow> n);
          total_tokens = max 1 (ba_input_tokens b);
          max_tokens = max 1 (case ba_max_input_tokens b of
             None \<Rightarrow> ceil_div total_tokens batch_size | Some n \<Rightarrow> n);
          sum_squared = (case ba_sum_squared b of
             None \<Rightarrow> of_int (batch_size * max_tokens * max_tokens) | Some q \<Rightarrow> q) in
      [1, of_int (batch_size - 1), of_int total_tokens / 1000, of_int max_tokens / 1000,
       sum_squared / 1000000])"

text \<open>A compute profile: per model the coefficients of each layer, and measured tensors.\<close>

record estimator =
  es_models :: "(int \<times> (int \<times> rat list option) list) list"
  es_tensor_compute :: "(int \<times> (string \<times> rat \<times> rat) list) list"

definition request_features :: "request \<Rightarrow> rat list" where
  "request_features r = batch_features \<lparr> ba_batch_size = Some 1, ba_input_tokens = rq_input_tokens r,
     ba_max_input_tokens = Some (rq_input_tokens r),
     ba_sum_squared = Some (of_int (rq_input_tokens r ^ 2)) \<rparr>"

definition layer_ms :: "(int \<times> rat list option) list \<Rightarrow> rat list \<Rightarrow> int \<Rightarrow> rat" where
  "layer_ms profile features layer =
     (case map_of profile layer of
        Some (Some coefficients) \<Rightarrow> max 0 (sum_list (map2 (*) coefficients features))
      | _ \<Rightarrow> 0)"

text \<open>One layer's time is spread over its tensors in proportion to their bytes.\<close>

definition layer_durations ::
  "(int \<times> rat list option) list \<Rightarrow> rat list \<Rightarrow> tensor_spec list \<Rightarrow> int option \<Rightarrow> (int \<times> rat) list" where
  "layer_durations profile features ts layer =
     (let members = filter (\<lambda>t. layer_id t = layer) ts in
      case layer of
        None \<Rightarrow> map (\<lambda>t. (tensor_id t, 0)) members
      | Some l \<Rightarrow>
          let total = sum_list (map ts_bytes members) in
          map (\<lambda>t. (tensor_id t, if total = 0 then 0
                 else layer_ms profile features l * of_int (ts_bytes t) / of_int total)) members)"

definition measured_durations :: "(string \<times> rat \<times> rat) list \<Rightarrow> int \<Rightarrow> tensor_spec list \<Rightarrow> (int \<times> rat) list" where
  "measured_durations table tokens ts =
     concat (map (\<lambda>t. case map_of table (ts_name t) of
        None \<Rightarrow> []
      | Some (intercept, per_token) \<Rightarrow> [(tensor_id t, max 0 (intercept + per_token * of_int tokens))]) ts)"

definition compute_durations :: "estimator \<Rightarrow> request \<Rightarrow> tensor_model \<Rightarrow> (int \<times> rat) list result" where
  "compute_durations est r model =
     r_bind (dict_get (es_models est) (rq_model_id r)) (\<lambda>profile.
       let layers = rev (remdups (rev (map layer_id (tensors model))));
           measured = (case map_of (es_tensor_compute est) (rq_model_id r) of None \<Rightarrow> [] | Some d \<Rightarrow> d) in
       Inr (dict_of (concat (map (layer_durations profile (request_features r) (tensors model)) layers)
              @ measured_durations measured (rq_input_tokens r) (tensors model))))"

definition request_kv_bytes :: "request \<Rightarrow> 'x sim_args_scheme \<Rightarrow> int result" where
  "request_kv_bytes r args =
     (if kv_block_tokens args = 0 then Inl ZeroDivisionError
      else Inr (ceil_div (rq_input_tokens r + rq_output_tokens r) (kv_block_tokens args) * kv_block_bytes args))"

section \<open>The copy/compute pipeline\<close>

text \<open>
  The two clocks of a pipelined execution. A copy may start once the previous copy has ended
  and the previous tensor has started to compute; a tensor computes once it is loaded and its
  predecessor is done.
\<close>

record pipe_clock =
  copy_end :: rat
  compute_end :: rat
  previous_compute_start :: rat

record pipe_event =
  load_start_ms :: rat
  load_end_ms :: rat
  compute_start_ms :: rat
  ready_stall_ms :: rat

definition pipe_event_of :: "bool \<Rightarrow> rat \<Rightarrow> pipe_clock \<Rightarrow> pipe_event" where
  "pipe_event_of is_first load s =
     (let load_start = (if is_first then copy_end s else max (copy_end s) (previous_compute_start s));
          load_end = load_start + load in
      \<lparr> load_start_ms = load_start, load_end_ms = load_end,
        compute_start_ms = max (compute_end s) load_end,
        ready_stall_ms = max 0 (load_end - compute_end s) \<rparr>)"

definition pipe_step :: "bool \<Rightarrow> rat \<Rightarrow> rat \<Rightarrow> pipe_clock \<Rightarrow> pipe_clock" where
  "pipe_step is_first load duration s =
     (let e = pipe_event_of is_first load s in
      \<lparr> copy_end = load_end_ms e, compute_end = compute_start_ms e + duration,
        previous_compute_start = compute_start_ms e \<rparr>)"

text \<open>\<open>_pipeline_group_stalls\<close>: the stall each group exposes when everything is loaded.\<close>

definition stall_step ::
  "tensor_model \<Rightarrow> (int \<times> rat) list \<Rightarrow> (nat \<times> rat) list \<Rightarrow>
   bool \<times> pipe_clock \<times> nat list \<times> (nat \<times> rat) list \<Rightarrow> tensor_spec \<Rightarrow>
   (bool \<times> pipe_clock \<times> nat list \<times> (nat \<times> rat) list) result" where
  "stall_step model durations group_load_ms = (\<lambda>(is_first, s, loaded, stalls) tensor.
     r_bind (dict_get (tensor_to_group model) (tensor_id tensor)) (\<lambda>g.
     r_bind (if g \<in> set loaded then Inr 0 else dict_get group_load_ms g) (\<lambda>load.
     r_bind (dict_get durations (tensor_id tensor)) (\<lambda>duration.
       Inr (False, pipe_step is_first load duration s, List.insert g loaded,
            if load \<noteq> 0 then AList.update g (ready_stall_ms (pipe_event_of is_first load s)) stalls
            else stalls)))))"

definition pipeline_group_stalls ::
  "tensor_model \<Rightarrow> (int \<times> rat) list \<Rightarrow> (nat \<times> rat) list \<Rightarrow> (nat \<times> rat) list result" where
  "pipeline_group_stalls model durations group_load_ms =
     r_bind (r_foldl (stall_step model durations group_load_ms)
               (True, \<lparr> copy_end = 0, compute_end = 0, previous_compute_start = 0 \<rparr>, [],
                dict_of (map (\<lambda>g. (group_id g, 0)) (groups model)))
               (tensors model))
       (\<lambda>(_, _, _, stalls). Inr stalls)"

section \<open>Executing a request\<close>

record timeline_entry =
  tl_stage_id :: int
  tl_tensor :: string
  tl_bytes :: int
  tl_load_ms :: rat
  tl_compute_ms :: rat
  tl_event :: pipe_event

text \<open>A result row; \<open>er_total\<close> holds the accumulated cost whose fields the row repeats.\<close>

record exec_row =
  er_request :: request
  critical_path_ms :: rat
  hot_compute_ms :: rat
  exposed_load_ms :: rat
  er_total :: load_cost
  mckp_overrelease_bytes :: int
  er_memory :: mem_metrics
  er_timeline :: "timeline_entry list"

definition no_event :: pipe_event where
  "no_event = \<lparr> load_start_ms = 0, load_end_ms = 0, compute_start_ms = 0, ready_stall_ms = 0 \<rparr>"

definition prepare_step ::
  "'b backend_ops \<Rightarrow> int \<Rightarrow> (int \<times> rat) list \<Rightarrow> bool \<Rightarrow> bool \<Rightarrow>
   'b \<times> load_cost \<times> bool \<times> pipe_clock \<times> timeline_entry list \<Rightarrow> tensor_spec \<Rightarrow>
   ('b \<times> load_cost \<times> bool \<times> pipe_clock \<times> timeline_entry list) result" where
  "prepare_step ops model_id durations pipelined collect = (\<lambda>(b, total, is_first, s, timeline) tensor.
     r_bind (op_prepare ops model_id tensor b) (\<lambda>(b', load).
     r_bind (if pipelined \<or> collect then dict_get durations (tensor_id tensor) else Inr 0) (\<lambda>duration.
       let e = (if pipelined then pipe_event_of is_first (ready_ms load) s else no_event) in
       Inr (b', cost_add total load, False,
            if pipelined then pipe_step is_first (ready_ms load) duration s else s,
            if collect
            then timeline @ [\<lparr> tl_stage_id = tensor_id tensor, tl_tensor = ts_name tensor,
                    tl_bytes = ts_bytes tensor, tl_load_ms = ready_ms load, tl_compute_ms = duration,
                    tl_event = e \<rparr>]
            else timeline))))"

definition execute_request ::
  "'b backend_ops \<Rightarrow> request \<Rightarrow> tensor_model \<Rightarrow> estimator \<Rightarrow> 'x sim_args_scheme \<Rightarrow> bool \<Rightarrow> bool \<Rightarrow> 'b \<Rightarrow>
   ('b \<times> exec_row) result" where
  "execute_request ops r model est args pipelined collect b =
     r_bind (request_kv_bytes r args) (\<lambda>kv.
     r_bind (op_begin ops kv (rq_model_id r) b) (\<lambda>(b1, c1).
     r_bind (op_plan ops (rq_model_id r) (tensors model) b1) (\<lambda>(b2, c2).
     let total = cost_add c1 c2 in
     r_bind (compute_durations est r model) (\<lambda>durations.
     r_bind (r_foldl (prepare_step ops (rq_model_id r) durations pipelined collect)
               (b2, total, True,
                \<lparr> copy_end = ready_ms total, compute_end = (if pipelined then ready_ms total else 0),
                  previous_compute_start = 0 \<rparr>, [])
               (tensors model)) (\<lambda>(b3, total', _, s, timeline).
     let hot_compute = sum_list (map snd durations);
         finished = (if pipelined then compute_end s else ready_ms total' + hot_compute) in
     r_bind (op_finish ops (rq_model_id r) b3) (\<lambda>b4.
     r_bind (op_metrics ops b4) (\<lambda>metrics.
       Inr (b4, \<lparr> er_request = r, critical_path_ms = finished, hot_compute_ms = hot_compute,
                  exposed_load_ms = max 0 (finished - hot_compute), er_total = total',
                  mckp_overrelease_bytes = max 0 (mckp_planned_free_bytes total' - mckp_required_free_bytes total'),
                  er_memory = metrics, er_timeline = timeline \<rparr>))))))))"

section \<open>Durations are well defined\<close>

lemma sum_dict_values:
  assumes "distinct (map fst d)"
  shows "sum_list (map snd d) = (\<Sum>k \<in> fst ` set d. the (map_of d k) :: rat)"
proof -
  have "sum_list (map snd d) = sum_list (map (\<lambda>k. the (map_of d k)) (map fst d))"
    using assms by (intro arg_cong [of _ _ sum_list]) (auto simp: map_of_is_SomeI)
  also have "\<dots> = (\<Sum>k \<in> set (map fst d). the (map_of d k))"
    using assms by (rule sum_list_distinct_conv_sum_set)
  finally show ?thesis by simp
qed

lemma layer_ms_nonneg: "0 \<le> layer_ms profile features l"
  by (auto simp: layer_ms_def split: option.splits)

lemma layer_durations_nonneg:
  assumes "\<forall>t \<in> set ts. 0 \<le> ts_bytes t" and "(k, v) \<in> set (layer_durations profile features ts layer)"
  shows "0 \<le> v"
proof -
  let ?total = "sum_list (map ts_bytes (filter (\<lambda>t. layer_id t = layer) ts))"
  have "0 \<le> ?total" using assms(1) by (intro sum_list_nonneg_map) auto
  then show ?thesis
    using assms layer_ms_nonneg [of profile features]
    by (auto simp: layer_durations_def Let_def split: option.splits if_splits
        intro!: divide_nonneg_nonneg mult_nonneg_nonneg)
qed

lemma layer_durations_keys:
  "fst ` set (layer_durations profile features ts layer) = tensor_id ` {t \<in> set ts. layer_id t = layer}"
  by (auto simp: layer_durations_def Let_def image_image split: option.splits)

text \<open>What an execution relies on of the compute durations.\<close>

definition durations_ok :: "tensor_spec list \<Rightarrow> (int \<times> rat) list \<Rightarrow> bool" where
  "durations_ok ts d \<longleftrightarrow> (\<forall>t \<in> set ts. \<exists>v \<ge> 0. map_of d (tensor_id t) = Some v)
     \<and> (distinct (map tensor_id ts) \<longrightarrow>
          sum_list (map snd d) = (\<Sum>t \<leftarrow> ts. the (map_of d (tensor_id t))))"

lemma compute_durations_ok:
  assumes "rq_model_id r \<in> fst ` set (es_models est)" and "\<forall>t \<in> set (tensors model). 0 \<le> ts_bytes t"
  shows "\<exists>d. compute_durations est r model = Inr d \<and> durations_ok (tensors model) d"
proof -
  obtain profile where profile: "map_of (es_models est) (rq_model_id r) = Some profile"
    using map_of_mem [OF assms(1)] by blast
  define measured where "measured = (case map_of (es_tensor_compute est) (rq_model_id r) of None \<Rightarrow> [] | Some d \<Rightarrow> d)"
  define kvs where "kvs = concat (map (layer_durations profile (request_features r) (tensors model))
      (rev (remdups (rev (map layer_id (tensors model))))))
      @ measured_durations measured (rq_input_tokens r) (tensors model)"
  have run: "compute_durations est r model = Inr (dict_of kvs)"
    using profile by (simp add: compute_durations_def kvs_def measured_def)
  have keys: "fst ` set kvs = tensor_id ` set (tensors model)"
  proof -
    have "fst ` set (measured_durations measured n ts) \<subseteq> tensor_id ` set ts" for n ts
      by (auto simp: measured_durations_def split: option.splits)
    moreover have "fst ` set (concat (map (layer_durations profile (request_features r) (tensors model))
        (rev (remdups (rev (map layer_id (tensors model))))))) = tensor_id ` set (tensors model)"
      by (simp add: image_UN layer_durations_keys) auto
    ultimately show ?thesis unfolding kvs_def by (simp add: image_Un Un_absorb2)
  qed
  have nonneg: "0 \<le> v" if "(k, v) \<in> set kvs" for k v
    using that layer_durations_nonneg [OF assms(2)]
    by (auto simp: kvs_def measured_durations_def split: option.splits)
  have "\<exists>v \<ge> 0. map_of (dict_of kvs) (tensor_id t) = Some v" if "t \<in> set (tensors model)" for t
    using dict_of_total [of "tensor_id t" kvs] dict_of_values [of kvs] keys nonneg that by blast
  moreover have "sum_list (map snd (dict_of kvs)) = (\<Sum>t \<leftarrow> tensors model. the (map_of (dict_of kvs) (tensor_id t)))"
    if "distinct (map tensor_id (tensors model))"
  proof -
    have "sum_list (map snd (dict_of kvs)) = (\<Sum>k \<in> set (map tensor_id (tensors model)). the (map_of (dict_of kvs) k))"
      using sum_dict_values [OF dict_of_distinct_keys, of kvs] keys by (simp add: dict_of_keys)
    also have "\<dots> = (\<Sum>k \<leftarrow> map tensor_id (tensors model). the (map_of (dict_of kvs) k))"
      using that by (rule sum_list_distinct_conv_sum_set [symmetric])
    finally show ?thesis by (simp add: o_def)
  qed
  ultimately show ?thesis using run by (auto simp: durations_ok_def)
qed

section \<open>Timing of the pipeline\<close>

fun pipe_run :: "bool \<Rightarrow> (rat \<times> rat) list \<Rightarrow> pipe_clock \<Rightarrow> pipe_clock" where
  "pipe_run is_first [] s = s"
| "pipe_run is_first ((load, duration) # xs) s = pipe_run False xs (pipe_step is_first load duration s)"

lemma pipe_run_upper:
  assumes "\<forall>(l, d) \<in> set xs. 0 \<le> l \<and> 0 \<le> d"
    and "copy_end s \<le> B" "compute_end s \<le> B" "previous_compute_start s \<le> B"
  shows "compute_end (pipe_run is_first xs s) \<le> B + sum_list (map fst xs) + sum_list (map snd xs)"
  using assms
proof (induction xs arbitrary: s is_first B)
  case (Cons x xs)
  obtain l d where x: "x = (l, d)" by fastforce
  have "compute_end (pipe_run False xs (pipe_step is_first l d s))
      \<le> (B + l + d) + sum_list (map fst xs) + sum_list (map snd xs)"
    by (rule Cons.IH) (use Cons.prems in \<open>auto simp: x pipe_step_def pipe_event_of_def Let_def\<close>)
  then show ?case by (simp add: x)
qed simp

lemma pipe_run_lower:
  assumes "\<forall>(l, d) \<in> set xs. 0 \<le> l \<and> 0 \<le> d"
  shows "compute_end s + sum_list (map snd xs) \<le> compute_end (pipe_run is_first xs s)"
  using assms
proof (induction xs arbitrary: s is_first)
  case (Cons x xs)
  obtain l d where x: "x = (l, d)" by fastforce
  have "compute_end s + d \<le> compute_end (pipe_step is_first l d s)"
    by (simp add: pipe_step_def pipe_event_of_def Let_def)
  moreover have "compute_end (pipe_step is_first l d s) + sum_list (map snd xs)
      \<le> compute_end (pipe_run False xs (pipe_step is_first l d s))"
    by (rule Cons.IH) (use Cons.prems in auto)
  ultimately show ?case by (simp add: x)
qed simp

text \<open>The backend calls of an execution, without the clocks.\<close>

fun prepare_all :: "'b backend_ops \<Rightarrow> int \<Rightarrow> tensor_spec list \<Rightarrow> 'b \<Rightarrow> ('b \<times> load_cost list) result" where
  "prepare_all ops m [] b = Inr (b, [])"
| "prepare_all ops m (t # ts) b =
     r_bind (op_prepare ops m t b) (\<lambda>(b', c).
       r_bind (prepare_all ops m ts b') (\<lambda>(b'', cs). Inr (b'', c # cs)))"

lemma prepare_fold:
  assumes "prepare_all ops m ts b = Inr (b', cs)"
    and "\<forall>t \<in> set ts. \<exists>v. map_of durations (tensor_id t) = Some v"
  shows "length cs = length ts \<and> (\<exists>f entries'. r_foldl (prepare_step ops m durations pipelined collect)
             (b, acc, is_first, s, entries) ts
       = Inr (b', foldl cost_add acc cs, f,
              if pipelined
              then pipe_run is_first (zip (map ready_ms cs) (map (\<lambda>t. the (map_of durations (tensor_id t))) ts)) s
              else s, entries'))"
  using assms
proof (induction ts arbitrary: b b' cs acc is_first s entries)
  case (Cons t ts)
  obtain b1 c cs1 where step: "op_prepare ops m t b = Inr (b1, c)"
    and rest: "prepare_all ops m ts b1 = Inr (b', cs1)" and cs: "cs = c # cs1"
    using Cons.prems(1) by (auto simp: py_simps)
  obtain v where v: "map_of durations (tensor_id t) = Some v" using Cons.prems(2) by auto
  have dur: "\<forall>t \<in> set ts. \<exists>v. map_of durations (tensor_id t) = Some v" using Cons.prems(2) by simp
  show ?case
    using Cons.IH [OF rest dur, of "cost_add acc c" False "if pipelined then pipe_step is_first (ready_ms c) v s else s"]
      step v cs
    by (cases pipelined) (auto simp: prepare_step_def Let_def)
qed auto

lemma cost_sum_ready: "ready_ms (foldl cost_add c cs) = ready_ms c + sum_list (map ready_ms cs)"
  by (induction cs arbitrary: c) auto

lemma cost_ok_foldl: "cost_ok c \<Longrightarrow> \<forall>c \<in> set cs. cost_ok c \<Longrightarrow> cost_ok (foldl cost_add c cs)"
  by (induction cs arbitrary: c) auto

section \<open>The contract of a memory backend\<close>

text \<open>
  \<open>ok\<close> is the backend's invariant between requests. \<open>fits b kv m ts\<close> says that the configured
  pool holds all tensors \<open>ts\<close> of model \<open>m\<close> beside \<open>kv\<close> bytes of attention state; it depends
  only on \<open>config\<close>, which no operation changes. \<open>loadable b m ts\<close> is the invariant inside a request of model \<open>m\<close> that
  still has to prepare \<open>ts\<close>. \<open>used\<close> never exceeds \<open>limit\<close> inside a request, preparing a tensor
  makes it resident, and no later preparation of the request evicts it.
\<close>

locale mem_backend =
  fixes ops :: "'b backend_ops"
    and ok :: "'b \<Rightarrow> bool"
    and fits :: "'b \<Rightarrow> int \<Rightarrow> int \<Rightarrow> tensor_spec list \<Rightarrow> bool"
    and loadable :: "'b \<Rightarrow> int \<Rightarrow> tensor_spec list \<Rightarrow> bool"
    and config :: "'b \<Rightarrow> 'c"
    and used :: "'b \<Rightarrow> int" and limit :: "'b \<Rightarrow> int"
  assumes begin_ok: "ok b \<Longrightarrow> fits b kv m ts \<Longrightarrow>
      \<exists>b' c. op_begin ops kv m b = Inr (b', c) \<and> loadable b' m ts \<and> config b' = config b \<and> cost_ok c"
    and plan_ok: "loadable b m ts \<Longrightarrow>
      \<exists>b' c. op_plan ops m ts b = Inr (b', c) \<and> loadable b' m ts \<and> config b' = config b \<and> cost_ok c"
    and prepare_ok: "loadable b m (t # ts) \<Longrightarrow>
      \<exists>b' c. op_prepare ops m t b = Inr (b', c) \<and> loadable b' m ts \<and> config b' = config b \<and> cost_ok c
        \<and> op_resident ops b' m t = Inr True
        \<and> (\<forall>t'. op_resident ops b m t' = Inr True \<longrightarrow> op_resident ops b' m t' = Inr True)"
    and finish_ok: "loadable b m [] \<Longrightarrow>
      \<exists>b'. op_finish ops m b = Inr b' \<and> ok b' \<and> config b' = config b \<and> used b' = used b \<and> limit b' = limit b
        \<and> (\<forall>t. op_resident ops b' m t = op_resident ops b m t)"
    and metrics_ok: "ok b \<Longrightarrow> \<exists>x. op_metrics ops b = Inr x"
    and fits_config: "config b' = config b \<Longrightarrow> fits b' = fits b"
    and loadable_limit: "loadable b m ts \<Longrightarrow> used b \<le> limit b"
begin

lemma prepare_all_ok:
  "loadable b m ts \<Longrightarrow>
   \<exists>b' cs. prepare_all ops m ts b = Inr (b', cs) \<and> loadable b' m [] \<and> config b' = config b
     \<and> (\<forall>c \<in> set cs. cost_ok c) \<and> (\<forall>t \<in> set ts. op_resident ops b' m t = Inr True)
     \<and> (\<forall>t. op_resident ops b m t = Inr True \<longrightarrow> op_resident ops b' m t = Inr True)"
proof (induction ts arbitrary: b)
  case (Cons t ts)
  obtain b1 c where 1: "op_prepare ops m t b = Inr (b1, c)" "loadable b1 m ts" "config b1 = config b" "cost_ok c"
      "op_resident ops b1 m t = Inr True"
      "\<forall>t'. op_resident ops b m t' = Inr True \<longrightarrow> op_resident ops b1 m t' = Inr True"
    using prepare_ok [OF Cons.prems] by blast
  obtain b' cs where 2: "prepare_all ops m ts b1 = Inr (b', cs)" "loadable b' m []" "config b' = config b1"
      "\<forall>c \<in> set cs. cost_ok c" "\<forall>t \<in> set ts. op_resident ops b' m t = Inr True"
      "\<forall>t. op_resident ops b1 m t = Inr True \<longrightarrow> op_resident ops b' m t = Inr True"
    using Cons.IH [OF 1(2)] by blast
  show ?case using 1 2 by (intro exI [of _ b'] exI [of _ "c # cs"]) auto
qed auto

text \<open>
  A request that fits is executed: both the pipelined and the serialized execution return, they
  leave the backend in the same state, with the invariant restored, every tensor of the model
  resident and the weights within their share of the pool, and the pipelined critical path lies
  between the pure compute time and the serialized critical path.
\<close>

lemma execute_ok:
  assumes ok: "ok b" and args: "args_ok args" and model: "rq_model_id r \<in> fst ` set (es_models est)"
    and bytes: "\<forall>t \<in> set (tensors model). 0 \<le> ts_bytes t" and dist: "distinct (map tensor_id (tensors model))"
    and fits: "request_kv_bytes r args = Inr kv" "fits b kv (rq_model_id r) (tensors model)"
  shows "\<exists>b' pipe serial. execute_request ops r model est args True collect b = Inr (b', pipe)
     \<and> execute_request ops r model est args False collect b = Inr (b', serial)
     \<and> ok b' \<and> config b' = config b \<and> used b' \<le> limit b'
     \<and> (\<forall>t \<in> set (tensors model). op_resident ops b' (rq_model_id r) t = Inr True)
     \<and> er_total pipe = er_total serial \<and> cost_ok (er_total pipe)
     \<and> hot_compute_ms pipe = hot_compute_ms serial
     \<and> hot_compute_ms pipe \<le> critical_path_ms pipe \<and> critical_path_ms pipe \<le> critical_path_ms serial"
proof -
  let ?m = "rq_model_id r" and ?ts = "tensors model"
  obtain b1 c1 where 1: "op_begin ops kv ?m b = Inr (b1, c1)" "loadable b1 ?m ?ts" "config b1 = config b" "cost_ok c1"
    using begin_ok [OF ok fits(2)] by blast
  obtain b2 c2 where 2: "op_plan ops ?m ?ts b1 = Inr (b2, c2)" "loadable b2 ?m ?ts" "config b2 = config b1" "cost_ok c2"
    using plan_ok [OF 1(2)] by blast
  obtain b3 cs where 3: "prepare_all ops ?m ?ts b2 = Inr (b3, cs)" "loadable b3 ?m []" "config b3 = config b2"
      "\<forall>c \<in> set cs. cost_ok c" "\<forall>t \<in> set ?ts. op_resident ops b3 ?m t = Inr True"
    using prepare_all_ok [OF 2(2)] by blast
  obtain b4 where 4: "op_finish ops ?m b3 = Inr b4" "ok b4" "config b4 = config b3" "used b4 = used b3"
      "limit b4 = limit b3" "\<forall>t. op_resident ops b4 ?m t = op_resident ops b3 ?m t"
    using finish_ok [OF 3(2)] by blast
  obtain x where x: "op_metrics ops b4 = Inr x" using metrics_ok [OF 4(2)] by blast
  obtain d where d: "compute_durations est r model = Inr d" "durations_ok ?ts d"
    using compute_durations_ok [OF model bytes] by blast
  define dur where "dur = (\<lambda>t :: tensor_spec. the (map_of d (tensor_id t)))"
  have dur: "\<forall>t \<in> set ?ts. \<exists>v. map_of d (tensor_id t) = Some v" "\<And>t. t \<in> set ?ts \<Longrightarrow> 0 \<le> dur t"
    using d(2) by (auto simp: durations_ok_def dur_def)
  let ?total = "foldl cost_add (cost_add c1 c2) cs"
  let ?R = "ready_ms (cost_add c1 c2)"
  let ?xs = "zip (map ready_ms cs) (map dur ?ts)"
  define start where "start = \<lparr> copy_end = ?R, compute_end = ?R, previous_compute_start = 0 \<rparr>"
  note fold = prepare_fold [OF 3(1) dur(1), folded dur_def]
  have len: "length cs = length ?ts" using fold by blast
  have ready: "\<And>c. c \<in> set cs \<Longrightarrow> 0 \<le> ready_ms c" "0 \<le> ?R"
    using 1(4) 2(4) 3(4) cost_ok_ready by auto
  have hot: "sum_list (map snd d) = sum_list (map dur ?ts)"
    using d(2) dist by (simp add: durations_ok_def dur_def)
  have sums: "sum_list (map fst ?xs) = sum_list (map ready_ms cs)" "sum_list (map snd ?xs) = sum_list (map dur ?ts)"
    using len by (simp_all add: map_fst_zip map_snd_zip)
  have nonneg: "\<forall>(l, d) \<in> set ?xs. 0 \<le> l \<and> 0 \<le> d"
  proof clarify
    fix l d assume "(l, d) \<in> set ?xs"
    from set_zip_leftD [OF this] set_zip_rightD [OF this] show "0 \<le> l \<and> 0 \<le> d"
      using ready(1) dur(2) by auto
  qed
  have upper: "compute_end (pipe_run True ?xs start) \<le> ready_ms ?total + sum_list (map dur ?ts)"
    using pipe_run_upper [OF nonneg, of start ?R True] ready(2) sums
    by (simp add: start_def cost_sum_ready)
  have lower: "sum_list (map dur ?ts) \<le> compute_end (pipe_run True ?xs start)"
    using pipe_run_lower [OF nonneg, of start True] ready(2) sums by (simp add: start_def)
  obtain f entries where pipe: "r_foldl (prepare_step ops ?m d True collect) (b2, cost_add c1 c2, True, start, []) ?ts
      = Inr (b3, ?total, f, pipe_run True ?xs start, entries)"
    using fold [of True collect] by (simp add: start_def) blast
  obtain f' entries' where serial: "r_foldl (prepare_step ops ?m d False collect)
      (b2, cost_add c1 c2, True, start\<lparr> compute_end := 0 \<rparr>, []) ?ts
      = Inr (b3, ?total, f', start\<lparr> compute_end := 0 \<rparr>, entries')"
    using fold [of False collect] by (simp add: start_def) blast
  have "cost_ok ?total"
    using 1(4) 2(4) 3(4) by (intro cost_ok_foldl) auto
  moreover have "used b4 \<le> limit b4" using loadable_limit [OF 3(2)] 4 by simp
  ultimately show ?thesis
    using 1 2 3 4 x d(1) fits(1) hot upper lower pipe serial
    by (simp add: execute_request_def Let_def start_def)
qed

end

section \<open>A concrete request\<close>

definition demo_request :: request where
  "demo_request = \<lparr> request_id = 0, rq_model_id = 1, rq_input_tokens = 20, rq_output_tokens = 12,
     trace_output_tokens = 12 \<rparr>"

definition demo_estimator :: estimator where
  "demo_estimator = \<lparr> es_models = [(1, [(0, Some [1, 0, 0, 0, 0])]), (2, [])], es_tensor_compute = [] \<rparr>"

end
