(* ===== verification/Profile_Execution.thy ===== *)
theory Profile_Execution
  imports Execution
begin

text \<open>
  Profile-driven execution (\<open>execute_profile_request\<close> and \<open>execute_profile_cold_request\<close> of
  \<open>layerweave_tensor_pipeline_sim.py\<close>): the backend performs the memory actions of a request, and
  its latency is settled from the prefix stall table.
\<close>

section \<open>Rows\<close>

record profile_row =
  pf_request :: request
  pf_critical_path_ms :: rat
  pf_hot_compute_ms :: rat
  pf_exposed_load_ms :: rat
  exposed_h2d_ms :: rat
  exposed_allocation_ms :: rat
  exposed_compaction_ms :: rat
  exposed_page_map_ms :: rat
  exposed_page_unmap_ms :: rat
  profile_exposed_load_ms :: "rat option"
  pf_vmm_ms :: rat
  pf_total :: load_cost
  residency_kind :: stall_field
  residency_state_before :: nat
  residency_state_after :: "nat option"
  pf_memory :: mem_metrics

text \<open>The memory actions both variants share: begin, plan, prepare every tensor, finish.\<close>

definition run_memory ::
  "'b backend_ops \<Rightarrow> request \<Rightarrow> tensor_model \<Rightarrow> 'x sim_args_scheme \<Rightarrow> 'b \<Rightarrow> ('b \<times> load_cost) result" where
  "run_memory ops r model args b =
     r_bind (request_kv_bytes r args) (\<lambda>kv.
     r_bind (op_begin ops kv (rq_model_id r) b) (\<lambda>(b1, c1).
     r_bind (op_plan ops (rq_model_id r) (tensors model) b1) (\<lambda>(b2, c2).
     r_bind (r_foldl (\<lambda>(b, total) tensor.
               r_bind (op_prepare ops (rq_model_id r) tensor b) (\<lambda>(b', c). Inr (b', cost_add total c)))
             (b2, cost_add c1 c2) (tensors model)) (\<lambda>(b3, total).
     r_bind (op_finish ops (rq_model_id r) b3) (\<lambda>b4. Inr (b4, total))))))"

text \<open>
  Settling the latency: \<open>(exposed, exposed_h2d, exposed_allocation, profile_exposed)\<close>. The
  remaining components of a row are read off the accumulated cost.
\<close>

definition settle ::
  "stall_table \<Rightarrow> request \<Rightarrow> stall_field \<Rightarrow> nat \<Rightarrow> bool \<Rightarrow> load_cost \<Rightarrow> (rat \<times> rat \<times> rat \<times> rat option) result" where
  "settle table r kind state pipelined cost =
     (let vmm = map_ms cost + unmap_ms cost in
      if pipelined then
        r_bind (lookup_field table (rq_model_id r) (rq_input_tokens r) state kind) (\<lambda>profile_exposed.
        r_bind (exposed_loading_components table (rq_model_id r) (rq_input_tokens r) state kind) (\<lambda>(h, a).
          Inr (compaction_ms cost + vmm + profile_exposed, h, a, Some profile_exposed)))
      else Inr (h2d_ms cost + allocation_ms cost + compaction_ms cost + vmm,
                h2d_ms cost, allocation_ms cost, None))"

definition settled_row ::
  "request \<Rightarrow> rat \<Rightarrow> load_cost \<Rightarrow> rat \<times> rat \<times> rat \<times> rat option \<Rightarrow> stall_field \<Rightarrow> nat \<Rightarrow> nat option \<Rightarrow>
   mem_metrics \<Rightarrow> profile_row" where
  "settled_row r hot cost = (\<lambda>(exposed, h, a, profile_exposed) kind before after metrics.
     \<lparr> pf_request = r, pf_critical_path_ms = hot + exposed, pf_hot_compute_ms = hot,
       pf_exposed_load_ms = exposed, exposed_h2d_ms = h, exposed_allocation_ms = a,
       exposed_compaction_ms = compaction_ms cost, exposed_page_map_ms = map_ms cost,
       exposed_page_unmap_ms = unmap_ms cost, profile_exposed_load_ms = profile_exposed,
       pf_vmm_ms = map_ms cost + unmap_ms cost, pf_total = cost, residency_kind = kind,
       residency_state_before = before, residency_state_after = after, pf_memory = metrics \<rparr>)"

definition residency_state :: "'b backend_ops \<Rightarrow> stall_field \<Rightarrow> 'b \<Rightarrow> int \<Rightarrow> nat result" where
  "residency_state ops kind b m =
     (case kind of SuffixStall \<Rightarrow> op_suffix_start ops b m | PrefixStall \<Rightarrow> op_prefix_count ops b m)"

definition execute_profile_request ::
  "'b backend_ops \<Rightarrow> request \<Rightarrow> tensor_model \<Rightarrow> stall_table \<Rightarrow> 'x sim_args_scheme \<Rightarrow> bool \<Rightarrow> 'b \<Rightarrow>
   ('b \<times> profile_row) result" where
  "execute_profile_request ops r model table args pipelined b =
     (let kind = (if replacement_policy args = Lru then SuffixStall else PrefixStall) in
      r_bind (residency_state ops kind b (rq_model_id r)) (\<lambda>state.
      r_bind (run_memory ops r model args b) (\<lambda>(b', cost).
      r_bind (baseline_ms table (rq_model_id r) (rq_input_tokens r)) (\<lambda>hot.
      r_bind (settle table r kind state pipelined cost) (\<lambda>s.
      r_bind (residency_state ops kind b' (rq_model_id r)) (\<lambda>after.
      r_bind (op_metrics ops b') (\<lambda>metrics.
        Inr (b', settled_row r hot cost s kind state (Some after) metrics))))))))"

text \<open>A cold request runs on a fresh backend that knows its own model only.\<close>

definition execute_profile_cold_request ::
  "'b backend_ops \<Rightarrow> ((int \<times> tensor_model) list \<Rightarrow> 'b result) \<Rightarrow> request \<Rightarrow> tensor_model \<Rightarrow> stall_table \<Rightarrow>
   'x sim_args_scheme \<Rightarrow> bool \<Rightarrow> profile_row result" where
  "execute_profile_cold_request ops make_backend r model table args pipelined =
     r_bind (make_backend [(rq_model_id r, model)]) (\<lambda>b.
     r_bind (run_memory ops r model args b) (\<lambda>(b', cost).
     r_bind (baseline_ms table (rq_model_id r) (rq_input_tokens r)) (\<lambda>hot.
     r_bind (settle table r PrefixStall 0 pipelined cost) (\<lambda>s.
     r_bind (op_metrics ops b') (\<lambda>metrics.
       Inr (settled_row r hot cost s PrefixStall 0 None metrics))))))"

section \<open>Accounting\<close>

text \<open>A table whose profile attributes every stall: clamping, with boundaries for every row.\<close>

definition table_attributes :: "stall_table \<Rightarrow> int \<Rightarrow> bool" where
  "table_attributes t m \<longleftrightarrow> table_ok t \<and> st_extrapolation t = Clamp
     \<and> (\<exists>gbps > 0. st_h2d_gbps t = Some gbps) \<and> (\<exists>al \<ge> 0. st_segment_allocation_ms t = Some al)
     \<and> (\<exists>item. map_of (st_models t) m = Some item
          \<and> (\<exists>grps. sm_groups item = Some grps \<and> grps \<noteq> [] \<and> (\<forall>g \<in> set grps. 0 \<le> sg_logical_bytes g))
          \<and> (\<forall>row \<in> set (sm_rows item). group_boundary_ms row \<noteq> None))"

definition row_balanced :: "profile_row \<Rightarrow> bool" where
  "row_balanced row \<longleftrightarrow>
     pf_exposed_load_ms row = exposed_h2d_ms row + exposed_allocation_ms row + exposed_compaction_ms row
       + exposed_page_map_ms row + exposed_page_unmap_ms row
     \<and> pf_critical_path_ms row = pf_hot_compute_ms row + pf_exposed_load_ms row
     \<and> 0 \<le> exposed_h2d_ms row \<and> 0 \<le> exposed_allocation_ms row
     \<and> pf_hot_compute_ms row \<le> pf_critical_path_ms row"

lemma settle_balanced:
  assumes "pipelined \<longrightarrow> table_attributes table (rq_model_id r)" and "cost_ok cost"
    and "settle table r PrefixStall p pipelined cost = Inr s"
  shows "row_balanced (settled_row r hot cost s kind before after metrics)"
proof (cases pipelined)
  case False
  then show ?thesis
    using assms(2,3) by (auto simp: settle_def settled_row_def row_balanced_def cost_ok_def)
next
  case True
  obtain gbps al item grps where t: "table_ok table" "st_extrapolation table = Clamp"
      "st_h2d_gbps table = Some gbps" "0 < gbps" "st_segment_allocation_ms table = Some al" "0 \<le> al"
      "map_of (st_models table) (rq_model_id r) = Some item" "sm_groups item = Some grps" "grps \<noteq> []"
      "\<forall>g \<in> set grps. 0 \<le> sg_logical_bytes g" "\<forall>row \<in> set (sm_rows item). group_boundary_ms row \<noteq> None"
    using assms(1) True by (auto simp: table_attributes_def)
  obtain h a target where s: "s = (compaction_ms cost + (map_ms cost + unmap_ms cost) + target, h, a, Some target)"
    and look: "lookup_field table (rq_model_id r) (rq_input_tokens r) p PrefixStall = Inr target"
    and comp: "exposed_loading_components table (rq_model_id r) (rq_input_tokens r) p PrefixStall = Inr (h, a)"
    using assms(3) True by (auto simp: settle_def Let_def py_simps)
  have p: "int p \<le> sm_group_count item"
    using look t(7) by (auto simp: lookup_field_def py_simps Let_def split: if_splits)
  from exposed_components_split [OF t(1,7,2-6,8-11) p, of "rq_input_tokens r"]
  have "0 \<le> h" "0 \<le> a" "h + a = target" using look comp by (auto simp: lookup_def)
  then show ?thesis
    using assms(2) by (auto simp: s settled_row_def row_balanced_def cost_ok_def)
qed

section \<open>Executions return\<close>

lemma baseline_total:
  assumes "table_ok t" and "map_of (st_models t) m = Some item"
  shows "\<exists>v. baseline_ms t m x = Inr v"
proof -
  obtain pos where "interp_position (st_extrapolation t) (sm_tokens item) x = Inr pos"
    using lookup_pos [OF assms, of x] by blast
  then show ?thesis using assms(2) by (cases pos) (auto simp: baseline_ms_def interpolate_def)
qed

lemma settle_total:
  assumes "table_ok t" and "map_of (st_models t) (rq_model_id r) = Some item" and "int p \<le> sm_group_count item"
    and "pipelined \<longrightarrow> table_attributes t (rq_model_id r)"
  shows "\<exists>s. settle t r PrefixStall p pipelined cost = Inr s"
proof (cases pipelined)
  case True
  obtain gbps al grps where t: "st_extrapolation t = Clamp" "st_h2d_gbps t = Some gbps" "0 < gbps"
      "st_segment_allocation_ms t = Some al" "0 \<le> al" "sm_groups item = Some grps" "grps \<noteq> []"
      "\<forall>g \<in> set grps. 0 \<le> sg_logical_bytes g" "\<forall>row \<in> set (sm_rows item). group_boundary_ms row \<noteq> None"
    using assms(2,4) True by (auto simp: table_attributes_def)
  from exposed_components_split [OF assms(1,2) t assms(3), of "rq_input_tokens r"] True
  show ?thesis by (auto simp: settle_def Let_def lookup_def)
qed (simp add: settle_def)

lemma prepare_total_fold:
  "prepare_all ops m ts b = Inr (b', cs) \<Longrightarrow>
   r_foldl (\<lambda>(b, total) tensor.
     r_bind (op_prepare ops m tensor b) (\<lambda>(b', c). Inr (b', cost_add total c))) (b, c) ts
   = Inr (b', foldl cost_add c cs)"
  by (induction ts arbitrary: b c cs) (auto simp: py_simps)

context mem_backend
begin

lemma run_memory_ok:
  assumes ok: "ok b" and fits: "request_kv_bytes r args = Inr kv" "fits b kv (rq_model_id r) (tensors model)"
  shows "\<exists>b' cost. run_memory ops r model args b = Inr (b', cost) \<and> ok b' \<and> config b' = config b
     \<and> cost_ok cost \<and> used b' \<le> limit b'
     \<and> (\<forall>t \<in> set (tensors model). op_resident ops b' (rq_model_id r) t = Inr True)"
proof -
  let ?m = "rq_model_id r" and ?ts = "tensors model"
  obtain b1 c1 where 1: "op_begin ops kv ?m b = Inr (b1, c1)" "loadable b1 ?m ?ts" "config b1 = config b" "cost_ok c1"
    using begin_ok [OF ok fits(2)] by blast
  obtain b2 c2 where 2: "op_plan ops ?m ?ts b1 = Inr (b2, c2)" "loadable b2 ?m ?ts" "config b2 = config b1" "cost_ok c2"
    using plan_ok [OF 1(2)] by blast
  obtain b3 cs where 3: "prepare_all ops ?m ?ts b2 = Inr (b3, cs)" "loadable b3 ?m []" "config b3 = config b2"
      "\<forall>c \<in> set cs. cost_ok c" "\<forall>t \<in> set ?ts. op_resident ops b3 ?m t = Inr True"
    using prepare_all_ok [OF 2(2)] by blast
  obtain b4 where 4: "op_finish ops ?m b3 = Inr b4" "ok b4" "config b4 = config b3" "used b4 = used b3"
      "limit b4 = limit b3" "\<forall>t. op_resident ops b4 ?m t = op_resident ops b3 ?m t"
    using finish_ok [OF 3(2)] by blast
  have "cost_ok (foldl cost_add (cost_add c1 c2) cs)"
    using 1(4) 2(4) 3(4) by (intro cost_ok_foldl) auto
  moreover have "used b4 \<le> limit b4" using loadable_limit [OF 3(2)] 4 by simp
  moreover have "run_memory ops r model args b = Inr (b4, foldl cost_add (cost_add c1 c2) cs)"
    using 1(1) 2(1) 4(1) fits(1) prepare_total_fold [OF 3(1)] by (simp add: run_memory_def)
  ultimately show ?thesis using 1 2 3 4 by auto
qed

text \<open>
  A profiled prefix execution of a request that fits returns a balanced row, whenever the
  backend can report its prefix before and after.
\<close>

lemma profile_execute_ok:
  assumes "ok b" and "request_kv_bytes r args = Inr kv" "fits b kv (rq_model_id r) (tensors model)"
    and "replacement_policy args \<noteq> Lru"
    and "table_ok table" and "map_of (st_models table) (rq_model_id r) = Some item"
    and "pipelined \<longrightarrow> table_attributes table (rq_model_id r)"
    and "op_prefix_count ops b (rq_model_id r) = Inr p" and "int p \<le> sm_group_count item"
    and "\<And>b'. ok b' \<Longrightarrow> config b' = config b \<Longrightarrow> \<exists>q. op_prefix_count ops b' (rq_model_id r) = Inr q"
  shows "\<exists>b' row. execute_profile_request ops r model table args pipelined b = Inr (b', row)
     \<and> ok b' \<and> used b' \<le> limit b' \<and> row_balanced row \<and> residency_state_before row = p
     \<and> (\<forall>t \<in> set (tensors model). op_resident ops b' (rq_model_id r) t = Inr True)"
proof -
  obtain b' cost where run: "run_memory ops r model args b = Inr (b', cost)" "ok b'" "config b' = config b"
      "cost_ok cost" "used b' \<le> limit b'" "\<forall>t \<in> set (tensors model). op_resident ops b' (rq_model_id r) t = Inr True"
    using run_memory_ok [OF assms(1-3)] by blast
  obtain hot where hot: "baseline_ms table (rq_model_id r) (rq_input_tokens r) = Inr hot"
    using baseline_total [OF assms(5,6)] by blast
  obtain s where s: "settle table r PrefixStall p pipelined cost = Inr s"
    using settle_total [OF assms(5,6,9,7)] by blast
  obtain q where q: "op_prefix_count ops b' (rq_model_id r) = Inr q" using assms(10) run(2,3) by blast
  obtain x where x: "op_metrics ops b' = Inr x" using metrics_ok [OF run(2)] by blast
  have "row_balanced (settled_row r hot cost s PrefixStall p (Some q) x)"
    by (rule settle_balanced [OF assms(7) run(4) s])
  moreover have "residency_state_before (settled_row r hot cost s PrefixStall p (Some q) x) = p"
    by (cases s) (auto simp: settled_row_def)
  ultimately show ?thesis
    using run hot s q x assms(4,8)
    by (auto simp: execute_profile_request_def Let_def residency_state_def)
qed

end

end
