(* ===== verification/Tensor_Page.thy ===== *)
theory Tensor_Page
  imports Page_Prefix Profile_Execution
begin

text \<open>
  The tensor-page backend (\<open>TensorPageMemory\<close> of \<open>tensor_sim_page_backends.py\<close>): every group
  occupies whole pages of its own. The state adds the set of resident groups and the dict of
  prefix sizes to the base backend. The eviction loops terminate because every eviction
  removes a resident group.
\<close>

section \<open>State and operations\<close>

record page_mem = mem_base +
  resident :: "mem_key list"
  prefix_physical_bytes :: "(mem_key \<times> int) list"

definition prefix_sizes :: "int \<Rightarrow> int \<times> tensor_model \<Rightarrow> (mem_key \<times> int) list" where
  "prefix_sizes page = (\<lambda>(model_id, model).
     ((model_id, 0), 0) # snd (foldl (\<lambda>(total, d) g.
        let total' = total + ceil_div (tg_bytes g) page * page in
        (total', d @ [((model_id, group_id g + 1), total')])) (0, []) (groups model)))"

definition tp_init :: "(int \<times> tensor_model) list \<Rightarrow> int \<Rightarrow> int \<Rightarrow> sim_args \<Rightarrow> page_mem result" where
  "tp_init models capacity page args =
     (if page = 0 \<and> list_ex (\<lambda>(_, m). groups m \<noteq> []) models then Inl ZeroDivisionError
      else Inr (mem_base.extend (mem_init models capacity page args)
                  (page_mem.fields [] (dict_of (concat (map (prefix_sizes page) models))))))"

definition tp_pages :: "page_mem \<Rightarrow> tensor_group \<Rightarrow> int" where
  "tp_pages b g = ceil_div (tg_bytes g) (page_size b)"

definition tp_object_bytes :: "page_mem \<Rightarrow> mem_key \<Rightarrow> int result" where
  "tp_object_bytes b key = r_bind (group_at b key) (\<lambda>g. Inr (tp_pages b g * page_size b))"

definition tp_used_bytes :: "page_mem \<Rightarrow> int result" where
  "tp_used_bytes b = r_bind (r_map (tp_object_bytes b) (resident b)) (\<lambda>ns. Inr (sum_list ns))"

definition tp_evict_one :: "int \<Rightarrow> page_mem \<times> load_cost \<Rightarrow> (bool \<times> page_mem \<times> load_cost) result" where
  "tp_evict_one active_model = (\<lambda>(b, cost).
     r_bind (select_victim (\<lambda>_. 0) (tp_object_bytes b) b
               (filter (\<lambda>key. fst key \<noteq> active_model) (resident b))) (\<lambda>victim.
       case victim of
         None \<Rightarrow> Inr (False, b, cost)
       | Some key \<Rightarrow> r_bind (group_at b key) (\<lambda>g.
           Inr (True, b\<lparr> resident := remove1 key (resident b) \<rparr>,
                charge_unmap b 1 (tp_pages b g) cost))))"

lemma tp_evict_one_mem:
  "tp_evict_one active (b, cost) = Inr (True, b', cost') \<Longrightarrow>
   \<exists>key g. key \<in> set (resident b) \<and> fst key \<noteq> active \<and> group_at b key = Inr g
     \<and> b' = b\<lparr> resident := remove1 key (resident b) \<rparr> \<and> cost' = charge_unmap b 1 (tp_pages b g) cost"
  by (auto simp: tp_evict_one_def py_simps split: option.splits dest!: select_victim_mem) blast

text \<open>\<open>while used_bytes() + needed > weight_capacity_bytes: evict one or raise\<close>.\<close>

function tp_evict_until ::
  "py_error \<Rightarrow> int \<Rightarrow> int \<Rightarrow> page_mem \<times> load_cost \<Rightarrow> (page_mem \<times> load_cost) result" where
  "tp_evict_until err needed active_model (b, cost) =
     r_bind (tp_used_bytes b) (\<lambda>used.
       if used + needed > weight_capacity_bytes b
       then r_bind (tp_evict_one active_model (b, cost)) (\<lambda>r.
              case r of (True, b', cost') \<Rightarrow> tp_evict_until err needed active_model (b', cost')
                      | (False, _) \<Rightarrow> Inl err)
       else Inr (b, cost))"
  by pat_completeness auto
termination
proof (relation "measure (\<lambda>(_, _, _, b, _). length (resident b))", goal_cases)
  case (2 err needed active b cost used r ok s b' cost')
  then have "tp_evict_one active (b, cost) = Inr (True, b', cost')" by simp
  from tp_evict_one_mem [OF this] obtain key where
    "key \<in> set (resident b)" "b' = b\<lparr> resident := remove1 key (resident b) \<rparr>" by blast
  then show ?case by (simp add: length_remove1_less)
qed simp

declare tp_evict_until.simps [simp del]

definition tp_resident_group_ids :: "page_mem \<Rightarrow> int \<Rightarrow> nat list" where
  "tp_resident_group_ids b model_id = sort (map snd (filter (\<lambda>key. fst key = model_id) (resident b)))"

definition tp_prefix_count :: "page_mem \<Rightarrow> int \<Rightarrow> nat result" where
  "tp_prefix_count b model_id =
     (let ids = tp_resident_group_ids b model_id; prefix = length ids in
      if ids \<noteq> [0..<prefix] then Inl (RuntimeError ''MCKP prefix invariant failed'') else Inr prefix)"

definition tp_prefix_bytes :: "page_mem \<Rightarrow> int \<Rightarrow> nat \<Rightarrow> int result" where
  "tp_prefix_bytes b model_id prefix = dict_get (prefix_physical_bytes b) (model_id, prefix)"

definition tp_missing_bytes :: "page_mem \<Rightarrow> int \<Rightarrow> tensor_spec list \<Rightarrow> int result" where
  "tp_missing_bytes b model_id ts =
     r_bind (r_map (mem_group b model_id) ts) (\<lambda>gs.
       let missing = remdups (filter (\<lambda>i. (model_id, i) \<notin> set (resident b)) (map group_id gs)) in
       r_bind (r_map (\<lambda>i. tp_object_bytes b (model_id, i)) missing) (\<lambda>ns. Inr (sum_list ns)))"

definition tp_commit_prefix ::
  "int \<Rightarrow> nat \<Rightarrow> nat \<Rightarrow> page_mem \<times> load_cost \<Rightarrow> (page_mem \<times> load_cost) result" where
  "tp_commit_prefix model_id old_prefix new_prefix = (\<lambda>(b, cost).
     r_bind (r_foldl (\<lambda>(b, pages) i.
               if (model_id, i) \<notin> set (resident b) then Inl (RuntimeError ''missing resident tensor-page'')
               else r_bind (group_at b (model_id, i)) (\<lambda>g.
                 Inr (b\<lparr> resident := remove1 (model_id, i) (resident b) \<rparr>, pages + tp_pages b g)))
             (b, 0) [new_prefix..<old_prefix]) (\<lambda>(b', pages).
       Inr (b', charge_unmap b' (int (length [new_prefix..<old_prefix])) pages cost)))"

definition tp_reclaim :: "int \<Rightarrow> int \<Rightarrow> page_mem \<Rightarrow> (page_mem \<times> load_cost) result" where
  "tp_reclaim = prefix_reclaim tp_prefix_count tp_prefix_bytes tp_commit_prefix"

definition tp_trim_to_capacity :: "int \<Rightarrow> page_mem \<Rightarrow> (page_mem \<times> load_cost) result" where
  "tp_trim_to_capacity active_model b =
     (if mem_policy b = MckpPrefix
      then r_bind (tp_used_bytes b) (\<lambda>used.
             tp_reclaim active_model (max 0 (used - weight_capacity_bytes b)) b)
      else tp_evict_until (RuntimeError ''No evictable tensor-page allocation'') 0 active_model (b, no_cost))"

definition tp_begin_request :: "int \<Rightarrow> int \<Rightarrow> page_mem \<Rightarrow> (page_mem \<times> load_cost) result" where
  "tp_begin_request = mem_begin_request tp_trim_to_capacity"

definition tp_plan_request :: "int \<Rightarrow> tensor_spec list \<Rightarrow> page_mem \<Rightarrow> (page_mem \<times> load_cost) result" where
  "tp_plan_request = plan_request tp_used_bytes tp_missing_bytes tp_reclaim"

definition tp_tensor_resident :: "page_mem \<Rightarrow> int \<Rightarrow> tensor_spec \<Rightarrow> bool result" where
  "tp_tensor_resident b model_id tensor =
     r_bind (mem_group b model_id tensor) (\<lambda>g. Inr ((model_id, group_id g) \<in> set (resident b)))"

definition tp_prepare_tensor :: "int \<Rightarrow> tensor_spec \<Rightarrow> page_mem \<Rightarrow> (page_mem \<times> load_cost) result" where
  "tp_prepare_tensor model_id tensor b =
     r_bind (mem_group b model_id tensor) (\<lambda>g.
       let key = (model_id, group_id g) in
       if key \<in> set (resident b) then Inr (mem_touch key b, no_cost)
       else
         let pages = tp_pages b g; needed = pages * page_size b in
         r_bind (if mem_policy b = MckpPrefix
                 then r_bind (tp_used_bytes b) (\<lambda>used.
                        r_bind (tp_reclaim model_id (max 0 (used + needed - weight_capacity_bytes b)) b)
                          (\<lambda>(b', c). Inr (b', cost_add no_cost c)))
                 else Inr (b, no_cost)) (\<lambda>s.
         r_bind (tp_evict_until (RuntimeError ''Tensor-page pool cannot fit'') needed model_id s) (\<lambda>(b', cost).
         r_bind (py_div (of_int (tg_bytes g)) (h2d_bytes_per_ms (mb_args b'))) (\<lambda>h2d.
           Inr (mem_touch key (b'\<lparr> resident := resident b' @ [key] \<rparr>),
                cost\<lparr> h2d_bytes := tg_bytes g, h2d_ms := h2d, map_calls := pages, mapped_pages := pages,
                      map_ms := of_int pages * (map_fixed_ms (mb_args b') + map_per_page_ms (mb_args b')) \<rparr>)))))"

definition tp_physical_model_bytes :: "page_mem \<Rightarrow> int \<Rightarrow> int result" where
  "tp_physical_model_bytes b model_id =
     r_bind (dict_get (mb_models b) model_id) (\<lambda>model.
       Inr (sum_list (map (\<lambda>g. tp_pages b g * page_size b) (groups model))))"

definition tp_metrics :: "page_mem \<Rightarrow> mem_metrics result" where
  "tp_metrics b =
     r_bind (r_map (\<lambda>key. r_bind (group_at b key) (\<lambda>g. Inr (tg_bytes g))) (resident b)) (\<lambda>sizes.
     r_bind (tp_used_bytes b) (\<lambda>physical.
       let logical = sum_list sizes in
       Inr \<lparr> logical_resident_bytes = logical, physical_resident_bytes = physical,
             internal_fragmentation_bytes = physical - logical, external_fragmentation_ratio = 0,
             largest_free_extent_bytes = max 0 (weight_capacity_bytes b - physical),
             stranded_resident_bytes = 0, kv_resident_bytes = None \<rparr>))"

section \<open>The invariant\<close>

text \<open>
  Resident groups exist and are counted once, each was touched when it was loaded, no two at
  the same tick, and the prefix sizes are those of the models' groups.
\<close>

definition key_size :: "page_mem \<Rightarrow> mem_key \<Rightarrow> int" where
  "key_size b key = projr (tp_object_bytes b key)"

definition tp_used :: "page_mem \<Rightarrow> int" where
  "tp_used b = (\<Sum>key \<leftarrow> resident b. key_size b key)"

definition tp_model_used :: "page_mem \<Rightarrow> int \<Rightarrow> int" where
  "tp_model_used b m = (\<Sum>key \<leftarrow> filter (\<lambda>key. fst key = m) (resident b). key_size b key)"

definition tp_bytes_of :: "page_mem \<Rightarrow> int \<Rightarrow> nat \<Rightarrow> int" where
  "tp_bytes_of b m p = (\<Sum>i \<leftarrow> [0..<p]. key_size b (m, i))"

definition tp_inv :: "page_mem \<Rightarrow> bool" where
  "tp_inv b \<longleftrightarrow>
     models_wf (mb_models b) \<and> 0 < page_size b \<and> args_ok (mb_args b) \<and> distinct (resident b)
     \<and> (\<forall>key \<in> set (resident b). \<exists>g. group_at b key = Inr g)
     \<and> (\<forall>key \<in> set (resident b). \<exists>n \<le> clock b. last_access b key = Some n)
     \<and> inj_on (last_access b) (set (resident b))
     \<and> (\<forall>m p. p \<le> group_total b m \<and> m \<in> fst ` set (mb_models b) \<longrightarrow>
           map_of (prefix_physical_bytes b) (m, p) = Some (tp_bytes_of b m p))"

lemma key_size_upd [simp]:
  "key_size (b\<lparr> resident := R \<rparr>) = key_size b" "key_size (mem_touch k b) = key_size b"
  "key_size (b\<lparr> weight_capacity_bytes := c \<rparr>) = key_size b"
  "key_size (b\<lparr> last_mckp_plan := pl \<rparr>) = key_size b"
  by (auto simp: key_size_def tp_object_bytes_def tp_pages_def mem_touch_def group_at_def fun_eq_iff)

lemma tp_pages_upd [simp]: "tp_pages (b\<lparr> resident := R \<rparr>) = tp_pages b"
  by (simp add: tp_pages_def fun_eq_iff)

lemma bytes_of_upd [simp]:
  "tp_bytes_of (b\<lparr> resident := R \<rparr>) = tp_bytes_of b" "tp_bytes_of (mem_touch k b) = tp_bytes_of b"
  "tp_bytes_of (b\<lparr> weight_capacity_bytes := c \<rparr>) = tp_bytes_of b"
  "tp_bytes_of (b\<lparr> last_mckp_plan := pl \<rparr>) = tp_bytes_of b"
  by (auto simp: tp_bytes_of_def fun_eq_iff)

lemma group_at_upd [simp]:
  "group_at (b\<lparr> resident := R \<rparr>) = group_at b" "group_at (mem_touch k b') = group_at b'"
  "group_at (b'\<lparr> weight_capacity_bytes := c \<rparr>) = group_at b'"
  "group_at (b'\<lparr> last_mckp_plan := pl \<rparr>) = group_at b'"
  by (auto simp: group_at_def mem_touch_def fun_eq_iff)

lemma tp_object_size:
  assumes "group_at b key = Inr g"
  shows "tp_object_bytes b key = Inr (key_size b key)" and "key_size b key = tp_pages b g * page_size b"
  using assms by (simp_all add: tp_object_bytes_def key_size_def)

lemma key_size_nonneg:
  assumes "tp_inv b" and "group_at b key = Inr g"
  shows "0 \<le> key_size b key"
  using assms group_at_wf [of b key g]
  by (simp add: tp_object_size(2) tp_pages_def tp_inv_def ceil_div_nonneg)

lemma tp_resident_size:
  assumes "tp_inv b" and "key \<in> set (resident b)"
  shows "tp_object_bytes b key = Inr (key_size b key)" and "0 \<le> key_size b key"
proof -
  obtain g where "group_at b key = Inr g" using assms by (auto simp: tp_inv_def)
  then show "tp_object_bytes b key = Inr (key_size b key)" "0 \<le> key_size b key"
    using tp_object_size(1) key_size_nonneg [OF assms(1)] by blast+
qed

lemma tp_used_bytes_run: "tp_inv b \<Longrightarrow> tp_used_bytes b = Inr (tp_used b)"
proof -
  assume "tp_inv b"
  then have "tp_object_bytes b key = Inr (key_size b key)" if "key \<in> set (resident b)" for key
    using that by (rule tp_resident_size)
  then show ?thesis by (simp add: tp_used_bytes_def tp_used_def r_map_total)
qed

lemma tp_used_split: "tp_used b = tp_model_used b m + (\<Sum>key \<leftarrow> filter (\<lambda>key. fst key \<noteq> m) (resident b). key_size b key)"
  unfolding tp_used_def tp_model_used_def by (rule sum_list_filter_split)

lemma tp_model_used_le: "tp_inv b \<Longrightarrow> tp_model_used b m \<le> tp_used b"
proof -
  assume inv: "tp_inv b"
  have "0 \<le> key_size b key" if "key \<in> set (filter (\<lambda>key. fst key \<noteq> m) (resident b))" for key
    using that tp_resident_size(2) [OF inv] by simp
  then have "0 \<le> (\<Sum>key \<leftarrow> filter (\<lambda>key. fst key \<noteq> m) (resident b). key_size b key)"
    by (rule sum_list_nonneg_map)
  then show ?thesis using tp_used_split [of b m] by linarith
qed

lemma tp_inv_remove:
  assumes "tp_inv b"
  shows "tp_inv (b\<lparr> resident := remove1 key (resident b) \<rparr>)"
proof -
  have "set (remove1 key (resident b)) \<subseteq> set (resident b)" by (rule set_remove1_subset)
  then show ?thesis
    using assms unfolding tp_inv_def by (auto simp: group_total_def intro: inj_on_subset)
qed

section \<open>Eviction\<close>

text \<open>What an eviction loop on behalf of \<open>active\<close> may do.\<close>

definition tp_shrunk :: "page_mem \<Rightarrow> int \<Rightarrow> load_cost \<Rightarrow> page_mem \<Rightarrow> load_cost \<Rightarrow> bool" where
  "tp_shrunk b active cost b' cost' \<longleftrightarrow>
     tp_inv b' \<and> (\<exists>R. b' = b\<lparr> resident := R \<rparr>) \<and> set (resident b') \<subseteq> set (resident b)
     \<and> (\<forall>i. (active, i) \<in> set (resident b) \<longrightarrow> (active, i) \<in> set (resident b'))
     \<and> tp_model_used b' active = tp_model_used b active
     \<and> evicted_bytes cost' = evicted_bytes cost + (tp_used b - tp_used b')
     \<and> (cost_ok cost \<longrightarrow> cost_ok cost')"

lemma tp_shrunk_refl: "tp_inv b \<Longrightarrow> tp_shrunk b active cost b cost"
  by (auto simp: tp_shrunk_def intro: exI [of _ "resident b"])

lemma tp_shrunk_trans:
  "tp_shrunk b a c b1 c1 \<Longrightarrow> tp_shrunk b1 a c1 b2 c2 \<Longrightarrow> tp_shrunk b a c b2 c2"
  by (auto simp: tp_shrunk_def)

lemma tp_evict_one_shrunk:
  assumes "tp_inv b" and "tp_evict_one active (b, cost) = Inr (True, b', cost')"
  shows "tp_shrunk b active cost b' cost'"
proof -
  from tp_evict_one_mem [OF assms(2)] obtain key g where
    key: "key \<in> set (resident b)" "fst key \<noteq> active" "group_at b key = Inr g"
    and b': "b' = b\<lparr> resident := remove1 key (resident b) \<rparr>" "cost' = charge_unmap b 1 (tp_pages b g) cost"
    by blast
  have pages: "0 \<le> tp_pages b g"
    using assms(1) key(3) group_at_wf [of b key g] by (simp add: tp_pages_def tp_inv_def ceil_div_nonneg)
  have "tp_used b' = tp_used b - key_size b key"
    using key(1) by (simp add: tp_used_def b' sum_list_remove1)
  moreover have "tp_model_used b' active = tp_model_used b active"
    using key(2) by (simp add: tp_model_used_def b' filter_remove1 remove1_idem)
  moreover have "evicted_bytes cost' = evicted_bytes cost + key_size b key"
    by (simp add: b' charge_unmap_def tp_object_size(2) [OF key(3)])
  moreover have "cost_ok cost \<longrightarrow> cost_ok cost'"
    using pages assms(1) by (simp add: b' cost_ok_charge tp_inv_def)
  moreover have "tp_inv b'" using tp_inv_remove [OF assms(1)] by (simp add: b')
  moreover have "set (resident b') \<subseteq> set (resident b)" by (simp add: b' set_remove1_subset)
  moreover have "(active, i) \<in> set (resident b')" if "(active, i) \<in> set (resident b)" for i
    using key(2) that by (cases key) (auto simp: b' in_set_remove1)
  ultimately show ?thesis using b'(1) unfolding tp_shrunk_def by auto
qed

lemma tp_evict_one_total:
  assumes "tp_inv b"
  shows "(\<forall>key \<in> set (resident b). fst key = active) \<and> tp_evict_one active (b, cost) = Inr (False, b, cost)
     \<or> (\<exists>b' cost'. tp_evict_one active (b, cost) = Inr (True, b', cost'))"
proof (cases "filter (\<lambda>key. fst key \<noteq> active) (resident b) = []")
  case True
  then have "\<forall>key \<in> set (resident b). fst key = active" by (simp add: filter_empty_conv)
  then show ?thesis using True by (simp add: tp_evict_one_def select_victim_def)
next
  case False
  let ?keys = "filter (\<lambda>key. fst key \<noteq> active) (resident b)"
  obtain key where "key \<in> set ?keys" using False by (meson last_in_set)
  then obtain g where "group_at b key = Inr g" using assms by (auto simp: tp_inv_def)
  then have "mb_models b \<noteq> []" by (auto simp: group_at_def dict_get_def)
  moreover have "\<exists>n. tp_object_bytes b k = Inr n" if "k \<in> set ?keys" for k
    using that tp_resident_size(1) [OF assms] by auto
  ultimately obtain k where k: "select_victim (\<lambda>_. 0) (tp_object_bytes b) b ?keys = Inr (Some k)" "k \<in> set ?keys"
    using select_victim_total [OF False, of b "tp_object_bytes b"] by blast
  then obtain g' where "group_at b k = Inr g'" using assms by (auto simp: tp_inv_def)
  with k show ?thesis by (simp add: tp_evict_one_def)
qed

lemma tp_evict_until_cases:
  assumes "tp_inv b"
  shows "(\<exists>b' cost'. tp_evict_until err needed active (b, cost) = Inr (b', cost')
             \<and> tp_shrunk b active cost b' cost' \<and> tp_used b' + needed \<le> weight_capacity_bytes b'
             \<and> (tp_used b + needed \<le> weight_capacity_bytes b \<longrightarrow> b' = b \<and> cost' = cost))
     \<or> tp_evict_until err needed active (b, cost) = Inl err
         \<and> weight_capacity_bytes b < tp_model_used b active + needed"
  using assms
proof (induction "length (resident b)" arbitrary: b cost rule: less_induct)
  case less
  note used = tp_used_bytes_run [OF less.prems]
  show ?case
  proof (cases "tp_used b + needed > weight_capacity_bytes b")
    case False
    then show ?thesis
      using used less.prems tp_shrunk_refl by (auto simp: tp_evict_until.simps [of err needed active b])
  next
    case over: True
    consider (stuck) "\<forall>key \<in> set (resident b). fst key = active" "tp_evict_one active (b, cost) = Inr (False, b, cost)"
      | (evicted) b1 cost1 where "tp_evict_one active (b, cost) = Inr (True, b1, cost1)"
      using tp_evict_one_total [OF less.prems] by blast
    then show ?thesis
    proof cases
      case stuck
      have "filter (\<lambda>key. fst key = active) (resident b) = resident b" using stuck(1) by (simp add: filter_id_conv)
      then have "tp_model_used b active = tp_used b" by (simp add: tp_model_used_def tp_used_def)
      then show ?thesis using stuck(2) over used by (simp add: tp_evict_until.simps [of err needed active b])
    next
      case evicted
      have step: "tp_evict_until err needed active (b, cost) = tp_evict_until err needed active (b1, cost1)"
        using evicted over used by (simp add: tp_evict_until.simps [of err needed active b])
      have shr: "tp_shrunk b active cost b1 cost1" by (rule tp_evict_one_shrunk [OF less.prems evicted])
      have small: "length (resident b1) < length (resident b)"
        using tp_evict_one_mem [OF evicted] length_remove1_less by fastforce
      have eqs: "tp_inv b1" "weight_capacity_bytes b1 = weight_capacity_bytes b"
          "tp_model_used b1 active = tp_model_used b active"
        using shr by (auto simp: tp_shrunk_def)
      from less.hyps [OF small eqs(1), of cost1] show ?thesis
        unfolding step using shr tp_shrunk_trans eqs over by (metis linorder_not_le)
    qed
  qed
qed

section \<open>Prefix replacement on tensor pages\<close>

lemma tp_prefix_count_iff:
  assumes "distinct (resident b)"
  shows "tp_prefix_count b m = Inr p \<longleftrightarrow> {i. (m, i) \<in> set (resident b)} = {..<p}"
proof -
  let ?ids = "tp_resident_group_ids b m"
  have set: "set ?ids = {i. (m, i) \<in> set (resident b)}" by (force simp: tp_resident_group_ids_def)
  have "inj_on snd {k \<in> set (resident b). fst k = m}" by (auto simp: inj_on_def)
  then have ids: "sorted ?ids" "distinct ?ids"
    using assms by (simp_all add: tp_resident_group_ids_def distinct_map)
  have "?ids = [0..<p] \<longleftrightarrow> set ?ids = {..<p}"
  proof
    assume "?ids = [0..<p]"
    then show "set ?ids = {..<p}" by (simp add: atLeast0LessThan)
  next
    assume "set ?ids = {..<p}"
    then show "?ids = [0..<p]"
      using ids by (intro sorted_distinct_set_unique) (simp_all add: atLeast0LessThan)
  qed
  moreover have "tp_prefix_count b m = Inr p \<longleftrightarrow> ?ids = [0..<p]"
    by (auto simp: tp_prefix_count_def Let_def)
  ultimately show ?thesis using set by simp
qed

lemma tp_commit_fold:
  assumes "distinct (resident b)" and "distinct is"
    and "\<And>i. i \<in> set is \<Longrightarrow> (m, i) \<in> set (resident b) \<and> (\<exists>g. group_at b (m, i) = Inr g)"
  shows "r_foldl (\<lambda>(b, pages) i.
           if (m, i) \<notin> set (resident b) then Inl (RuntimeError ''missing resident tensor-page'')
           else r_bind (group_at b (m, i)) (\<lambda>g.
             Inr (b\<lparr> resident := remove1 (m, i) (resident b) \<rparr>, pages + tp_pages b g))) (b, n) is
     = Inr (b\<lparr> resident := filter (\<lambda>k. k \<notin> Pair m ` set is) (resident b) \<rparr>,
            n + (\<Sum>i \<leftarrow> is. tp_pages b (projr (group_at b (m, i)))))"
  using assms
proof (induction "is" arbitrary: b n)
  case (Cons i "is")
  obtain g where g: "group_at b (m, i) = Inr g" and mem: "(m, i) \<in> set (resident b)"
    using Cons.prems(3) [of i] by auto
  let ?b = "b\<lparr> resident := remove1 (m, i) (resident b) \<rparr>"
  have rem: "remove1 (m, i) (resident b) = filter (\<lambda>k. k \<noteq> (m, i)) (resident b)"
    using Cons.prems(1) by (simp add: distinct_remove1_removeAll removeAll_filter_not_eq eq_commute)
  have still: "(m, j) \<in> set (resident ?b) \<and> (\<exists>g. group_at ?b (m, j) = Inr g)" if "j \<in> set is" for j
    using Cons.prems(2,3) that by (auto simp: rem)
  show ?case
    using Cons.IH [of ?b "n + tp_pages b g", OF _ _ still] Cons.prems(1,2) g mem
    by (simp add: rem)
qed simp

lemma sum_upt_split: "new \<le> old \<Longrightarrow> (\<Sum>i \<leftarrow> [new..<old]. f i) = (\<Sum>i \<leftarrow> [0..<old]. f i) - (\<Sum>i \<leftarrow> [0..<new]. (f i :: int))"
  using upt_add_eq_append [of 0 new "old - new"] by simp

lemma tp_commit_run:
  assumes "tp_inv b" and "new \<le> old" and "\<And>i. new \<le> i \<Longrightarrow> i < old \<Longrightarrow> (m, i) \<in> set (resident b)"
  shows "\<exists>b' cost'. tp_commit_prefix m old new (b, cost) = Inr (b', cost')
     \<and> b' = b\<lparr> resident := filter (\<lambda>k. k \<notin> Pair m ` {new..<old}) (resident b) \<rparr> \<and> tp_inv b'
     \<and> evicted_bytes cost' = evicted_bytes cost + (tp_bytes_of b m old - tp_bytes_of b m new)
     \<and> tp_used b' = tp_used b - (tp_bytes_of b m old - tp_bytes_of b m new)
     \<and> (cost_ok cost \<longrightarrow> cost_ok cost')"
proof -
  let ?R = "filter (\<lambda>k. k \<notin> Pair m ` {new..<old}) (resident b)"
  let ?b = "b\<lparr> resident := ?R \<rparr>"
  let ?pg = "\<lambda>i. tp_pages b (projr (group_at b (m, i)))"
  have mem: "(m, i) \<in> set (resident b) \<and> (\<exists>g. group_at b (m, i) = Inr g)" if "i \<in> set [new..<old]" for i
    using assms(1,3) that by (auto simp: tp_inv_def)
  have pages: "?pg i * page_size b = key_size b (m, i)" "0 \<le> ?pg i" if i: "i \<in> set [new..<old]" for i
  proof -
    obtain g where g: "group_at b (m, i) = Inr g" using mem [OF i] by blast
    then show "?pg i * page_size b = key_size b (m, i)" by (simp add: tp_object_size(2))
    show "0 \<le> ?pg i" using g assms(1) group_at_wf [of b "(m, i)" g]
      by (simp add: tp_pages_def tp_inv_def ceil_div_nonneg)
  qed
  have dist: "distinct (resident b)" using assms(1) by (simp add: tp_inv_def)
  have freed: "(\<Sum>i \<leftarrow> [new..<old]. ?pg i) * page_size b = tp_bytes_of b m old - tp_bytes_of b m new"
  proof -
    have "(\<Sum>i \<leftarrow> [new..<old]. ?pg i) * page_size b = (\<Sum>i \<leftarrow> [new..<old]. key_size b (m, i))"
      by (subst sum_list_mult_const [symmetric], rule arg_cong [of _ _ sum_list], rule map_cong [OF refl])
         (rule pages(1))
    then show ?thesis
      using sum_upt_split [OF assms(2), of "\<lambda>i. key_size b (m, i)"] by (simp add: tp_bytes_of_def)
  qed
  define cost' where "cost' = charge_unmap ?b (int (length [new..<old])) (\<Sum>i \<leftarrow> [new..<old]. ?pg i) cost"
  have run: "tp_commit_prefix m old new (b, cost) = Inr (?b, cost')"
    using tp_commit_fold [OF dist distinct_upt [of new old] mem, of 0]
    by (simp add: tp_commit_prefix_def cost'_def)
  have "set ?R \<subseteq> set (resident b)" by auto
  then have inv: "tp_inv ?b"
    using assms(1) unfolding tp_inv_def by (auto simp: group_total_def intro: inj_on_subset)
  have "(\<Sum>k \<leftarrow> filter (\<lambda>k. \<not> k \<notin> Pair m ` {new..<old}) (resident b). key_size b k)
      = (\<Sum>i \<leftarrow> [new..<old]. key_size b (m, i))"
  proof -
    have "set (filter (\<lambda>k. \<not> k \<notin> Pair m ` {new..<old}) (resident b)) = Pair m ` set [new..<old]"
      using mem by auto
    then show ?thesis
      using dist by (simp add: sum_list_distinct_conv_sum_set sum.reindex inj_on_def)
  qed
  then have used: "tp_used ?b = tp_used b - (tp_bytes_of b m old - tp_bytes_of b m new)"
    using sum_list_filter_split [of "key_size b" "resident b" "\<lambda>k. k \<notin> Pair m ` {new..<old}"]
      sum_upt_split [OF assms(2), of "\<lambda>i. key_size b (m, i)"]
    by (simp add: tp_used_def tp_bytes_of_def)
  have "0 \<le> (\<Sum>i \<leftarrow> [new..<old]. ?pg i)" by (rule sum_list_nonneg_map) (rule pages(2))
  then have "cost_ok cost \<longrightarrow> cost_ok cost'"
    using inv unfolding cost'_def by (auto intro!: cost_ok_charge simp: tp_inv_def)
  moreover have "evicted_bytes cost' = evicted_bytes cost + (tp_bytes_of b m old - tp_bytes_of b m new)"
    using freed by (simp add: cost'_def charge_unmap_def)
  ultimately show ?thesis using run inv used by blast
qed

definition tp_content :: "page_mem \<Rightarrow> int \<Rightarrow> nat set" where
  "tp_content b m = {i. (m, i) \<in> set (resident b)}"

definition tp_prefix_inv :: "page_mem \<Rightarrow> bool" where
  "tp_prefix_inv b \<longleftrightarrow> tp_inv b \<and>
     (\<forall>m \<in> fst ` set (mb_models b). \<exists>p \<le> group_total b m. tp_content b m = {..<p})"

lemma tp_count_content: "tp_inv b \<Longrightarrow> tp_prefix_count b m = Inr p \<longleftrightarrow> tp_content b m = {..<p}"
  by (simp add: tp_prefix_count_iff tp_content_def tp_inv_def)

lemma tp_count_cong:
  assumes "tp_inv b" and "tp_inv b'" and "tp_content b' m = tp_content b m"
    and "m \<in> fst ` set (mb_models b)" and "tp_prefix_inv b"
  shows "tp_prefix_count b' m = tp_prefix_count b m"
  using assms tp_count_content [OF assms(1)] tp_count_content [OF assms(2)]
  by (metis tp_prefix_inv_def)

lemma tp_group_total_group:
  assumes "m \<in> fst ` set (mb_models b)" and "i < group_total b m"
  shows "\<exists>g. group_at b (m, i) = Inr g"
proof -
  obtain model where "map_of (mb_models b) m = Some model" using map_of_mem [OF assms(1)] by blast
  with assms(2) show ?thesis by (simp add: group_total_def group_at_def)
qed

lemma tp_bytes_of_mono:
  assumes "tp_inv b" and "m \<in> fst ` set (mb_models b)" and "q \<le> group_total b m" and "p \<le> q"
  shows "tp_bytes_of b m p \<le> tp_bytes_of b m q"
proof -
  have "0 \<le> key_size b (m, i)" if "i \<in> set [p..<q]" for i
    using that assms(3) tp_group_total_group [OF assms(2), of i] key_size_nonneg [OF assms(1)] by force
  then have "0 \<le> (\<Sum>i \<leftarrow> [p..<q]. key_size b (m, i))" by (rule sum_list_nonneg_map)
  then show ?thesis using sum_upt_split [OF assms(4), of "\<lambda>i. key_size b (m, i)"] by (simp add: tp_bytes_of_def)
qed

lemma tp_commit_contract:
  assumes "tp_prefix_inv b" and "m \<in> fst ` set (mb_models b)" and "tp_prefix_count b m = Inr old" and "new < old"
  shows "\<exists>b' cost'. tp_commit_prefix m old new (b, cost) = Inr (b', cost') \<and> tp_prefix_inv b'
        \<and> mem_base.truncate b' = mem_base.truncate b \<and> tp_bytes_of b' = tp_bytes_of b
        \<and> tp_prefix_count b' m = Inr new
        \<and> (\<forall>m'. m' \<noteq> m \<longrightarrow> tp_prefix_count b' m' = tp_prefix_count b m' \<and> tp_content b' m' = tp_content b m')
        \<and> tp_content b' m \<subseteq> tp_content b m
        \<and> evicted_bytes cost' = evicted_bytes cost + (tp_bytes_of b m old - tp_bytes_of b m new)
        \<and> tp_used b' = tp_used b - (tp_bytes_of b m old - tp_bytes_of b m new)
        \<and> (cost_ok cost \<longrightarrow> cost_ok cost')"
proof -
  have inv: "tp_inv b" using assms(1) by (simp add: tp_prefix_inv_def)
  have old: "tp_content b m = {..<old}" using assms(3) tp_count_content [OF inv] by simp
  have "(m, i) \<in> set (resident b)" if "i < old" for i using old that by (auto simp: tp_content_def)
  then obtain b' cost' where run: "tp_commit_prefix m old new (b, cost) = Inr (b', cost')"
    and b': "b' = b\<lparr> resident := filter (\<lambda>k. k \<notin> Pair m ` {new..<old}) (resident b) \<rparr>" "tp_inv b'"
    and rest: "evicted_bytes cost' = evicted_bytes cost + (tp_bytes_of b m old - tp_bytes_of b m new)"
       "tp_used b' = tp_used b - (tp_bytes_of b m old - tp_bytes_of b m new)" "cost_ok cost \<longrightarrow> cost_ok cost'"
    using tp_commit_run [OF inv, of new old m cost] assms(4) by auto
  have content: "tp_content b' m' = (if m' = m then {..<new} else tp_content b m')" for m'
  proof -
    have mem: "i \<in> tp_content b' m' \<longleftrightarrow> i \<in> tp_content b m' \<and> \<not> (m' = m \<and> new \<le> i \<and> i < old)" for i
      by (auto simp: tp_content_def b'(1))
    show ?thesis
    proof (cases "m' = m")
      case True
      have "i \<in> tp_content b' m \<longleftrightarrow> i < new" for i using mem [of i] assms(4) by (auto simp: True old)
      then show ?thesis using True by auto
    qed (use mem in auto)
  qed
  have same: "tp_prefix_count b' m' = tp_prefix_count b m'" if "m' \<noteq> m" for m'
  proof -
    have "filter (\<lambda>key. fst key = m') (resident b') = filter (\<lambda>key. fst key = m') (resident b)"
      unfolding b'(1) by simp (rule filter_cong [OF refl], use that in auto)
    then show ?thesis by (simp add: tp_prefix_count_def tp_resident_group_ids_def)
  qed
  have bound: "new \<le> group_total b m"
  proof -
    obtain p where "p \<le> group_total b m" "{..<old} = {..<p}"
      using assms(1,2) old by (auto simp: tp_prefix_inv_def)
    then show ?thesis using assms(4) by simp
  qed
  have "\<exists>p \<le> group_total b' m'. tp_content b' m' = {..<p}" if "m' \<in> fst ` set (mb_models b')" for m'
    using assms(1) that bound content [of m'] by (auto simp: b'(1) tp_prefix_inv_def group_total_def)
  then have "tp_prefix_inv b'" using b'(2) by (simp add: tp_prefix_inv_def)
  moreover have "tp_prefix_count b' m = Inr new" using tp_count_content [OF b'(2)] content by simp
  moreover have "mem_base.truncate b' = mem_base.truncate b" "tp_bytes_of b' = tp_bytes_of b"
    by (simp_all add: b'(1) mem_base.truncate_def)
  moreover have "tp_content b' m \<subseteq> tp_content b m" using content [of m] old assms(4) by auto
  ultimately show ?thesis using run rest same content by auto
qed

interpretation tp: page_prefix tp_prefix_inv tp_prefix_count tp_prefix_bytes tp_commit_prefix
  tp_content tp_bytes_of tp_used
proof unfold_locales
  fix b :: page_mem and m :: int and p q :: nat
  assume inv: "tp_prefix_inv b"
  then show "distinct (map fst (mb_models b))" by (simp add: tp_prefix_inv_def tp_inv_def models_wf_def)
  assume m: "m \<in> fst ` set (mb_models b)"
  show "\<exists>p \<le> group_total b m. tp_prefix_count b m = Inr p"
    using inv m tp_count_content by (auto simp: tp_prefix_inv_def)
  show "p \<le> group_total b m \<Longrightarrow> tp_prefix_bytes b m p = Inr (tp_bytes_of b m p)"
    using inv m by (simp add: tp_prefix_inv_def tp_inv_def tp_prefix_bytes_def)
  show "q \<le> group_total b m \<Longrightarrow> p \<le> q \<Longrightarrow> tp_bytes_of b m p \<le> tp_bytes_of b m q"
    using inv m by (simp add: tp_prefix_inv_def tp_bytes_of_mono)
  show "tp_bytes_of b m 0 = 0" by (simp add: tp_bytes_of_def)
next
  fix b :: page_mem and x
  show "tp_prefix_inv (b\<lparr> last_mckp_plan := x \<rparr>) = tp_prefix_inv b"
    "tp_prefix_count (b\<lparr> last_mckp_plan := x \<rparr>) = tp_prefix_count b"
    "tp_content (b\<lparr> last_mckp_plan := x \<rparr>) = tp_content b" "tp_used (b\<lparr> last_mckp_plan := x \<rparr>) = tp_used b"
    by (auto simp: tp_prefix_inv_def tp_inv_def tp_content_def tp_used_def group_total_def
        tp_prefix_count_def tp_resident_group_ids_def fun_eq_iff)
qed (rule tp_commit_contract)

section \<open>The backend as a whole\<close>

definition tp_ops :: "page_mem backend_ops" where
  "tp_ops = \<lparr> op_begin = tp_begin_request, op_plan = tp_plan_request, op_prepare = tp_prepare_tensor,
     op_finish = mem_finish_request, op_resident = tp_tensor_resident,
     op_physical_bytes = tp_physical_model_bytes,
     op_resident_bytes = resident_model_bytes tp_prefix_count tp_prefix_bytes,
     op_prefix_count = tp_prefix_count, op_suffix_start = (\<lambda>_ _. Inl AttributeError),
     op_metrics = tp_metrics \<rparr>"

text \<open>
  The invariant between requests. Under prefix replacement the resident groups of every model
  are a prefix and a stall table that covers the models is set.
\<close>

definition tp_ok :: "page_mem \<Rightarrow> bool" where
  "tp_ok b \<longleftrightarrow> tp_inv b \<and> (\<forall>m \<in> fst ` set (mb_models b). \<exists>n. model_accesses b m = Some n)
     \<and> (mem_policy b = MckpPrefix \<longrightarrow>
          tp_prefix_inv b \<and> (\<exists>t. prefix_stall_table b = Some t \<and> table_covers t b))"

definition tp_model_total :: "page_mem \<Rightarrow> int \<Rightarrow> int" where
  "tp_model_total b m = tp_bytes_of b m (group_total b m)"

definition tp_group_id :: "page_mem \<Rightarrow> int \<Rightarrow> tensor_spec \<Rightarrow> nat" where
  "tp_group_id b m t = group_id (projr (mem_group b m t))"

definition model_tensors :: "'x mem_base_scheme \<Rightarrow> int \<Rightarrow> tensor_spec set" where
  "model_tensors b m = (case map_of (mb_models b) m of None \<Rightarrow> {} | Some model \<Rightarrow> set (tensors model))"

definition tp_fits :: "page_mem \<Rightarrow> int \<Rightarrow> int \<Rightarrow> tensor_spec list \<Rightarrow> bool" where
  "tp_fits b kv m ts \<longleftrightarrow> m \<in> fst ` set (mb_models b) \<and> set ts \<subseteq> model_tensors b m
     \<and> tp_model_total b m + kv \<le> capacity_bytes b
     \<and> (mem_policy b = MckpPrefix \<longrightarrow> in_order 0 (map (tp_group_id b m) ts))"

definition tp_loadable :: "page_mem \<Rightarrow> int \<Rightarrow> tensor_spec list \<Rightarrow> bool" where
  "tp_loadable b m ts \<longleftrightarrow> tp_ok b \<and> m \<in> fst ` set (mb_models b) \<and> set ts \<subseteq> model_tensors b m
     \<and> tp_model_total b m \<le> weight_capacity_bytes b \<and> tp_used b \<le> weight_capacity_bytes b
     \<and> (mem_policy b = MckpPrefix \<longrightarrow> in_order (card (tp_content b m)) (map (tp_group_id b m) ts))"

text \<open>The configuration, which no operation changes.\<close>

definition tp_setup :: "page_mem \<Rightarrow> (int \<times> tensor_model) list \<times> int \<times> int \<times> sim_args \<times> stall_table option" where
  "tp_setup b = (mb_models b, capacity_bytes b, page_size b, mb_args b, prefix_stall_table b)"

definition tp_config :: "page_mem \<Rightarrow> page_mem \<Rightarrow> bool" where
  "tp_config b b' \<longleftrightarrow> mb_models b' = mb_models b \<and> capacity_bytes b' = capacity_bytes b
     \<and> page_size b' = page_size b \<and> mb_args b' = mb_args b \<and> prefix_stall_table b' = prefix_stall_table b
     \<and> dom (model_accesses b') = dom (model_accesses b)"

lemma tp_setup_eqs:
  assumes "tp_setup b' = tp_setup b"
  shows "key_size b' = key_size b" "tp_bytes_of b' = tp_bytes_of b" "group_total b' = group_total b"
    "tp_model_total b' = tp_model_total b" "tp_group_id b' = tp_group_id b"
    "model_tensors b' = model_tensors b" "group_at b' = group_at b" "tp_fits b' = tp_fits b"
    "table_covers t b' = table_covers t b" "mem_group b' = mem_group b" "tp_setup b' = tp_setup b"
proof -
  show ga: "group_at b' = group_at b" using assms by (auto simp: tp_setup_def group_at_def fun_eq_iff)
  show ks: "key_size b' = key_size b"
    using assms ga by (auto simp: tp_setup_def key_size_def tp_object_bytes_def tp_pages_def fun_eq_iff)
  show bo: "tp_bytes_of b' = tp_bytes_of b" using ks by (simp add: tp_bytes_of_def fun_eq_iff)
  show gt: "group_total b' = group_total b" using assms by (simp add: tp_setup_def group_total_def fun_eq_iff)
  show mt: "tp_model_total b' = tp_model_total b" using bo gt by (simp add: tp_model_total_def fun_eq_iff)
  show mg: "mem_group b' = mem_group b" using assms ga by (simp add: tp_setup_def mem_group_def fun_eq_iff)
  show gi: "tp_group_id b' = tp_group_id b" using mg by (simp add: tp_group_id_def fun_eq_iff)
  show ts: "model_tensors b' = model_tensors b" using assms by (simp add: tp_setup_def model_tensors_def fun_eq_iff)
  show "tp_fits b' = tp_fits b" using assms unfolding tp_fits_def [abs_def] tp_setup_def mt gi ts by simp
  show "tp_setup b' = tp_setup b" by (rule assms)
  show "table_covers t b' = table_covers t b" using assms gt by (simp add: tp_setup_def table_covers_def)
qed

lemma tp_config_setup: "tp_config b b' \<Longrightarrow> tp_setup b' = tp_setup b"
  by (simp add: tp_config_def tp_setup_def)

lemmas tp_config_eqs = tp_setup_eqs [OF tp_config_setup]

lemma tp_config_trans: "tp_config b b' \<Longrightarrow> tp_config b' b'' \<Longrightarrow> tp_config b b''"
  by (simp add: tp_config_def)

lemma tp_config_simps [simp]:
  "tp_config b b" "tp_config b (b\<lparr> resident := R \<rparr>)" "tp_config b (mem_touch k b)"
  "tp_config b (b\<lparr> weight_capacity_bytes := c \<rparr>)"
  by (simp_all add: tp_config_def mem_touch_def)

section \<open>How much of the pool a model holds\<close>

lemma tp_content_total: "tp_inv b \<Longrightarrow> m \<in> fst ` set (mb_models b) \<Longrightarrow> tp_content b m \<subseteq> {..<group_total b m}"
  by (auto simp: tp_content_def tp_inv_def group_at_def group_total_def py_simps split: if_splits option.splits)

lemma tp_model_used_content:
  assumes "tp_inv b"
  shows "tp_model_used b m = (\<Sum>i \<in> tp_content b m. key_size b (m, i))"
proof -
  have "set (filter (\<lambda>key. fst key = m) (resident b)) = Pair m ` tp_content b m"
    by (auto simp: tp_content_def)
  then show ?thesis
    using assms by (simp add: tp_model_used_def tp_inv_def sum_list_distinct_conv_sum_set sum.reindex inj_on_def)
qed

lemma tp_model_total_sum: "tp_model_total b m = (\<Sum>i < group_total b m. key_size b (m, i))"
  by (simp add: tp_model_total_def tp_bytes_of_def sum_list_distinct_conv_sum_set atLeast0LessThan)

lemma tp_model_used_bound:
  assumes "tp_inv b" and "m \<in> fst ` set (mb_models b)"
  shows "tp_model_used b m \<le> tp_model_total b m"
    and "i < group_total b m \<Longrightarrow> i \<notin> tp_content b m \<Longrightarrow> tp_model_used b m + key_size b (m, i) \<le> tp_model_total b m"
proof -
  have sub: "tp_content b m \<subseteq> {..<group_total b m}" by (rule tp_content_total [OF assms])
  have fin: "finite (tp_content b m)" using sub finite_subset by blast
  have nonneg: "0 \<le> key_size b (m, j)" if "j \<in> {..<group_total b m}" for j
    using that tp_group_total_group [OF assms(2)] key_size_nonneg [OF assms(1)] by blast
  show "tp_model_used b m \<le> tp_model_total b m"
    unfolding tp_model_used_content [OF assms(1)] tp_model_total_sum
    by (rule sum_mono2) (use sub nonneg in auto)
  assume i: "i < group_total b m" "i \<notin> tp_content b m"
  have "(\<Sum>j \<in> insert i (tp_content b m). key_size b (m, j)) \<le> tp_model_total b m"
    unfolding tp_model_total_sum by (rule sum_mono2) (use sub nonneg i in auto)
  then show "tp_model_used b m + key_size b (m, i) \<le> tp_model_total b m"
    using i fin by (simp add: tp_model_used_content [OF assms(1)])
qed

lemma sum_by_key:
  assumes "distinct ks" and "\<forall>x \<in> set xs. fst x \<in> set ks"
  shows "sum_list (map f xs) = (\<Sum>k \<leftarrow> ks. sum_list (map f (filter (\<lambda>x. fst x = k) xs)) :: int)"
  using assms(2)
proof (induction xs)
  case (Cons x xs)
  let ?S = "\<lambda>k. sum_list (map f (filter (\<lambda>x. fst x = k) xs))"
  have "(\<Sum>k \<leftarrow> ks. sum_list (map f (filter (\<lambda>x. fst x = k) (x # xs))))
      = (\<Sum>k \<leftarrow> ks. (if k = fst x then f x else 0) + ?S k)"
    by (rule arg_cong [of _ _ sum_list], rule map_cong) auto
  also have "\<dots> = (\<Sum>k \<leftarrow> ks. if k = fst x then f x else 0) + (\<Sum>k \<leftarrow> ks. ?S k)" by (rule sum_list_addf)
  also have "(\<Sum>k \<leftarrow> ks. if k = fst x then f x else 0) = f x"
    using Cons.prems assms(1) by (simp add: sum_list_distinct_conv_sum_set)
  finally show ?case using Cons by simp
qed simp

text \<open>Under prefix replacement, what the inactive models hold is what the planner may free.\<close>

lemma tp_inactive_bytes:
  assumes "tp_prefix_inv b"
  shows "tp.inactive_bytes b active = tp_used b - tp_model_used b active"
proof -
  have inv: "tp_inv b" using assms by (simp add: tp_prefix_inv_def)
  let ?ks = "filter (\<lambda>m. m \<noteq> active) (map fst (mb_models b))"
  let ?R = "filter (\<lambda>key. fst key \<noteq> active) (resident b)"
  have dist: "distinct ?ks" using inv by (simp add: tp_inv_def models_wf_def)
  have "fst key \<in> fst ` set (mb_models b)" if mem: "key \<in> set (resident b)" for key
  proof -
    obtain g where "group_at b key = Inr g" using inv mem by (auto simp: tp_inv_def)
    then obtain model where "map_of (mb_models b) (fst key) = Some model" by (auto simp: group_at_def py_simps)
    then show ?thesis by (metis fst_conv image_eqI map_of_SomeD)
  qed
  then have "\<forall>key \<in> set ?R. fst key \<in> set ?ks" by auto
  from sum_by_key [OF dist this, of "key_size b"]
  have "sum_list (map (key_size b) ?R) = (\<Sum>m \<leftarrow> ?ks. sum_list (map (key_size b) (filter (\<lambda>x. fst x = m) ?R)))" .
  also have "\<dots> = (\<Sum>m \<leftarrow> ?ks. tp_bytes_of b m (projr (tp_prefix_count b m)))"
  proof (rule arg_cong [of _ _ sum_list], rule map_cong [OF refl])
    fix m assume m: "m \<in> set ?ks"
    then obtain p where p: "tp_content b m = {..<p}" using assms by (auto simp: tp_prefix_inv_def)
    then have "tp_prefix_count b m = Inr p" using tp_count_content [OF inv] by simp
    moreover have "filter (\<lambda>x. fst x = m) ?R = filter (\<lambda>x. fst x = m) (resident b)"
      using m by (auto intro: filter_cong)
    ultimately show "sum_list (map (key_size b) (filter (\<lambda>x. fst x = m) ?R)) = tp_bytes_of b m (projr (tp_prefix_count b m))"
      using tp_model_used_content [OF inv, of m] p
      by (simp add: tp_model_used_def tp_bytes_of_def sum_list_distinct_conv_sum_set atLeast0LessThan)
  qed
  finally show ?thesis using tp_used_split [of b active] by (simp add: tp.inactive_bytes_def)
qed

section \<open>Reclaiming and evicting keep the backend sound\<close>

text \<open>The effect of making room on behalf of model \<open>m\<close>.\<close>

definition tp_made_room :: "page_mem \<Rightarrow> int \<Rightarrow> int \<Rightarrow> page_mem \<Rightarrow> load_cost \<Rightarrow> bool" where
  "tp_made_room b m needed b' c \<longleftrightarrow> tp_ok b' \<and> tp_config b b' \<and> tp_content b' m = tp_content b m
     \<and> weight_capacity_bytes b' = weight_capacity_bytes b \<and> last_access b' = last_access b \<and> clock b' = clock b
     \<and> (\<forall>m'. tp_content b' m' \<subseteq> tp_content b m')
     \<and> tp_used b' = tp_used b - evicted_bytes c \<and> tp_used b' + needed \<le> weight_capacity_bytes b' \<and> cost_ok c"

lemma truncate_plan_sel:
  assumes "mem_base.truncate b' = (mem_base.truncate b)\<lparr> last_mckp_plan := plan \<rparr>"
  shows "mb_models b' = mb_models b" "capacity_bytes b' = capacity_bytes b" "page_size b' = page_size b"
    "mb_args b' = mb_args b" "prefix_stall_table b' = prefix_stall_table b"
    "model_accesses b' = model_accesses b" "weight_capacity_bytes b' = weight_capacity_bytes b"
    "last_access b' = last_access b" "clock b' = clock b"
  using assms by (simp_all add: mem_base.truncate_def)

lemma tp_reclaim_room:
  assumes ok: "tp_ok b" and policy: "mem_policy b = MckpPrefix"
    and fit: "tp_model_used b m + needed \<le> weight_capacity_bytes b"
  shows "\<exists>b' c. tp_reclaim m (max 0 (tp_used b + needed - weight_capacity_bytes b)) b = Inr (b', c)
     \<and> tp_made_room b m needed b' c"
proof -
  have inv: "tp_prefix_inv b" using ok policy by (simp add: tp_ok_def)
  obtain t where t: "prefix_stall_table b = Some t" "table_covers t b" using ok policy by (auto simp: tp_ok_def)
  let ?req = "max 0 (tp_used b + needed - weight_capacity_bytes b)"
  have "tp_inv b" using inv by (simp add: tp_prefix_inv_def)
  then have "?req \<le> tp.inactive_bytes b m"
    using fit tp_inactive_bytes [OF inv] tp_model_used_le by auto
  from tp.mckp_reclaim_ok [OF inv t this] obtain b' c where
    run: "mckp_reclaim tp_prefix_count tp_prefix_bytes tp_commit_prefix m ?req b = Inr (b', c)"
    and rec: "tp.reclaimed b m ?req b' c" by blast
  obtain plan where trunc: "mem_base.truncate b' = (mem_base.truncate b)\<lparr> last_mckp_plan := plan \<rparr>"
    and rest: "tp_prefix_inv b'" "\<forall>m. tp_content b' m \<subseteq> tp_content b m" "tp_content b' m = tp_content b m"
      "tp_used b' = tp_used b - evicted_bytes c" "?req \<le> evicted_bytes c" "cost_ok c"
    using rec by (auto simp: tp.reclaimed_def)
  note sel = truncate_plan_sel [OF trunc]
  have "tp_config b b'" using sel by (simp add: tp_config_def)
  then have "tp_ok b'"
    using ok rest(1) sel t tp_config_eqs(9) by (simp add: tp_ok_def tp_prefix_inv_def)
  with \<open>tp_config b b'\<close> sel rest run policy show ?thesis
    by (auto simp: tp_made_room_def tp_reclaim_def prefix_reclaim_def)
qed

lemma tp_evict_room:
  assumes ok: "tp_ok b" and policy: "mem_policy b \<noteq> MckpPrefix"
    and fit: "tp_model_used b m + needed \<le> weight_capacity_bytes b"
  shows "\<exists>b' c. tp_evict_until err needed m (b, no_cost) = Inr (b', c) \<and> tp_made_room b m needed b' c"
proof -
  have inv: "tp_inv b" using ok by (simp add: tp_ok_def)
  from tp_evict_until_cases [OF inv, of err needed m no_cost] fit obtain b' c where
    run: "tp_evict_until err needed m (b, no_cost) = Inr (b', c)" and shr: "tp_shrunk b m no_cost b' c"
    and cap: "tp_used b' + needed \<le> weight_capacity_bytes b'" by auto
  obtain R where R: "b' = b\<lparr> resident := R \<rparr>" using shr by (auto simp: tp_shrunk_def)
  have "tp_ok b'" using ok policy shr R by (auto simp: tp_ok_def tp_shrunk_def)
  moreover have "tp_content b' m = tp_content b m" "\<forall>m'. tp_content b' m' \<subseteq> tp_content b m'"
    using shr by (auto simp: tp_shrunk_def tp_content_def)
  moreover have "tp_used b' = tp_used b - evicted_bytes c" "cost_ok c" using shr by (auto simp: tp_shrunk_def)
  ultimately show ?thesis using run cap R by (auto simp: tp_made_room_def)
qed

section \<open>The operations of a request\<close>

lemma tp_begin_ok:
  assumes ok: "tp_ok b" and fits: "tp_fits b kv m ts"
  shows "\<exists>b' c. tp_begin_request kv m b = Inr (b', c) \<and> tp_loadable b' m ts \<and> tp_setup b' = tp_setup b \<and> cost_ok c"
proof -
  let ?b = "b\<lparr> weight_capacity_bytes := max 0 (capacity_bytes b - kv) \<rparr>"
  have cfg: "tp_config b ?b" by simp
  have inv: "tp_inv ?b" using ok by (auto simp: tp_ok_def tp_inv_def group_total_def)
  have ok': "tp_ok ?b"
    using ok inv by (auto simp: tp_ok_def tp_prefix_inv_def tp_content_def group_total_def table_covers_def)
  have m: "m \<in> fst ` set (mb_models ?b)" and total: "tp_model_total ?b m \<le> weight_capacity_bytes ?b"
    using fits tp_config_eqs(4) [OF cfg] by (auto simp: tp_fits_def)
  have fit: "tp_model_used ?b m + 0 \<le> weight_capacity_bytes ?b"
    using tp_model_used_bound(1) [OF inv m] total by simp
  have "\<exists>b' c. tp_trim_to_capacity m ?b = Inr (b', c) \<and> tp_made_room ?b m 0 b' c"
  proof (cases "mem_policy ?b = MckpPrefix")
    case True
    then show ?thesis
      using tp_reclaim_room [OF ok' True fit] tp_used_bytes_run [OF inv] by (simp add: tp_trim_to_capacity_def)
  next
    case False
    then show ?thesis using tp_evict_room [OF ok' False fit] by (simp add: tp_trim_to_capacity_def)
  qed
  then obtain b' c where run: "tp_begin_request kv m b = Inr (b', c)" and room: "tp_made_room ?b m 0 b' c"
    by (auto simp: tp_begin_request_def mem_begin_request_def)
  have "tp_config ?b b'" using room by (simp add: tp_made_room_def)
  with cfg have cfg': "tp_config b b'" by (rule tp_config_trans)
  note eqs = tp_config_eqs [OF cfg']
  have "tp_loadable b' m ts"
    using room fits total cfg' eqs tp_config_eqs(4) [OF cfg]
    by (auto simp: tp_loadable_def tp_made_room_def tp_fits_def tp_config_def intro: in_order_mono)
  with run eqs room show ?thesis by (auto simp: tp_made_room_def)
qed

lemma tp_loadable_room:
  assumes load: "tp_loadable b m ts" and room: "tp_made_room b m needed b' c" and "0 \<le> needed"
  shows "tp_loadable b' m ts" and "tp_setup b' = tp_setup b"
proof -
  have cfg: "tp_config b b'" using room by (simp add: tp_made_room_def)
  note eqs = tp_config_eqs [OF cfg]
  show "tp_setup b' = tp_setup b" by (rule eqs(11))
  show "tp_loadable b' m ts"
    using load room assms(3) cfg eqs by (auto simp: tp_loadable_def tp_made_room_def tp_config_def)
qed

lemma tp_missing_total:
  assumes load: "tp_loadable b m ts"
  shows "\<exists>n \<ge> 0. tp_missing_bytes b m ts = Inr n \<and> tp_model_used b m + n \<le> tp_model_total b m"
proof -
  have inv: "tp_inv b" and m: "m \<in> fst ` set (mb_models b)" using load by (auto simp: tp_loadable_def tp_ok_def)
  obtain model where model: "map_of (mb_models b) m = Some model" using map_of_mem [OF m] by blast
  have wf: "models_wf (mb_models b)" using inv by (simp add: tp_inv_def)
  have grp: "mem_group b m t = Inr (projr (mem_group b m t))
      \<and> group_at b (m, tp_group_id b m t) = Inr (projr (mem_group b m t))" if "t \<in> set ts" for t
  proof -
    have "t \<in> set (tensors model)" using load that model by (auto simp: tp_loadable_def model_tensors_def)
    then obtain g where "mem_group b m t = Inr g" using mem_group_total [OF wf model] by blast
    then show ?thesis using mem_group_wf(1) [OF wf] by (simp add: tp_group_id_def)
  qed
  define miss where "miss = remdups (filter (\<lambda>i. (m, i) \<notin> set (resident b)) (map (tp_group_id b m) ts))"
  have at: "\<exists>g. group_at b (m, i) = Inr g" if "i \<in> set miss" for i using that grp by (auto simp: miss_def)
  have "r_map (mem_group b m) ts = Inr (map (\<lambda>t. projr (mem_group b m t)) ts)"
    by (rule r_map_total) (use grp in blast)
  moreover have "group_id \<circ> (\<lambda>t. projr (mem_group b m t)) = tp_group_id b m"
    by (simp add: tp_group_id_def o_def fun_eq_iff)
  moreover have "r_map (\<lambda>i. tp_object_bytes b (m, i)) miss = Inr (map (\<lambda>i. key_size b (m, i)) miss)"
    by (rule r_map_total) (use at tp_object_size(1) in blast)
  ultimately have run: "tp_missing_bytes b m ts = Inr (\<Sum>i \<leftarrow> miss. key_size b (m, i))"
    by (simp add: tp_missing_bytes_def miss_def Let_def)
  have nonneg: "0 \<le> key_size b (m, i)" if "i \<in> set miss" for i using at [OF that] key_size_nonneg [OF inv] by blast
  have sum: "(\<Sum>i \<leftarrow> miss. key_size b (m, i)) = (\<Sum>i \<in> set miss. key_size b (m, i))"
    by (rule sum_list_distinct_conv_sum_set) (simp add: miss_def)
  have sub: "set miss \<union> tp_content b m \<subseteq> {..<group_total b m}"
  proof -
    have "i < group_total b m" if "i \<in> set miss" for i
      using at [OF that] model by (auto simp: group_at_def group_total_def split: if_splits)
    then show ?thesis using tp_content_total [OF inv m] by auto
  qed
  have disj: "set miss \<inter> tp_content b m = {}" by (auto simp: miss_def tp_content_def)
  have fin: "finite (tp_content b m)" using sub finite_subset by auto
  have "(\<Sum>i \<in> set miss \<union> tp_content b m. key_size b (m, i)) \<le> tp_model_total b m"
    unfolding tp_model_total_sum
    by (rule sum_mono2) (use sub tp_group_total_group [OF m] key_size_nonneg [OF inv] in blast)+
  then have "tp_model_used b m + (\<Sum>i \<leftarrow> miss. key_size b (m, i)) \<le> tp_model_total b m"
    using fin disj by (simp add: sum.union_disjoint sum tp_model_used_content [OF inv])
  moreover have "0 \<le> (\<Sum>i \<leftarrow> miss. key_size b (m, i))" by (rule sum_list_nonneg_map) (rule nonneg)
  ultimately show ?thesis using run by blast
qed

lemma tp_plan_ok:
  assumes load: "tp_loadable b m ts"
  shows "\<exists>b' c. tp_plan_request m ts b = Inr (b', c) \<and> tp_loadable b' m ts \<and> tp_setup b' = tp_setup b \<and> cost_ok c"
proof (cases "mem_policy b = MckpPrefix")
  case True
  have ok: "tp_ok b" and inv: "tp_inv b" using load by (auto simp: tp_loadable_def tp_ok_def)
  obtain n where n: "0 \<le> n" "tp_missing_bytes b m ts = Inr n" "tp_model_used b m + n \<le> tp_model_total b m"
    using tp_missing_total [OF load] by blast
  have "tp_model_used b m + n \<le> weight_capacity_bytes b" using n(3) load by (auto simp: tp_loadable_def)
  from tp_reclaim_room [OF ok True this] obtain b' c where
    run: "tp_reclaim m (max 0 (tp_used b + n - weight_capacity_bytes b)) b = Inr (b', c)"
    and room: "tp_made_room b m n b' c" by blast
  have "tp_plan_request m ts b = Inr (b', c)"
    using True n(2) tp_used_bytes_run [OF inv] run by (simp add: tp_plan_request_def plan_request_def)
  with tp_loadable_room [OF load room n(1)] room show ?thesis by (auto simp: tp_made_room_def)
qed (use load in \<open>auto simp: tp_plan_request_def plan_request_def\<close>)

lemma insert_lessThan: "i \<le> p \<Longrightarrow> insert i {..<p} = {..<max p (Suc i)}"
  by (auto simp: max_def)

lemma tp_inv_touch:
  assumes inv: "tp_inv b" and key: "group_at b key = Inr g" and R: "set R = insert key (set (resident b))" "distinct R"
  shows "tp_inv (mem_touch key (b\<lparr> resident := R \<rparr>))"
proof -
  have old: "\<exists>n. last_access b k = Some n \<and> n \<le> clock b" if "k \<in> set (resident b)" for k
    using inv that by (auto simp: tp_inv_def)
  have "inj_on ((last_access b)(key \<mapsto> clock b + 1)) (insert key (set (resident b)))"
  proof (rule inj_onI)
    fix x y assume xy: "x \<in> insert key (set (resident b))" "y \<in> insert key (set (resident b))"
      "((last_access b)(key \<mapsto> clock b + 1)) x = ((last_access b)(key \<mapsto> clock b + 1)) y"
    show "x = y"
    proof (cases "x = key \<or> y = key")
      case True
      then show ?thesis using xy old [of x] old [of y] by (auto split: if_splits)
    next
      case False
      then show ?thesis using xy inv by (auto simp: tp_inv_def dest: inj_onD)
    qed
  qed
  moreover have "\<exists>n \<le> clock b + 1. ((last_access b)(key \<mapsto> clock b + 1)) k = Some n"
    if "k \<in> insert key (set (resident b))" for k
    using that old [of k] by (cases "k = key") auto
  ultimately show ?thesis
    using inv key R unfolding tp_inv_def by (auto simp: mem_touch_def group_total_def group_at_def
        tp_bytes_of_def key_size_def tp_object_bytes_def tp_pages_def)
qed

text \<open>Making a group resident: the state that \<open>prepare_tensor\<close> leaves behind.\<close>

lemma tp_load_group:
  assumes ok: "tp_ok b" and m: "m \<in> fst ` set (mb_models b)" and key: "group_at b (m, i) = Inr g"
    and fit: "i \<in> tp_content b m \<or> tp_used b + key_size b (m, i) \<le> weight_capacity_bytes b"
    and used: "tp_used b \<le> weight_capacity_bytes b"
    and R: "R = (if i \<in> tp_content b m then resident b else resident b @ [(m, i)])"
    and order: "mem_policy b = MckpPrefix \<longrightarrow> i \<le> card (tp_content b m)"
    and b': "b' = mem_touch (m, i) (b\<lparr> resident := R \<rparr>)"
  shows "tp_ok b'" "tp_config b b'" "tp_used b' \<le> weight_capacity_bytes b'"
    "tp_content b' m = insert i (tp_content b m)" "weight_capacity_bytes b' = weight_capacity_bytes b"
proof -
  have inv: "tp_inv b" using ok by (simp add: tp_ok_def)
  have set: "set R = insert (m, i) (set (resident b))" by (auto simp: R tp_content_def)
  have "distinct R" using inv by (auto simp: R tp_inv_def tp_content_def)
  with set have inv': "tp_inv b'" unfolding b' using inv key by (intro tp_inv_touch) auto
  have res: "resident b' = R" by (simp add: b' mem_touch_def)
  show cfg: "tp_config b b'" by (simp add: b' tp_config_def mem_touch_def)
  note eqs = tp_config_eqs [OF cfg]
  show content: "tp_content b' m = insert i (tp_content b m)" using set by (auto simp: tp_content_def res)
  have others: "tp_content b' m' = tp_content b m'" if "m' \<noteq> m" for m' using set that by (auto simp: tp_content_def res)
  show cap: "weight_capacity_bytes b' = weight_capacity_bytes b" by (simp add: b' mem_touch_def)
  have "tp_used b' = tp_used b + (if i \<in> tp_content b m then 0 else key_size b (m, i))"
    by (simp add: tp_used_def res eqs(1) R)
  then show "tp_used b' \<le> weight_capacity_bytes b'" using fit used cap by auto
  have "tp_prefix_inv b'" if mckp: "mem_policy b = MckpPrefix"
  proof -
    have pre: "tp_prefix_inv b" using ok mckp by (simp add: tp_ok_def)
    then obtain p where p: "p \<le> group_total b m" "tp_content b m = {..<p}" using m by (auto simp: tp_prefix_inv_def)
    have "i < group_total b m"
      using key by (auto simp: group_at_def group_total_def py_simps split: if_splits)
    moreover have "tp_content b' m = {..<max p (Suc i)}"
      using content p(2) order mckp insert_lessThan [of i p] by simp
    ultimately have "\<exists>p \<le> group_total b m. tp_content b' m = {..<p}" using p(1) by (intro exI [of _ "max p (Suc i)"]) auto
    then show ?thesis
      using pre inv' others cfg eqs(3) unfolding tp_prefix_inv_def tp_config_def by metis
  qed
  then show "tp_ok b'"
    using ok inv' cfg eqs(9) unfolding tp_ok_def tp_config_def by (metis domIff not_None_eq)
qed

lemma tp_prepare_ok:
  assumes load: "tp_loadable b m (t # ts)"
  shows "\<exists>b' c. tp_prepare_tensor m t b = Inr (b', c) \<and> tp_loadable b' m ts \<and> tp_setup b' = tp_setup b \<and> cost_ok c
     \<and> tp_tensor_resident b' m t = Inr True
     \<and> (\<forall>t'. tp_tensor_resident b m t' = Inr True \<longrightarrow> tp_tensor_resident b' m t' = Inr True)"
proof -
  have ok: "tp_ok b" and inv: "tp_inv b" and m: "m \<in> fst ` set (mb_models b)"
    and total: "tp_model_total b m \<le> weight_capacity_bytes b" and used: "tp_used b \<le> weight_capacity_bytes b"
    and ts: "set ts \<subseteq> model_tensors b m"
    and order: "mem_policy b = MckpPrefix \<longrightarrow> in_order (card (tp_content b m)) (map (tp_group_id b m) (t # ts))"
    using load by (auto simp: tp_loadable_def tp_ok_def)
  have wf: "models_wf (mb_models b)" using inv by (simp add: tp_inv_def)
  obtain model where model: "map_of (mb_models b) m = Some model" using map_of_mem [OF m] by blast
  have "t \<in> set (tensors model)" using load model by (auto simp: tp_loadable_def model_tensors_def)
  then obtain g where g: "mem_group b m t = Inr g" using mem_group_total [OF wf model] by blast
  define i where "i = group_id g"
  have key: "group_at b (m, i) = Inr g" "0 \<le> tg_bytes g" using mem_group_wf [OF wf g] by (simp_all add: i_def)
  have gid: "tp_group_id b m t = i" using g by (simp add: tp_group_id_def i_def)
  have finish: "tp_loadable b' m ts \<and> tp_setup b' = tp_setup b \<and> tp_tensor_resident b' m t = Inr True
      \<and> (\<forall>t'. tp_tensor_resident b m t' = Inr True \<longrightarrow> tp_tensor_resident b' m t' = Inr True)"
    if "tp_ok b'" "tp_config b b'" "tp_used b' \<le> weight_capacity_bytes b'"
      "tp_content b' m = insert i (tp_content b m)" "weight_capacity_bytes b' = weight_capacity_bytes b" for b'
  proof -
    note eqs = tp_config_eqs [OF that(2)]
    have "in_order (card (tp_content b' m)) (map (tp_group_id b' m) ts)" if "mem_policy b' = MckpPrefix"
    proof -
      have mckp: "mem_policy b = MckpPrefix" using that \<open>tp_config b b'\<close> by (simp add: tp_config_def)
      obtain p where p: "tp_content b m = {..<p}" using ok mckp m by (auto simp: tp_ok_def tp_prefix_inv_def)
      then have le: "i \<le> p" and rest: "in_order (max p (Suc i)) (map (tp_group_id b m) ts)"
        using order mckp gid by auto
      show ?thesis using rest p insert_lessThan [OF le] \<open>tp_content b' m = insert i (tp_content b m)\<close> eqs(5) by simp
    qed
    then have "tp_loadable b' m ts" using that m ts total eqs by (auto simp: tp_loadable_def tp_config_def)
    moreover have "tp_tensor_resident b' m t = Inr True"
      using that(4) g eqs(10) by (auto simp: tp_tensor_resident_def tp_content_def i_def)
    moreover have "tp_tensor_resident b' m t' = Inr True" if "tp_tensor_resident b m t' = Inr True" for t'
      using that \<open>tp_content b' m = insert i (tp_content b m)\<close> eqs(10)
      by (auto simp: tp_tensor_resident_def tp_content_def py_simps)
    ultimately show ?thesis using eqs(11) by blast
  qed
  have mckp_order: "mem_policy b = MckpPrefix \<longrightarrow> i \<le> card (tp_content b m)" using order gid by simp
  show ?thesis
  proof (cases "i \<in> tp_content b m")
    case True
    have "tp_prepare_tensor m t b = Inr (mem_touch (m, i) b, no_cost)"
      using g True by (simp add: tp_prepare_tensor_def tp_content_def i_def)
    moreover have same: "mem_touch (m, i) b = mem_touch (m, i) (b\<lparr> resident := resident b \<rparr>)" by simp
    moreover have fit: "i \<in> tp_content b m \<or> tp_used b + key_size b (m, i) \<le> weight_capacity_bytes b"
      and R: "resident b = (if i \<in> tp_content b m then resident b else resident b @ [(m, i)])" using True by simp_all
    note loaded = tp_load_group [OF ok m key(1) fit used R mckp_order same]
    ultimately show ?thesis using finish [OF loaded] cost_ok_no_cost by blast
  next
    case False
    let ?needed = "tp_pages b g * page_size b"
    have size: "key_size b (m, i) = ?needed" by (rule tp_object_size(2) [OF key(1)])
    have "i < group_total b m" using key(1) model by (auto simp: group_at_def group_total_def split: if_splits)
    then have fit: "tp_model_used b m + ?needed \<le> weight_capacity_bytes b"
      using tp_model_used_bound(2) [OF inv m _ False] total size by simp
    have nn: "0 \<le> ?needed" using key_size_nonneg [OF inv key(1)] size by simp
    let ?err = "RuntimeError ''Tensor-page pool cannot fit''"
    have "\<exists>b1 c1. (if mem_policy b = MckpPrefix
          then r_bind (tp_used_bytes b) (\<lambda>used. r_bind (tp_reclaim m (max 0 (used + ?needed - weight_capacity_bytes b)) b)
                 (\<lambda>(b', c). Inr (b', cost_add no_cost c)))
          else Inr (b, no_cost)) = Inr (b1, c1) \<and> (\<exists>b2 c2. tp_evict_until ?err ?needed m (b1, c1) = Inr (b2, c2)
             \<and> tp_made_room b m ?needed b2 c2)"
    proof (cases "mem_policy b = MckpPrefix")
      case True
      obtain b1 c1 where 1: "tp_reclaim m (max 0 (tp_used b + ?needed - weight_capacity_bytes b)) b = Inr (b1, c1)"
        and room: "tp_made_room b m ?needed b1 c1" using tp_reclaim_room [OF ok True fit] by blast
      have inv1: "tp_inv b1" using room by (simp add: tp_made_room_def tp_ok_def)
      have cap1: "tp_used b1 + ?needed \<le> weight_capacity_bytes b1" using room by (simp add: tp_made_room_def)
      have "tp_evict_until ?err ?needed m (b1, c1) = Inr (b1, c1)"
        using tp_used_bytes_run [OF inv1] cap1 by (simp add: tp_evict_until.simps)
      then show ?thesis using 1 room True tp_used_bytes_run [OF inv] by simp
    next
      case False
      then show ?thesis using tp_evict_room [OF ok False fit] by simp
    qed
    then obtain b1 c1 b2 c2 where pre: "(if mem_policy b = MckpPrefix
          then r_bind (tp_used_bytes b) (\<lambda>used. r_bind (tp_reclaim m (max 0 (used + ?needed - weight_capacity_bytes b)) b)
                 (\<lambda>(b', c). Inr (b', cost_add no_cost c)))
          else Inr (b, no_cost)) = Inr (b1, c1)"
      and ev: "tp_evict_until ?err ?needed m (b1, c1) = Inr (b2, c2)" and room: "tp_made_room b m ?needed b2 c2" by blast
    have r: "tp_ok b2" "tp_config b b2" "tp_content b2 m = tp_content b m"
        "weight_capacity_bytes b2 = weight_capacity_bytes b" "tp_used b2 + ?needed \<le> weight_capacity_bytes b2" "cost_ok c2"
      using room by (auto simp: tp_made_room_def)
    note eqs = tp_config_eqs [OF r(2)]
    have args: "args_ok (mb_args b2)" using r(1) by (simp add: tp_ok_def tp_inv_def)
    then have h2d: "h2d_bytes_per_ms (mb_args b2) \<noteq> 0" by (auto simp: args_ok_def)
    define b' where "b' = mem_touch (m, i) (b2\<lparr> resident := resident b2 @ [(m, i)] \<rparr>)"
    define c where "c = c2\<lparr> h2d_bytes := tg_bytes g, h2d_ms := of_int (tg_bytes g) / h2d_bytes_per_ms (mb_args b2),
      map_calls := tp_pages b g, mapped_pages := tp_pages b g,
      map_ms := of_int (tp_pages b g) * (map_fixed_ms (mb_args b2) + map_per_page_ms (mb_args b2)) \<rparr>"
    have run: "tp_prepare_tensor m t b = Inr (b', c)"
      using g False pre ev h2d
      by (simp add: tp_prepare_tensor_def Let_def tp_content_def i_def [symmetric] b'_def c_def)
    have "0 \<le> tp_pages b g" using key(2) inv by (simp add: tp_pages_def tp_inv_def ceil_div_nonneg)
    then have "cost_ok c" using r(6) args key(2) by (simp add: c_def cost_ok_def args_ok_def)
    have m2: "m \<in> fst ` set (mb_models b2)" using m r(2) by (simp add: tp_config_def)
    have key2: "group_at b2 (m, i) = Inr g" using key(1) eqs(7) by simp
    have fit2: "i \<in> tp_content b2 m \<or> tp_used b2 + key_size b2 (m, i) \<le> weight_capacity_bytes b2"
      using r(5) size eqs(1) by simp
    have used2: "tp_used b2 \<le> weight_capacity_bytes b2" using r(5) nn by simp
    have order2: "mem_policy b2 = MckpPrefix \<longrightarrow> i \<le> card (tp_content b2 m)"
      using mckp_order r(2,3) by (simp add: tp_config_def)
    have R2: "resident b2 @ [(m, i)] = (if i \<in> tp_content b2 m then resident b2 else resident b2 @ [(m, i)])"
      using False r(3) by simp
    note loaded = tp_load_group [OF r(1) m2 key2 fit2 used2 R2 order2 b'_def]
    have cfg: "tp_config b b'" using tp_config_trans [OF r(2) loaded(2)] .
    have "tp_content b' m = insert i (tp_content b m)" "weight_capacity_bytes b' = weight_capacity_bytes b"
      using loaded(4,5) r(3,4) by simp_all
    from finish [OF loaded(1) cfg loaded(3) this] run \<open>cost_ok c\<close> show ?thesis by blast
  qed
qed

lemma tp_finish_ok:
  assumes load: "tp_loadable b m []"
  shows "\<exists>b'. mem_finish_request m b = Inr b' \<and> tp_ok b' \<and> tp_setup b' = tp_setup b \<and> tp_used b' = tp_used b
     \<and> weight_capacity_bytes b' = weight_capacity_bytes b
     \<and> (\<forall>t. tp_tensor_resident b' m t = tp_tensor_resident b m t)"
proof -
  have ok: "tp_ok b" and m: "m \<in> fst ` set (mb_models b)" using load by (auto simp: tp_loadable_def)
  obtain n where n: "model_accesses b m = Some n" using ok m by (auto simp: tp_ok_def)
  define b' where "b' = b\<lparr> model_accesses := (model_accesses b)(m \<mapsto> n + 1) \<rparr>"
  have cfg: "tp_config b b'" using n by (auto simp: b'_def tp_config_def)
  note eqs = tp_config_eqs [OF cfg]
  have "tp_inv b'" using ok eqs by (simp add: tp_ok_def tp_inv_def b'_def)
  moreover have "tp_content b' = tp_content b" by (simp add: tp_content_def b'_def fun_eq_iff)
  ultimately have "tp_ok b'"
    using ok eqs(3,9) by (auto simp: tp_ok_def tp_prefix_inv_def b'_def)
  moreover have "tp_used b' = tp_used b" by (simp add: tp_used_def eqs(1)) (simp add: b'_def)
  moreover have "tp_tensor_resident b' m t = tp_tensor_resident b m t" for t
    by (simp add: tp_tensor_resident_def eqs(10)) (simp add: b'_def)
  ultimately show ?thesis using n eqs(11) by (auto simp: mem_finish_request_def b'_def)
qed

lemma tp_metrics_ok:
  assumes "tp_ok b"
  shows "\<exists>x. tp_metrics b = Inr x \<and> physical_resident_bytes x = tp_used b \<and> 0 \<le> internal_fragmentation_bytes x
     \<and> logical_resident_bytes x + internal_fragmentation_bytes x = physical_resident_bytes x"
proof -
  have inv: "tp_inv b" using assms by (simp add: tp_ok_def)
  define bytes where "bytes = (\<lambda>key. tg_bytes (projr (group_at b key)))"
  have at: "group_at b key = Inr (projr (group_at b key))" if "key \<in> set (resident b)" for key
    using inv that by (auto simp: tp_inv_def)
  have "r_map (\<lambda>key. r_bind (group_at b key) (\<lambda>g. Inr (tg_bytes g))) (resident b) = Inr (map bytes (resident b))"
    by (rule r_map_total) (metis at bytes_def r_bind.simps(2))
  moreover have "sum_list (map bytes (resident b)) \<le> tp_used b"
    unfolding tp_used_def
  proof (rule sum_list_mono)
    fix key assume key: "key \<in> set (resident b)"
    show "bytes key \<le> key_size b key"
      using tp_object_size(2) [OF at [OF key]] ceil_div_least(1) [of "page_size b"] inv
      by (simp add: bytes_def tp_pages_def tp_inv_def)
  qed
  ultimately show ?thesis using tp_used_bytes_run [OF inv] by (simp add: tp_metrics_def Let_def)
qed

interpretation tpb: mem_backend tp_ops tp_ok tp_fits tp_loadable tp_setup tp_used weight_capacity_bytes
proof unfold_locales
  fix b :: page_mem and m :: int and ts :: "tensor_spec list"
  show "tp_loadable b m ts \<Longrightarrow> tp_used b \<le> weight_capacity_bytes b" by (simp add: tp_loadable_def)
  show "tp_setup b' = tp_setup b \<Longrightarrow> tp_fits b' = tp_fits b" for b' :: page_mem by (rule tp_setup_eqs(8))
  show "tp_ok b \<Longrightarrow> \<exists>x. op_metrics tp_ops b = Inr x" using tp_metrics_ok by (auto simp: tp_ops_def)
qed (use tp_begin_ok tp_plan_ok tp_prepare_ok tp_finish_ok in \<open>simp_all add: tp_ops_def\<close>)

section \<open>Construction\<close>

lemma prefix_sizes_fold:
  "foldl (\<lambda>(total, d) g. let total' = total + ceil_div (tg_bytes g) page * page in
       (total', d @ [((m, group_id g + 1), total')])) (0, []) gs
   = (\<Sum>g \<leftarrow> gs. ceil_div (tg_bytes g) page * page,
      map (\<lambda>i. ((m, group_id (gs ! i) + 1), \<Sum>g \<leftarrow> take (Suc i) gs. ceil_div (tg_bytes g) page * page)) [0..<length gs])"
proof (induction gs rule: rev_induct)
  case (snoc g gs)
  then show ?case by (auto simp: Let_def nth_append)
qed simp

lemma prefix_sizes_alt:
  "prefix_sizes page (m, model) = ((m, 0), 0) # map (\<lambda>i. ((m, Suc (group_id (groups model ! i))),
     \<Sum>g \<leftarrow> take (Suc i) (groups model). ceil_div (tg_bytes g) page * page)) [0..<length (groups model)]"
  unfolding prefix_sizes_def split prefix_sizes_fold by simp

lemma tp_init_ok:
  assumes wf: "models_wf models" and page: "0 < page" and args: "args_ok args"
    and policy: "replacement_policy args = MckpPrefix \<longrightarrow>
      (\<exists>t. table = Some t \<and> table_covers t (mem_init models capacity page args))"
  shows "\<exists>b. tp_init models capacity page args = Inr b \<and> tp_ok (b\<lparr> prefix_stall_table := table \<rparr>)
     \<and> tp_used b = 0 \<and> mb_models b = models \<and> capacity_bytes b = capacity \<and> page_size b = page \<and> mb_args b = args"
proof -
  define kvs where "kvs = concat (map (prefix_sizes page) models)"
  define b where "b = mem_base.extend (mem_init models capacity page args) (page_mem.fields [] (dict_of kvs))"
  have sel: "mb_models b = models" "page_size b = page" "resident b = []" "mb_args b = args"
      "capacity_bytes b = capacity" "prefix_physical_bytes b = dict_of kvs"
      "\<And>m. m \<in> fst ` set models \<Longrightarrow> \<exists>n. model_accesses b m = Some n"
    by (simp_all add: b_def mem_init_def mem_base.defs page_mem.defs)
  have size: "(\<Sum>g \<leftarrow> take p (groups model). ceil_div (tg_bytes g) page * page) = tp_bytes_of b m p"
    if model: "map_of models m = Some model" and p: "p \<le> length (groups model)" for m model p
  proof -
    have "key_size b (m, i) = ceil_div (tg_bytes (groups model ! i)) page * page" if "i < p" for i
      using that p model
      by (simp add: key_size_def tp_object_bytes_def group_at_def sel tp_pages_def)
    then have "tp_bytes_of b m p = (\<Sum>i \<leftarrow> [0..<p]. ceil_div (tg_bytes (groups model ! i)) page * page)"
      unfolding tp_bytes_of_def by (intro arg_cong [of _ _ sum_list] map_cong) auto
    moreover have "take p (groups model) = map (\<lambda>i. groups model ! i) [0..<p]"
      using p by (intro nth_equalityI) auto
    ultimately show ?thesis by (simp add: o_def)
  qed
  have entry: "((m, p), v) \<in> set kvs \<longleftrightarrow>
      (\<exists>model. map_of models m = Some model \<and> p \<le> length (groups model) \<and> v = tp_bytes_of b m p)" for m p v
  proof -
    have one: "((m, p), v) \<in> set (prefix_sizes page (m', model)) \<longleftrightarrow>
        m' = m \<and> p \<le> length (groups model) \<and> v = (\<Sum>g \<leftarrow> take p (groups model). ceil_div (tg_bytes g) page * page)"
      if "model_wf model" for m' model
      using that by (cases p) (auto simp: prefix_sizes_alt model_wf_def image_iff Suc_le_eq)
    let ?Q = "\<lambda>model. p \<le> length (groups model)
        \<and> v = (\<Sum>g \<leftarrow> take p (groups model). ceil_div (tg_bytes g) page * page)"
    have "((m, p), v) \<in> set (prefix_sizes page x) \<longleftrightarrow> fst x = m \<and> ?Q (snd x)" if "x \<in> set models" for x
      using one [of "snd x" "fst x"] wf that by (auto simp: models_wf_def split_def)
    then have "((m, p), v) \<in> set kvs \<longleftrightarrow> (\<exists>x \<in> set models. fst x = m \<and> ?Q (snd x))"
      unfolding kvs_def set_concat set_map by blast
    also have "\<dots> \<longleftrightarrow> (\<exists>model. (m, model) \<in> set models \<and> ?Q model)" by force
    finally have "((m, p), v) \<in> set kvs \<longleftrightarrow> (\<exists>model. (m, model) \<in> set models \<and> ?Q model)" .
    moreover have "(m, model) \<in> set models \<longleftrightarrow> map_of models m = Some model" for model
      using wf by (simp add: models_wf_def)
    ultimately have "((m, p), v) \<in> set kvs \<longleftrightarrow> (\<exists>model. map_of models m = Some model \<and> ?Q model)" by simp
    also have "\<dots> \<longleftrightarrow> (\<exists>model. map_of models m = Some model \<and> p \<le> length (groups model) \<and> v = tp_bytes_of b m p)"
      by (rule iff_exI) (use size in metis)
    finally show ?thesis .
  qed
  have "map_of (dict_of kvs) (m, p) = Some (tp_bytes_of b m p)"
    if p: "p \<le> group_total b m" and m: "m \<in> fst ` set models" for m p
  proof -
    obtain model where "map_of models m = Some model" using map_of_mem [OF m] by blast
    then have "((m, p), tp_bytes_of b m p) \<in> set kvs" using entry p by (auto simp: group_total_def sel)
    then have "(m, p) \<in> fst ` set kvs" by force
    from dict_of_total [OF this] obtain v where v: "map_of (dict_of kvs) (m, p) = Some v" by blast
    with dict_of_values [OF v] entry show ?thesis by auto
  qed
  then have "tp_inv b" using wf page args by (simp add: tp_inv_def sel)
  then have inv: "tp_inv (b\<lparr> prefix_stall_table := table \<rparr>)"
    by (simp add: tp_inv_def group_total_def group_at_def tp_bytes_of_def key_size_def tp_object_bytes_def tp_pages_def)
  have "table_covers t (b\<lparr> prefix_stall_table := table \<rparr>) = table_covers t (mem_init models capacity page args)" for t
    by (simp add: table_covers_def group_total_def sel) (simp add: mem_init_def)
  then have "tp_ok (b\<lparr> prefix_stall_table := table \<rparr>)"
    using inv sel policy by (auto simp: tp_ok_def tp_prefix_inv_def tp_content_def)
  moreover have "tp_init models capacity page args = Inr b"
    using page by (simp add: tp_init_def b_def kvs_def)
  ultimately show ?thesis using sel by (auto simp: tp_used_def)
qed

section \<open>What the backend guarantees\<close>

text \<open>
  Constructing the backend succeeds for well-formed models and a positive page size: it
  starts empty, with the prefix sizes of every model tabulated, and satisfies the invariant as
  soon as a covering stall table is set where prefix replacement is configured.
\<close>

lemma tensor_page_init:
  assumes "models_wf models" and "0 < page" and "args_ok args"
    and "replacement_policy args = MckpPrefix \<longrightarrow>
      (\<exists>t. table = Some t \<and> table_covers t (mem_init models capacity page args))"
  shows "\<exists>b. tp_init models capacity page args = Inr b \<and> tp_ok (b\<lparr> prefix_stall_table := table \<rparr>)
     \<and> tp_used_bytes b = Inr 0"
proof -
  obtain b where b: "tp_init models capacity page args = Inr b" "tp_ok (b\<lparr> prefix_stall_table := table \<rparr>)"
      "resident b = []"
    using tp_init_ok [OF assms] assms(2)
    by (auto simp: tp_init_def mem_init_def mem_base.defs page_mem.defs)
  then show ?thesis by (auto simp: tp_used_bytes_def)
qed

text \<open>
  The eviction loop terminates, and it succeeds exactly when the active model leaves the
  room that is asked for. On success the pool has the room, no group of the active model was
  evicted, every byte that left the pool is charged to the cost, and an unnecessary call
  evicts nothing.
\<close>

lemma tensor_page_eviction:
  assumes "tp_inv b"
  shows "((\<exists>s. tp_evict_until err needed active (b, cost) = Inr s)
            \<longleftrightarrow> tp_model_used b active + needed \<le> weight_capacity_bytes b)
     \<and> (\<forall>b' cost'. tp_evict_until err needed active (b, cost) = Inr (b', cost') \<longrightarrow>
          tp_inv b' \<and> tp_used b' + needed \<le> weight_capacity_bytes b'
          \<and> tp_content b' active = tp_content b active \<and> (\<forall>m. tp_content b' m \<subseteq> tp_content b m)
          \<and> evicted_bytes cost' - evicted_bytes cost = tp_used b - tp_used b'
          \<and> (tp_used b + needed \<le> weight_capacity_bytes b \<longrightarrow> b' = b \<and> cost' = cost))"
proof -
  consider (roomy) b' cost' where "tp_evict_until err needed active (b, cost) = Inr (b', cost')"
      "tp_shrunk b active cost b' cost'" "tp_used b' + needed \<le> weight_capacity_bytes b'"
      "tp_used b + needed \<le> weight_capacity_bytes b \<longrightarrow> b' = b \<and> cost' = cost"
    | (stuck) "tp_evict_until err needed active (b, cost) = Inl err"
        "weight_capacity_bytes b < tp_model_used b active + needed"
    using tp_evict_until_cases [OF assms, of err needed active cost] by blast
  then show ?thesis
  proof cases
    case roomy
    have "tp_model_used b active + needed \<le> weight_capacity_bytes b"
      using roomy(2,3) tp_model_used_le [of b' active] by (auto simp: tp_shrunk_def)
    moreover have "tp_content b' active = tp_content b active" "\<forall>m. tp_content b' m \<subseteq> tp_content b m"
      using roomy(2) by (auto simp: tp_shrunk_def tp_content_def)
    ultimately show ?thesis using roomy by (auto simp: tp_shrunk_def)
  qed auto
qed



section \<open>A concrete pool\<close>

definition demo_page :: page_mem where
  "demo_page = projr (tp_init demo_models 400 64 (demo_args Lru))"

lemma demo_page_ok: "tp_ok demo_page" "mb_models demo_page = demo_models" "capacity_bytes demo_page = 400"
  "page_size demo_page = 64" "mb_args demo_page = demo_args Lru" "resident demo_page = []" "weight_capacity_bytes demo_page = 400"
proof -
  obtain b where b: "tp_init demo_models 400 64 (demo_args Lru) = Inr b"
      "tp_ok (b\<lparr> prefix_stall_table := None \<rparr>)" "mb_models b = demo_models" "capacity_bytes b = 400"
      "page_size b = 64" "mb_args b = demo_args Lru"
    using tp_init_ok [OF demo_models_wf _ demo_args_ok, of 64 Lru None 400] by (auto simp: demo_args_def)
  have "b\<lparr> prefix_stall_table := None \<rparr> = b"
    using b(1) by (auto simp: tp_init_def mem_init_def mem_base.defs page_mem.defs split: if_splits)
  with b show "tp_ok demo_page" "mb_models demo_page = demo_models" "capacity_bytes demo_page = 400"
    "page_size demo_page = 64" "mb_args demo_page = demo_args Lru" by (simp_all add: demo_page_def)
  show "resident demo_page = []" "weight_capacity_bytes demo_page = 400"
    by (simp_all add: demo_page_def tp_init_def mem_init_def mem_base.defs page_mem.defs)
qed

lemma demo_page_fits: "tp_fits demo_page 64 1 (tensors (demo_tensor_model 1))"
proof -
  have "key_size demo_page (1, i) = 128" if "i < 2" for i :: nat
    using that by (auto simp: key_size_def tp_object_bytes_def group_at_def tp_pages_def demo_page_ok
        demo_models_def demo_tensor_model_def ceil_div_def less_2_cases_iff)
  then have "tp_model_total demo_page 1 = 256"
    by (simp add: tp_model_total_def tp_bytes_of_def group_total_def demo_page_ok demo_models_def
        demo_tensor_model_def upt_rec)
  then show ?thesis
    by (simp add: tp_fits_def demo_page_ok demo_models_def model_tensors_def demo_args_def)
qed


definition demo_prefix_models :: "(int \<times> tensor_model) list" where
  "demo_prefix_models = [(7, demo_tensor_model 7), (3, demo_tensor_model 3)]"

definition demo_prefix_page :: page_mem where
  "demo_prefix_page =
     (projr (tp_init demo_prefix_models 400 64 (demo_args MckpPrefix)))\<lparr> prefix_stall_table := Some demo_pair \<rparr>"

lemma demo_prefix_page_ok: "tp_ok demo_prefix_page" "mb_models demo_prefix_page = demo_prefix_models"
  "page_size demo_prefix_page = 64" "resident demo_prefix_page = []" "weight_capacity_bytes demo_prefix_page = 400"
  "mb_args demo_prefix_page = demo_args MckpPrefix"
proof -
  have wf: "models_wf demo_prefix_models"
    by (auto simp: models_wf_def model_wf_def demo_prefix_models_def demo_tensor_model_def demo_tensor_def less_Suc_eq)
  have "table_covers demo_pair (mem_init demo_prefix_models 400 64 (demo_args MckpPrefix))"
    using demo_pair_ok
    by (simp add: table_covers_def mem_init_def group_total_def demo_prefix_models_def demo_pair_def
        demo_tensor_model_def demo_model_def)
  then obtain b where b: "tp_init demo_prefix_models 400 64 (demo_args MckpPrefix) = Inr b"
      "tp_ok (b\<lparr> prefix_stall_table := Some demo_pair \<rparr>)"
    using tp_init_ok [OF wf _ demo_args_ok, of 64 MckpPrefix "Some demo_pair" 400] by auto
  then show "tp_ok demo_prefix_page" by (simp add: demo_prefix_page_def)
  show "mb_models demo_prefix_page = demo_prefix_models" "page_size demo_prefix_page = 64"
    "resident demo_prefix_page = []" "weight_capacity_bytes demo_prefix_page = 400"
    "mb_args demo_prefix_page = demo_args MckpPrefix"
    by (simp_all add: demo_prefix_page_def tp_init_def mem_init_def mem_base.defs page_mem.defs)
qed




end
