(* ===== verification/Compact_Page.thy ===== *)
theory Compact_Page
  imports Page_Prefix Profile_Execution
begin

text \<open>
  The compact-page backend (\<open>CompactPageMemory\<close> of \<open>tensor_sim_page_backends.py\<close>): every model
  has one compact arena of pages, tensors and groups are byte ranges of it, and replacement works
  on single pages. Page numbers and the object numbers of replacement keys are natural numbers;
  the layouts place tensors at non-negative offsets. A set of pages is a duplicate-free list.
\<close>

section \<open>Tables\<close>

text \<open>\<open>range(offset // page, (offset + bytes - 1) // page + 1)\<close>.\<close>

definition page_range :: "int \<Rightarrow> int \<Rightarrow> int \<Rightarrow> nat list" where
  "page_range page offset bytes = [nat (offset div page)..<nat ((offset + bytes - 1) div page + 1)]"

record compact_mem = mem_base +
  resident_pages :: "(int \<times> nat list) list"
  tensor_pages :: "((int \<times> int) \<times> nat list) list"
  group_pages :: "(mem_key \<times> nat list) list"
  prefix_page_counts :: "(mem_key \<times> nat) list"
  page_tensors :: "(int \<times> (nat \<times> int list) list) list"

definition tensor_page_table :: "int \<Rightarrow> (int \<times> tensor_model) list \<Rightarrow> ((int \<times> int) \<times> nat list) list" where
  "tensor_page_table page models = dict_of (concat (map (\<lambda>(model_id, model).
     map (\<lambda>t. ((model_id, tensor_id t), page_range page (ts_offset t) (ts_bytes t))) (tensors model)) models))"

definition group_page_table :: "int \<Rightarrow> (int \<times> tensor_model) list \<Rightarrow> (mem_key \<times> nat list) list" where
  "group_page_table page models = dict_of (concat (map (\<lambda>(model_id, model).
     map (\<lambda>g. ((model_id, group_id g), page_range page (tg_offset g) (tg_bytes g))) (groups model)) models))"

definition prefix_counts :: "int \<Rightarrow> int \<times> tensor_model \<Rightarrow> (mem_key \<times> nat) list" where
  "prefix_counts page = (\<lambda>(model_id, model).
     ((model_id, 0), 0) # snd (foldl (\<lambda>(count, d) g.
        let pages = page_range page (tg_offset g) (tg_bytes g);
            count' = (if pages = [] then count else max count (last pages + 1)) in
        (count', d @ [((model_id, group_id g + 1), count')])) (0, []) (groups model)))"

text \<open>The reverse index: which tensors lie on a page.\<close>

definition page_tensor_table :: "int \<Rightarrow> tensor_model \<Rightarrow> (nat \<times> int list) list" where
  "page_tensor_table page model =
     map (\<lambda>p. (p, remdups (map tensor_id (filter (\<lambda>t. p \<in> set (page_range page (ts_offset t) (ts_bytes t))) (tensors model)))))
       (remdups (concat (map (\<lambda>t. page_range page (ts_offset t) (ts_bytes t)) (tensors model))))"

definition cp_init :: "(int \<times> tensor_model) list \<Rightarrow> int \<Rightarrow> int \<Rightarrow> sim_args \<Rightarrow> compact_mem result" where
  "cp_init models capacity page args =
     (if page = 0 \<and> list_ex (\<lambda>(_, m). tensors m \<noteq> [] \<or> groups m \<noteq> []) models then Inl ZeroDivisionError
      else Inr (mem_base.extend (mem_init models capacity page args)
        (compact_mem.fields (map (\<lambda>(model_id, _). (model_id, [])) models)
           (tensor_page_table page models) (group_page_table page models)
           (dict_of (concat (map (prefix_counts page) models)))
           (map (\<lambda>(model_id, model). (model_id, page_tensor_table page model)) models))))"

section \<open>Queries\<close>

definition cp_used_bytes :: "compact_mem \<Rightarrow> int" where
  "cp_used_bytes b = (\<Sum>(m, pages) \<leftarrow> resident_pages b. int (length pages)) * page_size b"

definition cp_tensor_resident :: "compact_mem \<Rightarrow> int \<Rightarrow> tensor_spec \<Rightarrow> bool result" where
  "cp_tensor_resident b model_id tensor =
     r_bind (dict_get (tensor_pages b) (model_id, tensor_id tensor)) (\<lambda>pages.
     r_bind (dict_get (resident_pages b) model_id) (\<lambda>resident. Inr (set pages \<subseteq> set resident)))"

definition cp_prefix_count :: "compact_mem \<Rightarrow> int \<Rightarrow> nat result" where
  "cp_prefix_count b model_id =
     r_bind (dict_get (resident_pages b) model_id) (\<lambda>resident.
     r_bind (dict_get (mb_models b) model_id) (\<lambda>model.
     let canonical = (resident = [] \<or> Min (set resident) = 0 \<and> Max (set resident) = length resident - 1) in
     r_bind (if canonical
             then r_map (\<lambda>prefix. r_bind (dict_get (prefix_page_counts b) (model_id, prefix)) (\<lambda>n.
                    Inr (prefix, n = length resident))) [0..<length (groups model) + 1]
             else Inr []) (\<lambda>checked.
     case filter snd checked of
       [] \<Rightarrow> Inl (RuntimeError ''MCKP compact-page prefix invariant failed'')
     | matches \<Rightarrow> Inr (Max (set (map fst matches))))))"

definition cp_resident_group_ids :: "compact_mem \<Rightarrow> int \<Rightarrow> nat list result" where
  "cp_resident_group_ids b model_id = r_bind (cp_prefix_count b model_id) (\<lambda>p. Inr [0..<p])"

definition cp_prefix_bytes :: "compact_mem \<Rightarrow> int \<Rightarrow> nat \<Rightarrow> int result" where
  "cp_prefix_bytes b model_id prefix =
     r_bind (dict_get (prefix_page_counts b) (model_id, prefix)) (\<lambda>n. Inr (int n * page_size b))"

definition cp_missing_bytes :: "compact_mem \<Rightarrow> int \<Rightarrow> tensor_spec list \<Rightarrow> int result" where
  "cp_missing_bytes b model_id ts =
     r_bind (r_map (\<lambda>t. r_bind (mem_group b model_id t) (\<lambda>g. dict_get (group_pages b) (model_id, group_id g))) ts) (\<lambda>required.
     r_bind (dict_get (resident_pages b) model_id) (\<lambda>resident.
       Inr (int (length (remdups (filter (\<lambda>p. p \<notin> set resident) (concat required)))) * page_size b)))"

section \<open>Replacement\<close>

definition set_pages :: "int \<Rightarrow> (nat list \<Rightarrow> nat list) \<Rightarrow> compact_mem \<Rightarrow> compact_mem" where
  "set_pages model_id f b =
     b\<lparr> resident_pages := map (\<lambda>(m, pages). (m, if m = model_id then f pages else pages)) (resident_pages b) \<rparr>"

definition cp_commit_prefix ::
  "int \<Rightarrow> nat \<Rightarrow> nat \<Rightarrow> compact_mem \<times> load_cost \<Rightarrow> (compact_mem \<times> load_cost) result" where
  "cp_commit_prefix model_id old_prefix new_prefix = (\<lambda>(b, cost).
     r_bind (dict_get (prefix_page_counts b) (model_id, new_prefix)) (\<lambda>keep_count.
     r_bind (dict_get (prefix_page_counts b) (model_id, old_prefix)) (\<lambda>old_count.
     r_bind (dict_get (resident_pages b) model_id) (\<lambda>resident.
     let victims = filter (\<lambda>p. \<not> p < keep_count) resident in
     if set victims \<noteq> set [keep_count..<old_count]
     then Inl (RuntimeError ''non-canonical compact prefix'')
     else Inr (set_pages model_id (filter (\<lambda>p. p < keep_count)) b,
               charge_unmap b (int (length victims)) (int (length victims)) cost)))))"

text \<open>
  The value of a page. For the policies that track pages it is the page's own; otherwise it is
  the least value of a complete tensor that losing the page would break. The tensor is looked
  up by its id as an index, so an id outside the list raises.
\<close>

definition tensor_at :: "compact_mem \<Rightarrow> int \<Rightarrow> int \<Rightarrow> unit result" where
  "tensor_at b model_id i =
     r_bind (dict_get (mb_models b) model_id) (\<lambda>model.
       if - int (length (tensors model)) \<le> i \<and> i < int (length (tensors model)) then Inr () else Inl (IndexError ''list index out of range''))"

definition page_value :: "compact_mem \<Rightarrow> mem_key \<Rightarrow> rat list result" where
  "page_value b = (\<lambda>(model_id, page).
     if mem_policy b = PipelineValue \<or> protected_policy (mem_policy b)
     then Inr (mem_value (\<lambda>_. 0) b (model_id, page))
     else
       r_bind (dict_get (resident_pages b) model_id) (\<lambda>resident.
       r_bind (dict_get (page_tensors b) model_id) (\<lambda>reverse.
       r_bind (r_map (\<lambda>i. r_bind (tensor_at b model_id i) (\<lambda>_.
                 r_bind (dict_get (tensor_pages b) (model_id, i)) (\<lambda>pages.
                   Inr (i, set pages \<subseteq> set resident)))) (get_default (map_of reverse) page [])) (\<lambda>checked.
       let broken = map fst (filter snd checked) in
       if broken = [] then Inr [- 1, last_use b (model_id, page)]
       else Inr (Min (set (map (\<lambda>i. mem_value (\<lambda>_. 0) b (model_id, nat i)) broken)))))))"

definition cp_candidates :: "int \<Rightarrow> compact_mem \<Rightarrow> mem_key list" where
  "cp_candidates active_model b =
     concat (map (\<lambda>(m, pages). if m \<noteq> active_model then map (Pair m) pages else []) (resident_pages b))"

text \<open>The shadow policy picks its victims one by one.\<close>

fun pick_victims :: "compact_mem \<Rightarrow> nat \<Rightarrow> mem_key list \<Rightarrow> mem_key list result" where
  "pick_victims b 0 remaining = Inr []"
| "pick_victims b (Suc n) remaining =
     r_bind (select_victim (\<lambda>_. 0) (\<lambda>_. Inr (page_size b)) b remaining) (\<lambda>victim.
       case victim of
         None \<Rightarrow> Inl KeyError
       | Some key \<Rightarrow> r_bind (pick_victims b n (remove1 key remaining)) (\<lambda>keys. Inr (key # keys)))"

definition page_order :: "compact_mem \<Rightarrow> nat \<Rightarrow> mem_key list \<Rightarrow> mem_key list result" where
  "page_order b n candidates =
     r_bind (r_map (\<lambda>key. r_bind (page_value b key) (\<lambda>v. Inr (v, key))) candidates) (\<lambda>valued.
       Inr (map snd (take n (sort valued))))"

definition cp_evict_pages :: "int \<Rightarrow> int \<Rightarrow> compact_mem \<times> load_cost \<Rightarrow> (bool \<times> compact_mem \<times> load_cost) result" where
  "cp_evict_pages page_count active_model = (\<lambda>(b, cost).
     if page_count \<le> 0 then Inr (True, b, cost)
     else let candidates = cp_candidates active_model b in
       if int (length candidates) < page_count then Inr (False, b, cost)
       else
         r_bind (if mem_policy b = ProtectedPipelineShadow then pick_victims b (nat page_count) candidates
                 else page_order b (nat page_count) candidates) (\<lambda>selected.
           Inr (True, foldl (\<lambda>b (m, page). set_pages m (remove1 page) b) b selected,
                charge_unmap b page_count page_count cost)))"

definition cp_evict_one :: "int \<Rightarrow> compact_mem \<times> load_cost \<Rightarrow> (bool \<times> compact_mem \<times> load_cost) result" where
  "cp_evict_one = cp_evict_pages 1"

definition evict_or_raise :: "py_error \<Rightarrow> (bool \<times> 's) result \<Rightarrow> 's result" where
  "evict_or_raise err r = r_bind r (\<lambda>(done_ok, s). if done_ok then Inr s else Inl err)"

definition cp_reclaim :: "int \<Rightarrow> int \<Rightarrow> compact_mem \<Rightarrow> (compact_mem \<times> load_cost) result" where
  "cp_reclaim = prefix_reclaim cp_prefix_count cp_prefix_bytes cp_commit_prefix"

definition cp_trim_to_capacity :: "int \<Rightarrow> compact_mem \<Rightarrow> (compact_mem \<times> load_cost) result" where
  "cp_trim_to_capacity active_model b =
     (let over = max 0 (cp_used_bytes b - weight_capacity_bytes b) in
      if mem_policy b = MckpPrefix then cp_reclaim active_model over b
      else evict_or_raise (RuntimeError ''No evictable compact page'')
             (cp_evict_pages (ceil_div over (page_size b)) active_model (b, no_cost)))"

section \<open>Requests\<close>

definition cp_begin_request :: "int \<Rightarrow> int \<Rightarrow> compact_mem \<Rightarrow> (compact_mem \<times> load_cost) result" where
  "cp_begin_request = mem_begin_request cp_trim_to_capacity"

definition cp_plan_request :: "int \<Rightarrow> tensor_spec list \<Rightarrow> compact_mem \<Rightarrow> (compact_mem \<times> load_cost) result" where
  "cp_plan_request = plan_request (\<lambda>b. Inr (cp_used_bytes b)) cp_missing_bytes cp_reclaim"

definition touch_pages :: "int \<Rightarrow> nat list \<Rightarrow> compact_mem \<Rightarrow> compact_mem" where
  "touch_pages model_id pages b = foldl (\<lambda>b page. mem_touch (model_id, page) b) b pages"

text \<open>The bytes of the arena that lie on the loaded pages.\<close>

definition loaded_bytes :: "int \<Rightarrow> int \<Rightarrow> nat list \<Rightarrow> int" where
  "loaded_bytes page model_bytes pages =
     (\<Sum>p \<leftarrow> pages. max 0 (min (int p * page + page) model_bytes - int p * page))"

definition cp_prepare_tensor :: "int \<Rightarrow> tensor_spec \<Rightarrow> compact_mem \<Rightarrow> (compact_mem \<times> load_cost) result" where
  "cp_prepare_tensor model_id tensor b =
     r_bind (mem_group b model_id tensor) (\<lambda>g.
     r_bind (dict_get (group_pages b) (model_id, group_id g)) (\<lambda>required.
     r_bind (dict_get (resident_pages b) model_id) (\<lambda>resident.
     let missing = filter (\<lambda>p. p \<notin> set resident) required in
     if missing = [] then Inr (touch_pages model_id required b, no_cost)
     else
       let needed = int (length missing) * page_size b;
           shortage = ceil_div (max 0 (cp_used_bytes b + needed - weight_capacity_bytes b)) (page_size b) in
       r_bind (if mem_policy b = MckpPrefix
               then r_bind (cp_reclaim model_id (shortage * page_size b) b) (\<lambda>(b', c). Inr (b', cost_add no_cost c))
               else evict_or_raise (RuntimeError ''Compact-page pool cannot fit tensor'')
                      (cp_evict_pages shortage model_id (b, no_cost))) (\<lambda>(b', cost).
       r_bind (dict_get (mb_models b') model_id) (\<lambda>model.
       let logical_h2d = loaded_bytes (page_size b') (tm_bytes model) missing; n = int (length missing) in
       r_bind (py_div (of_int logical_h2d) (h2d_bytes_per_ms (mb_args b'))) (\<lambda>h2d.
         Inr (touch_pages model_id required (set_pages model_id (\<lambda>pages. pages @ missing) b'),
              cost\<lparr> h2d_bytes := logical_h2d, h2d_ms := h2d, map_calls := n, mapped_pages := n,
                    map_ms := of_int n * (map_fixed_ms (mb_args b') + map_per_page_ms (mb_args b')) \<rparr>)))))))"

definition cp_physical_model_bytes :: "compact_mem \<Rightarrow> int \<Rightarrow> int result" where
  "cp_physical_model_bytes b model_id =
     r_bind (dict_get (mb_models b) model_id) (\<lambda>model.
       if page_size b = 0 then Inl ZeroDivisionError
       else Inr (ceil_div (tm_bytes model) (page_size b) * page_size b))"

text \<open>Logical bytes, internal fragmentation and stranded bytes of one model.\<close>

definition model_metrics :: "compact_mem \<Rightarrow> int \<times> tensor_model \<Rightarrow> (int \<times> int \<times> int) result" where
  "model_metrics b = (\<lambda>(model_id, model).
     r_bind (dict_get (resident_pages b) model_id) (\<lambda>resident.
     r_bind (r_map (\<lambda>t. r_bind (dict_get (tensor_pages b) (model_id, tensor_id t)) (\<lambda>pages.
               Inr (t, set pages \<subseteq> set resident))) (tensors model)) (\<lambda>checked.
     r_bind (dict_get (page_tensors b) model_id) (\<lambda>reverse.
     let complete = map fst (filter snd checked);
         valid = (\<lambda>p. max 0 (min (page_size b) (tm_bytes model - int p * page_size b)));
         is_stranded = (\<lambda>p. set (get_default (map_of reverse) p []) \<inter> tensor_id ` set complete = {}) in
     Inr (\<Sum>t \<leftarrow> complete. ts_bytes t, \<Sum>p \<leftarrow> resident. page_size b - valid p,
          \<Sum>p \<leftarrow> filter is_stranded resident. valid p)))))"

definition cp_metrics :: "compact_mem \<Rightarrow> mem_metrics result" where
  "cp_metrics b =
     (let physical = cp_used_bytes b in
      r_bind (r_map (model_metrics b) (mb_models b)) (\<lambda>ms.
        Inr \<lparr> logical_resident_bytes = \<Sum>(l, i, s) \<leftarrow> ms. l, physical_resident_bytes = physical,
              internal_fragmentation_bytes = \<Sum>(l, i, s) \<leftarrow> ms. i, external_fragmentation_ratio = 0,
              largest_free_extent_bytes = max 0 (weight_capacity_bytes b - physical),
              stranded_resident_bytes = \<Sum>(l, i, s) \<leftarrow> ms. s, kv_resident_bytes = None \<rparr>))"

definition cp_ops :: "compact_mem backend_ops" where
  "cp_ops = \<lparr> op_begin = cp_begin_request, op_plan = cp_plan_request, op_prepare = cp_prepare_tensor,
     op_finish = mem_finish_request, op_resident = cp_tensor_resident,
     op_physical_bytes = cp_physical_model_bytes,
     op_resident_bytes = resident_model_bytes cp_prefix_count cp_prefix_bytes,
     op_prefix_count = cp_prefix_count, op_suffix_start = (\<lambda>_ _. Inl AttributeError),
     op_metrics = cp_metrics \<rparr>"

section \<open>Layouts\<close>

text \<open>
  What a compact layout guarantees: tensors are numbered by position, a group is a byte range of
  the arena and the tensors of a group lie inside its range.
\<close>

definition compact_wf :: "tensor_model \<Rightarrow> bool" where
  "compact_wf model \<longleftrightarrow> map tensor_id (tensors model) = map int [0..<length (tensors model)]
     \<and> (\<forall>g \<in> set (groups model). 0 \<le> tg_offset g \<and> tg_offset g + tg_bytes g \<le> tm_bytes model)
     \<and> (\<forall>t \<in> set (tensors model). \<forall>i. map_of (tensor_to_group model) (tensor_id t) = Some i \<longrightarrow>
          tg_offset (groups model ! i) \<le> ts_offset t
          \<and> ts_offset t + ts_bytes t \<le> tg_offset (groups model ! i) + tg_bytes (groups model ! i))"

definition arena_pages :: "compact_mem \<Rightarrow> int \<Rightarrow> nat" where
  "arena_pages b m = (case map_of (mb_models b) m of None \<Rightarrow> 0 | Some model \<Rightarrow> nat (ceil_div (tm_bytes model) (page_size b)))"

lemma page_range_mono:
  assumes "0 < page" and "o1 \<le> o2" and "o2 + n2 \<le> o1 + n1"
  shows "set (page_range page o2 n2) \<subseteq> set (page_range page o1 n1)"
proof -
  have "o1 div page \<le> o2 div page" "(o2 + n2 - 1) div page \<le> (o1 + n1 - 1) div page"
    using assms by (auto intro: zdiv_mono1)
  then show ?thesis by (auto simp: page_range_def)
qed

lemma page_range_arena:
  assumes "0 < page" and "off + n \<le> total_bytes" and "p \<in> set (page_range page off n)"
  shows "p < nat (ceil_div total_bytes page)"
proof -
  have "(off + n - 1) div page + 1 \<le> ceil_div total_bytes page"
  proof -
    have "(off + n - 1) div page + 1 = (off + n - 1 + page) div page" using assms(1) by simp
    also have "\<dots> \<le> (total_bytes + page - 1) div page" using assms(1,2) by (intro zdiv_mono1) auto
    finally show ?thesis by (simp add: ceil_div_def)
  qed
  moreover have "int p < (off + n - 1) div page + 1" using assms(3) by (auto simp: page_range_def)
  ultimately show ?thesis by linarith
qed

section \<open>Invariant\<close>

definition cp_pages :: "compact_mem \<Rightarrow> int \<Rightarrow> nat list" where
  "cp_pages b m = (case map_of (resident_pages b) m of None \<Rightarrow> [] | Some ps \<Rightarrow> ps)"

definition cp_keys :: "compact_mem \<Rightarrow> mem_key set" where
  "cp_keys b = {(m, p). p \<in> set (cp_pages b m)}"

definition cp_tables :: "compact_mem \<Rightarrow> bool" where
  "cp_tables b \<longleftrightarrow> tensor_pages b = tensor_page_table (page_size b) (mb_models b)
     \<and> group_pages b = group_page_table (page_size b) (mb_models b)
     \<and> prefix_page_counts b = dict_of (concat (map (prefix_counts (page_size b)) (mb_models b)))
     \<and> page_tensors b = map (\<lambda>(m, model). (m, page_tensor_table (page_size b) model)) (mb_models b)"

definition cp_inv :: "compact_mem \<Rightarrow> bool" where
  "cp_inv b \<longleftrightarrow> models_wf (mb_models b) \<and> 0 < page_size b \<and> args_ok (mb_args b)
     \<and> (\<forall>(m, model) \<in> set (mb_models b). compact_wf model) \<and> cp_tables b
     \<and> map fst (resident_pages b) = map fst (mb_models b)
     \<and> (\<forall>m. distinct (cp_pages b m) \<and> set (cp_pages b m) \<subseteq> {..<arena_pages b m})"

lemma cp_pages_entry:
  "distinct (map fst (resident_pages b)) \<Longrightarrow> (m, ps) \<in> set (resident_pages b) \<Longrightarrow> cp_pages b m = ps"
  by (simp add: cp_pages_def)

lemma cp_inv_keys: "cp_inv b \<Longrightarrow> distinct (map fst (resident_pages b))"
  by (simp add: cp_inv_def models_wf_def)

lemma cp_pages_get:
  assumes "cp_inv b" and "m \<in> fst ` set (mb_models b)"
  shows "dict_get (resident_pages b) m = Inr (cp_pages b m)"
proof -
  have "m \<in> fst ` set (resident_pages b)" using assms by (metis cp_inv_def list.set_map)
  from map_of_mem [OF this] obtain ps where "map_of (resident_pages b) m = Some ps" by blast
  then show ?thesis by (simp add: cp_pages_def)
qed

lemma cp_pages_model:
  assumes "cp_inv b" and "p \<in> set (cp_pages b m)"
  shows "m \<in> fst ` set (mb_models b)"
proof -
  obtain ps where "map_of (resident_pages b) m = Some ps"
    using assms(2) by (cases "map_of (resident_pages b) m") (auto simp: cp_pages_def)
  then have "m \<in> set (map fst (resident_pages b))" by (force dest: map_of_SomeD)
  moreover have "map fst (resident_pages b) = map fst (mb_models b)" using assms(1) by (simp add: cp_inv_def)
  ultimately show ?thesis by (metis list.set_map)
qed

lemma distinct_keyed:
  "distinct (map fst rs) \<Longrightarrow> (\<And>m ps. (m, ps) \<in> set rs \<Longrightarrow> distinct ps) \<Longrightarrow>
   distinct (concat (map (\<lambda>(m, ps). map (Pair m) ps) rs))"
proof (induction rs)
  case (Cons r rs)
  obtain m ps where r: "r = (m, ps)" by (cases r)
  have "distinct (concat (map (\<lambda>(m, ps). map (Pair m) ps) rs))" by (rule Cons.IH) (use Cons.prems in auto)
  moreover have "distinct (map (Pair m) ps)" using Cons.prems(2) [of m ps] r by (simp add: distinct_map inj_on_def)
  moreover have "set (map (Pair m) ps) \<inter> set (concat (map (\<lambda>(m, ps). map (Pair m) ps) rs)) = {}"
    using Cons.prems(1) r by force
  ultimately show ?case by (simp add: r del: set_concat set_map)
qed simp

text \<open>The resident pages as a set, and the bytes they take.\<close>

definition cp_list :: "compact_mem \<Rightarrow> mem_key list" where
  "cp_list b = concat (map (\<lambda>(m, ps). map (Pair m) ps) (resident_pages b))"

lemma cp_list_keys:
  assumes "cp_inv b"
  shows "set (cp_list b) = cp_keys b" and "distinct (cp_list b)"
proof -
  have d: "distinct (map fst (resident_pages b))" using assms by (rule cp_inv_keys)
  show "set (cp_list b) = cp_keys b"
    using d by (force simp: cp_list_def cp_keys_def cp_pages_def split: option.splits dest: map_of_SomeD)
  have "distinct ps" if "(m, ps) \<in> set (resident_pages b)" for m ps
    using assms cp_pages_entry [OF d that] by (metis cp_inv_def)
  then show "distinct (cp_list b)"
    unfolding cp_list_def using d by (intro distinct_keyed)
qed

lemma cp_used_card:
  assumes "cp_inv b"
  shows "cp_used_bytes b = int (card (cp_keys b)) * page_size b" and "finite (cp_keys b)"
proof -
  have "(\<Sum>(m, ps) \<leftarrow> rs. int (length ps)) = int (length (concat (map (\<lambda>(m, ps). map (Pair m) ps) rs)))"
    for rs :: "(int \<times> nat list) list"
    by (induction rs) auto
  then have "(\<Sum>(m, ps) \<leftarrow> resident_pages b. int (length ps)) = int (length (cp_list b))" by (simp add: cp_list_def)
  moreover have "card (cp_keys b) = length (cp_list b)"
    using cp_list_keys [OF assms] by (metis distinct_card)
  ultimately show "cp_used_bytes b = int (card (cp_keys b)) * page_size b" by (simp add: cp_used_bytes_def)
  show "finite (cp_keys b)" using cp_list_keys(1) [OF assms] by (metis List.finite_set)
qed

section \<open>Replacing pages\<close>

lemma set_pages_pages:
  "cp_pages (set_pages m f b) m' = (if m' = m \<and> map_of (resident_pages b) m \<noteq> None then f (cp_pages b m) else cp_pages b m')"
proof -
  have "map_of (map (\<lambda>(k, ps). (k, if k = m then f ps else ps)) rs) m'
      = (case map_of rs m' of None \<Rightarrow> None | Some ps \<Rightarrow> Some (if m' = m then f ps else ps))" for rs
    by (induction rs) auto
  then show ?thesis by (auto simp: cp_pages_def set_pages_def split: option.splits)
qed

lemma set_pages_sel [simp]:
  "mb_models (set_pages m f b) = mb_models b" "page_size (set_pages m f b) = page_size b"
  "mb_args (set_pages m f b) = mb_args b" "weight_capacity_bytes (set_pages m f b) = weight_capacity_bytes b"
  "capacity_bytes (set_pages m f b) = capacity_bytes b" "model_accesses (set_pages m f b) = model_accesses b"
  "tensor_pages (set_pages m f b) = tensor_pages b" "group_pages (set_pages m f b) = group_pages b"
  "prefix_page_counts (set_pages m f b) = prefix_page_counts b" "page_tensors (set_pages m f b) = page_tensors b"
  "map fst (resident_pages (set_pages m f b)) = map fst (resident_pages b)"
  "fst ` set (resident_pages (set_pages m f b)) = fst ` set (resident_pages b)"
  by (auto simp: set_pages_def o_def split_def image_image)

text \<open>The configuration, which replacement never changes.\<close>

definition cp_setup :: "compact_mem \<Rightarrow> (int \<times> tensor_model) list \<times> int \<times> int \<times> sim_args" where
  "cp_setup b = (mb_models b, capacity_bytes b, page_size b, mb_args b)"

definition cp_same :: "compact_mem \<Rightarrow> compact_mem \<Rightarrow> bool" where
  "cp_same b b' \<longleftrightarrow> cp_setup b' = cp_setup b \<and> model_accesses b' = model_accesses b
     \<and> weight_capacity_bytes b' = weight_capacity_bytes b \<and> (cp_tables b \<longrightarrow> cp_tables b')
     \<and> map fst (resident_pages b') = map fst (resident_pages b)"

lemma cp_same_set_pages: "cp_same b (set_pages m f b)"
  by (simp add: cp_same_def cp_setup_def cp_tables_def)

lemma cp_same_trans: "cp_same b b1 \<Longrightarrow> cp_same b1 b2 \<Longrightarrow> cp_same b b2"
  by (simp add: cp_same_def)

lemma cp_same_refl [simp]: "cp_same b b"
  by (simp add: cp_same_def)

lemma cp_inv_same:
  assumes "cp_inv b" and "cp_same b b'" and "\<And>m. distinct (cp_pages b' m) \<and> set (cp_pages b' m) \<subseteq> {..<arena_pages b m}"
  shows "cp_inv b'"
proof -
  have "mb_models b' = mb_models b" "page_size b' = page_size b" "mb_args b' = mb_args b"
    using assms(2) by (auto simp: cp_same_def cp_setup_def)
  moreover from this have "arena_pages b' m = arena_pages b m" for m by (simp add: arena_pages_def split: option.split)
  ultimately show ?thesis using assms by (auto simp: cp_inv_def cp_same_def)
qed

text \<open>Releasing a list of distinct resident pages.\<close>

lemma release_pages:
  assumes "cp_inv b" and "distinct keys" and "set keys \<subseteq> cp_keys b"
  shows "cp_inv (foldl (\<lambda>b (m, page). set_pages m (remove1 page) b) b keys)"
    and "cp_same b (foldl (\<lambda>b (m, page). set_pages m (remove1 page) b) b keys)"
    and "cp_keys (foldl (\<lambda>b (m, page). set_pages m (remove1 page) b) b keys) = cp_keys b - set keys"
proof -
  let ?rel = "foldl (\<lambda>b (m, page). set_pages m (remove1 page) b)"
  have "cp_inv (?rel b keys) \<and> cp_same b (?rel b keys) \<and> cp_keys (?rel b keys) = cp_keys b - set keys"
    using assms
  proof (induction keys arbitrary: b)
    case (Cons key keys)
    obtain m p where key: "key = (m, p)" by (cases key)
    let ?b = "set_pages m (remove1 p) b"
    have d: "distinct (cp_pages b m')" "set (cp_pages b m') \<subseteq> {..<arena_pages b m'}" for m'
      using Cons.prems(1) by (auto simp: cp_inv_def)
    have inv: "cp_inv ?b"
    proof (rule cp_inv_same [OF Cons.prems(1) cp_same_set_pages])
      fix m'
      have "set (remove1 p (cp_pages b m)) \<subseteq> set (cp_pages b m)" by (rule set_remove1_subset)
      then show "distinct (cp_pages ?b m') \<and> set (cp_pages ?b m') \<subseteq> {..<arena_pages b m'}"
        using d [of m'] by (auto simp: set_pages_pages)
    qed
    have keys: "cp_keys ?b = cp_keys b - {(m, p)}"
    proof -
      have "map_of (resident_pages b) m \<noteq> None"
        using Cons.prems(3) key by (cases "map_of (resident_pages b) m") (auto simp: cp_keys_def cp_pages_def)
      then show ?thesis using d(1) by (auto simp: cp_keys_def set_pages_pages split: if_splits)
    qed
    have "set keys \<subseteq> cp_keys ?b" using Cons.prems key keys by auto
    from Cons.IH [OF inv _ this] Cons.prems(2) show ?case
      using key keys cp_same_trans [OF cp_same_set_pages] by auto
  qed simp
  then show "cp_inv (?rel b keys)" "cp_same b (?rel b keys)" "cp_keys (?rel b keys) = cp_keys b - set keys" by blast+
qed

lemma cp_candidates_keys:
  assumes "cp_inv b"
  shows "set (cp_candidates active b) = {key \<in> cp_keys b. fst key \<noteq> active}" and "distinct (cp_candidates active b)"
proof -
  have "cp_candidates active b = filter (\<lambda>key. fst key \<noteq> active) (cp_list b)"
    unfolding cp_candidates_def cp_list_def filter_concat map_map
    by (rule arg_cong [of _ _ concat], rule map_cong [OF refl]) (auto simp: filter_map o_def)
  then show "set (cp_candidates active b) = {key \<in> cp_keys b. fst key \<noteq> active}" "distinct (cp_candidates active b)"
    using cp_list_keys [OF assms] by auto
qed

lemma tensor_table_entry:
  assumes "distinct (map fst models)" and "map_of models m = Some model" and "distinct (map tensor_id (tensors model))"
    and "t \<in> set (tensors model)"
  shows "map_of (tensor_page_table page models) (m, tensor_id t) = Some (page_range page (ts_offset t) (ts_bytes t))"
proof -
  let ?kvs = "concat (map (\<lambda>(model_id, model).
     map (\<lambda>t. ((model_id, tensor_id t), page_range page (ts_offset t) (ts_bytes t))) (tensors model)) models)"
  have entry: "v = page_range page (ts_offset t) (ts_bytes t)" if v: "((m, tensor_id t), v) \<in> set ?kvs" for v
  proof -
    obtain model' t' where t': "(m, model') \<in> set models" "t' \<in> set (tensors model')" "tensor_id t' = tensor_id t"
        "v = page_range page (ts_offset t') (ts_bytes t')"
      using v by auto
    then have "model' = model" using assms(1,2) by simp
    then have "t' = t" using t'(2,3) assms(3,4) by (auto simp: distinct_map inj_on_def)
    then show ?thesis using t'(4) by simp
  qed
  have "((m, tensor_id t), page_range page (ts_offset t) (ts_bytes t)) \<in> set ?kvs"
    using assms(4) map_of_SomeD [OF assms(2)] by force
  then have "(m, tensor_id t) \<in> fst ` set ?kvs" by force
  from dict_of_total [OF this] obtain v where v: "map_of (dict_of ?kvs) (m, tensor_id t) = Some v" by blast
  with dict_of_values [OF v] entry show ?thesis by (simp add: tensor_page_table_def)
qed

lemma group_table_entry:
  assumes "distinct (map fst models)" and "map_of models m = Some model" and "model_wf model" and "i < length (groups model)"
  shows "map_of (group_page_table page models) (m, i)
     = Some (page_range page (tg_offset (groups model ! i)) (tg_bytes (groups model ! i)))"
proof -
  let ?kvs = "concat (map (\<lambda>(model_id, model).
     map (\<lambda>g. ((model_id, group_id g), page_range page (tg_offset g) (tg_bytes g))) (groups model)) models)"
  let ?v = "page_range page (tg_offset (groups model ! i)) (tg_bytes (groups model ! i))"
  have ids: "group_id (groups model ! j) = j" if "j < length (groups model)" for j
    using assms(3) that by (simp add: model_wf_def)
  have entry: "v = ?v" if v: "((m, i), v) \<in> set ?kvs" for v
  proof -
    obtain model' g where g: "(m, model') \<in> set models" "g \<in> set (groups model')" "group_id g = i"
        "v = page_range page (tg_offset g) (tg_bytes g)"
      using v by auto
    then have "model' = model" using assms(1,2) by simp
    then obtain j where "j < length (groups model)" "g = groups model ! j" using g(2) by (auto simp: in_set_conv_nth)
    then show ?thesis using g(3,4) ids by auto
  qed
  have "((m, i), ?v) \<in> set ?kvs"
    using map_of_SomeD [OF assms(2)] ids [OF assms(4)] nth_mem [OF assms(4)] by force
  then have "(m, i) \<in> fst ` set ?kvs" by force
  from dict_of_total [OF this] obtain v where v: "map_of (dict_of ?kvs) (m, i) = Some v" by blast
  with dict_of_values [OF v] entry show ?thesis by (simp add: group_page_table_def)
qed

lemma cp_model_facts:
  assumes "cp_inv b" and "map_of (mb_models b) m = Some model"
  shows "model_wf model" "compact_wf model" "distinct (map tensor_id (tensors model))" "distinct (map fst (mb_models b))"
proof -
  have mem: "(m, model) \<in> set (mb_models b)" using assms(2) by (rule map_of_SomeD)
  then show "model_wf model" "compact_wf model" "distinct (map fst (mb_models b))"
    using assms(1) by (auto simp: cp_inv_def models_wf_def)
  then have "map tensor_id (tensors model) = map int [0..<length (tensors model)]" by (simp add: compact_wf_def)
  then show "distinct (map tensor_id (tensors model))" by (simp add: distinct_map)
qed

text \<open>Every resident page has a value.\<close>

lemma page_value_total:
  assumes inv: "cp_inv b" and key: "(m, p) \<in> cp_keys b"
  shows "\<exists>v. page_value b (m, p) = Inr v"
proof (cases "mem_policy b = PipelineValue \<or> protected_policy (mem_policy b)")
  case False
  have "m \<in> fst ` set (mb_models b)" using key cp_pages_model [OF inv] by (auto simp: cp_keys_def)
  from map_of_mem [OF this] obtain model where model: "map_of (mb_models b) m = Some model" by blast
  note facts = cp_model_facts [OF inv model]
  have tabs: "cp_tables b" using inv by (simp add: cp_inv_def)
  have rev: "dict_get (page_tensors b) m = Inr (page_tensor_table (page_size b) model)"
    using tabs model by (simp add: cp_tables_def dict_get_def map_of_map)
  let ?ids = "get_default (map_of (page_tensor_table (page_size b) model)) p []"
  have mem: "\<exists>t \<in> set (tensors model). tensor_id t = i" if "i \<in> set ?ids" for i
  proof (cases "map_of (page_tensor_table (page_size b) model) p")
    case (Some ids)
    then have "i \<in> set ids" using that by (simp add: get_default_def)
    moreover have "set ids \<subseteq> tensor_id ` set (tensors model)"
      using map_of_SomeD [OF Some] by (auto simp: page_tensor_table_def)
    ultimately show ?thesis by blast
  qed (use that in \<open>simp add: get_default_def\<close>)
  have total: "\<exists>x. r_bind (tensor_at b m i) (\<lambda>_. r_bind (dict_get (tensor_pages b) (m, i)) (\<lambda>pages.
        Inr (i, set pages \<subseteq> set (cp_pages b m)))) = Inr x" if i: "i \<in> set ?ids" for i
  proof -
    obtain t where t: "t \<in> set (tensors model)" "tensor_id t = i" using mem [OF i] by blast
    have ids: "map tensor_id (tensors model) = map int [0..<length (tensors model)]" using facts(2) by (simp add: compact_wf_def)
    have "i \<in> set (map int [0..<length (tensors model)])" unfolding ids [symmetric] using t by force
    then have "0 \<le> i" "i < int (length (tensors model))" by auto
    then have "tensor_at b m i = Inr ()" using model by (simp add: tensor_at_def)
    moreover have "map_of (tensor_pages b) (m, i) = Some (page_range (page_size b) (ts_offset t) (ts_bytes t))"
      using tensor_table_entry [OF facts(4) model facts(3) t(1)] t(2) tabs by (simp add: cp_tables_def)
    ultimately show ?thesis by simp
  qed
  from r_map_exists [of ?ids "\<lambda>i. r_bind (tensor_at b m i) (\<lambda>_. r_bind (dict_get (tensor_pages b) (m, i)) (\<lambda>pages.
        Inr (i, set pages \<subseteq> set (cp_pages b m))))", OF total] obtain checked where
    checked: "r_map (\<lambda>i. r_bind (tensor_at b m i) (\<lambda>_. r_bind (dict_get (tensor_pages b) (m, i)) (\<lambda>pages.
        Inr (i, set pages \<subseteq> set (cp_pages b m))))) ?ids = Inr checked" by blast
  have "dict_get (resident_pages b) m = Inr (cp_pages b m)"
    by (rule cp_pages_get [OF inv]) (use model in \<open>force dest: map_of_SomeD\<close>)
  then show ?thesis using False rev checked by (simp add: page_value_def Let_def)
qed (simp add: page_value_def)

text \<open>Both ways to choose victims return that many different candidates.\<close>

lemma pick_victims_ok:
  assumes "mb_models b \<noteq> []" and "n \<le> length keys" and "distinct keys"
  shows "\<exists>vs. pick_victims b n keys = Inr vs \<and> length vs = n \<and> distinct vs \<and> set vs \<subseteq> set keys"
  using assms(2,3)
proof (induction n arbitrary: keys)
  case (Suc n)
  have "keys \<noteq> []" using Suc.prems(1) by auto
  then obtain k where k: "select_victim (\<lambda>_. 0) (\<lambda>_. Inr (page_size b)) b keys = Inr (Some k)" "k \<in> set keys"
    using select_victim_total [of keys b "\<lambda>_. Inr (page_size b)"] assms(1) by blast
  have "n \<le> length (remove1 k keys)" "distinct (remove1 k keys)"
    using Suc.prems k(2) by (simp_all add: length_remove1)
  from Suc.IH [OF this] obtain vs where "pick_victims b n (remove1 k keys) = Inr vs" "length vs = n" "distinct vs"
      "set vs \<subseteq> set (remove1 k keys)" by blast
  then show ?case using k Suc.prems(2) by auto
qed simp

lemma page_order_ok:
  assumes inv: "cp_inv b" and keys: "set keys \<subseteq> cp_keys b" "distinct keys" and "n \<le> length keys"
  shows "\<exists>vs. page_order b n keys = Inr vs \<and> length vs = n \<and> distinct vs \<and> set vs \<subseteq> set keys"
proof -
  have "\<exists>x. r_bind (page_value b key) (\<lambda>v. Inr (v, key)) = Inr x" if k: "key \<in> set keys" for key
  proof -
    obtain v where "page_value b key = Inr v" using page_value_total [OF inv, of "fst key" "snd key"] keys(1) k by auto
    then show ?thesis by simp
  qed
  from r_map_exists [of keys "\<lambda>key. r_bind (page_value b key) (\<lambda>v. Inr (v, key))", OF this] obtain xs where xs: "r_map (\<lambda>key. r_bind (page_value b key) (\<lambda>v. Inr (v, key))) keys = Inr xs"
    by blast
  have snds: "map snd xs = keys"
    using xs by (induction keys arbitrary: xs) (auto simp: py_simps)
  have "distinct (map snd (sort xs))"
  proof -
    have "mset (map snd (sort xs)) = mset keys" using snds by (metis mset_map mset_sort)
    then show ?thesis using keys(2) by (metis distinct_count_atmost_1 set_mset_mset)
  qed
  then have "distinct (take n (map snd (sort xs)))" by (rule distinct_take)
  moreover have "set (take n (map snd (sort xs))) \<subseteq> set keys"
    using set_take_subset [of n "map snd (sort xs)"] snds by (metis set_map set_sort)
  moreover have "length (take n (map snd (sort xs))) = n" using assms(4) snds by (metis length_map length_sort length_take min.absorb2)
  ultimately show ?thesis using xs by (auto simp: page_order_def take_map)
qed

text \<open>The effect of evicting on behalf of \<open>active\<close>.\<close>

definition cp_shrunk :: "compact_mem \<Rightarrow> int \<Rightarrow> compact_mem \<Rightarrow> bool" where
  "cp_shrunk b active b' \<longleftrightarrow> cp_inv b' \<and> cp_same b b' \<and> cp_keys b' \<subseteq> cp_keys b
     \<and> (\<forall>p. (active, p) \<in> cp_keys b' \<longleftrightarrow> (active, p) \<in> cp_keys b)"

lemma cp_evict_pages_cases:
  assumes inv: "cp_inv b"
  shows "n \<le> int (card {key \<in> cp_keys b. fst key \<noteq> active}) \<Longrightarrow>
      \<exists>b'. cp_evict_pages n active (b, cost) = Inr (True, b', if n \<le> 0 then cost else charge_unmap b n n cost)
        \<and> cp_shrunk b active b' \<and> int (card (cp_keys b')) = int (card (cp_keys b)) - max 0 n"
    and "int (card {key \<in> cp_keys b. fst key \<noteq> active}) < n \<Longrightarrow> cp_evict_pages n active (b, cost) = Inr (False, b, cost)"
proof -
  note cand = cp_candidates_keys [OF inv, of active]
  have len: "int (length (cp_candidates active b)) = int (card {key \<in> cp_keys b. fst key \<noteq> active})"
    using cand by (metis distinct_card)
  show "cp_evict_pages n active (b, cost) = Inr (False, b, cost)"
    if "int (card {key \<in> cp_keys b. fst key \<noteq> active}) < n"
  proof -
    have "0 < n" using that by linarith
    then show ?thesis using that len by (simp add: cp_evict_pages_def Let_def)
  qed
  assume enough: "n \<le> int (card {key \<in> cp_keys b. fst key \<noteq> active})"
  show "\<exists>b'. cp_evict_pages n active (b, cost) = Inr (True, b', if n \<le> 0 then cost else charge_unmap b n n cost)
      \<and> cp_shrunk b active b' \<and> int (card (cp_keys b')) = int (card (cp_keys b)) - max 0 n"
  proof (cases "n \<le> 0")
    case True
    then show ?thesis using inv by (intro exI [of _ b]) (simp add: cp_evict_pages_def cp_shrunk_def)
  next
    case False
    have n: "nat n \<le> length (cp_candidates active b)" using enough len by linarith
    have sub: "set (cp_candidates active b) \<subseteq> cp_keys b" using cand(1) by auto
    have "cp_candidates active b \<noteq> []" using n False by auto
    then obtain key where "key \<in> cp_keys b" using sub by (meson last_in_set subsetD)
    then have ne: "mb_models b \<noteq> []" using cp_pages_model [OF inv] by (auto simp: cp_keys_def)
    obtain vs where vs: "(if mem_policy b = ProtectedPipelineShadow then pick_victims b (nat n) (cp_candidates active b)
          else page_order b (nat n) (cp_candidates active b)) = Inr vs"
        "length vs = nat n" "distinct vs" "set vs \<subseteq> set (cp_candidates active b)"
    proof (cases "mem_policy b = ProtectedPipelineShadow")
      case True
      then show thesis using that pick_victims_ok [OF ne n cand(2)] by auto
    next
      case False
      then show thesis using that page_order_ok [OF inv sub cand(2) n] by auto
    qed
    let ?b = "foldl (\<lambda>b (m, page). set_pages m (remove1 page) b) b vs"
    have "set vs \<subseteq> cp_keys b" using vs(4) sub by blast
    note rel = release_pages [OF inv vs(3) this]
    have "(active, p) \<notin> set vs" for p using vs(4) cand(1) by auto
    then have "cp_shrunk b active ?b" using rel by (auto simp: cp_shrunk_def)
    moreover have "card (cp_keys ?b) = card (cp_keys b) - nat n"
      unfolding rel(3) using \<open>set vs \<subseteq> cp_keys b\<close> cp_used_card(2) [OF inv] vs(2,3) by (simp add: card_Diff_subset distinct_card)
    moreover have "nat n \<le> card (cp_keys b)"
      using \<open>set vs \<subseteq> cp_keys b\<close> cp_used_card(2) [OF inv] vs(2,3) by (metis card_mono distinct_card)
    moreover have "cp_evict_pages n active (b, cost) = Inr (True, ?b, charge_unmap b n n cost)"
      using False enough len vs(1) by (auto simp: cp_evict_pages_def Let_def)
    ultimately show ?thesis using False by (intro exI [of _ ?b]) auto
  qed
qed

section \<open>The backend as a whole\<close>

definition cp_ok :: "compact_mem \<Rightarrow> bool" where
  "cp_ok b \<longleftrightarrow> cp_inv b \<and> mem_policy b \<noteq> MckpPrefix \<and> (\<forall>m \<in> fst ` set (mb_models b). \<exists>n. model_accesses b m = Some n)"

definition cp_fits :: "compact_mem \<Rightarrow> int \<Rightarrow> int \<Rightarrow> tensor_spec list \<Rightarrow> bool" where
  "cp_fits b kv m ts \<longleftrightarrow> (\<exists>model. map_of (mb_models b) m = Some model \<and> set ts \<subseteq> set (tensors model))
     \<and> int (arena_pages b m) * page_size b + kv \<le> capacity_bytes b"

definition cp_loadable :: "compact_mem \<Rightarrow> int \<Rightarrow> tensor_spec list \<Rightarrow> bool" where
  "cp_loadable b m ts \<longleftrightarrow> cp_ok b \<and> (\<exists>model. map_of (mb_models b) m = Some model \<and> set ts \<subseteq> set (tensors model))
     \<and> int (arena_pages b m) * page_size b \<le> weight_capacity_bytes b \<and> cp_used_bytes b \<le> weight_capacity_bytes b"

lemma cp_setup_eqs:
  assumes "cp_setup b' = cp_setup b"
  shows "mb_models b' = mb_models b" "capacity_bytes b' = capacity_bytes b" "page_size b' = page_size b" "mb_args b' = mb_args b"
    "arena_pages b' = arena_pages b" "cp_fits b' = cp_fits b" "mem_group b' = mem_group b"
proof -
  show sel: "mb_models b' = mb_models b" "capacity_bytes b' = capacity_bytes b" "page_size b' = page_size b" "mb_args b' = mb_args b"
    using assms by (simp_all add: cp_setup_def)
  show "arena_pages b' = arena_pages b" using sel by (simp add: arena_pages_def fun_eq_iff split: option.split)
  then show "cp_fits b' = cp_fits b" using sel by (simp add: cp_fits_def fun_eq_iff)
  show "mem_group b' = mem_group b" using sel by (simp add: mem_group_def group_at_def fun_eq_iff)
qed

text \<open>
  Room for \<open>k\<close> more pages of the active model: with \<open>a\<close> of its pages resident and all of them
  fitting, the shortage is within what the other models hold, and evicting it makes the room.
\<close>

lemma shortage_bound:
  assumes "0 < page" and "a + k \<le> total_pages" and "total_pages * page \<le> cap" and "0 \<le> i"
  shows "ceil_div (max 0 ((a + i) * page + k * page - cap)) page \<le> i"
    and "(a + i - max 0 (ceil_div (max 0 ((a + i) * page + k * page - cap)) page)) * page + k * page \<le> cap"
proof -
  let ?over = "max 0 ((a + i) * page + k * page - cap)"
  let ?n = "ceil_div ?over page"
  have "(a + k) * page \<le> total_pages * page" using assms(1,2) by (intro mult_right_mono) auto
  then have le: "(a + k) * page \<le> cap" using assms(3) by simp
  have "0 \<le> i * page" using assms(1,4) by simp
  then have "?over \<le> i * page" using le by (simp add: algebra_simps)
  then show "?n \<le> i" using ceil_div_least(2) [OF assms(1)] by blast
  have "?over \<le> ?n * page" using ceil_div_least(1) [OF assms(1)] by blast
  moreover have "0 \<le> ?n" using assms(1) by (intro ceil_div_nonneg) auto
  ultimately show "(a + i - max 0 ?n) * page + k * page \<le> cap" by (simp add: algebra_simps)
qed

definition cp_active :: "compact_mem \<Rightarrow> int \<Rightarrow> int" where
  "cp_active b m = int (length (cp_pages b m))"

lemma cp_split:
  assumes "cp_inv b"
  shows "int (card (cp_keys b)) = cp_active b m + int (card {key \<in> cp_keys b. fst key \<noteq> m})"
proof -
  have fin: "finite (cp_keys b)" by (rule cp_used_card(2) [OF assms])
  have "cp_keys b = Pair m ` set (cp_pages b m) \<union> {key \<in> cp_keys b. fst key \<noteq> m}" by (auto simp: cp_keys_def)
  moreover have "card (Pair m ` set (cp_pages b m) \<union> {key \<in> cp_keys b. fst key \<noteq> m})
      = card (Pair m ` set (cp_pages b m)) + card {key \<in> cp_keys b. fst key \<noteq> m}"
    by (rule card_Un_disjoint) (use fin in auto)
  moreover have "card (Pair m ` set (cp_pages b m)) = length (cp_pages b m)"
    using assms by (simp add: card_image inj_on_def distinct_card cp_inv_def)
  ultimately show ?thesis by (simp add: cp_active_def)
qed

lemma cp_evict_room:
  assumes ok: "cp_ok b" and fit: "cp_active b m + k \<le> int (arena_pages b m)" and k: "0 \<le> k"
    and cap: "int (arena_pages b m) * page_size b \<le> weight_capacity_bytes b"
    and n: "n = ceil_div (max 0 (cp_used_bytes b + k * page_size b - weight_capacity_bytes b)) (page_size b)"
  shows "\<exists>b' c. evict_or_raise err (cp_evict_pages n m (b, no_cost)) = Inr (b', c) \<and> cp_ok b' \<and> cp_shrunk b m b'
     \<and> cost_ok c \<and> cp_used_bytes b' + k * page_size b' \<le> weight_capacity_bytes b'"
proof -
  have inv: "cp_inv b" and page: "0 < page_size b" and args: "args_ok (mb_args b)" using ok by (auto simp: cp_ok_def cp_inv_def)
  let ?I = "{key \<in> cp_keys b. fst key \<noteq> m}"
  have used: "cp_used_bytes b = (cp_active b m + int (card ?I)) * page_size b"
    using cp_used_card(1) [OF inv] cp_split [OF inv, of m] by simp
  note bound = shortage_bound [OF page fit cap of_nat_0_le_iff, of "card ?I", folded used, folded n]
  obtain b' where ev: "cp_evict_pages n m (b, no_cost) = Inr (True, b', if n \<le> 0 then no_cost else charge_unmap b n n no_cost)"
      "cp_shrunk b m b'" "int (card (cp_keys b')) = int (card (cp_keys b)) - max 0 n"
    using cp_evict_pages_cases(1) [OF inv, of n m no_cost] bound(1) by auto
  have same: "mb_models b' = mb_models b" "page_size b' = page_size b" "weight_capacity_bytes b' = weight_capacity_bytes b"
      "cp_inv b'" "model_accesses b' = model_accesses b" "mb_args b' = mb_args b"
    using ev(2) by (auto simp: cp_shrunk_def cp_same_def cp_setup_def)
  have "cp_used_bytes b' = (cp_active b m + int (card ?I) - max 0 n) * page_size b"
    using cp_used_card(1) [OF same(4)] ev(3) cp_split [OF inv, of m] same(2) by simp
  moreover have "cost_ok (if n \<le> 0 then no_cost else charge_unmap b n n no_cost)"
    using cost_ok_charge [OF args, of n no_cost n] by simp
  moreover have "cp_ok b'" using ok same by (simp add: cp_ok_def)
  ultimately show ?thesis using ev(1,2) bound(2) same by (auto simp: evict_or_raise_def)
qed

lemma cp_active_arena:
  assumes "cp_inv b"
  shows "cp_active b m \<le> int (arena_pages b m)"
proof -
  have "card (set (cp_pages b m)) \<le> card {..<arena_pages b m}"
    using assms by (intro card_mono) (auto simp: cp_inv_def)
  then show ?thesis using assms by (simp add: cp_active_def cp_inv_def distinct_card)
qed

lemma cp_begin_ok:
  assumes ok: "cp_ok b" and fits: "cp_fits b kv m ts"
  shows "\<exists>b' c. cp_begin_request kv m b = Inr (b', c) \<and> cp_loadable b' m ts \<and> cp_setup b' = cp_setup b \<and> cost_ok c"
proof -
  let ?b = "b\<lparr> weight_capacity_bytes := max 0 (capacity_bytes b - kv) \<rparr>"
  have arena: "arena_pages ?b = arena_pages b" by (simp add: arena_pages_def fun_eq_iff split: option.split)
  have pages: "cp_pages ?b = cp_pages b" by (simp add: cp_pages_def fun_eq_iff)
  have ok': "cp_ok ?b" using ok by (simp add: cp_ok_def cp_inv_def cp_tables_def arena pages)
  have cap: "int (arena_pages ?b m) * page_size ?b \<le> weight_capacity_bytes ?b" using fits by (auto simp: cp_fits_def arena)
  have "cp_active ?b m + 0 \<le> int (arena_pages ?b m)" using cp_active_arena [of ?b m] ok' by (simp add: cp_ok_def)
  from cp_evict_room [OF ok' this order_refl cap refl, of "RuntimeError ''No evictable compact page''"]
  obtain b' c where ev: "evict_or_raise (RuntimeError ''No evictable compact page'')
        (cp_evict_pages (ceil_div (max 0 (cp_used_bytes ?b + 0 * page_size ?b - weight_capacity_bytes ?b)) (page_size ?b)) m (?b, no_cost))
      = Inr (b', c)"
    and b': "cp_ok b'" "cp_shrunk ?b m b'" "cost_ok c" "cp_used_bytes b' + 0 * page_size b' \<le> weight_capacity_bytes b'" by blast
  have "mem_policy ?b \<noteq> MckpPrefix" using ok' by (simp add: cp_ok_def)
  then have run: "cp_trim_to_capacity m ?b = Inr (b', c)" using ev by (simp add: cp_trim_to_capacity_def Let_def)
  have cfg: "cp_setup b' = cp_setup ?b" "weight_capacity_bytes b' = weight_capacity_bytes ?b"
    using b'(2) by (auto simp: cp_shrunk_def cp_same_def)
  note eqs = cp_setup_eqs [OF cfg(1)]
  have "cp_loadable b' m ts" using b' fits cap eqs cfg(2) arena by (auto simp: cp_loadable_def cp_fits_def)
  then show ?thesis using run b'(3) cfg(1) by (auto simp: cp_begin_request_def mem_begin_request_def cp_setup_def)
qed

lemma touch_pages_sel [simp]:
  "mb_models (touch_pages m ps b) = mb_models b" "page_size (touch_pages m ps b) = page_size b"
  "mb_args (touch_pages m ps b) = mb_args b" "weight_capacity_bytes (touch_pages m ps b) = weight_capacity_bytes b"
  "capacity_bytes (touch_pages m ps b) = capacity_bytes b" "model_accesses (touch_pages m ps b) = model_accesses b"
  "tensor_pages (touch_pages m ps b) = tensor_pages b" "group_pages (touch_pages m ps b) = group_pages b"
  "prefix_page_counts (touch_pages m ps b) = prefix_page_counts b" "page_tensors (touch_pages m ps b) = page_tensors b"
  "resident_pages (touch_pages m ps b) = resident_pages b"
  unfolding touch_pages_def by (induction ps arbitrary: b; simp add: mem_touch_def)+

lemma cp_ok_touch [simp]:
  "cp_ok (touch_pages m ps b) = cp_ok b" "cp_used_bytes (touch_pages m ps b) = cp_used_bytes b"
  "cp_setup (touch_pages m ps b) = cp_setup b" "cp_pages (touch_pages m ps b) = cp_pages b"
proof -
  show pages: "cp_pages (touch_pages m ps b) = cp_pages b" by (simp add: cp_pages_def fun_eq_iff)
  have "arena_pages (touch_pages m ps b) = arena_pages b" by (simp add: arena_pages_def fun_eq_iff split: option.split)
  then show "cp_ok (touch_pages m ps b) = cp_ok b" using pages by (simp add: cp_ok_def cp_inv_def cp_tables_def)
  show "cp_used_bytes (touch_pages m ps b) = cp_used_bytes b" "cp_setup (touch_pages m ps b) = cp_setup b"
    by (simp_all add: cp_used_bytes_def cp_setup_def)
qed

lemma cp_tensor_entry:
  assumes inv: "cp_inv b" and model: "map_of (mb_models b) m = Some model" and t: "t \<in> set (tensors model)"
  shows "cp_tensor_resident b m t
     = Inr (set (page_range (page_size b) (ts_offset t) (ts_bytes t)) \<subseteq> set (cp_pages b m))"
proof -
  note facts = cp_model_facts [OF inv model]
  have "map_of (tensor_pages b) (m, tensor_id t) = Some (page_range (page_size b) (ts_offset t) (ts_bytes t))"
    using tensor_table_entry [OF facts(4) model facts(3) t] inv by (simp add: cp_inv_def cp_tables_def)
  moreover have "dict_get (resident_pages b) m = Inr (cp_pages b m)"
    by (rule cp_pages_get [OF inv]) (use model in \<open>force dest: map_of_SomeD\<close>)
  ultimately show ?thesis by (simp add: cp_tensor_resident_def)
qed

lemma cp_resident_mono:
  assumes "cp_setup b' = cp_setup b" and "tensor_pages b' = tensor_pages b" and "set (cp_pages b m) \<subseteq> set (cp_pages b' m)"
    and "map_of (resident_pages b') m \<noteq> None" and "cp_tensor_resident b m t = Inr True"
  shows "cp_tensor_resident b' m t = Inr True"
  using assms by (auto simp: cp_tensor_resident_def cp_pages_def py_simps dict_get_def split: option.splits)

lemma card_page_union:
  assumes "distinct ps" and "set ps \<subseteq> {..<n}" and "distinct qs" and "set qs \<subseteq> {..<n}"
  shows "length ps + length (filter (\<lambda>p. p \<notin> set ps) qs) \<le> n"
proof -
  have "length ps + length (filter (\<lambda>p. p \<notin> set ps) qs) = card (set ps) + card (set qs - set ps)"
    using assms(1,3) by (simp add: distinct_card [symmetric] set_diff_eq)
  also have "\<dots> = card (set ps \<union> set qs)"
    by (metis Diff_disjoint List.finite_set Un_Diff_cancel card_Un_disjoint finite_Diff)
  also have "\<dots> \<le> card {..<n}" using assms(2,4) by (intro card_mono) auto
  finally show ?thesis by simp
qed

lemma loaded_bytes_nonneg: "0 \<le> loaded_bytes page total_bytes ps"
  unfolding loaded_bytes_def by (rule sum_list_nonneg_map) simp

lemma cp_add_pages:
  assumes ok: "cp_ok b" and m: "m \<in> fst ` set (mb_models b)" and new: "distinct qs" "set qs \<subseteq> {..<arena_pages b m}"
    "set qs \<inter> set (cp_pages b m) = {}"
  shows "cp_ok (set_pages m (\<lambda>ps. ps @ qs) b)" and "set (cp_pages (set_pages m (\<lambda>ps. ps @ qs) b) m) = set (cp_pages b m) \<union> set qs"
    and "cp_used_bytes (set_pages m (\<lambda>ps. ps @ qs) b) = cp_used_bytes b + int (length qs) * page_size b"
proof -
  let ?b = "set_pages m (\<lambda>ps. ps @ qs) b"
  have inv: "cp_inv b" using ok by (simp add: cp_ok_def)
  have "dict_get (resident_pages b) m = Inr (cp_pages b m)" by (rule cp_pages_get [OF inv m])
  then have some: "map_of (resident_pages b) m \<noteq> None" by (auto simp: dict_get_def split: option.splits)
  have pages: "cp_pages ?b m' = (if m' = m then cp_pages b m @ qs else cp_pages b m')" for m'
    using some by (auto simp: set_pages_pages)
  then show "set (cp_pages ?b m) = set (cp_pages b m) \<union> set qs" by simp
  have inv': "cp_inv ?b"
    by (rule cp_inv_same [OF inv cp_same_set_pages]) (use inv new pages in \<open>auto simp: cp_inv_def\<close>)
  then show "cp_ok ?b" using ok by (simp add: cp_ok_def)
  have "{key \<in> cp_keys ?b. fst key \<noteq> m} = {key \<in> cp_keys b. fst key \<noteq> m}" by (auto simp: cp_keys_def pages)
  then have "int (card (cp_keys ?b)) = int (card (cp_keys b)) + int (length qs)"
    using cp_split [OF inv, of m] cp_split [OF inv', of m] pages [of m] by (simp add: cp_active_def)
  then show "cp_used_bytes ?b = cp_used_bytes b + int (length qs) * page_size b"
    by (simp add: cp_used_card(1) [OF inv] cp_used_card(1) [OF inv'] algebra_simps)
qed

lemma cp_prepare_ok:
  assumes load: "cp_loadable b m (t # ts)"
  shows "\<exists>b' c. cp_prepare_tensor m t b = Inr (b', c) \<and> cp_loadable b' m ts \<and> cp_setup b' = cp_setup b \<and> cost_ok c
     \<and> cp_tensor_resident b' m t = Inr True
     \<and> (\<forall>t'. cp_tensor_resident b m t' = Inr True \<longrightarrow> cp_tensor_resident b' m t' = Inr True)"
proof -
  obtain model where ok: "cp_ok b" and model: "map_of (mb_models b) m = Some model" and t: "t \<in> set (tensors model)"
    and cap: "int (arena_pages b m) * page_size b \<le> weight_capacity_bytes b" and used: "cp_used_bytes b \<le> weight_capacity_bytes b"
    using load by (auto simp: cp_loadable_def)
  have inv: "cp_inv b" and page: "0 < page_size b" and args: "args_ok (mb_args b)" and wf: "models_wf (mb_models b)"
    using ok by (auto simp: cp_ok_def cp_inv_def)
  note facts = cp_model_facts [OF inv model]
  have m: "m \<in> fst ` set (mb_models b)" using model by (force dest: map_of_SomeD)
  obtain i where i: "map_of (tensor_to_group model) (tensor_id t) = Some i" "i < length (groups model)"
    using facts(1) t by (auto simp: model_wf_def)
  let ?g = "groups model ! i"
  let ?R = "page_range (page_size b) (tg_offset ?g) (tg_bytes ?g)"
  let ?M = "filter (\<lambda>p. p \<notin> set (cp_pages b m)) ?R"
  have gid: "group_id ?g = i" using facts(1) i(2) by (simp add: model_wf_def)
  have group: "mem_group b m t = Inr ?g" using model i by (simp add: mem_group_def group_at_def)
  have req: "dict_get (group_pages b) (m, i) = Inr ?R"
    using group_table_entry [OF facts(4) model facts(1) i(2)] inv by (simp add: cp_inv_def cp_tables_def)
  have res: "dict_get (resident_pages b) m = Inr (cp_pages b m)" by (rule cp_pages_get [OF inv m])
  have cover: "set (page_range (page_size b) (ts_offset t) (ts_bytes t)) \<subseteq> set ?R"
    using facts(2) t i(1) by (intro page_range_mono [OF page]) (auto simp: compact_wf_def)
  have R: "distinct ?R" "set ?R \<subseteq> {..<arena_pages b m}"
  proof -
    have "tg_offset ?g + tg_bytes ?g \<le> tm_bytes model" using facts(2) i(2) by (auto simp: compact_wf_def)
    then show "set ?R \<subseteq> {..<arena_pages b m}" using page_range_arena [OF page] model by (auto simp: arena_pages_def)
  qed (simp add: page_range_def)
  have finish: ?thesis if run: "cp_prepare_tensor m t b = Inr (b', c)" and "cost_ok c" and ok': "cp_ok b'"
      and same: "cp_setup b' = cp_setup b" "weight_capacity_bytes b' = weight_capacity_bytes b"
        "cp_used_bytes b' \<le> weight_capacity_bytes b'"
      and pages: "set (cp_pages b' m) = set (cp_pages b m) \<union> set ?R" for b' c
  proof -
    note eqs = cp_setup_eqs [OF same(1)]
    have inv': "cp_inv b'" using ok' by (simp add: cp_ok_def)
    have "cp_loadable b' m ts" using load ok' same eqs by (auto simp: cp_loadable_def)
    moreover have "cp_tensor_resident b' m t = Inr True"
      using cp_tensor_entry [OF inv', of m model t] model t eqs(1,3) cover pages by auto
    moreover have "cp_tensor_resident b' m t' = Inr True" if "cp_tensor_resident b m t' = Inr True" for t'
    proof (rule cp_resident_mono [OF same(1) _ _ _ that])
      show "tensor_pages b' = tensor_pages b" using inv inv' eqs(1,3) by (simp add: cp_inv_def cp_tables_def)
      show "map_of (resident_pages b') m \<noteq> None"
        using cp_pages_get [OF inv', of m] m eqs(1) by (auto simp: dict_get_def split: option.splits)
    qed (use pages in auto)
    ultimately show ?thesis using run \<open>cost_ok c\<close> same(1) by blast
  qed
  show ?thesis
  proof (cases "?M = []")
    case True
    then have sub: "set ?R \<subseteq> set (cp_pages b m)" by (auto simp: filter_empty_conv)
    have "cp_prepare_tensor m t b = Inr (touch_pages m ?R b, no_cost)"
      using group gid req res True by (simp add: cp_prepare_tensor_def)
    then show ?thesis by (rule finish) (use ok used sub in auto)
  next
    case False
    let ?k = "int (length ?M)"
    let ?n = "ceil_div (max 0 (cp_used_bytes b + ?k * page_size b - weight_capacity_bytes b)) (page_size b)"
    have fit: "cp_active b m + ?k \<le> int (arena_pages b m)"
      using card_page_union [of "cp_pages b m" "arena_pages b m" ?R] inv R by (auto simp: cp_active_def cp_inv_def)
    obtain b1 c1 where 1: "evict_or_raise (RuntimeError ''Compact-page pool cannot fit tensor'') (cp_evict_pages ?n m (b, no_cost))
        = Inr (b1, c1)" "cp_ok b1" "cp_shrunk b m b1" "cost_ok c1"
        "cp_used_bytes b1 + ?k * page_size b1 \<le> weight_capacity_bytes b1"
      using cp_evict_room [OF ok fit of_nat_0_le_iff cap refl, of "RuntimeError ''Compact-page pool cannot fit tensor''"] by blast
    have same1: "cp_setup b1 = cp_setup b" "weight_capacity_bytes b1 = weight_capacity_bytes b"
      using 1(3) by (auto simp: cp_shrunk_def cp_same_def)
    note eqs = cp_setup_eqs [OF same1(1)]
    have pages1: "set (cp_pages b1 m) = set (cp_pages b m)" using 1(3) by (auto simp: cp_shrunk_def cp_keys_def)
    have new: "distinct ?M" "set ?M \<subseteq> {..<arena_pages b1 m}" "set ?M \<inter> set (cp_pages b1 m) = {}"
      using R eqs(5) pages1 by auto
    have m1: "m \<in> fst ` set (mb_models b1)" using m eqs(1) by simp
    note added = cp_add_pages [OF 1(2) m1 new]
    let ?b = "touch_pages m ?R (set_pages m (\<lambda>ps. ps @ ?M) b1)"
    let ?c = "c1\<lparr> h2d_bytes := loaded_bytes (page_size b) (tm_bytes model) ?M,
        h2d_ms := of_int (loaded_bytes (page_size b) (tm_bytes model) ?M) / h2d_bytes_per_ms (mb_args b),
        map_calls := ?k, mapped_pages := ?k, map_ms := of_int ?k * (map_fixed_ms (mb_args b) + map_per_page_ms (mb_args b)) \<rparr>"
    have rate: "h2d_bytes_per_ms (mb_args b) \<noteq> 0" and policy: "mem_policy b \<noteq> MckpPrefix"
      using args ok by (auto simp: args_ok_def cp_ok_def)
    have "cp_prepare_tensor m t b = Inr (?b, ?c)"
      using group gid req res False policy 1(1) model eqs rate by (simp add: cp_prepare_tensor_def Let_def)
    then show ?thesis
    proof (rule finish)
      show "cost_ok ?c" using 1(4) args loaded_bytes_nonneg [of "page_size b" "tm_bytes model" ?M]
        by (simp add: cost_ok_def args_ok_def)
      show "cp_setup ?b = cp_setup b" using same1(1) by (simp add: cp_setup_def)
      show "set (cp_pages ?b m) = set (cp_pages b m) \<union> set ?R" using added(2) pages1 by auto
      show "cp_used_bytes ?b \<le> weight_capacity_bytes ?b" using added(3) 1(5) by simp
    qed (use added(1) same1(2) in simp_all)
  qed
qed

lemma cp_finish_ok:
  assumes load: "cp_loadable b m []"
  shows "\<exists>b'. mem_finish_request m b = Inr b' \<and> cp_ok b' \<and> cp_setup b' = cp_setup b \<and> cp_used_bytes b' = cp_used_bytes b
     \<and> weight_capacity_bytes b' = weight_capacity_bytes b \<and> (\<forall>t. cp_tensor_resident b' m t = cp_tensor_resident b m t)"
proof -
  have ok: "cp_ok b" and "m \<in> fst ` set (mb_models b)" using load by (auto simp: cp_loadable_def dest!: map_of_SomeD) force
  then obtain n where n: "model_accesses b m = Some n" by (auto simp: cp_ok_def)
  define b' where "b' = b\<lparr> model_accesses := (model_accesses b)(m \<mapsto> n + 1) \<rparr>"
  have "cp_pages b' = cp_pages b" "arena_pages b' = arena_pages b"
    by (simp_all add: b'_def cp_pages_def arena_pages_def fun_eq_iff split: option.split)
  then have "cp_ok b'" using ok by (simp add: cp_ok_def cp_inv_def cp_tables_def) (simp add: b'_def)
  moreover have "mem_finish_request m b = Inr b'" using n by (simp add: mem_finish_request_def b'_def)
  ultimately show ?thesis by (auto simp: b'_def cp_setup_def cp_used_bytes_def cp_tensor_resident_def)
qed

lemma cp_metrics_total: "cp_ok b \<Longrightarrow> \<exists>x. cp_metrics b = Inr x"
proof -
  assume ok: "cp_ok b"
  then have inv: "cp_inv b" by (simp add: cp_ok_def)
  have "\<exists>x. model_metrics b mm = Inr x" if mm: "mm \<in> set (mb_models b)" for mm
  proof -
    obtain m model where [simp]: "mm = (m, model)" by (cases mm)
    have model: "map_of (mb_models b) m = Some model"
      using mm inv by (simp add: cp_inv_def models_wf_def)
    note facts = cp_model_facts [OF inv model]
    have res: "dict_get (resident_pages b) m = Inr (cp_pages b m)"
      by (rule cp_pages_get [OF inv]) (use mm in force)
    have "dict_get (tensor_pages b) (m, tensor_id t) = Inr (page_range (page_size b) (ts_offset t) (ts_bytes t))"
      if "t \<in> set (tensors model)" for t
      using tensor_table_entry [OF facts(4) model facts(3) that] inv by (simp add: cp_inv_def cp_tables_def)
    then have "r_map (\<lambda>t. r_bind (dict_get (tensor_pages b) (m, tensor_id t)) (\<lambda>pages. Inr (t, set pages \<subseteq> set (cp_pages b m)))) (tensors model)
        = Inr (map (\<lambda>t. (t, set (page_range (page_size b) (ts_offset t) (ts_bytes t)) \<subseteq> set (cp_pages b m))) (tensors model))"
      by (intro r_map_total) simp
    moreover have "dict_get (page_tensors b) m = Inr (page_tensor_table (page_size b) model)"
      using inv model by (simp add: cp_inv_def cp_tables_def dict_get_def map_of_map)
    ultimately show ?thesis using res by (simp add: model_metrics_def Let_def)
  qed
  from r_map_exists [of "mb_models b" "model_metrics b", OF this] show ?thesis
    by (auto simp: cp_metrics_def Let_def)
qed

interpretation cpb: mem_backend cp_ops cp_ok cp_fits cp_loadable cp_setup cp_used_bytes weight_capacity_bytes
proof unfold_locales
  fix b :: compact_mem and m :: int and ts :: "tensor_spec list"
  show "cp_loadable b m ts \<Longrightarrow> cp_used_bytes b \<le> weight_capacity_bytes b" by (simp add: cp_loadable_def)
  show "cp_setup b' = cp_setup b \<Longrightarrow> cp_fits b' = cp_fits b" for b' by (rule cp_setup_eqs(6))
  show "cp_ok b \<Longrightarrow> \<exists>x. op_metrics cp_ops b = Inr x" by (simp add: cp_ops_def cp_metrics_total)
  show "cp_loadable b m ts \<Longrightarrow> \<exists>b' c. op_plan cp_ops m ts b = Inr (b', c) \<and> cp_loadable b' m ts
      \<and> cp_setup b' = cp_setup b \<and> cost_ok c"
    by (simp add: cp_ops_def cp_plan_request_def plan_request_def cp_loadable_def cp_ok_def)
qed (use cp_begin_ok cp_prepare_ok cp_finish_ok in \<open>simp_all add: cp_ops_def\<close>)

section \<open>Properties\<close>

lemma cp_init_ok:
  assumes "models_wf models" and "0 < page" and "args_ok args" and "\<forall>(m, model) \<in> set models. compact_wf model"
    and "replacement_policy args \<noteq> MckpPrefix"
  shows "\<exists>b. cp_init models capacity page args = Inr b \<and> cp_ok b \<and> mb_models b = models \<and> page_size b = page
     \<and> capacity_bytes b = capacity \<and> weight_capacity_bytes b = capacity \<and> cp_keys b = {}"
proof -
  define b where "b = mem_base.extend (mem_init models capacity page args)
      (compact_mem.fields (map (\<lambda>(model_id, _). (model_id, [])) models)
         (tensor_page_table page models) (group_page_table page models)
         (dict_of (concat (map (prefix_counts page) models)))
         (map (\<lambda>(model_id, model). (model_id, page_tensor_table page model)) models))"
  have sel: "mb_models b = models" "page_size b = page" "mb_args b = args" "capacity_bytes b = capacity"
      "weight_capacity_bytes b = capacity" "resident_pages b = map (\<lambda>(model_id, _). (model_id, [])) models" "cp_tables b"
      "\<And>m. m \<in> fst ` set models \<Longrightarrow> model_accesses b m = Some 0"
    by (simp_all add: b_def mem_init_def mem_base.defs compact_mem.defs cp_tables_def)
  have pages: "cp_pages b m = []" for m by (simp add: cp_pages_def sel map_of_map split: option.split)
  have "map fst (map (\<lambda>(model_id, _). (model_id, [])) models) = map fst models" by (induction models) auto
  then have "cp_inv b" using assms pages by (simp add: cp_inv_def sel)
  then have "cp_ok b" using assms(5) sel by (auto simp: cp_ok_def)
  moreover have "cp_init models capacity page args = Inr b" using assms(2) by (simp add: cp_init_def b_def)
  ultimately show ?thesis using sel pages by (auto simp: cp_keys_def)
qed

text \<open>
  Page eviction is exact or refused. Asked for a number of pages on behalf of a model, the
  compact-page backend either frees exactly that many pages, all of them resident and of other
  models, and charges exactly their bytes, or, when the other models hold fewer pages, it reports
  failure and leaves memory and cost untouched.
\<close>

lemma compact_page_eviction:
  assumes "cp_inv b" and "0 < n"
  shows "if n \<le> int (card {key \<in> cp_keys b. fst key \<noteq> active})
     then \<exists>b' cost'. cp_evict_pages n active (b, cost) = Inr (True, b', cost') \<and> cp_inv b' \<and> cp_keys b' \<subseteq> cp_keys b
       \<and> (\<forall>p. (active, p) \<in> cp_keys b' \<longleftrightarrow> (active, p) \<in> cp_keys b)
       \<and> cp_used_bytes b' = cp_used_bytes b - n * page_size b
       \<and> evicted_bytes cost' = evicted_bytes cost + n * page_size b
       \<and> unmapped_pages cost' = unmapped_pages cost + n
     else cp_evict_pages n active (b, cost) = Inr (False, b, cost)"
proof (cases "n \<le> int (card {key \<in> cp_keys b. fst key \<noteq> active})")
  case True
  obtain b' where b': "cp_evict_pages n active (b, cost) = Inr (True, b', charge_unmap b n n cost)" "cp_shrunk b active b'"
      "int (card (cp_keys b')) = int (card (cp_keys b)) - n"
    using cp_evict_pages_cases(1) [OF assms(1) True, of cost] assms(2) by auto
  have inv': "cp_inv b'" "page_size b' = page_size b" using b'(2) by (auto simp: cp_shrunk_def cp_same_def cp_setup_def)
  have "cp_used_bytes b' = cp_used_bytes b - n * page_size b"
    unfolding cp_used_card(1) [OF assms(1)] cp_used_card(1) [OF inv'(1)] inv'(2) b'(3) by (rule left_diff_distrib)
  then show ?thesis using True b'(1,2) inv'(1) by (simp add: cp_shrunk_def charge_unmap_def)
qed (use cp_evict_pages_cases(2) [OF assms(1)] in auto)


text \<open>Two arenas of 200 bytes, four pages of 64 bytes each, in a pool of 400 bytes.\<close>

definition demo_compact :: compact_mem where
  "demo_compact = projr (cp_init demo_models 400 64 (demo_args Lru))"

lemma demo_compact_ok:
  "cp_ok demo_compact" "mb_models demo_compact = demo_models" "page_size demo_compact = 64" "capacity_bytes demo_compact = 400"
proof -
  have "compact_wf (demo_tensor_model m)" for m
    by (simp add: compact_wf_def demo_tensor_model_def demo_tensor_def upt_rec)
  then have "\<forall>(m, model) \<in> set demo_models. compact_wf model" by (simp add: demo_models_def)
  from cp_init_ok [OF demo_models_wf _ demo_args_ok this, of 64 Lru 400] obtain b where
    "cp_init demo_models 400 64 (demo_args Lru) = Inr b" "cp_ok b" "mb_models b = demo_models" "page_size b = 64"
    "capacity_bytes b = 400" by (auto simp: demo_args_def)
  then show "cp_ok demo_compact" "mb_models demo_compact = demo_models" "page_size demo_compact = 64" "capacity_bytes demo_compact = 400"
    by (simp_all add: demo_compact_def)
qed


text \<open>Model 2 holds its first two pages while model 1 asks for two.\<close>

end
