(* ===== verification/Segment.thy ===== *)
theory Segment
  imports Page_Prefix Profile_Execution
begin

text \<open>
  The segment backend (\<open>SegmentMemory\<close> of \<open>tensor_sim_segment_backend.py\<close>): one contiguous
  pool, tiled by free and allocated extents, with first-fit allocation, coalescing on release
  and global compaction. The dict \<open>allocated_extents\<close> of the source is an index from keys to
  the extent objects of the list; its entries are the extents of the list that carry a key,
  so a lookup in it is a lookup in the list here. Keys are weight groups or, in the request-level
  subclass of \<open>Mock_Segment\<close>, blocks of attention state.
\<close>

section \<open>Extents\<close>

datatype seg_key = Weight int nat | KvBlock nat

record extent =
  ex_offset :: int
  ex_size :: int
  ex_key :: "seg_key option"

abbreviation ex_end :: "extent \<Rightarrow> int" where
  "ex_end e \<equiv> ex_offset e + ex_size e"

record seg_mem = mem_base +
  extents :: "extent list"
  compaction_count :: nat

definition seg_init :: "(int \<times> tensor_model) list \<Rightarrow> int \<Rightarrow> int \<Rightarrow> sim_args \<Rightarrow> seg_mem" where
  "seg_init models capacity page args = mem_base.extend (mem_init models capacity page args)
     (seg_mem.fields [\<lparr> ex_offset = 0, ex_size = capacity, ex_key = None \<rparr>] 0)"

definition allocated :: "extent list \<Rightarrow> extent list" where
  "allocated es = filter (\<lambda>e. ex_key e \<noteq> None) es"

definition find_extent :: "extent list \<Rightarrow> seg_key \<Rightarrow> extent option" where
  "find_extent es key = find (\<lambda>e. ex_key e = Some key) es"

definition seg_used_bytes :: "'x seg_mem_scheme \<Rightarrow> int" where
  "seg_used_bytes b = (\<Sum>e \<leftarrow> allocated (extents b). ex_size e)"

definition seg_object_bytes :: "'x seg_mem_scheme \<Rightarrow> mem_key \<Rightarrow> int result" where
  "seg_object_bytes b key =
     (case find_extent (extents b) (Weight (fst key) (snd key)) of None \<Rightarrow> Inl KeyError | Some e \<Rightarrow> Inr (ex_size e))"

section \<open>Placement\<close>

text \<open>The bytes that become contiguous when the extent at an index is released.\<close>

definition reclaim_span :: "extent list \<Rightarrow> nat \<Rightarrow> int" where
  "reclaim_span es i = ex_size (es ! i)
     + (if 0 < i \<and> ex_key (es ! (i - 1)) = None then ex_size (es ! (i - 1)) else 0)
     + (if i + 1 < length es \<and> ex_key (es ! (i + 1)) = None then ex_size (es ! (i + 1)) else 0)"

definition placement_rank :: "extent list \<Rightarrow> mem_key \<Rightarrow> int" where
  "placement_rank es key =
     (case filter (\<lambda>i. ex_key (es ! i) = Some (Weight (fst key) (snd key))) [0..<length es] of
        [] \<Rightarrow> 0 | i # _ \<Rightarrow> - reclaim_span es i)"

text \<open>The cache that \<open>_victims\<close> fills in one pass for the keys it may evict.\<close>

definition placement_cache :: "extent list \<Rightarrow> mem_key list \<Rightarrow> (mem_key \<times> int) list" where
  "placement_cache es remaining =
     dict_of (concat (map (\<lambda>i. case ex_key (es ! i) of
        Some (Weight m g) \<Rightarrow> if (m, g) \<in> set remaining then [((m, g), - reclaim_span es i)] else []
      | _ \<Rightarrow> []) [0..<length es]))"

definition weight_keys :: "extent list \<Rightarrow> mem_key list" where
  "weight_keys es = concat (map (\<lambda>e. case ex_key e of Some (Weight m g) \<Rightarrow> [(m, g)] | _ \<Rightarrow> []) es)"

definition seg_victims :: "int \<Rightarrow> 'x seg_mem_scheme \<Rightarrow> mem_key option result" where
  "seg_victims active_model b =
     (let remaining = remdups (filter (\<lambda>key. fst key \<noteq> active_model) (weight_keys (extents b)));
          cache = placement_cache (extents b) remaining in
      select_victim (\<lambda>key. get_default (map_of cache) key 0) (seg_object_bytes b) b remaining)"

section \<open>Releasing\<close>

definition coalesce_step :: "extent list \<Rightarrow> extent \<Rightarrow> extent list" where
  "coalesce_step es e =
     (if es \<noteq> [] \<and> ex_key (last es) = None \<and> ex_key e = None
      then butlast es @ [(last es)\<lparr> ex_size := ex_size (last es) + ex_size e \<rparr>]
      else es @ [e])"

definition coalesce :: "extent list \<Rightarrow> extent list" where
  "coalesce es = foldl coalesce_step [] es"

fun clear_key :: "seg_key \<Rightarrow> extent list \<Rightarrow> extent list" where
  "clear_key key [] = []"
| "clear_key key (e # es) = (if ex_key e = Some key then e\<lparr> ex_key := None \<rparr> # es else e # clear_key key es)"

text \<open>\<open>_free\<close>: the bytes released and the extents left.\<close>

definition free_extent :: "seg_key \<Rightarrow> bool \<Rightarrow> extent list \<Rightarrow> int \<times> extent list" where
  "free_extent key merge es =
     (case find_extent es key of
        None \<Rightarrow> (0, es)
      | Some e \<Rightarrow> (ex_size e, if merge then coalesce (clear_key key es) else clear_key key es))"

definition visible_free :: "int \<Rightarrow> extent \<Rightarrow> int" where
  "visible_free limit e = max 0 (min (ex_end e) limit - ex_offset e)"

definition free_within :: "'x seg_mem_scheme \<Rightarrow> extent list" where
  "free_within b = filter (\<lambda>e. ex_key e = None \<and> ex_offset e < weight_capacity_bytes b) (extents b)"

definition seg_free_bytes :: "'x seg_mem_scheme \<Rightarrow> int" where
  "seg_free_bytes b = (\<Sum>e \<leftarrow> free_within b. visible_free (weight_capacity_bytes b) e)"

definition seg_largest_free :: "'x seg_mem_scheme \<Rightarrow> int" where
  "seg_largest_free b =
     (case map (visible_free (weight_capacity_bytes b)) (free_within b) of [] \<Rightarrow> 0 | ns \<Rightarrow> Max (set ns))"

definition seg_evict_one :: "int \<Rightarrow> 'x seg_mem_scheme \<times> load_cost \<Rightarrow> (bool \<times> 'x seg_mem_scheme \<times> load_cost) result" where
  "seg_evict_one active_model = (\<lambda>(b, cost).
     r_bind (seg_victims active_model b) (\<lambda>victim. case victim of
       None \<Rightarrow> Inr (False, b, cost)
     | Some (m, g) \<Rightarrow>
         (case free_extent (Weight m g) True (extents b) of (released, es) \<Rightarrow>
            Inr (True, b\<lparr> extents := es \<rparr>,
                 cost\<lparr> evicted_objects := evicted_objects cost + 1,
                       evicted_bytes := evicted_bytes cost + released \<rparr>))))"

section \<open>Compaction\<close>

definition compact_step :: "int \<times> int \<times> extent list \<Rightarrow> extent \<Rightarrow> int \<times> int \<times> extent list" where
  "compact_step = (\<lambda>(cursor, moved, result) e.
     (cursor + ex_size e, if ex_offset e \<noteq> cursor then moved + ex_size e else moved,
      result @ [\<lparr> ex_offset = cursor, ex_size = ex_size e, ex_key = ex_key e \<rparr>]))"

definition compact_ms :: "'x mem_base_scheme \<Rightarrow> int \<Rightarrow> rat result" where
  "compact_ms b moved = r_bind (py_div (of_int moved) (gpu_copy_bytes_per_ms (mb_args b))) (\<lambda>ms.
     Inr (ms + compaction_fixed_ms (mb_args b)))"

definition seg_compact :: "'x seg_mem_scheme \<Rightarrow> ('x seg_mem_scheme \<times> load_cost) result" where
  "seg_compact b =
     (case foldl compact_step (0, 0, []) (allocated (extents b)) of (cursor, moved, es) \<Rightarrow>
        r_bind (compact_ms b moved) (\<lambda>ms.
          Inr (b\<lparr> extents := es @ (if cursor < capacity_bytes b
                    then [\<lparr> ex_offset = cursor, ex_size = capacity_bytes b - cursor, ex_key = None \<rparr>] else []),
                  compaction_count := compaction_count b + 1 \<rparr>,
               no_cost\<lparr> compaction_moved_bytes := moved, compaction_ms := ms \<rparr>)))"

lemma find_extent_mem: "find_extent es key = Some e \<Longrightarrow> e \<in> set es \<and> ex_key e = Some key"
  by (auto simp: find_extent_def find_Some_iff)

lemma find_extent_None: "find_extent es key = None \<longleftrightarrow> (\<forall>e \<in> set es. ex_key e \<noteq> Some key)"
  by (auto simp: find_extent_def find_None_iff)

lemma weight_keys_mem: "(m, g) \<in> set (weight_keys es) \<longleftrightarrow> (\<exists>e \<in> set es. ex_key e = Some (Weight m g))"
  by (force simp: weight_keys_def split: option.splits seg_key.splits)

lemma allocated_coalesce: "allocated (coalesce es) = allocated es"
proof -
  have "allocated (foldl coalesce_step acc es) = allocated (acc @ es)" for acc
  proof (induction es arbitrary: acc)
    case (Cons e es)
    have "allocated (coalesce_step acc e) = allocated (acc @ [e])"
      by (cases acc rule: rev_cases) (auto simp: coalesce_step_def allocated_def)
    with Cons show ?case by (simp add: allocated_def)
  qed (simp add: allocated_def)
  then show ?thesis by (simp add: coalesce_def)
qed

lemma allocated_clear_key:
  "allocated (clear_key key es) = (case find_extent es key of None \<Rightarrow> allocated es | Some e \<Rightarrow> remove1 e (allocated es))"
  by (induction es) (auto simp: allocated_def find_extent_def split: option.splits dest: find_extent_mem [unfolded find_extent_def])

section \<open>Eviction loops\<close>

text \<open>
  \<open>while <short of space>: evict one or give up\<close>. The loops of the source differ in the condition
  and in what they do without a victim, which is the result \<open>None\<close> here.
\<close>

lemma seg_evict_one_cases:
  "seg_evict_one active (b, cost) = Inr (True, b', cost') \<Longrightarrow>
   \<exists>m g e. seg_victims active b = Inr (Some (m, g)) \<and> m \<noteq> active \<and> find_extent (extents b) (Weight m g) = Some e
     \<and> b' = b\<lparr> extents := coalesce (clear_key (Weight m g) (extents b)) \<rparr>
     \<and> cost' = cost\<lparr> evicted_objects := evicted_objects cost + 1, evicted_bytes := evicted_bytes cost + ex_size e \<rparr>"
proof -
  assume run: "seg_evict_one active (b, cost) = Inr (True, b', cost')"
  obtain m g where v: "seg_victims active b = Inr (Some (m, g))"
    using run by (auto simp: seg_evict_one_def py_simps split: option.splits)
  then have mem: "(m, g) \<in> set (weight_keys (extents b))" "m \<noteq> active"
    by (auto simp: seg_victims_def Let_def dest!: select_victim_mem)
  then have "find_extent (extents b) (Weight m g) \<noteq> None"
    by (auto simp: find_extent_None weight_keys_mem)
  with run v mem(2) show ?thesis by (auto simp: seg_evict_one_def free_extent_def split: option.splits)
qed

lemma allocated_after_free:
  "find_extent es key = Some e \<Longrightarrow> allocated (coalesce (clear_key key es)) = remove1 e (allocated es)"
  by (simp add: allocated_coalesce allocated_clear_key)

lemma found_allocated: "find_extent es key = Some e \<Longrightarrow> e \<in> set (allocated es)"
  by (auto simp: allocated_def dest: find_extent_mem)

function seg_evict_while ::
  "('x seg_mem_scheme \<Rightarrow> bool) \<Rightarrow> int \<Rightarrow> 'x seg_mem_scheme \<times> load_cost \<Rightarrow>
   ('x seg_mem_scheme \<times> load_cost) option result" where
  "seg_evict_while short active_model (b, cost) =
     (if short b
      then r_bind (seg_evict_one active_model (b, cost)) (\<lambda>r.
             case r of (True, b', cost') \<Rightarrow> seg_evict_while short active_model (b', cost')
                     | (False, _) \<Rightarrow> Inr None)
      else Inr (Some (b, cost)))"
  by pat_completeness auto
termination
proof (relation "measure (\<lambda>(_, _, b, _). length (allocated (extents b)))", goal_cases)
  case (2 short active b cost r ok s b' cost')
  then have "seg_evict_one active (b, cost) = Inr (True, b', cost')" by simp
  from seg_evict_one_cases [OF this] show ?case
    using length_remove1_less found_allocated allocated_after_free by fastforce
qed simp

declare seg_evict_while.simps [simp del]

definition or_raise :: "py_error \<Rightarrow> 'a option result \<Rightarrow> 'a result" where
  "or_raise err r = r_bind r (\<lambda>x. case x of None \<Rightarrow> Inl err | Some y \<Rightarrow> Inr y)"

section \<open>Operations\<close>

definition moved_bytes :: "extent list \<Rightarrow> int" where
  "moved_bytes es = (case foldl compact_step (0, 0, []) (allocated es) of (_, moved, _) \<Rightarrow> moved)"

text \<open>\<open>_eviction_alternative_ms\<close>: the reload time of what a probe evicts; \<open>None\<close> is infinity.\<close>

definition eviction_alternative_ms :: "int \<Rightarrow> int \<Rightarrow> 'x seg_mem_scheme \<Rightarrow> rat option result" where
  "eviction_alternative_ms bytes active_model b =
     r_bind (seg_evict_while (\<lambda>p. seg_largest_free p < bytes) active_model (b, no_cost)) (\<lambda>probe.
       case probe of
         None \<Rightarrow> Inr None
       | Some (_, cost) \<Rightarrow> r_bind (py_div (of_int (evicted_bytes cost)) (h2d_bytes_per_ms (mb_args b))) (\<lambda>ms.
           Inr (Some ms)))"

definition seg_trim_to_capacity :: "int \<Rightarrow> 'x seg_mem_scheme \<Rightarrow> ('x seg_mem_scheme \<times> load_cost) result" where
  "seg_trim_to_capacity active_model b =
     r_bind (or_raise (RuntimeError ''No evictable segment for KV capacity'')
       (seg_evict_while (\<lambda>b. seg_used_bytes b > weight_capacity_bytes b) active_model (b, no_cost))) (\<lambda>(b', cost).
     if \<exists>e \<in> set (allocated (extents b')). ex_end e > weight_capacity_bytes b'
     then r_bind (seg_compact b') (\<lambda>(b'', c). Inr (b'', cost_add cost c))
     else Inr (b', cost))"

definition seg_begin_request :: "int \<Rightarrow> int \<Rightarrow> 'x seg_mem_scheme \<Rightarrow> ('x seg_mem_scheme \<times> load_cost) result" where
  "seg_begin_request kv active_model b =
     seg_trim_to_capacity active_model (b\<lparr> weight_capacity_bytes := max 0 (capacity_bytes b - kv) \<rparr>)"

definition seg_plan_request :: "int \<Rightarrow> tensor_spec list \<Rightarrow> 'x seg_mem_scheme \<Rightarrow> ('x seg_mem_scheme \<times> load_cost) result" where
  "seg_plan_request model_id ts b = Inr (b, no_cost)"

definition seg_tensor_resident :: "'x seg_mem_scheme \<Rightarrow> int \<Rightarrow> tensor_spec \<Rightarrow> bool result" where
  "seg_tensor_resident b model_id tensor = r_bind (mem_group b model_id tensor) (\<lambda>g.
     Inr (find_extent (extents b) (Weight model_id (group_id g)) \<noteq> None))"

text \<open>The contiguity step of \<open>prepare_tensor\<close>, by compaction policy.\<close>

definition make_contiguous :: "int \<Rightarrow> int \<Rightarrow> 'x seg_mem_scheme \<times> load_cost \<Rightarrow> ('x seg_mem_scheme \<times> load_cost) result" where
  "make_contiguous bytes model_id = (\<lambda>(b, cost).
     let compact = r_bind (seg_compact b) (\<lambda>(b', c). Inr (b', cost_add cost c));
         evict = (\<lambda>err. or_raise (RuntimeError err)
           (seg_evict_while (\<lambda>b. seg_largest_free b < bytes) model_id (b, cost))) in
     if seg_largest_free b < bytes then
       (case compaction_policy (mb_args b) of
          Never \<Rightarrow> evict ''Fragmented segment allocation''
        | CostAware \<Rightarrow>
            r_bind (compact_ms b (moved_bytes (extents b))) (\<lambda>compaction.
            r_bind (eviction_alternative_ms bytes model_id b) (\<lambda>eviction.
              if (case eviction of None \<Rightarrow> True | Some ms \<Rightarrow> compaction \<le> ms) then compact
              else evict ''Cost-aware segment allocation failed''))
        | OnAllocationFailure \<Rightarrow> compact)
     else Inr (b, cost))"

definition carve :: "extent \<Rightarrow> seg_key \<Rightarrow> int \<Rightarrow> extent list" where
  "carve e key bytes = \<lparr> ex_offset = ex_offset e, ex_size = bytes, ex_key = Some key \<rparr>
     # (if ex_size e > bytes
        then [\<lparr> ex_offset = ex_offset e + bytes, ex_size = ex_size e - bytes, ex_key = None \<rparr>] else [])"

text \<open>First fit below the limit; \<open>None\<close> when no free extent is large enough.\<close>

fun place_first :: "int \<Rightarrow> seg_key \<Rightarrow> int \<Rightarrow> extent list \<Rightarrow> extent list option" where
  "place_first limit key bytes [] = None"
| "place_first limit key bytes (e # es) =
     (if ex_key e = None \<and> ex_offset e < limit \<and> min (ex_size e) (limit - ex_offset e) \<ge> bytes
      then Some (carve e key bytes @ es)
      else map_option ((#) e) (place_first limit key bytes es))"

definition seg_prepare_tensor :: "int \<Rightarrow> tensor_spec \<Rightarrow> 'x seg_mem_scheme \<Rightarrow> ('x seg_mem_scheme \<times> load_cost) result" where
  "seg_prepare_tensor model_id tensor b =
     r_bind (mem_group b model_id tensor) (\<lambda>g.
     let key = (model_id, group_id g); bytes = tg_bytes g in
     if find_extent (extents b) (Weight model_id (group_id g)) \<noteq> None then Inr (mem_touch key b, no_cost)
     else
       r_bind (or_raise (RuntimeError ''Segment pool cannot fit tensor'')
         (seg_evict_while (\<lambda>b. seg_free_bytes b < bytes) model_id (b, no_cost))) (\<lambda>s.
       r_bind (make_contiguous bytes model_id s) (\<lambda>(b', cost).
       case place_first (weight_capacity_bytes b') (Weight model_id (group_id g)) bytes (extents b') of
         None \<Rightarrow> Inl (RuntimeError ''No contiguous segment after reclamation'')
       | Some es \<Rightarrow>
           r_bind (py_div (of_int bytes) (h2d_bytes_per_ms (mb_args b'))) (\<lambda>ms.
             Inr (mem_touch key (b'\<lparr> extents := es \<rparr>),
                  cost\<lparr> h2d_bytes := bytes, h2d_ms := ms,
                        allocation_ms := segment_allocation_ms (mb_args b') \<rparr>)))))"

definition seg_physical_model_bytes :: "'x seg_mem_scheme \<Rightarrow> int \<Rightarrow> int result" where
  "seg_physical_model_bytes b model_id =
     r_bind (dict_get (mb_models b) model_id) (\<lambda>model. Inr (tm_bytes model))"

definition seg_metrics :: "'x seg_mem_scheme \<Rightarrow> mem_metrics result" where
  "seg_metrics b =
     (let logical = seg_used_bytes b; free = seg_free_bytes b; largest = seg_largest_free b in
      Inr \<lparr> logical_resident_bytes = logical, physical_resident_bytes = logical,
        internal_fragmentation_bytes = 0,
        external_fragmentation_ratio = (if free = 0 then 0 else 1 - of_int largest / of_int free),
        largest_free_extent_bytes = largest, stranded_resident_bytes = 0, kv_resident_bytes = None \<rparr>)"

section \<open>Tilings of the pool\<close>

fun tiles :: "int \<Rightarrow> extent list \<Rightarrow> int \<Rightarrow> bool" where
  "tiles a [] z \<longleftrightarrow> a = z"
| "tiles a (e # es) z \<longleftrightarrow> ex_offset e = a \<and> 0 \<le> ex_size e \<and> tiles (ex_end e) es z"

lemma tiles_append: "tiles a (xs @ ys) z \<longleftrightarrow> (\<exists>m. tiles a xs m \<and> tiles m ys z)"
  by (induction xs arbitrary: a) auto

lemma tiles_le: "tiles a es z \<Longrightarrow> a \<le> z"
  by (induction es arbitrary: a) force+

lemma tiles_bounds: "tiles a es z \<Longrightarrow> e \<in> set es \<Longrightarrow> a \<le> ex_offset e \<and> 0 \<le> ex_size e \<and> ex_end e \<le> z"
proof (induction es arbitrary: a)
  case (Cons x es)
  then show ?case using tiles_le [of "ex_end x" es z] by (fastforce simp: Cons.IH)
qed simp

lemma tiles_coalesce:
  assumes "tiles a es z"
  shows "tiles a (coalesce es) z"
proof -
  have "tiles a (foldl coalesce_step acc es) z" if "tiles a (acc @ es) z" for acc
    using that
  proof (induction es arbitrary: acc)
    case (Cons e es)
    have "tiles a (coalesce_step acc e @ es) z"
      using Cons.prems by (cases acc rule: rev_cases) (auto simp: coalesce_step_def tiles_append add.assoc)
    with Cons.IH show ?case by simp
  qed simp
  with assms show ?thesis by (simp add: coalesce_def)
qed

lemma tiles_clear_key: "tiles a es z \<Longrightarrow> tiles a (clear_key key es) z"
  by (induction es arbitrary: a) auto

text \<open>The free bytes below a limit under which all allocations lie.\<close>

definition free_below :: "int \<Rightarrow> extent list \<Rightarrow> int" where
  "free_below limit es = (\<Sum>e \<leftarrow> filter (\<lambda>e. ex_key e = None \<and> ex_offset e < limit) es. visible_free limit e)"

lemma free_below_tiles:
  assumes "tiles a es z" and "limit \<le> z" and "\<forall>e \<in> set (allocated es). ex_end e \<le> limit"
  shows "free_below limit es + (\<Sum>e \<leftarrow> allocated es. ex_size e) = max 0 (limit - a)"
  using assms
proof (induction es arbitrary: a)
  case (Cons e es)
  have IH: "free_below limit es + (\<Sum>e \<leftarrow> allocated es. ex_size e) = max 0 (limit - ex_end e)"
    using Cons.IH [of "ex_end e"] Cons.prems by (auto simp: allocated_def)
  show ?case
  proof (cases "ex_key e = None")
    case True
    then show ?thesis using IH Cons.prems(1)
      by (auto simp: free_below_def allocated_def visible_free_def max_def min_def split: if_splits)
  next
    case False
    then show ?thesis using IH Cons.prems(1,3) by (auto simp: free_below_def allocated_def)
  qed
qed (simp add: free_below_def allocated_def)

lemma seg_free_bytes_below: "seg_free_bytes b = free_below (weight_capacity_bytes b) (extents b)"
  by (simp add: seg_free_bytes_def free_within_def free_below_def)

lemma free_below_nonneg: "0 \<le> free_below limit es"
  unfolding free_below_def by (rule sum_list_nonneg_map) (simp add: visible_free_def)

text \<open>Compaction as a recursion: the packed extents and the bytes that change their address.\<close>

fun repack :: "int \<Rightarrow> extent list \<Rightarrow> extent list" where
  "repack a [] = []"
| "repack a (e # es) = \<lparr> ex_offset = a, ex_size = ex_size e, ex_key = ex_key e \<rparr> # repack (a + ex_size e) es"

fun shifted :: "int \<Rightarrow> extent list \<Rightarrow> int" where
  "shifted a [] = 0"
| "shifted a (e # es) = (if ex_offset e \<noteq> a then ex_size e else 0) + shifted (a + ex_size e) es"

lemma compact_fold:
  "foldl compact_step (a, n, acc) es = (a + (\<Sum>e \<leftarrow> es. ex_size e), n + shifted a es, acc @ repack a es)"
  by (induction es arbitrary: a n acc) (simp_all add: compact_step_def)

lemma repack_maps [simp]: "map ex_key (repack a es) = map ex_key es" "map ex_size (repack a es) = map ex_size es"
  by (induction es arbitrary: a) simp_all

lemma repack_tiles: "(\<forall>e \<in> set es. 0 \<le> ex_size e) \<Longrightarrow> tiles a (repack a es) (a + (\<Sum>e \<leftarrow> es. ex_size e))"
  by (induction es arbitrary: a) (simp_all add: add.assoc [symmetric])

lemma shifted_bounds: "(\<forall>e \<in> set es. 0 \<le> ex_size e) \<Longrightarrow> 0 \<le> shifted a es \<and> shifted a es \<le> (\<Sum>e \<leftarrow> es. ex_size e)"
proof (induction es arbitrary: a)
  case (Cons e es)
  then have "0 \<le> shifted (a + ex_size e) es \<and> shifted (a + ex_size e) es \<le> (\<Sum>e \<leftarrow> es. ex_size e)" "0 \<le> ex_size e"
    by simp_all
  then show ?case by simp
qed simp

lemma repack_entry: "e \<in> set (repack a es) \<Longrightarrow> \<exists>e' \<in> set es. ex_key e = ex_key e' \<and> ex_size e = ex_size e'"
  by (induction es arbitrary: a) auto

lemma repack_entry_of: "e \<in> set es \<Longrightarrow> \<exists>e' \<in> set (repack a es). ex_key e' = ex_key e \<and> ex_size e' = ex_size e"
  by (induction es arbitrary: a) auto

section \<open>Invariant\<close>

definition seg_inv :: "'x seg_mem_scheme \<Rightarrow> bool" where
  "seg_inv b \<longleftrightarrow> models_wf (mb_models b) \<and> args_ok (mb_args b)
     \<and> tiles 0 (extents b) (capacity_bytes b) \<and> distinct (map ex_key (allocated (extents b)))
     \<and> (\<forall>e \<in> set (extents b). \<forall>m g. ex_key e = Some (Weight m g) \<longrightarrow>
          (\<exists>grp. group_at b (m, g) = Inr grp \<and> ex_size e = tg_bytes grp))"

lemma seg_group_at_upd [simp]:
  "group_at (b\<lparr> extents := es \<rparr>) = group_at b" "group_at (b\<lparr> compaction_count := n \<rparr>) = group_at b"
  by (simp_all add: group_at_def fun_eq_iff)

lemma allocated_mem: "e \<in> set (allocated es) \<longleftrightarrow> e \<in> set es \<and> ex_key e \<noteq> None"
  by (auto simp: allocated_def)

lemma keys_unique:
  "distinct (map ex_key (allocated es)) \<Longrightarrow> e \<in> set es \<Longrightarrow> e' \<in> set es \<Longrightarrow> ex_key e = Some key \<Longrightarrow>
   ex_key e' = Some key \<Longrightarrow> e = e'"
  by (auto simp: distinct_map inj_on_def allocated_mem)

lemma find_extent_iff:
  "distinct (map ex_key (allocated es)) \<Longrightarrow> find_extent es key = Some e \<longleftrightarrow> e \<in> set es \<and> ex_key e = Some key"
  using find_extent_mem find_extent_None keys_unique by (metis not_None_eq)

text \<open>A state over the same configuration with other extents.\<close>

lemma seg_inv_upd:
  assumes "seg_inv b" and "tiles 0 es (capacity_bytes b)" and "distinct (map ex_key (allocated es))"
    and "\<And>e m g. e \<in> set es \<Longrightarrow> ex_key e = Some (Weight m g) \<Longrightarrow>
        (\<exists>e' \<in> set (extents b). ex_key e' = ex_key e \<and> ex_size e' = ex_size e)
        \<or> (\<exists>grp. group_at b (m, g) = Inr grp \<and> ex_size e = tg_bytes grp)"
  shows "seg_inv (b\<lparr> extents := es \<rparr>)"
  unfolding seg_inv_def
proof (intro conjI ballI allI impI, goal_cases)
  case (5 e m g)
  then show ?case
    using assms(4) [of e m g] assms(1) by (force simp: seg_inv_def)
qed (use assms(1-3) in \<open>simp_all add: seg_inv_def\<close>)

definition seg_model_used :: "'x seg_mem_scheme \<Rightarrow> int \<Rightarrow> int" where
  "seg_model_used b m = (\<Sum>e \<leftarrow> filter (\<lambda>e. \<exists>g. ex_key e = Some (Weight m g)) (extents b). ex_size e)"

definition seg_model_total :: "'x mem_base_scheme \<Rightarrow> int \<Rightarrow> int" where
  "seg_model_total b m = (case map_of (mb_models b) m of None \<Rightarrow> 0 | Some model \<Rightarrow> \<Sum>g \<leftarrow> groups model. tg_bytes g)"

text \<open>An extent that an eviction on behalf of \<open>active\<close> may take.\<close>

definition evictable :: "int \<Rightarrow> extent \<Rightarrow> bool" where
  "evictable active e \<longleftrightarrow> (\<exists>m g. ex_key e = Some (Weight m g) \<and> m \<noteq> active)"

definition seg_shrunk :: "'x seg_mem_scheme \<Rightarrow> int \<Rightarrow> load_cost \<Rightarrow> 'x seg_mem_scheme \<Rightarrow> load_cost \<Rightarrow> bool" where
  "seg_shrunk b active cost b' cost' \<longleftrightarrow>
     seg_inv b' \<and> (\<exists>es. b' = b\<lparr> extents := es \<rparr>) \<and> set (allocated (extents b')) \<subseteq> set (allocated (extents b))
     \<and> (\<forall>e \<in> set (allocated (extents b)). \<not> evictable active e \<longrightarrow> e \<in> set (allocated (extents b')))
     \<and> evicted_bytes cost' = evicted_bytes cost + (seg_used_bytes b - seg_used_bytes b')
     \<and> (cost_ok cost \<longrightarrow> cost_ok cost')"

lemma seg_shrunk_refl: "seg_inv b \<Longrightarrow> seg_shrunk b active cost b cost"
  by (auto simp: seg_shrunk_def intro: exI [of _ "extents b"])

lemma seg_shrunk_trans:
  "seg_shrunk b a c b1 c1 \<Longrightarrow> seg_shrunk b1 a c1 b2 c2 \<Longrightarrow> seg_shrunk b a c b2 c2"
  by (auto simp: seg_shrunk_def)

lemma seg_free_inv:
  assumes "seg_inv b" and "find_extent (extents b) key = Some e"
  shows "seg_inv (b\<lparr> extents := coalesce (clear_key key (extents b)) \<rparr>)"
proof (rule seg_inv_upd [OF assms(1)])
  let ?es = "coalesce (clear_key key (extents b))"
  have alloc: "allocated ?es = remove1 e (allocated (extents b))" by (rule allocated_after_free [OF assms(2)])
  show "tiles 0 ?es (capacity_bytes b)"
    using assms(1) by (simp add: seg_inv_def tiles_coalesce tiles_clear_key)
  have "distinct (map ex_key (allocated (extents b)))" using assms(1) by (simp add: seg_inv_def)
  then show "distinct (map ex_key (allocated ?es))"
    unfolding alloc by (auto simp: distinct_map intro: inj_on_subset set_remove1_subset [THEN subsetD])
  fix x m g assume "x \<in> set ?es" "ex_key x = Some (Weight m g)"
  then have "x \<in> set (allocated ?es)" by (simp add: allocated_mem)
  then have "x \<in> set (extents b)" unfolding alloc using set_remove1_subset [of e "allocated (extents b)"] by (auto simp: allocated_mem)
  then show "(\<exists>e' \<in> set (extents b). ex_key e' = ex_key x \<and> ex_size e' = ex_size x)
      \<or> (\<exists>grp. group_at b (m, g) = Inr grp \<and> ex_size x = tg_bytes grp)" by blast
qed

lemma seg_evict_one_shrunk:
  assumes "seg_inv b" and "seg_evict_one active (b, cost) = Inr (True, b', cost')"
  shows "seg_shrunk b active cost b' cost'" and "length (allocated (extents b')) < length (allocated (extents b))"
proof -
  obtain m g e where v: "m \<noteq> active" "find_extent (extents b) (Weight m g) = Some e"
      "b' = b\<lparr> extents := coalesce (clear_key (Weight m g) (extents b)) \<rparr>"
      "cost' = cost\<lparr> evicted_objects := evicted_objects cost + 1, evicted_bytes := evicted_bytes cost + ex_size e \<rparr>"
    using seg_evict_one_cases [OF assms(2)] by blast
  have alloc: "allocated (extents b') = remove1 e (allocated (extents b))" using v(2,3) by (simp add: allocated_after_free)
  note e = find_extent_mem [OF v(2)] found_allocated [OF v(2)]
  then show "length (allocated (extents b')) < length (allocated (extents b))"
    unfolding alloc by (simp add: length_remove1_less)
  have "seg_used_bytes b' = seg_used_bytes b - ex_size e"
    unfolding seg_used_bytes_def alloc using e(2) by (rule sum_list_remove1)
  moreover have "x \<in> set (allocated (extents b'))" if "x \<in> set (allocated (extents b))" "\<not> evictable active x" for x
  proof -
    have "x \<noteq> e" using that e v(1) by (auto simp: evictable_def)
    then show ?thesis using that(1) by (simp add: alloc in_set_remove1)
  qed
  ultimately show "seg_shrunk b active cost b' cost'"
    using v(3,4) seg_free_inv [OF assms(1) v(2)] alloc
    by (auto simp: seg_shrunk_def cost_ok_def dest: set_remove1_subset [THEN subsetD])
qed

lemma seg_object_total:
  assumes "(m, g) \<in> set (weight_keys (extents b))"
  shows "\<exists>n. seg_object_bytes b (m, g) = Inr n"
  using assms by (auto simp: seg_object_bytes_def weight_keys_mem find_extent_None split: option.splits)

lemma seg_evict_one_total:
  assumes "seg_inv b"
  shows "(\<forall>e \<in> set (allocated (extents b)). \<not> evictable active e) \<and> seg_evict_one active (b, cost) = Inr (False, b, cost)
     \<or> (\<exists>b' cost'. seg_evict_one active (b, cost) = Inr (True, b', cost'))"
proof -
  define keys where "keys = remdups (filter (\<lambda>key. fst key \<noteq> active) (weight_keys (extents b)))"
  define rank where "rank = (\<lambda>key. get_default (map_of (placement_cache (extents b) keys)) key 0)"
  have victims: "seg_victims active b = select_victim rank (seg_object_bytes b) b keys"
    by (simp add: seg_victims_def Let_def keys_def rank_def)
  show ?thesis
  proof (cases "keys = []")
    case True
    have "\<not> evictable active e" if e: "e \<in> set (allocated (extents b))" for e
    proof
      assume "evictable active e"
      then obtain m g where "ex_key e = Some (Weight m g)" "m \<noteq> active" by (auto simp: evictable_def)
      then have "(m, g) \<in> set keys" using e by (auto simp: keys_def weight_keys_mem allocated_mem)
      then show False using True by simp
    qed
    moreover have "seg_evict_one active (b, cost) = Inr (False, b, cost)"
      using True by (simp add: seg_evict_one_def victims select_victim_def)
    ultimately show ?thesis by blast
  next
    case False
    then obtain m g where mg: "(m, g) \<in> set keys" by (metis last_in_set surj_pair)
    then obtain e where "e \<in> set (extents b)" "ex_key e = Some (Weight m g)"
      by (auto simp: keys_def weight_keys_mem)
    then obtain grp where "group_at b (m, g) = Inr grp" using assms unfolding seg_inv_def by blast
    then have "mb_models b \<noteq> []" by (auto simp: group_at_def dict_get_def)
    moreover have "\<exists>n. seg_object_bytes b k = Inr n" if "k \<in> set keys" for k
      using that seg_object_total [of "fst k" "snd k"] by (auto simp: keys_def)
    ultimately obtain k where "select_victim rank (seg_object_bytes b) b keys = Inr (Some k)"
      using select_victim_total [OF False, of b "seg_object_bytes b"] by blast
    then show ?thesis by (cases k) (simp add: seg_evict_one_def victims split: prod.splits)
  qed
qed

text \<open>
  The loop returns: either the space is there and only evictable extents went, or nothing
  evictable is left and the space is still short.
\<close>

lemma seg_evict_while_cases:
  assumes "seg_inv b"
  shows "(\<exists>b' cost'. seg_evict_while short active (b, cost) = Inr (Some (b', cost'))
             \<and> seg_shrunk b active cost b' cost' \<and> \<not> short b')
     \<or> seg_evict_while short active (b, cost) = Inr None
         \<and> (\<exists>b' cost'. seg_shrunk b active cost b' cost' \<and> short b'
              \<and> (\<forall>e \<in> set (allocated (extents b')). \<not> evictable active e))"
  using assms
proof (induction "length (allocated (extents b))" arbitrary: b cost rule: less_induct)
  case less
  show ?case
  proof (cases "short b")
    case False
    then show ?thesis
      using less.prems seg_shrunk_refl by (auto simp: seg_evict_while.simps [of short active b])
  next
    case True
    consider (stuck) "\<forall>e \<in> set (allocated (extents b)). \<not> evictable active e"
        "seg_evict_one active (b, cost) = Inr (False, b, cost)"
      | (evicted) b1 cost1 where "seg_evict_one active (b, cost) = Inr (True, b1, cost1)"
      using seg_evict_one_total [OF less.prems] by blast
    then show ?thesis
    proof cases
      case stuck
      then have "seg_evict_while short active (b, cost) = Inr None"
        using True by (simp add: seg_evict_while.simps [of short active b])
      with stuck(1) True seg_shrunk_refl [OF less.prems] show ?thesis by blast
    next
      case evicted
      have step: "seg_evict_while short active (b, cost) = seg_evict_while short active (b1, cost1)"
        using evicted True by (simp add: seg_evict_while.simps [of short active b])
      note shr = seg_evict_one_shrunk [OF less.prems evicted]
      have "seg_inv b1" using shr(1) by (simp add: seg_shrunk_def)
      from less.hyps [OF shr(2) this, of cost1] show ?thesis
        unfolding step using seg_shrunk_trans [OF shr(1)] by blast
    qed
  qed
qed

text \<open>What a loop evicts does not depend on the cost it accumulates.\<close>

lemma seg_evict_one_cost:
  "seg_evict_one active (b, cost) = Inr (ok, b', cost') \<Longrightarrow> \<exists>d'. seg_evict_one active (b, d) = Inr (ok, b', d')"
  by (cases "seg_victims active b")
     (auto simp: seg_evict_one_def split: option.splits prod.splits)

lemma seg_evict_while_cost:
  "seg_evict_while short active (b, cost) = Inr (Some (b', cost')) \<Longrightarrow>
   \<exists>d'. seg_evict_while short active (b, d) = Inr (Some (b', d'))"
proof (induction short active "(b, cost)" arbitrary: b cost d rule: seg_evict_while.induct)
  case (1 short active b cost)
  show ?case
  proof (cases "short b")
    case True
    with 1(2) obtain b1 c1 where e: "seg_evict_one active (b, cost) = Inr (True, b1, c1)"
        "seg_evict_while short active (b1, c1) = Inr (Some (b', cost'))"
      by (auto simp: seg_evict_while.simps [of short active b] py_simps split: prod.splits bool.splits)
    obtain d1 where d: "seg_evict_one active (b, d) = Inr (True, b1, d1)" using seg_evict_one_cost [OF e(1)] by blast
    have "\<exists>d'. seg_evict_while short active (b1, d1) = Inr (Some (b', d'))"
      by (rule 1(1)) (use True e in auto)
    then obtain d' where "seg_evict_while short active (b1, d1) = Inr (Some (b', d'))" by blast
    then show ?thesis using True d by (simp add: seg_evict_while.simps [of short active b])
  qed (use 1(2) in \<open>auto simp: seg_evict_while.simps [of short active b] seg_evict_while.simps [of short active b']\<close>)
qed

section \<open>What a model occupies\<close>

definition seg_content :: "'x seg_mem_scheme \<Rightarrow> int \<Rightarrow> nat set" where
  "seg_content b m = {i. \<exists>e \<in> set (extents b). ex_key e = Some (Weight m i)}"

lemma seg_content_find: "i \<in> seg_content b m \<longleftrightarrow> find_extent (extents b) (Weight m i) \<noteq> None"
  by (auto simp: seg_content_def find_extent_None)

lemma seg_content_group:
  assumes "seg_inv b" and "i \<in> seg_content b m" and "map_of (mb_models b) m = Some model"
  shows "i < length (groups model)"
proof -
  obtain grp where "group_at b (m, i) = Inr grp" using assms(1,2) unfolding seg_inv_def seg_content_def by blast
  then show ?thesis using assms(3) by (auto simp: group_at_def py_simps split: if_splits)
qed

lemma seg_model_used_content:
  assumes "seg_inv b" and "map_of (mb_models b) m = Some model"
  shows "seg_model_used b m = (\<Sum>i \<in> seg_content b m. tg_bytes (groups model ! i))"
proof -
  let ?P = "\<lambda>e. \<exists>g. ex_key e = Some (Weight m g)"
  let ?gid = "\<lambda>e. case ex_key e of Some (Weight _ g) \<Rightarrow> g | _ \<Rightarrow> 0"
  have dist: "distinct (map ex_key (allocated (extents b)))" using assms(1) by (simp add: seg_inv_def)
  have filt: "filter ?P (extents b) = filter ?P (allocated (extents b))"
    unfolding allocated_def filter_filter by (rule filter_cong) auto
  have d: "distinct (filter ?P (extents b))" unfolding filt using dist by (simp add: distinct_map)
  have inj: "inj_on ?gid (set (filter ?P (extents b)))"
    using keys_unique [OF dist] by (auto simp: inj_on_def)
  have img: "?gid ` set (filter ?P (extents b)) = seg_content b m"
    by (force simp: seg_content_def image_iff)
  have size: "ex_size e = tg_bytes (groups model ! ?gid e)" if e: "e \<in> set (filter ?P (extents b))" for e
  proof -
    obtain g where g: "e \<in> set (extents b)" "ex_key e = Some (Weight m g)" using e by auto
    then obtain grp where "group_at b (m, g) = Inr grp" "ex_size e = tg_bytes grp"
      using assms(1) unfolding seg_inv_def by blast
    then show ?thesis using g(2) assms(2) by (auto simp: group_at_def py_simps split: if_splits)
  qed
  have "seg_model_used b m = (\<Sum>e \<in> set (filter ?P (extents b)). ex_size e)"
    unfolding seg_model_used_def using d by (rule sum_list_distinct_conv_sum_set)
  also have "\<dots> = (\<Sum>e \<in> set (filter ?P (extents b)). tg_bytes (groups model ! ?gid e))"
    using size by (rule sum.cong [OF refl])
  also have "\<dots> = (\<Sum>i \<in> seg_content b m. tg_bytes (groups model ! i))"
    unfolding img [symmetric] using inj by (simp add: sum.reindex)
  finally show ?thesis .
qed

lemma seg_model_total_sum:
  "map_of (mb_models b) m = Some model \<Longrightarrow>
   seg_model_total b m = (\<Sum>i \<in> {..<length (groups model)}. tg_bytes (groups model ! i))"
  by (simp add: seg_model_total_def sum_list_sum_nth atLeast0LessThan)

lemma seg_model_fits:
  assumes inv: "seg_inv b" and m: "map_of (mb_models b) m = Some model"
  shows "seg_model_used b m \<le> seg_model_total b m"
    and "i \<notin> seg_content b m \<Longrightarrow> i < length (groups model) \<Longrightarrow>
      seg_model_used b m + tg_bytes (groups model ! i) \<le> seg_model_total b m"
proof -
  have "model_wf model" using inv m by (auto simp: seg_inv_def models_wf_def dest!: map_of_SomeD)
  then have nn: "0 \<le> tg_bytes (groups model ! i)" if "i \<in> {..<length (groups model)}" for i
    using that by (simp add: model_wf_def)
  have sub: "seg_content b m \<subseteq> {..<length (groups model)}" using seg_content_group [OF inv _ m] by auto
  show "seg_model_used b m \<le> seg_model_total b m"
    unfolding seg_model_used_content [OF inv m] seg_model_total_sum [OF m]
    using sub nn by (intro sum_mono2) auto
  assume i: "i \<notin> seg_content b m" "i < length (groups model)"
  have "seg_model_used b m + tg_bytes (groups model ! i) = (\<Sum>j \<in> insert i (seg_content b m). tg_bytes (groups model ! j))"
    using i(1) finite_subset [OF sub] by (simp add: seg_model_used_content [OF inv m])
  also have "\<dots> \<le> seg_model_total b m"
    unfolding seg_model_total_sum [OF m] using sub i(2) nn by (intro sum_mono2) auto
  finally show "seg_model_used b m + tg_bytes (groups model ! i) \<le> seg_model_total b m" .
qed

definition weights_only :: "extent list \<Rightarrow> bool" where
  "weights_only es \<longleftrightarrow> (\<forall>e \<in> set es. \<forall>n. ex_key e \<noteq> Some (KvBlock n))"

text \<open>When nothing is evictable, the active model occupies all of the allocated bytes.\<close>

lemma seg_used_stuck:
  assumes "weights_only (extents b)" and "\<forall>e \<in> set (allocated (extents b)). \<not> evictable active e"
  shows "seg_used_bytes b = seg_model_used b active"
proof -
  have "ex_key e \<noteq> None \<longleftrightarrow> (\<exists>g. ex_key e = Some (Weight active g))" if "e \<in> set (extents b)" for e
  proof (cases "ex_key e")
    case (Some key)
    then have "\<not> evictable active e" "\<forall>n. key \<noteq> KvBlock n"
      using assms that by (auto simp: weights_only_def allocated_mem)
    then show ?thesis using Some by (cases key) (auto simp: evictable_def)
  qed simp
  then have "allocated (extents b) = filter (\<lambda>e. \<exists>g. ex_key e = Some (Weight active g)) (extents b)"
    unfolding allocated_def by (intro filter_cong) auto
  then show ?thesis by (simp add: seg_used_bytes_def seg_model_used_def)
qed

lemma seg_shrunk_content:
  assumes "seg_shrunk b active cost b' cost'"
  shows "seg_content b' active = seg_content b active" and "weights_only (extents b) \<Longrightarrow> weights_only (extents b')"
proof -
  have sub: "set (allocated (extents b')) \<subseteq> set (allocated (extents b))"
    and kept: "\<And>e. e \<in> set (allocated (extents b)) \<Longrightarrow> \<not> evictable active e \<Longrightarrow> e \<in> set (allocated (extents b'))"
    using assms by (auto simp: seg_shrunk_def)
  show "seg_content b' active = seg_content b active"
  proof (intro set_eqI iffI)
    fix i assume "i \<in> seg_content b' active"
    then obtain e where "e \<in> set (allocated (extents b'))" "ex_key e = Some (Weight active i)"
      by (auto simp: seg_content_def allocated_mem)
    then have "e \<in> set (allocated (extents b))" "ex_key e = Some (Weight active i)" using sub by blast+
    then show "i \<in> seg_content b active" by (auto simp: seg_content_def allocated_mem)
  next
    fix i assume "i \<in> seg_content b active"
    then obtain e where "e \<in> set (extents b)" "ex_key e = Some (Weight active i)" by (auto simp: seg_content_def)
    then show "i \<in> seg_content b' active"
      using kept [of e] by (auto simp: seg_content_def allocated_mem evictable_def)
  qed
  show "weights_only (extents b')" if "weights_only (extents b)"
    unfolding weights_only_def
  proof (intro ballI allI notI)
    fix e n assume e: "e \<in> set (extents b')" "ex_key e = Some (KvBlock n)"
    then have "e \<in> set (allocated (extents b'))" by (simp add: allocated_mem)
    then have "e \<in> set (allocated (extents b))" using sub by blast
    then show False using that e(2) by (auto simp: weights_only_def allocated_mem)
  qed
qed

lemma seg_shrunk_used:
  assumes "seg_inv b" and "seg_shrunk b active cost b' cost'" and "map_of (mb_models b) active = Some model"
  shows "seg_model_used b' active = seg_model_used b active"
proof -
  have "seg_inv b'" "mb_models b' = mb_models b" using assms(2) by (auto simp: seg_shrunk_def)
  then show ?thesis
    using seg_model_used_content [OF assms(1,3)] seg_model_used_content [of b' active model]
      seg_shrunk_content(1) [OF assms(2)] assms(3) by simp
qed

section \<open>Compaction\<close>

lemma allocated_repack: "allocated (repack a (allocated es)) = repack a (allocated es)"
proof -
  have "ex_key e \<noteq> None" if "e \<in> set (repack a (allocated es))" for e
    using repack_entry [OF that] by (auto simp: allocated_mem)
  then show ?thesis by (simp add: allocated_def [of "repack a (allocated es)"] filter_id_conv)
qed

text \<open>Compaction keeps every object, packs them to the front and leaves one free extent.\<close>

lemma seg_compact_ok:
  assumes inv: "seg_inv b"
  shows "\<exists>b' c es. seg_compact b = Inr (b', c) \<and> b' = b\<lparr> extents := es, compaction_count := compaction_count b + 1 \<rparr>
     \<and> seg_inv b' \<and> cost_ok c \<and> evicted_bytes c = 0 \<and> seg_content b' = seg_content b
     \<and> (weights_only (extents b) \<longrightarrow> weights_only es)
     \<and> seg_used_bytes b' = seg_used_bytes b \<and> (\<forall>e \<in> set (allocated es). ex_end e \<le> seg_used_bytes b)
     \<and> (seg_used_bytes b < capacity_bytes b \<longrightarrow>
          (\<exists>e \<in> set es. ex_key e = None \<and> ex_offset e = seg_used_bytes b \<and> ex_end e = capacity_bytes b))"
proof -
  let ?al = "allocated (extents b)" and ?n = "seg_used_bytes b"
  have til: "tiles 0 (extents b) (capacity_bytes b)" and dist: "distinct (map ex_key ?al)" and args: "args_ok (mb_args b)"
    using inv by (simp_all add: seg_inv_def)
  have nn: "\<forall>e \<in> set ?al. 0 \<le> ex_size e" using tiles_bounds [OF til] by (simp add: allocated_mem)
  define tail where "tail = (if ?n < capacity_bytes b
      then [\<lparr> ex_offset = ?n, ex_size = capacity_bytes b - ?n, ex_key = None \<rparr>] else [])"
  define es where "es = repack 0 ?al @ tail"
  define b' where "b' = b\<lparr> extents := es, compaction_count := compaction_count b + 1 \<rparr>"
  have used: "?n \<le> capacity_bytes b"
    using free_below_tiles [OF til, of "capacity_bytes b"] tiles_bounds [OF til] free_below_nonneg [of "capacity_bytes b" "extents b"]
      tiles_le [OF til] by (simp add: seg_used_bytes_def allocated_mem)
  have t1: "tiles 0 (repack 0 ?al) ?n" using repack_tiles [OF nn, of 0] by (simp add: seg_used_bytes_def)
  have tiles_es: "tiles 0 es (capacity_bytes b)"
    unfolding es_def tiles_append using t1 used by (intro exI [of _ ?n]) (simp add: tail_def)
  have al: "allocated es = repack 0 ?al"
    using allocated_repack [of 0 "extents b"] by (simp add: es_def tail_def allocated_def)
  have inv': "seg_inv (b\<lparr> extents := es \<rparr>)"
  proof (rule seg_inv_upd [OF inv tiles_es])
    show "distinct (map ex_key (allocated es))" using dist by (simp add: al)
    fix e m g assume "e \<in> set es" "ex_key e = Some (Weight m g)"
    then have "e \<in> set (repack 0 ?al)" by (auto simp: es_def tail_def split: if_splits)
    from repack_entry [OF this] show "(\<exists>e' \<in> set (extents b). ex_key e' = ex_key e \<and> ex_size e' = ex_size e)
        \<or> (\<exists>grp. group_at b (m, g) = Inr grp \<and> ex_size e = tg_bytes grp)"
      by (auto simp: allocated_mem)
  qed
  then have inv'': "seg_inv b'" by (simp add: seg_inv_def b'_def)
  have content: "seg_content b' m = seg_content b m" for m
  proof (intro set_eqI iffI)
    fix i assume "i \<in> seg_content b' m"
    then obtain e where "e \<in> set (allocated es)" "ex_key e = Some (Weight m i)"
      by (auto simp: seg_content_def b'_def allocated_mem)
    then show "i \<in> seg_content b m" unfolding al
      using repack_entry [of e 0 ?al] by (auto simp: seg_content_def allocated_mem)
  next
    fix i assume "i \<in> seg_content b m"
    then obtain e where "e \<in> set ?al" "ex_key e = Some (Weight m i)" by (auto simp: seg_content_def allocated_mem)
    then show "i \<in> seg_content b' m"
      using repack_entry_of [of e ?al 0] by (auto simp: seg_content_def b'_def es_def)
  qed
  have only: "weights_only es" if "weights_only (extents b)"
    unfolding weights_only_def
  proof (intro ballI allI notI)
    fix e n assume e: "e \<in> set es" "ex_key e = Some (KvBlock n)"
    then have "e \<in> set (repack 0 ?al)" by (auto simp: es_def tail_def split: if_splits)
    from repack_entry [OF this] show False using that e(2) by (auto simp: weights_only_def allocated_mem)
  qed
  define c where "c = no_cost\<lparr> compaction_moved_bytes := shifted 0 ?al,
    compaction_ms := of_int (shifted 0 ?al) / gpu_copy_bytes_per_ms (mb_args b) + compaction_fixed_ms (mb_args b) \<rparr>"
  have run: "seg_compact b = Inr (b', c)"
    using args by (simp add: seg_compact_def compact_fold compact_ms_def py_div_def args_ok_def b'_def es_def tail_def
        seg_used_bytes_def c_def)
  have "cost_ok c" using shifted_bounds [OF nn, of 0] args by (simp add: c_def cost_ok_def args_ok_def)
  moreover have "evicted_bytes c = 0" by (simp add: c_def)
  moreover have "seg_used_bytes b' = ?n" by (simp add: seg_used_bytes_def b'_def al)
  moreover have "\<forall>e \<in> set (allocated es). ex_end e \<le> ?n" unfolding al using tiles_bounds [OF t1] by blast
  moreover have "\<exists>e \<in> set es. ex_key e = None \<and> ex_offset e = ?n \<and> ex_end e = capacity_bytes b" if "?n < capacity_bytes b"
    using that by (simp add: es_def tail_def)
  ultimately show ?thesis
    using run inv'' content only b'_def
    by (intro exI [of _ b'] exI [of _ c] exI [of _ es]) (simp add: fun_eq_iff)
qed

section \<open>Making room\<close>

text \<open>What reclamation for \<open>active\<close> keeps, whether it evicts or compacts.\<close>

definition seg_kept :: "'x seg_mem_scheme \<Rightarrow> int \<Rightarrow> 'x seg_mem_scheme \<Rightarrow> bool" where
  "seg_kept b active b' \<longleftrightarrow> (\<exists>es n. b' = b\<lparr> extents := es, compaction_count := n \<rparr>) \<and> seg_inv b'
     \<and> weights_only (extents b') \<and> seg_content b' active = seg_content b active"

definition seg_below :: "'x seg_mem_scheme \<Rightarrow> bool" where
  "seg_below b \<longleftrightarrow> (\<forall>e \<in> set (allocated (extents b)). ex_end e \<le> weight_capacity_bytes b)"

lemma seg_shrunk_kept:
  assumes "seg_shrunk b active c b' c'" and "weights_only (extents b)"
  shows "seg_kept b active b'" and "seg_below b \<Longrightarrow> seg_below b'"
proof -
  obtain es where es: "b' = b\<lparr> extents := es \<rparr>" "set (allocated es) \<subseteq> set (allocated (extents b))" "seg_inv b'"
    using assms(1) by (auto simp: seg_shrunk_def)
  then show "seg_kept b active b'"
    using seg_shrunk_content [OF assms(1)] assms(2) unfolding seg_kept_def
    by (intro conjI exI [of _ es] exI [of _ "compaction_count b"]) simp_all
  show "seg_below b \<Longrightarrow> seg_below b'" using es(2) by (auto simp: seg_below_def es(1))
qed

lemma seg_kept_trans: "seg_kept b a b1 \<Longrightarrow> seg_kept b1 a b2 \<Longrightarrow> seg_kept b a b2"
  by (auto simp: seg_kept_def) (rule exI, rule exI, rule refl)

lemma seg_free_used:
  assumes "seg_inv b" and "seg_below b" and "0 \<le> weight_capacity_bytes b" and "weight_capacity_bytes b \<le> capacity_bytes b"
  shows "seg_free_bytes b = weight_capacity_bytes b - seg_used_bytes b"
proof -
  have "tiles 0 (extents b) (capacity_bytes b)" using assms(1) by (simp add: seg_inv_def)
  from free_below_tiles [OF this assms(4)] assms(2,3) show ?thesis
    by (simp add: seg_below_def seg_free_bytes_below seg_used_bytes_def)
qed

lemma seg_compact_kept:
  assumes inv: "seg_inv b" and only: "weights_only (extents b)"
    and used: "seg_used_bytes b \<le> weight_capacity_bytes b" and cap: "weight_capacity_bytes b \<le> capacity_bytes b"
  shows "\<exists>b' c. seg_compact b = Inr (b', c) \<and> seg_kept b active b' \<and> seg_below b' \<and> cost_ok c
     \<and> (seg_used_bytes b < weight_capacity_bytes b \<longrightarrow>
          seg_largest_free b' \<ge> weight_capacity_bytes b - seg_used_bytes b)"
proof -
  obtain b' c es where c: "seg_compact b = Inr (b', c)" "b' = b\<lparr> extents := es, compaction_count := compaction_count b + 1 \<rparr>"
     "seg_inv b'" "cost_ok c" "seg_content b' = seg_content b" "weights_only es"
     "\<forall>e \<in> set (allocated es). ex_end e \<le> seg_used_bytes b"
     "seg_used_bytes b < capacity_bytes b \<longrightarrow>
          (\<exists>e \<in> set es. ex_key e = None \<and> ex_offset e = seg_used_bytes b \<and> ex_end e = capacity_bytes b)"
    using seg_compact_ok [OF inv] only by blast
  have "seg_kept b active b'" using c unfolding seg_kept_def by auto
  moreover have "seg_below b'" using c(2,7) used by (force simp: seg_below_def)
  moreover have "seg_largest_free b' \<ge> weight_capacity_bytes b - seg_used_bytes b"
    if free: "seg_used_bytes b < weight_capacity_bytes b"
  proof -
    obtain e where e: "e \<in> set es" "ex_key e = None" "ex_offset e = seg_used_bytes b" "ex_end e = capacity_bytes b"
      using c(8) free cap by auto
    define vs where "vs = map (visible_free (weight_capacity_bytes b')) (free_within b')"
    have "e \<in> set (free_within b')" using e free by (simp add: free_within_def c(2))
    then have mem: "visible_free (weight_capacity_bytes b') e \<in> set vs" by (simp add: vs_def)
    moreover have "visible_free (weight_capacity_bytes b') e = weight_capacity_bytes b - seg_used_bytes b"
      using e free cap by (simp add: visible_free_def c(2))
    moreover have "seg_largest_free b' = Max (set vs)"
      using mem by (cases vs) (simp_all add: seg_largest_free_def vs_def)
    ultimately show ?thesis using Max_ge [of "set vs"] by simp
  qed
  ultimately show ?thesis using c(1,4) by blast
qed

lemma seg_trim_ok:
  assumes inv: "seg_inv b" and only: "weights_only (extents b)" and m: "map_of (mb_models b) m = Some model"
    and fit: "seg_model_total b m \<le> weight_capacity_bytes b" and cap: "weight_capacity_bytes b \<le> capacity_bytes b"
  shows "\<exists>b' c. seg_trim_to_capacity m b = Inr (b', c) \<and> seg_kept b m b' \<and> seg_below b' \<and> cost_ok c"
proof -
  let ?short = "\<lambda>b. seg_used_bytes b > weight_capacity_bytes b"
  obtain b1 c1 where 1: "seg_evict_while ?short m (b, no_cost) = Inr (Some (b1, c1))"
      "seg_shrunk b m no_cost b1 c1" "\<not> ?short b1"
  proof -
    have False if "seg_shrunk b m no_cost b' c'" "?short b'" "\<forall>e \<in> set (allocated (extents b')). \<not> evictable m e" for b' c'
    proof -
      have "weight_capacity_bytes b' = weight_capacity_bytes b" using that(1) by (auto simp: seg_shrunk_def)
      moreover have "seg_used_bytes b' = seg_model_used b m"
        using seg_used_stuck [OF seg_shrunk_content(2) [OF that(1) only] that(3)] seg_shrunk_used [OF inv that(1) m] by simp
      ultimately show False using that(2) fit seg_model_fits(1) [OF inv m] by simp
    qed
    then show thesis using seg_evict_while_cases [OF inv, of ?short m no_cost] that by blast
  qed
  have k1: "seg_kept b m b1" "cost_ok c1" "weight_capacity_bytes b1 = weight_capacity_bytes b" "capacity_bytes b1 = capacity_bytes b"
    using 1(2) seg_shrunk_kept [OF 1(2) only] by (auto simp: seg_shrunk_def)
  show ?thesis
  proof (cases "\<exists>e \<in> set (allocated (extents b1)). ex_end e > weight_capacity_bytes b1")
    case True
    obtain b2 c2 where "seg_compact b1 = Inr (b2, c2)" "seg_kept b1 m b2" "seg_below b2" "cost_ok c2"
      using seg_compact_kept [of b1 m] k1 cap 1(3) by (auto simp: seg_kept_def)
    then show ?thesis
      using 1(1) True k1 seg_kept_trans by (auto simp: seg_trim_to_capacity_def or_raise_def)
  next
    case False
    then have "seg_below b1" by (auto simp: seg_below_def)
    with False 1(1) k1 show ?thesis by (auto simp: seg_trim_to_capacity_def or_raise_def)
  qed
qed

text \<open>Room for an allocation: enough free bytes, then enough contiguous ones.\<close>

lemma seg_room_ok:
  assumes inv: "seg_inv b" and only: "weights_only (extents b)" and m: "map_of (mb_models b) m = Some model"
    and below: "seg_below b" and cap: "0 \<le> weight_capacity_bytes b" "weight_capacity_bytes b \<le> capacity_bytes b"
    and fit: "seg_model_used b m + n \<le> weight_capacity_bytes b" and n: "0 < n"
    and policy: "compaction_policy (mb_args b) \<noteq> Never"
  shows "\<exists>s b' c. seg_evict_while (\<lambda>b. seg_free_bytes b < n) m (b, no_cost) = Inr (Some s)
     \<and> make_contiguous n m s = Inr (b', c) \<and> seg_kept b m b' \<and> seg_below b' \<and> cost_ok c \<and> n \<le> seg_largest_free b'"
proof -
  let ?short = "\<lambda>b. seg_free_bytes b < n"
  have free: "seg_free_bytes b' = weight_capacity_bytes b - seg_used_bytes b'" if s: "seg_shrunk b m c b' c'" for b' c c'
  proof -
    have "seg_inv b'" "weight_capacity_bytes b' = weight_capacity_bytes b" "capacity_bytes b' = capacity_bytes b"
      using s by (auto simp: seg_shrunk_def)
    with seg_free_used [of b'] seg_shrunk_kept(2) [OF s only below] cap show ?thesis by simp
  qed
  obtain b1 c1 where 1: "seg_evict_while ?short m (b, no_cost) = Inr (Some (b1, c1))"
      "seg_shrunk b m no_cost b1 c1" "\<not> ?short b1"
  proof -
    have False if "seg_shrunk b m no_cost b' c'" "?short b'" "\<forall>e \<in> set (allocated (extents b')). \<not> evictable m e" for b' c'
    proof -
      have "seg_used_bytes b' = seg_model_used b m"
        using seg_used_stuck [OF seg_shrunk_content(2) [OF that(1) only] that(3)] seg_shrunk_used [OF inv that(1) m] by simp
      then show False using that(2) fit free [OF that(1)] by simp
    qed
    then show thesis using seg_evict_while_cases [OF inv, of ?short m no_cost] that by blast
  qed
  note kept1 = seg_shrunk_kept [OF 1(2) only]
  have b1: "seg_inv b1" "weights_only (extents b1)" "seg_below b1" "cost_ok c1" "mb_args b1 = mb_args b"
      "weight_capacity_bytes b1 = weight_capacity_bytes b" "capacity_bytes b1 = capacity_bytes b"
    using 1(2) kept1 below by (auto simp: seg_shrunk_def seg_kept_def)
  have used1: "seg_used_bytes b1 + n \<le> weight_capacity_bytes b1" using 1(3) free [OF 1(2)] b1(6) by simp
  show ?thesis
  proof (cases "seg_largest_free b1 < n")
    case False
    then have "make_contiguous n m (b1, c1) = Inr (b1, c1)" by (simp add: make_contiguous_def Let_def)
    with 1(1) kept1(1) b1 False show ?thesis by fastforce
  next
    case frag: True
    obtain b2 c2 where 2: "seg_compact b1 = Inr (b2, c2)" "seg_kept b1 m b2" "seg_below b2" "cost_ok c2"
        "n \<le> seg_largest_free b2"
      using seg_compact_kept [of b1 m] b1 cap(2) used1 n by auto
    have compacted: ?thesis if "make_contiguous n m (b1, c1) = Inr (b2, cost_add c1 c2)"
      using that 1(1) 2 b1(4) seg_kept_trans [OF kept1(1) 2(2)] by blast
    have policies: "compaction_policy (mb_args b1) = OnAllocationFailure \<or> compaction_policy (mb_args b1) = CostAware"
      using policy b1(5) by (cases "compaction_policy (mb_args b1)") auto
    from policies show ?thesis
    proof
      assume "compaction_policy (mb_args b1) = OnAllocationFailure"
      then show ?thesis using frag 2(1) by (intro compacted) (simp add: make_contiguous_def Let_def)
    next
      assume aware: "compaction_policy (mb_args b1) = CostAware"
      let ?frag = "\<lambda>p. seg_largest_free p < n"
      have rates: "gpu_copy_bytes_per_ms (mb_args b1) \<noteq> 0" "h2d_bytes_per_ms (mb_args b1) \<noteq> 0"
        using b1(1) by (auto simp: seg_inv_def args_ok_def)
      obtain t where t: "compact_ms b1 (moved_bytes (extents b1)) = Inr t"
        using rates by (simp add: compact_ms_def py_div_def)
      consider (none) "seg_evict_while ?frag m (b1, no_cost) = Inr None"
        | (some) b3 c3 where "seg_evict_while ?frag m (b1, no_cost) = Inr (Some (b3, c3))"
        using seg_evict_while_cases [OF b1(1), of ?frag m no_cost] by blast
      then show ?thesis
      proof cases
        case none
        then have "eviction_alternative_ms n m b1 = Inr None" by (simp add: eviction_alternative_ms_def)
        then show ?thesis using aware frag 2(1) t by (intro compacted) (simp add: make_contiguous_def Let_def)
      next
        case some
        then obtain u where u: "eviction_alternative_ms n m b1 = Inr (Some u)"
          using rates by (simp add: eviction_alternative_ms_def py_div_def)
        show ?thesis
        proof (cases "t \<le> u")
          case True
          then show ?thesis using aware frag 2(1) t u by (intro compacted) (simp add: make_contiguous_def Let_def)
        next
          case False
          obtain d where d: "seg_evict_while ?frag m (b1, c1) = Inr (Some (b3, d))"
            using seg_evict_while_cost [OF some] by blast
          then have s3: "seg_shrunk b1 m c1 b3 d" "\<not> ?frag b3"
            using seg_evict_while_cases [OF b1(1), of ?frag m c1] by auto
          have "make_contiguous n m (b1, c1) = Inr (b3, d)"
            using aware frag t u False d by (simp add: make_contiguous_def Let_def or_raise_def)
          moreover have "seg_kept b m b3" "seg_below b3" "cost_ok d"
            using seg_shrunk_kept [OF s3(1) b1(2)] seg_kept_trans [OF kept1(1)] b1(3,4) s3(1) by (auto simp: seg_shrunk_def)
          ultimately show ?thesis using 1(1) s3(2) by fastforce
        qed
      qed
    qed
  qed
qed

section \<open>Placement\<close>

lemma place_first_cut:
  "place_first limit key n es = Some es' \<Longrightarrow>
   \<exists>xs e ys. es = xs @ e # ys \<and> es' = xs @ carve e key n @ ys \<and> ex_key e = None \<and> ex_offset e < limit
     \<and> n \<le> ex_size e \<and> ex_offset e + n \<le> limit"
proof (induction es arbitrary: es')
  case (Cons e es)
  show ?case
  proof (cases "ex_key e = None \<and> ex_offset e < limit \<and> min (ex_size e) (limit - ex_offset e) \<ge> n")
    case True
    then show ?thesis using Cons.prems by (intro exI [of _ "[]"] exI [of _ e] exI [of _ es]) auto
  next
    case False
    then obtain es1 where es1: "place_first limit key n es = Some es1" "es' = e # es1"
      using Cons.prems by (auto split: if_splits)
    from Cons.IH [OF es1(1)] obtain xs x ys where "es = xs @ x # ys" "es1 = xs @ carve x key n @ ys" "ex_key x = None"
        "ex_offset x < limit" "n \<le> ex_size x" "ex_offset x + n \<le> limit" by blast
    then show ?thesis using es1(2) by (intro exI [of _ "e # xs"] exI [of _ x] exI [of _ ys]) simp
  qed
qed simp

lemma place_first_total:
  "e \<in> set es \<Longrightarrow> ex_key e = None \<Longrightarrow> ex_offset e < limit \<Longrightarrow> n \<le> visible_free limit e \<Longrightarrow> 0 < n \<Longrightarrow>
   \<exists>es'. place_first limit key n es = Some es'"
  by (induction es) (auto simp: visible_free_def)

lemma seg_largest_free_place:
  assumes "n \<le> seg_largest_free b" and "0 < n"
  shows "\<exists>es'. place_first (weight_capacity_bytes b) key n (extents b) = Some es'"
proof -
  define vs where "vs = map (visible_free (weight_capacity_bytes b)) (free_within b)"
  have "vs \<noteq> []" using assms by (auto simp: seg_largest_free_def vs_def)
  then have "seg_largest_free b = Max (set vs)" by (cases vs) (simp_all add: seg_largest_free_def vs_def)
  then have "seg_largest_free b \<in> set vs" using \<open>vs \<noteq> []\<close> by simp
  then show ?thesis using assms place_first_total by (auto simp: vs_def free_within_def)
qed

lemma carve_tiles:
  assumes "0 \<le> n" and "n \<le> ex_size e" and "tiles a (xs @ e # ys) z"
  shows "tiles a (xs @ carve e key n @ ys) z"
  using assms by (auto simp: tiles_append carve_def)

lemma allocated_carve:
  "ex_key e = None \<Longrightarrow> allocated (xs @ carve e key n @ ys)
     = allocated xs @ \<lparr> ex_offset = ex_offset e, ex_size = n, ex_key = Some key \<rparr> # allocated ys"
  "ex_key e = None \<Longrightarrow> allocated (xs @ e # ys) = allocated xs @ allocated ys"
  by (simp_all add: allocated_def carve_def)

text \<open>Reserving a group of the active model in a free extent.\<close>

lemma seg_carve_inv:
  assumes inv: "seg_inv b" and es: "extents b = xs @ e # ys" and e: "ex_key e = None" "tg_bytes g \<le> ex_size e"
    and g: "group_at b (m, i) = Inr g" and fresh: "i \<notin> seg_content b m"
  shows "seg_inv (b\<lparr> extents := xs @ carve e (Weight m i) (tg_bytes g) @ ys \<rparr>)"
    and "seg_content (b\<lparr> extents := xs @ carve e (Weight m i) (tg_bytes g) @ ys \<rparr>) m = insert i (seg_content b m)"
proof -
  let ?es = "xs @ carve e (Weight m i) (tg_bytes g) @ ys"
  let ?x = "\<lparr> ex_offset = ex_offset e, ex_size = tg_bytes g, ex_key = Some (Weight m i) \<rparr>"
  have wf: "models_wf (mb_models b)" and til: "tiles 0 (xs @ e # ys) (capacity_bytes b)"
    and dist: "distinct (map ex_key (allocated (xs @ e # ys)))"
    using inv es by (simp_all add: seg_inv_def)
  have al: "allocated ?es = allocated xs @ ?x # allocated ys" "allocated (extents b) = allocated xs @ allocated ys"
    using e(1) by (simp_all add: allocated_carve es)
  have new: "Some (Weight m i) \<notin> set (map ex_key (allocated xs @ allocated ys))"
    using fresh unfolding al(2) [symmetric] by (auto simp: seg_content_def allocated_mem image_iff)
  show "seg_inv (b\<lparr> extents := ?es \<rparr>)"
  proof (rule seg_inv_upd [OF inv])
    show "tiles 0 ?es (capacity_bytes b)"
      using til e(2) group_at_wf(2) [OF wf g] by (intro carve_tiles)
    show "distinct (map ex_key (allocated ?es))"
      using new dist unfolding al(1) allocated_carve(2) [OF e(1)] by auto
    fix x m' i' assume x: "x \<in> set ?es" "ex_key x = Some (Weight m' i')"
    then have "x \<in> set (allocated ?es)" by (simp add: allocated_mem)
    then consider "x = ?x" | "x \<in> set (allocated (extents b))" unfolding al by auto
    then show "(\<exists>e' \<in> set (extents b). ex_key e' = ex_key x \<and> ex_size e' = ex_size x)
        \<or> (\<exists>grp. group_at b (m', i') = Inr grp \<and> ex_size x = tg_bytes grp)"
    proof cases
      case 1
      then show ?thesis using x(2) g by auto
    next
      case 2
      then show ?thesis by (auto simp: allocated_mem)
    qed
  qed
  have mem: "j \<in> seg_content b' m' \<longleftrightarrow> (\<exists>x \<in> set (allocated (extents b')). ex_key x = Some (Weight m' j))"
    for j m' and b' :: "'a seg_mem_scheme"
    by (auto simp: seg_content_def allocated_mem)
  have eq: "j = i \<or> j \<in> seg_content b m \<longleftrightarrow> j \<in> seg_content (b\<lparr> extents := ?es \<rparr>) m" for j
    unfolding mem by (simp add: al) auto
  show "seg_content (b\<lparr> extents := ?es \<rparr>) m = insert i (seg_content b m)"
    using eq by blast
qed

section \<open>The segment backend as a whole\<close>

definition seg_ops :: "seg_mem backend_ops" where
  "seg_ops = \<lparr> op_begin = seg_begin_request, op_plan = seg_plan_request, op_prepare = seg_prepare_tensor,
     op_finish = mem_finish_request, op_resident = seg_tensor_resident,
     op_physical_bytes = seg_physical_model_bytes, op_resident_bytes = (\<lambda>_ _. Inl AttributeError),
     op_prefix_count = (\<lambda>_ _. Inl AttributeError), op_suffix_start = (\<lambda>_ _. Inl AttributeError),
     op_metrics = seg_metrics \<rparr>"

definition groups_positive :: "(int \<times> tensor_model) list \<Rightarrow> bool" where
  "groups_positive ms \<longleftrightarrow> (\<forall>(i, m) \<in> set ms. \<forall>g \<in> set (groups m). 0 < tg_bytes g)"

definition seg_ok :: "seg_mem \<Rightarrow> bool" where
  "seg_ok b \<longleftrightarrow> seg_inv b \<and> weights_only (extents b) \<and> groups_positive (mb_models b)
     \<and> compaction_policy (mb_args b) \<noteq> Never \<and> (\<forall>m \<in> fst ` set (mb_models b). \<exists>n. model_accesses b m = Some n)"

definition seg_setup :: "'x mem_base_scheme \<Rightarrow> (int \<times> tensor_model) list \<times> int \<times> sim_args" where
  "seg_setup b = (mb_models b, capacity_bytes b, mb_args b)"

definition seg_fits :: "'x mem_base_scheme \<Rightarrow> int \<Rightarrow> int \<Rightarrow> tensor_spec list \<Rightarrow> bool" where
  "seg_fits b kv m ts \<longleftrightarrow> 0 \<le> kv \<and> (\<exists>model. map_of (mb_models b) m = Some model \<and> set ts \<subseteq> set (tensors model))
     \<and> seg_model_total b m + kv \<le> capacity_bytes b"

definition seg_loadable :: "seg_mem \<Rightarrow> int \<Rightarrow> tensor_spec list \<Rightarrow> bool" where
  "seg_loadable b m ts \<longleftrightarrow> seg_ok b \<and> seg_below b
     \<and> (\<exists>model. map_of (mb_models b) m = Some model \<and> set ts \<subseteq> set (tensors model))
     \<and> seg_model_total b m \<le> weight_capacity_bytes b
     \<and> 0 \<le> weight_capacity_bytes b \<and> weight_capacity_bytes b \<le> capacity_bytes b"

lemma seg_setup_eqs:
  assumes "seg_setup b' = seg_setup b"
  shows "mb_models b' = mb_models b" "capacity_bytes b' = capacity_bytes b" "mb_args b' = mb_args b"
    "seg_model_total b' = seg_model_total b" "seg_fits b' = seg_fits b" "mem_group b' = mem_group b" "group_at b' = group_at b"
  using assms by (auto simp: seg_setup_def seg_model_total_def seg_fits_def mem_group_def group_at_def fun_eq_iff)

lemma seg_kept_ok:
  assumes "seg_ok b" and "seg_kept b m b'"
  shows "seg_ok b'" and "seg_setup b' = seg_setup b" and "weight_capacity_bytes b' = weight_capacity_bytes b"
    and "seg_content b' m = seg_content b m"
proof -
  obtain es n where "b' = b\<lparr> extents := es, compaction_count := n \<rparr>" "seg_inv b'" "weights_only (extents b')"
      "seg_content b' m = seg_content b m"
    using assms(2) by (auto simp: seg_kept_def)
  then show "seg_ok b'" "seg_setup b' = seg_setup b" "weight_capacity_bytes b' = weight_capacity_bytes b"
      "seg_content b' m = seg_content b m"
    using assms(1) by (simp_all add: seg_ok_def seg_setup_def)
qed

lemma seg_begin_ok:
  assumes ok: "seg_ok b" and fits: "seg_fits b kv m ts"
  shows "\<exists>b' c. seg_begin_request kv m b = Inr (b', c) \<and> seg_loadable b' m ts \<and> seg_setup b' = seg_setup b \<and> cost_ok c"
proof -
  let ?b = "b\<lparr> weight_capacity_bytes := max 0 (capacity_bytes b - kv) \<rparr>"
  obtain model where m: "map_of (mb_models b) m = Some model" "set ts \<subseteq> set (tensors model)"
    using fits by (auto simp: seg_fits_def)
  have "seg_model_used b m \<le> seg_model_total b m" "0 \<le> seg_model_used b m"
  proof -
    have inv: "seg_inv b" using ok by (simp add: seg_ok_def)
    then show "seg_model_used b m \<le> seg_model_total b m" using m(1) by (rule seg_model_fits)
    have "tiles 0 (extents b) (capacity_bytes b)" using inv by (simp add: seg_inv_def)
    from tiles_bounds [OF this] show "0 \<le> seg_model_used b m"
      unfolding seg_model_used_def by (intro sum_list_nonneg_map) simp
  qed
  then have total: "0 \<le> seg_model_total b m" by simp
  have cap: "seg_model_total ?b m \<le> weight_capacity_bytes ?b" "weight_capacity_bytes ?b \<le> capacity_bytes ?b"
      "0 \<le> weight_capacity_bytes ?b"
    using fits total by (auto simp: seg_fits_def seg_model_total_def)
  have ok': "seg_ok ?b" using ok by (simp add: seg_ok_def seg_inv_def group_at_def)
  then obtain b' c where run: "seg_trim_to_capacity m ?b = Inr (b', c)" "seg_kept ?b m b'" "seg_below b'" "cost_ok c"
    using seg_trim_ok [of ?b m model] m cap by (auto simp: seg_ok_def)
  note kept = seg_kept_ok [OF ok' run(2)]
  have "seg_loadable b' m ts"
    using kept run(3) m cap seg_setup_eqs [OF kept(2)] unfolding seg_loadable_def by auto
  with run kept(2) show ?thesis by (auto simp: seg_begin_request_def seg_setup_def)
qed

lemma seg_touch_ok:
  "seg_ok (mem_touch k b) = seg_ok b" "seg_below (mem_touch k b) = seg_below b" "seg_setup (mem_touch k b) = seg_setup b"
  "seg_content (mem_touch k b) = seg_content b" "weight_capacity_bytes (mem_touch k b) = weight_capacity_bytes b"
  "extents (mem_touch k b) = extents b"
  by (simp_all add: seg_ok_def seg_below_def seg_setup_def seg_content_def mem_touch_def seg_inv_def group_at_def fun_eq_iff)

lemma seg_resident_content:
  "mem_group b m t = Inr g \<Longrightarrow> seg_tensor_resident b m t = Inr (group_id g \<in> seg_content b m)"
  by (simp add: seg_tensor_resident_def seg_content_find)

lemma seg_resident_mono:
  assumes "seg_setup b' = seg_setup b" and "seg_content b m \<subseteq> seg_content b' m" and "seg_tensor_resident b m t = Inr True"
  shows "seg_tensor_resident b' m t = Inr True"
proof -
  obtain g where g: "mem_group b m t = Inr g" using assms(3) by (auto simp: seg_tensor_resident_def py_simps)
  with assms seg_setup_eqs(6) [OF assms(1)] show ?thesis by (auto simp: seg_resident_content)
qed

lemma seg_loadable_step:
  assumes "seg_loadable b m (t # ts)" and "seg_ok b'" and "seg_below b'" and "seg_setup b' = seg_setup b"
    and "weight_capacity_bytes b' = weight_capacity_bytes b"
  shows "seg_loadable b' m ts"
  using assms seg_setup_eqs [OF assms(4)] by (auto simp: seg_loadable_def)

text \<open>Allocating a missing group: room is made, the first fit is found, and it ends below the limit.\<close>

lemma seg_allocate_ok:
  assumes ok: "seg_ok b" and below: "seg_below b" and m: "map_of (mb_models b) m = Some model"
    and cap: "0 \<le> weight_capacity_bytes b" "weight_capacity_bytes b \<le> capacity_bytes b"
    and fit: "seg_model_total b m \<le> weight_capacity_bytes b"
    and g: "group_at b (m, i) = Inr g" "group_id g = i" and fresh: "i \<notin> seg_content b m"
  shows "\<exists>s b' c es. seg_evict_while (\<lambda>b. seg_free_bytes b < tg_bytes g) m (b, no_cost) = Inr (Some s)
     \<and> make_contiguous (tg_bytes g) m s = Inr (b', c) \<and> cost_ok c \<and> mb_args b' = mb_args b
     \<and> place_first (weight_capacity_bytes b') (Weight m i) (tg_bytes g) (extents b') = Some es
     \<and> seg_ok (b'\<lparr> extents := es \<rparr>) \<and> seg_below (b'\<lparr> extents := es \<rparr>) \<and> seg_setup b' = seg_setup b
     \<and> weight_capacity_bytes b' = weight_capacity_bytes b
     \<and> seg_content (b'\<lparr> extents := es \<rparr>) m = insert i (seg_content b m)"
proof -
  have inv: "seg_inv b" "weights_only (extents b)" "compaction_policy (mb_args b) \<noteq> Never" using ok by (auto simp: seg_ok_def)
  have i: "i < length (groups model)" "g = groups model ! i" using g m by (auto simp: group_at_def py_simps split: if_splits)
  have pos: "0 < tg_bytes g"
    using ok m i by (auto simp: seg_ok_def groups_positive_def dest!: map_of_SomeD)
  have "seg_model_used b m + tg_bytes g \<le> weight_capacity_bytes b"
    using seg_model_fits(2) [OF inv(1) m fresh i(1)] fit i(2) by simp
  then obtain s b' c where 1: "seg_evict_while (\<lambda>b. seg_free_bytes b < tg_bytes g) m (b, no_cost) = Inr (Some s)"
     "make_contiguous (tg_bytes g) m s = Inr (b', c)" "seg_kept b m b'" "seg_below b'" "cost_ok c"
     "tg_bytes g \<le> seg_largest_free b'"
    using seg_room_ok [OF inv(1,2) m below cap _ pos inv(3)] by blast
  note kept = seg_kept_ok [OF ok 1(3)]
  obtain es where es: "place_first (weight_capacity_bytes b') (Weight m i) (tg_bytes g) (extents b') = Some es"
    using seg_largest_free_place [OF 1(6) pos] by blast
  from place_first_cut [OF es] obtain xs e ys where cut: "extents b' = xs @ e # ys"
      "es = xs @ carve e (Weight m i) (tg_bytes g) @ ys" "ex_key e = None" "tg_bytes g \<le> ex_size e"
      "ex_offset e + tg_bytes g \<le> weight_capacity_bytes b'" by blast
  have inv': "seg_inv b'" using kept(1) by (simp add: seg_ok_def)
  have g': "group_at b' (m, i) = Inr g" using g(1) seg_setup_eqs(7) [OF kept(2)] by simp
  have fresh': "i \<notin> seg_content b' m" using fresh kept(4) by simp
  note carved = seg_carve_inv [OF inv' cut(1,3,4) g' fresh']
  have "weights_only es"
    using kept(1) unfolding seg_ok_def weights_only_def cut by (auto simp: carve_def)
  then have "seg_ok (b'\<lparr> extents := es \<rparr>)" using kept(1) carved(1) cut(2) by (simp add: seg_ok_def)
  moreover have "seg_below (b'\<lparr> extents := es \<rparr>)"
    using 1(4) cut(1,3,5) by (auto simp: seg_below_def cut(2) allocated_carve)
  moreover have "mb_args b' = mb_args b" using kept(2) by (simp add: seg_setup_def)
  ultimately show ?thesis using 1 es kept carved(2) cut(2) by auto
qed

lemma seg_prepare_ok:
  assumes load: "seg_loadable b m (t # ts)"
  shows "\<exists>b' c. seg_prepare_tensor m t b = Inr (b', c) \<and> seg_loadable b' m ts \<and> seg_setup b' = seg_setup b \<and> cost_ok c
     \<and> seg_tensor_resident b' m t = Inr True
     \<and> (\<forall>t'. seg_tensor_resident b m t' = Inr True \<longrightarrow> seg_tensor_resident b' m t' = Inr True)"
proof -
  obtain model where ok: "seg_ok b" "seg_below b" and m: "map_of (mb_models b) m = Some model" "t \<in> set (tensors model)"
    and fit: "seg_model_total b m \<le> weight_capacity_bytes b"
    and cap: "0 \<le> weight_capacity_bytes b" "weight_capacity_bytes b \<le> capacity_bytes b"
    using load by (auto simp: seg_loadable_def)
  have wf: "models_wf (mb_models b)" and args: "args_ok (mb_args b)" using ok(1) by (auto simp: seg_ok_def seg_inv_def)
  obtain g where g: "mem_group b m t = Inr g" using mem_group_total [OF wf m] by blast
  note at = mem_group_wf [OF wf g]
  have finish: "\<exists>b' c. seg_prepare_tensor m t b = Inr (b', c) \<and> seg_loadable b' m ts \<and> seg_setup b' = seg_setup b \<and> cost_ok c
     \<and> seg_tensor_resident b' m t = Inr True
     \<and> (\<forall>t'. seg_tensor_resident b m t' = Inr True \<longrightarrow> seg_tensor_resident b' m t' = Inr True)"
    if run: "seg_prepare_tensor m t b = Inr (b', c)" and b': "seg_ok b'" "seg_below b'" "seg_setup b' = seg_setup b"
      "weight_capacity_bytes b' = weight_capacity_bytes b" "cost_ok c" and content: "seg_content b' m = insert (group_id g) (seg_content b m)"
    for b' c
  proof -
    have "mem_group b' m t = Inr g" using g seg_setup_eqs(6) [OF b'(3)] by simp
    then have "seg_tensor_resident b' m t = Inr True" using content by (simp add: seg_resident_content)
    moreover have "seg_tensor_resident b' m t' = Inr True" if "seg_tensor_resident b m t' = Inr True" for t'
      using seg_resident_mono [OF b'(3) _ that] content by blast
    ultimately show ?thesis using run b' seg_loadable_step [OF load b'(1-4)] by blast
  qed
  show ?thesis
  proof (cases "group_id g \<in> seg_content b m")
    case True
    then have "seg_prepare_tensor m t b = Inr (mem_touch (m, group_id g) b, no_cost)"
      using g by (simp add: seg_prepare_tensor_def seg_content_find)
    then show ?thesis by (rule finish) (use True ok in \<open>auto simp: seg_touch_ok\<close>)
  next
    case False
    obtain s b' c es where a: "seg_evict_while (\<lambda>b. seg_free_bytes b < tg_bytes g) m (b, no_cost) = Inr (Some s)"
       "make_contiguous (tg_bytes g) m s = Inr (b', c)" "cost_ok c" "mb_args b' = mb_args b"
       "place_first (weight_capacity_bytes b') (Weight m (group_id g)) (tg_bytes g) (extents b') = Some es"
       "seg_ok (b'\<lparr> extents := es \<rparr>)" "seg_below (b'\<lparr> extents := es \<rparr>)" "seg_setup b' = seg_setup b"
       "weight_capacity_bytes b' = weight_capacity_bytes b"
       "seg_content (b'\<lparr> extents := es \<rparr>) m = insert (group_id g) (seg_content b m)"
      using seg_allocate_ok [OF ok m(1) cap fit at(1) refl False] by blast
    let ?b = "mem_touch (m, group_id g) (b'\<lparr> extents := es \<rparr>)"
    let ?c = "c\<lparr> h2d_bytes := tg_bytes g, h2d_ms := of_int (tg_bytes g) / h2d_bytes_per_ms (mb_args b),
        allocation_ms := segment_allocation_ms (mb_args b) \<rparr>"
    have "seg_prepare_tensor m t b = Inr (?b, ?c)"
      using g False a args by (simp add: seg_prepare_tensor_def Let_def seg_content_find or_raise_def py_div_def args_ok_def)
    then show ?thesis
    proof (rule finish)
      show "cost_ok ?c" using a(3) args at(2) by (simp add: cost_ok_def args_ok_def)
      show "seg_setup ?b = seg_setup b" using a(8) by (simp add: seg_setup_def mem_touch_def)
    qed (use a in \<open>simp_all add: seg_touch_ok\<close>)
  qed
qed

lemma seg_finish_ok:
  assumes load: "seg_loadable b m []"
  shows "\<exists>b'. mem_finish_request m b = Inr b' \<and> seg_ok b' \<and> seg_setup b' = seg_setup b
     \<and> seg_used_bytes b' = seg_used_bytes b \<and> weight_capacity_bytes b' = weight_capacity_bytes b
     \<and> (\<forall>t. seg_tensor_resident b' m t = seg_tensor_resident b m t)"
proof -
  obtain model where ok: "seg_ok b" and m: "(m, model) \<in> set (mb_models b)"
    using load by (auto simp: seg_loadable_def dest: map_of_SomeD)
  then have "m \<in> fst ` set (mb_models b)" by force
  then obtain n where n: "model_accesses b m = Some n" using ok by (auto simp: seg_ok_def)
  define b' where "b' = b\<lparr> model_accesses := (model_accesses b)(m \<mapsto> n + 1) \<rparr>"
  have cfg: "seg_setup b' = seg_setup b" by (simp add: b'_def seg_setup_def)
  have "seg_ok b'" using ok seg_setup_eqs(7) [OF cfg] by (simp add: seg_ok_def seg_inv_def b'_def)
  moreover have "seg_tensor_resident b' m t = seg_tensor_resident b m t" for t
    using seg_setup_eqs(6) [OF cfg] by (simp add: seg_tensor_resident_def b'_def)
  moreover have "mem_finish_request m b = Inr b'" using n by (simp add: mem_finish_request_def b'_def)
  ultimately show ?thesis using cfg by (auto simp: b'_def seg_used_bytes_def)
qed

lemma seg_loadable_used:
  assumes "seg_loadable b m ts"
  shows "seg_used_bytes b \<le> weight_capacity_bytes b"
proof -
  have "seg_free_bytes b = weight_capacity_bytes b - seg_used_bytes b"
    using assms by (intro seg_free_used) (auto simp: seg_loadable_def seg_ok_def)
  then show ?thesis using free_below_nonneg [of "weight_capacity_bytes b" "extents b"] by (simp add: seg_free_bytes_below)
qed

interpretation segb: mem_backend seg_ops seg_ok seg_fits seg_loadable seg_setup seg_used_bytes weight_capacity_bytes
proof unfold_locales
  fix b :: seg_mem and m :: int and ts :: "tensor_spec list"
  show "seg_loadable b m ts \<Longrightarrow> seg_used_bytes b \<le> weight_capacity_bytes b" by (rule seg_loadable_used)
  show "seg_setup b' = seg_setup b \<Longrightarrow> seg_fits b' = seg_fits b" for b' :: seg_mem by (rule seg_setup_eqs(5))
  show "\<exists>x. op_metrics seg_ops b = Inr x" by (simp add: seg_ops_def seg_metrics_def Let_def)
qed (use seg_begin_ok seg_prepare_ok seg_finish_ok in \<open>simp_all add: seg_ops_def seg_plan_request_def\<close>)

section \<open>Properties\<close>

lemma seg_init_ok:
  assumes "models_wf models" and "args_ok args" and "0 \<le> capacity" and "groups_positive models"
    and "compaction_policy args \<noteq> Never"
  shows "seg_ok (seg_init models capacity page args)"
proof -
  define b where "b = seg_init models capacity page args"
  have sel: "mb_models b = models" "mb_args b = args" "capacity_bytes b = capacity" "compaction_count b = 0"
      "extents b = [\<lparr> ex_offset = 0, ex_size = capacity, ex_key = None \<rparr>]"
      "\<And>m. m \<in> fst ` set models \<Longrightarrow> model_accesses b m = Some 0"
    by (simp_all add: b_def seg_init_def mem_init_def mem_base.defs seg_mem.defs)
  then have "seg_ok b"
    using assms by (auto simp: seg_ok_def seg_inv_def weights_only_def allocated_def)
  then show ?thesis by (simp add: b_def)
qed


text \<open>Two models of two groups of 100 bytes in a pool of 300 bytes.\<close>

definition demo_segment :: seg_mem where
  "demo_segment = seg_init demo_models 300 64 ((demo_args Lru)\<lparr> compaction_policy := CostAware \<rparr>)"

lemma demo_segment_ok: "seg_ok demo_segment"
proof -
  have "models_wf demo_models" "groups_positive demo_models"
    by (auto simp: models_wf_def model_wf_def groups_positive_def demo_models_def demo_tensor_model_def demo_tensor_def less_Suc_eq)
  moreover have "args_ok ((demo_args Lru)\<lparr> compaction_policy := CostAware \<rparr>)" by (simp add: args_ok_def demo_args_def)
  ultimately show ?thesis unfolding demo_segment_def by (intro seg_init_ok) simp_all
qed


text \<open>Releasing what a first fit has carved gives back the coalesced extents.\<close>

lemma coalesce_step_split:
  assumes "ex_key e = None" and "n < ex_size e"
  shows "coalesce_step (coalesce_step acc (e\<lparr> ex_size := n \<rparr>))
      (e\<lparr> ex_offset := ex_offset e + n, ex_size := ex_size e - n \<rparr>) = coalesce_step acc e"
  using assms by (cases acc rule: rev_cases) (auto simp: coalesce_step_def butlast_append)

lemma clear_key_fresh: "\<forall>e \<in> set xs. ex_key e \<noteq> Some key \<Longrightarrow> clear_key key (xs @ ys) = xs @ clear_key key ys"
  by (induction xs) auto

lemma coalesce_carve:
  assumes "ex_key e = None" and "n \<le> ex_size e" and "\<forall>x \<in> set xs. ex_key x \<noteq> Some key"
  shows "coalesce (clear_key key (xs @ carve e key n @ ys)) = coalesce (xs @ e # ys)"
proof (cases "n < ex_size e")
  case True
  have rec: "\<lparr> ex_offset = ex_offset e, ex_size = n, ex_key = None \<rparr> = e\<lparr> ex_size := n \<rparr>"
    "\<lparr> ex_offset = ex_offset e + n, ex_size = ex_size e - n, ex_key = None \<rparr>
      = e\<lparr> ex_offset := ex_offset e + n, ex_size := ex_size e - n \<rparr>"
    using assms(1) by (cases e; simp)+
  have "clear_key key (xs @ carve e key n @ ys)
      = xs @ e\<lparr> ex_size := n \<rparr> # e\<lparr> ex_offset := ex_offset e + n, ex_size := ex_size e - n \<rparr> # ys"
    using True by (simp add: clear_key_fresh [OF assms(3)] carve_def rec)
  then show ?thesis by (simp add: coalesce_def coalesce_step_split [OF assms(1) True])
next
  case False
  then have "n = ex_size e" using assms(2) by simp
  moreover have "\<lparr> ex_offset = ex_offset e, ex_size = ex_size e, ex_key = None \<rparr> = e"
    using assms(1) by (cases e) simp
  ultimately show ?thesis by (simp add: clear_key_fresh [OF assms(3)] carve_def coalesce_def)
qed

text \<open>
  C20. Allocating and releasing is a round trip: when a first fit places an object that was not
  there and the object is released again, the released bytes are the allocated ones and the pool
  is the coalesced pool of before, whatever the position and the split of the chosen extent.
\<close>

theorem segment_alloc_free:
  assumes "find_extent es key = None" and "place_first limit key n es = Some es'"
  shows "free_extent key True es' = (n, coalesce es)"
proof -
  obtain xs e ys where cut: "es = xs @ e # ys" "es' = xs @ carve e key n @ ys" "ex_key e = None" "n \<le> ex_size e"
    using place_first_cut [OF assms(2)] by blast
  have fresh: "\<forall>x \<in> set xs. ex_key x \<noteq> Some key" using assms(1) cut(1) by (auto simp: find_extent_None)
  have "find_extent (xs @ carve e key n @ ys) key = Some \<lparr> ex_offset = ex_offset e, ex_size = n, ex_key = Some key \<rparr>"
    using fresh by (induction xs) (auto simp: find_extent_def carve_def)
  then show ?thesis
    using coalesce_carve [OF cut(3,4) fresh, of ys] by (simp add: free_extent_def cut(1,2))
qed

definition demo_extents :: "extent list" where
  "demo_extents = [\<lparr> ex_offset = 0, ex_size = 40, ex_key = Some (Weight 1 0) \<rparr>,
     \<lparr> ex_offset = 40, ex_size = 100, ex_key = None \<rparr>, \<lparr> ex_offset = 140, ex_size = 60, ex_key = Some (Weight 2 0) \<rparr>,
     \<lparr> ex_offset = 200, ex_size = 100, ex_key = None \<rparr>]"

theorem segment_alloc_free_witness:
  "\<exists>es'. place_first 300 (Weight 1 1) 70 demo_extents = Some es'
     \<and> free_extent (Weight 1 1) True es' = (70, coalesce demo_extents)"
  using segment_alloc_free [of demo_extents "Weight 1 1" 300 70]
  by (auto simp: demo_extents_def find_extent_def)

lemma select_victim_rank_cong:
  assumes "\<And>k. k \<in> set keys \<Longrightarrow> rank k = rank' k"
  shows "select_victim rank obj b keys = select_victim rank' obj b keys"
proof -
  have eq: "mem_value rank b k = mem_value rank' b k" if "k \<in> set keys" for k
    using assms [OF that] by (simp add: mem_value_def)
  then have "arg_min_list (mem_value rank b) keys = arg_min_list (mem_value rank' b) keys" if "keys \<noteq> []"
    using that by (intro arg_min_list_cong) auto
  then show ?thesis by (simp add: select_victim_def)
qed

lemma placement_cache_rank:
  assumes dist: "distinct (map ex_key (allocated es))" and key: "(m, g) \<in> set remaining" "(m, g) \<in> set (weight_keys es)"
  shows "get_default (map_of (placement_cache es remaining)) (m, g) 0 = placement_rank es (m, g)"
proof -
  obtain e where "e \<in> set es" "ex_key e = Some (Weight m g)" using key(2) by (auto simp: weight_keys_mem)
  then obtain i where i: "i < length es" "ex_key (es ! i) = Some (Weight m g)" by (auto simp: in_set_conv_nth)
  have nth: "j = i" if j: "j < length es" "ex_key (es ! j) = Some (Weight m g)" for j
  proof (rule ccontr)
    assume "j \<noteq> i"
    have pre: "distinct (map (\<lambda>j. ex_key (es ! j)) (filter (\<lambda>j. ex_key (es ! j) \<noteq> None) [0..<length es]))"
    proof -
      have "allocated es = map ((!) es) (filter (\<lambda>j. ex_key (es ! j) \<noteq> None) [0..<length es])"
        by (subst map_nth [of es, symmetric]) (simp add: allocated_def filter_map o_def del: map_nth)
      then show ?thesis using dist by (simp add: o_def)
    qed
    then have "inj_on (\<lambda>j. ex_key (es ! j)) {j. j < length es \<and> ex_key (es ! j) \<noteq> None}"
      by (auto simp: distinct_map inj_on_def)
    from inj_onD [OF this, of j i] show False using i j \<open>j \<noteq> i\<close> by simp
  qed
  have "filter (\<lambda>j. ex_key (es ! j) = Some (Weight m g)) [0..<length es] = [i]"
  proof -
    let ?F = "filter (\<lambda>j. ex_key (es ! j) = Some (Weight m g)) [0..<length es]"
    have "x \<in> set ?F \<longleftrightarrow> x = i" for x using nth [of x] i by (cases "x = i") auto
    then have "set ?F = set [i]" by (simp only: set_eq_iff list.set insert_iff empty_iff simp_thms)
    moreover have "sorted ?F" "distinct ?F" by (simp_all add: sorted_wrt_filter)
    ultimately show ?thesis using sorted_distinct_set_unique [of ?F "[i]"] by simp
  qed
  then have rank: "placement_rank es (m, g) = - reclaim_span es i" by (simp add: placement_rank_def)
  let ?kvs = "concat (map (\<lambda>i. case ex_key (es ! i) of
        Some (Weight m g) \<Rightarrow> if (m, g) \<in> set remaining then [((m, g), - reclaim_span es i)] else []
      | _ \<Rightarrow> []) [0..<length es])"
  have entry: "((m, g), v) \<in> set ?kvs \<longleftrightarrow> v = - reclaim_span es i" for v
  proof
    assume "((m, g), v) \<in> set ?kvs"
    then obtain j where "j < length es" "ex_key (es ! j) = Some (Weight m g)" "v = - reclaim_span es j"
      by (auto split: option.splits seg_key.splits if_splits)
    with nth [of j] show "v = - reclaim_span es i" by simp
  next
    assume "v = - reclaim_span es i"
    with i key(1) show "((m, g), v) \<in> set ?kvs" by (auto intro!: bexI [of _ i])
  qed
  have "(m, g) \<in> fst ` set ?kvs" using entry by force
  from dict_of_total [OF this] obtain v where v: "map_of (dict_of ?kvs) (m, g) = Some v" by blast
  with dict_of_values [OF v] entry have "v = - reclaim_span es i" by blast
  with v rank show ?thesis by (simp add: placement_cache_def get_default_def)
qed

text \<open>
  The rank cache is an optimization only: filling it in one pass over the pool selects the
  same victim as computing every candidate's reclaimable span by a search of its own, for every
  replacement policy.
\<close>

lemma segment_victims_cache:
  assumes "seg_inv b"
  shows "seg_victims active b = select_victim (placement_rank (extents b)) (seg_object_bytes b) b
     (remdups (filter (\<lambda>key. fst key \<noteq> active) (weight_keys (extents b))))"
proof -
  have "distinct (map ex_key (allocated (extents b)))" using assms by (simp add: seg_inv_def)
  from placement_cache_rank [OF this] show ?thesis
    unfolding seg_victims_def Let_def by (intro select_victim_rank_cong) auto
qed

definition demo_shared :: seg_mem where
  "demo_shared = demo_segment\<lparr> extents := [\<lparr> ex_offset = 0, ex_size = 100, ex_key = Some (Weight 1 0) \<rparr>,
     \<lparr> ex_offset = 100, ex_size = 100, ex_key = Some (Weight 2 0) \<rparr>, \<lparr> ex_offset = 200, ex_size = 100, ex_key = None \<rparr>] \<rparr>"

lemma demo_shared_inv: "seg_inv demo_shared"
  using demo_segment_ok
  by (simp add: seg_ok_def seg_inv_def demo_shared_def allocated_def)
     (simp add: demo_segment_def seg_init_def mem_init_def mem_base.defs seg_mem.defs group_at_def demo_models_def
      demo_tensor_model_def)

text \<open>
  Compaction loses nothing: it keeps every object with its size, in address order, packs
  the objects to the bottom of the pool so that the free bytes form a single extent, moves at most
  the allocated bytes, and charges no eviction.
\<close>

lemma segment_compaction:
  assumes "seg_inv b"
  shows "\<exists>b' c. seg_compact b = Inr (b', c) \<and> seg_inv b' \<and> evicted_bytes c = 0
     \<and> map ex_key (allocated (extents b')) = map ex_key (allocated (extents b))
     \<and> map ex_size (allocated (extents b')) = map ex_size (allocated (extents b))
     \<and> (\<forall>e \<in> set (allocated (extents b')). ex_end e \<le> seg_used_bytes b)
     \<and> length (filter (\<lambda>e. ex_key e = None) (extents b')) \<le> 1
     \<and> 0 \<le> compaction_moved_bytes c \<and> compaction_moved_bytes c \<le> seg_used_bytes b"
proof -
  let ?al = "allocated (extents b)"
  obtain b' c es where c: "seg_compact b = Inr (b', c)" "b' = b\<lparr> extents := es, compaction_count := compaction_count b + 1 \<rparr>"
     "seg_inv b'" "evicted_bytes c = 0" "\<forall>e \<in> set (allocated es). ex_end e \<le> seg_used_bytes b"
    using seg_compact_ok [OF assms] by blast
  have til: "tiles 0 (extents b) (capacity_bytes b)" and args: "gpu_copy_bytes_per_ms (mb_args b) \<noteq> 0"
    using assms by (auto simp: seg_inv_def args_ok_def)
  have nn: "\<forall>e \<in> set ?al. 0 \<le> ex_size e" using tiles_bounds [OF til] by (simp add: allocated_mem)
  define tail where "tail = (if (\<Sum>e \<leftarrow> ?al. ex_size e) < capacity_bytes b
      then [\<lparr> ex_offset = \<Sum>e \<leftarrow> ?al. ex_size e, ex_size = capacity_bytes b - (\<Sum>e \<leftarrow> ?al. ex_size e), ex_key = None \<rparr>]
      else [])"
  have "extents b' = repack 0 ?al @ tail" and moved: "compaction_moved_bytes c = shifted 0 ?al"
    using c(1) args by (auto simp: seg_compact_def compact_fold compact_ms_def py_div_def tail_def)
  then have tail: "es = repack 0 ?al @ tail" "length tail \<le> 1" "allocated tail = []"
    using c(2) by (auto simp: tail_def allocated_def)
  have "allocated es = repack 0 ?al"
    using tail allocated_repack [of 0 "extents b"] by (simp add: allocated_def)
  moreover have "filter (\<lambda>e. ex_key e = None) (repack 0 ?al) = []"
    using allocated_repack [of 0 "extents b"] by (metis (mono_tags, lifting) allocated_mem filter_False)
  then have "length (filter (\<lambda>e. ex_key e = None) es) \<le> 1"
    using tail(1,2) by (simp add: order_trans [OF length_filter_le])
  ultimately show ?thesis
    using c moved shifted_bounds [OF nn, of 0] by (auto simp: seg_used_bytes_def)
qed

end
