(* ===== verification/Mock_Segment.thy ===== *)
theory Mock_Segment
  imports Segment
begin

text \<open>
  The request-level segment planner (\<open>MockAllocationSegmentMemory\<close> of
  \<open>tensor_sim_segment_backend.py\<close>). It extends the segment pool of \<open>Segment\<close>: all missing
  groups of a request are placed at once, by partitioning the free extents, packing each
  partition and reserving the groups in the bytes that become contiguous; attention state is
  kept in blocks of the same pool. Python compares extents by identity; the extents of a pool
  lie at different offsets, so equality of extents is the same here. The measured planner time
  is left out.
\<close>

section \<open>State\<close>

record mock_mem = seg_mem +
  planned_loads :: "(mem_key \<times> load_cost) list"
  kv_keys :: "nat list"
  next_kv_extent_id :: nat
  pending_kv_bytes :: int

definition mk_init :: "(int \<times> tensor_model) list \<Rightarrow> int \<Rightarrow> int \<Rightarrow> sim_args \<Rightarrow> mock_mem" where
  "mk_init models capacity page args =
     seg_mem.extend (seg_init models capacity page args) (mock_mem.fields [] [] 0 0)"

definition mk_begin_request :: "int \<Rightarrow> int \<Rightarrow> mock_mem \<Rightarrow> (mock_mem \<times> load_cost) result" where
  "mk_begin_request kv active_model b =
     Inr (b\<lparr> extents := foldl (\<lambda>es i. snd (free_extent (KvBlock i) True es)) (extents b) (kv_keys b),
             kv_keys := [], pending_kv_bytes := kv, weight_capacity_bytes := capacity_bytes b,
             last_mckp_plan := None \<rparr>, no_cost)"

section \<open>Residency\<close>

definition mk_resident_group_ids :: "'x seg_mem_scheme \<Rightarrow> int \<Rightarrow> nat list" where
  "mk_resident_group_ids b model_id =
     sort (map snd (filter (\<lambda>key. fst key = model_id) (weight_keys (extents b))))"

definition mk_prefix_count :: "'x seg_mem_scheme \<Rightarrow> int \<Rightarrow> nat result" where
  "mk_prefix_count b model_id =
     (let resident = mk_resident_group_ids b model_id; prefix = length resident in
      if resident \<noteq> [0..<prefix] then Inl (RuntimeError ''MCKP prefix invariant failed'') else Inr prefix)"

definition mk_suffix_start :: "'x seg_mem_scheme \<Rightarrow> int \<Rightarrow> nat result" where
  "mk_suffix_start b model_id =
     (let resident = mk_resident_group_ids b model_id in
      r_bind (dict_get (mb_models b) model_id) (\<lambda>model.
        let group_count = length (groups model); start = group_count - length resident in
        if group_count < length resident \<or> resident \<noteq> [start..<group_count]
        then Inl (RuntimeError ''LRU suffix invariant failed'') else Inr start))"

definition mk_resident_model_bytes :: "'x seg_mem_scheme \<Rightarrow> int \<Rightarrow> int result" where
  "mk_resident_model_bytes b model_id =
     r_bind (r_map (\<lambda>i. seg_object_bytes b (model_id, i)) (mk_resident_group_ids b model_id)) (\<lambda>ns. Inr (sum_list ns))"

section \<open>Prefix replacement\<close>

definition free_victim :: "int \<times> int list \<times> extent list \<Rightarrow> mem_key \<Rightarrow> int \<times> int list \<times> extent list" where
  "free_victim = (\<lambda>(released, evicted, es) (m, g).
     case free_extent (Weight m g) False es of (amount, es') \<Rightarrow>
       if amount \<noteq> 0 then (released + amount, List.insert m evicted, es') else (released, evicted, es'))"

definition mk_mckp_reclaim :: "int \<Rightarrow> int \<Rightarrow> 'x seg_mem_scheme \<Rightarrow> ('x seg_mem_scheme \<times> load_cost) result" where
  "mk_mckp_reclaim active_model required_free b =
     (if required_free \<le> 0 then Inr (b, no_cost)
      else case prefix_stall_table b of
        None \<Rightarrow> Inl (RuntimeError ''mckp-prefix requires a prefix stall table'')
      | Some table \<Rightarrow>
          r_bind (resident_prefixes mk_prefix_count b) (\<lambda>before.
          r_bind (solve_covering_mckp table before active_model required_free
                    (mckp_prediction_samples b) (table_prefix_bytes table)) (\<lambda>plan.
          if \<not> feasible plan then Inl (RuntimeError ''Prefix-MCKP cannot reclaim enough space'')
          else case foldl free_victim (0, [], extents b) (victim_keys plan) of (released, evicted_models, es) \<Rightarrow>
          let b' = b\<lparr> extents := (if released \<noteq> 0 then coalesce es else es) \<rparr> in
          if released \<noteq> planned_free_bytes plan
          then Inl (RuntimeError ''Prefix-MCKP preview/commit byte mismatch'')
          else
          r_bind (resident_prefixes mk_prefix_count b') (\<lambda>after.
          if set after \<noteq> set (choices plan)
          then Inl (RuntimeError ''Prefix-MCKP preview/commit prefix mismatch'')
          else Inr (b'\<lparr> last_mckp_plan := Some plan \<rparr>,
            no_cost\<lparr> evicted_objects := int (length (victim_keys plan)), evicted_bytes := released,
                     mckp_required_free_bytes := required_free_bytes plan, mckp_planned_free_bytes := released,
                     mckp_predicted_damage_ms := (case predicted_future_damage_ms plan of None \<Rightarrow> 0 | Some d \<Rightarrow> d),
                     mckp_frontier_peak_states := int (frontier_peak_states plan),
                     mckp_evicted_groups := int (length (victim_keys plan)),
                     mckp_evicted_models := int (length evicted_models) \<rparr>)))))"

text \<open>
  Model LRU over prefixes. A candidate is ranked by its most recently used resident group, then
  by its id; the victim loses its last group. The loop state is the bytes released, the number
  of victims, the prefixes and the extents.
\<close>

definition prefix_rank :: "'x mem_base_scheme \<Rightarrow> int \<times> nat \<Rightarrow> int \<times> int" where
  "prefix_rank b = (\<lambda>(m, prefix).
     (if prefix = 0 then - 1 else Max (set (map (\<lambda>i. get_default (last_access b) (m, i) (- 1)) [0..<prefix])), m))"

definition prefix_candidates :: "int \<Rightarrow> (int \<times> nat) list \<Rightarrow> (int \<times> nat) list" where
  "prefix_candidates active_model prefixes = filter (\<lambda>(m, prefix). m \<noteq> active_model \<and> 0 < prefix) prefixes"

definition shorten :: "int \<Rightarrow> (int \<times> nat) list \<Rightarrow> (int \<times> nat) list" where
  "shorten m prefixes = map (\<lambda>(k, p). (k, if k = m then p - 1 else p)) prefixes"

lemma shorten_less:
  "(m, p) \<in> set prefixes \<Longrightarrow> 0 < p \<Longrightarrow> sum_list (map snd (shorten m prefixes)) < sum_list (map snd prefixes)"
proof (induction prefixes)
  case (Cons x prefixes)
  have le: "sum_list (map snd (shorten m prefixes)) \<le> sum_list (map snd prefixes)"
    unfolding shorten_def by (induction prefixes) auto
  show ?case
  proof (cases "x = (m, p)")
    case True
    then show ?thesis using Cons.prems(2) le by (simp add: shorten_def)
  next
    case False
    then have "sum_list (map snd (shorten m prefixes)) < sum_list (map snd prefixes)" using Cons by auto
    then show ?thesis by (cases x) (auto simp: shorten_def)
  qed
qed simp

function lru_prefix_loop ::
  "'x mem_base_scheme \<Rightarrow> int \<Rightarrow> int \<Rightarrow> int \<times> nat \<times> (int \<times> nat) list \<times> extent list \<Rightarrow>
   (int \<times> nat \<times> (int \<times> nat) list \<times> extent list) result" where
  "lru_prefix_loop b active_model required (released, victims, prefixes, es) =
     (if released < required then
        let candidates = prefix_candidates active_model prefixes in
        if candidates = [] then Inl (RuntimeError ''Prefix-LRU cannot reclaim enough space'')
        else case arg_min_list (prefix_rank b) candidates of (victim, prefix) \<Rightarrow>
          case free_extent (Weight victim (prefix - 1)) False es of (amount, es') \<Rightarrow>
            if amount = 0 then Inl (RuntimeError ''Prefix-LRU failed to free'')
            else lru_prefix_loop b active_model required (released + amount, victims + 1, shorten victim prefixes, es')
      else Inr (released, victims, prefixes, es))"
  by pat_completeness auto
termination
proof (relation "measure (\<lambda>(_, _, _, _, _, prefixes, _). sum_list (map snd prefixes))", goal_cases)
  case (2 b active required released victims prefixes es candidates victim prefix amount es')
  then have "(victim, prefix) \<in> set candidates" using arg_min_list_mem [of candidates "prefix_rank b"] by simp
  then have "(victim, prefix) \<in> set prefixes" "0 < prefix" using 2 by (auto simp: prefix_candidates_def)
  then show ?case by (simp add: shorten_less)
qed simp

declare lru_prefix_loop.simps [simp del]

definition mk_lru_prefix_reclaim :: "int \<Rightarrow> int \<Rightarrow> 'x seg_mem_scheme \<Rightarrow> ('x seg_mem_scheme \<times> load_cost) result" where
  "mk_lru_prefix_reclaim active_model required_free b =
     r_bind (resident_prefixes mk_prefix_count b) (\<lambda>prefixes.
     r_bind (lru_prefix_loop b active_model (max 0 required_free) (0, 0, prefixes, extents b))
       (\<lambda>(released, victims, _, es).
         Inr (b\<lparr> extents := (if released \<noteq> 0 then coalesce es else es) \<rparr>,
              no_cost\<lparr> evicted_objects := int victims, evicted_bytes := released \<rparr>)))"

definition mk_prefix_reclaim :: "int \<Rightarrow> int \<Rightarrow> 'x seg_mem_scheme \<Rightarrow> ('x seg_mem_scheme \<times> load_cost) result" where
  "mk_prefix_reclaim active_model required_free b =
     (if mem_policy b = MckpPrefix then mk_mckp_reclaim active_model required_free b
      else if mem_policy b = LruPrefix then mk_lru_prefix_reclaim active_model required_free b
      else Inl (RuntimeError ''not a prefix replacement policy''))"

definition prefix_policy :: "replacement_policy \<Rightarrow> bool" where
  "prefix_policy p \<longleftrightarrow> p = MckpPrefix \<or> p = LruPrefix"

section \<open>Attention-state blocks\<close>

definition available_block_bytes :: "int \<Rightarrow> extent list \<Rightarrow> int" where
  "available_block_bytes block es = (\<Sum>e \<leftarrow> filter (\<lambda>e. ex_key e = None) es. (ex_size e div block) * block)"

text \<open>
  Making room under a prefix policy. An iteration that frees no block raises, so the shortage
  decreases.
\<close>

function kv_reclaim_until :: "int \<Rightarrow> int \<Rightarrow> int \<Rightarrow> 'x seg_mem_scheme \<times> load_cost \<Rightarrow> ('x seg_mem_scheme \<times> load_cost) result" where
  "kv_reclaim_until block required active_model (b, cost) =
     (if available_block_bytes block (extents b) < required then
        r_bind (mk_prefix_reclaim active_model (required - available_block_bytes block (extents b)) b) (\<lambda>(b', c).
          if available_block_bytes block (extents b') \<le> available_block_bytes block (extents b)
          then Inl (RuntimeError ''Prefix policy cannot free KV-aligned Segment bytes'')
          else kv_reclaim_until block required active_model (b', cost_add cost c))
      else Inr (b, cost))"
  by pat_completeness auto
termination
  by (relation "measure (\<lambda>(block, required, _, b, _). nat (required - available_block_bytes block (extents b)))") auto

declare kv_reclaim_until.simps [simp del]

text \<open>One pass over the extents; the rest of a split extent is not visited again.\<close>

fun place_kv :: "int \<Rightarrow> int \<Rightarrow> nat \<Rightarrow> extent list \<Rightarrow> int \<times> nat list \<times> extent list" where
  "place_kv block remaining next_id [] = (remaining, [], [])"
| "place_kv block remaining next_id (e # es) =
     (let allocatable = min remaining ((ex_size e div block) * block) in
      if remaining \<le> 0 then (remaining, [], e # es)
      else if ex_key e \<noteq> None \<or> allocatable = 0
      then (case place_kv block remaining next_id es of (r, ids, es') \<Rightarrow> (r, ids, e # es'))
      else (case place_kv block (remaining - allocatable) (next_id + 1) es of (r, ids, es') \<Rightarrow>
              (r, next_id # ids, carve e (KvBlock next_id) allocatable @ es')))"

definition mk_allocate_kv_blocks :: "int \<Rightarrow> mock_mem \<times> load_cost \<Rightarrow> (mock_mem \<times> load_cost) result" where
  "mk_allocate_kv_blocks active_model = (\<lambda>(b, cost).
     let required = pending_kv_bytes b; block = kv_block_bytes (mb_args b); b0 = b\<lparr> pending_kv_bytes := 0 \<rparr> in
     if block = 0 \<and> list_ex (\<lambda>e. ex_key e = None) (extents b) then Inl ZeroDivisionError
     else
       r_bind (if prefix_policy (mem_policy b) then kv_reclaim_until block required active_model (b0, cost)
               else or_raise (RuntimeError ''Unified Segment pool cannot fit KV blocks'')
                      (seg_evict_while (\<lambda>b. available_block_bytes block (extents b) < required) active_model (b0, cost)))
         (\<lambda>(b1, cost1).
       case place_kv block required (next_kv_extent_id b1) (extents b1) of (remaining, ids, es) \<Rightarrow>
         if remaining \<noteq> 0 then Inl (RuntimeError ''Unified Segment pool has bytes but not enough KV blocks'')
         else Inr (b1\<lparr> extents := es, kv_keys := kv_keys b1 @ ids, next_kv_extent_id := next_kv_extent_id b1 + length ids \<rparr>,
                   cost1)))"

section \<open>Partitioning\<close>

type_synonym load_request = "mem_key \<times> int"

text \<open>\<open>_split_requests\<close>: each request goes to the side with more room left, or to the one it fits.\<close>

fun split_requests :: "load_request list \<Rightarrow> int \<Rightarrow> int \<Rightarrow> (load_request list \<times> load_request list) option" where
  "split_requests [] left_free right_free = Some ([], [])"
| "split_requests ((key, bytes) # rest) left_free right_free =
     (if bytes \<le> left_free \<and> (left_free \<ge> right_free \<or> bytes > right_free)
      then map_option (\<lambda>(l, r). ((key, bytes) # l, r)) (split_requests rest (left_free - bytes) right_free)
      else if bytes \<le> right_free
      then map_option (\<lambda>(l, r). (l, (key, bytes) # r)) (split_requests rest left_free (right_free - bytes))
      else None)"

definition free_capacity :: "int \<Rightarrow> extent list \<Rightarrow> int" where
  "free_capacity limit frees = (\<Sum>e \<leftarrow> frees. visible_free limit e)"

text \<open>The bytes between two neighbouring free extents, which splitting there need not move.\<close>

definition split_profit :: "extent list \<Rightarrow> extent list \<Rightarrow> nat \<Rightarrow> int" where
  "split_profit es frees i =
     (\<Sum>e \<leftarrow> filter (\<lambda>e. ex_key e \<noteq> None \<and> ex_offset e \<ge> ex_end (frees ! i) \<and> ex_end e \<le> ex_offset (frees ! (i + 1))) es.
        ex_size e)"

definition better_split ::
  "int \<Rightarrow> extent list \<Rightarrow> extent list \<Rightarrow> load_request list \<Rightarrow>
   (int \<times> nat \<times> load_request list \<times> load_request list) option \<Rightarrow> nat \<Rightarrow>
   (int \<times> nat \<times> load_request list \<times> load_request list) option" where
  "better_split limit es frees pending best i =
     (case split_requests pending (free_capacity limit (take (i + 1) frees)) (free_capacity limit (drop (i + 1) frees)) of
        None \<Rightarrow> best
      | Some (l, r) \<Rightarrow>
          let profit = split_profit es frees i in
          (case best of
             None \<Rightarrow> Some (profit, i, l, r)
           | Some (p, _) \<Rightarrow> if profit > p then Some (profit, i, l, r) else best))"

definition best_split ::
  "int \<Rightarrow> extent list \<Rightarrow> extent list \<times> load_request list \<Rightarrow> (int \<times> nat \<times> load_request list \<times> load_request list) option" where
  "best_split limit es = (\<lambda>(frees, pending).
     if length frees < 2 \<or> pending = [] then None
     else foldl (better_split limit es frees pending) None [0..<length frees - 1])"

definition split_group ::
  "int \<Rightarrow> extent list \<Rightarrow> extent list \<times> load_request list \<Rightarrow> (extent list \<times> load_request list) list" where
  "split_group limit es = (\<lambda>(frees, pending).
     case best_split limit es (frees, pending) of
       None \<Rightarrow> [(frees, pending)]
     | Some (_, i, l, r) \<Rightarrow> [(take (i + 1) frees, l), (drop (i + 1) frees, r)])"

lemma best_split_index:
  assumes "best_split limit es (frees, pending) = Some (p, i, l, r)"
  shows "i < length frees - 1" and "2 \<le> length frees"
    and "split_requests pending (free_capacity limit (take (i + 1) frees)) (free_capacity limit (drop (i + 1) frees)) = Some (l, r)"
proof -
  have len: "\<not> (length frees < 2 \<or> pending = [])" using assms by (auto simp: best_split_def)
  then show "2 \<le> length frees" by simp
  have "\<forall>x. foldl (better_split limit es frees pending) None is = Some x \<longrightarrow>
      fst (snd x) \<in> set is \<and> split_requests pending (free_capacity limit (take (fst (snd x) + 1) frees))
        (free_capacity limit (drop (fst (snd x) + 1) frees)) = Some (snd (snd x))" for "is"
    by (induction "is" rule: rev_induct)
       (auto simp: better_split_def Let_def split: option.splits prod.splits if_splits)
  then have "fst (snd (p, i, l, r)) \<in> set [0..<length frees - 1]
      \<and> split_requests pending (free_capacity limit (take (fst (snd (p, i, l, r)) + 1) frees))
        (free_capacity limit (drop (fst (snd (p, i, l, r)) + 1) frees)) = Some (snd (snd (p, i, l, r)))"
    using assms len by (simp only: best_split_def split if_False)
  then show "i < length frees - 1"
      "split_requests pending (free_capacity limit (take (i + 1) frees)) (free_capacity limit (drop (i + 1) frees)) = Some (l, r)"
    by simp_all
qed

definition group_weight :: "(extent list \<times> load_request list) list \<Rightarrow> nat" where
  "group_weight parts = sum_list (map (\<lambda>(frees, _). length frees - 1) parts)"

lemma split_group_weight:
  "group_weight (split_group limit es part) \<le> group_weight [part]
   \<and> (best_split limit es part \<noteq> None \<longrightarrow> group_weight (split_group limit es part) < group_weight [part])"
proof (cases "best_split limit es part")
  case (Some x)
  obtain frees pending where part: "part = (frees, pending)" by (cases part)
  obtain p i l r where x: "x = (p, i, l, r)" by (cases x) auto
  note idx = best_split_index(1,2) [OF Some [unfolded part x]]
  then show ?thesis using Some by (simp add: part x split_group_def group_weight_def) linarith
next
  case None
  then show ?thesis by (cases part) (simp add: split_group_def group_weight_def)
qed

lemma split_pass_weight:
  "group_weight (concat (map (split_group limit es) parts)) \<le> group_weight parts
   \<and> (list_ex (\<lambda>part. best_split limit es part \<noteq> None) parts \<longrightarrow>
        group_weight (concat (map (split_group limit es) parts)) < group_weight parts)"
proof (induction parts)
  case (Cons part parts)
  have "group_weight (part # parts) = group_weight [part] + group_weight parts"
    "group_weight (xs @ ys) = group_weight xs + group_weight ys" for xs ys
    by (simp_all add: group_weight_def)
  then show ?case using Cons split_group_weight [of limit es part] by auto
qed simp

text \<open>\<open>while changed\<close>: passes over the parts until none of them splits.\<close>

function partition_loop ::
  "int \<Rightarrow> extent list \<Rightarrow> (extent list \<times> load_request list) list \<Rightarrow> (extent list \<times> load_request list) list" where
  "partition_loop limit es parts =
     (if list_ex (\<lambda>part. best_split limit es part \<noteq> None) parts
      then partition_loop limit es (concat (map (split_group limit es) parts))
      else parts)"
  by pat_completeness auto
termination
  by (relation "measure (\<lambda>(_, _, parts). group_weight parts)") (use split_pass_weight in auto)

declare partition_loop.simps [simp del]

definition partition_requests :: "'x seg_mem_scheme \<Rightarrow> load_request list \<Rightarrow> (extent list \<times> load_request list) list" where
  "partition_requests b requests =
     (if requests = [] then [] else partition_loop (weight_capacity_bytes b) (extents b) [(free_within b, requests)])"

section \<open>Packing a partition\<close>

definition position :: "extent list \<Rightarrow> extent \<Rightarrow> nat result" where
  "position es e = (if e \<in> set es then Inr (length (takeWhile (\<lambda>x. x \<noteq> e) es)) else Inl StopIteration)"

definition merge_partition :: "extent \<Rightarrow> extent \<Rightarrow> 'x seg_mem_scheme \<Rightarrow> ('x seg_mem_scheme \<times> extent \<times> int) result" where
  "merge_partition first_free last_free b =
     r_bind (position (extents b) first_free) (\<lambda>start.
     r_bind (position (extents b) last_free) (\<lambda>stop.
     let region = take (stop + 1 - start) (drop start (extents b));
         partition_end = min (ex_end last_free) (weight_capacity_bytes b);
         free_bytes = (\<Sum>e \<leftarrow> filter (\<lambda>e. ex_key e = None) region. max 0 (min (ex_end e) partition_end - ex_offset e)) in
     if region = [] then Inl (IndexError ''list index out of range'')
     else case foldl compact_step (ex_offset (hd region), 0, []) (allocated region) of (cursor, moved, packed) \<Rightarrow>
       let room = \<lparr> ex_offset = cursor, ex_size = free_bytes, ex_key = None \<rparr>;
           original_end = ex_end (last region);
           rest = (if partition_end < original_end
                   then [\<lparr> ex_offset = partition_end, ex_size = original_end - partition_end, ex_key = None \<rparr>] else []) in
       Inr (b\<lparr> extents := take start (extents b) @ packed @ [room] @ rest @ drop (stop + 1) (extents b) \<rparr>, room, moved)))"

text \<open>\<open>_reserve\<close>: the extent to reserve from may be gone, and then no extent is it.\<close>

definition reserve :: "extent option \<Rightarrow> load_request \<Rightarrow> 'x seg_mem_scheme \<Rightarrow> ('x seg_mem_scheme \<times> extent option) result" where
  "reserve room = (\<lambda>(key, bytes) b.
     case room of
       None \<Rightarrow> Inl StopIteration
     | Some e \<Rightarrow> r_bind (position (extents b) e) (\<lambda>i.
         let replacement = carve e (Weight (fst key) (snd key)) bytes in
         Inr (b\<lparr> extents := take i (extents b) @ replacement @ drop (i + 1) (extents b) \<rparr>,
              if length replacement = 2 then Some (replacement ! 1) else None)))"

definition reserve_all :: "extent \<Rightarrow> load_request list \<Rightarrow> 'x seg_mem_scheme \<Rightarrow> 'x seg_mem_scheme result" where
  "reserve_all room pending b =
     r_bind (r_foldl (\<lambda>(b, room) request. reserve room request b) (b, Some room) pending) (\<lambda>(b', _). Inr b')"

definition place_partition ::
  "'x seg_mem_scheme \<times> int \<Rightarrow> extent list \<times> load_request list \<Rightarrow> ('x seg_mem_scheme \<times> int) result" where
  "place_partition = (\<lambda>(b, moved) (frees, pending).
     if pending = [] then Inr (b, moved)
     else if frees = [] then Inl (IndexError ''list index out of range'')
     else r_bind (merge_partition (hd frees) (last frees) b) (\<lambda>(b1, room, local_moved).
          r_bind (reserve_all room pending b1) (\<lambda>b2. Inr (b2, moved + local_moved))))"

section \<open>Planning a request\<close>

text \<open>The groups of the request that are not resident, in order of first use.\<close>

definition missing_step :: "'x seg_mem_scheme \<Rightarrow> int \<Rightarrow> load_request list \<Rightarrow> tensor_spec \<Rightarrow> load_request list result" where
  "missing_step b model_id ordered tensor =
     r_bind (mem_group b model_id tensor) (\<lambda>g.
       let key = (model_id, group_id g) in
       Inr (if key \<in> fst ` set ordered \<or> find_extent (extents b) (Weight model_id (group_id g)) \<noteq> None then ordered
            else ordered @ [(key, tg_bytes g)]))"

definition missing_groups :: "'x seg_mem_scheme \<Rightarrow> int \<Rightarrow> tensor_spec list \<Rightarrow> load_request list result" where
  "missing_groups b model_id ts = r_foldl (missing_step b model_id) [] ts"

text \<open>The reclamation for attention state that both ends of \<open>plan_request\<close> perform.\<close>

definition kv_shortage :: "mock_mem \<Rightarrow> int" where
  "kv_shortage b = max 0 (pending_kv_bytes b - available_block_bytes (kv_block_bytes (mb_args b)) (extents b))"

definition finish_plan :: "int \<Rightarrow> mock_mem \<times> load_cost \<Rightarrow> (mock_mem \<times> load_cost) result" where
  "finish_plan model_id = (\<lambda>(b, cost).
     r_bind (if prefix_policy (mem_policy b)
             then if kv_block_bytes (mb_args b) = 0 \<and> list_ex (\<lambda>e. ex_key e = None) (extents b) then Inl ZeroDivisionError
                  else r_bind (mk_prefix_reclaim model_id (kv_shortage b) b) (\<lambda>(b', c). Inr (b', cost_add cost c))
             else Inr (b, cost)) (mk_allocate_kv_blocks model_id))"

definition plan_load :: "'x mem_base_scheme \<Rightarrow> load_request \<Rightarrow> load_cost \<Rightarrow> load_cost result" where
  "plan_load b = (\<lambda>(key, bytes) load.
     r_bind (py_div (of_int bytes) (h2d_bytes_per_ms (mb_args b))) (\<lambda>ms.
       Inr (load\<lparr> h2d_bytes := bytes, h2d_ms := ms, allocation_ms := segment_allocation_ms (mb_args b) \<rparr>)))"

definition naive_bytes :: "int \<Rightarrow> extent list \<Rightarrow> int" where
  "naive_bytes model_id es = (\<Sum>e \<leftarrow> filter (evictable model_id) es. ex_size e)"

definition mk_plan_request :: "int \<Rightarrow> tensor_spec list \<Rightarrow> mock_mem \<Rightarrow> (mock_mem \<times> load_cost) result" where
  "mk_plan_request model_id ts b =
     r_bind (missing_groups b model_id ts) (\<lambda>ordered.
     if ordered = [] then finish_plan model_id (b, no_cost)
     else
       let cost = no_cost\<lparr> model_reload_events := 1, naive_relocation_bytes := naive_bytes model_id (extents b) \<rparr>;
           required = (\<Sum>(_, bytes) \<leftarrow> ordered. bytes) in
       r_bind (if prefix_policy (mem_policy b)
               then r_bind (mk_prefix_reclaim model_id (max 0 (required + pending_kv_bytes b - seg_free_bytes b)) b)
                      (\<lambda>(b', c). Inr (b', cost_add cost c))
               else or_raise (RuntimeError ''Segment PBP cannot reclaim enough space'')
                      (seg_evict_while (\<lambda>b. seg_free_bytes b < required) model_id (b, cost))) (\<lambda>(b1, cost1).
       let requests = rev (sort_key snd (rev ordered)) in
       r_bind (r_foldl place_partition (b1, 0) (partition_requests b1 requests)) (\<lambda>(b2, moved).
       r_bind (if moved \<noteq> 0
               then r_bind (compact_ms b2 moved) (\<lambda>ms.
                      Inr (b2\<lparr> compaction_count := compaction_count b2 + 1,
                               planned_loads := AList.update (fst (hd ordered))
                                 (no_cost\<lparr> compaction_moved_bytes := moved, compaction_ms := ms \<rparr>) (planned_loads b2) \<rparr>))
               else Inr b2) (\<lambda>b3.
       r_bind (r_foldl (\<lambda>loads request.
                 r_bind (plan_load b3 request (get_default (map_of loads) (fst request) no_cost)) (\<lambda>load.
                   Inr (AList.update (fst request) load loads))) (planned_loads b3) ordered) (\<lambda>loads.
         finish_plan model_id (b3\<lparr> planned_loads := loads \<rparr>, cost1))))))"

section \<open>Preparing tensors and metrics\<close>

definition mk_prepare_tensor :: "int \<Rightarrow> tensor_spec \<Rightarrow> mock_mem \<Rightarrow> (mock_mem \<times> load_cost) result" where
  "mk_prepare_tensor model_id tensor b =
     r_bind (mem_group b model_id tensor) (\<lambda>g.
       let key = (model_id, group_id g) in
       case map_of (planned_loads b) key of
         Some planned \<Rightarrow> Inr (mem_touch key (b\<lparr> planned_loads := AList.delete key (planned_loads b) \<rparr>), planned)
       | None \<Rightarrow> seg_prepare_tensor model_id tensor b)"

definition mk_metrics :: "mock_mem \<Rightarrow> mem_metrics result" where
  "mk_metrics b =
     r_bind (seg_metrics b) (\<lambda>x.
       let kv_bytes = (\<Sum>e \<leftarrow> filter (\<lambda>e. \<exists>i \<in> set (kv_keys b). ex_key e = Some (KvBlock i)) (extents b). ex_size e) in
       Inr (x\<lparr> kv_resident_bytes := Some kv_bytes,
               logical_resident_bytes := logical_resident_bytes x - kv_bytes,
               physical_resident_bytes := physical_resident_bytes x - kv_bytes \<rparr>))"

definition mk_ops :: "mock_mem backend_ops" where
  "mk_ops = \<lparr> op_begin = mk_begin_request, op_plan = mk_plan_request, op_prepare = mk_prepare_tensor,
     op_finish = mem_finish_request, op_resident = seg_tensor_resident,
     op_physical_bytes = seg_physical_model_bytes, op_resident_bytes = mk_resident_model_bytes,
     op_prefix_count = mk_prefix_count, op_suffix_start = mk_suffix_start, op_metrics = mk_metrics \<rparr>"

section \<open>Partitions\<close>

definition demand :: "load_request list \<Rightarrow> int" where
  "demand requests = (\<Sum>(_, bytes) \<leftarrow> requests. bytes)"

lemma demand_simps [simp]: "demand [] = 0" "demand ((key, n) # rs) = n + demand rs" "demand (rs @ rs') = demand rs + demand rs'"
  by (simp_all add: demand_def)

lemma split_requests_ok:
  "split_requests rs l r = Some (ls, rs') \<Longrightarrow> 0 \<le> l \<Longrightarrow> 0 \<le> r \<Longrightarrow>
   demand ls \<le> l \<and> demand rs' \<le> r \<and> mset ls + mset rs' = mset rs"
proof (induction rs l r arbitrary: ls rs' rule: split_requests.induct)
  case (2 key n rest l r)
  show ?case
  proof (cases "n \<le> l \<and> (l \<ge> r \<or> n > r)")
    case True
    then obtain ls1 where "split_requests rest (l - n) r = Some (ls1, rs')" "ls = (key, n) # ls1"
      using "2.prems"(1) by (auto split: if_splits)
    with "2.IH"(1) [OF True, of ls1 rs'] True "2.prems"(2,3) show ?thesis by auto
  next
    case False
    then have fits: "n \<le> r" using "2.prems"(1) by (auto split: if_splits)
    with False obtain rs1 where "split_requests rest l (r - n) = Some (ls, rs1)" "rs' = (key, n) # rs1"
      using "2.prems"(1) by (auto split: if_splits)
    with "2.IH"(2) [OF False fits, of ls rs1] fits "2.prems"(2,3) show ?thesis by auto
  qed
qed auto

lemma free_capacity_nonneg: "0 \<le> free_capacity limit frees"
  unfolding free_capacity_def by (rule sum_list_nonneg_map) (simp add: visible_free_def)

text \<open>A part is sound when it has an extent and its requests fit the bytes of its extents.\<close>

definition part_ok :: "int \<Rightarrow> extent list \<times> load_request list \<Rightarrow> bool" where
  "part_ok limit = (\<lambda>(frees, pending). frees \<noteq> [] \<and> demand pending \<le> free_capacity limit frees)"

lemma split_group_ok:
  assumes "part_ok limit part"
  shows "(\<forall>p \<in> set (split_group limit es part). part_ok limit p)
     \<and> concat (map fst (split_group limit es part)) = fst part
     \<and> mset (concat (map snd (split_group limit es part))) = mset (snd part)"
proof (cases "best_split limit es part")
  case None
  then show ?thesis using assms by (cases part) (simp add: split_group_def)
next
  case (Some x)
  obtain frees pending where part: "part = (frees, pending)" by (cases part)
  obtain p i l r where x: "x = (p, i, l, r)" by (cases x) auto
  note idx = best_split_index [OF Some [unfolded part x]]
  have ok: "demand l \<le> free_capacity limit (take (i + 1) frees) \<and> demand r \<le> free_capacity limit (drop (i + 1) frees)
      \<and> mset l + mset r = mset pending"
    using split_requests_ok [OF idx(3) free_capacity_nonneg free_capacity_nonneg] .
  have "split_group limit es part = [(take (i + 1) frees, l), (drop (i + 1) frees, r)]"
    using Some by (simp add: part x split_group_def)
  moreover have "take (i + 1) frees \<noteq> []" "drop (i + 1) frees \<noteq> []" using idx(1,2) by auto
  ultimately show ?thesis using ok by (simp add: part part_ok_def)
qed

lemma split_pass_ok:
  assumes "\<forall>p \<in> set parts. part_ok limit p"
  shows "(\<forall>p \<in> set (concat (map (split_group limit es) parts)). part_ok limit p)
     \<and> concat (map fst (concat (map (split_group limit es) parts))) = concat (map fst parts)
     \<and> mset (concat (map snd (concat (map (split_group limit es) parts)))) = mset (concat (map snd parts))"
  using assms
proof (induction parts)
  case (Cons part parts)
  have "part_ok limit part" using Cons.prems by simp
  from split_group_ok [OF this, of es] show ?case using Cons by auto
qed simp

lemma partition_loop_ok:
  assumes "\<forall>p \<in> set parts. part_ok limit p"
  shows "(\<forall>p \<in> set (partition_loop limit es parts). part_ok limit p \<and> best_split limit es p = None)
     \<and> concat (map fst (partition_loop limit es parts)) = concat (map fst parts)
     \<and> mset (concat (map snd (partition_loop limit es parts))) = mset (concat (map snd parts))"
  using assms
proof (induction limit es parts rule: partition_loop.induct)
  case (1 limit es parts)
  note pass = split_pass_ok [OF "1.prems", of es]
  show ?case
  proof (cases "list_ex (\<lambda>part. best_split limit es part \<noteq> None) parts")
    case True
    have "partition_loop limit es parts = partition_loop limit es (concat (map (split_group limit es) parts))"
      using True by (simp only: partition_loop.simps [of limit es parts] if_True)
    with "1.IH" [OF True] pass show ?thesis by simp
  next
    case False
    then have "partition_loop limit es parts = parts" by (simp only: partition_loop.simps [of limit es parts] if_False)
    moreover have "\<forall>p \<in> set parts. best_split limit es p = None"
      using False unfolding list_ex_iff by blast
    ultimately show ?thesis using "1.prems" by simp
  qed
qed

lemma partition_ok:
  assumes "requests \<noteq> []" and "demand requests \<le> seg_free_bytes b" and "0 < demand requests"
  shows "concat (map fst (partition_requests b requests)) = free_within b
     \<and> mset (concat (map snd (partition_requests b requests))) = mset requests
     \<and> (\<forall>p \<in> set (partition_requests b requests).
          part_ok (weight_capacity_bytes b) p \<and> best_split (weight_capacity_bytes b) (extents b) p = None)"
proof -
  have "seg_free_bytes b = free_capacity (weight_capacity_bytes b) (free_within b)"
    by (simp add: seg_free_bytes_def free_capacity_def)
  then have "part_ok (weight_capacity_bytes b) (free_within b, requests)"
    using assms(2,3) by (auto simp: part_ok_def free_capacity_def)
  with partition_loop_ok [of "[(free_within b, requests)]" "weight_capacity_bytes b" "extents b"] assms(1)
  show ?thesis by (simp add: partition_requests_def)
qed

section \<open>Placement of a partition\<close>

text \<open>What a pool holds: the keys and sizes of its allocated extents.\<close>

definition objects :: "extent list \<Rightarrow> (seg_key option \<times> int) list" where
  "objects es = map (\<lambda>e. (ex_key e, ex_size e)) (allocated es)"

definition request_object :: "load_request \<Rightarrow> seg_key option \<times> int" where
  "request_object = (\<lambda>((m, g), bytes). (Some (Weight m g), bytes))"

lemma objects_simps [simp]:
  "objects [] = []" "objects (xs @ ys) = objects xs @ objects ys"
  "objects (e # es) = (if ex_key e = None then objects es else (ex_key e, ex_size e) # objects es)"
  by (simp_all add: objects_def allocated_def)

lemma objects_repack: "objects (repack a (allocated es)) = objects es"
proof -
  have "map (\<lambda>e. (ex_key e, ex_size e)) (repack a xs) = map (\<lambda>e. (ex_key e, ex_size e)) xs" for xs
    by (induction xs arbitrary: a) simp_all
  then show ?thesis by (simp add: objects_def allocated_repack)
qed

text \<open>The pool that reserving requests one after the other in a free extent leaves of it.\<close>

fun fill :: "extent \<Rightarrow> load_request list \<Rightarrow> extent list" where
  "fill e [] = [e]"
| "fill e ((key, n) # rs) =
     \<lparr> ex_offset = ex_offset e, ex_size = n, ex_key = Some (Weight (fst key) (snd key)) \<rparr>
     # (if ex_size e > n then fill \<lparr> ex_offset = ex_offset e + n, ex_size = ex_size e - n, ex_key = None \<rparr> rs else [])"

lemma fill_tiles:
  "\<forall>r \<in> set rs. 0 \<le> snd r \<Longrightarrow> demand rs \<le> ex_size e \<Longrightarrow> tiles (ex_offset e) (fill e rs) (ex_end e)"
proof (induction e rs rule: fill.induct)
  case (1 e)
  then show ?case by simp
next
  case (2 e key n rs)
  have nn: "0 \<le> demand rs" using "2.prems"(1) unfolding demand_def by (intro sum_list_nonneg_map) auto
  show ?case
  proof (cases "ex_size e > n")
    case True
    then show ?thesis using "2.IH" "2.prems" by simp
  next
    case False
    then show ?thesis using "2.prems" nn by simp
  qed
qed

lemma demand_pos: "\<forall>r \<in> set rs. 0 < snd r \<Longrightarrow> 0 \<le> demand rs \<and> (rs \<noteq> [] \<longrightarrow> 0 < demand rs)"
  by (induction rs) (auto simp: demand_def)

lemma fill_objects:
  "\<forall>r \<in> set rs. 0 < snd r \<Longrightarrow> demand rs \<le> ex_size e \<Longrightarrow> ex_key e = None \<Longrightarrow> objects (fill e rs) = map request_object rs"
proof (induction e rs rule: fill.induct)
  case (2 e key n rs)
  then show ?case using demand_pos [of rs] by (cases "rs = []") (auto simp: request_object_def split: prod.splits)
qed simp

lemma fill_pos: "\<forall>r \<in> set rs. 0 < snd r \<Longrightarrow> 0 < ex_size e \<Longrightarrow> x \<in> set (fill e rs) \<Longrightarrow> 0 < ex_size x"
  by (induction e rs rule: fill.induct) (auto split: if_splits)

lemma position_at: "e \<notin> set xs \<Longrightarrow> position (xs @ e # ys) e = Inr (length xs)"
proof -
  assume "e \<notin> set xs"
  then have "takeWhile (\<lambda>x. x \<noteq> e) (xs @ e # ys) = xs" by (subst takeWhile_append2) auto
  then show ?thesis by (simp add: position_def)
qed

lemma reserve_all_fill:
  assumes "extents b = us @ e # vs" and "ex_key e = None" and "\<forall>u \<in> set us. ex_offset u < ex_offset e"
    and "\<forall>r \<in> set rs. 0 < snd r" and "demand rs \<le> ex_size e"
  shows "reserve_all e rs b = Inr (b\<lparr> extents := us @ fill e rs @ vs \<rparr>)"
proof -
  have "\<exists>x. r_foldl (\<lambda>(b, room) request. reserve room request b) (b, Some e) rs
      = Inr (b\<lparr> extents := us @ fill e rs @ vs \<rparr>, x)" 
    using assms
  proof (induction e rs arbitrary: b us rule: fill.induct)
    case (1 e)
    then show ?case by simp
  next
    case (2 e key n rs)
    have pos: "position (extents b) e = Inr (length us)" using "2.prems"(1,3) position_at [of e us vs] by auto
    let ?x = "\<lparr> ex_offset = ex_offset e, ex_size = n, ex_key = Some (Weight (fst key) (snd key)) \<rparr>"
    let ?e = "\<lparr> ex_offset = ex_offset e + n, ex_size = ex_size e - n, ex_key = None \<rparr>"
    show ?case
    proof (cases "ex_size e > n")
      case True
      let ?b = "b\<lparr> extents := (us @ [?x]) @ ?e # vs \<rparr>"
      have step: "reserve (Some e) (key, n) b = Inr (?b, Some ?e)"
        using pos True "2.prems"(1) by (simp add: reserve_def carve_def)
      have "\<exists>x. r_foldl (\<lambda>(b, room) request. reserve room request b) (?b, Some ?e) rs
          = Inr (?b\<lparr> extents := (us @ [?x]) @ fill ?e rs @ vs \<rparr>, x)"
        using "2.prems" by (intro "2.IH" [OF True]) auto
      then show ?thesis using step True by simp
    next
      case False
      then have "rs = []" using "2.prems"(4,5) demand_pos [of rs] by auto
      moreover have "reserve (Some e) (key, n) b = Inr (b\<lparr> extents := us @ ?x # vs \<rparr>, None)"
        using pos False "2.prems"(1) by (simp add: reserve_def carve_def)
      ultimately show ?thesis using False by simp
    qed
  qed
  then show ?thesis by (auto simp: reserve_all_def)
qed

lemma tiles_increasing:
  "tiles a es z \<Longrightarrow> \<forall>e \<in> set es. 0 < ex_size e \<Longrightarrow> es = us @ e # vs \<Longrightarrow> \<forall>u \<in> set us. ex_offset u < ex_offset e"
proof (intro ballI)
  fix u assume a: "tiles a es z" "\<forall>e \<in> set es. 0 < ex_size e" "es = us @ e # vs" "u \<in> set us"
  then obtain m where "tiles a us m" "tiles m (e # vs) z" by (auto simp: tiles_append)
  moreover have "ex_offset e = m" "0 < ex_size u" using a calculation by simp_all
  ultimately show "ex_offset u < ex_offset e" using tiles_bounds [of a us m u] a(4) by simp
qed

text \<open>The region of a part: from its first to its last free extent.\<close>

lemma filter_eq_append:
  "filter P ys = us @ vs \<Longrightarrow> \<exists>ys1 ys2. ys = ys1 @ ys2 \<and> filter P ys1 = us \<and> filter P ys2 = vs"
proof (induction us arbitrary: ys)
  case Nil
  then show ?case by (intro exI [of _ "[]"] exI [of _ ys]) simp
next
  case (Cons u us)
  then have "filter P ys = u # (us @ vs)" by simp
  from filter_eq_ConsD [OF this] obtain xs zs where
    xs: "ys = xs @ u # zs" "\<forall>x \<in> set xs. \<not> P x" "P u" "us @ vs = filter P zs" by auto
  from Cons.IH [OF xs(4) [symmetric]] obtain z1 z2 where "zs = z1 @ z2" "filter P z1 = us" "filter P z2 = vs" by blast
  then show ?case using xs by (intro exI [of _ "xs @ u # z1"] exI [of _ z2]) simp
qed

lemma filter_region:
  assumes "filter P ys = frees @ rest" and "frees \<noteq> []"
  shows "\<exists>pre region post. ys = pre @ region @ post \<and> filter P pre = [] \<and> filter P region = frees \<and> filter P post = rest
     \<and> region \<noteq> [] \<and> hd region = hd frees \<and> last region = last frees"
proof -
  obtain ys1 ys2 where ys: "ys = ys1 @ ys2" "filter P ys1 = frees" "filter P ys2 = rest"
    using filter_eq_append [OF assms(1)] by blast
  then have "\<exists>x \<in> set ys1. P x" using assms(2) by (auto simp: filter_empty_conv)
  from split_list_last_prop [OF this] obtain A l B where AB: "ys1 = A @ l # B" "P l" "\<forall>z \<in> set B. \<not> P z" by blast
  have "\<exists>x \<in> set (A @ [l]). P x" using AB(2) by simp
  from split_list_first_prop [OF this] obtain pre f us where pre: "A @ [l] = pre @ f # us" "P f" "\<forall>z \<in> set pre. \<not> P z" by blast
  have none: "filter P pre = []" "filter P B = []" using pre(3) AB(3) by (auto simp: filter_empty_conv)
  have ys1: "ys1 = pre @ (f # us) @ B" using AB(1) pre(1) by (metis append.assoc append_Cons append_Nil)
  then have fr: "filter P (f # us) = frees" using ys(2) none pre(2) by simp
  have "last (f # us) = l" using pre(1) by (metis last_appendR last_snoc list.distinct(1))
  moreover have "last (filter P (f # us)) = last (f # us)" if "P (last (f # us))"
    using that by (metis append_butlast_last_id filter.simps(1) filter.simps(2) filter_append last_snoc list.distinct(1))
  ultimately have "last (f # us) = last frees" using AB(2) fr by simp
  moreover have "hd frees = f" using fr pre(2) by auto
  ultimately show ?thesis using ys ys1 none fr
    by (intro exI [of _ pre] exI [of _ "f # us"] exI [of _ "B @ ys2"]) auto
qed

definition merged_room :: "extent list \<Rightarrow> extent" where
  "merged_room region = \<lparr> ex_offset = ex_offset (hd region) + (\<Sum>e \<leftarrow> allocated region. ex_size e),
     ex_size = (\<Sum>e \<leftarrow> filter (\<lambda>e. ex_key e = None) region. ex_size e), ex_key = None \<rparr>"

lemma region_sum:
  "tiles a region z \<Longrightarrow> (\<Sum>e \<leftarrow> allocated region. ex_size e) + (\<Sum>e \<leftarrow> filter (\<lambda>e. ex_key e = None) region. ex_size e) = z - a"
proof (induction region arbitrary: a)
  case (Cons e region)
  then have "(\<Sum>e \<leftarrow> allocated region. ex_size e) + (\<Sum>e \<leftarrow> filter (\<lambda>e. ex_key e = None) region. ex_size e) = z - ex_end e"
    by (intro Cons.IH) (use Cons.prems in auto)
  then show ?case using Cons.prems by (simp add: allocated_def)
qed (simp add: allocated_def)

lemma merge_partition_ok:
  assumes es: "extents b = us @ region @ vs" and ne: "region \<noteq> []"
    and til: "tiles 0 (extents b) (weight_capacity_bytes b)" and pos: "\<forall>e \<in> set (extents b). 0 < ex_size e"
  shows "merge_partition (hd region) (last region) b
     = Inr (b\<lparr> extents := us @ repack (ex_offset (hd region)) (allocated region) @ merged_room region # vs \<rparr>,
            merged_room region, shifted (ex_offset (hd region)) (allocated region))"
proof -
  obtain f fs where f: "region = f # fs" using ne by (cases region) auto
  obtain bs l where l: "region = bs @ [l]" using ne by (cases region rule: rev_cases) auto
  have "f \<notin> set us" using tiles_increasing [OF til pos, of us f "fs @ vs"] es f by auto
  then have p1: "position (extents b) (hd region) = Inr (length us)" using position_at [of f us "fs @ vs"] es f by simp
  have "l \<notin> set (us @ bs)" using tiles_increasing [OF til pos, of "us @ bs" l vs] es l by auto
  then have p2: "position (extents b) (last region) = Inr (length us + length bs)"
    using position_at [of l "us @ bs" vs] es l by simp
  have reg: "take (length us + length bs + 1 - length us) (drop (length us) (extents b)) = region"
    "drop (length us + length bs + 1) (extents b) = vs" "take (length us) (extents b) = us"
    using es l by simp_all
  have le: "ex_end e \<le> weight_capacity_bytes b" if "e \<in> set region" for e
    using tiles_bounds [OF til, of e] that es by auto
  obtain m z where t: "tiles m region z" using til es by (auto simp: tiles_append)
  have "z = ex_end l" using t l by (auto simp: tiles_append)
  then have lz: "ex_end e \<le> ex_end l" if "e \<in> set region" for e using tiles_bounds [OF t that] by simp
  have size: "max 0 (min (ex_end e) (ex_end l) - ex_offset e) = ex_size e" if "e \<in> set region" for e
    using lz [OF that] tiles_bounds [OF t that] by simp
  have lst: "last region = l" using l by simp
  have mn: "min (ex_end l) (weight_capacity_bytes b) = ex_end l" using le [of l] l by simp
  have sum: "(\<Sum>e \<leftarrow> filter (\<lambda>e. ex_key e = None) region. max 0 (min (ex_end e) (ex_end l) - ex_offset e))
      = (\<Sum>e \<leftarrow> filter (\<lambda>e. ex_key e = None) region. ex_size e)"
    using size by (intro arg_cong [of _ _ sum_list] map_cong) auto
  show ?thesis
    unfolding merge_partition_def p1 p2 r_bind.simps Let_def reg
    using ne by (simp add: compact_fold lst mn sum merged_room_def)
qed

lemma free_capacity_sizes:
  "\<forall>e \<in> set frees. 0 \<le> ex_size e \<and> ex_end e \<le> limit \<Longrightarrow> free_capacity limit frees = (\<Sum>e \<leftarrow> frees. ex_size e)"
  unfolding free_capacity_def by (induction frees) (auto simp: visible_free_def)

text \<open>
  Placing one part in its region: what precedes the region and what follows it stay where they
  are, and the region is tiled again, with its objects and the new ones.
\<close>

definition pool_pos :: "int \<Rightarrow> extent list \<Rightarrow> bool" where
  "pool_pos limit es \<longleftrightarrow> tiles 0 es limit \<and> (\<forall>e \<in> set es. 0 < ex_size e)"

lemma place_part_ok:
  assumes es: "extents b = us @ region @ vs" and ne: "region \<noteq> []" "hd region = hd frees" "last region = last frees"
    and frees: "filter (\<lambda>e. ex_key e = None) region = frees" "frees \<noteq> []"
    and pool: "pool_pos (weight_capacity_bytes b) (extents b)"
    and pend: "pending \<noteq> []" "\<forall>r \<in> set pending. 0 < snd r" and ok: "part_ok (weight_capacity_bytes b) (frees, pending)"
  shows "\<exists>zs m. place_partition (b, n) (frees, pending) = Inr (b\<lparr> extents := us @ zs @ vs \<rparr>, n + m)
     \<and> pool_pos (weight_capacity_bytes b) (us @ zs @ vs) \<and> objects zs = objects region @ map request_object pending
     \<and> 0 \<le> m \<and> m \<le> (\<Sum>e \<leftarrow> allocated region. ex_size e)"
proof -
  let ?a = "ex_offset (hd region)" and ?room = "merged_room region"
  have til: "tiles 0 (extents b) (weight_capacity_bytes b)" and pos: "\<forall>e \<in> set (extents b). 0 < ex_size e"
    using pool by (simp_all add: pool_pos_def)
  obtain m0 z where t: "tiles 0 us m0" "tiles m0 region z" "tiles z vs (weight_capacity_bytes b)"
    using til es by (auto simp: tiles_append)
  have a: "?a = m0" using t(2) ne(1) by (cases region) auto
  have rpos: "\<forall>e \<in> set region. 0 < ex_size e" using pos es by auto
  then have alpos: "\<forall>e \<in> set (allocated region). 0 \<le> ex_size e" by (auto simp: allocated_mem intro: less_imp_le)
  have room: "ex_offset ?room = m0 + (\<Sum>e \<leftarrow> allocated region. ex_size e)" "ex_end ?room = z" "ex_key ?room = None"
    using region_sum [OF t(2)] by (simp_all add: merged_room_def a)
  have "free_capacity (weight_capacity_bytes b) frees = ex_size ?room"
    using frees(1) tiles_bounds [OF til] es by (subst free_capacity_sizes) (auto simp: merged_room_def)
  then have dem: "demand pending \<le> ex_size ?room" using ok by (simp add: part_ok_def)
  then have rp: "0 < ex_size ?room" using demand_pos [OF pend(2)] pend(1) by simp
  define us' where "us' = us @ repack m0 (allocated region)"
  have tr: "tiles m0 (repack m0 (allocated region)) (ex_offset ?room)" using repack_tiles [OF alpos, of m0] room(1) by simp
  have tu: "tiles 0 us' (ex_offset ?room)" unfolding us'_def tiles_append using t(1) tr by blast
  have "0 < ex_size e" if "e \<in> set (repack m0 (allocated region))" for e
    using repack_entry [OF that] rpos by (auto simp: allocated_mem)
  then have upos: "\<forall>e \<in> set us'. 0 < ex_size e" using pos es by (auto simp: us'_def)
  have less: "\<forall>u \<in> set us'. ex_offset u < ex_offset ?room"
    using tiles_bounds [OF tu] upos by fastforce
  define b1 where "b1 = b\<lparr> extents := us' @ ?room # vs \<rparr>"
  define zs where "zs = repack m0 (allocated region) @ fill ?room pending"
  have "merge_partition (hd frees) (last frees) b = Inr (b1, ?room, shifted m0 (allocated region))"
    using merge_partition_ok [OF es ne(1) til pos] unfolding a ne(2,3) [symmetric] by (simp add: b1_def us'_def)
  moreover have "reserve_all ?room pending b1 = Inr (b1\<lparr> extents := us' @ fill ?room pending @ vs \<rparr>)"
    using room(3) less pend(2) dem by (intro reserve_all_fill) (simp_all add: b1_def)
  ultimately have run: "place_partition (b, n) (frees, pending) = Inr (b\<lparr> extents := us @ zs @ vs \<rparr>, n + shifted m0 (allocated region))"
    using pend(1) frees(2) by (simp add: place_partition_def b1_def zs_def us'_def)
  have "tiles (ex_offset ?room) (fill ?room pending) z"
    using fill_tiles [of pending ?room] pend(2) dem room(2) by (simp add: less_imp_le)
  then have "tiles 0 (us @ zs @ vs) (weight_capacity_bytes b)"
    using t(1,3) tr unfolding zs_def tiles_append by blast
  moreover have "\<forall>e \<in> set (us @ zs @ vs). 0 < ex_size e"
    using upos fill_pos [OF pend(2) rp] pos es by (auto simp: zs_def us'_def)
  moreover have "objects zs = objects region @ map request_object pending"
    using fill_objects [OF pend(2) dem room(3)] by (simp add: zs_def objects_repack)
  ultimately show ?thesis
    using run shifted_bounds [OF alpos, of m0] unfolding pool_pos_def by blast
qed

lemma place_parts_ok:
  assumes "extents b = xs @ ys" and "filter (\<lambda>e. ex_key e = None) ys = concat (map fst parts)"
    and "pool_pos (weight_capacity_bytes b) (extents b)"
    and "\<forall>p \<in> set parts. part_ok (weight_capacity_bytes b) p \<and> (\<forall>r \<in> set (snd p). 0 < snd r)"
  shows "\<exists>zs m. r_foldl place_partition (b, n) parts = Inr (b\<lparr> extents := xs @ zs \<rparr>, n + m)
     \<and> pool_pos (weight_capacity_bytes b) (xs @ zs)
     \<and> mset (objects zs) = mset (objects ys) + mset (map request_object (concat (map snd parts)))
     \<and> 0 \<le> m \<and> m \<le> (\<Sum>e \<leftarrow> allocated ys. ex_size e)"
  using assms
proof (induction parts arbitrary: b xs ys n)
  case Nil
  have "0 \<le> ex_size e" if "e \<in> set (allocated ys)" for e
    using that Nil.prems(1,3) tiles_bounds [of 0 "xs @ ys"] by (auto simp: allocated_mem pool_pos_def)
  then have "0 \<le> (\<Sum>e \<leftarrow> allocated ys. ex_size e)" by (intro sum_list_nonneg_map) auto
  then show ?case using Nil by (intro exI [of _ ys] exI [of _ 0]) simp
next
  case (Cons part parts)
  obtain frees pending where part: "part = (frees, pending)" by (cases part)
  have ok: "part_ok (weight_capacity_bytes b) (frees, pending)" "\<forall>r \<in> set pending. 0 < snd r"
    and ok': "\<forall>p \<in> set parts. part_ok (weight_capacity_bytes b) p \<and> (\<forall>r \<in> set (snd p). 0 < snd r)"
    using Cons.prems(4) part by simp_all
  have ne: "frees \<noteq> []" using ok(1) by (simp add: part_ok_def)
  have "filter (\<lambda>e. ex_key e = None) ys = frees @ concat (map fst parts)" using Cons.prems(2) part by simp
  from filter_region [OF this ne] obtain pre region post where reg: "ys = pre @ region @ post"
    "filter (\<lambda>e. ex_key e = None) pre = []" "filter (\<lambda>e. ex_key e = None) region = frees"
    "filter (\<lambda>e. ex_key e = None) post = concat (map fst parts)" "region \<noteq> []" "hd region = hd frees" "last region = last frees"
    by blast
  have es: "extents b = (xs @ pre) @ region @ post" using Cons.prems(1) reg(1) by simp
  have "0 \<le> ex_size e" if "e \<in> set ys" for e
    using that Cons.prems(1,3) tiles_bounds [of 0 "xs @ ys"] by (auto simp: pool_pos_def)
  then have nn: "0 \<le> (\<Sum>e \<leftarrow> allocated us. ex_size e)" if "set us \<subseteq> set ys" for us
    using that by (intro sum_list_nonneg_map) (auto simp: allocated_mem)
  have al: "(\<Sum>e \<leftarrow> allocated ys. ex_size e) = (\<Sum>e \<leftarrow> allocated pre. ex_size e) + (\<Sum>e \<leftarrow> allocated region. ex_size e)
      + (\<Sum>e \<leftarrow> allocated post. ex_size e)"
    by (simp add: reg(1) allocated_def)
  obtain zs1 m1 where one: "place_partition (b, n) part = Inr (b\<lparr> extents := (xs @ pre) @ zs1 @ post \<rparr>, n + m1)"
    "pool_pos (weight_capacity_bytes b) ((xs @ pre) @ zs1 @ post)" "objects zs1 = objects region @ map request_object pending"
    "0 \<le> m1" "m1 \<le> (\<Sum>e \<leftarrow> allocated region. ex_size e)"
  proof (cases "pending = []")
    case True
    moreover have "0 \<le> (\<Sum>e \<leftarrow> allocated region. ex_size e)" using reg(1) by (intro nn) auto
    ultimately show thesis
      using that [of region 0] Cons.prems(3) es by (simp add: part place_partition_def)
  next
    case False
    from place_part_ok [OF es reg(5,6,7,3) ne Cons.prems(3) False ok(2,1), of n] that show thesis
      unfolding part by blast
  qed
  define b1 where "b1 = b\<lparr> extents := (xs @ pre @ zs1) @ post \<rparr>"
  have "\<exists>zs m. r_foldl place_partition (b1, n + m1) parts = Inr (b1\<lparr> extents := (xs @ pre @ zs1) @ zs \<rparr>, n + m1 + m)
     \<and> pool_pos (weight_capacity_bytes b1) ((xs @ pre @ zs1) @ zs)
     \<and> mset (objects zs) = mset (objects post) + mset (map request_object (concat (map snd parts)))
     \<and> 0 \<le> m \<and> m \<le> (\<Sum>e \<leftarrow> allocated post. ex_size e)"
    using one(2) ok' reg(4) by (intro Cons.IH) (simp_all add: b1_def)
  then obtain zs m where rest: "r_foldl place_partition (b1, n + m1) parts = Inr (b1\<lparr> extents := (xs @ pre @ zs1) @ zs \<rparr>, n + m1 + m)"
     "pool_pos (weight_capacity_bytes b) ((xs @ pre @ zs1) @ zs)"
     "mset (objects zs) = mset (objects post) + mset (map request_object (concat (map snd parts)))"
     "0 \<le> m" "m \<le> (\<Sum>e \<leftarrow> allocated post. ex_size e)"
    by (auto simp: b1_def)
  have "r_foldl place_partition (b, n) (part # parts) = Inr (b\<lparr> extents := xs @ pre @ zs1 @ zs \<rparr>, n + (m1 + m))"
    using one(1) rest(1) by (simp add: b1_def add.assoc)
  moreover have "mset (objects (pre @ zs1 @ zs)) = mset (objects ys) + mset (map request_object (concat (map snd (part # parts))))"
    using one(3) rest(3) by (simp add: reg(1) part ac_simps)
  ultimately show ?case
    using one(4,5) rest(2,4,5) nn [of pre] reg(1) al
    by (intro exI [of _ "pre @ zs1 @ zs"] exI [of _ "m1 + m"]) simp
qed

lemma seg_inv_objects:
  assumes inv: "seg_inv b" and til: "tiles 0 es (capacity_bytes b)"
    and obj: "mset (objects es) = mset (objects (extents b)) + mset (map request_object requests)"
    and fresh: "distinct (map fst requests)"
      "\<And>m g n. ((m, g), n) \<in> set requests \<Longrightarrow> g \<notin> seg_content b m \<and> (\<exists>grp. group_at b (m, g) = Inr grp \<and> n = tg_bytes grp)"
  shows "seg_inv (b\<lparr> extents := es \<rparr>)"
    and "seg_content (b\<lparr> extents := es \<rparr>) m = seg_content b m \<union> {g. (m, g) \<in> fst ` set requests}"
    and "seg_used_bytes (b\<lparr> extents := es \<rparr>) = seg_used_bytes b + demand requests"
proof -
  have mem: "(Some key, n) \<in> set (objects xs) \<longleftrightarrow> (\<exists>e \<in> set xs. ex_key e = Some key \<and> ex_size e = n)" for key n xs
    by (force simp: objects_def allocated_def)
  have keys: "map ex_key (allocated xs) = map fst (objects xs)" for xs by (simp add: objects_def)
  have set_obj: "set (objects es) = set (objects (extents b)) \<union> request_object ` set requests"
    using arg_cong [OF obj, of set_mset] by simp
  have content: "g \<in> seg_content b' m' \<longleftrightarrow> (\<exists>n. (Some (Weight m' g), n) \<in> set (objects (extents b')))"
    for m' g and b' :: "'a seg_mem_scheme"
    by (auto simp: seg_content_def mem)
  have req: "(Some (Weight m' g), n) \<in> request_object ` set requests \<longleftrightarrow> ((m', g), n) \<in> set requests" for m' g n
    by (force simp: request_object_def image_iff)
  have d1: "distinct (map fst (objects (extents b)))" using inv by (simp add: seg_inv_def keys)
  have d2: "distinct (map fst (map request_object requests))"
  proof -
    have "map fst (map request_object requests) = map (\<lambda>(m, g). Some (Weight m g)) (map fst requests)"
      by (simp add: request_object_def split_beta)
    moreover have "inj (\<lambda>(m, g). Some (Weight m g))" by (auto simp: inj_def)
    ultimately show ?thesis using fresh(1) by (simp only: distinct_map inj_on_subset [OF _ subset_UNIV])
  qed
  have "fst ` set (objects (extents b)) \<inter> fst ` set (map request_object requests) = {}"
  proof (rule equals0I)
    fix k assume k: "k \<in> fst ` set (objects (extents b)) \<inter> fst ` set (map request_object requests)"
    then obtain m' g n where r: "((m', g), n) \<in> set requests" "k = Some (Weight m' g)"
      by (auto simp: request_object_def)
    then have "g \<in> seg_content b m'" using k by (auto simp: content)
    then show False using fresh(2) [OF r(1)] by simp
  qed
  then have "distinct (map fst (objects (extents b) @ map request_object requests))"
    using d1 d2 by (simp add: image_image)
  moreover have "mset (map fst (objects es)) = mset (map fst (objects (extents b) @ map request_object requests))"
    using arg_cong [OF obj, of "image_mset fst"] by (simp add: multiset.map_comp)
  ultimately have dist: "distinct (map ex_key (allocated es))"
    unfolding keys using mset_eq_imp_distinct_iff by blast
  show "seg_inv (b\<lparr> extents := es \<rparr>)"
  proof (rule seg_inv_upd [OF inv til dist])
    fix e m' g assume e: "e \<in> set es" "ex_key e = Some (Weight m' g)"
    then have "(Some (Weight m' g), ex_size e) \<in> set (objects es)" by (auto simp: mem)
    then consider "(Some (Weight m' g), ex_size e) \<in> set (objects (extents b))" | "((m', g), ex_size e) \<in> set requests"
      using req by (auto simp: set_obj)
    then show "(\<exists>e' \<in> set (extents b). ex_key e' = ex_key e \<and> ex_size e' = ex_size e)
        \<or> (\<exists>grp. group_at b (m', g) = Inr grp \<and> ex_size e = tg_bytes grp)"
      using e(2) fresh(2) by cases (auto simp: mem)
  qed
  show "seg_content (b\<lparr> extents := es \<rparr>) m = seg_content b m \<union> {g. (m, g) \<in> fst ` set requests}"
  proof -
    have "(m, g) \<in> fst ` set requests \<longleftrightarrow> (\<exists>n. ((m, g), n) \<in> set requests)" for g by force
    then show ?thesis by (auto simp: content set_obj req)
  qed
  have used: "seg_used_bytes b' = sum_mset (image_mset snd (mset (objects (extents b'))))" for b' :: "'a seg_mem_scheme"
    by (simp add: seg_used_bytes_def objects_def sum_mset_sum_list [symmetric] comp_def mset_map [symmetric] del: mset_map)
  have "map snd (map request_object requests) = map snd requests" by (simp add: request_object_def split_beta)
  then show "seg_used_bytes (b\<lparr> extents := es \<rparr>) = seg_used_bytes b + demand requests"
    unfolding used by (simp add: obj demand_def case_prod_unfold sum_mset_sum_list [symmetric] request_object_def multiset.map_comp comp_def del: sum_mset_sum_list)
qed

text \<open>
  C12. Partition-based placement. In a pool without empty extents that holds the requested groups'
  bytes somewhere, placing the missing groups of a request never raises, however the free bytes
  are fragmented: it splits the free extents into parts, packs each part and reserves the groups
  in the contiguous bytes. Afterwards the pool is tiled again without overlap, it holds exactly
  the old objects and the new ones, its free bytes are the old ones less the bytes requested, and
  the packing moved at most the bytes that were allocated.
\<close>

theorem pbp_placement:
  assumes inv: "seg_inv b" and cap: "weight_capacity_bytes b = capacity_bytes b"
    and pos: "\<forall>e \<in> set (extents b). 0 < ex_size e" and ne: "requests \<noteq> []" and dist: "distinct (map fst requests)"
    and req: "\<And>m g n. ((m, g), n) \<in> set requests \<Longrightarrow>
      0 < n \<and> g \<notin> seg_content b m \<and> (\<exists>grp. group_at b (m, g) = Inr grp \<and> n = tg_bytes grp)"
    and fits: "demand requests \<le> seg_free_bytes b"
  shows "\<exists>es moved. r_foldl place_partition (b, 0) (partition_requests b requests) = Inr (b\<lparr> extents := es \<rparr>, moved)
     \<and> seg_inv (b\<lparr> extents := es \<rparr>)
     \<and> (\<forall>m. seg_content (b\<lparr> extents := es \<rparr>) m = seg_content b m \<union> {g. (m, g) \<in> fst ` set requests})
     \<and> seg_free_bytes (b\<lparr> extents := es \<rparr>) = seg_free_bytes b - demand requests
     \<and> 0 \<le> moved \<and> moved \<le> seg_used_bytes b"
proof -
  have til: "tiles 0 (extents b) (capacity_bytes b)" using inv by (simp add: seg_inv_def)
  have rpos: "\<forall>r \<in> set requests. 0 < snd r" using req by auto
  have part: "concat (map fst (partition_requests b requests)) = free_within b"
    "mset (concat (map snd (partition_requests b requests))) = mset requests"
    "\<forall>p \<in> set (partition_requests b requests). part_ok (weight_capacity_bytes b) p"
    using partition_ok [OF ne fits] demand_pos [OF rpos] ne by auto
  have "\<forall>e \<in> set (extents b). ex_offset e < capacity_bytes b" using tiles_bounds [OF til] pos by fastforce
  then have "filter (\<lambda>e. ex_key e = None) (extents b) = concat (map fst (partition_requests b requests))"
    unfolding part(1) free_within_def by (intro filter_cong) (auto simp: cap)
  moreover have "\<forall>p \<in> set (partition_requests b requests). \<forall>r \<in> set (snd p). 0 < snd r"
    using mset_eq_setD [OF part(2)] rpos by auto
  moreover have "pool_pos (weight_capacity_bytes b) (extents b)" using til pos cap by (simp add: pool_pos_def)
  ultimately obtain es moved where run: "r_foldl place_partition (b, 0) (partition_requests b requests) = Inr (b\<lparr> extents := es \<rparr>, moved)"
      "pool_pos (capacity_bytes b) es"
      "mset (objects es) = mset (objects (extents b)) + mset (map request_object (concat (map snd (partition_requests b requests))))"
      "0 \<le> moved" "moved \<le> seg_used_bytes b"
    using place_parts_ok [of b "[]" "extents b" "partition_requests b requests" 0] part(3) cap by (auto simp: seg_used_bytes_def)
  have "mset (objects es) = mset (objects (extents b)) + mset (map request_object requests)"
    using run(3) part(2) by simp
  moreover have til': "tiles 0 es (capacity_bytes b)" using run(2) by (simp add: pool_pos_def)
  moreover have "g \<notin> seg_content b m \<and> (\<exists>grp. group_at b (m, g) = Inr grp \<and> n = tg_bytes grp)"
    if "((m, g), n) \<in> set requests" for m g n using req [OF that] by blast
  ultimately have inv': "seg_inv (b\<lparr> extents := es \<rparr>)"
      and content: "\<And>m. seg_content (b\<lparr> extents := es \<rparr>) m = seg_content b m \<union> {g. (m, g) \<in> fst ` set requests}"
      and used: "seg_used_bytes (b\<lparr> extents := es \<rparr>) = seg_used_bytes b + demand requests"
    using seg_inv_objects [OF inv _ _ dist] by blast+
  have below: "seg_below b" "seg_below (b\<lparr> extents := es \<rparr>)"
    using tiles_bounds [OF til] tiles_bounds [OF til'] cap by (simp_all add: seg_below_def allocated_mem)
  have "0 \<le> capacity_bytes b" using tiles_le [OF til] .
  then have "seg_free_bytes (b\<lparr> extents := es \<rparr>) = seg_free_bytes b - demand requests"
    using seg_free_used [OF inv below(1)] seg_free_used [OF inv' below(2)] used cap by simp
  then show ?thesis using run(1,4,5) inv' content by blast
qed

definition demo_fragmented :: seg_mem where
  "demo_fragmented = (seg_init demo_models 200 64 (demo_args Lru))\<lparr> extents :=
     [\<lparr> ex_offset = 0, ex_size = 50, ex_key = None \<rparr>, \<lparr> ex_offset = 50, ex_size = 100, ex_key = Some (Weight 2 0) \<rparr>,
      \<lparr> ex_offset = 150, ex_size = 50, ex_key = None \<rparr>] \<rparr>"

lemma demo_fragmented_simps:
  "extents demo_fragmented = [\<lparr> ex_offset = 0, ex_size = 50, ex_key = None \<rparr>,
     \<lparr> ex_offset = 50, ex_size = 100, ex_key = Some (Weight 2 0) \<rparr>, \<lparr> ex_offset = 150, ex_size = 50, ex_key = None \<rparr>]"
  "capacity_bytes demo_fragmented = 200" "weight_capacity_bytes demo_fragmented = 200"
  "mb_models demo_fragmented = demo_models" "mb_args demo_fragmented = demo_args Lru"
  by (simp_all add: demo_fragmented_def seg_init_def mem_init_def mem_base.defs seg_mem.defs)

lemma demo_fragmented_inv: "seg_inv demo_fragmented"
  using demo_segment_ok
  by (simp add: seg_ok_def seg_inv_def demo_fragmented_simps allocated_def)
     (simp add: demo_segment_def seg_init_def mem_init_def mem_base.defs seg_mem.defs group_at_def demo_models_def
      demo_tensor_model_def args_ok_def demo_args_def demo_fragmented_simps)

theorem pbp_placement_witness:
  "\<exists>es moved. r_foldl place_partition (demo_fragmented, 0) (partition_requests demo_fragmented [((1, 0), 100)])
       = Inr (demo_fragmented\<lparr> extents := es \<rparr>, moved)
     \<and> seg_content (demo_fragmented\<lparr> extents := es \<rparr>) 1 = {0} \<and> moved \<le> 100"
proof -
  have 1: "demand [((1, 0), 100)] \<le> seg_free_bytes demo_fragmented"
    by (simp add: demand_def seg_free_bytes_def free_within_def visible_free_def demo_fragmented_simps)
  have 2: "seg_content demo_fragmented 1 = {}" "seg_used_bytes demo_fragmented = 100"
    by (simp_all add: seg_content_def seg_used_bytes_def allocated_def demo_fragmented_simps)
  have 3: "\<exists>grp. group_at demo_fragmented (1, 0) = Inr grp \<and> 100 = tg_bytes grp"
    by (simp add: group_at_def demo_fragmented_simps demo_models_def demo_tensor_model_def)
  have 4: "\<forall>e \<in> set (extents demo_fragmented). 0 < ex_size e"
    "weight_capacity_bytes demo_fragmented = capacity_bytes demo_fragmented"
    by (simp_all add: demo_fragmented_simps)
  have "\<exists>es moved. r_foldl place_partition (demo_fragmented, 0) (partition_requests demo_fragmented [((1, 0), 100)])
       = Inr (demo_fragmented\<lparr> extents := es \<rparr>, moved)
     \<and> seg_inv (demo_fragmented\<lparr> extents := es \<rparr>)
     \<and> (\<forall>m. seg_content (demo_fragmented\<lparr> extents := es \<rparr>) m
          = seg_content demo_fragmented m \<union> {g. (m, g) \<in> fst ` set [((1, 0), 100 :: int)]})
     \<and> seg_free_bytes (demo_fragmented\<lparr> extents := es \<rparr>) = seg_free_bytes demo_fragmented - demand [((1, 0), 100)]
     \<and> 0 \<le> moved \<and> moved \<le> seg_used_bytes demo_fragmented"
    by (rule pbp_placement [OF demo_fragmented_inv 4(2,1) _ _ _ 1]) (use 2 3 in auto)
  then obtain es moved where
      "r_foldl place_partition (demo_fragmented, 0) (partition_requests demo_fragmented [((1, 0), 100)])
       = Inr (demo_fragmented\<lparr> extents := es \<rparr>, moved)"
      "seg_content (demo_fragmented\<lparr> extents := es \<rparr>) 1 = seg_content demo_fragmented 1 \<union> {g. (1 :: int, g) \<in> fst ` set [((1, 0), 100 :: int)]}"
      "moved \<le> seg_used_bytes demo_fragmented"
    by blast
  then show ?thesis using 2 by (intro exI [of _ es] exI [of _ moved]) auto
qed

section \<open>Attention-state blocks in the pool\<close>

lemma available_simps [simp]:
  "available_block_bytes block [] = 0"
  "available_block_bytes block (e # es) =
     (if ex_key e = None then (ex_size e div block) * block else 0) + available_block_bytes block es"
  by (simp_all add: available_block_bytes_def)

lemma available_nonneg: "0 < block \<Longrightarrow> tiles a es z \<Longrightarrow> 0 \<le> available_block_bytes block es"
  by (induction es arbitrary: a) (auto simp: pos_imp_zdiv_nonneg_iff)

definition is_kv :: "nat list \<Rightarrow> extent \<Rightarrow> bool" where
  "is_kv ids e \<longleftrightarrow> (\<exists>i \<in> set ids. ex_key e = Some (KvBlock i))"

lemma place_kv_ok:
  assumes "0 < block" and "0 \<le> required" and "required \<le> available_block_bytes block es" and "tiles a es z"
    and "weights_only es" and "place_kv block required i es = (r, ids, es')"
  shows "r = 0 \<and> tiles a es' z \<and> ids = [i..<i + length ids]
     \<and> filter (\<lambda>e. \<not> is_kv ids e) (allocated es') = allocated es
     \<and> (\<Sum>e \<leftarrow> filter (is_kv ids) es'. ex_size e) = required
     \<and> distinct (map ex_key (filter (is_kv ids) es'))"
  using assms
proof (induction block required i es arbitrary: a r ids es' rule: place_kv.induct)
  case (1 block required i)
  then show ?case by (simp add: allocated_def)
next
  case (2 block required i e es)
  let ?n = "min required ((ex_size e div block) * block)"
  have t: "ex_offset e = a" "0 \<le> ex_size e" "tiles (ex_end e) es z" using "2.prems"(4) by auto
  have only: "weights_only es" "\<not> is_kv js e" for js using "2.prems"(5) by (auto simp: weights_only_def is_kv_def)
  have "ex_size e div block * block \<le> ex_size e"
    using "2.prems"(1) pos_mod_sign [of block "ex_size e"] by (simp add: minus_mod_eq_div_mult [symmetric])
  then have n: "0 \<le> ?n" "?n \<le> ex_size e"
    using t(2) "2.prems"(1,2) by (simp_all add: pos_imp_zdiv_nonneg_iff min.coboundedI2)
  consider (none) "required = 0" | (skip) "0 < required" "ex_key e \<noteq> None \<or> ?n = 0"
    | (take) "0 < required" "ex_key e = None" "?n \<noteq> 0" using "2.prems"(2) by linarith
  then show ?case
  proof cases
    case none
    then show ?thesis using "2.prems"(4,6) by (auto simp: is_kv_def)
  next
    case skip
    obtain es1 where rest: "place_kv block required i es = (r, ids, es1)" "es' = e # es1"
      using "2.prems"(6) skip by (auto split: prod.splits)
    have "required \<le> available_block_bytes block es" using "2.prems"(3) skip by (auto split: if_splits)
    from "2.IH"(1) [OF refl _ _ "2.prems"(1,2) this t(3) only(1) rest(1)] skip
    have "r = 0 \<and> tiles (ex_end e) es1 z \<and> ids = [i..<i + length ids]
      \<and> filter (\<lambda>e. \<not> is_kv ids e) (allocated es1) = allocated es
      \<and> (\<Sum>e \<leftarrow> filter (is_kv ids) es1. ex_size e) = required \<and> distinct (map ex_key (filter (is_kv ids) es1))" by auto
    then show ?thesis using t only(2) rest(2) by (auto simp: allocated_def)
  next
    case take
    obtain ids1 es1 where rest: "place_kv block (required - ?n) (i + 1) es = (r, ids1, es1)" "ids = i # ids1"
        "es' = carve e (KvBlock i) ?n @ es1"
      using "2.prems"(6) take by (auto simp: Let_def split: prod.splits)
    have "0 \<le> available_block_bytes block es" using available_nonneg "2.prems"(1) t(3) .
    then have "required - ?n \<le> available_block_bytes block es" "0 \<le> required - ?n" using "2.prems"(3) take by auto
    from "2.IH"(2) [OF refl _ _ "2.prems"(1) this(2,1) t(3) only(1) rest(1)] take
    have IH: "r = 0" "tiles (ex_end e) es1 z" "ids1 = [i + 1..<i + 1 + length ids1]"
      "filter (\<lambda>e. \<not> is_kv ids1 e) (allocated es1) = allocated es"
      "(\<Sum>e \<leftarrow> filter (is_kv ids1) es1. ex_size e) = required - ?n" "distinct (map ex_key (filter (is_kv ids1) es1))" by auto
    have "set ids1 = {i + 1..<i + 1 + length ids1}" using arg_cong [OF IH(3), of set] by (simp only: set_upt)
    then have "i \<notin> set ids1" by simp
    have fresh: "ex_key x \<noteq> Some (KvBlock i)" if "x \<in> set es1" for x
    proof
      assume x: "ex_key x = Some (KvBlock i)"
      then have "x \<in> set (filter (\<lambda>e. \<not> is_kv ids1 e) (allocated es1))"
        using that \<open>i \<notin> set ids1\<close> by (auto simp: allocated_mem is_kv_def)
      then have "x \<in> set es" unfolding IH(4) by (simp add: allocated_mem)
      then show False using x only(1) by (auto simp: weights_only_def)
    qed
    then have same: "is_kv ids x \<longleftrightarrow> is_kv ids1 x" if "x \<in> set es1" for x using that rest(2) by (auto simp: is_kv_def)
    then have f: "filter (is_kv ids) es1 = filter (is_kv ids1) es1"
      "filter (\<lambda>e. \<not> is_kv ids e) (allocated es1) = filter (\<lambda>e. \<not> is_kv ids1 e) (allocated es1)"
      by (auto simp: allocated_mem intro!: filter_cong)
    let ?x = "\<lparr> ex_offset = ex_offset e, ex_size = ?n, ex_key = Some (KvBlock i) \<rparr>"
    have c: "filter (is_kv ids) (carve e (KvBlock i) ?n) = [?x]"
      "filter (\<lambda>e. \<not> is_kv ids e) (allocated (carve e (KvBlock i) ?n)) = []"
      using rest(2) by (auto simp: carve_def is_kv_def allocated_def)
    have "tiles a (carve e (KvBlock i) ?n @ es1) z"
      using carve_tiles [of ?n e a "[]" es1 z "KvBlock i"] n t(1,2) IH(2) by simp
    moreover have "[i..<i + length ids] = i # [i + 1..<i + 1 + length ids1]"
      by (simp add: rest(2) upt_conv_Cons del: upt_Suc)
    then have "ids = [i..<i + length ids]" using IH(3) rest(2) by argo
    moreover have "filter (\<lambda>e. \<not> is_kv ids e) (allocated es') = allocated (e # es)"
      using c(2) f(2) IH(4) take(2) by (simp add: rest(3) allocated_def)
    moreover have "distinct (map ex_key (filter (is_kv ids) es'))"
    proof -
      have "Some (KvBlock i) \<notin> ex_key ` set (filter (is_kv ids1) es1)"
      proof
        assume "Some (KvBlock i) \<in> ex_key ` set (filter (is_kv ids1) es1)"
        then obtain x where "x \<in> set es1" "ex_key x = Some (KvBlock i)" by auto
        then show False using fresh by blast
      qed
      then show ?thesis using IH(6) by (simp add: rest(3) c f)
    qed
    ultimately show ?thesis using IH(1,5) by (simp add: rest(3) c f)
  qed
qed

lemma free_kv_allocated:
  "tiles a es z \<Longrightarrow> distinct (map ex_key (allocated es)) \<Longrightarrow>
   tiles a (foldl (\<lambda>es i. snd (free_extent (KvBlock i) True es)) es ids) z
   \<and> allocated (foldl (\<lambda>es i. snd (free_extent (KvBlock i) True es)) es ids) = filter (\<lambda>e. \<not> is_kv ids e) (allocated es)"
proof (induction ids arbitrary: es)
  case Nil
  then show ?case by (simp add: is_kv_def)
next
  case (Cons i ids)
  let ?es = "snd (free_extent (KvBlock i) True es)"
  have til: "tiles a ?es z"
    using Cons.prems(1) tiles_coalesce tiles_clear_key by (auto simp: free_extent_def split: option.splits)
  have al: "allocated ?es = filter (\<lambda>e. ex_key e \<noteq> Some (KvBlock i)) (allocated es)"
  proof (cases "find_extent es (KvBlock i)")
    case None
    then have "filter (\<lambda>e. ex_key e \<noteq> Some (KvBlock i)) (allocated es) = allocated es"
      by (simp add: find_extent_None filter_id_conv allocated_mem)
    then show ?thesis using None by (simp add: free_extent_def)
  next
    case (Some e)
    have "ex_key x \<noteq> Some (KvBlock i) \<longleftrightarrow> e \<noteq> x" if "x \<in> set (allocated es)" for x
      using that Cons.prems(2) Some keys_unique [OF Cons.prems(2)] by (auto simp: find_extent_iff allocated_mem)
    then have "filter (\<lambda>e. ex_key e \<noteq> Some (KvBlock i)) (allocated es) = filter (\<lambda>x. e \<noteq> x) (allocated es)"
      by (rule filter_cong [OF refl])
    also have "\<dots> = remove1 e (allocated es)"
      using Cons.prems(2) by (simp add: distinct_map distinct_remove1_removeAll removeAll_filter_not_eq)
    finally show ?thesis using Some by (simp add: free_extent_def allocated_after_free)
  qed
  then have "distinct (map ex_key (allocated ?es))" using Cons.prems(2) by (simp add: distinct_map_filter)
  from Cons.IH [OF til this] show ?case by (auto simp: al is_kv_def intro!: filter_cong)
qed

text \<open>Keys stay distinct when blocks with fresh ids join the weights, and the weights carry the invariant.\<close>

lemma kv_keys_distinct:
  assumes "weights_only es" "distinct (map ex_key (allocated es))"
    and "filter (\<lambda>e. \<not> is_kv ids e) (allocated es') = allocated es" "distinct (map ex_key (filter (is_kv ids) es'))"
  shows "distinct (map ex_key (allocated es'))"
proof -
  have "filter (is_kv ids) (allocated es') = filter (is_kv ids) es'"
    unfolding allocated_def filter_filter by (intro filter_cong) (auto simp: is_kv_def)
  moreover have "mset (allocated es') = mset (filter (is_kv ids) (allocated es')) + mset (filter (\<lambda>e. \<not> is_kv ids e) (allocated es'))"
    using multiset_partition [of "mset (allocated es')" "is_kv ids"] by simp
  ultimately have part: "mset (map ex_key (allocated es')) = mset (map ex_key (filter (is_kv ids) es') @ map ex_key (allocated es))"
    using assms(3) by simp
  have "set (map ex_key (filter (is_kv ids) es')) \<inter> set (map ex_key (allocated es)) = {}"
    using assms(1) by (auto simp: is_kv_def weights_only_def allocated_mem)
  then show ?thesis using part assms(2,4) mset_eq_imp_distinct_iff distinct_append by metis
qed

lemma seg_inv_weights:
  assumes "seg_inv b" "tiles 0 es (capacity_bytes b)" "distinct (map ex_key (allocated es))"
    and weights: "filter (\<lambda>e. \<not> is_kv ids e) (allocated es) = allocated (extents b)"
  shows "seg_inv (b\<lparr> extents := es \<rparr>)"
proof (rule seg_inv_upd [OF assms(1-3)])
  fix e m g assume "e \<in> set es" "ex_key e = Some (Weight m g)"
  then have "e \<in> set (filter (\<lambda>e. \<not> is_kv ids e) (allocated es))" by (auto simp: allocated_mem is_kv_def)
  then show "(\<exists>e' \<in> set (extents b). ex_key e' = ex_key e \<and> ex_size e' = ex_size e)
      \<or> (\<exists>grp. group_at b (m, g) = Inr grp \<and> ex_size e = tg_bytes grp)"
    unfolding weights by (auto simp: allocated_mem)
qed

text \<open>
  C21. Attention-state blocks. When the free extents hold enough whole blocks, allocating the
  attention state of a request takes exactly the bytes requested, in extents of their own, and
  leaves every weight where it is; the next request starts by releasing exactly these blocks,
  so the allocated extents of the pool are the ones from before.
\<close>

theorem kv_blocks_roundtrip:
  assumes inv: "seg_inv b" and only: "weights_only (extents b)" and kv: "kv_keys b = []"
    and block: "0 < kv_block_bytes (mb_args b)" and nn: "0 \<le> pending_kv_bytes b"
    and fits: "pending_kv_bytes b \<le> available_block_bytes (kv_block_bytes (mb_args b)) (extents b)"
  shows "\<exists>b1 b2. mk_allocate_kv_blocks m (b, c) = Inr (b1, c) \<and> seg_inv b1
     \<and> (\<Sum>e \<leftarrow> filter (is_kv (kv_keys b1)) (extents b1). ex_size e) = pending_kv_bytes b
     \<and> filter (\<lambda>e. \<not> is_kv (kv_keys b1) e) (allocated (extents b1)) = allocated (extents b)
     \<and> mk_begin_request n m' b1 = Inr (b2, no_cost) \<and> seg_inv b2
     \<and> allocated (extents b2) = allocated (extents b) \<and> kv_keys b2 = []"
proof -
  let ?block = "kv_block_bytes (mb_args b)" and ?req = "pending_kv_bytes b"
  have til: "tiles 0 (extents b) (capacity_bytes b)" and dist: "distinct (map ex_key (allocated (extents b)))"
    using inv by (simp_all add: seg_inv_def)
  obtain r ids es where place: "place_kv ?block ?req (next_kv_extent_id b) (extents b) = (r, ids, es)"
    by (cases "place_kv ?block ?req (next_kv_extent_id b) (extents b)") auto
  note kvs = place_kv_ok [OF block nn fits til only place]
  define b1 where "b1 = b\<lparr> pending_kv_bytes := 0, extents := es, kv_keys := ids,
    next_kv_extent_id := next_kv_extent_id b + length ids \<rparr>"
  have alloc: "mk_allocate_kv_blocks m (b, c) = Inr (b1, c)"
    using block fits place kvs kv
    by (simp add: mk_allocate_kv_blocks_def kv_reclaim_until.simps seg_evict_while.simps or_raise_def b1_def Let_def)
  have dist': "distinct (map ex_key (allocated es))" using kv_keys_distinct [OF only dist, of ids es] kvs by blast
  have "filter (\<lambda>e. \<not> is_kv ids e) (allocated es) = allocated (extents b)" "tiles 0 es (capacity_bytes b)" using kvs by simp_all
  then have inv1: "seg_inv (b\<lparr> extents := es \<rparr>)" using seg_inv_weights [OF inv _ dist'] by simp
  define es2 where "es2 = foldl (\<lambda>es i. snd (free_extent (KvBlock i) True es)) es ids"
  have f: "tiles 0 es2 (capacity_bytes b)" "allocated es2 = allocated (extents b)"
    using free_kv_allocated [OF _ dist', of 0 "capacity_bytes b" ids] kvs by (simp_all add: es2_def)
  have "seg_inv (b\<lparr> extents := es2 \<rparr>)" using seg_inv_weights [OF inv f(1), of "[]"] dist f(2) by (simp add: is_kv_def)
  then have inv2: "seg_inv b2" if "b2 = b1\<lparr> extents := es2, kv_keys := [], pending_kv_bytes := n,
      weight_capacity_bytes := capacity_bytes b, last_mckp_plan := None \<rparr>" for b2
    by (simp add: seg_inv_def group_at_def that b1_def)
  define b2 where "b2 = b1\<lparr> extents := es2, kv_keys := [], pending_kv_bytes := n,
      weight_capacity_bytes := capacity_bytes b, last_mckp_plan := None \<rparr>"
  have "mk_begin_request n m' b1 = Inr (b2, no_cost)" by (simp add: mk_begin_request_def b2_def b1_def es2_def)
  moreover have "seg_inv b1" using inv1 by (simp add: seg_inv_def group_at_def b1_def)
  ultimately show ?thesis
    using alloc inv2 [OF b2_def] kvs f(2) by (intro exI [of _ b1] exI [of _ b2]) (simp add: b1_def b2_def)
qed

definition demo_mock :: mock_mem where
  "demo_mock = (seg_mem.extend demo_fragmented (mock_mem.fields [] [] 0 0))
     \<lparr> mb_args := (demo_args Lru)\<lparr> kv_block_bytes := 16 \<rparr>, pending_kv_bytes := 64 \<rparr>"

lemma demo_mock_simps:
  "extents demo_mock = extents demo_fragmented" "capacity_bytes demo_mock = 200" "mb_models demo_mock = demo_models"
  "mb_args demo_mock = (demo_args Lru)\<lparr> kv_block_bytes := 16 \<rparr>" "pending_kv_bytes demo_mock = 64" "kv_keys demo_mock = []"
  "next_kv_extent_id demo_mock = 0"
  by (simp_all add: demo_mock_def seg_mem.defs mock_mem.defs demo_fragmented_simps)

lemma demo_mock_inv: "seg_inv demo_mock" "weights_only (extents demo_mock)"
  using demo_fragmented_inv
  by (simp_all add: seg_inv_def demo_mock_simps demo_fragmented_simps group_at_def args_ok_def weights_only_def)

theorem kv_blocks_roundtrip_witness:
  "\<exists>b1 b2. mk_allocate_kv_blocks 1 (demo_mock, no_cost) = Inr (b1, no_cost)
     \<and> (\<Sum>e \<leftarrow> filter (is_kv (kv_keys b1)) (extents b1). ex_size e) = 64
     \<and> mk_begin_request 0 2 b1 = Inr (b2, no_cost) \<and> allocated (extents b2) = allocated (extents demo_mock)"
proof -
  have "0 < kv_block_bytes (mb_args demo_mock)" "0 \<le> pending_kv_bytes demo_mock"
    "pending_kv_bytes demo_mock \<le> available_block_bytes (kv_block_bytes (mb_args demo_mock)) (extents demo_mock)"
    by (simp_all add: demo_mock_simps demo_fragmented_simps)
  from kv_blocks_roundtrip [OF demo_mock_inv demo_mock_simps(6) this, of 1 no_cost 0 2]
  obtain b1 b2 where "mk_allocate_kv_blocks 1 (demo_mock, no_cost) = Inr (b1, no_cost)"
     "(\<Sum>e \<leftarrow> filter (is_kv (kv_keys b1)) (extents b1). ex_size e) = pending_kv_bytes demo_mock"
     "mk_begin_request 0 2 b1 = Inr (b2, no_cost)" "allocated (extents b2) = allocated (extents demo_mock)" by blast
  then show ?thesis by (intro exI [of _ b1] exI [of _ b2]) (simp add: demo_mock_simps(5))
qed

text \<open>
  Whole blocks are all that counts: a pool whose allocated extents all belong to the active model
  refuses attention state beyond the whole blocks of its free extents.
\<close>

lemma kv_refused_when_fragmented:
  assumes "\<forall>e \<in> set (allocated (extents b)). \<not> evictable m e" and "\<not> prefix_policy (mem_policy b)"
    and "kv_block_bytes (mb_args b) \<noteq> 0"
    and "available_block_bytes (kv_block_bytes (mb_args b)) (extents b) < pending_kv_bytes b"
  shows "mk_allocate_kv_blocks m (b, c) = Inl (RuntimeError ''Unified Segment pool cannot fit KV blocks'')"
proof -
  have "fst key = m" if key: "key \<in> set (weight_keys (extents b))" for key
  proof -
    obtain e where "e \<in> set (allocated (extents b))" "ex_key e = Some (Weight (fst key) (snd key))"
      using key weight_keys_mem [of "fst key" "snd key" "extents b"] by (auto simp: allocated_mem)
    then show ?thesis using assms(1) by (auto simp: evictable_def)
  qed
  then have "filter (\<lambda>key. fst key \<noteq> m) (weight_keys (extents b)) = []" by (simp add: filter_empty_conv)
  then have "seg_victims m (b\<lparr> pending_kv_bytes := 0 \<rparr>) = Inr None" by (simp add: seg_victims_def select_victim_def)
  then have "seg_evict_one m (b\<lparr> pending_kv_bytes := 0 \<rparr>, c) = Inr (False, b\<lparr> pending_kv_bytes := 0 \<rparr>, c)"
    by (simp add: seg_evict_one_def)
  then show ?thesis
    using assms(2-4) by (simp add: mk_allocate_kv_blocks_def Let_def seg_evict_while.simps or_raise_def)
qed

definition demo_blocks :: mock_mem where
  "demo_blocks = demo_mock\<lparr> mb_args := (demo_args Lru)\<lparr> kv_block_bytes := 60 \<rparr>, pending_kv_bytes := 60 \<rparr>"

text \<open>
  Fragmentation refuses a request that fits. One attention block of 60 bytes is asked for and
  100 bytes of the pool are free, in two extents of 50: neither holds a block, what is allocated
  belongs to the active model and is not moved, so the request ends with an error although its
  bytes are there.
\<close>

lemma kv_refused_with_free_bytes:
  "pending_kv_bytes demo_blocks = 60 \<and> kv_block_bytes (mb_args demo_blocks) = 60 \<and> seg_free_bytes demo_blocks = 100
   \<and> mk_allocate_kv_blocks 2 (demo_blocks, no_cost)
     = Inl (RuntimeError ''Unified Segment pool cannot fit KV blocks'')"
proof (intro conjI)
  show "pending_kv_bytes demo_blocks = 60" "kv_block_bytes (mb_args demo_blocks) = 60" by (simp_all add: demo_blocks_def)
  show "seg_free_bytes demo_blocks = 100"
    by (simp add: demo_blocks_def seg_free_bytes_def free_within_def visible_free_def demo_mock_def seg_mem.defs demo_fragmented_simps)
  show "mk_allocate_kv_blocks 2 (demo_blocks, no_cost)
     = Inl (RuntimeError ''Unified Segment pool cannot fit KV blocks'')"
    by (rule kv_refused_when_fragmented)
       (simp_all add: demo_blocks_def demo_mock_simps demo_fragmented_simps allocated_def evictable_def demo_args_def prefix_policy_def)
qed

end
