(* ===== verification/Backends.thy ===== *)
theory Backends
  imports Tensor_Page Compact_Page Mock_Segment
begin

text \<open>
  The four memory organizations behind one interface (\<open>BACKENDS\<close>, \<open>make_backend\<close> and
  \<open>validate_request_feasibility\<close> of \<open>layerweave_tensor_pipeline_sim.py\<close>, and the setters of
  \<open>MemoryBackend\<close>). The simulator holds its caches as objects of one of four classes; here an
  object is a value of a sum type and a method call a case distinction, so that the simulator is
  written once. Cloning a backend is using its value again.
\<close>

section \<open>Dynamic dispatch\<close>

datatype any_mem = SegmentMem mock_mem | LegacyMem seg_mem | TensorPageMem page_mem | CompactPageMem compact_mem

definition tag :: "('b \<Rightarrow> 'a) \<Rightarrow> ('b \<times> 'c) result \<Rightarrow> ('a \<times> 'c) result" where
  "tag f r = r_bind r (\<lambda>(b, c). Inr (f b, c))"

definition tag1 :: "('b \<Rightarrow> 'a) \<Rightarrow> 'b result \<Rightarrow> 'a result" where
  "tag1 f r = r_bind r (\<lambda>b. Inr (f b))"

fun any_begin :: "int \<Rightarrow> int \<Rightarrow> any_mem \<Rightarrow> (any_mem \<times> load_cost) result" where
  "any_begin kv m (SegmentMem b) = tag SegmentMem (op_begin mk_ops kv m b)"
| "any_begin kv m (LegacyMem b) = tag LegacyMem (op_begin seg_ops kv m b)"
| "any_begin kv m (TensorPageMem b) = tag TensorPageMem (op_begin tp_ops kv m b)"
| "any_begin kv m (CompactPageMem b) = tag CompactPageMem (op_begin cp_ops kv m b)"

fun any_plan :: "int \<Rightarrow> tensor_spec list \<Rightarrow> any_mem \<Rightarrow> (any_mem \<times> load_cost) result" where
  "any_plan m ts (SegmentMem b) = tag SegmentMem (op_plan mk_ops m ts b)"
| "any_plan m ts (LegacyMem b) = tag LegacyMem (op_plan seg_ops m ts b)"
| "any_plan m ts (TensorPageMem b) = tag TensorPageMem (op_plan tp_ops m ts b)"
| "any_plan m ts (CompactPageMem b) = tag CompactPageMem (op_plan cp_ops m ts b)"

fun any_prepare :: "int \<Rightarrow> tensor_spec \<Rightarrow> any_mem \<Rightarrow> (any_mem \<times> load_cost) result" where
  "any_prepare m t (SegmentMem b) = tag SegmentMem (op_prepare mk_ops m t b)"
| "any_prepare m t (LegacyMem b) = tag LegacyMem (op_prepare seg_ops m t b)"
| "any_prepare m t (TensorPageMem b) = tag TensorPageMem (op_prepare tp_ops m t b)"
| "any_prepare m t (CompactPageMem b) = tag CompactPageMem (op_prepare cp_ops m t b)"

fun any_finish :: "int \<Rightarrow> any_mem \<Rightarrow> any_mem result" where
  "any_finish m (SegmentMem b) = tag1 SegmentMem (op_finish mk_ops m b)"
| "any_finish m (LegacyMem b) = tag1 LegacyMem (op_finish seg_ops m b)"
| "any_finish m (TensorPageMem b) = tag1 TensorPageMem (op_finish tp_ops m b)"
| "any_finish m (CompactPageMem b) = tag1 CompactPageMem (op_finish cp_ops m b)"

fun any_resident :: "any_mem \<Rightarrow> int \<Rightarrow> tensor_spec \<Rightarrow> bool result" where
  "any_resident (SegmentMem b) m t = op_resident mk_ops b m t"
| "any_resident (LegacyMem b) m t = op_resident seg_ops b m t"
| "any_resident (TensorPageMem b) m t = op_resident tp_ops b m t"
| "any_resident (CompactPageMem b) m t = op_resident cp_ops b m t"

fun any_physical_bytes :: "any_mem \<Rightarrow> int \<Rightarrow> int result" where
  "any_physical_bytes (SegmentMem b) m = op_physical_bytes mk_ops b m"
| "any_physical_bytes (LegacyMem b) m = op_physical_bytes seg_ops b m"
| "any_physical_bytes (TensorPageMem b) m = op_physical_bytes tp_ops b m"
| "any_physical_bytes (CompactPageMem b) m = op_physical_bytes cp_ops b m"

fun any_resident_bytes :: "any_mem \<Rightarrow> int \<Rightarrow> int result" where
  "any_resident_bytes (SegmentMem b) m = op_resident_bytes mk_ops b m"
| "any_resident_bytes (LegacyMem b) m = op_resident_bytes seg_ops b m"
| "any_resident_bytes (TensorPageMem b) m = op_resident_bytes tp_ops b m"
| "any_resident_bytes (CompactPageMem b) m = op_resident_bytes cp_ops b m"

fun any_prefix_count :: "any_mem \<Rightarrow> int \<Rightarrow> nat result" where
  "any_prefix_count (SegmentMem b) m = op_prefix_count mk_ops b m"
| "any_prefix_count (LegacyMem b) m = op_prefix_count seg_ops b m"
| "any_prefix_count (TensorPageMem b) m = op_prefix_count tp_ops b m"
| "any_prefix_count (CompactPageMem b) m = op_prefix_count cp_ops b m"

fun any_suffix_start :: "any_mem \<Rightarrow> int \<Rightarrow> nat result" where
  "any_suffix_start (SegmentMem b) m = op_suffix_start mk_ops b m"
| "any_suffix_start (LegacyMem b) m = op_suffix_start seg_ops b m"
| "any_suffix_start (TensorPageMem b) m = op_suffix_start tp_ops b m"
| "any_suffix_start (CompactPageMem b) m = op_suffix_start cp_ops b m"

fun any_metrics :: "any_mem \<Rightarrow> mem_metrics result" where
  "any_metrics (SegmentMem b) = op_metrics mk_ops b"
| "any_metrics (LegacyMem b) = op_metrics seg_ops b"
| "any_metrics (TensorPageMem b) = op_metrics tp_ops b"
| "any_metrics (CompactPageMem b) = op_metrics cp_ops b"

definition any_ops :: "any_mem backend_ops" where
  "any_ops = \<lparr> op_begin = any_begin, op_plan = any_plan, op_prepare = any_prepare, op_finish = any_finish,
     op_resident = any_resident, op_physical_bytes = any_physical_bytes, op_resident_bytes = any_resident_bytes,
     op_prefix_count = any_prefix_count, op_suffix_start = any_suffix_start, op_metrics = any_metrics \<rparr>"

section \<open>Setters\<close>

fun set_pipeline_benefits :: "(mem_key \<rightharpoonup> rat) \<Rightarrow> any_mem \<Rightarrow> any_mem" where
  "set_pipeline_benefits x (SegmentMem b) = SegmentMem (b\<lparr> pipeline_benefits := x \<rparr>)"
| "set_pipeline_benefits x (LegacyMem b) = LegacyMem (b\<lparr> pipeline_benefits := x \<rparr>)"
| "set_pipeline_benefits x (TensorPageMem b) = TensorPageMem (b\<lparr> pipeline_benefits := x \<rparr>)"
| "set_pipeline_benefits x (CompactPageMem b) = CompactPageMem (b\<lparr> pipeline_benefits := x \<rparr>)"

fun set_future_model_probabilities :: "(int \<rightharpoonup> rat) \<Rightarrow> any_mem \<Rightarrow> any_mem" where
  "set_future_model_probabilities x (SegmentMem b) = SegmentMem (b\<lparr> future_model_probabilities := x \<rparr>)"
| "set_future_model_probabilities x (LegacyMem b) = LegacyMem (b\<lparr> future_model_probabilities := x \<rparr>)"
| "set_future_model_probabilities x (TensorPageMem b) = TensorPageMem (b\<lparr> future_model_probabilities := x \<rparr>)"
| "set_future_model_probabilities x (CompactPageMem b) = CompactPageMem (b\<lparr> future_model_probabilities := x \<rparr>)"

fun set_prefix_stall_table :: "stall_table option \<Rightarrow> any_mem \<Rightarrow> any_mem" where
  "set_prefix_stall_table x (SegmentMem b) = SegmentMem (b\<lparr> prefix_stall_table := x \<rparr>)"
| "set_prefix_stall_table x (LegacyMem b) = LegacyMem (b\<lparr> prefix_stall_table := x \<rparr>)"
| "set_prefix_stall_table x (TensorPageMem b) = TensorPageMem (b\<lparr> prefix_stall_table := x \<rparr>)"
| "set_prefix_stall_table x (CompactPageMem b) = CompactPageMem (b\<lparr> prefix_stall_table := x \<rparr>)"

fun set_mckp_prediction_samples :: "(int \<rightharpoonup> (int \<times> rat) list) \<Rightarrow> any_mem \<Rightarrow> any_mem" where
  "set_mckp_prediction_samples x (SegmentMem b) = SegmentMem (b\<lparr> mckp_prediction_samples := x \<rparr>)"
| "set_mckp_prediction_samples x (LegacyMem b) = LegacyMem (b\<lparr> mckp_prediction_samples := x \<rparr>)"
| "set_mckp_prediction_samples x (TensorPageMem b) = TensorPageMem (b\<lparr> mckp_prediction_samples := x \<rparr>)"
| "set_mckp_prediction_samples x (CompactPageMem b) = CompactPageMem (b\<lparr> mckp_prediction_samples := x \<rparr>)"

section \<open>Making a backend\<close>

record backend_args = sim_args +
  pool_bytes :: int
  args_stall_table :: "stall_table option"

definition init_backend :: "(int \<times> tensor_model) list \<Rightarrow> 'x backend_args_scheme \<Rightarrow> any_mem result" where
  "init_backend models args =
     (let capacity = pool_bytes args; page = page_size_bytes args; base = sim_args.truncate args in
      case memory_layout args of
        Segment \<Rightarrow> Inr (SegmentMem (mk_init models capacity page base))
      | LegacySegment \<Rightarrow> Inr (LegacyMem (seg_init models capacity page base))
      | TensorPage \<Rightarrow> tag1 TensorPageMem (tp_init models capacity page base)
      | CompactPage \<Rightarrow> tag1 CompactPageMem (cp_init models capacity page base))"

definition make_backend ::
  "(int \<times> tensor_model) list \<Rightarrow> 'x backend_args_scheme \<Rightarrow> (mem_key \<times> rat) list option \<Rightarrow> any_mem result" where
  "make_backend models args benefits =
     r_bind (init_backend models args) (\<lambda>b.
       let b1 = (case benefits of None \<Rightarrow> b | Some d \<Rightarrow> set_pipeline_benefits (map_of d) b) in
       Inr (case args_stall_table args of None \<Rightarrow> b1 | Some t \<Rightarrow> set_prefix_stall_table (Some t) b1))"

section \<open>Feasibility\<close>

definition request_required ::
  "any_mem \<Rightarrow> 'x backend_args_scheme \<Rightarrow> request \<Rightarrow> int result" where
  "request_required probe args r =
     r_bind (op_physical_bytes any_ops probe (rq_model_id r)) (\<lambda>footprint.
     r_bind (request_kv_bytes r args) (\<lambda>kv. Inr (footprint + kv)))"

definition validate_request_feasibility ::
  "(int \<times> tensor_model) list \<Rightarrow> request list \<Rightarrow> 'x backend_args_scheme \<Rightarrow> unit result" where
  "validate_request_feasibility models requests args =
     r_bind (make_backend models args None) (\<lambda>probe.
     r_bind (r_map (\<lambda>r. r_bind (request_required probe args r) (\<lambda>n. Inr (r, n))) requests) (\<lambda>required.
       if filter (\<lambda>(r, n). n > pool_bytes args) required \<noteq> []
       then Inl (ValueError ''Memory layout is infeasible before simulation'')
       else Inr ()))"

section \<open>The contract of the three layouts\<close>

text \<open>
  The layouts that reserve the attention state keep the contract of \<open>mem_backend\<close>; the unified
  segment pool places it in blocks and does not (see \<open>kv_refused_with_free_bytes\<close>).
\<close>

fun any_ok :: "any_mem \<Rightarrow> bool" where
  "any_ok (SegmentMem b) = False"
| "any_ok (LegacyMem b) = seg_ok b"
| "any_ok (TensorPageMem b) = tp_ok b"
| "any_ok (CompactPageMem b) = cp_ok b"

fun any_fits :: "any_mem \<Rightarrow> int \<Rightarrow> int \<Rightarrow> tensor_spec list \<Rightarrow> bool" where
  "any_fits (SegmentMem b) kv m ts = False"
| "any_fits (LegacyMem b) kv m ts = seg_fits b kv m ts"
| "any_fits (TensorPageMem b) kv m ts = tp_fits b kv m ts"
| "any_fits (CompactPageMem b) kv m ts = cp_fits b kv m ts"

fun any_loadable :: "any_mem \<Rightarrow> int \<Rightarrow> tensor_spec list \<Rightarrow> bool" where
  "any_loadable (SegmentMem b) m ts = False"
| "any_loadable (LegacyMem b) m ts = seg_loadable b m ts"
| "any_loadable (TensorPageMem b) m ts = tp_loadable b m ts"
| "any_loadable (CompactPageMem b) m ts = cp_loadable b m ts"

datatype any_config = SegmentConf | LegacyConf "(int \<times> tensor_model) list \<times> int \<times> sim_args"
  | TensorPageConf "(int \<times> tensor_model) list \<times> int \<times> int \<times> sim_args \<times> stall_table option"
  | CompactPageConf "(int \<times> tensor_model) list \<times> int \<times> int \<times> sim_args"

fun any_setup :: "any_mem \<Rightarrow> any_config" where
  "any_setup (SegmentMem b) = SegmentConf"
| "any_setup (LegacyMem b) = LegacyConf (seg_setup b)"
| "any_setup (TensorPageMem b) = TensorPageConf (tp_setup b)"
| "any_setup (CompactPageMem b) = CompactPageConf (cp_setup b)"

fun any_used :: "any_mem \<Rightarrow> int" where
  "any_used (SegmentMem b) = seg_used_bytes b"
| "any_used (LegacyMem b) = seg_used_bytes b"
| "any_used (TensorPageMem b) = tp_used b"
| "any_used (CompactPageMem b) = cp_used_bytes b"

fun any_limit :: "any_mem \<Rightarrow> int" where
  "any_limit (SegmentMem b) = weight_capacity_bytes b"
| "any_limit (LegacyMem b) = weight_capacity_bytes b"
| "any_limit (TensorPageMem b) = weight_capacity_bytes b"
| "any_limit (CompactPageMem b) = weight_capacity_bytes b"

interpretation anyb: mem_backend any_ops any_ok any_fits any_loadable any_setup any_used any_limit
proof (unfold_locales, goal_cases)
  case (1 b kv m ts)
  then show ?case
    using segb.begin_ok tpb.begin_ok cpb.begin_ok by (cases b) (fastforce simp: any_ops_def tag_def)+
next
  case (2 b m ts)
  then show ?case
    using segb.plan_ok tpb.plan_ok cpb.plan_ok by (cases b) (fastforce simp: any_ops_def tag_def)+
next
  case (3 b m t ts)
  show ?case
  proof (cases b)
    case (SegmentMem x)
    then show ?thesis using 3 by simp
  next
    case (LegacyMem x)
    then have "seg_loadable x m (t # ts)" using 3 by simp
    from segb.prepare_ok [OF this] obtain x' c where
      "op_prepare seg_ops m t x = Inr (x', c)" "seg_loadable x' m ts" "seg_setup x' = seg_setup x" "cost_ok c"
      "op_resident seg_ops x' m t = Inr True"
      "\<forall>t'. op_resident seg_ops x m t' = Inr True \<longrightarrow> op_resident seg_ops x' m t' = Inr True" by blast
    then show ?thesis using LegacyMem by (intro exI [of _ "LegacyMem x'"] exI [of _ c]) (simp add: any_ops_def tag_def)
  next
    case (TensorPageMem x)
    then have "tp_loadable x m (t # ts)" using 3 by simp
    from tpb.prepare_ok [OF this] obtain x' c where
      "op_prepare tp_ops m t x = Inr (x', c)" "tp_loadable x' m ts" "tp_setup x' = tp_setup x" "cost_ok c"
      "op_resident tp_ops x' m t = Inr True"
      "\<forall>t'. op_resident tp_ops x m t' = Inr True \<longrightarrow> op_resident tp_ops x' m t' = Inr True" by blast
    then show ?thesis using TensorPageMem by (intro exI [of _ "TensorPageMem x'"] exI [of _ c]) (simp add: any_ops_def tag_def)
  next
    case (CompactPageMem x)
    then have "cp_loadable x m (t # ts)" using 3 by simp
    from cpb.prepare_ok [OF this] obtain x' c where
      "op_prepare cp_ops m t x = Inr (x', c)" "cp_loadable x' m ts" "cp_setup x' = cp_setup x" "cost_ok c"
      "op_resident cp_ops x' m t = Inr True"
      "\<forall>t'. op_resident cp_ops x m t' = Inr True \<longrightarrow> op_resident cp_ops x' m t' = Inr True" by blast
    then show ?thesis using CompactPageMem by (intro exI [of _ "CompactPageMem x'"] exI [of _ c]) (simp add: any_ops_def tag_def)
  qed
next
  case (4 b m)
  show ?case
  proof (cases b)
    case (SegmentMem x)
    then show ?thesis using 4 by simp
  next
    case (LegacyMem x)
    then have "seg_loadable x m []" using 4 by simp
    from segb.finish_ok [OF this] obtain x' where
      "op_finish seg_ops m x = Inr x'" "seg_ok x'" "seg_setup x' = seg_setup x" "seg_used_bytes x' = seg_used_bytes x"
      "weight_capacity_bytes x' = weight_capacity_bytes x" "\<forall>t. op_resident seg_ops x' m t = op_resident seg_ops x m t" by blast
    then show ?thesis using LegacyMem by (intro exI [of _ "LegacyMem x'"]) (simp add: any_ops_def tag1_def)
  next
    case (TensorPageMem x)
    then have "tp_loadable x m []" using 4 by simp
    from tpb.finish_ok [OF this] obtain x' where
      "op_finish tp_ops m x = Inr x'" "tp_ok x'" "tp_setup x' = tp_setup x" "tp_used x' = tp_used x"
      "weight_capacity_bytes x' = weight_capacity_bytes x" "\<forall>t. op_resident tp_ops x' m t = op_resident tp_ops x m t" by blast
    then show ?thesis using TensorPageMem by (intro exI [of _ "TensorPageMem x'"]) (simp add: any_ops_def tag1_def)
  next
    case (CompactPageMem x)
    then have "cp_loadable x m []" using 4 by simp
    from cpb.finish_ok [OF this] obtain x' where
      "op_finish cp_ops m x = Inr x'" "cp_ok x'" "cp_setup x' = cp_setup x" "cp_used_bytes x' = cp_used_bytes x"
      "weight_capacity_bytes x' = weight_capacity_bytes x" "\<forall>t. op_resident cp_ops x' m t = op_resident cp_ops x m t" by blast
    then show ?thesis using CompactPageMem by (intro exI [of _ "CompactPageMem x'"]) (simp add: any_ops_def tag1_def)
  qed
next
  case (5 b)
  then show ?case
    using segb.metrics_ok tpb.metrics_ok cpb.metrics_ok by (cases b) (auto simp: any_ops_def)
next
  case (6 b' b)
  show ?case
  proof (cases b)
    case (SegmentMem x)
    then show ?thesis using 6 by (cases b') (simp_all add: fun_eq_iff)
  next
    case (LegacyMem x)
    then obtain x' where x': "b' = LegacyMem x'" "seg_setup x' = seg_setup x" using 6 by (cases b') auto
    show ?thesis using segb.fits_config [OF x'(2)] LegacyMem x'(1) by (simp add: fun_eq_iff)
  next
    case (TensorPageMem x)
    then obtain x' where x': "b' = TensorPageMem x'" "tp_setup x' = tp_setup x" using 6 by (cases b') auto
    show ?thesis using tpb.fits_config [OF x'(2)] TensorPageMem x'(1) by (simp add: fun_eq_iff)
  next
    case (CompactPageMem x)
    then obtain x' where x': "b' = CompactPageMem x'" "cp_setup x' = cp_setup x" using 6 by (cases b') auto
    show ?thesis using cpb.fits_config [OF x'(2)] CompactPageMem x'(1) by (simp add: fun_eq_iff)
  qed
next
  case (7 b m ts)
  then show ?case
    using segb.loadable_limit tpb.loadable_limit cpb.loadable_limit by (cases b) auto
qed

section \<open>Accepted requests fit\<close>

text \<open>What the three layouts need of their configuration.\<close>

definition layout_ok :: "(int \<times> tensor_model) list \<Rightarrow> 'x backend_args_scheme \<Rightarrow> bool" where
  "layout_ok models args \<longleftrightarrow> models_wf models \<and> args_ok args \<and> replacement_policy args \<noteq> MckpPrefix \<and> 0 \<le> pool_bytes args
     \<and> (case memory_layout args of
          Segment \<Rightarrow> False
        | LegacySegment \<Rightarrow> groups_positive models \<and> compaction_policy args \<noteq> Never
            \<and> (\<forall>(m, model) \<in> set models. (\<Sum>g \<leftarrow> groups model. tg_bytes g) \<le> tm_bytes model)
        | TensorPage \<Rightarrow> 0 < page_size_bytes args
        | CompactPage \<Rightarrow> 0 < page_size_bytes args \<and> (\<forall>(m, model) \<in> set models. compact_wf model \<and> 0 \<le> tm_bytes model))"

lemma truncate_ok: "args_ok (sim_args.truncate args) = args_ok args" "replacement_policy (sim_args.truncate args) = replacement_policy args"
  "compaction_policy (sim_args.truncate args) = compaction_policy args"
  by (simp_all add: args_ok_def sim_args.defs)

text \<open>The invariants do not read what the setters write.\<close>

lemma seg_ok_cong:
  assumes "mb_models b' = mb_models b" "mb_args b' = mb_args b" "capacity_bytes b' = capacity_bytes b" "extents b' = extents b"
    "model_accesses b' = model_accesses b"
  shows "seg_ok b' = seg_ok b"
proof -
  have "group_at b' = group_at b" using assms(1) by (simp add: group_at_def fun_eq_iff)
  then show ?thesis unfolding seg_ok_def seg_inv_def by (simp add: assms)
qed

lemma tp_ok_cong:
  assumes "mb_models b' = mb_models b" "mb_args b' = mb_args b" "page_size b' = page_size b" "resident b' = resident b"
    "model_accesses b' = model_accesses b" "clock b' = clock b" "last_access b' = last_access b"
    "prefix_physical_bytes b' = prefix_physical_bytes b" "prefix_stall_table b' = prefix_stall_table b"
  shows "tp_ok b' = tp_ok b"
proof -
  have g: "group_at b' = group_at b" "group_total b' = group_total b"
    using assms(1) by (simp_all add: group_at_def group_total_def fun_eq_iff)
  then have k: "key_size b' = key_size b" using assms(3) by (simp add: key_size_def tp_object_bytes_def tp_pages_def fun_eq_iff)
  then have "tp_bytes_of b' = tp_bytes_of b" "tp_content b' = tp_content b"
    using assms(4) by (simp_all add: tp_bytes_of_def tp_content_def fun_eq_iff)
  then show ?thesis unfolding tp_ok_def tp_prefix_inv_def tp_inv_def table_covers_def by (simp add: assms g)
qed

lemma cp_ok_cong:
  assumes "mb_models b' = mb_models b" "mb_args b' = mb_args b" "page_size b' = page_size b" "resident_pages b' = resident_pages b"
    "model_accesses b' = model_accesses b" "tensor_pages b' = tensor_pages b" "group_pages b' = group_pages b"
    "prefix_page_counts b' = prefix_page_counts b" "page_tensors b' = page_tensors b"
  shows "cp_ok b' = cp_ok b"
proof -
  have "cp_pages b' = cp_pages b" "arena_pages b' = arena_pages b"
    by (simp_all add: cp_pages_def arena_pages_def fun_eq_iff assms split: option.split)
  then show ?thesis unfolding cp_ok_def cp_inv_def cp_tables_def by (simp add: assms)
qed

lemma set_benefits_ok [simp]: "any_ok (set_pipeline_benefits x b) = any_ok b" "any_setup (set_pipeline_benefits x b) = any_setup b"
proof -
  show "any_ok (set_pipeline_benefits x b) = any_ok b"
    by (cases b) (simp_all, (rule seg_ok_cong tp_ok_cong cp_ok_cong; simp)+)
  show "any_setup (set_pipeline_benefits x b) = any_setup b"
    by (cases b) (simp_all add: seg_setup_def tp_setup_def cp_setup_def)
qed

lemma set_probabilities_ok [simp]: "any_ok (set_future_model_probabilities x b) = any_ok b" "any_setup (set_future_model_probabilities x b) = any_setup b"
proof -
  show "any_ok (set_future_model_probabilities x b) = any_ok b"
    by (cases b) (simp_all, (rule seg_ok_cong tp_ok_cong cp_ok_cong; simp)+)
  show "any_setup (set_future_model_probabilities x b) = any_setup b"
    by (cases b) (simp_all add: seg_setup_def tp_setup_def cp_setup_def)
qed

lemma set_samples_ok [simp]: "any_ok (set_mckp_prediction_samples x b) = any_ok b" "any_setup (set_mckp_prediction_samples x b) = any_setup b"
proof -
  show "any_ok (set_mckp_prediction_samples x b) = any_ok b"
    by (cases b) (simp_all, (rule seg_ok_cong tp_ok_cong cp_ok_cong; simp)+)
  show "any_setup (set_mckp_prediction_samples x b) = any_setup b"
    by (cases b) (simp_all add: seg_setup_def tp_setup_def cp_setup_def)
qed

lemma init_backend_ok:
  assumes "layout_ok models args"
  shows "\<exists>b. init_backend models args = Inr b \<and> any_ok (case args_stall_table args of None \<Rightarrow> b | Some t \<Rightarrow> set_prefix_stall_table (Some t) b)
     \<and> (case memory_layout args of
          LegacySegment \<Rightarrow> \<exists>x. b = LegacyMem x \<and> mb_models x = models \<and> capacity_bytes x = pool_bytes args
        | TensorPage \<Rightarrow> \<exists>x. b = TensorPageMem x \<and> mb_models x = models \<and> capacity_bytes x = pool_bytes args
            \<and> page_size x = page_size_bytes args \<and> mb_args x = sim_args.truncate args
        | CompactPage \<Rightarrow> \<exists>x. b = CompactPageMem x \<and> mb_models x = models \<and> capacity_bytes x = pool_bytes args
            \<and> page_size x = page_size_bytes args
        | Segment \<Rightarrow> False)"
proof (cases "memory_layout args")
  case LegacySegment
  let ?x = "seg_init models (pool_bytes args) (page_size_bytes args) (sim_args.truncate args)"
  have "seg_ok ?x" using assms LegacySegment by (intro seg_init_ok) (simp_all add: layout_ok_def truncate_ok)
  moreover have "seg_ok (?x\<lparr> prefix_stall_table := t \<rparr>) = seg_ok ?x" for t by (rule seg_ok_cong) simp_all
  moreover have "mb_models ?x = models" "capacity_bytes ?x = pool_bytes args"
    by (simp_all add: seg_init_def mem_init_def mem_base.defs seg_mem.defs)
  ultimately show ?thesis using LegacySegment by (simp add: init_backend_def split: option.split)
next
  case TensorPage
  have page: "0 < page_size_bytes args" using assms TensorPage by (simp add: layout_ok_def)
  from assms tp_init_ok [of models "page_size_bytes args" "sim_args.truncate args" "args_stall_table args" "pool_bytes args"] page
  obtain x where x: "tp_init models (pool_bytes args) (page_size_bytes args) (sim_args.truncate args) = Inr x"
      "tp_ok (x\<lparr> prefix_stall_table := args_stall_table args \<rparr>)" "mb_models x = models" "capacity_bytes x = pool_bytes args"
      "page_size x = page_size_bytes args" "mb_args x = sim_args.truncate args"
    by (auto simp: layout_ok_def truncate_ok)
  moreover have "prefix_stall_table x = None"
    using x(1) by (auto simp: tp_init_def mem_init_def mem_base.defs page_mem.defs split: if_splits)
  then have "x = x\<lparr> prefix_stall_table := None \<rparr>" by simp
  ultimately show ?thesis using TensorPage by (auto simp: init_backend_def tag1_def split: option.split)
next
  case CompactPage
  have page: "0 < page_size_bytes args" using assms CompactPage by (simp add: layout_ok_def)
  have wf: "\<forall>(m, model) \<in> set models. compact_wf model" using assms CompactPage by (auto simp: layout_ok_def)
  from assms cp_init_ok [of models "page_size_bytes args" "sim_args.truncate args" "pool_bytes args"] page wf
  obtain x where x: "cp_init models (pool_bytes args) (page_size_bytes args) (sim_args.truncate args) = Inr x" "cp_ok x"
      "mb_models x = models" "capacity_bytes x = pool_bytes args" "page_size x = page_size_bytes args"
    by (auto simp: layout_ok_def truncate_ok)
  moreover have "cp_ok (x\<lparr> prefix_stall_table := t \<rparr>) = cp_ok x" for t by (rule cp_ok_cong) simp_all
  ultimately show ?thesis using CompactPage by (simp add: init_backend_def tag1_def split: option.split)
qed (use assms in \<open>simp add: layout_ok_def\<close>)

text \<open>A request the feasibility check accepts fits every backend the simulator makes.\<close>

definition served_by :: "(int \<times> tensor_model) list \<Rightarrow> 'x backend_args_scheme \<Rightarrow> request \<Rightarrow> any_mem \<Rightarrow> bool" where
  "served_by models args r b \<longleftrightarrow> (\<exists>model kv. map_of models (rq_model_id r) = Some model \<and> request_kv_bytes r args = Inr kv
     \<and> any_fits b kv (rq_model_id r) (tensors model))"

lemma served_by_config: "any_setup b' = any_setup b \<Longrightarrow> served_by models args r b' = served_by models args r b"
  unfolding served_by_def using anyb.fits_config by metis

lemma tp_total_physical:
  assumes "models_wf (mb_models b)" and "map_of (mb_models b) m = Some model"
  shows "tp_physical_model_bytes b m = Inr (tp_model_total b m)"
proof -
  have "key_size b (m, i) = tp_pages b (groups model ! i) * page_size b" if "i < length (groups model)" for i
    using that assms(2) by (simp add: key_size_def tp_object_bytes_def group_at_def)
  then have "tp_model_total b m = (\<Sum>i \<leftarrow> [0..<length (groups model)]. tp_pages b (groups model ! i) * page_size b)"
    using assms(2) by (auto simp: tp_model_total_def tp_bytes_of_def group_total_def intro!: arg_cong [of _ _ sum_list])
  also have "map (\<lambda>i. tp_pages b (groups model ! i) * page_size b) [0..<length (groups model)]
      = map (\<lambda>g. tp_pages b g * page_size b) (groups model)"
    by (rule nth_equalityI) simp_all
  finally show ?thesis using assms(2) by (simp add: tp_physical_model_bytes_def)
qed

lemma validated_served:
  assumes ok: "layout_ok models args" and valid: "validate_request_feasibility models requests args = Inr ()"
    and r: "r \<in> set requests" "0 \<le> rq_input_tokens r + rq_output_tokens r"
  shows "\<exists>b. make_backend models args benefits = Inr b \<and> any_ok b \<and> served_by models args r b"
proof -
  obtain b where b: "init_backend models args = Inr b"
    "any_ok (case args_stall_table args of None \<Rightarrow> b | Some t \<Rightarrow> set_prefix_stall_table (Some t) b)"
    and shape: "case memory_layout args of
          LegacySegment \<Rightarrow> \<exists>x. b = LegacyMem x \<and> mb_models x = models \<and> capacity_bytes x = pool_bytes args
        | TensorPage \<Rightarrow> \<exists>x. b = TensorPageMem x \<and> mb_models x = models \<and> capacity_bytes x = pool_bytes args
            \<and> page_size x = page_size_bytes args \<and> mb_args x = sim_args.truncate args
        | CompactPage \<Rightarrow> \<exists>x. b = CompactPageMem x \<and> mb_models x = models \<and> capacity_bytes x = pool_bytes args
            \<and> page_size x = page_size_bytes args
        | Segment \<Rightarrow> False"
    using init_backend_ok [OF ok] by blast
  define p where "p = (case args_stall_table args of None \<Rightarrow> b | Some t \<Rightarrow> set_prefix_stall_table (Some t) b)"
  have probe: "make_backend models args None = Inr p" using b(1) by (simp add: make_backend_def p_def)
  obtain footprint kv where req: "any_physical_bytes p (rq_model_id r) = Inr footprint" "request_kv_bytes r args = Inr kv"
    "footprint + kv \<le> pool_bytes args"
  proof -
    from valid probe obtain required where
      req: "r_map (\<lambda>r. r_bind (request_required p args r) (\<lambda>n. Inr (r, n))) requests = Inr required"
        "filter (\<lambda>(r, n). n > pool_bytes args) required = []"
      by (auto simp: validate_request_feasibility_def py_simps split: if_splits)
    from req(1) r(1) obtain n where n: "request_required p args r = Inr n" "(r, n) \<in> set required"
      by (auto simp: r_map_Inr_iff py_simps list_all2_conv_all_nth in_set_conv_nth) (metis nth_mem)
    then have "n \<le> pool_bytes args" using req(2) by (auto simp: filter_empty_conv)
    then show thesis using that n(1) by (auto simp: request_required_def any_ops_def py_simps)
  qed
  have kv: "0 \<le> kv" using req(2) r(2) ok
    by (auto simp: request_kv_bytes_def layout_ok_def args_ok_def ceil_div_nonneg split: if_splits)
  have "served_by models args r p"
  proof (cases "memory_layout args")
    case LegacySegment
    then obtain x where x: "b = LegacyMem x" "mb_models x = models" "capacity_bytes x = pool_bytes args" using shape by auto
    then obtain y where y: "p = LegacyMem y" "mb_models y = models" "capacity_bytes y = pool_bytes args"
      by (cases "args_stall_table args") (simp_all add: p_def)
    then obtain model where model: "map_of models (rq_model_id r) = Some model" "footprint = tm_bytes model"
      using req(1) by (auto simp: seg_ops_def seg_physical_model_bytes_def py_simps)
    have "seg_model_total y (rq_model_id r) \<le> tm_bytes model"
      using ok LegacySegment model(1) y(2) map_of_SomeD [OF model(1)] by (auto simp: layout_ok_def seg_model_total_def)
    then show ?thesis using model req(2,3) y kv by (auto simp: served_by_def seg_fits_def)
  next
    case TensorPage
    then obtain x where x: "b = TensorPageMem x" "mb_models x = models" "capacity_bytes x = pool_bytes args"
      "mb_args x = sim_args.truncate args" using shape by auto
    then obtain y where y: "p = TensorPageMem y" "mb_models y = models" "capacity_bytes y = pool_bytes args"
      "mb_args y = sim_args.truncate args"
      by (cases "args_stall_table args") (simp_all add: p_def)
    obtain model where model: "map_of models (rq_model_id r) = Some model"
      using req(1) y by (auto simp: tp_ops_def tp_physical_model_bytes_def py_simps)
    have "footprint = tp_model_total y (rq_model_id r)"
      using req(1) y model tp_total_physical [of y "rq_model_id r" model] ok by (simp add: tp_ops_def layout_ok_def)
    then show ?thesis using model req(2,3) y kv ok map_of_SomeD [OF model]
      by (force simp: served_by_def tp_fits_def model_tensors_def layout_ok_def truncate_ok)
  next
    case CompactPage
    then obtain x where x: "b = CompactPageMem x" "mb_models x = models" "capacity_bytes x = pool_bytes args"
      "page_size x = page_size_bytes args" using shape by auto
    then obtain y where y: "p = CompactPageMem y" "mb_models y = models" "capacity_bytes y = pool_bytes args"
      "page_size y = page_size_bytes args"
      by (cases "args_stall_table args") (simp_all add: p_def)
    obtain model where model: "map_of models (rq_model_id r) = Some model" "footprint = ceil_div (tm_bytes model) (page_size y) * page_size y"
      using req(1) y by (auto simp: cp_ops_def cp_physical_model_bytes_def py_simps split: if_splits)
    have "0 \<le> tm_bytes model" "0 < page_size y" using ok CompactPage map_of_SomeD [OF model(1)] y(4) by (auto simp: layout_ok_def)
    then have "int (arena_pages y (rq_model_id r)) * page_size y = footprint"
      using model y(2) by (simp add: arena_pages_def ceil_div_nonneg)
    then show ?thesis using model(1) req(2,3) y kv by (auto simp: served_by_def cp_fits_def)
  qed (use ok in \<open>simp add: layout_ok_def\<close>)
  moreover define q where "q = (let b1 = (case benefits of None \<Rightarrow> b | Some d \<Rightarrow> set_pipeline_benefits (map_of d) b) in
    (case args_stall_table args of None \<Rightarrow> b1 | Some t \<Rightarrow> set_prefix_stall_table (Some t) b1))"
  have comm: "set_prefix_stall_table t (set_pipeline_benefits x b) = set_pipeline_benefits x (set_prefix_stall_table t b)" for t x
    by (cases b) simp_all
  have "any_setup q = any_setup p" "any_ok q = any_ok p"
    by (simp_all add: q_def p_def Let_def comm split: option.split)
  moreover have "any_ok p" using b(2) by (simp add: p_def)
  moreover have "make_backend models args benefits = Inr q" using b(1) by (simp add: make_backend_def q_def Let_def)
  ultimately show ?thesis using served_by_config by metis
qed

end
