(* ===== verification/Statistics.thy ===== *)
theory Statistics
  imports Py_Prelude
begin

text \<open>
  The dependency-free summary statistics of the simulator (\<open>statistics_utils.py\<close>).
\<close>

text \<open>The callers pass fractions between 0 and 1; a negative position is not modelled.\<close>

definition percentile :: "rat list \<Rightarrow> rat \<Rightarrow> rat result" where
  "percentile values fraction =
     (let vs = sort values in
      if vs = [] then Inr 0
      else let position = fraction * of_nat (length vs - 1);
               lower = floor position; upper = ceiling position in
        if lower < 0 \<or> upper \<ge> int (length vs) then Inl (IndexError ''list index out of range'')
        else if lower = upper then Inr (vs ! nat lower)
        else Inr (vs ! nat lower * (of_int upper - position) + vs ! nat upper * (position - of_int lower)))"

record stat_summary =
  su_count :: nat
  su_mean :: rat
  su_p50 :: rat
  su_p90 :: rat
  su_p95 :: rat
  su_p99 :: rat
  su_max :: rat

definition summary :: "rat list \<Rightarrow> stat_summary result" where
  "summary values =
     r_bind (percentile values (1 / 2)) (\<lambda>p50.
     r_bind (percentile values (9 / 10)) (\<lambda>p90.
     r_bind (percentile values (95 / 100)) (\<lambda>p95.
     r_bind (percentile values (99 / 100)) (\<lambda>p99.
       Inr \<lparr> su_count = length values,
             su_mean = (if values = [] then 0 else sum_list values / of_nat (length values)),
             su_p50 = p50, su_p90 = p90, su_p95 = p95, su_p99 = p99,
             su_max = (if values = [] then 0 else Max (set values)) \<rparr>))))"

text \<open>
  The value at a position of the sorted list, by linear interpolation: the form both branches
  of \<open>percentile\<close> agree with.
\<close>

definition at_position :: "rat list \<Rightarrow> rat \<Rightarrow> rat" where
  "at_position vs x = vs ! nat (floor x) + (vs ! nat (ceiling x) - vs ! nat (floor x)) * (x - of_int (floor x))"

lemma percentile_at:
  assumes "values \<noteq> []" and "0 \<le> q" and "q \<le> 1"
  shows "percentile values q = Inr (at_position (sort values) (q * of_nat (length values - 1)))"
proof -
  define x where "x = q * of_nat (length values - 1)"
  have "x \<le> of_nat (length values - 1)" unfolding x_def using assms(3) by (metis mult_right_mono mult_1 of_nat_0_le_iff)
  then have "ceiling x \<le> int (length values - 1)" by (simp add: ceiling_le_iff)
  then have up: "ceiling x < int (length values)" using assms(1) by (cases "values") auto
  have low: "0 \<le> floor x" using assms(2) by (simp add: x_def)
  have ne: "sort values \<noteq> []" using assms(1) by (metis set_empty set_sort)
  have form: "percentile values q =
      (if floor x < 0 \<or> ceiling x \<ge> int (length values) then Inl (IndexError ''list index out of range'')
       else if floor x = ceiling x then Inr (sort values ! nat (floor x))
       else Inr (sort values ! nat (floor x) * (of_int (ceiling x) - x)
                 + sort values ! nat (ceiling x) * (x - of_int (floor x))))"
    unfolding percentile_def Let_def x_def using ne by simp
  show ?thesis
  proof (cases "floor x = ceiling x")
    case True
    then show ?thesis unfolding form x_def [symmetric] using up low by (simp add: at_position_def)
  next
    case False
    then have "ceiling x = floor x + 1" by (metis ceiling_altdef)
    then show ?thesis
      unfolding form x_def [symmetric] using up low False by (simp add: at_position_def algebra_simps)
  qed
qed

lemma at_position_between:
  assumes "sorted vs" and "0 \<le> x" and "ceiling x < int (length vs)"
  shows "vs ! nat (floor x) \<le> at_position vs x" and "at_position vs x \<le> vs ! nat (ceiling x)"
proof -
  define f where "f = x - of_int (floor x)"
  have f: "0 \<le> f" "f \<le> 1" by (simp_all add: f_def) linarith
  have "nat (floor x) \<le> nat (ceiling x)" "nat (ceiling x) < length vs"
    using assms(2,3) by (simp_all add: nat_mono floor_le_ceiling) linarith
  then have le: "vs ! nat (floor x) \<le> vs ! nat (ceiling x)" using assms(1) by (simp add: sorted_nth_mono)
  show "vs ! nat (floor x) \<le> at_position vs x"
    using f le by (simp add: at_position_def f_def [symmetric])
  have "(vs ! nat (ceiling x) - vs ! nat (floor x)) * f \<le> vs ! nat (ceiling x) - vs ! nat (floor x)"
    using f le by (simp add: mult_left_le)
  then show "at_position vs x \<le> vs ! nat (ceiling x)" by (simp add: at_position_def f_def [symmetric])
qed

lemma at_position_mono:
  assumes "sorted vs" and "0 \<le> x" and "x \<le> y" and "ceiling y < int (length vs)"
  shows "at_position vs x \<le> at_position vs y"
proof (cases "floor x = floor y")
  case True
  show ?thesis
  proof (cases "x = of_int (floor x)")
    case int: True
    have "at_position vs x = vs ! nat (floor y)" using int True by (metis at_position_def diff_self mult_zero_right add.right_neutral)
    then show ?thesis using at_position_between(1) [OF assms(1) _ assms(4)] assms(2,3) by simp
  next
    case False
    then have c: "ceiling x = floor x + 1" by (simp add: ceiling_altdef)
    have "y \<noteq> of_int (floor y)" using False True assms(3) by (metis floor_correct le_less order.antisym)
    then have cy: "ceiling y = floor y + 1" by (simp add: ceiling_altdef)
    have len: "nat (floor y) \<le> nat (ceiling y)" "nat (ceiling y) < length vs"
      using cy assms(2,3,4) by (auto simp: nat_less_iff nat_mono)
    have "vs ! nat (floor y) \<le> vs ! nat (ceiling y)" using assms(1) len by (simp add: sorted_nth_mono)
    then show ?thesis
      unfolding at_position_def c cy True using assms(3) by (simp add: mult_left_mono)
  qed
next
  case False
  then have "floor x < floor y" using assms(3) by (meson floor_mono le_neq_trans)
  then have "ceiling x \<le> floor y" by (metis ceiling_altdef add1_zle_eq le_less)
  then have i: "nat (ceiling x) \<le> nat (floor y)" by (rule nat_mono)
  have "floor y < int (length vs)" by (rule le_less_trans [OF floor_le_ceiling assms(4)])
  then have j: "nat (floor y) < length vs" using assms(2,3) by (subst nat_less_iff) auto
  have cx: "ceiling x < int (length vs)" using assms(3,4) ceiling_mono [of x y] by linarith
  have "at_position vs x \<le> vs ! nat (ceiling x)" by (rule at_position_between(2) [OF assms(1,2) cx])
  also have "\<dots> \<le> vs ! nat (floor y)" using assms(1) i j by (simp add: sorted_nth_mono)
  also have "\<dots> \<le> at_position vs y" by (rule at_position_between(1)) (use assms in auto)
  finally show ?thesis .
qed

lemma percentile_range:
  assumes "values \<noteq> []" and "0 \<le> q" and "q \<le> 1"
  shows "0 \<le> q * of_nat (length values - 1)" and "ceiling (q * of_nat (length values - 1) :: rat) < int (length values)"
proof -
  show "0 \<le> q * of_nat (length values - 1)" using assms(2) by simp
  have "q * of_nat (length values - 1) \<le> of_nat (length values - 1)"
    using assms(3) by (metis mult_right_mono mult_1 of_nat_0_le_iff)
  then have "ceiling (q * of_nat (length values - 1) :: rat) \<le> int (length values - 1)" by (simp add: ceiling_le_iff)
  then show "ceiling (q * of_nat (length values - 1) :: rat) < int (length values)" using assms(1) by (cases "values") auto
qed

lemma percentile_mono:
  assumes "values \<noteq> []" and "0 \<le> p" "p \<le> q" "q \<le> 1"
  shows "\<exists>a b. percentile values p = Inr a \<and> percentile values q = Inr b \<and> a \<le> b"
proof -
  have p1: "p \<le> 1" and q0: "0 \<le> q" using assms by auto
  have "p * of_nat (length values - 1) \<le> q * of_nat (length values - 1)"
    using assms(3) by (simp add: mult_right_mono)
  then have "at_position (sort values) (p * of_nat (length values - 1))
      \<le> at_position (sort values) (q * of_nat (length values - 1))"
    by (rule at_position_mono [rotated 2]) (use percentile_range [OF assms(1)] assms q0 p1 in auto)
  then show ?thesis using percentile_at [OF assms(1,2) p1] percentile_at [OF assms(1) q0 assms(4)] by auto
qed

lemma percentile_one: "values \<noteq> [] \<Longrightarrow> percentile values 1 = Inr (Max (set values))"
proof -
  assume ne: "values \<noteq> []"
  then have "sort values ! (length values - 1) = last (sort values)"
    by (metis last_conv_nth length_0_conv length_sort)
  moreover have "last (sort values) = Max (set values)"
  proof (rule Max_eqI [symmetric])
    show "last (sort values) \<in> set values" using ne by (metis last_in_set set_empty set_sort)
    fix v assume "v \<in> set values"
    then obtain i where "i < length (sort values)" "v = sort values ! i" by (metis in_set_conv_nth set_sort)
    moreover have "sort values \<noteq> []" using ne by (metis set_empty set_sort)
    ultimately show "v \<le> last (sort values)"
      by (simp add: last_conv_nth sorted_nth_mono del: length_sort)
  qed simp
  ultimately show ?thesis
    using percentile_at [OF ne, of 1] by (simp add: at_position_def)
qed

text \<open>
  A summary is consistent: it is always computed, its count is the number of values, and
  for a non-empty list the percentiles are ordered, from the median up to the maximum.
\<close>

lemma summary_ordered:
  "\<exists>s. summary values = Inr s \<and> su_count s = length values
     \<and> (values \<noteq> [] \<longrightarrow> su_p50 s \<le> su_p90 s \<and> su_p90 s \<le> su_p95 s \<and> su_p95 s \<le> su_p99 s
          \<and> su_p99 s \<le> su_max s \<and> su_max s \<in> set values)"
proof (cases "values = []")
  case True
  then show ?thesis by (simp add: summary_def percentile_def)
next
  case False
  note mono = percentile_mono [OF False]
  have "(1 / 2 :: rat) \<le> 9 / 10" "(9 / 10 :: rat) \<le> 95 / 100" "(95 / 100 :: rat) \<le> 99 / 100" by simp_all
  then obtain a b c d where "percentile values (1 / 2) = Inr a" "percentile values (9 / 10) = Inr b" "a \<le> b"
      "percentile values (95 / 100) = Inr c" "b \<le> c" "percentile values (99 / 100) = Inr d" "c \<le> d"
      "d \<le> Max (set values)"
    using mono [of "1 / 2" "9 / 10"] mono [of "9 / 10" "95 / 100"] mono [of "95 / 100" "99 / 100"]
      mono [of "99 / 100" 1] percentile_one [OF False] by auto
  then show ?thesis using False Max_in [of "set values"] by (simp add: summary_def)
qed

lemma summary_total: "\<exists>s. summary values = Inr s"
proof -
  have total: "\<exists>x. percentile values q = Inr x" if "0 \<le> q" "q \<le> 1" for q
    using that percentile_at [of "values" q] by (cases "values = []") (auto simp: percentile_def)
  have "\<exists>x. percentile values (1 / 2) = Inr x" "\<exists>x. percentile values (9 / 10) = Inr x"
      "\<exists>x. percentile values (95 / 100) = Inr x" "\<exists>x. percentile values (99 / 100) = Inr x"
    by (rule total; simp)+
  then show ?thesis by (auto simp: summary_def)
qed

end
