(* ===== verification/Routing.thy ===== *)
theory Routing
  imports Tensor_Groups Statistics
begin

text \<open>
  Choosing a GPU for a request and accounting for its time (\<open>layerweave_tensor_pipeline_sim.py\<close>):
  the routing policies with their round-robin tie break, the online variants that consider
  when a GPU becomes free, the availability masks and the arrival-to-first-token timing. The
  random generator is an argument: the source draws from \<open>random.Random(seed)\<close>, and nothing
  is assumed of the draws but their documented ranges.
\<close>

section \<open>Routing\<close>

datatype routing_policy = CriticalPath | ExposedStall | CacheBytes | MckpTransition

text \<open>The fields of a probe's row that routing reads; those a row may lack are optional.\<close>

record route_result =
  rr_critical_path_ms :: rat
  rr_exposed_load_ms :: rat
  routing_cached_model_bytes :: "int option"
  rr_predicted_damage_ms :: "rat option"
  mckp_transition_weight :: "rat option"

definition routing_score :: "routing_policy \<Rightarrow> route_result \<Rightarrow> rat result" where
  "routing_score policy r =
     (case policy of
        CacheBytes \<Rightarrow> (case routing_cached_model_bytes r of None \<Rightarrow> Inl KeyError | Some n \<Rightarrow> Inr (- of_int n))
      | MckpTransition \<Rightarrow>
          Inr (rr_exposed_load_ms r
               + (case rr_predicted_damage_ms r of None \<Rightarrow> 0 | Some d \<Rightarrow> d)
               * (case mckp_transition_weight r of None \<Rightarrow> 1 | Some w \<Rightarrow> w))
      | ExposedStall \<Rightarrow> Inr (rr_exposed_load_ms r)
      | CriticalPath \<Rightarrow> Inr (rr_critical_path_ms r))"

text \<open>
  The scored candidates within tolerance of the best, and the first of them in cyclic order
  from \<open>next_gpu\<close>.
\<close>

definition pick_tied :: "(rat \<times> nat \<times> 'r) list \<Rightarrow> nat \<Rightarrow> nat \<Rightarrow> (nat \<times> 'r \<times> nat) result" where
  "pick_tied scored next_gpu gpus =
     (if scored = [] then Inl (ValueError ''min() arg is an empty sequence'')
      else let best = Min (fst ` set scored);
               tied = dict_of (map snd (filter (\<lambda>(score, _). py_isclose score best) scored));
               order = map (\<lambda>offset. (next_gpu + offset) mod gpus) [0..<gpus] in
        case filter (\<lambda>gpu. gpu \<in> fst ` set tied) order of
          [] \<Rightarrow> Inl StopIteration
        | chosen # _ \<Rightarrow> r_bind (dict_get tied chosen) (\<lambda>result.
            Inr (chosen, result, (chosen + 1) mod gpus)))"

definition choose_routing_candidate ::
  "(nat \<times> route_result) list \<Rightarrow> routing_policy \<Rightarrow> nat \<Rightarrow> nat \<Rightarrow> (nat \<times> route_result \<times> nat) result" where
  "choose_routing_candidate candidates policy next_gpu gpus =
     r_bind (r_map (\<lambda>(gpu, r). r_bind (routing_score policy r) (\<lambda>s. Inr (s, gpu, r))) candidates)
       (\<lambda>scored. pick_tied scored next_gpu gpus)"

definition choose_online_routing_candidate ::
  "(nat \<times> route_result) list \<Rightarrow> rat list \<Rightarrow> rat \<Rightarrow> nat \<Rightarrow> nat \<Rightarrow> rat \<Rightarrow> (nat \<times> route_result \<times> nat) result" where
  "choose_online_routing_candidate candidates available_at_ms arrival_ms next_gpu gpus transition_weight =
     r_bind (r_map (\<lambda>(gpu, r). r_bind (list_get available_at_ms gpu) (\<lambda>free_at.
               let queue_ms = max 0 (free_at - arrival_ms) in
               Inr (queue_ms + rr_critical_path_ms r
                    + transition_weight * (case rr_predicted_damage_ms r of None \<Rightarrow> 0 | Some d \<Rightarrow> d), gpu, r)))
             candidates)
       (\<lambda>scored. pick_tied scored next_gpu gpus)"

definition choose_online_cache_bytes_candidate ::
  "(nat \<times> route_result) list \<Rightarrow> rat list \<Rightarrow> rat \<Rightarrow> nat \<Rightarrow> nat \<Rightarrow> (nat \<times> route_result \<times> nat) result" where
  "choose_online_cache_bytes_candidate candidates available_at_ms arrival_ms next_gpu gpus =
     r_bind (r_map (\<lambda>(gpu, r). r_bind (list_get available_at_ms gpu) (\<lambda>free_at. Inr (free_at, gpu, r))) candidates) (\<lambda>timed.
       let idle = filter (\<lambda>(free_at, _). free_at \<le> arrival_ms) timed in
       if idle \<noteq> [] then choose_routing_candidate (map snd idle) CacheBytes next_gpu gpus
       else if timed = [] then Inl (ValueError ''min() arg is an empty sequence'')
       else let earliest = Min (fst ` set timed) in
         choose_routing_candidate (map snd (filter (\<lambda>(free_at, _). py_isclose free_at earliest) timed))
           CacheBytes next_gpu gpus)"

section \<open>What a choice guarantees\<close>

text \<open>The chosen GPU in cyclic order: nothing tied comes before it.\<close>

definition first_from :: "nat \<Rightarrow> nat \<Rightarrow> (nat \<Rightarrow> bool) \<Rightarrow> nat \<Rightarrow> bool" where
  "first_from next_gpu gpus P chosen \<longleftrightarrow>
     (\<exists>k < gpus. chosen = (next_gpu + k) mod gpus \<and> P chosen \<and> (\<forall>j < k. \<not> P ((next_gpu + j) mod gpus)))"

lemma filter_upt_first:
  "filter P (map f [0..<n]) = x # xs \<Longrightarrow> \<exists>k < n. x = f k \<and> P x \<and> (\<forall>j < k. \<not> P (f j))"
proof (induction n arbitrary: xs)
  case (Suc n)
  show ?case
  proof (cases "filter P (map f [0..<n])")
    case Nil
    then have "x = f n" "P (f n)" "\<forall>j < n. \<not> P (f j)"
      using Suc.prems by (auto simp: filter_empty_conv split: if_splits)
    then show ?thesis by blast
  next
    case (Cons y ys)
    then have "y = x" using Suc.prems by (auto split: if_splits)
    then show ?thesis using Suc.IH Cons less_Suc_eq by auto
  qed
qed simp

lemma cyclic_cover:
  assumes "g < (gpus :: nat)"
  shows "\<exists>k < gpus. (next_gpu + k) mod gpus = g"
proof -
  have "0 < gpus" using assms by simp
  define r where "r = next_gpu mod gpus"
  define k where "k = (g + (gpus - r)) mod gpus"
  have r: "r < gpus" using \<open>0 < gpus\<close> by (simp add: r_def)
  have "(next_gpu + k) mod gpus = (r + k) mod gpus" by (simp add: r_def mod_simps)
  also have "\<dots> = (r + (g + (gpus - r))) mod gpus" by (simp add: k_def mod_simps)
  also have "r + (g + (gpus - r)) = g + gpus" using r by simp
  finally have "(next_gpu + k) mod gpus = g" using assms by simp
  then show ?thesis using \<open>0 < gpus\<close> by (intro exI [of _ k]) (simp add: k_def)
qed

lemma pick_tied_ok:
  assumes ne: "scored \<noteq> []" and range: "\<forall>(s, g, r) \<in> set scored. g < gpus"
    and dist: "distinct (map (\<lambda>(s, g, r). g) scored)"
  shows "\<exists>score chosen res. pick_tied scored next_gpu gpus = Inr (chosen, res, (chosen + 1) mod gpus)
     \<and> (score, chosen, res) \<in> set scored \<and> py_isclose score (Min (fst ` set scored))
     \<and> first_from next_gpu gpus
         (\<lambda>g. \<exists>s r. (s, g, r) \<in> set scored \<and> py_isclose s (Min (fst ` set scored))) chosen"
proof -
  define best where "best = Min (fst ` set scored)"
  define tied where "tied = map snd (filter (\<lambda>(score, _). py_isclose score best) scored)"
  have keys: "g \<in> fst ` set (dict_of tied) \<longleftrightarrow> (\<exists>s r. (s, g, r) \<in> set scored \<and> py_isclose s best)" for g
  proof -
    have "g \<in> fst ` set tied \<longleftrightarrow> (\<exists>s r. (s, g, r) \<in> set scored \<and> py_isclose s best)"
      by (auto simp: tied_def image_iff)
    then show ?thesis by (simp add: dict_of_keys)
  qed
  have "best \<in> fst ` set scored" unfolding best_def using ne by (intro Min_in) auto
  then obtain g r where "(best, g, r) \<in> set scored" by force
  then have g: "g \<in> fst ` set (dict_of tied)" "g < gpus" using keys range by auto
  let ?order = "map (\<lambda>offset. (next_gpu + offset) mod gpus) [0..<gpus]"
  obtain k where "k < gpus" "(next_gpu + k) mod gpus = g" using cyclic_cover [OF g(2)] by blast
  then have "g \<in> set (filter (\<lambda>g. g \<in> fst ` set (dict_of tied)) ?order)" using g(1) by force
  then obtain chosen rest where order: "filter (\<lambda>g. g \<in> fst ` set (dict_of tied)) ?order = chosen # rest"
    by (cases "filter (\<lambda>g. g \<in> fst ` set (dict_of tied)) ?order") auto
  from filter_upt_first [OF this] have first: "first_from next_gpu gpus (\<lambda>g. g \<in> fst ` set (dict_of tied)) chosen"
    by (simp add: first_from_def)
  then have mem: "chosen \<in> fst ` set (dict_of tied)" by (auto simp: first_from_def)
  obtain res where res: "map_of (dict_of tied) chosen = Some res" using map_of_mem [OF mem] by blast
  have "(chosen, res) \<in> set tied" using res by (metis map_of_SomeD map_of_dict_of set_rev)
  then obtain score where "(score, chosen, res) \<in> set scored" "py_isclose score best" by (auto simp: tied_def)
  moreover have "pick_tied scored next_gpu gpus = Inr (chosen, res, (chosen + 1) mod gpus)"
    using ne order res by (simp add: pick_tied_def Let_def best_def [symmetric] tied_def [symmetric])
  ultimately show ?thesis using first unfolding keys best_def [symmetric] by blast
qed

lemma scored_shape:
  assumes "r_map (\<lambda>(gpu, r). r_bind (f gpu r) (\<lambda>s. Inr (s, gpu, r))) candidates = Inr scored"
  shows "map snd scored = candidates" and "\<forall>(s, g, r) \<in> set scored. f g r = Inr s"
proof -
  have all: "list_all2 (\<lambda>c x. (case c of (gpu, r) \<Rightarrow> r_bind (f gpu r) (\<lambda>s. Inr (s, gpu, r))) = Inr x) candidates scored"
    using assms by (simp add: r_map_Inr_iff)
  then show "map snd scored = candidates"
    by (induction rule: list_all2_induct) (auto simp: py_simps)
  from all show "\<forall>(s, g, r) \<in> set scored. f g r = Inr s"
    by (induction rule: list_all2_induct) (auto simp: py_simps)
qed

text \<open>The general form: whatever the score, the choice is a candidate of (nearly) minimal score.\<close>

lemma choose_scored:
  assumes ne: "candidates \<noteq> []" and range: "\<forall>(g, r) \<in> set candidates. g < gpus"
    and dist: "distinct (map fst candidates)"
    and total: "\<forall>(g, r) \<in> set candidates. f g r = Inr (v g r)"
  shows "\<exists>chosen res.
     r_bind (r_map (\<lambda>(gpu, r). r_bind (f gpu r) (\<lambda>s. Inr (s, gpu, r))) candidates)
       (\<lambda>scored. pick_tied scored next_gpu gpus) = Inr (chosen, res, (chosen + 1) mod gpus)
     \<and> (chosen, res) \<in> set candidates
     \<and> py_isclose (v chosen res) (MIN (g, r) \<in> set candidates. v g r)
     \<and> first_from next_gpu gpus
         (\<lambda>g. \<exists>r. (g, r) \<in> set candidates \<and> py_isclose (v g r) (MIN (g, r) \<in> set candidates. v g r)) chosen"
proof -
  define scored where "scored = map (\<lambda>(g, r). (v g r, g, r)) candidates"
  have run: "r_map (\<lambda>(gpu, r). r_bind (f gpu r) (\<lambda>s. Inr (s, gpu, r))) candidates = Inr scored"
    unfolding scored_def by (rule r_map_total) (use total in auto)
  have mem: "(s, g, r) \<in> set scored \<longleftrightarrow> (g, r) \<in> set candidates \<and> s = v g r" for s g r
    by (auto simp: scored_def)
  have best: "Min (fst ` set scored) = (MIN (g, r) \<in> set candidates. v g r)"
    by (simp add: scored_def image_image split_def)
  have gs: "map (\<lambda>(s, g, r). g) scored = map fst candidates" by (simp add: scored_def split_def o_def)
  have "scored \<noteq> []" "\<forall>(s, g, r) \<in> set scored. g < gpus" "distinct (map (\<lambda>(s, g, r). g) scored)"
    using ne range dist gs mem by auto
  from pick_tied_ok [OF this, of next_gpu] obtain score chosen res where
    "pick_tied scored next_gpu gpus = Inr (chosen, res, (chosen + 1) mod gpus)"
    "(score, chosen, res) \<in> set scored" "py_isclose score (Min (fst ` set scored))"
    "first_from next_gpu gpus (\<lambda>g. \<exists>s r. (s, g, r) \<in> set scored \<and> py_isclose s (Min (fst ` set scored))) chosen"
    by blast
  then show ?thesis using run unfolding best mem by auto
qed

text \<open>
  Routing picks a best candidate and is fair among equals: with at least one candidate, each
  on an existing GPU, and a score for each, the choice is a candidate whose score is within
  tolerance of the minimum, it is the first such GPU in cyclic order from the round-robin
  pointer, and the pointer moves just behind it.
\<close>

lemma choose_routing_best:
  assumes "candidates \<noteq> []" and "\<forall>(g, r) \<in> set candidates. g < gpus" and "distinct (map fst candidates)"
    and "\<forall>(g, r) \<in> set candidates. routing_score policy r = Inr (v r)"
  shows "\<exists>chosen res. choose_routing_candidate candidates policy next_gpu gpus
       = Inr (chosen, res, (chosen + 1) mod gpus)
     \<and> (chosen, res) \<in> set candidates \<and> py_isclose (v res) (MIN (g, r) \<in> set candidates. v r)
     \<and> first_from next_gpu gpus
         (\<lambda>g. \<exists>r. (g, r) \<in> set candidates \<and> py_isclose (v r) (MIN (g, r) \<in> set candidates. v r)) chosen"
  unfolding choose_routing_candidate_def
  by (rule choose_scored [OF assms(1-3), of "\<lambda>_. routing_score policy" "\<lambda>_. v"]) (rule assms(4))

lemma choose_online_scored:
  assumes "candidates \<noteq> []" and "\<forall>(g, r) \<in> set candidates. g < gpus" and "distinct (map fst candidates)"
    and "length available = gpus"
    and "score = (\<lambda>g r. max 0 (available ! g - arrival) + rr_critical_path_ms r
                  + weight * (case rr_predicted_damage_ms r of None \<Rightarrow> 0 | Some d \<Rightarrow> d))"
  shows "\<exists>chosen res. choose_online_routing_candidate candidates available arrival next_gpu gpus weight
       = Inr (chosen, res, (chosen + 1) mod gpus)
     \<and> (chosen, res) \<in> set candidates \<and> py_isclose (score chosen res) (MIN (g, r) \<in> set candidates. score g r)
     \<and> first_from next_gpu gpus
         (\<lambda>g. \<exists>r. (g, r) \<in> set candidates \<and> py_isclose (score g r) (MIN (g, r) \<in> set candidates. score g r)) chosen"
proof -
  define f where "f = (\<lambda>g (r :: route_result). r_bind (list_get available g) (\<lambda>free_at.
    Inr (max 0 (free_at - arrival) + rr_critical_path_ms r
         + weight * (case rr_predicted_damage_ms r of None \<Rightarrow> 0 | Some d \<Rightarrow> d))))"
  have eq: "choose_online_routing_candidate candidates available arrival next_gpu gpus weight
      = r_bind (r_map (\<lambda>(gpu, r). r_bind (f gpu r) (\<lambda>s. Inr (s, gpu, r))) candidates)
          (\<lambda>scored. pick_tied scored next_gpu gpus)"
    by (simp add: choose_online_routing_candidate_def f_def Let_def r_bind_assoc)
  have "\<forall>(g, r) \<in> set candidates. f g r = Inr (score g r)"
    using assms(2,4) by (auto simp: f_def list_get_def assms(5))
  from choose_scored [OF assms(1-3) this] show ?thesis unfolding eq .
qed

text \<open>
  Online routing minimises the predicted time to first token: the chosen GPU is a candidate
  whose queueing delay plus critical path plus weighted eviction damage is within tolerance of
  the smallest such sum, ties going round robin.
\<close>

lemma choose_online_best:
  assumes "candidates \<noteq> []" and "\<forall>(g, r) \<in> set candidates. g < gpus" and "distinct (map fst candidates)"
    and "length available = gpus"
    and "score = (\<lambda>g r. max 0 (available ! g - arrival) + rr_critical_path_ms r
                  + weight * (case rr_predicted_damage_ms r of None \<Rightarrow> 0 | Some d \<Rightarrow> d))"
  shows "\<exists>chosen res. choose_online_routing_candidate candidates available arrival next_gpu gpus weight
       = Inr (chosen, res, (chosen + 1) mod gpus)
     \<and> (chosen, res) \<in> set candidates \<and> py_isclose (score chosen res) (MIN (g, r) \<in> set candidates. score g r)
     \<and> first_from next_gpu gpus
         (\<lambda>g. \<exists>r. (g, r) \<in> set candidates \<and> py_isclose (score g r) (MIN (g, r) \<in> set candidates. score g r)) chosen"
  using assms by (rule choose_online_scored)

text \<open>
  Online cache-affinity routing never queues behind a busy GPU while one is idle: when some
  candidate GPU is free at the arrival, the chosen one is free and holds, within tolerance, as
  many bytes of the model as any free candidate.
\<close>

lemma choose_online_cache_idle:
  assumes "\<forall>(g, r) \<in> set candidates. g < gpus \<and> routing_cached_model_bytes r = Some (cached r)"
    and "distinct (map fst candidates)" and "length available = gpus"
    and "\<exists>(g, r) \<in> set candidates. available ! g \<le> arrival"
  shows "\<exists>chosen res. choose_online_cache_bytes_candidate candidates available arrival next_gpu gpus
       = Inr (chosen, res, (chosen + 1) mod gpus)
     \<and> (chosen, res) \<in> set candidates \<and> available ! chosen \<le> arrival
     \<and> py_isclose (- of_int (cached res))
         (MIN (g, r) \<in> {(g, r) \<in> set candidates. available ! g \<le> arrival}. - of_int (cached r))"
proof -
  define timed where "timed = map (\<lambda>(g, r). (available ! g, g, r)) candidates"
  define idle where "idle = filter (\<lambda>(g, r). available ! g \<le> arrival) candidates"
  have run: "r_map (\<lambda>(gpu, r). r_bind (list_get available gpu) (\<lambda>free_at. Inr (free_at, gpu, r))) candidates = Inr timed"
    unfolding timed_def by (rule r_map_total) (use assms(1,3) in \<open>auto simp: list_get_def\<close>)
  have split: "map snd (filter (\<lambda>(free_at, _). free_at \<le> arrival) timed) = idle"
    unfolding timed_def idle_def by (induction candidates) auto
  have "filter (\<lambda>(free_at, _). free_at \<le> arrival) timed \<noteq> []"
    using assms(4) by (force simp: timed_def filter_empty_conv)
  then have eq: "choose_online_cache_bytes_candidate candidates available arrival next_gpu gpus
      = choose_routing_candidate idle CacheBytes next_gpu gpus"
    using run split by (simp add: choose_online_cache_bytes_candidate_def Let_def)
  have "idle \<noteq> []" using assms(4) by (auto simp: idle_def filter_empty_conv)
  moreover have "\<forall>(g, r) \<in> set idle. g < gpus" using assms(1) by (auto simp: idle_def)
  moreover have "distinct (map fst idle)" using assms(2) by (simp add: idle_def distinct_map_filter)
  moreover have "\<forall>(g, r) \<in> set idle. routing_score CacheBytes r = Inr (- of_int (cached r))"
    using assms(1) by (auto simp: idle_def routing_score_def)
  ultimately obtain chosen res where
    "choose_routing_candidate idle CacheBytes next_gpu gpus = Inr (chosen, res, (chosen + 1) mod gpus)"
    "(chosen, res) \<in> set idle" "py_isclose (- of_int (cached res)) (MIN (g, r) \<in> set idle. - of_int (cached r))"
    using choose_scored [of idle gpus "\<lambda>_. routing_score CacheBytes" "\<lambda>_ r. - of_int (cached r)" next_gpu]
    unfolding choose_routing_candidate_def by blast
  moreover have "set idle = {(g, r) \<in> set candidates. available ! g \<le> arrival}" by (auto simp: idle_def)
  ultimately show ?thesis using eq by auto
qed

section \<open>GPU availability\<close>

text \<open>
  The draws of one request: \<open>rng.random()\<close> per GPU, \<open>rng.choice\<close> and \<open>rng.sample\<close>.
\<close>

record rng_draws =
  draw_random :: "nat \<Rightarrow> rat"
  draw_choice :: nat
  draw_sample :: "nat list"

record gpu_mask =
  mask_request_id :: int
  available_gpus :: "nat list"
  busy_gpus :: "nat list"
  forced_available_gpu :: "nat option"

definition gpu_mask_of :: "nat \<Rightarrow> rat \<Rightarrow> int option \<Rightarrow> request \<times> rng_draws \<Rightarrow> gpu_mask result" where
  "gpu_mask_of gpus busy_probability exact_available = (\<lambda>(r, draws).
     let all_gpus = [0..<gpus]; mask = (\<lambda>busy forced. \<lparr> mask_request_id = request_id r,
            available_gpus = filter (\<lambda>g. g \<notin> set busy) all_gpus, busy_gpus = sort busy,
            forced_available_gpu = forced \<rparr>) in
     case exact_available of
       Some k \<Rightarrow>
         if k < 0 \<or> int gpus < k then Inl (ValueError ''Sample larger than population or is negative'')
         else Inr (mask (filter (\<lambda>g. g \<notin> set (draw_sample draws)) all_gpus) None)
     | None \<Rightarrow>
         let busy = filter (\<lambda>g. draw_random draws g < busy_probability) all_gpus in
         if length busy = gpus
         then if gpus = 0 then Inl (IndexError ''Cannot choose from an empty sequence'')
              else Inr (mask (remove1 (draw_choice draws) busy) (Some (draw_choice draws)))
         else Inr (mask busy None))"

definition build_gpu_availability ::
  "(request \<times> rng_draws) list \<Rightarrow> nat \<Rightarrow> rat \<Rightarrow> int option \<Rightarrow> gpu_mask list result" where
  "build_gpu_availability requests gpus busy_probability exact_available =
     r_map (gpu_mask_of gpus busy_probability exact_available) requests"

text \<open>What the library documents of its draws.\<close>

definition draws_ok :: "nat \<Rightarrow> int option \<Rightarrow> rng_draws \<Rightarrow> bool" where
  "draws_ok gpus exact d \<longleftrightarrow> draw_choice d < gpus
     \<and> (\<forall>k. exact = Some k \<longrightarrow> 0 \<le> k \<and> k \<le> int gpus \<longrightarrow>
          distinct (draw_sample d) \<and> set (draw_sample d) \<subseteq> {..<gpus} \<and> int (length (draw_sample d)) = k)"

text \<open>
  An availability mask always leaves a GPU: for every request the available and the busy
  GPUs partition all of them; the sampled mode leaves exactly the requested number available,
  and the probabilistic mode leaves at least one, whatever the draws.
\<close>

lemma gpu_availability_partition:
  assumes "0 < gpus" and "\<forall>(r, d) \<in> set requests. draws_ok gpus exact d"
    and "\<forall>k. exact = Some k \<longrightarrow> 0 \<le> k \<and> k \<le> int gpus"
  shows "\<exists>masks. build_gpu_availability requests gpus p exact = Inr masks \<and> length masks = length requests
     \<and> (\<forall>m \<in> set masks. set (available_gpus m) \<union> set (busy_gpus m) = {..<gpus}
          \<and> set (available_gpus m) \<inter> set (busy_gpus m) = {} \<and> distinct (available_gpus m)
          \<and> (case exact of None \<Rightarrow> available_gpus m \<noteq> [] | Some k \<Rightarrow> int (length (available_gpus m)) = k))"
proof -
  define good where "good = (\<lambda>m :: gpu_mask. set (available_gpus m) \<union> set (busy_gpus m) = {..<gpus}
          \<and> set (available_gpus m) \<inter> set (busy_gpus m) = {} \<and> distinct (available_gpus m)
          \<and> (case exact of None \<Rightarrow> available_gpus m \<noteq> [] | Some k \<Rightarrow> int (length (available_gpus m)) = k))"
  have one: "\<exists>m. gpu_mask_of gpus p exact x = Inr m \<and> good m" if x: "x \<in> set requests" for x
  proof -
    obtain r d where rd: "x = (r, d)" by fastforce
    have d: "draws_ok gpus exact d" using assms(2) x rd by auto
    show ?thesis
    proof (cases exact)
      case (Some k)
      have k: "0 \<le> k" "k \<le> int gpus" and s: "distinct (draw_sample d)" "set (draw_sample d) \<subseteq> {..<gpus}"
          "int (length (draw_sample d)) = k"
        using assms(3) d Some by (auto simp: draws_ok_def)
      let ?av = "filter (\<lambda>g. g \<notin> set (filter (\<lambda>g. g \<notin> set (draw_sample d)) [0..<gpus])) [0..<gpus]"
      have av: "set ?av = set (draw_sample d)" using s(2) by auto
      have "length ?av = card (set ?av)" by (rule distinct_card [symmetric]) simp
      then have "int (length ?av) = k" unfolding av using s(1,3) by (simp add: distinct_card)
      then show ?thesis using Some k rd av s(2) by (auto simp: gpu_mask_of_def Let_def good_def)
    next
      case None
      define busy where "busy = filter (\<lambda>g. draw_random d g < p) [0..<gpus]"
      show ?thesis
      proof (cases "length busy = gpus")
        case True
        have c: "draw_choice d < gpus" using d by (simp add: draws_ok_def)
        have "set (remove1 (draw_choice d) busy) = set busy - {draw_choice d}" by (simp add: busy_def)
        moreover have "set busy \<subseteq> {..<gpus}" by (auto simp: busy_def)
        ultimately show ?thesis
          using True None rd c assms(1) by (auto simp: gpu_mask_of_def Let_def good_def busy_def [symmetric] filter_empty_conv)
      next
        case False
        have "\<exists>g < gpus. \<not> draw_random d g < p"
        proof (rule ccontr)
          assume "\<not> ?thesis"
          then have "busy = [0..<gpus]" by (simp add: busy_def filter_id_conv)
          with False show False by simp
        qed
        then show ?thesis
          using False None rd by (auto simp: gpu_mask_of_def Let_def good_def busy_def filter_empty_conv)
      qed
    qed
  qed
  then have run: "r_map (gpu_mask_of gpus p exact) requests = Inr (map (\<lambda>x. projr (gpu_mask_of gpus p exact x)) requests)"
    by (intro r_map_total) (metis one sum.sel(2))
  have "good m" if "m \<in> set (map (\<lambda>x. projr (gpu_mask_of gpus p exact x)) requests)" for m
    using that one by fastforce
  then show ?thesis using run unfolding build_gpu_availability_def good_def by auto
qed

section \<open>Online timing\<close>

definition update_online_gpu_availability ::
  "bool \<Rightarrow> rat list \<Rightarrow> rat \<Rightarrow> rat list \<Rightarrow> request \<Rightarrow> nat \<Rightarrow> rat \<Rightarrow> rat list result" where
  "update_online_gpu_availability online arrivals_ms decode_ms available_at_ms r gpu critical_path =
     (if \<not> online then Inr available_at_ms
      else r_bind (list_get arrivals_ms (nat (request_id r))) (\<lambda>arrival_ms.
        r_bind (list_get available_at_ms gpu) (\<lambda>free_at.
          Inr (available_at_ms[gpu := max arrival_ms free_at + critical_path + of_int (rq_output_tokens r) * decode_ms]))))"

record timing_args =
  ta_gpus :: nat
  decode_ms_per_token :: rat
  slo_scale :: rat
  warmup_requests :: nat

record timing_row =
  tr_gpu :: nat
  arrival_ms :: rat
  dispatch_ms :: rat
  first_token_ms :: rat
  finish_ms :: rat
  queue_ms :: rat
  service_ttft_ms :: rat
  ttft_ms :: rat
  decode_ms :: rat
  slo_ms :: rat
  slo_attained :: bool
  measured :: bool

text \<open>A GPU for a row without routing: the earliest free one, ties going round robin.\<close>

definition earliest_gpu :: "rat list \<Rightarrow> nat \<Rightarrow> nat \<Rightarrow> nat result" where
  "earliest_gpu available_at_ms next_gpu gpus =
     (if available_at_ms = [] then Inl (ValueError ''min() arg is an empty sequence'')
      else let earliest = Min (set available_at_ms);
               tied = filter (\<lambda>g. py_isclose (available_at_ms ! g) earliest) [0..<length available_at_ms] in
        case filter (\<lambda>g. g \<in> set tied) (map (\<lambda>offset. (next_gpu + offset) mod gpus) [0..<gpus]) of
          [] \<Rightarrow> Inl StopIteration | g # _ \<Rightarrow> Inr g)"

text \<open>A row to time: its critical path, its compute time, its request and arrival in seconds.\<close>

type_synonym timing_input = "rat \<times> rat \<times> request \<times> rat"

definition time_row :: "timing_args \<Rightarrow> nat \<Rightarrow> nat \<Rightarrow> rat \<Rightarrow> timing_input \<Rightarrow> timing_row" where
  "time_row args index gpu free_at = (\<lambda>(critical_path, hot_compute, r, arrival_s).
     let arrival = arrival_s * 1000;
         dispatch = max arrival free_at;
         first_token = dispatch + critical_path;
         decode = of_int (rq_output_tokens r) * decode_ms_per_token args;
         slo = slo_scale args * hot_compute in
     \<lparr> tr_gpu = gpu, arrival_ms = arrival, dispatch_ms = dispatch, first_token_ms = first_token,
       finish_ms = first_token + decode, queue_ms = dispatch - arrival, service_ttft_ms = critical_path,
       ttft_ms = first_token - arrival, decode_ms = decode, slo_ms = slo,
       slo_attained = (first_token - arrival \<le> slo), measured = (warmup_requests args \<le> index) \<rparr>)"

definition online_step ::
  "timing_args \<Rightarrow> nat list \<Rightarrow> rat list \<times> nat \<times> nat list \<times> timing_row list \<Rightarrow> nat \<times> timing_input \<Rightarrow>
   (rat list \<times> nat \<times> nat list \<times> timing_row list) result" where
  "online_step args given = (\<lambda>(available, next_gpu, routing, rows) (index, row).
     r_bind (if index < length given then Inr (given ! index, next_gpu)
             else r_bind (earliest_gpu available next_gpu (ta_gpus args)) (\<lambda>g.
                    Inr (g, (g + 1) mod ta_gpus args))) (\<lambda>(gpu, next_gpu').
     r_bind (list_get available gpu) (\<lambda>free_at.
       let t = time_row args index gpu free_at row in
       Inr (available[gpu := finish_ms t], next_gpu',
            if index < length given then routing else routing @ [gpu], rows @ [t]))))"

definition apply_online_timing ::
  "timing_args \<Rightarrow> nat list \<Rightarrow> timing_input list \<Rightarrow> (nat list \<times> timing_row list) result" where
  "apply_online_timing args routing rows =
     r_bind (r_foldl (online_step args routing) (replicate (ta_gpus args) 0, 0, routing, [])
               (zip [0..<length rows] rows))
       (\<lambda>(_, _, online_routing, timed). Inr (online_routing, timed))"

record online_summary =
  os_queue :: stat_summary
  os_ttft :: stat_summary
  slo_attainment :: rat
  makespan_ms :: rat
  throughput_requests_s :: rat
  measured_requests :: nat

definition summarize_online :: "timing_args \<Rightarrow> timing_row list \<Rightarrow> online_summary result" where
  "summarize_online args rows =
     (let ms = drop (warmup_requests args) rows;
          start = (case ms of [] \<Rightarrow> 0 | m # _ \<Rightarrow> arrival_ms m);
          makespan = (if ms = [] then start else Max (finish_ms ` set ms));
          span = max 0 (makespan - start) in
      r_bind (summary (map queue_ms ms)) (\<lambda>queue.
      r_bind (summary (map ttft_ms ms)) (\<lambda>ttft.
        Inr \<lparr> os_queue = queue, os_ttft = ttft,
              slo_attainment = (if ms = [] then 0
                else of_nat (length (filter slo_attained ms)) / of_nat (length ms)),
              makespan_ms = makespan,
              throughput_requests_s = (if 0 < span then of_nat (length ms) * 1000 / span else 0),
              measured_requests = length ms \<rparr>)))"

text \<open>One GPU serves one request at a time, in order.\<close>

definition no_overlap :: "timing_row list \<Rightarrow> bool" where
  "no_overlap rows \<longleftrightarrow> sorted_wrt (\<lambda>a b. tr_gpu a = tr_gpu b \<longrightarrow> finish_ms a \<le> dispatch_ms b) rows"

definition row_consistent :: "timing_row \<Rightarrow> bool" where
  "row_consistent t \<longleftrightarrow> arrival_ms t \<le> dispatch_ms t \<and> 0 \<le> queue_ms t
     \<and> ttft_ms t = queue_ms t + service_ttft_ms t
     \<and> dispatch_ms t \<le> first_token_ms t \<and> first_token_ms t \<le> finish_ms t
     \<and> (slo_attained t \<longleftrightarrow> ttft_ms t \<le> slo_ms t)"

definition timing_state :: "timing_args \<Rightarrow> rat list \<Rightarrow> timing_row list \<Rightarrow> bool" where
  "timing_state args available rows \<longleftrightarrow> length available = ta_gpus args \<and> no_overlap rows
     \<and> (\<forall>t \<in> set rows. row_consistent t \<and> tr_gpu t < ta_gpus args \<and> finish_ms t \<le> available ! tr_gpu t)"

lemma time_row_consistent:
  assumes "0 \<le> critical_path" and "0 \<le> rq_output_tokens r" and "0 \<le> decode_ms_per_token args"
  shows "row_consistent (time_row args i g free_at (critical_path, hot, r, at_s))"
    and "free_at \<le> dispatch_ms (time_row args i g free_at (critical_path, hot, r, at_s))"
    and "tr_gpu (time_row args i g free_at x) = g"
  using assms by (auto simp: row_consistent_def time_row_def Let_def split: prod.splits)

lemma earliest_gpu_ok:
  assumes "length available = gpus" and "0 < gpus"
  shows "\<exists>g < gpus. earliest_gpu available next_gpu gpus = Inr g"
proof -
  have ne: "available \<noteq> []" using assms by auto
  then have "Min (set available) \<in> set available" by simp
  then obtain i where i: "i < gpus" "available ! i = Min (set available)" using assms(1) by (metis in_set_conv_nth)
  let ?tied = "filter (\<lambda>g. py_isclose (available ! g) (Min (set available))) [0..<length available]"
  let ?order = "map (\<lambda>offset. (next_gpu + offset) mod gpus) [0..<gpus]"
  obtain k where "k < gpus" "(next_gpu + k) mod gpus = i" using cyclic_cover [OF i(1)] by blast
  then have "i \<in> set (filter (\<lambda>g. g \<in> set ?tied) ?order)" using i assms(1) by force
  then have "filter (\<lambda>g. g \<in> set ?tied) ?order \<noteq> []" by (metis empty_iff list.set(1))
  then obtain g rest where g: "filter (\<lambda>g. g \<in> set ?tied) ?order = g # rest"
    by (meson neq_Nil_conv)
  then have "g \<in> set (filter (\<lambda>g. g \<in> set ?tied) ?order)" by simp
  then have "g \<in> set ?tied" by simp
  then have "g < gpus" using assms(1) by simp
  then show ?thesis using g ne by (simp add: earliest_gpu_def Let_def)
qed

lemma online_step_ok:
  assumes st: "timing_state args available rows" and "0 < ta_gpus args" and "0 \<le> decode_ms_per_token args"
    and "\<forall>g \<in> set given. g < ta_gpus args" and "0 \<le> critical_path" "0 \<le> rq_output_tokens r"
  shows "\<exists>available' next' routing' t. online_step args given (available, next_gpu, routing, rows)
       (index, critical_path, hot, r, at_s) = Inr (available', next', routing', rows @ [t])
     \<and> timing_state args available' (rows @ [t])"
proof -
  have len: "length available = ta_gpus args" using st by (simp add: timing_state_def)
  have "\<exists>gpu next'. gpu < ta_gpus args \<and> (if index < length given then Inr (given ! index, next_gpu)
             else r_bind (earliest_gpu available next_gpu (ta_gpus args)) (\<lambda>g.
                    Inr (g, (g + 1) mod ta_gpus args))) = Inr (gpu, next')"
    using earliest_gpu_ok [OF len assms(2), of next_gpu] assms(4) by (cases "index < length given") auto
  then obtain gpu next' where gpu: "gpu < ta_gpus args" and pick: "(if index < length given then Inr (given ! index, next_gpu)
             else r_bind (earliest_gpu available next_gpu (ta_gpus args)) (\<lambda>g.
                    Inr (g, (g + 1) mod ta_gpus args))) = Inr (gpu, next')" by blast
  define t where "t = time_row args index gpu (available ! gpu) (critical_path, hot, r, at_s)"
  have t: "row_consistent t" "available ! gpu \<le> dispatch_ms t" "tr_gpu t = gpu"
    unfolding t_def using time_row_consistent [of critical_path r args] assms(3,5,6) by auto
  then have grow: "available ! gpu \<le> finish_ms t" by (auto simp: row_consistent_def)
  have "no_overlap (rows @ [t])"
    using st t by (force simp: timing_state_def no_overlap_def sorted_wrt_append)
  moreover have "finish_ms t' \<le> available[gpu := finish_ms t] ! tr_gpu t'" if "t' \<in> set (rows @ [t])" for t'
    using that st t(3) grow gpu len by (cases "tr_gpu t' = gpu") (auto simp: timing_state_def)
  ultimately have "timing_state args (available[gpu := finish_ms t]) (rows @ [t])"
    using st t gpu by (auto simp: timing_state_def)
  then show ?thesis using pick gpu len by (auto simp: online_step_def list_get_def t_def Let_def)
qed

text \<open>
  C19. Online timing is consistent. For non-negative service and decode times and routing to
  existing GPUs every row is timed: no request starts before it arrives, its time to first
  token is its queueing delay plus its service time, and on each GPU a request starts only
  after the ones routed there before it have finished decoding.
\<close>

theorem online_timing_consistent:
  assumes "0 < ta_gpus args" and "0 \<le> decode_ms_per_token args" and "\<forall>g \<in> set routing. g < ta_gpus args"
    and "\<forall>(critical_path, hot, r, at_s) \<in> set rows. 0 \<le> critical_path \<and> 0 \<le> rq_output_tokens r"
  shows "\<exists>routing' timed. apply_online_timing args routing rows = Inr (routing', timed)
     \<and> length timed = length rows \<and> no_overlap timed \<and> (\<forall>t \<in> set timed. row_consistent t)"
proof -
  have step: "\<exists>available' next' routing' timed'.
      r_foldl (online_step args routing) (available, next_gpu, routing0, timed) xs = Inr (available', next', routing', timed')
      \<and> timing_state args available' timed' \<and> length timed' = length timed + length xs"
    if "timing_state args available timed" "\<forall>(i, x) \<in> set xs. x \<in> set rows" for xs available next_gpu routing0 timed
    using that
  proof (induction xs arbitrary: available next_gpu routing0 timed)
    case (Cons y xs)
    obtain i c h r a where y: "y = (i, c, h, r, a)" by (metis prod_cases5)
    have "(c, h, r, a) \<in> set rows" using Cons.prems(2) y by auto
    then have "0 \<le> c" "0 \<le> rq_output_tokens r" using assms(4) by auto
    from online_step_ok [OF Cons.prems(1) assms(1-3) this, of next_gpu routing0 i h a] obtain av nx ro t where
      1: "online_step args routing (available, next_gpu, routing0, timed) y = Inr (av, nx, ro, timed @ [t])"
      and st: "timing_state args av (timed @ [t])" using y by auto
    from Cons.IH [OF st, of nx ro] Cons.prems(2) 1 show ?case by auto
  qed simp
  have start: "timing_state args (replicate (ta_gpus args) 0) []" by (simp add: timing_state_def no_overlap_def)
  have "\<forall>(i, x) \<in> set (zip [0..<length rows] rows). x \<in> set rows" by (auto dest: set_zip_rightD)
  from step [OF start this, of 0 routing] show ?thesis
    by (auto simp: apply_online_timing_def timing_state_def)
qed

section \<open>Concrete choices\<close>

definition demo_route :: "rat \<Rightarrow> int \<Rightarrow> route_result" where
  "demo_route c n = \<lparr> rr_critical_path_ms = c, rr_exposed_load_ms = c, routing_cached_model_bytes = Some n,
     rr_predicted_damage_ms = None, mckp_transition_weight = None \<rparr>"

definition demo_draws :: rng_draws where
  "demo_draws = \<lparr> draw_random = (\<lambda>_. 0), draw_choice = 1, draw_sample = [0] \<rparr>"

definition demo_rq :: request where
  "demo_rq = \<lparr> request_id = 0, rq_model_id = 1, rq_input_tokens = 20, rq_output_tokens = 12, trace_output_tokens = 12 \<rparr>"

theorem online_timing_consistent_witness:
  "\<exists>routing' timed. apply_online_timing
       \<lparr> ta_gpus = 1, decode_ms_per_token = 2, slo_scale = 2, warmup_requests = 0 \<rparr> []
       [(5, 3, demo_rq, 0), (4, 3, demo_rq, 1 / 1000)] = Inr (routing', timed)
     \<and> length timed = 2 \<and> no_overlap timed"
  using online_timing_consistent [of "\<lparr> ta_gpus = 1, decode_ms_per_token = 2, slo_scale = 2, warmup_requests = 0 \<rparr>" "[]"
      "[(5, 3, demo_rq, 0), (4, 3, demo_rq, 1 / 1000)]"]
  by (auto simp: demo_rq_def)

end
