(* ===== verification/Sim_Report.thy ===== *)
theory Sim_Report
  imports Backends Routing
begin

text \<open>
  Result rows of the simulator and their summary (\<open>summarize\<close>, \<open>_aegaeon_profile_row\<close> and the
  Aegaeon loop of \<open>simulate\<close> in \<open>layerweave_tensor_pipeline_sim.py\<close>). Measured wall-clock fields
  are left out, as is the timeline of an inspected request.
\<close>

section \<open>Rows\<close>

record aegaeon_row =
  ag_request :: request
  ag_gpu :: nat
  ag_hot_compute_ms :: rat
  ag_exposed_load_ms :: rat
  ag_cost :: load_cost
  ag_memory :: mem_metrics
  decode_overlap_window_ms :: rat
  prefetched_h2d_ms :: rat
  gpu_relocation_ms :: rat
  capacity_feasible :: bool
  same_model_hit :: bool

text \<open>
  The rows of one list all come from the same executor. A row of a cold run lacks the planner's
  fields, an Aegaeon row those and the ones it does not set.
\<close>

datatype sim_row = ExecRow exec_row | ProfileRow profile_row | ColdRow profile_row | AegaeonRow aegaeon_row

fun row_critical_path_ms :: "sim_row \<Rightarrow> rat" where
  "row_critical_path_ms (ExecRow r) = critical_path_ms r"
| "row_critical_path_ms (ProfileRow r) = pf_critical_path_ms r"
| "row_critical_path_ms (ColdRow r) = pf_critical_path_ms r"
| "row_critical_path_ms (AegaeonRow r) = ag_hot_compute_ms r + ag_exposed_load_ms r"

fun row_hot_compute_ms :: "sim_row \<Rightarrow> rat" where
  "row_hot_compute_ms (ExecRow r) = hot_compute_ms r"
| "row_hot_compute_ms (ProfileRow r) = pf_hot_compute_ms r"
| "row_hot_compute_ms (ColdRow r) = pf_hot_compute_ms r"
| "row_hot_compute_ms (AegaeonRow r) = ag_hot_compute_ms r"

fun row_exposed_load_ms :: "sim_row \<Rightarrow> rat" where
  "row_exposed_load_ms (ExecRow r) = exposed_load_ms r"
| "row_exposed_load_ms (ProfileRow r) = pf_exposed_load_ms r"
| "row_exposed_load_ms (ColdRow r) = pf_exposed_load_ms r"
| "row_exposed_load_ms (AegaeonRow r) = ag_exposed_load_ms r"

fun row_cost :: "sim_row \<Rightarrow> load_cost" where
  "row_cost (ExecRow r) = er_total r"
| "row_cost (ProfileRow r) = pf_total r"
| "row_cost (ColdRow r) = (pf_total r)\<lparr> mckp_required_free_bytes := 0, mckp_planned_free_bytes := 0,
     mckp_predicted_damage_ms := 0, mckp_frontier_peak_states := 0, mckp_evicted_groups := 0, mckp_evicted_models := 0 \<rparr>"
| "row_cost (AegaeonRow r) = ag_cost r"

fun row_memory :: "sim_row \<Rightarrow> mem_metrics" where
  "row_memory (ExecRow r) = er_memory r"
| "row_memory (ProfileRow r) = pf_memory r"
| "row_memory (ColdRow r) = pf_memory r"
| "row_memory (AegaeonRow r) = ag_memory r"

fun row_profile :: "sim_row \<Rightarrow> profile_row result" where
  "row_profile (ProfileRow r) = Inr r"
| "row_profile (ColdRow r) = Inr r"
| "row_profile _ = Inl KeyError"

text \<open>\<open>row.get("mckp_predicted_damage_ms")\<close>: the field of the planner, absent in some rows.\<close>

fun row_damage :: "sim_row \<Rightarrow> rat option" where
  "row_damage (ExecRow r) = Some (mckp_predicted_damage_ms (er_total r))"
| "row_damage (ProfileRow r) = Some (mckp_predicted_damage_ms (pf_total r))"
| "row_damage _ = None"

section \<open>Summary\<close>

definition time_fields :: "(string \<times> (sim_row \<Rightarrow> rat)) list" where
  "time_fields =
     [(''critical_path_ms'', row_critical_path_ms), (''hot_compute_ms'', row_hot_compute_ms),
      (''exposed_load_ms'', row_exposed_load_ms), (''h2d_ms'', \<lambda>r. h2d_ms (row_cost r)),
      (''allocation_ms'', \<lambda>r. allocation_ms (row_cost r)), (''map_ms'', \<lambda>r. map_ms (row_cost r)),
      (''unmap_ms'', \<lambda>r. unmap_ms (row_cost r)), (''compaction_ms'', \<lambda>r. compaction_ms (row_cost r))]"

definition exposed_fields :: "(string \<times> (profile_row \<Rightarrow> rat result)) list" where
  "exposed_fields =
     [(''exposed_h2d_ms'', \<lambda>r. Inr (exposed_h2d_ms r)), (''exposed_allocation_ms'', \<lambda>r. Inr (exposed_allocation_ms r)),
      (''exposed_compaction_ms'', \<lambda>r. Inr (exposed_compaction_ms r)), (''exposed_page_map_ms'', \<lambda>r. Inr (exposed_page_map_ms r)),
      (''exposed_page_unmap_ms'', \<lambda>r. Inr (exposed_page_unmap_ms r)),
      (''exposed_page_map_unmap_ms'', \<lambda>r. Inr (exposed_page_map_ms r + exposed_page_unmap_ms r))]"

definition profiled_fields :: "(string \<times> (profile_row \<Rightarrow> rat result)) list" where
  "profiled_fields =
     [(''profile_exposed_load_ms'', \<lambda>r. case profile_exposed_load_ms r of None \<Rightarrow> Inl KeyError | Some x \<Rightarrow> Inr x),
      (''pbp_relocation_ms'', \<lambda>r. Inr (compaction_ms (pf_total r))), (''vmm_ms'', \<lambda>r. Inr (pf_vmm_ms r))]"

definition total_fields :: "(string \<times> (load_cost \<Rightarrow> int)) list" where
  "total_fields =
     [(''h2d_bytes'', h2d_bytes), (''compaction_moved_bytes'', compaction_moved_bytes),
      (''evicted_objects'', evicted_objects), (''evicted_bytes'', evicted_bytes), (''map_calls'', map_calls),
      (''unmap_calls'', unmap_calls), (''mapped_pages'', mapped_pages), (''unmapped_pages'', unmapped_pages),
      (''mckp_required_free_bytes'', mckp_required_free_bytes), (''mckp_planned_free_bytes'', mckp_planned_free_bytes),
      (''mckp_overrelease_bytes'', \<lambda>c. max 0 (mckp_planned_free_bytes c - mckp_required_free_bytes c)),
      (''mckp_frontier_peak_states'', mckp_frontier_peak_states), (''mckp_evicted_groups'', mckp_evicted_groups),
      (''mckp_evicted_models'', mckp_evicted_models), (''model_reload_events'', model_reload_events),
      (''naive_relocation_bytes'', naive_relocation_bytes)]"

definition memory_fields :: "(string \<times> (mem_metrics \<Rightarrow> rat)) list" where
  "memory_fields =
     [(''memory_logical_resident_bytes'', \<lambda>m. of_int (logical_resident_bytes m)),
      (''memory_physical_resident_bytes'', \<lambda>m. of_int (physical_resident_bytes m)),
      (''memory_internal_fragmentation_bytes'', \<lambda>m. of_int (internal_fragmentation_bytes m)),
      (''memory_external_fragmentation_ratio'', external_fragmentation_ratio),
      (''memory_largest_free_extent_bytes'', \<lambda>m. of_int (largest_free_extent_bytes m)),
      (''memory_stranded_resident_bytes'', \<lambda>m. of_int (stranded_resident_bytes m)),
      (''memory_kv_resident_bytes'', \<lambda>m. case kv_resident_bytes m of None \<Rightarrow> 0 | Some n \<Rightarrow> of_int n)]"

record sim_summary =
  ss_requests :: nat
  ss_stats :: "(string \<times> stat_summary) list"
  ss_totals :: "(string \<times> int) list"

definition field_stats :: "('r \<Rightarrow> rat result) \<Rightarrow> 'r list \<Rightarrow> stat_summary result" where
  "field_stats f rows = r_bind (r_map f rows) summary"

definition summarize :: "sim_row list \<Rightarrow> sim_summary result" where
  "summarize rows =
     (let profiled = (case rows of [] \<Rightarrow> None | r # _ \<Rightarrow> (case row_profile r of Inl _ \<Rightarrow> None | Inr p \<Rightarrow> Some p));
          fields = map (\<lambda>(name, f). (name, \<lambda>r. Inr (f r))) time_fields
            @ (case profiled of None \<Rightarrow> [] | Some p \<Rightarrow>
                 map (\<lambda>(name, f). (name, \<lambda>r. r_bind (row_profile r) f))
                   (exposed_fields @ (if profile_exposed_load_ms p = None then [] else profiled_fields)))
            @ [(''mckp_predicted_damage_ms'', \<lambda>r. Inr (case row_damage r of None \<Rightarrow> 0 | Some d \<Rightarrow> d))]
            @ map (\<lambda>(name, f). (name, \<lambda>r. Inr (f (row_memory r)))) memory_fields in
      r_bind (r_map (\<lambda>(name, f). r_bind (field_stats f rows) (\<lambda>s. Inr (name, s))) fields) (\<lambda>stats.
        Inr \<lparr> ss_requests = length rows, ss_stats = stats,
              ss_totals = map (\<lambda>(name, f). (name, sum_list (map (\<lambda>r. f (row_cost r)) rows))) total_fields \<rparr>))"

section \<open>Aegaeon\<close>

record aegaeon_args = backend_args +
  ag_decode_ms_per_token :: rat

text \<open>
  The overlap both Aegaeon variants share: how much of the transfer the decode of the previous
  request hides when both models fit, and the copy that moves the prefetched weights in place.
\<close>

definition aegaeon_overlap ::
  "'x aegaeon_args_scheme \<Rightarrow> request option \<Rightarrow> request \<Rightarrow> int \<Rightarrow> rat \<Rightarrow> int \<Rightarrow> int \<Rightarrow> int \<Rightarrow> rat \<Rightarrow>
   (rat \<times> rat \<times> rat \<times> bool \<times> bool) result" where
  "aegaeon_overlap args previous r decode_tokens h2d footprint previous_footprint previous_kv copy_rate =
     (let same = (case previous of None \<Rightarrow> False | Some p \<Rightarrow> rq_model_id p = rq_model_id r);
          window = (if previous \<noteq> None \<and> \<not> same then of_int decode_tokens * ag_decode_ms_per_token args else 0);
          feasible = (previous \<noteq> None \<and> previous_footprint + previous_kv + footprint \<le> pool_bytes args);
          hidden = (if feasible \<and> \<not> same then min h2d window else 0) in
      r_bind (if feasible \<and> \<not> same then py_div (of_int footprint) copy_rate else Inr 0) (\<lambda>relocation.
        Inr (window, hidden, relocation, feasible, same)))"

definition aegaeon_profile_row ::
  "request \<Rightarrow> nat \<Rightarrow> request option \<Rightarrow> tensor_model \<Rightarrow> (int \<times> tensor_model) list \<Rightarrow> stall_table \<Rightarrow>
   'x aegaeon_args_scheme \<Rightarrow> aegaeon_row result" where
  "aegaeon_profile_row r gpu previous model models table args =
     r_bind (baseline_ms table (rq_model_id r) (rq_input_tokens r)) (\<lambda>hot.
     let footprint = tm_bytes model in
     r_bind (py_div (of_int footprint) (h2d_bytes_per_ms args)) (\<lambda>h2d.
     r_bind (case previous of None \<Rightarrow> Inr (0, 0)
             | Some p \<Rightarrow> r_bind (dict_get models (rq_model_id p)) (\<lambda>pm.
                 r_bind (request_kv_bytes p args) (\<lambda>kv. Inr (tm_bytes pm, kv)))) (\<lambda>(previous_footprint, previous_kv).
     r_bind (aegaeon_overlap args previous r (case previous of None \<Rightarrow> 0 | Some p \<Rightarrow> trace_output_tokens p) h2d footprint
               previous_footprint previous_kv (gpu_copy_bytes_per_ms args)) (\<lambda>(window, hidden, relocation, feasible, same).
     r_bind (request_kv_bytes r args) (\<lambda>kv.
       let allocation = (if same then 0 else segment_allocation_ms args) in
       Inr \<lparr> ag_request = r, ag_gpu = gpu, ag_hot_compute_ms = hot,
             ag_exposed_load_ms = (if same then 0 else h2d - hidden + relocation + allocation),
             ag_cost = no_cost\<lparr> h2d_ms := if same then 0 else h2d, h2d_bytes := if same then 0 else footprint,
                                allocation_ms := allocation \<rparr>,
             ag_memory = \<lparr> logical_resident_bytes = footprint, physical_resident_bytes = footprint,
               internal_fragmentation_bytes = 0, external_fragmentation_ratio = 0,
               largest_free_extent_bytes = max 0 (pool_bytes args - footprint), stranded_resident_bytes = 0,
               kv_resident_bytes = Some kv \<rparr>,
             decode_overlap_window_ms = window, prefetched_h2d_ms = hidden, gpu_relocation_ms = relocation,
             capacity_feasible = feasible, same_model_hit = same \<rparr>)))))"

text \<open>The mapping work of the estimator-driven variant: \<open>(allocation, mapping, calls, pages)\<close>.\<close>

definition aegaeon_mapping ::
  "'x aegaeon_args_scheme \<Rightarrow> tensor_model \<Rightarrow> int \<Rightarrow> bool \<Rightarrow> (rat \<times> rat \<times> int \<times> int) result" where
  "aegaeon_mapping args model footprint same =
     (if page_size_bytes args = 0 then Inl ZeroDivisionError
      else let pages = ceil_div footprint (page_size_bytes args);
          mapped = (\<lambda>calls. let c = (if same then 0 else calls); p = (if same then 0 else pages) in
             (0, of_int c * map_fixed_ms args + of_int p * map_per_page_ms args, c, p)) in
        Inr (case memory_layout args of
               Segment \<Rightarrow> (if same then 0 else segment_allocation_ms args, 0, 0, 0)
             | LegacySegment \<Rightarrow> (if same then 0 else segment_allocation_ms args, 0, 0, 0)
             | TensorPage \<Rightarrow> mapped (int (length (groups model)))
             | CompactPage \<Rightarrow> mapped 1))"

definition aegaeon_request ::
  "(int \<times> tensor_model) list \<Rightarrow> estimator \<Rightarrow> 'x aegaeon_args_scheme \<Rightarrow> (nat \<times> request) list \<times> aegaeon_row list \<Rightarrow>
   request \<times> nat \<Rightarrow> ((nat \<times> request) list \<times> aegaeon_row list) result" where
  "aegaeon_request models est args = (\<lambda>(previous_by_gpu, rows) (r, gpu).
     r_bind (dict_get models (rq_model_id r)) (\<lambda>model.
     r_bind (compute_durations est r model) (\<lambda>durations.
     let hot = sum_list (map snd durations) in
     r_bind (make_backend models args None) (\<lambda>probe.
     r_bind (op_physical_bytes any_ops probe (rq_model_id r)) (\<lambda>footprint.
     r_bind (py_div (of_int (tm_bytes model)) (h2d_bytes_per_ms args)) (\<lambda>h2d.
     let previous = map_of previous_by_gpu gpu in
     r_bind (case previous of None \<Rightarrow> Inr (0, 0)
             | Some p \<Rightarrow> r_bind (op_physical_bytes any_ops probe (rq_model_id p)) (\<lambda>pf.
                 r_bind (request_kv_bytes p args) (\<lambda>kv. Inr (pf, kv)))) (\<lambda>(previous_footprint, previous_kv).
     r_bind (aegaeon_overlap args previous r (case previous of None \<Rightarrow> 0 | Some p \<Rightarrow> rq_output_tokens p) h2d footprint
               previous_footprint previous_kv (gpu_copy_bytes_per_ms args)) (\<lambda>(window, hidden, relocation, feasible, same).
     r_bind (aegaeon_mapping args model footprint same) (\<lambda>(allocation, mapping, calls, pages).
       Inr (AList.update gpu r previous_by_gpu, rows @ [
         \<lparr> ag_request = r, ag_gpu = gpu, ag_hot_compute_ms = hot,
           ag_exposed_load_ms = (if same then 0 else h2d - hidden + relocation + allocation + mapping),
           ag_cost = no_cost\<lparr> h2d_ms := if same then 0 else h2d, h2d_bytes := if same then 0 else tm_bytes model,
                              allocation_ms := allocation, map_ms := mapping, map_calls := calls, mapped_pages := pages \<rparr>,
           ag_memory = \<lparr> logical_resident_bytes = tm_bytes model, physical_resident_bytes = footprint,
             internal_fragmentation_bytes = max 0 (footprint - tm_bytes model), external_fragmentation_ratio = 0,
             largest_free_extent_bytes = max 0 (pool_bytes args - footprint), stranded_resident_bytes = 0,
             kv_resident_bytes = None \<rparr>,
           decode_overlap_window_ms = window, prefetched_h2d_ms = hidden, gpu_relocation_ms = relocation,
           capacity_feasible = feasible, same_model_hit = same \<rparr>]))))))))))"

definition aegaeon_rows ::
  "(int \<times> tensor_model) list \<Rightarrow> estimator \<Rightarrow> 'x aegaeon_args_scheme \<Rightarrow> (request \<times> nat) list \<Rightarrow> aegaeon_row list result" where
  "aegaeon_rows models est args routed =
     r_bind (r_foldl (aegaeon_request models est args) ([], []) routed) (\<lambda>(_, rows). Inr rows)"

end
