(* ===== verification/Pipeline_Benefits.thy ===== *)
theory Pipeline_Benefits
  imports Execution
begin

text \<open>
  The marginal value of a storage unit (\<open>build_pipeline_benefits\<close> of
  \<open>layerweave_tensor_pipeline_sim.py\<close>): per model some representative requests are replayed with
  every group to be loaded, and the stall a group exposes, summarized over the requests, is
  credited to its storage unit, or spread over its pages when the layout is compact.
\<close>

section \<open>Definitions\<close>

text \<open>Python's \<open>round\<close>: to the nearest integer, ties to the even one.\<close>

definition py_round :: "rat \<Rightarrow> int" where
  "py_round x = (let n = floor x; d = x - of_int n in
     if d < 1 / 2 then n else if 1 / 2 < d then n + 1 else if even n then n else n + 1)"

definition quantile_indexes :: "nat \<Rightarrow> int list" where
  "quantile_indexes n = sort (remdups (map (\<lambda>fraction. py_round (fraction * of_int (int n - 1))) [0, 1 / 4, 1 / 2, 3 / 4, 1]))"

definition profile_requests ::
  "'x sim_args_scheme \<Rightarrow> int \<Rightarrow> request list \<Rightarrow> (int \<times> request) list option \<Rightarrow> request list" where
  "profile_requests args model_id requests representatives =
     (let ordered = sort_key rq_input_tokens (filter (\<lambda>r. rq_model_id r = model_id) requests) in
      case (case representatives of None \<Rightarrow> None | Some reps \<Rightarrow> map_of reps model_id) of
        Some representative \<Rightarrow> [representative]
      | None \<Rightarrow>
          if protected_policy (replacement_policy args) \<and> ordered \<noteq> []
          then map (\<lambda>i. ordered ! nat i) (quantile_indexes (length ordered))
          else if ordered \<noteq> [] then [ordered ! (length ordered div 2)]
          else [\<lparr> request_id = 0, rq_model_id = model_id, rq_input_tokens = 1, rq_output_tokens = 1, trace_output_tokens = 1 \<rparr>])"

definition first_page :: "'x sim_args_scheme \<Rightarrow> tensor_group \<Rightarrow> int" where
  "first_page args g = tg_offset g div page_size_bytes args"

definition last_page :: "'x sim_args_scheme \<Rightarrow> tensor_group \<Rightarrow> int" where
  "last_page args g = (tg_offset g + tg_bytes g - 1) div page_size_bytes args"

definition group_load_ms :: "'x sim_args_scheme \<Rightarrow> tensor_group \<Rightarrow> rat result" where
  "group_load_ms args g =
     r_bind (py_div (of_int (tg_bytes g)) (h2d_bytes_per_ms args)) (\<lambda>load.
       case memory_layout args of
         Segment \<Rightarrow> Inr (load + segment_allocation_ms args)
       | LegacySegment \<Rightarrow> Inr (load + segment_allocation_ms args)
       | TensorPage \<Rightarrow>
           if page_size_bytes args = 0 then Inl ZeroDivisionError
           else Inr (load + of_int (ceil_div (tg_bytes g) (page_size_bytes args)) * (map_fixed_ms args + map_per_page_ms args))
       | CompactPage \<Rightarrow>
           if page_size_bytes args = 0 then Inl ZeroDivisionError
           else Inr (load + of_int (last_page args g - first_page args g + 1) * (map_fixed_ms args + map_per_page_ms args)))"

definition group_samples ::
  "estimator \<Rightarrow> tensor_model \<Rightarrow> (nat \<times> rat) list \<Rightarrow> request list \<Rightarrow> (nat \<times> rat list) list result" where
  "group_samples est model loads rs =
     r_foldl (\<lambda>samples r.
       r_bind (compute_durations est r model) (\<lambda>durations.
       r_bind (pipeline_group_stalls model durations loads) (\<lambda>stalls.
         r_foldl (\<lambda>samples (g, stall). r_bind (dict_get samples g) (\<lambda>vs.
           Inr (AList.update g (vs @ [stall]) samples))) samples stalls)))
       (dict_of (map (\<lambda>g. (group_id g, [])) (groups model))) rs"

text \<open>The statistic over the samples; indexing an empty list raises.\<close>

definition robust_marginal :: "'x sim_args_scheme \<Rightarrow> rat list \<Rightarrow> rat result" where
  "robust_marginal args vs =
     (let values = sort vs in
      if values = [] then
        Inl (if protected_policy (replacement_policy args) \<and> pipeline_robust_stat args = RobustMean
             then ValueError ''mean requires at least one data point'' else IndexError ''list index out of range'')
      else if protected_policy (replacement_policy args) then
        case pipeline_robust_stat args of
          RobustMax \<Rightarrow> Inr (last values)
        | RobustMean \<Rightarrow> Inr (sum_list values / of_nat (length values))
        | RobustP90 \<Rightarrow> Inr (values ! nat (ceiling (9 / 10 * of_nat (length values) :: rat) - 1))
      else Inr (hd values))"

definition model_marginals ::
  "estimator \<Rightarrow> request list \<Rightarrow> 'x sim_args_scheme \<Rightarrow> (int \<times> request) list option \<Rightarrow> int \<Rightarrow> tensor_model \<Rightarrow>
   (tensor_group \<times> rat) list result" where
  "model_marginals est requests args representatives model_id model =
     r_bind (r_map (\<lambda>g. r_bind (group_load_ms args g) (\<lambda>load. Inr (group_id g, load))) (groups model)) (\<lambda>loads.
     r_bind (group_samples est model (dict_of loads) (profile_requests args model_id requests representatives)) (\<lambda>samples.
       r_map (\<lambda>g. r_bind (dict_get samples (group_id g)) (\<lambda>vs.
         r_bind (robust_marginal args vs) (\<lambda>marginal. Inr (g, marginal)))) (groups model)))"

definition add_benefit :: "mem_key \<Rightarrow> rat \<Rightarrow> (mem_key \<times> rat) list \<Rightarrow> (mem_key \<times> rat) list" where
  "add_benefit key contribution benefits =
     AList.update key (get_default (map_of benefits) key 0 + contribution) benefits"

definition store_benefit ::
  "'x sim_args_scheme \<Rightarrow> int \<Rightarrow> (mem_key \<times> rat) list \<Rightarrow> tensor_group \<times> rat \<Rightarrow> (mem_key \<times> rat) list" where
  "store_benefit args model_id benefits = (\<lambda>(g, marginal).
     if memory_layout args \<noteq> CompactPage then AList.update (model_id, group_id g) marginal benefits
     else
       let first = first_page args g; last = last_page args g; pages = max 1 (last - first + 1);
           contribution = marginal / of_int pages in
       foldl (\<lambda>bs page. add_benefit (model_id, nat page) contribution bs) benefits [first..last])"

definition build_pipeline_benefits ::
  "(int \<times> tensor_model) list \<Rightarrow> estimator \<Rightarrow> request list \<Rightarrow> 'x sim_args_scheme \<Rightarrow> (int \<times> request) list option \<Rightarrow>
   (mem_key \<times> rat) list result" where
  "build_pipeline_benefits models est requests args representatives =
     r_foldl (\<lambda>benefits (model_id, model).
       r_bind (model_marginals est requests args representatives model_id model) (\<lambda>marginals.
         Inr (foldl (store_benefit args model_id) benefits marginals))) [] models"

section \<open>Conservation\<close>

lemma profile_requests_nonempty: "profile_requests args m requests reps \<noteq> []"
proof -
  have "quantile_indexes n \<noteq> []" for n
  proof -
    have "set (quantile_indexes n) \<noteq> {}" by (simp add: quantile_indexes_def)
    then show ?thesis by auto
  qed
  then show ?thesis by (auto simp: profile_requests_def Let_def split: option.splits)
qed

definition nonneg_values :: "('k \<times> rat) list \<Rightarrow> bool" where
  "nonneg_values d \<longleftrightarrow> (\<forall>k v. map_of d k = Some v \<longrightarrow> 0 \<le> v)"

lemma update_keys: "fst ` set (AList.update k v d) = insert k (fst ` set d)"
  by (simp add: update_conv' dom_map_of_conv_image_fst [symmetric])

lemma group_ids_wf:
  assumes "model_wf model"
  shows "group_id ` set (groups model) = {..<length (groups model)}"
proof (intro set_eqI iffI)
  fix i assume "i \<in> group_id ` set (groups model)"
  then obtain j where "j < length (groups model)" "i = group_id (groups model ! j)" by (auto simp: in_set_conv_nth)
  then show "i \<in> {..<length (groups model)}" using assms by (simp add: model_wf_def)
next
  fix i assume "i \<in> {..<length (groups model)}"
  then have "groups model ! i \<in> set (groups model)" "group_id (groups model ! i) = i" using assms by (simp_all add: model_wf_def)
  then show "i \<in> group_id ` set (groups model)" by force
qed

lemma nonneg_update: "nonneg_values d \<Longrightarrow> 0 \<le> v \<Longrightarrow> nonneg_values (AList.update k v d)"
  by (auto simp: nonneg_values_def update_conv' split: if_splits)

lemma pipeline_group_stalls_ok:
  assumes wf: "model_wf model" and dur: "\<forall>t \<in> set (tensors model). \<exists>v. map_of durations (tensor_id t) = Some v"
    and loads: "\<forall>g < length (groups model). \<exists>v. map_of loads g = Some v"
  shows "\<exists>stalls. pipeline_group_stalls model durations loads = Inr stalls \<and> nonneg_values stalls
     \<and> fst ` set stalls = {..<length (groups model)} \<and> distinct (map fst stalls)"
proof -
  let ?n = "length (groups model)"
  define P where "P = (\<lambda>(is_first :: bool, s :: pipe_clock, loaded :: nat list, stalls :: (nat \<times> rat) list).
    nonneg_values stalls \<and> fst ` set stalls = {..<?n} \<and> distinct (map fst stalls))"
  define init where "init = dict_of (map (\<lambda>g. (group_id g, 0 :: rat)) (groups model))"
  note ids = group_ids_wf [OF wf]
  have "nonneg_values init"
    unfolding nonneg_values_def
  proof (intro allI impI)
    fix k v assume "map_of init k = Some v"
    from dict_of_values [OF this [unfolded init_def]] show "0 \<le> v" by auto
  qed
  then have P0: "P (True, s, [], init)" for s
    using ids by (simp add: P_def init_def dict_of_keys dict_of_distinct_keys image_image)
  have step: "\<exists>b. stall_step model durations loads a t = Inr b \<and> P b" if a: "P a" and t: "t \<in> set (tensors model)" for a t
  proof -
    obtain f s loaded stalls where a_eq: "a = (f, s, loaded, stalls)" by (cases a)
    obtain g where g: "map_of (tensor_to_group model) (tensor_id t) = Some g" "g < ?n"
      using wf t by (auto simp: model_wf_def)
    obtain l where l: "map_of loads g = Some l" using loads g(2) by blast
    obtain d where d: "map_of durations (tensor_id t) = Some d" using dur t by blast
    define load where "load = (if g \<in> set loaded then 0 else l)"
    have load: "(if g \<in> set loaded then Inr 0 else dict_get loads g) = (Inr load :: rat result)"
      using l by (simp add: load_def)
    define stalls' where "stalls' = (if load \<noteq> 0 then AList.update g (ready_stall_ms (pipe_event_of f load s)) stalls else stalls)"
    have "stall_step model durations loads a t = Inr (False, pipe_step f load d s, List.insert g loaded, stalls')"
      using g(1) d load by (simp add: stall_step_def a_eq stalls'_def)
    moreover have "0 \<le> ready_stall_ms (pipe_event_of f load s)" by (simp add: pipe_event_of_def Let_def)
    then have "P (False, pipe_step f load d s, List.insert g loaded, stalls')"
      using a g(2) by (auto simp: P_def a_eq stalls'_def nonneg_update update_keys distinct_update)
    ultimately show ?thesis by blast
  qed
  have "\<exists>r. r_foldl (stall_step model durations loads)
      (True, \<lparr> copy_end = 0, compute_end = 0, previous_compute_start = 0 \<rparr>, [], init) (tensors model) = Inr r \<and> P r"
    by (rule r_foldl_total [OF P0 step])
  then obtain r where r: "r_foldl (stall_step model durations loads)
      (True, \<lparr> copy_end = 0, compute_end = 0, previous_compute_start = 0 \<rparr>, [], init) (tensors model) = Inr r" "P r"
    by blast
  then show ?thesis by (cases r) (auto simp: pipeline_group_stalls_def init_def P_def)
qed

lemma group_samples_ok:
  assumes wf: "model_wf model" and bytes: "\<forall>t \<in> set (tensors model). 0 \<le> ts_bytes t"
    and est: "\<forall>r \<in> set rs. rq_model_id r \<in> fst ` set (es_models est)"
    and loads: "\<forall>g < length (groups model). \<exists>v. map_of loads g = Some v"
  shows "\<exists>samples. group_samples est model loads rs = Inr samples
     \<and> (\<forall>g < length (groups model). \<exists>vs. map_of samples g = Some vs \<and> length vs = length rs \<and> (\<forall>v \<in> set vs. 0 \<le> v))"
proof -
  let ?n = "length (groups model)"
  define S where "S = (\<lambda>k samples. \<forall>g < ?n. \<exists>vs. map_of samples g = Some vs \<and> length vs = k \<and> (\<forall>v \<in> set vs. 0 \<le> (v :: rat)))"
  define add where "add = (\<lambda>samples (g :: nat, stall :: rat). r_bind (dict_get samples g) (\<lambda>vs.
    Inr (AList.update g (vs @ [stall]) samples) :: (nat \<times> rat list) list result))"
  have adds: "\<exists>samples'. r_foldl add samples stalls = Inr samples'
      \<and> (\<forall>g. map_of samples' g = (case map_of stalls g of None \<Rightarrow> map_of samples g
             | Some v \<Rightarrow> map_option (\<lambda>vs. vs @ [v]) (map_of samples g)))"
    if "distinct (map fst stalls)" "fst ` set stalls \<subseteq> fst ` set samples" for stalls samples
    using that
  proof (induction stalls arbitrary: samples)
    case (Cons x stalls)
    obtain g v where x: "x = (g, v)" by (cases x)
    obtain vs where vs: "map_of samples g = Some vs" using Cons.prems(2) map_of_mem [of g samples] x by auto
    have "\<exists>samples'. r_foldl add (AList.update g (vs @ [v]) samples) stalls = Inr samples'
      \<and> (\<forall>k. map_of samples' k = (case map_of stalls k of None \<Rightarrow> map_of (AList.update g (vs @ [v]) samples) k
             | Some v' \<Rightarrow> map_option (\<lambda>vs. vs @ [v']) (map_of (AList.update g (vs @ [v]) samples) k)))"
      using Cons.prems x by (intro Cons.IH) (auto simp: update_keys)
    then obtain samples' where s': "r_foldl add (AList.update g (vs @ [v]) samples) stalls = Inr samples'"
      "\<And>k. map_of samples' k = (case map_of stalls k of None \<Rightarrow> map_of (AList.update g (vs @ [v]) samples) k
             | Some v' \<Rightarrow> map_option (\<lambda>vs. vs @ [v']) (map_of (AList.update g (vs @ [v]) samples) k))" by blast
    have none: "map_of stalls g = None" using Cons.prems(1) x by (simp add: map_of_eq_None_iff)
    have "map_of samples' k = (case map_of (x # stalls) k of None \<Rightarrow> map_of samples k
             | Some v \<Rightarrow> map_option (\<lambda>vs. vs @ [v]) (map_of samples k))" for k
      using s'(2) [of k] none vs x by (cases "k = g") (simp_all add: update_conv' split: option.split)
    moreover have "r_foldl add samples (x # stalls) = Inr samples'" using s'(1) vs x by (simp add: add_def)
    ultimately show ?case by blast
  qed simp
  have S0: "S 0 (dict_of (map (\<lambda>g. (group_id g, [])) (groups model)))"
    unfolding S_def
  proof (intro allI impI)
    fix g assume "g < ?n"
    then have "g \<in> fst ` set (map (\<lambda>g. (group_id g, [] :: rat list)) (groups model))"
      using group_ids_wf [OF wf] by (simp add: image_image)
    from dict_of_total [OF this] obtain vs where vs: "map_of (dict_of (map (\<lambda>g. (group_id g, [] :: rat list)) (groups model))) g = Some vs" by blast
    with dict_of_values [OF vs] show "\<exists>vs. map_of (dict_of (map (\<lambda>g. (group_id g, [])) (groups model))) g = Some vs
        \<and> length vs = 0 \<and> (\<forall>v \<in> set vs. 0 \<le> (v :: rat))" by auto
  qed
  have "\<exists>samples. r_foldl (\<lambda>samples r.
       r_bind (compute_durations est r model) (\<lambda>durations.
       r_bind (pipeline_group_stalls model durations loads) (\<lambda>stalls. r_foldl add samples stalls))) samples0 rs = Inr samples
     \<and> S (k + length rs) samples" if "S k samples0" for k samples0
    using that est
  proof (induction rs arbitrary: k samples0)
    case (Cons r rs)
    obtain d where d: "compute_durations est r model = Inr d" "durations_ok (tensors model) d"
      using compute_durations_ok [of r est model] Cons.prems(2) bytes by auto
    have "\<forall>t \<in> set (tensors model). \<exists>v. map_of d (tensor_id t) = Some v" using d(2) by (auto simp: durations_ok_def)
    from pipeline_group_stalls_ok [OF wf this loads] obtain stalls where
      st: "pipeline_group_stalls model d loads = Inr stalls" "nonneg_values stalls" "fst ` set stalls = {..<?n}" "distinct (map fst stalls)"
      by blast
    have "fst ` set stalls \<subseteq> fst ` set samples0"
    proof
      fix g assume "g \<in> fst ` set stalls"
      then obtain vs where "map_of samples0 g = Some vs" using Cons.prems(1) st(3) by (auto simp: S_def)
      then show "g \<in> fst ` set samples0" by (metis map_of_SomeD fst_conv image_eqI)
    qed
    from adds [OF st(4) this] obtain samples1 where
      s1: "r_foldl add samples0 stalls = Inr samples1"
        "\<forall>g. map_of samples1 g = (case map_of stalls g of None \<Rightarrow> map_of samples0 g
             | Some v \<Rightarrow> map_option (\<lambda>vs. vs @ [v]) (map_of samples0 g))" by blast
    have "S (Suc k) samples1"
      unfolding S_def
    proof (intro allI impI)
      fix g assume g: "g < ?n"
      then obtain v where "map_of stalls g = Some v" "0 \<le> v"
        using st(2,3) map_of_mem [of g stalls] by (auto simp: nonneg_values_def)
      moreover obtain vs where "map_of samples0 g = Some vs" "length vs = k" "\<forall>v \<in> set vs. 0 \<le> v"
        using Cons.prems(1) g by (auto simp: S_def)
      ultimately show "\<exists>vs. map_of samples1 g = Some vs \<and> length vs = Suc k \<and> (\<forall>v \<in> set vs. 0 \<le> v)"
        using s1(2) by auto
    qed
    from Cons.IH [OF this] Cons.prems(2) show ?case using d(1) st(1) s1(1) by simp
  qed simp
  from this [OF S0] show ?thesis unfolding group_samples_def add_def S_def by simp
qed

lemma robust_marginal_ok:
  assumes "vs \<noteq> []" and "\<forall>v \<in> set vs. 0 \<le> v"
  shows "\<exists>x. robust_marginal args vs = Inr x \<and> 0 \<le> x"
proof -
  let ?s = "sort vs"
  have ne: "?s \<noteq> []" "0 < length ?s" using assms(1) by (auto simp: length_greater_0_conv [symmetric] simp del: length_greater_0_conv)
  have nn: "\<forall>v \<in> set ?s. 0 \<le> v" using assms(2) by simp
  have p90: "nat (ceiling (9 / 10 * of_nat (length ?s) :: rat) - 1) < length ?s"
  proof -
    have "9 / 10 * of_nat (length ?s) \<le> (of_int (int (length ?s)) :: rat)" by simp
    then have "ceiling (9 / 10 * of_nat (length ?s) :: rat) \<le> int (length ?s)" by (simp only: ceiling_le_iff)
    then show ?thesis using ne(2) by linarith
  qed
  have "0 \<le> hd ?s" "0 \<le> last ?s" "0 \<le> sum_list ?s / of_nat (length ?s)"
      "0 \<le> ?s ! nat (ceiling (9 / 10 * of_nat (length ?s) :: rat) - 1)"
    using nn hd_in_set [OF ne(1)] last_in_set [OF ne(1)] nth_mem [OF p90] sum_list_nonneg [of ?s] by simp_all
  then show ?thesis using ne(1) by (simp add: robust_marginal_def Let_def split: robust_stat.split)
qed

lemma quantile_index_range:
  assumes "0 < n" and "i \<in> set (quantile_indexes n)"
  shows "0 \<le> i \<and> i < int n"
proof -
  have round: "0 \<le> py_round x \<and> py_round x \<le> k" if "0 \<le> x" "x \<le> of_int k" for x k
  proof -
    have "0 \<le> floor x" using that(1) by simp
    moreover have "floor x \<le> k" using that(2) by (simp add: floor_le_iff)
    moreover have "floor x + 1 \<le> k" if "x \<noteq> of_int (floor x)"
    proof -
      have "of_int (floor x) < x" using that of_int_floor_le [of x] by linarith
      then have "of_int (floor x) < (of_int k :: rat)" using \<open>x \<le> of_int k\<close> by linarith
      then show ?thesis by simp
    qed
    moreover have "x \<noteq> of_int (floor x)" if "1 / 2 \<le> x - of_int (floor x)" using that by auto
    ultimately show ?thesis by (auto simp: py_round_def Let_def not_less)
  qed
  obtain f where f: "f \<in> {0, 1 / 4, 1 / 2, 3 / 4, 1 :: rat}" "i = py_round (f * of_int (int n - 1))"
  proof -
    have "set (quantile_indexes n) = (\<lambda>f. py_round (f * of_int (int n - 1))) ` {0, 1 / 4, 1 / 2, 3 / 4, 1}"
      unfolding quantile_indexes_def set_sort set_remdups set_map by simp
    then show thesis using that assms(2) by blast
  qed
  then have "0 \<le> f" "f \<le> 1" by auto
  moreover have "0 \<le> (of_int (int n - 1) :: rat)" using assms(1) by simp
  ultimately have "0 \<le> f * of_int (int n - 1)" "f * of_int (int n - 1) \<le> of_int (int n - 1)"
    by (simp, metis mult_right_mono mult_1)
  from round [OF this] show ?thesis using f(2) by simp
qed

lemma model_marginals_ok:
  assumes wf: "model_wf model" and bytes: "\<forall>t \<in> set (tensors model). 0 \<le> ts_bytes t"
    and est: "m \<in> fst ` set (es_models est)"
    and reps: "\<forall>(k, r) \<in> set (case reps of None \<Rightarrow> [] | Some rs \<Rightarrow> rs). rq_model_id r = k"
    and args: "h2d_bytes_per_ms args \<noteq> 0" "page_size_bytes args \<noteq> 0"
  shows "\<exists>ms. model_marginals est requests args reps m model = Inr ms \<and> map fst ms = groups model \<and> (\<forall>(g, x) \<in> set ms. 0 \<le> x)"
proof -
  let ?n = "length (groups model)"
  define load where "load = (\<lambda>g. case group_load_ms args g of Inr x \<Rightarrow> x | Inl _ \<Rightarrow> 0)"
  have load: "group_load_ms args g = Inr (load g)" for g
    using args by (cases "memory_layout args") (simp_all add: group_load_ms_def load_def)
  define loads where "loads = map (\<lambda>g. (group_id g, load g)) (groups model)"
  have run1: "r_map (\<lambda>g. r_bind (group_load_ms args g) (\<lambda>load. Inr (group_id g, load))) (groups model) = Inr loads"
    unfolding loads_def by (rule r_map_total) (simp add: load)
  have keys: "\<forall>g < ?n. \<exists>v. map_of (dict_of loads) g = Some v"
  proof (intro allI impI)
    fix g assume "g < ?n"
    then have "g \<in> fst ` set loads" using group_ids_wf [OF wf] by (simp add: loads_def image_image)
    then show "\<exists>v. map_of (dict_of loads) g = Some v" by (rule dict_of_total)
  qed
  define rs where "rs = profile_requests args m requests reps"
  have "set rs \<subseteq> {r. rq_model_id r = m}"
  proof -
    let ?o = "sort_key rq_input_tokens (filter (\<lambda>r. rq_model_id r = m) requests)"
    have q: "0 \<le> i \<and> i < int (length ?o)" if "i \<in> set (quantile_indexes (length ?o))" "?o \<noteq> []" for i
    proof -
      have "0 < length ?o" using that(2) by (simp only: length_greater_0_conv not_False_eq_True)
      from quantile_index_range [OF this that(1)] show ?thesis .
    qed
    have "?o ! nat i \<in> set ?o" if "i \<in> set (quantile_indexes (length ?o))" "?o \<noteq> []" for i
      using q [OF that] by (intro nth_mem) linarith
    moreover have "?o ! (length ?o div 2) \<in> set ?o" if "?o \<noteq> []"
    proof (rule nth_mem)
      have "0 < length ?o" using that by (simp only: length_greater_0_conv not_False_eq_True)
      then show "length ?o div 2 < length ?o" by linarith
    qed
    moreover have "rq_model_id r = m" if "reps = Some xs" "map_of xs m = Some r" for xs r
      using reps that map_of_SomeD [OF that(2)] by auto
    ultimately show ?thesis
      unfolding rs_def profile_requests_def Let_def by (auto split: option.splits if_splits)
  qed
  then have "\<forall>r \<in> set rs. rq_model_id r \<in> fst ` set (es_models est)" using est by auto
  from group_samples_ok [OF wf bytes this keys] obtain samples where
    s: "group_samples est model (dict_of loads) rs = Inr samples"
      "\<And>g. g < ?n \<Longrightarrow> \<exists>vs. map_of samples g = Some vs \<and> length vs = length rs \<and> (\<forall>v \<in> set vs. 0 \<le> v)" by blast
  have one: "\<exists>x. r_bind (dict_get samples (group_id g)) (\<lambda>vs. r_bind (robust_marginal args vs) (\<lambda>marginal. Inr (g, marginal)))
      = Inr (g, x) \<and> 0 \<le> x" if "g \<in> set (groups model)" for g
  proof -
    have "group_id g < ?n" using group_ids_wf [OF wf] that by blast
    then obtain vs where vs: "map_of samples (group_id g) = Some vs" "length vs = length rs" "\<forall>v \<in> set vs. 0 \<le> v"
      using s(2) by blast
    have "vs \<noteq> []" using vs(2) profile_requests_nonempty [of args m requests reps] by (auto simp: rs_def)
    from robust_marginal_ok [OF this vs(3)] obtain x where "robust_marginal args vs = Inr x" "0 \<le> x" by blast
    then show ?thesis using vs(1) by simp
  qed
  define marg where "marg = (\<lambda>g :: tensor_group. SOME x. r_bind (dict_get samples (group_id g)) (\<lambda>vs.
    r_bind (robust_marginal args vs) (\<lambda>marginal. Inr (g, marginal))) = Inr (g, x) \<and> 0 \<le> x)"
  have marg: "r_bind (dict_get samples (group_id g)) (\<lambda>vs. r_bind (robust_marginal args vs) (\<lambda>marginal. Inr (g, marginal)))
      = Inr (g, marg g)" "0 \<le> marg g" if "g \<in> set (groups model)" for g
    using someI_ex [OF one [OF that]] unfolding marg_def by blast+
  have "r_map (\<lambda>g. r_bind (dict_get samples (group_id g)) (\<lambda>vs.
      r_bind (robust_marginal args vs) (\<lambda>marginal. Inr (g, marginal)))) (groups model) = Inr (map (\<lambda>g. (g, marg g)) (groups model))"
    by (rule r_map_total) (use marg(1) in blast)
  then have "model_marginals est requests args reps m model = Inr (map (\<lambda>g. (g, marg g)) (groups model))"
    using run1 s(1) by (simp add: model_marginals_def rs_def)
  then show ?thesis using marg(2) by (auto simp: o_def)
qed

lemma sum_update:
  "distinct (map fst d) \<Longrightarrow> sum_list (map snd (AList.update k v d)) = sum_list (map snd d) - get_default (map_of d) k 0 + (v :: rat)"
proof (induction d)
  case (Cons x d)
  obtain k' v' where x: "x = (k', v')" by (cases x)
  show ?case
  proof (cases "k' = k")
    case True
    then show ?thesis by (simp add: x get_default_def)
  next
    case False
    then show ?thesis using Cons by (simp add: x get_default_def)
  qed
qed (simp add: get_default_def)

definition benefits_ok :: "(mem_key \<times> rat) list \<Rightarrow> bool" where
  "benefits_ok d \<longleftrightarrow> distinct (map fst d) \<and> nonneg_values d"

lemma add_benefit_ok:
  assumes "benefits_ok d" and "0 \<le> c"
  shows "benefits_ok (add_benefit k c d)" and "sum_list (map snd (add_benefit k c d)) = sum_list (map snd d) + c"
proof -
  have "0 \<le> get_default (map_of d) k 0" using assms(1) by (cases k) (auto simp: benefits_ok_def nonneg_values_def get_default_def split: option.split)
  then show "benefits_ok (add_benefit k c d)"
    using assms by (simp add: add_benefit_def benefits_ok_def distinct_update nonneg_update)
  show "sum_list (map snd (add_benefit k c d)) = sum_list (map snd d) + c"
    using assms(1) by (simp add: add_benefit_def benefits_ok_def sum_update)
qed

lemma add_pages_ok:
  assumes "benefits_ok d" and "0 \<le> c"
  shows "benefits_ok (foldl (\<lambda>bs page. add_benefit (m, nat page) c bs) d ps)
     \<and> sum_list (map snd (foldl (\<lambda>bs page. add_benefit (m, nat page) c bs) d ps)) = sum_list (map snd d) + of_nat (length ps) * c"
  using assms
proof (induction ps arbitrary: d)
  case (Cons p ps)
  from Cons.IH [OF add_benefit_ok(1) [OF Cons.prems, of "(m, nat p)"] Cons.prems(2)]
  show ?case by (simp add: add_benefit_ok(2) [OF Cons.prems] algebra_simps)
qed simp

lemma store_benefit_ok:
  assumes "benefits_ok d" and "0 \<le> x" and "memory_layout args = CompactPage" and "0 < page_size_bytes args" and "0 < tg_bytes g"
  shows "benefits_ok (store_benefit args m d (g, x))"
    and "sum_list (map snd (store_benefit args m d (g, x))) = sum_list (map snd d) + x"
proof -
  have le: "first_page args g \<le> last_page args g"
    unfolding first_page_def last_page_def using assms(4,5) by (intro zdiv_mono1) simp_all
  define n where "n = last_page args g - first_page args g + 1"
  have n: "0 < n" "max 1 n = n" "length [first_page args g..last_page args g] = nat n" using le by (simp_all add: n_def)
  have "0 \<le> x / of_int n" using assms(2) n(1) by simp
  from add_pages_ok [OF assms(1) this, of m "[first_page args g..last_page args g]"] n
  show "benefits_ok (store_benefit args m d (g, x))"
    "sum_list (map snd (store_benefit args m d (g, x))) = sum_list (map snd d) + x"
    using assms(3) by (simp_all add: store_benefit_def Let_def flip: n_def)
qed

lemma store_benefits_ok:
  assumes "benefits_ok d" and "\<forall>(g, x) \<in> set ms. 0 \<le> x \<and> 0 < tg_bytes g"
    and "memory_layout args = CompactPage" and "0 < page_size_bytes args"
  shows "benefits_ok (foldl (store_benefit args m) d ms)
     \<and> sum_list (map snd (foldl (store_benefit args m) d ms)) = sum_list (map snd d) + sum_list (map snd ms)"
  using assms(1,2)
proof (induction ms arbitrary: d)
  case (Cons p ms)
  obtain g x where p: "p = (g, x)" by (cases p)
  have "0 \<le> x" "0 < tg_bytes g" using Cons.prems(2) p by auto
  note one = store_benefit_ok [OF Cons.prems(1) this(1) assms(3,4) this(2), of m]
  from Cons.IH [OF one(1)] Cons.prems(2) show ?case by (simp add: p one(2))
qed simp

lemma build_pipeline_benefits_total:
  assumes "\<forall>(m, model) \<in> set models. model_wf model \<and> m \<in> fst ` set (es_models est) \<and> (\<forall>t \<in> set (tensors model). 0 \<le> ts_bytes t)"
    and "\<forall>(k, r) \<in> set (case reps of None \<Rightarrow> [] | Some rs \<Rightarrow> rs). rq_model_id r = k"
    and "h2d_bytes_per_ms args \<noteq> 0" "page_size_bytes args \<noteq> 0"
  shows "\<exists>benefits. build_pipeline_benefits models est requests args reps = Inr benefits"
proof -
  have "\<exists>b. r_foldl (\<lambda>benefits (model_id, model).
       r_bind (model_marginals est requests args reps model_id model) (\<lambda>marginals.
         Inr (foldl (store_benefit args model_id) benefits marginals))) [] models = Inr b \<and> True"
  proof (rule r_foldl_total)
    fix a :: "(mem_key \<times> rat) list" and x assume x: "x \<in> set models"
    obtain m model where mm: "x = (m, model)" by (cases x)
    have "model_wf model" "\<forall>t \<in> set (tensors model). 0 \<le> ts_bytes t" "m \<in> fst ` set (es_models est)" using assms(1) x mm by auto
    from model_marginals_ok [OF this assms(2-4)] obtain ms where "model_marginals est requests args reps m model = Inr ms" by blast
    then show "\<exists>b. (case x of (model_id, model) \<Rightarrow> r_bind (model_marginals est requests args reps model_id model) (\<lambda>marginals.
         Inr (foldl (store_benefit args model_id) a marginals))) = Inr b \<and> True" by (simp add: mm)
  qed simp
  then show ?thesis by (simp add: build_pipeline_benefits_def)
qed

text \<open>
  C22. Page benefits conserve the stall. Under the compact layout the benefits exist for every
  configured model, none is negative, and together the pages of a model are credited exactly the
  marginal stalls of its groups: spreading a group over the pages it shares with its neighbours
  neither loses nor invents benefit.
\<close>

theorem compact_benefits_conserved:
  assumes models: "\<forall>(m, model) \<in> set models. model_wf model \<and> m \<in> fst ` set (es_models est)
      \<and> (\<forall>t \<in> set (tensors model). 0 \<le> ts_bytes t) \<and> (\<forall>g \<in> set (groups model). 0 < tg_bytes g)"
    and reps: "\<forall>(k, r) \<in> set (case reps of None \<Rightarrow> [] | Some rs \<Rightarrow> rs). rq_model_id r = k"
    and args: "h2d_bytes_per_ms args \<noteq> 0" "0 < page_size_bytes args" "memory_layout args = CompactPage"
  shows "\<exists>benefits marginals. build_pipeline_benefits models est requests args reps = Inr benefits
     \<and> r_map (\<lambda>(m, model). model_marginals est requests args reps m model) models = Inr marginals
     \<and> (\<forall>key v. map_of benefits key = Some v \<longrightarrow> 0 \<le> v)
     \<and> sum_list (map snd benefits) = (\<Sum>ms \<leftarrow> marginals. sum_list (map snd ms))"
proof -
  have "\<exists>benefits marginals. r_foldl (\<lambda>benefits (model_id, model).
       r_bind (model_marginals est requests args reps model_id model) (\<lambda>marginals.
         Inr (foldl (store_benefit args model_id) benefits marginals))) d models = Inr benefits
     \<and> r_map (\<lambda>(m, model). model_marginals est requests args reps m model) models = Inr marginals
     \<and> benefits_ok benefits \<and> sum_list (map snd benefits) = sum_list (map snd d) + (\<Sum>ms \<leftarrow> marginals. sum_list (map snd ms))"
    if "benefits_ok d" for d
    using models that
  proof (induction models arbitrary: d)
    case (Cons p models)
    obtain m model where p: "p = (m, model)" by (cases p)
    have wf: "model_wf model" "m \<in> fst ` set (es_models est)" "\<forall>t \<in> set (tensors model). 0 \<le> ts_bytes t"
        "\<forall>g \<in> set (groups model). 0 < tg_bytes g" using Cons.prems(1) p by auto
    have "page_size_bytes args \<noteq> 0" using args(2) by simp
    from model_marginals_ok [OF wf(1,3,2) reps args(1) this] obtain ms where
      ms: "model_marginals est requests args reps m model = Inr ms" "map fst ms = groups model" "\<forall>(g, x) \<in> set ms. 0 \<le> x" by blast
    have "g \<in> set (groups model)" if "(g, x) \<in> set ms" for g x
      using that unfolding ms(2) [symmetric] by force
    then have "\<forall>(g, x) \<in> set ms. 0 \<le> x \<and> 0 < tg_bytes g" using ms(3) wf(4) by auto
    note st = store_benefits_ok [OF Cons.prems(2) this args(3,2), of m]
    then have ok: "benefits_ok (foldl (store_benefit args m) d ms)" by blast
    have rest: "\<forall>(m, model) \<in> set models. model_wf model \<and> m \<in> fst ` set (es_models est)
      \<and> (\<forall>t \<in> set (tensors model). 0 \<le> ts_bytes t) \<and> (\<forall>g \<in> set (groups model). 0 < tg_bytes g)"
      using Cons.prems(1) by simp
    from Cons.IH [OF rest ok] obtain benefits marginals where
      "r_foldl (\<lambda>benefits (model_id, model).
       r_bind (model_marginals est requests args reps model_id model) (\<lambda>marginals.
         Inr (foldl (store_benefit args model_id) benefits marginals))) (foldl (store_benefit args m) d ms) models = Inr benefits"
      "r_map (\<lambda>(m, model). model_marginals est requests args reps m model) models = Inr marginals"
      "benefits_ok benefits"
      "sum_list (map snd benefits) = sum_list (map snd (foldl (store_benefit args m) d ms)) + (\<Sum>ms \<leftarrow> marginals. sum_list (map snd ms))"
      by blast
    then show ?case using ms(1) st p by (intro exI [of _ benefits] exI [of _ "ms # marginals"]) simp
  qed simp
  from this [of "[]"] show ?thesis by (auto simp: benefits_ok_def nonneg_values_def build_pipeline_benefits_def)
qed

theorem compact_benefits_conserved_witness:
  "\<exists>benefits marginals. build_pipeline_benefits demo_models demo_estimator [demo_request]
       ((demo_args PipelineValue)\<lparr> memory_layout := CompactPage, page_size_bytes := 64 \<rparr>) None = Inr benefits
     \<and> r_map (\<lambda>(m, model). model_marginals demo_estimator [demo_request]
         ((demo_args PipelineValue)\<lparr> memory_layout := CompactPage, page_size_bytes := 64 \<rparr>) None m model) demo_models = Inr marginals
     \<and> sum_list (map snd benefits) = (\<Sum>ms \<leftarrow> marginals. sum_list (map snd ms))"
proof -
  let ?args = "(demo_args PipelineValue)\<lparr> memory_layout := CompactPage, page_size_bytes := 64 \<rparr>"
  have 1: "\<forall>(m, model) \<in> set demo_models. model_wf model \<and> m \<in> fst ` set (es_models demo_estimator)
      \<and> (\<forall>t \<in> set (tensors model). 0 \<le> ts_bytes t) \<and> (\<forall>g \<in> set (groups model). 0 < tg_bytes g)"
    by (auto simp: demo_models_def demo_tensor_model_def demo_tensor_def demo_estimator_def model_wf_def less_Suc_eq)
  have 2: "\<forall>(k, r) \<in> set (case None of None \<Rightarrow> [] | Some rs \<Rightarrow> rs). rq_model_id r = k" by simp
  have 3: "h2d_bytes_per_ms ?args \<noteq> 0" "0 < page_size_bytes ?args" "memory_layout ?args = CompactPage"
    by (simp_all add: demo_args_def)
  from compact_benefits_conserved [OF 1 2 3, of "[demo_request]"] show ?thesis by blast
qed

end
