(* ===== verification/Trace_IO.thy ===== *)
theory Trace_IO
  imports Execution
begin

text \<open>
  Reading the request trace and the model limits (\<open>simulator_io.py\<close>, and \<open>load_trace_arrivals\<close> of
  \<open>layerweave_tensor_pipeline_sim.py\<close>). A line of the trace is either skipped, because it is blank
  or a comment, or a row of four parsed columns; the text of a number is not modelled. The
  exponential draws of the arrival generator are an argument.
\<close>

section \<open>Model limits\<close>

datatype input_limit_policy = SafeLimit | ContextLimit | NoLimit | UnknownLimit string

record limit_item =
  li_id :: int
  model_context_tokens :: int
  l40_safe_max_input_length :: "int option"

definition model_limit :: "input_limit_policy \<Rightarrow> limit_item \<Rightarrow> int result" where
  "model_limit policy item =
     (case policy of
        SafeLimit \<Rightarrow> Inr (case l40_safe_max_input_length item of
           None \<Rightarrow> model_context_tokens item
         | Some n \<Rightarrow> if n = 0 then model_context_tokens item else n)
      | ContextLimit \<Rightarrow> Inr (model_context_tokens item)
      | NoLimit \<Rightarrow> Inr (2 ^ 31 - 1)
      | UnknownLimit _ \<Rightarrow> Inl (ValueError ''unknown input limit policy''))"

definition load_model_limits :: "limit_item list \<Rightarrow> input_limit_policy \<Rightarrow> (int \<times> int) list result" where
  "load_model_limits document policy =
     r_foldl (\<lambda>limits item. r_bind (model_limit policy item) (\<lambda>limit.
       Inr (AList.update (li_id item) limit limits))) [] document"

section \<open>The trace\<close>

record trace_row =
  tw_time :: rat
  tw_model :: int
  tw_input :: int
  tw_output :: int

type_synonym trace_line = "trace_row option"

datatype trace_mode = AllRequests | ModelSwitches

record trace_layout =
  page_count :: int
  tl_max_input_tokens :: int

record trace_settings =
  max_requests :: int
  input_scale :: rat
  output_override :: int
  pool_pages :: int
  ts_kv_block_tokens :: int
  trace_mode :: trace_mode

definition row_kept :: "trace_mode \<Rightarrow> int option \<Rightarrow> trace_row \<Rightarrow> bool" where
  "row_kept mode previous row \<longleftrightarrow> \<not> (mode = ModelSwitches \<and> previous = Some (tw_model row))"

text \<open>The effective input length: scaled, then capped by the model and by the pool.\<close>

definition effective_input :: "trace_settings \<Rightarrow> trace_layout \<Rightarrow> trace_row \<Rightarrow> int" where
  "effective_input s layout row =
     (let scaled = max 1 (floor (of_int (tw_input row) * input_scale s + 1 / 2)) in
      min (min scaled (tl_max_input_tokens layout))
        (max 1 ((pool_pages s - page_count layout) * ts_kv_block_tokens s - max 1 (output_override s))))"

definition trace_request :: "trace_settings \<Rightarrow> trace_layout \<Rightarrow> nat \<Rightarrow> trace_row \<Rightarrow> request" where
  "trace_request s layout n row =
     \<lparr> request_id = int n, rq_model_id = tw_model row, rq_input_tokens = effective_input s layout row,
       rq_output_tokens = (if 0 < output_override s then output_override s else tw_output row),
       trace_output_tokens = tw_output row \<rparr>"

definition last_source :: "int \<Rightarrow> int \<Rightarrow> bool" where
  "last_source limit source_requests \<longleftrightarrow> 0 < limit \<and> limit \<le> source_requests"

text \<open>The loop over the lines; its state is the number of source rows and the previous model.\<close>

fun load_trace_loop ::
  "trace_settings \<Rightarrow> (int \<times> trace_layout) list \<Rightarrow> int \<Rightarrow> int option \<Rightarrow> request list \<Rightarrow> trace_line list \<Rightarrow>
   request list result" where
  "load_trace_loop s layouts source_requests previous requests [] = Inr requests"
| "load_trace_loop s layouts source_requests previous requests (None # lines) =
     load_trace_loop s layouts source_requests previous requests lines"
| "load_trace_loop s layouts source_requests previous requests (Some row # lines) =
     (if \<not> row_kept (trace_mode s) previous row then
        if last_source (max_requests s) (source_requests + 1) then Inr requests
        else load_trace_loop s layouts (source_requests + 1) (Some (tw_model row)) requests lines
      else r_bind (dict_get layouts (tw_model row)) (\<lambda>layout.
        let requests' = requests @ [trace_request s layout (length requests) row] in
        if last_source (max_requests s) (source_requests + 1) then Inr requests'
        else load_trace_loop s layouts (source_requests + 1) (Some (tw_model row)) requests' lines))"

definition load_trace :: "trace_settings \<Rightarrow> (int \<times> trace_layout) list \<Rightarrow> trace_line list \<Rightarrow> request list result" where
  "load_trace s layouts lines = load_trace_loop s layouts 0 None [] lines"

section \<open>Arrivals\<close>

datatype arrival_mode = TraceScaled | Poisson

fun raw_arrivals_loop :: "int \<Rightarrow> trace_mode \<Rightarrow> int \<Rightarrow> int option \<Rightarrow> trace_line list \<Rightarrow> rat list" where
  "raw_arrivals_loop limit mode source_requests previous [] = []"
| "raw_arrivals_loop limit mode source_requests previous (None # lines) =
     raw_arrivals_loop limit mode source_requests previous lines"
| "raw_arrivals_loop limit mode source_requests previous (Some row # lines) =
     (if row_kept mode previous row then [tw_time row] else [])
     @ (if last_source limit (source_requests + 1) then []
        else raw_arrivals_loop limit mode (source_requests + 1) (Some (tw_model row)) lines)"

fun poisson_arrivals :: "(nat \<Rightarrow> rat) \<Rightarrow> nat \<Rightarrow> rat list" where
  "poisson_arrivals draw 0 = [0]"
| "poisson_arrivals draw (Suc n) = (let arrivals = poisson_arrivals draw n in arrivals @ [last arrivals + draw n])"

text \<open>\<open>draw i\<close> is the i-th value of \<open>rng.expovariate(request_rate_rps)\<close>.\<close>

definition load_trace_arrivals ::
  "trace_line list \<Rightarrow> int \<Rightarrow> trace_mode \<Rightarrow> nat \<Rightarrow> arrival_mode \<Rightarrow> rat \<Rightarrow> (nat \<Rightarrow> rat) \<Rightarrow> rat list result" where
  "load_trace_arrivals lines limit mode request_count arrival_mode request_rate_rps draw =
     (let raw_arrivals = raw_arrivals_loop limit mode 0 None lines in
      if length raw_arrivals \<noteq> request_count then Inl (ValueError ''arrival/request filtering mismatch'')
      else if raw_arrivals = [] then Inr []
      else if arrival_mode = Poisson then Inr (poisson_arrivals draw (request_count - 1))
      else
        let normalized = map (\<lambda>value. value - hd raw_arrivals) raw_arrivals; span = last normalized in
        if request_count \<le> 1 then Inr [0]
        else if span \<le> 0 then Inl (ValueError ''trace-scaled arrivals require a positive source trace span'')
        else r_bind (py_div (of_nat (request_count - 1) / span) request_rate_rps) (\<lambda>scale.
          Inr (map (\<lambda>value. value * scale) normalized)))"

section \<open>What the trace loader guarantees\<close>

lemma load_trace_loop_ok:
  assumes "load_trace_loop s layouts n previous requests lines = Inr result"
    and "\<forall>i < length requests. request_id (requests ! i) = int i"
    and "\<forall>r \<in> set requests. \<exists>layout row k. map_of layouts (rq_model_id r) = Some layout \<and> r = trace_request s layout k row"
  shows "(\<forall>i < length result. request_id (result ! i) = int i)
     \<and> (\<forall>r \<in> set result. \<exists>layout row k. map_of layouts (rq_model_id r) = Some layout \<and> r = trace_request s layout k row)
     \<and> length result = length requests + length (raw_arrivals_loop (max_requests s) (trace_mode s) n previous lines)"
  using assms
proof (induction s layouts n previous requests lines rule: load_trace_loop.induct)
  case (3 s layouts n previous requests row lines)
  show ?case
  proof (cases "row_kept (trace_mode s) previous row")
    case False
    show ?thesis
    proof (cases "last_source (max_requests s) (n + 1)")
      case True
      then show ?thesis using False "3.prems" by simp
    next
      case more: False
      then show ?thesis using "3.IH"(1) [OF False more] False "3.prems" by simp
    qed
  next
    case True
    obtain layout where layout: "map_of layouts (tw_model row) = Some layout"
      using True "3.prems"(1) by (auto simp: py_simps split: if_splits)
    let ?new = "requests @ [trace_request s layout (length requests) row]"
    have ids: "\<forall>i < length ?new. request_id (?new ! i) = int i"
      using "3.prems"(2) by (auto simp: nth_append less_Suc_eq trace_request_def)
    have from_rows: "\<forall>r \<in> set ?new. \<exists>layout row k. map_of layouts (rq_model_id r) = Some layout \<and> r = trace_request s layout k row"
    proof
      fix r assume "r \<in> set ?new"
      then consider "r \<in> set requests" | "r = trace_request s layout (length requests) row" by auto
      then show "\<exists>layout row k. map_of layouts (rq_model_id r) = Some layout \<and> r = trace_request s layout k row"
      proof cases
        case 1
        then show ?thesis using "3.prems"(3) by blast
      next
        case 2
        moreover from 2 have "rq_model_id r = tw_model row" by (simp add: trace_request_def)
        ultimately show ?thesis using layout by auto
      qed
    qed
    show ?thesis
    proof (cases "last_source (max_requests s) (n + 1)")
      case stop: True
      then have "result = ?new" using True "3.prems"(1) layout by simp
      then show ?thesis using ids from_rows True stop by simp
    next
      case False
      then have "load_trace_loop s layouts (n + 1) (Some (tw_model row)) ?new lines = Inr result"
        using True "3.prems"(1) layout by simp
      from "3.IH"(2) [OF _ _ refl False this ids from_rows] True layout False show ?thesis by simp
    qed
  qed
qed simp_all

definition mib64 :: int where
  "mib64 = 64 * 2 ^ 20"


text \<open>
  Arrivals match the trace. The two readers of the trace file keep the same rows: after the
  requests are loaded, reading their arrivals never reports a filtering mismatch. Scaled arrivals
  start at time zero, keep the order of the trace, and their last one is such that the requests
  arrive at the configured rate.
\<close>

lemma trace_arrivals_aligned:
  assumes load: "load_trace s layouts lines = Inr requests" and n: "2 \<le> length requests" and rate: "0 < rate"
    and raw: "raw = raw_arrivals_loop (max_requests s) (trace_mode s) 0 None lines" and span: "hd raw < last raw"
  shows "\<exists>arrivals. load_trace_arrivals lines (max_requests s) (trace_mode s) (length requests) TraceScaled rate draw = Inr arrivals
     \<and> length arrivals = length requests \<and> hd arrivals = 0
     \<and> last arrivals = of_nat (length requests - 1) / rate \<and> (sorted raw \<longrightarrow> sorted arrivals)"
proof -
  have len: "length raw = length requests"
    using load_trace_loop_ok [OF load [unfolded load_trace_def]] raw by simp
  then have ne: "raw \<noteq> []" using n by auto
  define d where "d = last raw - hd raw"
  define scale where "scale = of_nat (length requests - 1) / d / rate"
  define arrivals where "arrivals = map (\<lambda>value. (value - hd raw) * scale) raw"
  have d: "0 < d" using span by (simp add: d_def)
  then have "0 \<le> scale" using rate by (simp add: scale_def)
  have lastn: "last (map (\<lambda>value. value - hd raw) raw) = d" using ne by (simp add: last_map d_def)
  have "load_trace_arrivals lines (max_requests s) (trace_mode s) (length requests) TraceScaled rate draw = Inr arrivals"
    using ne n d rate len
    by (simp add: load_trace_arrivals_def Let_def raw [symmetric] lastn py_div_def arrivals_def scale_def o_def)
  moreover have "hd arrivals = 0" using ne by (simp add: arrivals_def hd_map)
  moreover have "last arrivals = of_nat (length requests - 1) / rate"
    using ne d rate by (simp add: arrivals_def last_map scale_def flip: d_def)
  moreover have "sorted arrivals" if "sorted raw"
    unfolding arrivals_def sorted_map
    by (rule sorted_wrt_mono_rel [OF _ that]) (simp add: mult_right_mono \<open>0 \<le> scale\<close>)
  ultimately show ?thesis using len by (auto simp: arrivals_def)
qed

definition demo_trace :: "trace_line list" where
  "demo_trace = [None, Some \<lparr> tw_time = 5, tw_model = 1, tw_input = 300, tw_output = 7 \<rparr>,
     Some \<lparr> tw_time = 6, tw_model = 1, tw_input = 10, tw_output = 7 \<rparr>,
     Some \<lparr> tw_time = 9, tw_model = 2, tw_input = 20, tw_output = 7 \<rparr>]"

definition demo_trace_settings :: trace_settings where
  "demo_trace_settings = \<lparr> max_requests = 0, input_scale = 4, output_override = 1, pool_pages = 8,
     ts_kv_block_tokens = 32, trace_mode = ModelSwitches \<rparr>"

definition demo_trace_layouts :: "(int \<times> trace_layout) list" where
  "demo_trace_layouts = [(1, \<lparr> page_count = 3, tl_max_input_tokens = 4096 \<rparr>), (2, \<lparr> page_count = 3, tl_max_input_tokens = 64 \<rparr>)]"

lemma demo_trace_loaded:
  "load_trace demo_trace_settings demo_trace_layouts demo_trace = Inr
     [\<lparr> request_id = 0, rq_model_id = 1, rq_input_tokens = 159, rq_output_tokens = 1, trace_output_tokens = 7 \<rparr>,
      \<lparr> request_id = 1, rq_model_id = 2, rq_input_tokens = 64, rq_output_tokens = 1, trace_output_tokens = 7 \<rparr>]"
proof -
  have f: "floor (of_int n + 1 / 2 :: rat) = n" for n by (simp add: floor_unique)
  have "\<lfloor>80 + 1 / 2 :: rat\<rfloor> = 80" "\<lfloor>1200 + 1 / 2 :: rat\<rfloor> = 1200" using f [of 80] f [of 1200] by simp_all
  then show ?thesis
    by (simp add: load_trace_def demo_trace_def demo_trace_settings_def demo_trace_layouts_def row_kept_def last_source_def
        trace_request_def effective_input_def Let_def)
qed


end
