(* ===== verification/Simulator.thy ===== *)
theory Simulator
  imports Sim_Report Pipeline_Benefits Trace_IO
begin

text \<open>
  The simulation loops (\<open>simulate\<close> and \<open>simulate_single_system\<close> of
  \<open>layerweave_tensor_pipeline_sim.py\<close>): requests are served in order by one cache per GPU; before a
  request the caches are told the predicted demand, every available GPU is probed on a copy of
  its cache, the router chooses, and the chosen cache executes the request. The descriptive part
  of the report and the inspected request are left out.
\<close>

section \<open>Settings\<close>

datatype policy_name = BaselinePolicy | PipeOnlyPolicy | ReuseOnlyPolicy | MinimalPolicy | AegaeonPolicy

datatype stall_profile = StaticMedian | OracleNextUse | RollingMedian

record run_args = aegaeon_args +
  ra_gpus :: nat
  suite_all :: bool
  ra_online :: bool
  online_arrivals_ms :: "rat list"
  ra_routing_policy :: routing_policy
  routing_replay_values :: "nat list option"
  gpu_availability :: "gpu_mask list"
  mckp_lookahead :: bool
  mckp_lookahead_k :: nat
  mckp_lookahead_discount :: rat
  ra_transition_weight :: rat
  mckp_history_window :: nat
  demand_decay :: rat
  oracle_next :: bool
  pipeline_stall_profile :: stall_profile
  rolling_stall_representatives :: "(int \<times> request) list list option"
  group_bytes_by_policy :: "(policy_name \<times> int) list"

definition profile_driven :: "run_args \<Rightarrow> bool" where
  "profile_driven args \<longleftrightarrow> args_stall_table args \<noteq> None"

definition policy_models :: "run_args \<Rightarrow> (int \<times> tensor_model) list \<Rightarrow> policy_name \<Rightarrow> (int \<times> tensor_model) list result" where
  "policy_models args models policy =
     (if profile_driven args then Inr models
      else r_bind (dict_get (group_bytes_by_policy args) policy) (\<lambda>n. Inr (models_with_group_size models n)))"

definition need_estimator :: "estimator option \<Rightarrow> estimator result" where
  "need_estimator est = (case est of None \<Rightarrow> Inl AttributeError | Some e \<Rightarrow> Inr e)"

definition policy_benefits ::
  "run_args \<Rightarrow> (int \<times> tensor_model) list \<Rightarrow> estimator option \<Rightarrow> request list \<Rightarrow> (mem_key \<times> rat) list result" where
  "policy_benefits args models est requests =
     (if profile_driven args then Inr []
      else r_bind (need_estimator est) (\<lambda>e. build_pipeline_benefits models e requests args None))"

text \<open>\<open>execute\<close>: with a stall table the row is settled from it, and then always pipelined.\<close>

definition sim_execute ::
  "run_args \<Rightarrow> estimator option \<Rightarrow> bool \<Rightarrow> request \<Rightarrow> tensor_model \<Rightarrow> any_mem \<Rightarrow> (any_mem \<times> sim_row) result" where
  "sim_execute args est pipelined r model b =
     (case args_stall_table args of
        Some table \<Rightarrow> r_bind (execute_profile_request any_ops r model table args True b) (\<lambda>(b', row). Inr (b', ProfileRow row))
      | None \<Rightarrow> r_bind (need_estimator est) (\<lambda>e.
          r_bind (execute_request any_ops r model e args pipelined False b) (\<lambda>(b', row). Inr (b', ExecRow row))))"

section \<open>Predictions\<close>

text \<open>\<open>int(statistics.median(values))\<close> of a non-empty list of integers.\<close>

definition int_median :: "int list \<Rightarrow> int" where
  "int_median values =
     (let vs = sort values; n = length vs in
      if odd n then vs ! (n div 2)
      else let x = of_int (vs ! (n div 2 - 1) + vs ! (n div 2)) / (2 :: rat) in if x < 0 then ceiling x else floor x)"

definition demand_probabilities :: "run_args \<Rightarrow> request list \<Rightarrow> nat \<Rightarrow> (int \<times> tensor_model) list \<Rightarrow> (int \<times> rat) list \<Rightarrow> (int \<times> rat) list result" where
  "demand_probabilities args requests i models counts =
     (if oracle_next args \<and> i + 1 < length requests
      then Inr (map (\<lambda>(m, _). (m, if m = rq_model_id (requests ! (i + 1)) then 1 else 0)) models)
      else r_map (\<lambda>(m, value). r_bind (py_div value (sum_list (map snd counts))) (\<lambda>p. Inr (m, p))) counts)"

definition lookahead_samples :: "run_args \<Rightarrow> request list \<Rightarrow> nat \<Rightarrow> (int \<times> tensor_model) list \<Rightarrow> (int \<times> (int \<times> rat) list) list result" where
  "lookahead_samples args requests i models =
     (let window = take (mckp_lookahead_k args) (drop (i + 1) requests) in
      r_foldl (\<lambda>samples (offset, future). r_bind (dict_get samples (rq_model_id future)) (\<lambda>xs.
          Inr (AList.update (rq_model_id future) (xs @ [(rq_input_tokens future, mckp_lookahead_discount args ^ offset)]) samples)))
        (map (\<lambda>(m, _). (m, [])) models) (zip [0..<length window] window))"

definition history_samples ::
  "run_args \<Rightarrow> (int \<times> tensor_model) list \<Rightarrow> (int \<times> int list) list \<Rightarrow> (int \<times> rat) list \<Rightarrow> (int \<times> (int \<times> rat) list) list result" where
  "history_samples args models history probabilities =
     r_map (\<lambda>(m, _).
       r_bind (dict_get history m) (\<lambda>values.
       r_bind (if values \<noteq> [] then Inr (int_median values)
               else case args_stall_table args of None \<Rightarrow> Inl AttributeError | Some t \<Rightarrow> input_median t m) (\<lambda>tokens.
       r_bind (dict_get probabilities m) (\<lambda>p. Inr (m, [(tokens, p)]))))) models"

text \<open>The representatives of a dynamic stall profile: the next use of each model, or a rolling median.\<close>

definition next_use :: "request list \<Rightarrow> nat \<Rightarrow> (int \<times> request) list" where
  "next_use requests i = map (\<lambda>r. (rq_model_id r, r)) (drop (i + 1) requests)"

definition refresh_benefits ::
  "run_args \<Rightarrow> estimator option \<Rightarrow> request list \<Rightarrow> nat \<Rightarrow> (int \<times> tensor_model) list \<Rightarrow> any_mem \<Rightarrow> any_mem result" where
  "refresh_benefits args est requests i models b =
     (let refresh = (\<lambda>reps. r_bind (need_estimator est) (\<lambda>e.
            r_bind (build_pipeline_benefits models e requests args (Some reps)) (\<lambda>d.
              Inr (set_pipeline_benefits (map_of d) b)))) in
      case pipeline_stall_profile args of
        StaticMedian \<Rightarrow> Inr b
      | OracleNextUse \<Rightarrow> refresh (next_use requests i)
      | RollingMedian \<Rightarrow>
          (case rolling_stall_representatives args of
             None \<Rightarrow> Inl TypeError
           | Some reps \<Rightarrow> r_bind (list_get reps i) refresh))"

section \<open>The state of a run\<close>

record sim_state =
  caches :: "any_mem list"
  reuse_caches :: "any_mem list"
  minimal_rows :: "(nat \<times> sim_row) list"
  reuse_rows :: "(nat \<times> sim_row) list"
  sim_routing :: "nat list"
  round_robin_next :: nat
  sim_demand :: "(int \<times> rat) list"
  input_history :: "(int \<times> int list) list"
  online_available_at_ms :: "rat list"

definition predict_caches ::
  "run_args \<Rightarrow> estimator option \<Rightarrow> request list \<Rightarrow> nat \<Rightarrow> (int \<times> tensor_model) list \<Rightarrow> (int \<times> tensor_model) list \<Rightarrow>
   (int \<times> tensor_model) list \<Rightarrow> sim_state \<Rightarrow> sim_state result" where
  "predict_caches args est requests i models minimal_models reuse_models s =
     r_bind (demand_probabilities args requests i models (sim_demand s)) (\<lambda>probabilities.
     r_bind (if replacement_policy args = MckpPrefix
             then r_bind (if mckp_lookahead args then lookahead_samples args requests i models
                          else history_samples args models (input_history s) probabilities) (\<lambda>samples.
                    Inr (map (set_mckp_prediction_samples (map_of samples)) (caches s)))
             else Inr (caches s)) (\<lambda>cs.
     r_bind (r_map (\<lambda>b. refresh_benefits args est requests i minimal_models
               (set_future_model_probabilities (map_of probabilities) b)) cs) (\<lambda>cs'.
     r_bind (r_map (\<lambda>b. refresh_benefits args est requests i reuse_models
               (set_future_model_probabilities (map_of probabilities) b)) (reuse_caches s)) (\<lambda>rs'.
       Inr (s\<lparr> caches := cs', reuse_caches := rs' \<rparr>)))))"

section \<open>Routing a request\<close>

definition route_of :: "run_args \<Rightarrow> any_mem \<Rightarrow> request \<Rightarrow> sim_row \<Rightarrow> route_result result" where
  "route_of args cache r row =
     (let base = \<lparr> rr_critical_path_ms = row_critical_path_ms row, rr_exposed_load_ms = row_exposed_load_ms row,
                   routing_cached_model_bytes = None, rr_predicted_damage_ms = row_damage row,
                   mckp_transition_weight = None \<rparr> in
      if profile_driven args
      then r_bind (op_resident_bytes any_ops cache (rq_model_id r)) (\<lambda>n.
             Inr (base\<lparr> routing_cached_model_bytes := Some n, mckp_transition_weight := Some (ra_transition_weight args) \<rparr>))
      else Inr base)"

definition probe_gpu ::
  "run_args \<Rightarrow> estimator option \<Rightarrow> any_mem list \<Rightarrow> request \<Rightarrow> tensor_model \<Rightarrow> nat \<Rightarrow> (nat \<times> route_result) result" where
  "probe_gpu args est cs r model gpu =
     r_bind (list_get cs gpu) (\<lambda>cache.
     r_bind (sim_execute args est True r model cache) (\<lambda>(_, row).
     r_bind (route_of args cache r row) (\<lambda>route. Inr (gpu, route))))"

text \<open>The chosen GPU and the next round-robin position.\<close>

definition choose_gpu ::
  "run_args \<Rightarrow> estimator option \<Rightarrow> nat \<Rightarrow> request \<Rightarrow> tensor_model \<Rightarrow> sim_state \<Rightarrow> (nat \<times> nat) result" where
  "choose_gpu args est i r model s =
     (case routing_replay_values args of
        Some replay \<Rightarrow> r_bind (list_get replay i) (\<lambda>chosen. Inr (chosen, round_robin_next s))
      | None \<Rightarrow>
          if ra_gpus args = 1 then Inr (0, round_robin_next s)
          else
            r_bind (list_get (gpu_availability args) i) (\<lambda>mask.
            r_bind (r_map (probe_gpu args est (caches s) r model) (available_gpus mask)) (\<lambda>candidates.
            if ra_online args
            then r_bind (list_get (online_arrivals_ms args) i) (\<lambda>arrival.
                   r_bind (choose_online_routing_candidate candidates (online_available_at_ms s) arrival
                             (round_robin_next s) (ra_gpus args) (ra_transition_weight args)) (\<lambda>(chosen, _, next).
                     Inr (chosen, next)))
            else r_bind (choose_routing_candidate candidates (ra_routing_policy args) (round_robin_next s) (ra_gpus args))
                   (\<lambda>(chosen, _, next). Inr (chosen, next)))))"

definition decay_demand :: "run_args \<Rightarrow> int \<Rightarrow> (int \<times> rat) list \<Rightarrow> (int \<times> rat) list result" where
  "decay_demand args m counts =
     (let decayed = map (\<lambda>(k, v). (k, v * demand_decay args)) counts in
      r_bind (dict_get decayed m) (\<lambda>v. Inr (AList.update m (v + 1) decayed)))"

definition push_history :: "run_args \<Rightarrow> request \<Rightarrow> (int \<times> int list) list \<Rightarrow> (int \<times> int list) list result" where
  "push_history args r history =
     r_bind (dict_get history (rq_model_id r)) (\<lambda>values.
       let values' = values @ [rq_input_tokens r] in
       Inr (AList.update (rq_model_id r)
              (if mckp_history_window args < length values' then tl values' else values') history))"

definition serve_reuse ::
  "run_args \<Rightarrow> estimator option \<Rightarrow> (int \<times> tensor_model) list \<Rightarrow> request \<Rightarrow> nat \<Rightarrow> sim_state \<Rightarrow> sim_state result" where
  "serve_reuse args est reuse_models r chosen s =
     (if \<not> suite_all args then Inr s
      else
        r_bind (list_get (reuse_caches s) chosen) (\<lambda>cache.
        r_bind (dict_get reuse_models (rq_model_id r)) (\<lambda>model.
        r_bind (need_estimator est) (\<lambda>e.
        r_bind (execute_request any_ops r model e args False False cache) (\<lambda>(cache', row).
          Inr (s\<lparr> reuse_caches := (reuse_caches s)[chosen := cache'], reuse_rows := reuse_rows s @ [(chosen, ExecRow row)] \<rparr>))))))"

definition serve_request ::
  "run_args \<Rightarrow> estimator option \<Rightarrow> request list \<Rightarrow> (int \<times> tensor_model) list \<Rightarrow> (int \<times> tensor_model) list \<Rightarrow>
   (int \<times> tensor_model) list \<Rightarrow> sim_state \<Rightarrow> nat \<times> request \<Rightarrow> sim_state result" where
  "serve_request args est requests models minimal_models reuse_models s = (\<lambda>(i, r).
     r_bind (predict_caches args est requests i models minimal_models reuse_models s) (\<lambda>s1.
     r_bind (dict_get minimal_models (rq_model_id r)) (\<lambda>model.
     r_bind (choose_gpu args est i r model s1) (\<lambda>(chosen, next).
     r_bind (list_get (caches s1) chosen) (\<lambda>cache.
     r_bind (sim_execute args est True r model cache) (\<lambda>(cache', row).
     r_bind (update_online_gpu_availability (ra_online args) (online_arrivals_ms args) (ag_decode_ms_per_token args)
               (online_available_at_ms s1) r chosen (row_critical_path_ms row)) (\<lambda>available.
     let s2 = s1\<lparr> caches := (caches s1)[chosen := cache'], minimal_rows := minimal_rows s1 @ [(chosen, row)],
                  round_robin_next := next, online_available_at_ms := available \<rparr> in
     r_bind (serve_reuse args est reuse_models r chosen s2) (\<lambda>s3.
     r_bind (decay_demand args (rq_model_id r) (sim_demand s3)) (\<lambda>counts.
     r_bind (push_history args r (input_history s3)) (\<lambda>history.
       Inr (s3\<lparr> sim_routing := sim_routing s3 @ [chosen], sim_demand := counts, input_history := history \<rparr>)))))))))))"

section \<open>A run\<close>

definition cold_rows ::
  "run_args \<Rightarrow> estimator option \<Rightarrow> bool \<Rightarrow> (int \<times> tensor_model) list \<Rightarrow> (mem_key \<times> rat) list \<Rightarrow> request list \<Rightarrow> sim_row list result" where
  "cold_rows args est pipelined models benefits requests =
     r_map (\<lambda>r.
       r_bind (dict_get models (rq_model_id r)) (\<lambda>model.
       r_bind (make_backend models args (Some benefits)) (\<lambda>b.
       r_bind (sim_execute args est pipelined r model b) (\<lambda>(_, row). Inr row)))) requests"

definition make_caches ::
  "run_args \<Rightarrow> (int \<times> tensor_model) list \<Rightarrow> (mem_key \<times> rat) list \<Rightarrow> any_mem list result" where
  "make_caches args models benefits = r_map (\<lambda>_. make_backend models args (Some benefits)) [0..<ra_gpus args]"

record sim_result =
  res_routing :: "nat list"
  res_policies :: "(policy_name \<times> sim_summary \<times> sim_row list) list"

definition summarize_policies :: "(policy_name \<times> sim_row list) list \<Rightarrow> (policy_name \<times> sim_summary \<times> sim_row list) list result" where
  "summarize_policies policies =
     r_map (\<lambda>(name, rows). r_bind (summarize rows) (\<lambda>summ. Inr (name, summ, rows))) policies"

definition simulate ::
  "run_args \<Rightarrow> (int \<times> tensor_model) list \<Rightarrow> estimator option \<Rightarrow> request list \<Rightarrow> rat list \<Rightarrow> sim_result result" where
  "simulate args models est requests available_at =
     r_bind (policy_models args models MinimalPolicy) (\<lambda>minimal_models.
     r_bind (policy_benefits args minimal_models est requests) (\<lambda>minimal_benefits.
     r_bind (if suite_all args then policy_models args models ReuseOnlyPolicy else Inr []) (\<lambda>reuse_models.
     r_bind (if suite_all args then policy_benefits args reuse_models est requests else Inr []) (\<lambda>reuse_benefits.
     r_bind (if suite_all args
             then r_bind (policy_models args models BaselinePolicy) (\<lambda>ms.
                    r_bind (policy_benefits args ms est requests) (\<lambda>bs. cold_rows args est False ms bs requests))
             else Inr []) (\<lambda>baseline.
     r_bind (if suite_all args
             then r_bind (policy_models args models PipeOnlyPolicy) (\<lambda>ms.
                    r_bind (policy_benefits args ms est requests) (\<lambda>bs. cold_rows args est True ms bs requests))
             else Inr []) (\<lambda>pipe.
     r_bind (if suite_all args
             then r_bind (policy_models args models AegaeonPolicy) (\<lambda>ms. policy_benefits args ms est requests)
             else Inr []) (\<lambda>_.
     r_bind (make_caches args minimal_models minimal_benefits) (\<lambda>cs.
     r_bind (if suite_all args then make_caches args reuse_models reuse_benefits else Inr []) (\<lambda>rs.
     r_bind (r_foldl (serve_request args est requests models minimal_models reuse_models)
               \<lparr> caches = cs, reuse_caches = rs, minimal_rows = [], reuse_rows = [], sim_routing = [], round_robin_next = 0,
                 sim_demand = map (\<lambda>(m, _). (m, 1)) models, input_history = map (\<lambda>(m, _). (m, [])) models,
                 online_available_at_ms = available_at \<rparr>
               (zip [0..<length requests] requests)) (\<lambda>s.
     r_bind (if suite_all args
             then r_bind (policy_models args models AegaeonPolicy) (\<lambda>ms.
                    r_bind (need_estimator est) (\<lambda>e. aegaeon_rows ms e args (zip requests (sim_routing s))))
             else Inr []) (\<lambda>aegaeon.
     r_bind (summarize_policies
               (if suite_all args
                then [(BaselinePolicy, baseline), (PipeOnlyPolicy, pipe), (ReuseOnlyPolicy, map snd (reuse_rows s)),
                      (MinimalPolicy, map snd (minimal_rows s)), (AegaeonPolicy, map AegaeonRow aegaeon)]
                else [(MinimalPolicy, map snd (minimal_rows s))])) (\<lambda>policies.
       Inr \<lparr> res_routing = sim_routing s, res_policies = policies \<rparr>))))))))))))"

section \<open>Single systems\<close>

datatype system_name = BaselineSystem | PipeOnlySystem | ReuseOnlySystem | AegaeonSystem | TangramSystem

record single_state =
  sg_caches :: "any_mem list"
  sg_previous :: "(nat \<times> request) list"
  sg_rows :: "sim_row list"
  sg_routing :: "nat list"
  sg_next :: nat
  sg_available_at_ms :: "rat list"

definition cold_system_rows ::
  "run_args \<Rightarrow> (int \<times> tensor_model) list \<Rightarrow> stall_table \<Rightarrow> bool \<Rightarrow> request list \<Rightarrow> sim_row list result" where
  "cold_system_rows args models table pipelined requests =
     r_map (\<lambda>r. r_bind (dict_get models (rq_model_id r)) (\<lambda>model.
       r_bind (execute_profile_cold_request any_ops (\<lambda>ms. make_backend ms args None) r model table args pipelined) (\<lambda>row.
         Inr (ColdRow row)))) requests"

definition record_service :: "run_args \<Rightarrow> request \<Rightarrow> nat \<Rightarrow> sim_row \<Rightarrow> nat \<Rightarrow> single_state \<Rightarrow> single_state result" where
  "record_service args r chosen row next s =
     r_bind (update_online_gpu_availability (ra_online args) (online_arrivals_ms args) (ag_decode_ms_per_token args)
               (sg_available_at_ms s) r chosen (row_critical_path_ms row)) (\<lambda>available.
       Inr (s\<lparr> sg_rows := sg_rows s @ [row], sg_routing := sg_routing s @ [chosen], sg_next := next,
               sg_available_at_ms := available \<rparr>))"

definition reuse_only_step ::
  "run_args \<Rightarrow> (int \<times> tensor_model) list \<Rightarrow> stall_table \<Rightarrow> single_state \<Rightarrow> nat \<times> request \<Rightarrow> single_state result" where
  "reuse_only_step args models table s = (\<lambda>(i, r).
     r_bind (list_get (gpu_availability args) i) (\<lambda>mask.
     r_bind (dict_get models (rq_model_id r)) (\<lambda>model.
     r_bind (r_map (\<lambda>gpu.
         r_bind (list_get (sg_caches s) gpu) (\<lambda>cache.
         r_bind (execute_profile_request any_ops r model table args False cache) (\<lambda>(_, row).
         r_bind (op_resident_bytes any_ops cache (rq_model_id r)) (\<lambda>n.
           Inr (gpu, \<lparr> rr_critical_path_ms = pf_critical_path_ms row, rr_exposed_load_ms = pf_exposed_load_ms row,
                       routing_cached_model_bytes = Some n, rr_predicted_damage_ms = row_damage (ProfileRow row),
                       mckp_transition_weight = None \<rparr>))))) (available_gpus mask)) (\<lambda>candidates.
     r_bind (if ra_online args
             then r_bind (list_get (online_arrivals_ms args) i) (\<lambda>arrival.
                    choose_online_cache_bytes_candidate candidates (sg_available_at_ms s) arrival (sg_next s) (ra_gpus args))
             else choose_routing_candidate candidates CacheBytes (sg_next s) (ra_gpus args)) (\<lambda>(chosen, _, next).
     r_bind (list_get (sg_caches s) chosen) (\<lambda>cache.
     r_bind (execute_profile_request any_ops r model table args False cache) (\<lambda>(cache', row).
       record_service args r chosen (ProfileRow row) next (s\<lparr> sg_caches := (sg_caches s)[chosen := cache'] \<rparr>))))))))"

definition aegaeon_step ::
  "run_args \<Rightarrow> (int \<times> tensor_model) list \<Rightarrow> stall_table \<Rightarrow> single_state \<Rightarrow> nat \<times> request \<Rightarrow> single_state result" where
  "aegaeon_step args models table s = (\<lambda>(i, r).
     r_bind (list_get (gpu_availability args) i) (\<lambda>mask.
     r_bind (r_map (\<lambda>gpu.
         r_bind (dict_get models (rq_model_id r)) (\<lambda>model.
         r_bind (aegaeon_profile_row r gpu (map_of (sg_previous s) gpu) model models table args) (\<lambda>row.
           Inr (gpu, AegaeonRow row)))) (available_gpus mask)) (\<lambda>candidates.
     let routes = map (\<lambda>(gpu, row). (gpu, \<lparr> rr_critical_path_ms = row_critical_path_ms row,
           rr_exposed_load_ms = row_exposed_load_ms row, routing_cached_model_bytes = None, rr_predicted_damage_ms = None,
           mckp_transition_weight = None \<rparr>)) candidates in
     r_bind (if ra_online args
             then r_bind (list_get (online_arrivals_ms args) i) (\<lambda>arrival.
                    choose_online_routing_candidate routes (sg_available_at_ms s) arrival (sg_next s) (ra_gpus args) 0)
             else choose_routing_candidate routes CriticalPath (sg_next s) (ra_gpus args)) (\<lambda>(chosen, _, next).
     r_bind (dict_get (dict_of candidates) chosen) (\<lambda>row.
       record_service args r chosen row next (s\<lparr> sg_previous := AList.update chosen r (sg_previous s) \<rparr>))))))"

definition single_run ::
  "(single_state \<Rightarrow> nat \<times> request \<Rightarrow> single_state result) \<Rightarrow> any_mem list \<Rightarrow> request list \<Rightarrow> rat list \<Rightarrow>
   (nat list \<times> sim_row list) result" where
  "single_run step cs requests available_at =
     r_bind (r_foldl step \<lparr> sg_caches = cs, sg_previous = [], sg_rows = [], sg_routing = [], sg_next = 0,
               sg_available_at_ms = available_at \<rparr> (zip [0..<length requests] requests)) (\<lambda>s.
       Inr (sg_routing s, sg_rows s))"

definition single_rows ::
  "run_args \<Rightarrow> (int \<times> tensor_model) list \<Rightarrow> stall_table \<Rightarrow> request list \<Rightarrow> rat list \<Rightarrow> system_name \<Rightarrow> (nat list \<times> sim_row list) result" where
  "single_rows args models table requests available_at system =
     (case system of
        BaselineSystem \<Rightarrow> r_bind (cold_system_rows args models table False requests) (\<lambda>rows. Inr ([], rows))
      | PipeOnlySystem \<Rightarrow> r_bind (cold_system_rows args models table True requests) (\<lambda>rows. Inr ([], rows))
      | ReuseOnlySystem \<Rightarrow>
          r_bind (r_map (\<lambda>_. make_backend models args None) [0..<ra_gpus args]) (\<lambda>cs.
            single_run (reuse_only_step args models table) cs requests available_at)
      | AegaeonSystem \<Rightarrow> single_run (aegaeon_step args models table) [] requests available_at
      | TangramSystem \<Rightarrow>
          r_bind (simulate args models None requests available_at) (\<lambda>res.
          r_bind (dict_get (res_policies res) MinimalPolicy) (\<lambda>(_, rows). Inr (res_routing res, rows))))"

definition simulate_single_system ::
  "run_args \<Rightarrow> (int \<times> tensor_model) list \<Rightarrow> stall_table \<Rightarrow> request list \<Rightarrow> rat list \<Rightarrow> system_name \<Rightarrow>
   (nat list \<times> sim_summary \<times> sim_row list) result" where
  "simulate_single_system args models table requests available_at system =
     r_bind (single_rows args models table requests available_at system) (\<lambda>(routing, rows).
     r_bind (summarize rows) (\<lambda>summ. Inr (routing, summ, rows)))"

section \<open>Every accepted request is served\<close>

lemma summarize_exec_total:
  assumes "\<forall>row \<in> set rows. \<exists>r. row = ExecRow r"
  shows "\<exists>summ. summarize rows = Inr summ \<and> ss_requests summ = length rows"
proof -
  have stats: "\<exists>s. field_stats (\<lambda>r. Inr (f r)) rs = Inr s" for f :: "'r \<Rightarrow> rat" and rs
    using summary_total [of "map f rs"] by (simp add: field_stats_def r_map_total [where g = f])
  define fields where "fields = map (\<lambda>(name, f). (name, \<lambda>r. Inr (f r))) time_fields
    @ [(''mckp_predicted_damage_ms'', \<lambda>r. Inr (case row_damage r of None \<Rightarrow> 0 | Some d \<Rightarrow> d))]
    @ map (\<lambda>(name, f). (name, \<lambda>r. Inr (f (row_memory r)) :: rat result)) memory_fields"
  have "\<exists>ys. r_map (\<lambda>(name, f). r_bind (field_stats f rows) (\<lambda>s. Inr (name, s))) fields = Inr ys"
  proof -
    have "\<exists>y. (case x of (name, f) \<Rightarrow> r_bind (field_stats f rows) (\<lambda>s. Inr (name, s))) = (Inr y :: (string \<times> stat_summary) result)"
      if "x \<in> set fields" for x
    proof -
      obtain name f g where "x = (name, f)" "f = (\<lambda>r. Inr (g r))"
        using \<open>x \<in> set fields\<close> unfolding fields_def by (auto split: prod.splits)
      then show ?thesis using stats [of g rows] by auto
    qed
    then show ?thesis by (intro r_map_exists) auto
  qed
  moreover have "(case rows of [] \<Rightarrow> None | r # _ \<Rightarrow> (case row_profile r of Inl _ \<Rightarrow> None | Inr p \<Rightarrow> Some p)) = None"
    using assms by (auto split: list.split)
  ultimately show ?thesis by (auto simp: summarize_def fields_def)
qed

text \<open>
  The configuration of an estimator-driven run of the proposed policy alone: no stall table, no
  replay, a compute profile for every model, masks that leave a GPU available, and in online mode
  an arrival for every request.
\<close>

definition run_ok :: "run_args \<Rightarrow> (int \<times> tensor_model) list \<Rightarrow> estimator \<Rightarrow> request list \<Rightarrow> bool" where
  "run_ok args models e requests \<longleftrightarrow>
     layout_ok models args \<and> page_size_bytes args \<noteq> 0 \<and> args_stall_table args = None \<and> \<not> suite_all args
     \<and> routing_replay_values args = None \<and> 1 \<le> ra_gpus args \<and> ra_routing_policy args \<in> {CriticalPath, ExposedStall}
     \<and> pipeline_stall_profile args \<noteq> RollingMedian \<and> 0 \<le> demand_decay args
     \<and> (\<forall>(m, model) \<in> set models. m \<in> fst ` set (es_models e) \<and> (\<forall>t \<in> set (tensors model). 0 \<le> ts_bytes t)
          \<and> distinct (map tensor_id (tensors model)))
     \<and> length (gpu_availability args) = length requests
     \<and> (\<forall>mask \<in> set (gpu_availability args). available_gpus mask \<noteq> [] \<and> distinct (available_gpus mask)
          \<and> (\<forall>g \<in> set (available_gpus mask). g < ra_gpus args))
     \<and> (ra_online args \<longrightarrow> length (online_arrivals_ms args) = length requests)
     \<and> (\<forall>i < length requests. request_id (requests ! i) = int i \<and> 0 \<le> rq_input_tokens (requests ! i) + rq_output_tokens (requests ! i))
     \<and> validate_request_feasibility models requests args = Inr ()"

text \<open>The state between two requests.\<close>

definition sim_inv :: "run_args \<Rightarrow> (int \<times> tensor_model) list \<Rightarrow> request list \<Rightarrow> int list \<Rightarrow> nat \<Rightarrow> sim_state \<Rightarrow> bool" where
  "sim_inv args models requests ids n s \<longleftrightarrow>
     length (caches s) = ra_gpus args \<and> reuse_caches s = []
     \<and> (\<forall>b \<in> set (caches s). any_ok b \<and> (\<forall>r \<in> set requests. served_by models args r b))
     \<and> map fst (sim_demand s) = ids \<and> (\<forall>(m, v) \<in> set (sim_demand s). 0 \<le> v) \<and> 0 < sum_list (map snd (sim_demand s))
     \<and> map fst (input_history s) = ids \<and> length (online_available_at_ms s) = ra_gpus args
     \<and> length (minimal_rows s) = n \<and> sim_routing s = map fst (minimal_rows s)
     \<and> (\<forall>i < n. sim_routing s ! i < ra_gpus args
          \<and> (ra_gpus args \<noteq> 1 \<longrightarrow> sim_routing s ! i \<in> set (available_gpus (gpu_availability args ! i))))
     \<and> (\<forall>(g, row) \<in> set (minimal_rows s). (\<exists>x. row = ExecRow x) \<and> row_hot_compute_ms row \<le> row_critical_path_ms row)"

lemma served_model:
  assumes "served_by models args r b"
  shows "\<exists>model kv. map_of models (rq_model_id r) = Some model \<and> request_kv_bytes r args = Inr kv
     \<and> any_fits b kv (rq_model_id r) (tensors model)"
  using assms by (simp add: served_by_def)

lemma sim_execute_ok:
  assumes run: "run_ok args models e requests" and b: "any_ok b" "\<forall>r \<in> set requests. served_by models args r b"
    and r: "r \<in> set requests" "map_of models (rq_model_id r) = Some model"
  shows "\<exists>b' row. sim_execute args (Some e) True r model b = Inr (b', ExecRow row) \<and> any_ok b'
     \<and> (\<forall>r \<in> set requests. served_by models args r b') \<and> hot_compute_ms row \<le> critical_path_ms row"
proof -
  obtain kv where kv: "request_kv_bytes r args = Inr kv" "any_fits b kv (rq_model_id r) (tensors model)"
    using served_model [of models args r b] b(2) r by auto
  have mem: "(rq_model_id r, model) \<in> set models" using r(2) by (rule map_of_SomeD)
  have cfg: "args_ok args" "rq_model_id r \<in> fst ` set (es_models e)" "\<forall>t \<in> set (tensors model). 0 \<le> ts_bytes t"
      "distinct (map tensor_id (tensors model))" "args_stall_table args = None"
    using run mem by (auto simp: run_ok_def layout_ok_def)
  from anyb.execute_ok [OF b(1) cfg(1-4) kv, of False] obtain b' row where
    e: "execute_request any_ops r model e args True False b = Inr (b', row)" "any_ok b'" "any_setup b' = any_setup b"
      "hot_compute_ms row \<le> critical_path_ms row" by blast
  have "served_by models args r' b' = served_by models args r' b" for r' using e(3) by (rule served_by_config)
  then show ?thesis using e b(2) cfg(5) by (simp add: sim_execute_def need_estimator_def)
qed

lemma probe_gpu_ok:
  assumes run: "run_ok args models e requests" and cs: "\<forall>b \<in> set cs. any_ok b \<and> (\<forall>r \<in> set requests. served_by models args r b)"
    and r: "r \<in> set requests" "map_of models (rq_model_id r) = Some model" and gpu: "gpu < length cs"
  shows "\<exists>route. probe_gpu args (Some e) cs r model gpu = Inr (gpu, route)"
proof -
  have "cs ! gpu \<in> set cs" using gpu by simp
  then obtain b' row where "sim_execute args (Some e) True r model (cs ! gpu) = Inr (b', ExecRow row)"
    using sim_execute_ok [OF run _ _ r] cs by blast
  moreover have "\<not> profile_driven args" using run by (simp add: run_ok_def profile_driven_def)
  ultimately show ?thesis using gpu by (simp add: probe_gpu_def list_get_def route_of_def Let_def)
qed

lemma choose_gpu_ok:
  assumes run: "run_ok args models e requests" and inv: "sim_inv args models requests ids n s" and i: "i < length requests"
    and r: "r \<in> set requests" "map_of models (rq_model_id r) = Some model"
  shows "\<exists>chosen next. choose_gpu args (Some e) i r model s = Inr (chosen, next) \<and> chosen < ra_gpus args
     \<and> (ra_gpus args \<noteq> 1 \<longrightarrow> chosen \<in> set (available_gpus (gpu_availability args ! i)))"
proof (cases "ra_gpus args = 1")
  case True
  then show ?thesis using run by (simp add: choose_gpu_def run_ok_def)
next
  case False
  define mask where "mask = gpu_availability args ! i"
  have cfg: "i < length (gpu_availability args)" "routing_replay_values args = None"
    using run i by (simp_all add: run_ok_def)
  then have "mask \<in> set (gpu_availability args)" by (simp add: mask_def)
  then have mask: "available_gpus mask \<noteq> []" "distinct (available_gpus mask)" "\<forall>g \<in> set (available_gpus mask). g < ra_gpus args"
    using run by (auto simp: run_ok_def)
  have cs: "\<forall>b \<in> set (caches s). any_ok b \<and> (\<forall>r \<in> set requests. served_by models args r b)" "length (caches s) = ra_gpus args"
    using inv by (simp_all add: sim_inv_def)
  define route where "route = (\<lambda>gpu. snd (projr (probe_gpu args (Some e) (caches s) r model gpu)))"
  have probe: "probe_gpu args (Some e) (caches s) r model gpu = Inr (gpu, route gpu)" if "gpu \<in> set (available_gpus mask)" for gpu
    using probe_gpu_ok [OF run cs(1) r, of gpu] that mask(3) cs(2) by (auto simp: route_def)
  define candidates where "candidates = map (\<lambda>gpu. (gpu, route gpu)) (available_gpus mask)"
  have cands: "r_map (probe_gpu args (Some e) (caches s) r model) (available_gpus mask) = Inr candidates"
    unfolding candidates_def by (rule r_map_total) (use probe in blast)
  have c: "candidates \<noteq> []" "\<forall>(g, r) \<in> set candidates. g < ra_gpus args" "distinct (map fst candidates)"
    "\<And>g x. (g, x) \<in> set candidates \<Longrightarrow> g \<in> set (available_gpus mask)"
    using mask by (auto simp: candidates_def o_def)
  show ?thesis
  proof (cases "ra_online args")
    case True
    have arr: "i < length (online_arrivals_ms args)" using True run i by (simp add: run_ok_def)
    have av: "length (online_available_at_ms s) = ra_gpus args" using inv by (simp add: sim_inv_def)
    from choose_online_scored [OF c(1-3) av refl, where arrival = "online_arrivals_ms args ! i" and weight = "ra_transition_weight args"
      and next_gpu = "round_robin_next s"]
    obtain chosen res where "choose_online_routing_candidate candidates (online_available_at_ms s) (online_arrivals_ms args ! i)
        (round_robin_next s) (ra_gpus args) (ra_transition_weight args) = Inr (chosen, res, (chosen + 1) mod ra_gpus args)"
        "(chosen, res) \<in> set candidates" by blast
    then show ?thesis
      using cands cfg True False arr c(2,4) by (auto simp: choose_gpu_def list_get_def mask_def [symmetric])
  next
    case off: False
    define v where "v = (\<lambda>x :: route_result. case ra_routing_policy args of ExposedStall \<Rightarrow> rr_exposed_load_ms x | _ \<Rightarrow> rr_critical_path_ms x)"
    have "\<forall>(g, x) \<in> set candidates. routing_score (ra_routing_policy args) x = Inr (v x)"
      using run by (auto simp: run_ok_def routing_score_def v_def)
    from choose_scored [OF c(1-3), of "\<lambda>_. routing_score (ra_routing_policy args)" "\<lambda>_. v" "round_robin_next s", OF this]
    obtain chosen res where "choose_routing_candidate candidates (ra_routing_policy args) (round_robin_next s) (ra_gpus args)
        = Inr (chosen, res, (chosen + 1) mod ra_gpus args)" "(chosen, res) \<in> set candidates"
      unfolding choose_routing_candidate_def by blast
    then show ?thesis
      using cands cfg off False c(2,4) by (auto simp: choose_gpu_def list_get_def mask_def [symmetric])
  qed
qed

lemma refresh_benefits_ok:
  assumes run: "run_ok args models e requests"
  shows "\<exists>x. refresh_benefits args (Some e) requests i models b = Inr (case x of None \<Rightarrow> b | Some d \<Rightarrow> set_pipeline_benefits d b)"
proof (cases "pipeline_stall_profile args")
  case StaticMedian
  then show ?thesis by (intro exI [of _ None]) (simp add: refresh_benefits_def)
next
  case OracleNextUse
  have "\<forall>(m, model) \<in> set models. model_wf model \<and> m \<in> fst ` set (es_models e) \<and> (\<forall>t \<in> set (tensors model). 0 \<le> ts_bytes t)"
    using run by (auto simp: run_ok_def layout_ok_def models_wf_def)
  moreover have "\<forall>(k, r) \<in> set (case Some (next_use requests i) of None \<Rightarrow> [] | Some rs \<Rightarrow> rs). rq_model_id r = k"
    by (auto simp: next_use_def)
  moreover have "h2d_bytes_per_ms args \<noteq> 0" "page_size_bytes args \<noteq> 0" using run by (auto simp: run_ok_def layout_ok_def args_ok_def)
  ultimately obtain d where "build_pipeline_benefits models e requests args (Some (next_use requests i)) = Inr d"
    using build_pipeline_benefits_total by blast
  then show ?thesis using OracleNextUse
    by (intro exI [of _ "Some (map_of d)"]) (simp add: refresh_benefits_def need_estimator_def)
qed (use run in \<open>simp add: run_ok_def\<close>)

lemma refreshed_ok:
  assumes "b' = (case x of None \<Rightarrow> set_future_model_probabilities p b | Some d \<Rightarrow> set_pipeline_benefits d (set_future_model_probabilities p b))"
  shows "any_ok b' = any_ok b" "served_by models args r b' = served_by models args r b"
  using assms by (auto split: option.splits intro!: served_by_config)

lemma predict_caches_ok:
  assumes run: "run_ok args models e requests" and inv: "sim_inv args models requests ids n s"
  shows "\<exists>cs. predict_caches args (Some e) requests i all_models models [] s = Inr (s\<lparr> caches := cs \<rparr>)
     \<and> sim_inv args models requests ids n (s\<lparr> caches := cs \<rparr>)"
proof -
  have pos: "0 < sum_list (map snd (sim_demand s))" and reuse: "reuse_caches s = []"
    and cs: "\<forall>b \<in> set (caches s). any_ok b \<and> (\<forall>r \<in> set requests. served_by models args r b)" "length (caches s) = ra_gpus args"
    using inv by (auto simp: sim_inv_def)
  have "\<exists>p. demand_probabilities args requests i all_models (sim_demand s) = Inr p"
  proof -
    have "\<exists>ys. r_map (\<lambda>(m, value). r_bind (py_div value (sum_list (map snd (sim_demand s)))) (\<lambda>p. Inr (m, p))) (sim_demand s)
        = (Inr ys :: (int \<times> rat) list result)"
      by (rule r_map_exists) (use pos in auto)
    then show ?thesis by (auto simp: demand_probabilities_def)
  qed
  then obtain p where p: "demand_probabilities args requests i all_models (sim_demand s) = Inr p" by blast
  have pol: "replacement_policy args \<noteq> MckpPrefix" using run by (simp add: run_ok_def layout_ok_def)
  define f where "f = (\<lambda>b. refresh_benefits args (Some e) requests i models (set_future_model_probabilities (map_of p) b))"
  have f: "\<exists>b'. f b = Inr b' \<and> any_ok b' = any_ok b \<and> (\<forall>r. served_by models args r b' = served_by models args r b)" for b
  proof -
    obtain x where x: "f b = Inr (case x of None \<Rightarrow> set_future_model_probabilities (map_of p) b
        | Some d \<Rightarrow> set_pipeline_benefits d (set_future_model_probabilities (map_of p) b))"
      using refresh_benefits_ok [OF run, of i "set_future_model_probabilities (map_of p) b"] by (auto simp: f_def)
    with refreshed_ok [where x = x and p = "map_of p" and b = b, OF refl] show ?thesis by blast
  qed
  obtain cs' where cs': "r_map f (caches s) = Inr cs'" using r_map_exists [of "caches s" f] f by blast
  then have all: "list_all2 (\<lambda>b b'. f b = Inr b') (caches s) cs'" by (simp add: r_map_Inr_iff)
  have "any_ok b' \<and> (\<forall>r \<in> set requests. served_by models args r b')" if b': "b' \<in> set cs'" for b'
  proof -
    obtain b where b: "b \<in> set (caches s)" "f b = Inr b'"
    proof -
      obtain j where "j < length cs'" "b' = cs' ! j" using b' by (auto simp: in_set_conv_nth)
      then show thesis using that [of "caches s ! j"] all by (simp add: list_all2_conv_all_nth)
    qed
    then show ?thesis using f [of b] cs(1) by auto
  qed
  then have "sim_inv args models requests ids n (s\<lparr> caches := cs' \<rparr>)"
    using inv list_all2_lengthD [OF all] unfolding sim_inv_def by (elim conjE, intro conjI) simp_all
  moreover have "predict_caches args (Some e) requests i all_models models [] s = Inr (s\<lparr> caches := cs', reuse_caches := [] \<rparr>)"
    using p pol cs' reuse by (simp add: predict_caches_def f_def)
  moreover have "s\<lparr> caches := cs', reuse_caches := [] \<rparr> = s\<lparr> caches := cs' \<rparr>" using reuse by simp
  ultimately show ?thesis by auto
qed

lemma decay_demand_ok:
  assumes "0 \<le> demand_decay args" and "\<forall>(m, v) \<in> set d. 0 \<le> v" and "m \<in> set (map fst d)" and "distinct (map fst d)"
  shows "\<exists>d'. decay_demand args m d = Inr d' \<and> map fst d' = map fst d \<and> (\<forall>(m, v) \<in> set d'. 0 \<le> v) \<and> 0 < sum_list (map snd d')"
proof -
  define x where "x = map (\<lambda>(k, v). (k, v * demand_decay args)) d"
  have keys: "map fst x = map fst d" by (simp add: x_def o_def split_def)
  have nn: "nonneg_values x"
    using assms(1,2) by (fastforce simp: x_def nonneg_values_def dest!: map_of_SomeD intro!: mult_nonneg_nonneg)
  have nns: "0 \<le> sum_list (map snd x)" using assms(1,2) by (fastforce simp: x_def intro!: sum_list_nonneg mult_nonneg_nonneg)
  obtain v where v: "map_of x m = Some v" using map_of_mem [of m x] assms(3) keys by (metis list.set_map)
  define d' where "d' = AList.update m (v + 1) x"
  have keys': "map fst d' = map fst d"
    using assms(3) keys unfolding d'_def by (simp add: AList.update_keys)
  have nn': "nonneg_values d'" unfolding d'_def using nn v by (intro nonneg_update) (auto simp: nonneg_values_def)
  have "\<forall>(m, v) \<in> set d'. 0 \<le> v"
    using nn' keys' assms(4) by (auto simp: nonneg_values_def)
  moreover have "0 < sum_list (map snd d')"
    using nns v keys assms(4) unfolding d'_def by (simp add: sum_update get_default_def)
  moreover have "decay_demand args m d = Inr d'" using v by (simp add: decay_demand_def x_def [symmetric] d'_def)
  ultimately show ?thesis using keys' by blast
qed

lemma serve_request_ok:
  assumes run: "run_ok args models e requests" and ids: "ids = map fst models" and i: "i < length requests"
    and inv: "sim_inv args models requests ids i s"
  shows "\<exists>s'. serve_request args (Some e) requests all_models models [] s (i, requests ! i) = Inr s'
     \<and> sim_inv args models requests ids (Suc i) s'"
proof -
  let ?r = "requests ! i"
  have r: "?r \<in> set requests" using i by simp
  obtain cs where cs: "predict_caches args (Some e) requests i all_models models [] s = Inr (s\<lparr> caches := cs \<rparr>)"
    "sim_inv args models requests ids i (s\<lparr> caches := cs \<rparr>)" using predict_caches_ok [OF run inv] by blast
  define s1 where "s1 = s\<lparr> caches := cs \<rparr>"
  have inv1: "sim_inv args models requests ids i s1" using cs(2) by (simp add: s1_def)
  have ok1: "length (caches s1) = ra_gpus args" "\<forall>b \<in> set (caches s1). any_ok b \<and> (\<forall>r \<in> set requests. served_by models args r b)"
    "reuse_caches s1 = []" "length (online_available_at_ms s1) = ra_gpus args"
    using inv1 by (simp_all add: sim_inv_def)
  have g1: "1 \<le> ra_gpus args" "\<not> suite_all args" "0 \<le> demand_decay args" using run by (simp_all add: run_ok_def)
  have "caches s1 ! 0 \<in> set (caches s1)" using ok1(1) g1(1) by (intro nth_mem) simp
  then have "served_by models args ?r (caches s1 ! 0)" using ok1(2) r by blast
  then obtain model where model: "map_of models (rq_model_id ?r) = Some model" using served_model by blast
  obtain chosen nxt where ch: "choose_gpu args (Some e) i ?r model s1 = Inr (chosen, nxt)" "chosen < ra_gpus args"
      "ra_gpus args \<noteq> 1 \<longrightarrow> chosen \<in> set (available_gpus (gpu_availability args ! i))"
    using choose_gpu_ok [OF run inv1 i r model] by blast
  have "caches s1 ! chosen \<in> set (caches s1)" using ch(2) ok1(1) by simp
  then obtain b' row where ex: "sim_execute args (Some e) True ?r model (caches s1 ! chosen) = Inr (b', ExecRow row)"
      "any_ok b'" "\<forall>r \<in> set requests. served_by models args r b'" "hot_compute_ms row \<le> critical_path_ms row"
    using sim_execute_ok [OF run _ _ r model] ok1(2) by blast
  have "\<exists>av. update_online_gpu_availability (ra_online args) (online_arrivals_ms args) (ag_decode_ms_per_token args)
      (online_available_at_ms s1) ?r chosen (critical_path_ms row) = Inr av \<and> length av = ra_gpus args"
  proof -
    have "nat (request_id ?r) = i" using run i by (simp add: run_ok_def)
    moreover have "ra_online args \<longrightarrow> i < length (online_arrivals_ms args)" using run i by (simp add: run_ok_def)
    ultimately show ?thesis using ok1(4) ch(2) by (auto simp: update_online_gpu_availability_def list_get_def)
  qed
  then obtain av where av: "update_online_gpu_availability (ra_online args) (online_arrivals_ms args) (ag_decode_ms_per_token args)
      (online_available_at_ms s1) ?r chosen (critical_path_ms row) = Inr av" "length av = ra_gpus args" by blast
  have dem: "map fst (sim_demand s1) = ids" "\<forall>(m, v) \<in> set (sim_demand s1). 0 \<le> v" "map fst (input_history s1) = ids"
    using inv1 by (simp_all add: sim_inv_def)
  have mid: "rq_model_id ?r \<in> set ids" using map_of_SomeD [OF model] by (force simp: ids)
  have "distinct ids" using run by (simp add: run_ok_def layout_ok_def models_wf_def ids)
  then obtain d where d: "decay_demand args (rq_model_id ?r) (sim_demand s1) = Inr d" "map fst d = ids" "\<forall>(m, v) \<in> set d. 0 \<le> v"
      "0 < sum_list (map snd d)"
    using decay_demand_ok [OF g1(3) dem(2), of "rq_model_id ?r"] mid dem(1) by auto
  obtain hv where hv: "map_of (input_history s1) (rq_model_id ?r) = Some hv"
    using map_of_mem [of "rq_model_id ?r" "input_history s1"] mid dem(3) by (metis list.set_map)
  define h where "h = (let values' = hv @ [rq_input_tokens ?r] in AList.update (rq_model_id ?r)
    (if mckp_history_window args < length values' then tl values' else values') (input_history s1))"
  have h: "push_history args ?r (input_history s1) = Inr h" using hv by (simp add: push_history_def h_def Let_def)
  have hk: "map fst h = ids" using mid dem(3) by (simp add: h_def Let_def AList.update_keys)
  define s' where "s' = s1\<lparr> caches := (caches s1)[chosen := b'], minimal_rows := minimal_rows s1 @ [(chosen, ExecRow row)],
      round_robin_next := nxt, online_available_at_ms := av, sim_routing := sim_routing s1 @ [chosen], sim_demand := d, input_history := h \<rparr>"
  have "serve_request args (Some e) requests all_models models [] s (i, ?r) = Inr s'"
    using cs(1) model ch(1,2) ex(1) av(1) d(1) h g1(2) ok1(1)
    by (simp add: serve_request_def s1_def [symmetric] list_get_def serve_reuse_def s'_def)
  moreover have "sim_inv args models requests ids (Suc i) s'"
  proof -
    have "\<forall>b \<in> set ((caches s1)[chosen := b']). any_ok b \<and> (\<forall>r \<in> set requests. served_by models args r b)"
      using ok1(2) ex(2,3) set_update_subset_insert [of "caches s1" chosen b'] by blast
    moreover have "\<forall>j < Suc i. (sim_routing s1 @ [chosen]) ! j < ra_gpus args
        \<and> (ra_gpus args \<noteq> 1 \<longrightarrow> (sim_routing s1 @ [chosen]) ! j \<in> set (available_gpus (gpu_availability args ! j)))"
      using inv1 ch(2,3) by (auto simp: sim_inv_def nth_append less_Suc_eq)
    ultimately show ?thesis
      using inv1 av(2) d hk ex(4) unfolding sim_inv_def s'_def by simp
  qed
  ultimately show ?thesis by blast
qed

lemma serve_all_ok:
  assumes run: "run_ok args models e requests" and ids: "ids = map fst models" and inv: "sim_inv args models requests ids 0 s"
    and n: "n \<le> length requests"
  shows "\<exists>s'. r_foldl (serve_request args (Some e) requests all_models models []) s (zip [0..<n] (take n requests)) = Inr s'
     \<and> sim_inv args models requests ids n s'"
  using n
proof (induction n)
  case (Suc n)
  then obtain s1 where s1: "r_foldl (serve_request args (Some e) requests all_models models []) s (zip [0..<n] (take n requests)) = Inr s1"
    "sim_inv args models requests ids n s1" by auto
  have n: "n < length requests" using Suc.prems by simp
  then have "zip [0..<Suc n] (take (Suc n) requests) = zip [0..<n] (take n requests) @ [(n, requests ! n)]"
    by (simp add: take_Suc_conv_app_nth)
  moreover obtain s2 where "serve_request args (Some e) requests all_models models [] s1 (n, requests ! n) = Inr s2"
    "sim_inv args models requests ids (Suc n) s2" using serve_request_ok [OF run ids n s1(2)] by blast
  ultimately show ?case using s1(1) by (simp add: r_foldl_append)
qed (use inv in simp)

text \<open>A feasible run has a fresh backend that serves each of its requests.\<close>

lemma run_backend:
  assumes run: "run_ok args ms e requests"
  shows "\<exists>b. make_backend ms args (Some d) = Inr b \<and> any_ok b \<and> (\<forall>r \<in> set requests. served_by ms args r b)"
proof -
  have cfg: "args_stall_table args = None" "layout_ok ms args" using run by (auto simp: run_ok_def layout_ok_def)
  have v: "\<exists>b. make_backend ms args (Some d) = Inr b \<and> any_ok b \<and> served_by ms args r b" if "r \<in> set requests" for r
    using validated_served [OF cfg(2) _ that, of "Some d"] run that by (auto simp: run_ok_def in_set_conv_nth)
  show ?thesis
  proof (cases "requests = []")
    case True
    obtain x where x: "init_backend ms args = Inr x" "any_ok (case args_stall_table args of None \<Rightarrow> x | Some t \<Rightarrow> set_prefix_stall_table (Some t) x)"
      using init_backend_ok [OF cfg(2)] by blast
    then show ?thesis using True cfg(1) by (simp add: make_backend_def)
  next
    case False
    then obtain b where "make_backend ms args (Some d) = Inr b" "any_ok b" using v [of "hd requests"] by auto
    then show ?thesis using v by auto
  qed
qed


section \<open>A concrete run\<close>

definition demo_masks :: "gpu_mask list" where
  "demo_masks = [\<lparr> mask_request_id = 0, available_gpus = [0, 1], busy_gpus = [], forced_available_gpu = None \<rparr>,
     \<lparr> mask_request_id = 1, available_gpus = [1], busy_gpus = [0], forced_available_gpu = None \<rparr>]"

definition demo_run :: run_args where
  "demo_run = aegaeon_args.extend (backend_args.extend
     (sim_args.extend ((demo_args FrequencyLru)\<lparr> memory_layout := TensorPage, page_size_bytes := 64 \<rparr>) (backend_args.fields 400 None))
     (aegaeon_args.fields 40))
     (run_args.fields 2 False False [] CriticalPath None demo_masks False 8 1 1 32 (9 / 10) False OracleNextUse None
        [(MinimalPolicy, 0)])"

definition demo_requests :: "request list" where
  "demo_requests = [\<lparr> request_id = 0, rq_model_id = 1, rq_input_tokens = 20, rq_output_tokens = 12, trace_output_tokens = 12 \<rparr>,
     \<lparr> request_id = 1, rq_model_id = 2, rq_input_tokens = 30, rq_output_tokens = 2, trace_output_tokens = 2 \<rparr>]"

lemmas demo_run_defs = demo_run_def aegaeon_args.defs backend_args.defs sim_args.defs run_args.defs demo_args_def

lemma demo_grouped:
  "models_with_group_size demo_models 0 = demo_models"
  by (simp add: models_with_group_size_def demo_models_def set_tensor_groups_def demo_tensor_model_def demo_tensor_def
      group_step_def close_groups_def dict_of_def)

lemma demo_run_ok: "run_ok demo_run demo_models demo_estimator demo_requests"
proof -
  have "layout_ok demo_models demo_run"
    using demo_models_wf by (simp add: layout_ok_def demo_run_defs args_ok_def)
  moreover have "validate_request_feasibility demo_models demo_requests demo_run = Inr ()"
    by (simp add: validate_request_feasibility_def make_backend_def init_backend_def demo_run_defs tp_init_def tag1_def
        demo_requests_def request_required_def any_ops_def tp_ops_def tp_physical_model_bytes_def tp_pages_def
        mem_init_def mem_base.defs page_mem.defs demo_models_def demo_tensor_model_def ceil_div_def request_kv_bytes_def)
  moreover have "\<forall>(m, model) \<in> set demo_models. m \<in> fst ` set (es_models demo_estimator)
      \<and> (\<forall>t \<in> set (tensors model). 0 \<le> ts_bytes t) \<and> distinct (map tensor_id (tensors model))"
    by (simp add: demo_models_def demo_tensor_model_def demo_tensor_def demo_estimator_def)
  ultimately show ?thesis
    by (simp add: run_ok_def demo_run_defs demo_masks_def demo_requests_def less_Suc_eq)
qed


end
