(* ===== verification/Layer_Mckp.thy ===== *)
theory Layer_Mckp
  imports Pareto_Search
begin

text \<open>
  The packing knapsack of the LayerWeave cache policy (\<open>_pareto_candidates\<close> and \<open>_solve_mckp\<close> of
  \<open>src/tools/layerpipe/layerweave_cache_policy.py\<close>): one protected configuration per model, within
  a number of pages, at the highest expected value. It is the second interpretation of the search
  of \<open>Pareto_Search\<close>.
\<close>

section \<open>Candidates\<close>

datatype configuration = PrefixLayers nat | FullModel

record base_candidate =
  configuration :: configuration
  cand_pages :: "nat set"
  cand_page_count :: nat
  cand_ttft_ms :: rat
  cand_gain_ms :: rat

record candidate = base_candidate +
  effective_demand :: rat
  expected_value_ms :: rat

fun candidate_scan :: "candidate list \<Rightarrow> rat \<Rightarrow> candidate list" where
  "candidate_scan [] best_value = []"
| "candidate_scan (c # cs) best_value =
     (if expected_value_ms c \<le> best_value then candidate_scan cs best_value
      else c # candidate_scan cs (expected_value_ms c))"

definition pareto_candidates :: "candidate list \<Rightarrow> candidate list" where
  "pareto_candidates candidates =
     candidate_scan (sort_key (\<lambda>c. (cand_page_count c, - expected_value_ms c)) candidates) (- 1)"

section \<open>The solver\<close>

type_synonym pack_state = "nat \<times> rat \<times> (int \<times> candidate) list"

fun pack_used :: "pack_state \<Rightarrow> nat" where
  "pack_used (used, value, choices) = used"

fun pack_value :: "pack_state \<Rightarrow> rat" where
  "pack_value (used, value, choices) = value"

fun pack_state :: "pack_state \<Rightarrow> int \<times> candidate \<Rightarrow> pack_state" where
  "pack_state (used, value, choices) (model_id, c) =
     (used + cand_page_count c, value + expected_value_ms c, AList.update model_id c choices)"

fun pack_scan :: "pack_state list \<Rightarrow> rat \<Rightarrow> pack_state list" where
  "pack_scan [] best_value = []"
| "pack_scan (s # ss) best_value =
     (if pack_value s > best_value then s # pack_scan ss (pack_value s) else pack_scan ss best_value)"

text \<open>The states of one more model: those within the capacity, the best per page count, in order.\<close>

definition next_states :: "int \<Rightarrow> pack_state list \<Rightarrow> pack_state list" where
  "next_states capacity states =
     map snd (best_by pack_used (\<lambda>a b. pack_value a > pack_value b) (filter (\<lambda>s. int (pack_used s) \<le> capacity) states))"

definition prune_states :: "int \<Rightarrow> pack_state list \<Rightarrow> pack_state list" where
  "prune_states capacity states = pack_scan (sort_key pack_used (next_states capacity states)) (- 1)"

definition pack_step ::
  "(int \<times> candidate list) list \<Rightarrow> int \<Rightarrow> pack_state list \<Rightarrow> int \<Rightarrow> pack_state list result" where
  "pack_step model_candidates capacity states model_id =
     r_bind (dict_get model_candidates model_id) (\<lambda>candidates.
       let expanded = expand_states pack_state states (map (Pair model_id) candidates) in
       if next_states capacity expanded = [] then Inl (RuntimeError ''No feasible protected-cache configuration'')
       else Inr (prune_states capacity expanded))"

record pack_solution =
  used_pages :: nat
  solution_value_ms :: rat
  solution_choices :: "(int \<times> candidate) list"

definition solve_mckp :: "(int \<times> candidate list) list \<Rightarrow> int \<Rightarrow> pack_solution result" where
  "solve_mckp model_candidates capacity =
     r_bind (r_foldl (pack_step model_candidates capacity) [(0, 0, [])] (sort (map fst model_candidates))) (\<lambda>states.
       case arg_min_list (\<lambda>s. (- pack_value s, pack_used s)) states of
         (used, value, choices) \<Rightarrow> Inr \<lparr> used_pages = used, solution_value_ms = value, solution_choices = choices \<rparr>)"

section \<open>Pruning loses nothing\<close>

definition pack_dominates :: "pack_state \<Rightarrow> pack_state \<Rightarrow> bool" where
  "pack_dominates s' s \<longleftrightarrow> pack_used s' \<le> pack_used s \<and> pack_value s \<le> pack_value s'"

lemma pack_state_proj [simp]:
  "pack_used (pack_state s mc) = pack_used s + cand_page_count (snd mc)"
  "pack_value (pack_state s mc) = pack_value s + expected_value_ms (snd mc)"
  by (cases s; cases mc; simp)+

lemma pack_scan_subset: "set (pack_scan ss best) \<subseteq> set ss"
  by (induction ss best rule: pack_scan.induct) auto

lemma pack_scan_covers:
  "sorted_wrt (\<lambda>a b. pack_used a \<le> pack_used b) ss \<Longrightarrow> s \<in> set ss \<Longrightarrow>
   pack_value s \<le> best \<or> (\<exists>s' \<in> set (pack_scan ss best). pack_dominates s' s)"
proof (induction ss best rule: pack_scan.induct)
  case (2 x ss best)
  show ?case
  proof (cases "pack_value x > best")
    case True
    then show ?thesis using 2 by (cases "s = x") (auto simp: pack_dominates_def)
  next
    case False
    then show ?thesis using 2 by (cases "s = x") auto
  qed
qed simp

lemma next_states_facts:
  "set (next_states capacity states) \<subseteq> {s \<in> set states. int (pack_used s) \<le> capacity}"
  "s \<in> set states \<Longrightarrow> int (pack_used s) \<le> capacity \<Longrightarrow>
     \<exists>s' \<in> set (next_states capacity states). pack_used s' = pack_used s \<and> pack_value s \<le> pack_value s'"
proof -
  let ?fit = "filter (\<lambda>s. int (pack_used s) \<le> capacity) states"
  have better: "\<And>a b. pack_value a > pack_value b \<longleftrightarrow> - pack_value a < - pack_value b" by simp
  show "set (next_states capacity states) \<subseteq> {s \<in> set states. int (pack_used s) \<le> capacity}"
    using best_by_values(1) [OF better, where key = pack_used and states = ?fit] unfolding next_states_def by auto
  assume "s \<in> set states" "int (pack_used s) \<le> capacity"
  then have "s \<in> set ?fit" by simp
  from best_by_values(2) [OF better this, where key = pack_used]
  show "\<exists>s' \<in> set (next_states capacity states). pack_used s' = pack_used s \<and> pack_value s \<le> pack_value s'"
    unfolding next_states_def by auto
qed

lemma prune_states_subset: "set (prune_states capacity states) \<subseteq> {s \<in> set states. int (pack_used s) \<le> capacity}"
proof -
  have "set (prune_states capacity states) \<subseteq> set (next_states capacity states)"
    unfolding prune_states_def using pack_scan_subset by fastforce
  with next_states_facts(1) show ?thesis by (rule order_trans [rotated])
qed

lemma prune_states_dominates:
  assumes "\<forall>s \<in> set states. 0 \<le> pack_value s" "s \<in> set states" "int (pack_used s) \<le> capacity"
  shows "\<exists>s' \<in> set (prune_states capacity states). pack_dominates s' s"
proof -
  obtain s1 where s1: "s1 \<in> set (next_states capacity states)" "pack_used s1 = pack_used s" "pack_value s \<le> pack_value s1"
    using next_states_facts(2) [OF assms(2,3)] by blast
  have "sorted_wrt (\<lambda>a b. pack_used a \<le> pack_used b) (sort_key pack_used (next_states capacity states))"
    using sorted_sort_key [of pack_used "next_states capacity states"] by (simp add: sorted_map)
  moreover have "s1 \<in> set (sort_key pack_used (next_states capacity states))" using s1(1) by simp
  ultimately have "pack_value s1 \<le> - 1 \<or> (\<exists>s' \<in> set (prune_states capacity states). pack_dominates s' s1)"
    unfolding prune_states_def by (rule pack_scan_covers)
  moreover have "0 \<le> pack_value s1" using s1(3) assms(1,2) by force
  ultimately show ?thesis using s1(2,3) by (auto simp: pack_dominates_def)
qed

lemma prune_states_Nil: "prune_states capacity states = [] \<Longrightarrow> \<forall>s \<in> set states. 0 \<le> pack_value s \<Longrightarrow> next_states capacity states = []"
proof (rule ccontr)
  assume empty: "prune_states capacity states = []" and inv: "\<forall>s \<in> set states. 0 \<le> pack_value s"
  assume "next_states capacity states \<noteq> []"
  then obtain s where "s \<in> set (next_states capacity states)" by (meson list.set_sel(1))
  then show False using next_states_facts(1) prune_states_dominates [OF inv] empty by fastforce
qed

definition good_candidate :: "int \<times> candidate \<Rightarrow> bool" where
  "good_candidate mc \<longleftrightarrow> 0 \<le> expected_value_ms (snd mc)"

interpretation packing: pareto_prune "\<lambda>s. 0 \<le> pack_value s" pack_dominates "\<lambda>s. int (pack_used s) \<le> capacity" pack_state
    good_candidate "prune_states capacity" for capacity
proof unfold_locales
  show "\<forall>s \<in> set states. 0 \<le> pack_value s \<Longrightarrow> s \<in> set states \<Longrightarrow> int (pack_used s) \<le> capacity \<Longrightarrow>
      \<exists>s' \<in> set (prune_states capacity states). pack_dominates s' s" for s states by (rule prune_states_dominates)
qed (use prune_states_subset in \<open>auto simp: pack_dominates_def good_candidate_def\<close>)

section \<open>Exactness\<close>

text \<open>A selection gives every model one of its candidates.\<close>

definition valid_selection :: "(int \<times> candidate list) list \<Rightarrow> (int \<Rightarrow> candidate) \<Rightarrow> bool" where
  "valid_selection mcs f \<longleftrightarrow> (\<forall>(m, cs) \<in> set mcs. f m \<in> set cs)"

definition selection_pages :: "(int \<times> candidate list) list \<Rightarrow> (int \<Rightarrow> candidate) \<Rightarrow> nat" where
  "selection_pages mcs f = (\<Sum>m \<leftarrow> map fst mcs. cand_page_count (f m))"

definition selection_value :: "(int \<times> candidate list) list \<Rightarrow> (int \<Rightarrow> candidate) \<Rightarrow> rat" where
  "selection_value mcs f = (\<Sum>m \<leftarrow> map fst mcs. expected_value_ms (f m))"

definition cands_of :: "(int \<times> candidate list) list \<Rightarrow> int \<Rightarrow> candidate list" where
  "cands_of mcs m = (case map_of mcs m of None \<Rightarrow> [] | Some cs \<Rightarrow> cs)"

definition model_options :: "(int \<times> candidate list) list \<Rightarrow> int list \<Rightarrow> (int \<times> candidate) list list" where
  "model_options mcs ms = map (\<lambda>m. map (Pair m) (cands_of mcs m)) ms"

lemma pack_selected:
  assumes "distinct ms" "fst ` set choices \<inter> set ms = {}"
  shows "foldl pack_state (used, v, choices) (map (\<lambda>m. (m, f m)) ms)
     = (used + (\<Sum>m \<leftarrow> ms. cand_page_count (f m)), v + (\<Sum>m \<leftarrow> ms. expected_value_ms (f m)), choices @ map (\<lambda>m. (m, f m)) ms)"
  using assms
proof (induction ms arbitrary: used v choices)
  case (Cons m ms)
  then have new: "AList.update m (f m) choices = choices @ [(m, f m)]" by (intro update_new) auto
  have "fst ` set (choices @ [(m, f m)]) \<inter> set ms = {}" using Cons.prems by auto
  then show ?case using Cons.IH [of "choices @ [(m, f m)]"] Cons.prems(1) by (simp add: new add.assoc)
qed simp

lemma all_selections:
  assumes "distinct ms"
  shows "s \<in> all_states pack_state s0 (model_options mcs ms) \<longleftrightarrow>
     (\<exists>f. (\<forall>m \<in> set ms. f m \<in> set (cands_of mcs m)) \<and> s = foldl pack_state s0 (map (\<lambda>m. (m, f m)) ms))"
  using assms
proof (induction ms arbitrary: s0)
  case (Cons m ms)
  show ?case (is "?lhs = ?rhs")
  proof
    assume ?lhs
    then obtain c where c: "c \<in> set (cands_of mcs m)" "s \<in> all_states pack_state (pack_state s0 (m, c)) (model_options mcs ms)"
      by (auto simp: model_options_def all_states_Cons)
    then obtain f where f: "\<forall>m \<in> set ms. f m \<in> set (cands_of mcs m)"
        "s = foldl pack_state (pack_state s0 (m, c)) (map (\<lambda>m. (m, f m)) ms)" using Cons by auto
    have "map (\<lambda>k. (k, (f(m := c)) k)) ms = map (\<lambda>m. (m, f m)) ms" using Cons.prems by auto
    then have "s = foldl pack_state s0 (map (\<lambda>k. (k, (f(m := c)) k)) (m # ms))"
      unfolding list.map(2) foldl_Cons f(2) by (simp only: fun_upd_same)
    moreover have "\<forall>k \<in> set (m # ms). (f(m := c)) k \<in> set (cands_of mcs k)" using c(1) f(1) by simp
    ultimately show ?rhs by blast
  next
    assume ?rhs
    then obtain f where f: "\<forall>k \<in> set (m # ms). f k \<in> set (cands_of mcs k)"
        "s = foldl pack_state (pack_state s0 (m, f m)) (map (\<lambda>m. (m, f m)) ms)" by auto
    then have "s \<in> all_states pack_state (pack_state s0 (m, f m)) (model_options mcs ms)" using Cons by auto
    then show ?lhs using f(1) by (auto simp: model_options_def all_states_Cons)
  qed
qed (simp add: model_options_def)

lemma search_Nil: "search (prune_states capacity) pack_state [] oss = []"
  by (induction oss) (simp_all add: expand_states_def prune_states_def next_states_def best_by_def)

lemma pack_fold:
  fixes capacity :: int
  assumes "\<forall>s \<in> set states. 0 \<le> pack_value s" "states \<noteq> []" "set ms \<subseteq> fst ` set mcs"
    and "\<forall>m \<in> set ms. \<forall>c \<in> set (cands_of mcs m). 0 \<le> expected_value_ms c"
  defines "found \<equiv> search (prune_states capacity) pack_state states (model_options mcs ms)"
  shows "r_foldl (pack_step mcs capacity) states ms
     = (if found = [] then Inl (RuntimeError ''No feasible protected-cache configuration'') else Inr found)"
  unfolding found_def using assms(1-4)
proof (induction ms arbitrary: states)
  case (Cons m ms)
  let ?exp = "expand_states pack_state states (map (Pair m) (cands_of mcs m))"
  have get: "dict_get mcs m = Inr (cands_of mcs m)"
    using Cons.prems(3) map_of_mem [of m mcs] by (auto simp: cands_of_def)
  have inv: "\<forall>s \<in> set ?exp. 0 \<le> pack_value s" using Cons.prems(1,4) by auto
  show ?case
  proof (cases "next_states capacity ?exp = []")
    case True
    then have "prune_states capacity ?exp = []" by (simp add: prune_states_def)
    with True show ?thesis by (simp add: pack_step_def get model_options_def search_Nil)
  next
    case False
    then have "prune_states capacity ?exp \<noteq> []" using prune_states_Nil [OF _ inv] by blast
    moreover have "\<forall>s \<in> set (prune_states capacity ?exp). 0 \<le> pack_value s" using inv prune_states_subset by fast
    ultimately show ?thesis
      using Cons.IH [of "prune_states capacity ?exp"] Cons.prems(3,4) False
      by (simp add: pack_step_def get model_options_def Let_def)
  qed
qed (simp add: model_options_def)

lemma solve_mckp_cases:
  assumes keys: "distinct (map fst mcs)" and vals: "\<forall>(m, cs) \<in> set mcs. \<forall>c \<in> set cs. 0 \<le> expected_value_ms c" and cap: "0 \<le> capacity"
  obtains (infeasible) "solve_mckp mcs capacity = Inl (RuntimeError ''No feasible protected-cache configuration'')"
      "\<And>g. valid_selection mcs g \<Longrightarrow> capacity < int (selection_pages mcs g)"
  | (solved) f where "valid_selection mcs f" "int (selection_pages mcs f) \<le> capacity"
      "solve_mckp mcs capacity = Inr \<lparr> used_pages = selection_pages mcs f, solution_value_ms = selection_value mcs f,
         solution_choices = map (\<lambda>m. (m, f m)) (sort (map fst mcs)) \<rparr>"
      "\<And>g. valid_selection mcs g \<Longrightarrow> int (selection_pages mcs g) \<le> capacity \<Longrightarrow>
         selection_value mcs g \<le> selection_value mcs f
         \<and> (selection_value mcs g = selection_value mcs f \<longrightarrow> selection_pages mcs f \<le> selection_pages mcs g)"
proof -
  let ?ms = "sort (map fst mcs)" and ?s0 = "(0, 0, []) :: pack_state"
  let ?oss = "model_options mcs ?ms"
  let ?F = "search (prune_states capacity) pack_state [?s0] ?oss"
  have dis: "distinct ?ms" using keys by simp
  have perm: "(\<Sum>m \<leftarrow> ?ms. h m) = (\<Sum>m \<leftarrow> map fst mcs. h m)" for h :: "int \<Rightarrow> 'b :: comm_monoid_add"
    by (metis mset_map mset_sort sum_mset_sum_list)
  have cands: "cands_of mcs m = cs" if "(m, cs) \<in> set mcs" for m cs
    using that keys by (simp add: cands_of_def)
  have good: "\<forall>os \<in> set ?oss. \<forall>x \<in> set os. good_candidate x"
    using vals cands by (fastforce simp: model_options_def good_candidate_def)
  have valid: "valid_selection mcs g \<longleftrightarrow> (\<forall>m \<in> set ?ms. g m \<in> set (cands_of mcs m))" for g
    using cands by (fastforce simp: valid_selection_def)
  have state: "foldl pack_state ?s0 (map (\<lambda>m. (m, g m)) ?ms)
      = (selection_pages mcs g, selection_value mcs g, map (\<lambda>m. (m, g m)) ?ms)" for g
    using pack_selected [OF dis, of "[]" 0 0 g] by (simp add: perm selection_pages_def selection_value_def)
  have all: "s \<in> all_states pack_state ?s0 ?oss \<longleftrightarrow>
      (\<exists>g. valid_selection mcs g \<and> s = (selection_pages mcs g, selection_value mcs g, map (\<lambda>m. (m, g m)) ?ms))" for s
    unfolding all_selections [OF dis] valid state by blast
  have fold: "r_foldl (pack_step mcs capacity) [?s0] ?ms
      = (if ?F = [] then Inl (RuntimeError ''No feasible protected-cache configuration'') else Inr ?F)"
    by (rule pack_fold) (use vals cands in fastforce)+
  have complete: "\<exists>s' \<in> set ?F. pack_dominates s' (selection_pages mcs g, selection_value mcs g, map (\<lambda>m. (m, g m)) ?ms)"
    if "valid_selection mcs g" "int (selection_pages mcs g) \<le> capacity" for g
    by (rule packing.search_complete [OF good, of ?s0]) (use that all in auto)
  show thesis
  proof (cases "?F = []")
    case True
    have "capacity < int (selection_pages mcs g)" if "valid_selection mcs g" for g
    proof (rule ccontr)
      assume "\<not> capacity < int (selection_pages mcs g)"
      then show False using complete [OF that] True by auto
    qed
    moreover have "solve_mckp mcs capacity = Inl (RuntimeError ''No feasible protected-cache configuration'')"
      using fold True by (simp add: solve_mckp_def)
    ultimately show thesis by (rule infeasible [rotated])
  next
    case False
    let ?rank = "\<lambda>s. (- pack_value s, pack_used s)"
    define s where "s = arg_min_list ?rank ?F"
    have sF: "s \<in> set ?F" unfolding s_def by (rule arg_min_list_mem [OF False])
    obtain f where f: "valid_selection mcs f" "s = (selection_pages mcs f, selection_value mcs f, map (\<lambda>m. (m, f m)) ?ms)"
      using packing.search_sound [OF sF] all by auto
    have "int (pack_used s) \<le> capacity" using packing.search_viable [OF _ sF] cap by simp
    then have fits: "int (selection_pages mcs f) \<le> capacity" using f(2) by simp
    have best: "selection_value mcs g \<le> selection_value mcs f
         \<and> (selection_value mcs g = selection_value mcs f \<longrightarrow> selection_pages mcs f \<le> selection_pages mcs g)"
      if g: "valid_selection mcs g" "int (selection_pages mcs g) \<le> capacity" for g
    proof -
      obtain s' where s': "s' \<in> set ?F" "pack_used s' \<le> selection_pages mcs g" "selection_value mcs g \<le> pack_value s'"
        using complete [OF g] by (auto simp: pack_dominates_def)
      have "?rank s \<le> ?rank s'" unfolding s_def by (rule arg_min_list_le [OF s'(1)])
      then show ?thesis using s' f(2) by (auto simp: less_eq_prod_def)
    qed
    have "solve_mckp mcs capacity = Inr \<lparr> used_pages = selection_pages mcs f, solution_value_ms = selection_value mcs f,
         solution_choices = map (\<lambda>m. (m, f m)) ?ms \<rparr>"
      using fold False s_def [symmetric] f(2) by (simp add: solve_mckp_def)
    from solved [OF f(1) fits this best] show thesis .
  qed
qed

text \<open>
  C9. The protected-cache knapsack is exact. With non-negative expected values the solver either
  reports an error, and then no way to give every model one of its configurations fits the pages,
  or it returns a configuration per model that fits, of the highest total value among all that
  fit and of the fewest pages among those of that value.
\<close>

theorem solve_mckp_exact:
  assumes "distinct (map fst mcs)" and "\<forall>(m, cs) \<in> set mcs. \<forall>c \<in> set cs. 0 \<le> expected_value_ms c" and "0 \<le> capacity"
  shows "(\<exists>e. solve_mckp mcs capacity = Inl e) \<and> (\<forall>g. valid_selection mcs g \<longrightarrow> capacity < int (selection_pages mcs g))
    \<or> (\<exists>sol f. solve_mckp mcs capacity = Inr sol \<and> valid_selection mcs f \<and> int (selection_pages mcs f) \<le> capacity
        \<and> used_pages sol = selection_pages mcs f \<and> solution_value_ms sol = selection_value mcs f
        \<and> solution_choices sol = map (\<lambda>m. (m, f m)) (sort (map fst mcs))
        \<and> (\<forall>g. valid_selection mcs g \<and> int (selection_pages mcs g) \<le> capacity \<longrightarrow>
             selection_value mcs g \<le> selection_value mcs f
             \<and> (selection_value mcs g = selection_value mcs f \<longrightarrow> selection_pages mcs f \<le> selection_pages mcs g)))"
  using assms by (cases rule: solve_mckp_cases) auto

definition demo_candidate :: "configuration \<Rightarrow> nat set \<Rightarrow> rat \<Rightarrow> candidate" where
  "demo_candidate cfg pages value = \<lparr> configuration = cfg, cand_pages = pages, cand_page_count = card pages, cand_ttft_ms = 100 - value,
     cand_gain_ms = value, effective_demand = 1, expected_value_ms = value \<rparr>"

definition demo_mcs :: "(int \<times> candidate list) list" where
  "demo_mcs = [(2, [demo_candidate (PrefixLayers 0) {} 0, demo_candidate FullModel {0, 1, 2} 5]),
               (1, [demo_candidate (PrefixLayers 0) {} 0, demo_candidate (PrefixLayers 2) {0, 1} 4])]"

theorem solve_mckp_exact_witness:
  "\<exists>sol. solve_mckp demo_mcs 4 = Inr sol \<and> 5 \<le> solution_value_ms sol"
proof -
  let ?g = "\<lambda>m. if m = (2 :: int) then demo_candidate FullModel {0, 1, 2} 5 else demo_candidate (PrefixLayers 0) {} 0"
  have 1: "distinct (map fst demo_mcs)" "\<forall>(m, cs) \<in> set demo_mcs. \<forall>c \<in> set cs. 0 \<le> expected_value_ms c"
    by (simp_all add: demo_mcs_def demo_candidate_def)
  have g: "valid_selection demo_mcs ?g" "int (selection_pages demo_mcs ?g) \<le> 4" "selection_value demo_mcs ?g = 5"
    by (simp_all add: valid_selection_def selection_pages_def selection_value_def demo_mcs_def demo_candidate_def)
  from solve_mckp_exact [OF 1, of 4] g show ?thesis by fastforce
qed

end
