(* ===== verification/Least_Squares.thy ===== *)
theory Least_Squares
  imports Py_Prelude
begin

text \<open>
  The regressions of the LayerWeave estimator (\<open>linear_fit\<close>, \<open>quadratic_fit\<close> and \<open>ridge_fit\<close> of
  \<open>src/tools/layerpipe/layerweave_estimator.py\<close>): normal equations solved by Gauss-Jordan
  elimination with partial pivoting. A matrix is the list of its rows; the last entry of a row is
  its right-hand side.
\<close>

section \<open>Elimination\<close>

definition pivot_row :: "rat list list \<Rightarrow> nat \<Rightarrow> nat \<Rightarrow> nat" where
  "pivot_row matrix column width = arg_min_list (\<lambda>row. - \<bar>matrix ! row ! column\<bar>) [column..<width]"

definition tiny_pivot :: "rat list list \<Rightarrow> nat \<Rightarrow> nat \<Rightarrow> bool" where
  "tiny_pivot matrix column width \<longleftrightarrow> \<bar>matrix ! pivot_row matrix column width ! column\<bar> < 1 / 10 ^ 12"

text \<open>Swap the pivot row up, normalise it, clear the column in every other row.\<close>

definition eliminate :: "rat list list \<Rightarrow> nat \<Rightarrow> nat \<Rightarrow> rat list list" where
  "eliminate matrix column width =
     (let pivot = pivot_row matrix column width;
          swapped = matrix[column := matrix ! pivot, pivot := matrix ! column];
          divisor = swapped ! column ! column;
          unit = map (\<lambda>value. value / divisor) (swapped ! column) in
      map (\<lambda>row. if row = column then unit
             else map (\<lambda>index. swapped ! row ! index - swapped ! row ! column * unit ! index) [0..<Suc width])
        [0..<width])"

definition solution :: "rat list list \<Rightarrow> rat list" where
  "solution matrix = map last matrix"

section \<open>The fits\<close>

definition normal_rows :: "(rat list \<times> rat) list \<Rightarrow> nat \<Rightarrow> rat \<Rightarrow> rat list list" where
  "normal_rows samples width regularization =
     map (\<lambda>row. map (\<lambda>column. (\<Sum>(features, _) \<leftarrow> samples. features ! row * features ! column)
                        + (if row = column then regularization else 0)) [0..<width]
                @ [\<Sum>(features, value) \<leftarrow> samples. features ! row * value]) [0..<width]"

definition ridge_step :: "nat \<Rightarrow> rat list list \<Rightarrow> nat \<Rightarrow> rat list list" where
  "ridge_step width matrix column = (if tiny_pivot matrix column width then matrix else eliminate matrix column width)"

definition ridge_fit :: "(rat list \<times> rat) list \<Rightarrow> rat \<Rightarrow> rat list" where
  "ridge_fit samples regularization =
     (if samples = [] then replicate 5 0
      else let width = length (fst (hd samples)) in
        solution (foldl (ridge_step width) (normal_rows samples width regularization) [0..<width]))"

definition linear_fit :: "(rat \<times> rat) list \<Rightarrow> rat \<times> rat" where
  "linear_fit samples =
     (case samples of
        [] \<Rightarrow> (0, 0)
      | [(x, y)] \<Rightarrow> (0, y / max 1 x)
      | _ \<Rightarrow>
        let n = of_nat (length samples);
            mean_x = (\<Sum>(x, _) \<leftarrow> samples. x) / n;
            mean_y = (\<Sum>(_, y) \<leftarrow> samples. y) / n;
            denominator = (\<Sum>(x, _) \<leftarrow> samples. (x - mean_x)\<^sup>2) in
        if denominator \<le> 0 then (mean_y, 0)
        else let slope = (\<Sum>(x, y) \<leftarrow> samples. (x - mean_x) * (y - mean_y)) / denominator;
                 intercept = mean_y - slope * mean_x in
             (max 0 intercept, max 0 slope))"

text \<open>The columns one after the other; \<open>None\<close> when a pivot is too small.\<close>

fun eliminate_all :: "nat \<Rightarrow> rat list list \<Rightarrow> nat list \<Rightarrow> rat list list option" where
  "eliminate_all width matrix [] = Some matrix"
| "eliminate_all width matrix (column # columns) =
     (if tiny_pivot matrix column width then None else eliminate_all width (eliminate matrix column width) columns)"

definition quadratic_fit :: "(rat \<times> rat) list \<Rightarrow> rat \<times> rat \<times> rat" where
  "quadratic_fit samples =
     (let fallback = (case linear_fit samples of (intercept, slope) \<Rightarrow> (intercept, slope, 0)) in
      if length (remdups (map fst samples)) < 3 then fallback
      else let power_sums = map (\<lambda>power. \<Sum>(x, _) \<leftarrow> samples. x ^ power) [0..<5];
               rhs = map (\<lambda>power. \<Sum>(x, y) \<leftarrow> samples. x ^ power * y) [0..<3];
               matrix = map (\<lambda>row. [power_sums ! row, power_sums ! (row + 1), power_sums ! (row + 2), rhs ! row]) [0..<3] in
           case eliminate_all 3 matrix [0..<3] of
             None \<Rightarrow> fallback
           | Some m \<Rightarrow> (last (m ! 0), last (m ! 1), last (m ! 2)))"

section \<open>Elimination keeps the solutions\<close>

definition matrix_ok :: "nat \<Rightarrow> rat list list \<Rightarrow> bool" where
  "matrix_ok n M \<longleftrightarrow> length M = n \<and> (\<forall>row \<in> set M. length row = Suc n)"

definition solves :: "nat \<Rightarrow> rat list list \<Rightarrow> (nat \<Rightarrow> rat) \<Rightarrow> bool" where
  "solves n M x \<longleftrightarrow> (\<forall>i < n. (\<Sum>k<n. M ! i ! k * x k) = M ! i ! n)"

definition unit_columns :: "nat \<Rightarrow> rat list list \<Rightarrow> nat \<Rightarrow> bool" where
  "unit_columns n M c \<longleftrightarrow> (\<forall>k < c. \<forall>i < n. M ! i ! k = (if i = k then 1 else 0))"

lemma pivot_row_range: "c < n \<Longrightarrow> c \<le> pivot_row M c n \<and> pivot_row M c n < n"
proof -
  assume "c < n"
  then have "arg_min_list (\<lambda>row. - \<bar>M ! row ! c\<bar>) [c..<n] \<in> set [c..<n]" by (intro arg_min_list_mem) simp
  then show ?thesis by (simp add: pivot_row_def)
qed

lemma eliminate_nth:
  assumes "matrix_ok n M" "c < n" "i < n" "k \<le> n"
  defines "p \<equiv> pivot_row M c n"
  shows "eliminate M c n ! i ! k =
     (if i = c then M ! p ! k / M ! p ! c
      else let r = (if i = p then c else i) in M ! r ! k - M ! r ! c * (M ! p ! k / M ! p ! c))"
proof -
  have p: "c \<le> p" "p < n" using pivot_row_range [OF assms(2)] by (auto simp: p_def)
  have len: "length M = n" "length (M ! p) = Suc n" using assms(1) p by (auto simp: matrix_ok_def)
  have sw: "M[c := M ! p, p := M ! c] ! j = (if j = p then M ! c else if j = c then M ! p else M ! j)" if "j < n" for j
    using that p len assms(2) by (simp add: nth_list_update)
  show ?thesis
    using assms(2-4) p len by (simp add: eliminate_def p_def [symmetric] Let_def sw del: upt_Suc)
qed

lemma eliminate_ok: "matrix_ok n M \<Longrightarrow> c < n \<Longrightarrow> matrix_ok n (eliminate M c n)"
  using pivot_row_range [of c n M]
  by (auto simp: matrix_ok_def eliminate_def Let_def nth_list_update)

lemma eliminate_units:
  assumes "matrix_ok n M" "c < n" "unit_columns n M c" "M ! pivot_row M c n ! c \<noteq> 0"
  shows "unit_columns n (eliminate M c n) (Suc c)"
proof -
  let ?p = "pivot_row M c n"
  have p: "c \<le> ?p" "?p < n" using pivot_row_range [OF assms(2)] by auto
  show ?thesis unfolding unit_columns_def
  proof (intro allI impI)
    fix k i assume k: "k < Suc c" and i: "i < n"
    show "eliminate M c n ! i ! k = (if i = k then 1 else 0)"
    proof (cases "k = c")
      case True
      then show ?thesis using assms(2,4) i by (simp add: eliminate_nth [OF assms(1,2) i] Let_def)
    next
      case False
      then have "k < c" using k by simp
      then have col: "M ! j ! k = (if j = k then 1 else 0)" if "j < n" for j
        using assms(3) that by (simp add: unit_columns_def)
      show ?thesis using \<open>k < c\<close> p assms(2) i
        by (auto simp: eliminate_nth [OF assms(1,2) i] Let_def col)
    qed
  qed
qed

lemma eliminate_solves:
  assumes ok: "matrix_ok n M" and c: "c < n" and nz: "M ! pivot_row M c n ! c \<noteq> 0"
    and sol: "solves n (eliminate M c n) x"
  shows "solves n M x"
proof -
  let ?p = "pivot_row M c n" let ?E = "eliminate M c n"
  define d where "d = M ! ?p ! c"
  have p: "c \<le> ?p" "?p < n" using pivot_row_range [OF c] by auto
  have eq: "(\<Sum>k<n. ?E ! i ! k * x k) = ?E ! i ! n" if "i < n" for i using sol that by (simp add: solves_def)
  have row: "(\<Sum>k<n. M ! ?p ! k * x k) = M ! ?p ! n"
  proof -
    have "(\<Sum>k<n. M ! ?p ! k * x k) = d * (\<Sum>k<n. ?E ! c ! k * x k)"
      using nz by (simp add: eliminate_nth [OF ok c c] sum_distrib_left d_def)
    then show ?thesis using eq [OF c] nz by (simp add: eliminate_nth [OF ok c c] d_def)
  qed
  have other: "(\<Sum>k<n. M ! r ! k * x k) = M ! r ! n" if i: "i < n" "i \<noteq> c" and r: "r = (if i = ?p then c else i)" for i r
  proof -
    have "(\<Sum>k<n. ?E ! i ! k * x k) = (\<Sum>k<n. (M ! r ! k - M ! r ! c * (M ! ?p ! k / d)) * x k)"
      using i r by (intro sum.cong) (simp_all add: eliminate_nth [OF ok c i(1)] Let_def d_def)
    also have "\<dots> = (\<Sum>k<n. M ! r ! k * x k) - M ! r ! c / d * (\<Sum>k<n. M ! ?p ! k * x k)"
      by (simp add: sum_distrib_left sum_subtractf [symmetric] algebra_simps)
    finally have "(\<Sum>k<n. M ! r ! k * x k) - M ! r ! c / d * M ! ?p ! n = ?E ! i ! n"
      using eq [OF i(1)] row by simp
    also have "?E ! i ! n = M ! r ! n - M ! r ! c * (M ! ?p ! n / d)"
      using i r by (simp add: eliminate_nth [OF ok c i(1)] Let_def d_def)
    finally show ?thesis by simp
  qed
  show ?thesis unfolding solves_def
  proof (intro allI impI)
    fix j assume j: "j < n"
    show "(\<Sum>k<n. M ! j ! k * x k) = M ! j ! n"
      using row other [of ?p c] other [of j j] p j c by (cases "j = ?p"; cases "j = c") auto
  qed
qed

definition regular :: "nat \<Rightarrow> rat list list \<Rightarrow> bool" where
  "regular n M \<longleftrightarrow> (\<forall>c < n. \<not> tiny_pivot (foldl (ridge_step n) M [0..<c]) c n)"

lemma ridge_steps_solve:
  assumes ok: "matrix_ok n M" and reg: "regular n M"
  shows "c \<le> n \<Longrightarrow> matrix_ok n (foldl (ridge_step n) M [0..<c]) \<and> unit_columns n (foldl (ridge_step n) M [0..<c]) c
     \<and> (\<forall>x. solves n (foldl (ridge_step n) M [0..<c]) x \<longrightarrow> solves n M x)"
proof (induction c)
  case 0
  then show ?case using ok by (simp add: unit_columns_def)
next
  case (Suc c)
  let ?M = "foldl (ridge_step n) M [0..<c]"
  have c: "c < n" using Suc.prems by simp
  have nt: "\<not> tiny_pivot ?M c n" using reg c by (simp add: regular_def)
  then have nz: "?M ! pivot_row ?M c n ! c \<noteq> 0" by (auto simp: tiny_pivot_def)
  have step: "foldl (ridge_step n) M [0..<Suc c] = eliminate ?M c n" using nt by (simp add: ridge_step_def)
  have IH: "matrix_ok n ?M" "unit_columns n ?M c" "\<forall>x. solves n ?M x \<longrightarrow> solves n M x" using Suc by auto
  show ?case unfolding step
    using eliminate_ok [OF IH(1) c] eliminate_units [OF IH(1) c IH(2) nz] eliminate_solves [OF IH(1) c nz] IH(3) by blast
qed

lemma units_solution:
  assumes "matrix_ok n M" "unit_columns n M n"
  shows "solves n M (\<lambda>k. solution M ! k)" "length (solution M) = n"
proof -
  have last: "solution M ! i = M ! i ! n" if "i < n" for i
  proof -
    have "length (M ! i) = Suc n" "length M = n" using assms(1) that by (auto simp: matrix_ok_def)
    then show ?thesis using that by (cases "M ! i" rule: rev_cases) (auto simp: solution_def)
  qed
  have "(\<Sum>k<n. M ! i ! k * solution M ! k) = M ! i ! n" if "i < n" for i
  proof -
    have "(\<Sum>k<n. M ! i ! k * solution M ! k) = (\<Sum>k<n. if i = k then solution M ! k else 0)"
      using assms(2) that by (intro sum.cong) (auto simp: unit_columns_def)
    then show ?thesis using that last by simp
  qed
  then show "solves n M (\<lambda>k. solution M ! k)" by (simp add: solves_def)
  show "length (solution M) = n" using assms(1) by (simp add: solution_def matrix_ok_def)
qed

section \<open>Optimality of the ridge regression\<close>

definition predicted :: "nat \<Rightarrow> (nat \<Rightarrow> rat) \<Rightarrow> rat list \<Rightarrow> rat" where
  "predicted n x features = (\<Sum>k<n. features ! k * x k)"

text \<open>The regularised squared error of a coefficient vector.\<close>

definition ridge_loss :: "(rat list \<times> rat) list \<Rightarrow> rat \<Rightarrow> nat \<Rightarrow> (nat \<Rightarrow> rat) \<Rightarrow> rat" where
  "ridge_loss samples lambda n x =
     (\<Sum>(features, value) \<leftarrow> samples. (predicted n x features - value)\<^sup>2) + lambda * (\<Sum>k<n. (x k)\<^sup>2)"

lemma normal_rows_ok: "matrix_ok n (normal_rows samples n lambda)"
  by (auto simp: matrix_ok_def normal_rows_def)

lemma normal_rows_nth:
  "i < n \<Longrightarrow> k < n \<Longrightarrow> normal_rows samples n lambda ! i ! k
     = (\<Sum>(features, _) \<leftarrow> samples. features ! i * features ! k) + (if i = k then lambda else 0)"
  "i < n \<Longrightarrow> normal_rows samples n lambda ! i ! n = (\<Sum>(features, value) \<leftarrow> samples. features ! i * value)"
  by (simp_all add: normal_rows_def nth_append)

lemma sum_list_sum_swap:
  "(\<Sum>k<n. sum_list (map (f k) xs)) = (\<Sum>x \<leftarrow> xs. \<Sum>k<(n :: nat). (f k x :: 'a :: comm_monoid_add))"
  by (induction xs) (simp_all add: sum.distrib)

text \<open>The gradient vanishes in every direction.\<close>

lemma normal_gradient:
  assumes "solves n (normal_rows samples n lambda) x"
  shows "(\<Sum>(features, value) \<leftarrow> samples. (predicted n x features - value) * predicted n d features)
     + lambda * (\<Sum>k<n. x k * d k) = 0"
proof -
  have row: "(\<Sum>(features, value) \<leftarrow> samples. features ! i * (predicted n x features - value)) + lambda * x i = 0"
    if i: "i < n" for i
  proof -
    have "(\<Sum>k<n. normal_rows samples n lambda ! i ! k * x k)
        = (\<Sum>k<n. (\<Sum>(features, value) \<leftarrow> samples. features ! i * features ! k * x k) + (if i = k then lambda * x k else 0))"
      using i by (intro sum.cong)
        (auto simp: normal_rows_nth sum_list_mult_const split_def distrib_right)
    also have "\<dots> = (\<Sum>(features, value) \<leftarrow> samples. features ! i * predicted n x features) + lambda * x i"
      using i by (simp add: sum.distrib sum_list_sum_swap predicted_def sum_distrib_left split_def mult.assoc)
    finally have "(\<Sum>(features, value) \<leftarrow> samples. features ! i * predicted n x features) + lambda * x i
        = (\<Sum>(features, value) \<leftarrow> samples. features ! i * value)"
      using assms i by (simp add: solves_def normal_rows_nth(2))
    then show ?thesis by (simp add: algebra_simps split_def sum_list_subtractf)
  qed
  have "(\<Sum>i<n. d i * ((\<Sum>(features, value) \<leftarrow> samples. features ! i * (predicted n x features - value)) + lambda * x i)) = 0"
    by (simp add: row)
  moreover have "(\<Sum>i<n. d i * ((\<Sum>(features, value) \<leftarrow> samples. features ! i * (predicted n x features - value)) + lambda * x i))
      = (\<Sum>i<n. (\<Sum>(features, value) \<leftarrow> samples. (predicted n x features - value) * (features ! i * d i))) + lambda * (\<Sum>k<n. x k * d k)"
    by (simp add: sum_list_const_mult [symmetric] sum_distrib_left sum.distrib split_def algebra_simps)
  ultimately show ?thesis
    by (simp add: sum_list_sum_swap predicted_def sum_distrib_left split_def)
qed

lemma predicted_diff: "predicted n y features = predicted n x features + predicted n (\<lambda>k. y k - x k) features"
  by (simp add: predicted_def sum.distrib [symmetric] algebra_simps)

lemma ridge_loss_split:
  assumes "solves n (normal_rows samples n lambda) x"
  shows "ridge_loss samples lambda n y = ridge_loss samples lambda n x
     + (\<Sum>(features, value) \<leftarrow> samples. (predicted n (\<lambda>k. y k - x k) features)\<^sup>2) + lambda * (\<Sum>k<n. (y k - x k)\<^sup>2)"
proof -
  let ?d = "\<lambda>k. y k - x k"
  have "(\<Sum>(features, value) \<leftarrow> samples. (predicted n y features - value)\<^sup>2)
      = (\<Sum>(features, value) \<leftarrow> samples. (predicted n x features - value)\<^sup>2)
        + (\<Sum>(features, value) \<leftarrow> samples. (predicted n ?d features)\<^sup>2)
        + 2 * (\<Sum>(features, value) \<leftarrow> samples. (predicted n x features - value) * predicted n ?d features)"
    by (induction samples) (auto simp: predicted_diff [of n y _ x] power2_eq_square algebra_simps)
  moreover have "(\<Sum>k<n. (y k)\<^sup>2) = (\<Sum>k<n. (x k)\<^sup>2) + (\<Sum>k<n. (?d k)\<^sup>2) + 2 * (\<Sum>k<n. x k * ?d k)"
    by (simp add: sum_distrib_left sum.distrib [symmetric] power2_eq_square algebra_simps)
  ultimately show ?thesis
    using normal_gradient [OF assms, of ?d] by (simp add: ridge_loss_def distrib_left)
qed

lemma ridge_fit_solves:
  assumes "samples \<noteq> []" and n: "n = length (fst (hd samples))" and reg: "regular n (normal_rows samples n lambda)"
  shows "length (ridge_fit samples lambda) = n"
    "solves n (normal_rows samples n lambda) (\<lambda>k. ridge_fit samples lambda ! k)"
proof -
  let ?M = "foldl (ridge_step n) (normal_rows samples n lambda) [0..<n]"
  have fit: "ridge_fit samples lambda = solution ?M" using assms(1) n by (simp add: ridge_fit_def Let_def)
  have *: "matrix_ok n ?M" "unit_columns n ?M n" "\<forall>x. solves n ?M x \<longrightarrow> solves n (normal_rows samples n lambda) x"
    using ridge_steps_solve [OF normal_rows_ok reg, of n] by simp_all
  show "length (ridge_fit samples lambda) = n" using units_solution(2) [OF *(1,2)] fit by simp
  show "solves n (normal_rows samples n lambda) (\<lambda>k. ridge_fit samples lambda ! k)"
    using units_solution(1) [OF *(1,2)] *(3) fit by simp
qed

text \<open>
  C26. The ridge regression minimises its loss. When no column is skipped for a tiny pivot, the
  elimination returns one coefficient per feature and no other vector has a smaller squared error
  plus penalty; with a positive penalty the minimiser is unique.
\<close>

theorem ridge_fit_optimal:
  assumes "samples \<noteq> []" and n: "n = length (fst (hd samples))" and reg: "regular n (normal_rows samples n lambda)"
    and lambda: "0 \<le> lambda"
  shows "length (ridge_fit samples lambda) = n
     \<and> ridge_loss samples lambda n (\<lambda>k. ridge_fit samples lambda ! k) \<le> ridge_loss samples lambda n y
     \<and> (0 < lambda \<and> ridge_loss samples lambda n y = ridge_loss samples lambda n (\<lambda>k. ridge_fit samples lambda ! k)
          \<longrightarrow> (\<forall>k < n. y k = ridge_fit samples lambda ! k))"
proof -
  let ?x = "\<lambda>k. ridge_fit samples lambda ! k"
  let ?e = "\<Sum>(features, value) \<leftarrow> samples. (predicted n (\<lambda>k. y k - ?x k) features)\<^sup>2" and ?r = "\<Sum>k<n. (y k - ?x k)\<^sup>2"
  have split: "ridge_loss samples lambda n y = ridge_loss samples lambda n ?x + ?e + lambda * ?r"
    by (rule ridge_loss_split) (rule ridge_fit_solves(2) [OF assms(1-3)])
  have e: "0 \<le> ?e" by (rule sum_list_nonneg) auto
  have r: "0 \<le> ?r" by (rule sum_nonneg) simp
  have "y k = ?x k" if "0 < lambda" "ridge_loss samples lambda n y = ridge_loss samples lambda n ?x" "k < n" for k
  proof -
    have "lambda * ?r \<le> 0" using split that(2) e by simp
    then have "?r = 0" using r that(1) by (simp add: mult_le_0_iff)
    then have "(y k - ?x k)\<^sup>2 = 0" using that(3) by (subst (asm) sum_nonneg_eq_0_iff) auto
    then show ?thesis by simp
  qed
  moreover have "ridge_loss samples lambda n ?x \<le> ridge_loss samples lambda n y"
    unfolding split using e mult_nonneg_nonneg [OF lambda r] by simp
  ultimately show ?thesis using ridge_fit_solves(1) [OF assms(1-3)] by blast
qed

definition demo_samples :: "(rat list \<times> rat) list" where
  "demo_samples = [([1, 1], 3), ([1, 2], 5), ([1, 4], 8)]"

lemma demo_upt: "[0..<2] = [0, 1 :: nat]" "[Suc 0..<2] = [1 :: nat]" "[0..<3] = [0, 1, 2 :: nat]"
  by (simp_all add: numeral_2_eq_2 numeral_3_eq_3)

lemma demo_normal: "normal_rows demo_samples 2 1 = [[4, 7, 16], [7, 22, 45]]"
  by (simp add: normal_rows_def demo_samples_def demo_upt del: upt_Suc)

lemma demo_first: "ridge_step 2 [[4, 7, 16], [7, 22, 45]] 0 = [[1, 22 / 7, 45 / 7], [0, - 39 / 7, - 68 / 7]]"
  by (simp add: ridge_step_def tiny_pivot_def pivot_row_def eliminate_def Let_def demo_upt del: upt_Suc)

lemma demo_regular: "regular 2 (normal_rows demo_samples 2 1)"
proof -
  have "\<not> tiny_pivot [[4, 7, 16], [7, 22, 45]] 0 2"
    by (simp add: tiny_pivot_def pivot_row_def demo_upt)
  moreover have "\<not> tiny_pivot [[1, 22 / 7, 45 / 7], [0, - 39 / 7, - 68 / 7]] 1 2"
    by (simp add: tiny_pivot_def pivot_row_def demo_upt)
  ultimately show ?thesis by (auto simp: regular_def less_2_cases_iff demo_normal demo_first)
qed

theorem ridge_fit_optimal_witness:
  "length (ridge_fit demo_samples 1) = 2
   \<and> ridge_loss demo_samples 1 2 (\<lambda>k. ridge_fit demo_samples 1 ! k) \<le> ridge_loss demo_samples 1 2 (\<lambda>_. 1)"
proof -
  have "demo_samples \<noteq> []" "2 = length (fst (hd demo_samples))" by (simp_all add: demo_samples_def)
  from ridge_fit_optimal [OF this demo_regular, of "\<lambda>_. 1"] show ?thesis by simp
qed

end
