(* ===== verification/Pipeline_Estimator.thy ===== *)
theory Pipeline_Estimator
  imports Least_Squares
begin

text \<open>
  The service-TTFT estimator of LayerWeave (\<open>src/tools/layerpipe/layerweave_estimator.py\<close>):
  calibration of per-model profiles from measured batches, the two-stream GPU pipeline it
  predicts with, and its evaluation. A batch is the parsed metrics of one activation; reading the
  report files is left out. Keys of the residual profiles are triples of prefetch mode, residency
  class and phase instead of the strings the source joins them to.
\<close>

section \<open>Statistics\<close>

definition est_median :: "rat list \<Rightarrow> rat \<Rightarrow> rat" where
  "est_median values otherwise =
     (let vs = sort values; n = length vs in
      if values = [] then otherwise
      else if odd n then vs ! (n div 2) else (vs ! (n div 2 - 1) + vs ! (n div 2)) / 2)"

definition est_percentile :: "rat list \<Rightarrow> rat \<Rightarrow> rat" where
  "est_percentile values fraction =
     (if values = [] then 0
      else let ordered = sort values; position = fraction * of_nat (length ordered - 1);
               lower = nat (floor position); upper = nat (ceiling position) in
        if lower = upper then ordered ! lower
        else ordered ! lower * (of_nat upper - position) + ordered ! upper * (position - of_nat lower))"

section \<open>Batches and profiles\<close>

datatype stage_id = InitialStage | LayerStage nat

record est_stage =
  es_stage :: stage_id
  es_to_load_bytes :: int
  es_mapped_pages :: int
  es_h2d_ms :: rat

record est_batch =
  eb_model_id :: int
  eb_batch_size :: int
  eb_input_tokens :: int
  eb_max_input_tokens :: "int option"
  eb_sum_squared :: "rat option"
  eb_prefetch :: bool
  eb_phase :: string
  eb_page_count :: int
  eb_stages :: "est_stage list"
  eb_computes :: "(nat \<times> rat) list"
  eb_host_gap_ms :: rat
  eb_service_ttft_ms :: rat

datatype residency_state = FullHit | Cold | PartialHit

datatype compute_profile = Coefficients "rat list" | LegacyCurve rat rat rat

type_synonym profile_key = "bool \<times> residency_state \<times> string"

record est_profile =
  bytes_per_ms :: rat
  fixed_stage_ms :: rat
  ep_compute :: "(nat \<times> compute_profile) list"
  ep_host_gap_ms :: "(profile_key \<times> rat) list"
  ep_service_residual_ms :: "(profile_key \<times> rat) list"

definition batch_features :: "est_batch \<Rightarrow> rat list" where
  "batch_features b =
     (let batch_size = max 1 (eb_batch_size b);
          total_tokens = max 1 (eb_input_tokens b);
          max_tokens = max 1 (case eb_max_input_tokens b of Some n \<Rightarrow> n
             | None \<Rightarrow> ceiling (of_int total_tokens / of_int batch_size :: rat));
          sum_squared = (case eb_sum_squared b of Some q \<Rightarrow> q | None \<Rightarrow> of_int (batch_size * max_tokens * max_tokens)) in
      [1, of_int (batch_size - 1), of_int total_tokens / 1000, of_int max_tokens / 1000, sum_squared / 1000000])"

definition residency_class :: "est_batch \<Rightarrow> residency_state" where
  "residency_class b =
     (let mapped = sum_list (map es_mapped_pages (eb_stages b)) in
      if mapped = 0 then FullHit else if max 1 (eb_page_count b) \<le> mapped then Cold else PartialHit)"

definition batch_key :: "est_batch \<Rightarrow> profile_key" where
  "batch_key b = (eb_prefetch b, residency_class b, eb_phase b)"

section \<open>The pipeline\<close>

definition load_ms :: "est_profile \<Rightarrow> est_stage \<Rightarrow> rat result" where
  "load_ms profile stage =
     (if es_to_load_bytes stage = 0 then Inr (fixed_stage_ms profile)
      else r_bind (py_div (of_int (es_to_load_bytes stage)) (bytes_per_ms profile)) (\<lambda>t. Inr (fixed_stage_ms profile + t)))"

definition compute_ms :: "est_profile \<Rightarrow> est_batch \<Rightarrow> nat \<Rightarrow> rat" where
  "compute_ms profile b layer =
     (case (case map_of (ep_compute profile) layer of None \<Rightarrow> LegacyCurve 0 0 0 | Some item \<Rightarrow> item) of
        LegacyCurve intercept per_token per_token_squared \<Rightarrow>
          let total_tokens = of_int (max 1 (eb_input_tokens b)) in
          max 0 (intercept + per_token * total_tokens + per_token_squared * total_tokens * total_tokens)
      | Coefficients cs \<Rightarrow> max 0 (\<Sum>(c, f) \<leftarrow> zip cs (batch_features b). c * f))"

definition stage_by_layer :: "est_batch \<Rightarrow> (nat \<times> est_stage) list" where
  "stage_by_layer b = dict_of (concat (map (\<lambda>s. case es_stage s of InitialStage \<Rightarrow> [] | LayerStage l \<Rightarrow> [(l, s)]) (eb_stages b)))"

definition initial_stage :: "est_batch \<Rightarrow> est_stage result" where
  "initial_stage b = (case filter (\<lambda>s. es_stage s = InitialStage) (eb_stages b) of [] \<Rightarrow> Inl StopIteration | s # _ \<Rightarrow> Inr s)"

record gpu_state =
  compute_start :: rat
  compute_end :: rat
  copy_end :: rat
  gpu_ready_stall :: rat
  previous_compute_start :: rat

text \<open>Wait for the stage of the layer, then compute it; the first layer's stage is the initial one.\<close>

definition gpu_wait :: "bool \<Rightarrow> rat \<Rightarrow> gpu_state \<Rightarrow> gpu_state" where
  "gpu_wait prefetch load s =
     (let copy_start = (if prefetch then max (copy_end s) (previous_compute_start s) else compute_end s);
          copied = copy_start + load in
      s\<lparr> copy_end := copied, gpu_ready_stall := gpu_ready_stall s + max 0 (copied - compute_end s),
         compute_start := max (compute_end s) copied \<rparr>)"

definition gpu_compute :: "rat \<Rightarrow> gpu_state \<Rightarrow> gpu_state" where
  "gpu_compute duration s = s\<lparr> previous_compute_start := compute_start s, compute_end := compute_start s + duration \<rparr>"

definition gpu_step :: "est_profile \<Rightarrow> est_batch \<Rightarrow> gpu_state \<Rightarrow> nat \<Rightarrow> gpu_state result" where
  "gpu_step profile b s layer =
     r_bind (if 0 < layer
             then r_bind (dict_get (stage_by_layer b) layer) (\<lambda>stage.
                    r_bind (load_ms profile stage) (\<lambda>load. Inr (gpu_wait (eb_prefetch b) load s)))
             else Inr s) (\<lambda>s'.
       Inr (gpu_compute (compute_ms profile b layer) s'))"

record gpu_prediction =
  predicted_gpu_ready_stall_ms :: rat
  predicted_gpu_critical_path_ms :: rat

definition simulate_gpu :: "est_batch \<Rightarrow> est_profile \<Rightarrow> gpu_prediction result" where
  "simulate_gpu b profile =
     r_bind (initial_stage b) (\<lambda>initial.
     r_bind (load_ms profile initial) (\<lambda>start.
     r_bind (r_foldl (gpu_step profile b)
               \<lparr> compute_start = start, compute_end = start, copy_end = start, gpu_ready_stall = start,
                 previous_compute_start = start \<rparr> [0..<length (eb_computes b)]) (\<lambda>s.
       Inr \<lparr> predicted_gpu_ready_stall_ms = gpu_ready_stall s, predicted_gpu_critical_path_ms = compute_end s \<rparr>)))"

section \<open>Prediction\<close>

definition profile_value :: "(profile_key \<times> rat) list \<Rightarrow> profile_key \<Rightarrow> rat" where
  "profile_value values key =
     (case map_of values key of
        Some v \<Rightarrow> v
      | None \<Rightarrow> est_median (map snd (filter (\<lambda>(k, _). fst k = fst key) values)) (est_median (map snd values) 0))"

record est_prediction = gpu_prediction +
  predicted_forward_ms :: rat
  predicted_host_submission_gap_ms :: rat
  predicted_service_residual_ms :: rat
  predicted_service_external_ms :: rat
  predicted_service_ttft_ms :: rat

type_synonym pipeline_estimator = "(int \<times> est_profile) list"

definition predict :: "pipeline_estimator \<Rightarrow> est_batch \<Rightarrow> est_prediction result" where
  "predict models b =
     r_bind (dict_get models (eb_model_id b)) (\<lambda>profile.
     r_bind (simulate_gpu b profile) (\<lambda>gpu.
       let critical = predicted_gpu_critical_path_ms gpu;
           host_gap = profile_value (ep_host_gap_ms profile) (batch_key b);
           residual = profile_value (ep_service_residual_ms profile) (batch_key b) in
       Inr \<lparr> predicted_gpu_ready_stall_ms = predicted_gpu_ready_stall_ms gpu, predicted_gpu_critical_path_ms = critical,
             predicted_forward_ms = critical + host_gap, predicted_host_submission_gap_ms = host_gap,
             predicted_service_residual_ms = residual, predicted_service_external_ms = residual - host_gap,
             predicted_service_ttft_ms = critical + residual \<rparr>))"

section \<open>Calibration\<close>

definition group_pairs :: "('k \<times> 'v) list \<Rightarrow> ('k \<times> 'v list) list" where
  "group_pairs kvs = foldl (\<lambda>d (k, v). AList.update k ((case map_of d k of None \<Rightarrow> [] | Some vs \<Rightarrow> vs) @ [v]) d) [] kvs"

definition bandwidth_samples :: "est_batch list \<Rightarrow> rat list" where
  "bandwidth_samples records = concat (map (\<lambda>b. concat (map (\<lambda>s.
     if 0 < es_to_load_bytes s \<and> 0 < es_h2d_ms s then [of_int (es_to_load_bytes s) / es_h2d_ms s] else []) (eb_stages b))) records)"

definition fixed_samples :: "est_batch list \<Rightarrow> rat list" where
  "fixed_samples records = concat (map (\<lambda>b. concat (map (\<lambda>s.
     if \<not> (0 < es_to_load_bytes s \<and> 0 < es_h2d_ms s) \<and> 0 < es_h2d_ms s then [es_h2d_ms s] else []) (eb_stages b))) records)"

definition compute_samples :: "est_batch list \<Rightarrow> (nat \<times> (rat list \<times> rat) list) list" where
  "compute_samples records = group_pairs (concat (map (\<lambda>b.
     if eb_phase b = ''steady'' then map (\<lambda>(layer, ms). (layer, batch_features b, ms)) (eb_computes b) else []) records))"

definition calibrate :: "est_batch list \<Rightarrow> est_profile" where
  "calibrate records =
     \<lparr> bytes_per_ms = est_median (bandwidth_samples records) 1, fixed_stage_ms = est_median (fixed_samples records) 0,
       ep_compute = map (\<lambda>(layer, samples). (layer, Coefficients (ridge_fit samples (1 / 10 ^ 6)))) (compute_samples records),
       ep_host_gap_ms = map (\<lambda>(key, vs). (key, est_median vs 0)) (group_pairs (map (\<lambda>b. (batch_key b, eb_host_gap_ms b)) records)),
       ep_service_residual_ms = [] \<rparr>"

definition fit_model :: "est_batch list \<Rightarrow> est_profile result" where
  "fit_model records =
     (let profile = calibrate records in
      r_bind (r_map (\<lambda>b. r_bind (simulate_gpu b profile) (\<lambda>gpu.
               Inr (batch_key b, eb_service_ttft_ms b - predicted_gpu_critical_path_ms gpu))) records) (\<lambda>residuals.
        Inr (profile\<lparr> ep_service_residual_ms := map (\<lambda>(key, vs). (key, est_median vs 0)) (group_pairs residuals) \<rparr>)))"

definition fit :: "est_batch list \<Rightarrow> pipeline_estimator \<Rightarrow> pipeline_estimator result" where
  "fit batches models =
     r_foldl (\<lambda>models (model_id, records). r_bind (fit_model records) (\<lambda>profile. Inr (AList.update model_id profile models)))
       models (group_pairs (map (\<lambda>b. (eb_model_id b, b)) batches))"

section \<open>Reports\<close>

text \<open>A measured batch of a report, with the fields the source computes for it while loading.\<close>

record measured_batch = est_batch +
  mb_source :: string
  mb_batch_id :: int
  mb_prefix :: string

record report_batch =
  rb_batch :: measured_batch
  rb_has_layerweave :: bool
  rb_forward_ids :: "int list"
  rb_service_ttft :: "rat option"
  rb_prefix_configuration :: "string option"

text \<open>
  One report: a batch without pipeline metrics or with several forward passes is skipped, a
  missing service time is the slowest of its requests, and the first batch of a model is its
  activation.
\<close>

definition load_batch ::
  "string \<Rightarrow> (int \<times> rat) list \<Rightarrow> int list \<times> measured_batch list \<Rightarrow> report_batch \<Rightarrow> int list \<times> measured_batch list" where
  "load_batch path requests = (\<lambda>(seen, batches) r.
     let b = rb_batch r in
     if \<not> rb_has_layerweave r \<or> eb_stages b = [] \<or> eb_computes b = [] \<or> length (remdups (rb_forward_ids r)) \<noteq> 1
     then (seen, batches)
     else
       let times = map snd (filter (\<lambda>(i, _). i = mb_batch_id b) requests);
           service = (case rb_service_ttft r of Some t \<Rightarrow> t | None \<Rightarrow> if times = [] then 0 else Max (set times)) in
       (List.insert (eb_model_id b) seen, batches @ [b\<lparr> eb_service_ttft_ms := service, mb_source := path,
          mb_prefix := (case rb_prefix_configuration r of None \<Rightarrow> ''full'' | Some c \<Rightarrow> c),
          eb_phase := (if eb_model_id b \<in> set seen then ''steady'' else ''first-activation'') \<rparr>]))"

definition load_batches :: "(string \<times> (int \<times> rat) list \<times> report_batch list) list \<Rightarrow> measured_batch list" where
  "load_batches documents =
     concat (map (\<lambda>(path, requests, metrics). snd (foldl (load_batch path requests) ([], []) metrics)) documents)"

section \<open>Evaluation\<close>

record error_summary =
  sum_count :: nat
  mae_ms :: rat
  p95_absolute_error_ms :: rat
  mape :: rat

definition summarize_errors :: "(rat \<times> rat) list \<Rightarrow> error_summary" where
  "summarize_errors rows =
     (let errors = map (\<lambda>(actual, predicted). \<bar>predicted - actual\<bar>) rows;
          actuals = map (\<lambda>(actual, _). \<bar>actual\<bar>) rows; n = of_nat (length errors) in
      \<lparr> sum_count = length rows, mae_ms = (if errors = [] then 0 else sum_list errors / n),
        p95_absolute_error_ms = est_percentile errors (95 / 100),
        mape = (if errors = [] then 0 else (\<Sum>(e, v) \<leftarrow> zip errors actuals. e / max v (1 / 1000)) / n) \<rparr>)"

record eval_row =
  ev_batch :: measured_batch
  ev_residency :: residency_state
  ev_prediction :: est_prediction

definition ev_errors :: "eval_row list \<Rightarrow> error_summary" where
  "ev_errors rows = summarize_errors (map (\<lambda>r. (eb_service_ttft_ms (ev_batch r), predicted_service_ttft_ms (ev_prediction r))) rows)"

definition eval_row_of :: "pipeline_estimator \<Rightarrow> measured_batch \<Rightarrow> eval_row list result" where
  "eval_row_of models b =
     (if eb_model_id b \<notin> fst ` set models then Inr []
      else r_bind (predict models (est_batch.truncate b)) (\<lambda>p.
        Inr [\<lparr> ev_batch = b, ev_residency = residency_class (est_batch.truncate b), ev_prediction = p \<rparr>]))"

type_synonym pair_key = "int \<times> int \<times> int \<times> string \<times> residency_state"

definition pair_key :: "eval_row \<Rightarrow> pair_key" where
  "pair_key r = (eb_model_id (ev_batch r), mb_batch_id (ev_batch r), eb_input_tokens (ev_batch r), mb_prefix (ev_batch r), ev_residency r)"

text \<open>Runs of the same batch with and without prefetching: measured and predicted gain.\<close>

definition overlap_gains :: "eval_row list \<Rightarrow> (pair_key \<times> rat \<times> rat) list" where
  "overlap_gains rows =
     concat (map (\<lambda>(key, runs). let pair = dict_of runs in
        case (map_of pair True, map_of pair False) of
          (Some enabled, Some disabled) \<Rightarrow>
            [(key, eb_service_ttft_ms (ev_batch disabled) - eb_service_ttft_ms (ev_batch enabled),
              predicted_service_ttft_ms (ev_prediction disabled) - predicted_service_ttft_ms (ev_prediction enabled))]
        | _ \<Rightarrow> [])
      (group_pairs (map (\<lambda>r. (pair_key r, eb_prefetch (ev_batch r), r)) rows)))"

record evaluation =
  service_ttft_summary :: "(residency_state \<times> error_summary) list"
  service_ttft_by_model :: "(int \<times> error_summary) list"
  service_ttft_by_batch_size :: "(int \<times> error_summary) list"
  overlap_gain_summary :: error_summary
  eval_rows :: "eval_row list"
  overlap_gain_rows :: "(pair_key \<times> rat \<times> rat) list"

definition evaluate :: "pipeline_estimator \<Rightarrow> measured_batch list \<Rightarrow> evaluation result" where
  "evaluate models batches =
     r_bind (r_map (eval_row_of models) batches) (\<lambda>rss.
       let rows = concat rss; gains = overlap_gains rows in
       Inr \<lparr> service_ttft_summary = map (\<lambda>st. (st, ev_errors (filter (\<lambda>r. ev_residency r = st) rows))) [Cold, PartialHit, FullHit],
             service_ttft_by_model = map (\<lambda>m. (m, ev_errors (filter (\<lambda>r. eb_model_id (ev_batch r) = m) rows)))
               (sort (remdups (map (\<lambda>r. eb_model_id (ev_batch r)) rows))),
             service_ttft_by_batch_size = map (\<lambda>n. (n, ev_errors (filter (\<lambda>r. eb_batch_size (ev_batch r) = n) rows)))
               (sort (remdups (map (\<lambda>r. eb_batch_size (ev_batch r)) rows))),
             overlap_gain_summary = summarize_errors (map snd gains), eval_rows = rows, overlap_gain_rows = gains \<rparr>)"

section \<open>The pipeline hides loading, never computation\<close>

definition pipeline_ok :: "est_profile \<Rightarrow> est_batch \<Rightarrow> bool" where
  "pipeline_ok profile b \<longleftrightarrow>
     0 < bytes_per_ms profile \<and> 0 \<le> fixed_stage_ms profile \<and> (\<forall>s \<in> set (eb_stages b). 0 \<le> es_to_load_bytes s)
     \<and> (\<exists>s \<in> set (eb_stages b). es_stage s = InitialStage)
     \<and> (\<forall>l \<in> {1..<length (eb_computes b)}. \<exists>s \<in> set (eb_stages b). es_stage s = LayerStage l)"

definition stage_load :: "est_profile \<Rightarrow> est_batch \<Rightarrow> nat \<Rightarrow> rat" where
  "stage_load profile b layer =
     (if layer = 0 then projr (r_bind (initial_stage b) (load_ms profile))
      else projr (r_bind (dict_get (stage_by_layer b) layer) (load_ms profile)))"

lemma load_ms_total:
  assumes "pipeline_ok profile b" "s \<in> set (eb_stages b)"
  shows "\<exists>t. load_ms profile s = Inr t \<and> 0 \<le> t"
  using assms by (auto simp: load_ms_def pipeline_ok_def)

lemma stage_load_initial:
  assumes "pipeline_ok profile b"
  shows "r_bind (initial_stage b) (load_ms profile) = Inr (stage_load profile b 0) \<and> 0 \<le> stage_load profile b 0"
proof -
  obtain s where s: "initial_stage b = Inr s" "s \<in> set (eb_stages b)"
  proof (cases "filter (\<lambda>s. es_stage s = InitialStage) (eb_stages b)")
    case Nil
    then show thesis using assms by (auto simp: pipeline_ok_def filter_empty_conv)
  next
    case (Cons a as)
    then have "a \<in> set (eb_stages b)" by (metis filter_is_subset list.set_intros(1) subsetD)
    then show thesis using that [of a] Cons by (simp add: initial_stage_def)
  qed
  then show ?thesis using load_ms_total [OF assms s(2)] by (auto simp: stage_load_def)
qed

lemma stage_load_layer:
  assumes "pipeline_ok profile b" "0 < l" "l < length (eb_computes b)"
  shows "r_bind (dict_get (stage_by_layer b) l) (load_ms profile) = Inr (stage_load profile b l) \<and> 0 \<le> stage_load profile b l"
proof -
  let ?kvs = "concat (map (\<lambda>s. case es_stage s of InitialStage \<Rightarrow> [] | LayerStage l \<Rightarrow> [(l, s)]) (eb_stages b))"
  have "l \<in> {1..<length (eb_computes b)}" using assms(2,3) by simp
  then obtain s0 where "s0 \<in> set (eb_stages b)" "es_stage s0 = LayerStage l" using assms(1) unfolding pipeline_ok_def by blast
  then have "(l, s0) \<in> set ?kvs" by force
  then obtain s where s: "map_of (stage_by_layer b) l = Some s"
    using dict_of_total [of l ?kvs] by (force simp: stage_by_layer_def)
  then have "(l, s) \<in> set ?kvs" unfolding stage_by_layer_def by (rule dict_of_values)
  then have "s \<in> set (eb_stages b)" by (auto split: stage_id.splits)
  then show ?thesis using load_ms_total [OF assms(1)] s assms(2) by (fastforce simp: stage_load_def)
qed

definition pipe_run :: "bool \<Rightarrow> (nat \<Rightarrow> rat) \<Rightarrow> (nat \<Rightarrow> rat) \<Rightarrow> nat \<Rightarrow> gpu_state" where
  "pipe_run prefetch loads computes n =
     foldl (\<lambda>s l. gpu_compute (computes l) (if 0 < l then gpu_wait prefetch (loads l) s else s))
       \<lparr> compute_start = loads 0, compute_end = loads 0, copy_end = loads 0, gpu_ready_stall = loads 0,
         previous_compute_start = loads 0 \<rparr> [0..<n]"

lemma pipe_run_Suc:
  "pipe_run prefetch loads computes (Suc n) =
     gpu_compute (computes n) (if 0 < n then gpu_wait prefetch (loads n) (pipe_run prefetch loads computes n)
                               else pipe_run prefetch loads computes n)"
  by (simp add: pipe_run_def)

lemma simulate_gpu_run:
  assumes ok: "pipeline_ok profile b"
  defines "s \<equiv> pipe_run (eb_prefetch b) (stage_load profile b) (compute_ms profile b) (length (eb_computes b))"
  shows "simulate_gpu b profile = Inr \<lparr> predicted_gpu_ready_stall_ms = gpu_ready_stall s, predicted_gpu_critical_path_ms = compute_end s \<rparr>"
proof -
  have step: "gpu_step profile b a l = Inr (gpu_compute (compute_ms profile b l)
      (if 0 < l then gpu_wait (eb_prefetch b) (stage_load profile b l) a else a))" if "l < length (eb_computes b)" for a l
    using stage_load_layer [OF ok _ that] by (auto simp: gpu_step_def py_simps split: sum.splits)
  have run: "r_foldl (gpu_step profile b) a ls = Inr (foldl (\<lambda>s l. gpu_compute (compute_ms profile b l)
      (if 0 < l then gpu_wait (eb_prefetch b) (stage_load profile b l) s else s)) a ls)"
    if "\<forall>l \<in> set ls. l < length (eb_computes b)" for a ls
    using that by (induction ls arbitrary: a) (simp_all add: step)
  obtain i where "initial_stage b = Inr i" "load_ms profile i = Inr (stage_load profile b 0)"
    using stage_load_initial [OF ok] by (auto simp: py_simps)
  then show ?thesis by (simp add: simulate_gpu_def run s_def pipe_run_def)
qed

lemma pipe_run_facts:
  assumes loads: "\<And>l. l < max 1 n \<Longrightarrow> 0 \<le> loads l" and computes: "\<And>l. 0 \<le> computes l"
  defines "p \<equiv> pipe_run True loads computes n" and "q \<equiv> pipe_run False loads computes n"
  shows "compute_end p = gpu_ready_stall p + (\<Sum>l<n. computes l)" "compute_end q = gpu_ready_stall q + (\<Sum>l<n. computes l)"
    "gpu_ready_stall q = (\<Sum>l<max 1 n. loads l)" "compute_end p \<le> compute_end q" "(\<Sum>l<max 1 n. loads l) \<le> compute_end p"
proof -
  have "compute_end p = gpu_ready_stall p + (\<Sum>l<n. computes l) \<and> compute_end q = gpu_ready_stall q + (\<Sum>l<n. computes l)
     \<and> gpu_ready_stall q = (\<Sum>l<max 1 n. loads l) \<and> compute_end p \<le> compute_end q
     \<and> (\<Sum>l<max 1 n. loads l) \<le> copy_end p \<and> copy_end p \<le> compute_start p \<and> compute_start p \<le> compute_end p
     \<and> previous_compute_start p = compute_start p"
    unfolding p_def q_def using loads
  proof (induction n)
    case 0
    then show ?case by (simp add: pipe_run_def lessThan_Suc)
  next
    case (Suc n)
    let ?p = "pipe_run True loads computes n" and ?q = "pipe_run False loads computes n"
    have "0 \<le> loads l" if "l < max 1 n" for l using Suc.prems [of l] that by (auto simp: max_def split: if_splits)
    note IH = Suc.IH [OF this]
    then have IH: "compute_end ?p = gpu_ready_stall ?p + (\<Sum>l<n. computes l)" "compute_end ?q = gpu_ready_stall ?q + (\<Sum>l<n. computes l)"
       "gpu_ready_stall ?q = (\<Sum>l<max 1 n. loads l)" "compute_end ?p \<le> compute_end ?q"
       "(\<Sum>l<max 1 n. loads l) \<le> copy_end ?p" "copy_end ?p \<le> compute_start ?p" "compute_start ?p \<le> compute_end ?p"
       "previous_compute_start ?p = compute_start ?p"
      by blast+
    show ?case
    proof (cases "n = 0")
      case True
      then show ?thesis using computes [of 0] Suc.prems [of 0]
        by (simp add: pipe_run_Suc gpu_compute_def) (simp add: pipe_run_def lessThan_Suc)
    next
      case False
      then have n: "0 < n" "max 1 (Suc n) = Suc n" "max 1 n = n" by auto
      have l: "0 \<le> loads n" using Suc.prems [of n] by simp
      have c: "0 \<le> computes n" by (rule computes)
      show ?thesis unfolding n(2) pipe_run_Suc
        using IH l c n(1,3) by (auto simp: gpu_compute_def gpu_wait_def Let_def max_def)
    qed
  qed
  then show "compute_end p = gpu_ready_stall p + (\<Sum>l<n. computes l)" "compute_end q = gpu_ready_stall q + (\<Sum>l<n. computes l)"
    "gpu_ready_stall q = (\<Sum>l<max 1 n. loads l)" "compute_end p \<le> compute_end q" "(\<Sum>l<max 1 n. loads l) \<le> compute_end p"
    by auto
qed

text \<open>
  C27. Prefetching only hides loading. For a batch with a stage per layer the prediction exists with
  and without prefetching; in both the critical path is the exposed loading plus all the
  computation. Without prefetching all loading is exposed; with it the path is no longer, and
  still no shorter than the loading nor than the initial stage plus the computation.
\<close>

theorem simulate_gpu_overlap:
  assumes ok: "pipeline_ok profile b"
  defines "loading \<equiv> \<Sum>l<max 1 (length (eb_computes b)). stage_load profile b l"
    and "computing \<equiv> \<Sum>l<length (eb_computes b). compute_ms profile b l"
  shows "\<exists>p q. simulate_gpu (b\<lparr> eb_prefetch := True \<rparr>) profile = Inr p \<and> simulate_gpu (b\<lparr> eb_prefetch := False \<rparr>) profile = Inr q
     \<and> predicted_gpu_critical_path_ms p = predicted_gpu_ready_stall_ms p + computing
     \<and> predicted_gpu_critical_path_ms q = loading + computing \<and> predicted_gpu_ready_stall_ms q = loading
     \<and> predicted_gpu_critical_path_ms p \<le> predicted_gpu_critical_path_ms q
     \<and> loading \<le> predicted_gpu_critical_path_ms p"
proof -
  let ?n = "length (eb_computes b)"
  have loads: "0 \<le> stage_load profile b l" if "l < max 1 ?n" for l
    using stage_load_initial [OF ok] stage_load_layer [OF ok, of l] that by (cases "l = 0") (auto simp: max_def split: if_splits)
  have computes: "0 \<le> compute_ms profile b l" for l by (auto simp: compute_ms_def Let_def split: compute_profile.splits)
  have "batch_features (b\<lparr> eb_prefetch := x \<rparr>) = batch_features b" for x by (simp add: batch_features_def)
  then have same: "stage_load profile (b\<lparr> eb_prefetch := x \<rparr>) = stage_load profile b"
      "compute_ms profile (b\<lparr> eb_prefetch := x \<rparr>) = compute_ms profile b" for x
    by (auto simp: stage_load_def initial_stage_def stage_by_layer_def compute_ms_def fun_eq_iff split: compute_profile.split)
  have ok': "pipeline_ok profile (b\<lparr> eb_prefetch := x \<rparr>)" for x using ok by (simp add: pipeline_ok_def)
  note facts = pipe_run_facts [of ?n "stage_load profile b" "compute_ms profile b", OF loads computes]
  show ?thesis
    using facts by (simp add: simulate_gpu_run [OF ok'] same loading_def computing_def)
qed

definition demo_batch :: est_batch where
  "demo_batch = \<lparr> eb_model_id = 1, eb_batch_size = 1, eb_input_tokens = 100, eb_max_input_tokens = Some 100, eb_sum_squared = Some 10000,
     eb_prefetch = True, eb_phase = ''steady'', eb_page_count = 4,
     eb_stages = [\<lparr> es_stage = InitialStage, es_to_load_bytes = 20, es_mapped_pages = 1, es_h2d_ms = 2 \<rparr>,
                  \<lparr> es_stage = LayerStage 1, es_to_load_bytes = 40, es_mapped_pages = 2, es_h2d_ms = 4 \<rparr>],
     eb_computes = [(0, 3), (1, 3)], eb_host_gap_ms = 1, eb_service_ttft_ms = 20 \<rparr>"

definition demo_profile :: est_profile where
  "demo_profile = \<lparr> bytes_per_ms = 10, fixed_stage_ms = 0, ep_compute = [(0, LegacyCurve 3 0 0), (1, LegacyCurve 3 0 0)],
     ep_host_gap_ms = [], ep_service_residual_ms = [] \<rparr>"

theorem simulate_gpu_overlap_witness:
  "\<exists>p q. simulate_gpu (demo_batch\<lparr> eb_prefetch := True \<rparr>) demo_profile = Inr p
     \<and> simulate_gpu (demo_batch\<lparr> eb_prefetch := False \<rparr>) demo_profile = Inr q
     \<and> predicted_gpu_critical_path_ms p \<le> predicted_gpu_critical_path_ms q"
proof -
  have "pipeline_ok demo_profile demo_batch"
    by (auto simp: pipeline_ok_def demo_profile_def demo_batch_def)
  from simulate_gpu_overlap [OF this] show ?thesis by blast
qed

section \<open>Calibration reproduces a lone measurement\<close>

lemma map_of_group_pairs:
  "map_of (group_pairs kvs) k = (let vs = map snd (filter (\<lambda>(k', _). k' = k) kvs) in if vs = [] then None else Some vs)"
proof (induction kvs rule: rev_induct)
  case (snoc x xs)
  obtain k' v where x: "x = (k', v)" by (cases x)
  have step: "group_pairs (xs @ [(k', v)]) = AList.update k' ((case map_of (group_pairs xs) k' of None \<Rightarrow> [] | Some vs \<Rightarrow> vs) @ [v]) (group_pairs xs)"
    by (simp add: group_pairs_def)
  show ?case using snoc unfolding x step by (auto simp: update_conv' Let_def)
qed (simp add: group_pairs_def)

lemma group_pairs_distinct: "distinct (map fst (group_pairs kvs))"
proof (induction kvs rule: rev_induct)
  case (snoc x xs)
  then show ?case by (cases x) (simp add: group_pairs_def distinct_update)
qed (simp add: group_pairs_def)

lemma simulate_gpu_residual: "simulate_gpu b (profile\<lparr> ep_service_residual_ms := r \<rparr>) = simulate_gpu b profile"
proof -
  have "load_ms (profile\<lparr> ep_service_residual_ms := r \<rparr>) = load_ms profile" by (auto simp: load_ms_def fun_eq_iff)
  moreover have "compute_ms (profile\<lparr> ep_service_residual_ms := r \<rparr>) = compute_ms profile" by (auto simp: compute_ms_def fun_eq_iff)
  ultimately have "gpu_step (profile\<lparr> ep_service_residual_ms := r \<rparr>) b = gpu_step profile b"
    by (auto simp: gpu_step_def fun_eq_iff)
  then show ?thesis using \<open>load_ms _ = _\<close> by (simp add: simulate_gpu_def)
qed

lemma fit_fold:
  assumes "r_foldl (\<lambda>models (m, records). r_bind (fit_model records) (\<lambda>profile. Inr (AList.update m profile models))) d groups = Inr models"
    and "distinct (map fst groups)" and "map_of groups m = Some records"
  shows "\<exists>profile. fit_model records = Inr profile \<and> map_of models m = Some profile"
  using assms
proof (induction groups arbitrary: d)
  case (Cons g groups)
  obtain k rs where g: "g = (k, rs)" by (cases g)
  obtain profile where profile: "fit_model rs = Inr profile"
      "r_foldl (\<lambda>models (m, records). r_bind (fit_model records) (\<lambda>profile. Inr (AList.update m profile models))) (AList.update k profile d) groups = Inr models"
    using Cons.prems(1) g by (auto simp: py_simps)
  show ?case
  proof (cases "k = m")
    case False
    then show ?thesis using Cons.IH [OF profile(2)] Cons.prems(2,3) g by simp
  next
    case True
    have keep: "map_of models m = map_of d' m"
      if "r_foldl (\<lambda>models (m, records). r_bind (fit_model records) (\<lambda>profile. Inr (AList.update m profile models))) d' gs = Inr models"
        "m \<notin> fst ` set gs" for d' gs
      using that by (induction gs arbitrary: d') (auto simp: py_simps update_conv')
    have "m \<notin> fst ` set groups" using Cons.prems(2) g True by force
    then have "map_of models m = map_of (AList.update k profile d) m" using keep [OF profile(2)] by simp
    then show ?thesis using profile(1) Cons.prems(3) g True by (simp add: update_conv')
  qed
qed simp

text \<open>
  C28. Calibration is exact on a lone measurement. A batch that is the only one of its model with
  its prefetch mode, residency class and phase is predicted by the fitted estimator at exactly
  the service time that was measured.
\<close>

theorem fit_reproduces_measurement:
  assumes fitted: "fit batches [] = Inr models" and b: "b \<in> set batches" and once: "distinct batches"
    and lone: "\<And>b'. b' \<in> set batches \<Longrightarrow> eb_model_id b' = eb_model_id b \<Longrightarrow> batch_key b' = batch_key b \<Longrightarrow> b' = b"
  shows "\<exists>p. predict models b = Inr p \<and> predicted_service_ttft_ms p = eb_service_ttft_ms b"
proof -
  let ?records = "filter (\<lambda>b'. eb_model_id b' = eb_model_id b) batches"
  have "map_of (group_pairs (map (\<lambda>b. (eb_model_id b, b)) batches)) (eb_model_id b) = Some ?records"
    using b by (auto simp: map_of_group_pairs Let_def filter_map o_def filter_empty_conv)
  then obtain profile where profile: "fit_model ?records = Inr profile" "map_of models (eb_model_id b) = Some profile"
    using fit_fold [OF fitted [unfolded fit_def] group_pairs_distinct] by blast
  let ?run = "\<lambda>b. r_bind (simulate_gpu b (calibrate ?records)) (\<lambda>gpu. Inr (batch_key b, eb_service_ttft_ms b - predicted_gpu_critical_path_ms gpu))"
  obtain residuals where res: "r_map ?run ?records = Inr residuals"
      "profile = (calibrate ?records)\<lparr> ep_service_residual_ms := map (\<lambda>(key, vs). (key, est_median vs 0)) (group_pairs residuals) \<rparr>"
    using profile(1) by (auto simp: fit_model_def py_simps Let_def)
  have all2: "list_all2 (\<lambda>x y. ?run x = Inr y) ?records residuals" using res(1) by (simp add: r_map_Inr_iff)
  obtain gpu where gpu: "simulate_gpu b (calibrate ?records) = Inr gpu"
  proof -
    have "b \<in> set ?records" using b by simp
    then obtain i where i: "i < length ?records" "?records ! i = b" by (meson in_set_conv_nth)
    have "?run (?records ! i) = Inr (residuals ! i)" by (rule list_all2_nthD [OF all2 i(1)])
    then show thesis using that i(2) by (auto simp: py_simps)
  qed
  have lone': "list_all2 (\<lambda>x y. ?run x = Inr y) rs ys \<Longrightarrow> distinct rs \<Longrightarrow> set rs \<subseteq> set ?records \<Longrightarrow>
      map snd (filter (\<lambda>(k, _). k = batch_key b) ys)
        = (if b \<in> set rs then [eb_service_ttft_ms b - predicted_gpu_critical_path_ms gpu] else [])" for rs ys
  proof (induction rs arbitrary: ys)
    case (Cons r rs)
    then obtain y ys' where ys: "ys = y # ys'" "?run r = Inr y" "list_all2 (\<lambda>x y. ?run x = Inr y) rs ys'"
      by (auto simp: list_all2_Cons1)
    have "fst y = batch_key r" using ys(2) by (auto simp: py_simps)
    moreover have "snd y = eb_service_ttft_ms b - predicted_gpu_critical_path_ms gpu" if "r = b" using ys(2) gpu that by auto
    moreover have "r = b" if "batch_key r = batch_key b" using lone [of r] Cons.prems(3) that by auto
    moreover have "map snd (filter (\<lambda>(k, _). k = batch_key b) ys')
        = (if b \<in> set rs then [eb_service_ttft_ms b - predicted_gpu_critical_path_ms gpu] else [])"
      using Cons.IH [OF ys(3)] Cons.prems by simp
    moreover have "r \<notin> set rs" using Cons.prems(2) by simp
    ultimately show ?case unfolding ys(1) by (cases "r = b") (auto simp: split_def)
  qed simp
  have "map_of (group_pairs residuals) (batch_key b) = Some [eb_service_ttft_ms b - predicted_gpu_critical_path_ms gpu]"
    using lone' [OF all2] b once by (simp add: map_of_group_pairs)
  then have "map_of (ep_service_residual_ms profile) (batch_key b) = Some (eb_service_ttft_ms b - predicted_gpu_critical_path_ms gpu)"
    by (simp add: res(2) map_of_map_key est_median_def)
  moreover have "simulate_gpu b profile = Inr gpu" using gpu by (simp add: res(2) simulate_gpu_residual)
  ultimately show ?thesis using profile(2) by (simp add: predict_def profile_value_def Let_def)
qed

definition demo_measured :: est_batch where
  "demo_measured = demo_batch\<lparr> eb_phase := ''first-activation'' \<rparr>"

lemma demo_calibrated:
  "calibrate [demo_measured] = \<lparr> bytes_per_ms = 10, fixed_stage_ms = 0, ep_compute = [],
     ep_host_gap_ms = [((True, PartialHit, ''first-activation''), 1)], ep_service_residual_ms = [] \<rparr>"
  by (simp add: calibrate_def demo_measured_def demo_batch_def bandwidth_samples_def fixed_samples_def compute_samples_def
      group_pairs_def batch_key_def residency_class_def est_median_def)

theorem fit_reproduces_measurement_witness:
  "\<exists>models p. fit [demo_measured] [] = Inr models \<and> predict models demo_measured = Inr p
     \<and> predicted_service_ttft_ms p = 20"
proof -
  have "pipeline_ok (calibrate [demo_measured]) demo_measured"
    unfolding demo_calibrated by (auto simp: pipeline_ok_def demo_measured_def demo_batch_def)
  then obtain models where models: "fit [demo_measured] [] = Inr models"
    using simulate_gpu_run [of "calibrate [demo_measured]" demo_measured]
    by (simp add: fit_def fit_model_def group_pairs_def Let_def)
  have "eb_service_ttft_ms demo_measured = 20" by (simp add: demo_measured_def demo_batch_def)
  then show ?thesis using fit_reproduces_measurement [OF models, of demo_measured] models by auto
qed

end
