(* ===== verification/Cache_Policy.thy ===== *)
theory Cache_Policy
  imports Layer_Mckp Pipeline_Estimator "HOL-Library.Option_ord"
begin

text \<open>
  The single-GPU cache policy of LayerWeave
  (\<open>LayerWeaveSingleGpuCachePolicy\<close> of \<open>src/tools/layerpipe/layerweave_cache_policy.py\<close>): before a
  dispatch it chooses a protected configuration per model and reclaims unprotected pages of
  inactive models. A set of pages is a set of page numbers. The controllers are objects of the
  serving engine and not part of the repository: a record holds the values the policy reads from
  them, among them the pages of each configuration. Measured times of the plan are left out; the
  residencies are an argument, as in the source when the caller supplies them.
\<close>

section \<open>State\<close>

record controller =
  ct_page_size :: int
  initial_pages :: "nat set"
  layer_pages :: "nat set list"
  required_pages :: "nat set"
  prefix_cache_pages :: "configuration \<Rightarrow> nat set"

record model_demand =
  score :: rat
  md_batch_size :: int
  md_input_tokens :: int
  md_max_input_tokens :: int
  md_sum_squared :: int

definition new_demand :: model_demand where
  "new_demand = \<lparr> score = 0, md_batch_size = 1, md_input_tokens = 1, md_max_input_tokens = 1, md_sum_squared = 1 \<rparr>"

record lw_request =
  lw_model_id :: int
  lw_input_tokens :: int
  lw_output_tokens :: int

type_synonym shape_key = "int \<times> int \<times> int \<times> int \<times> int"

record cache_policy =
  controllers :: "(int \<times> controller) list"
  estimator_models :: pipeline_estimator
  page_size :: int
  cp_pool_pages :: int
  decay :: rat
  uncertainty_ms :: rat
  next_use_mode :: bool
  demands :: "(int \<times> model_demand) list"
  pending_counts :: "(int \<times> nat) list"
  next_use_positions :: "(int \<times> nat option) list"
  cache_states :: "(int \<times> configuration) list"
  curve_cache :: "(shape_key \<times> base_candidate list) list"

definition prefix_candidates :: "configuration list" where
  "prefix_candidates = map PrefixLayers [0, 2, 4, 8, 16, 32] @ [FullModel]"

record m4_report =
  m4_input_scale :: rat
  m4_batch_sizes :: "int list option"
  m4_output_override :: int
  m4_profiles :: "(int \<times> est_profile) list"

definition init_policy ::
  "(int \<times> controller) list \<Rightarrow> m4_report \<Rightarrow> int \<Rightarrow> rat \<Rightarrow> rat \<Rightarrow> rat \<Rightarrow> string \<Rightarrow> cache_policy result" where
  "init_policy ctrls report pool expected_input_scale decay_rate uncertainty mode =
     (let page_sizes = remdups (map (\<lambda>(_, c). ct_page_size c) ctrls) in
      if \<not> (0 \<le> decay_rate \<and> decay_rate \<le> 1) then Inl (ValueError ''M5.5 demand decay must be between 0 and 1'')
      else if pool \<le> 0 then Inl (ValueError ''M5.5 requires a positive shared-pool size'')
      else if \<bar>m4_input_scale report - expected_input_scale\<bar> > 1 / 10 ^ 9
      then Inl (ValueError ''M5.5 runtime INPUT_SCALE does not match M4 profile'')
      else if m4_batch_sizes report \<noteq> Some [1] then Inl (ValueError ''M5.5 v3 requires a batch-size-1 M4 profile'')
      else if m4_output_override report \<noteq> 1 then Inl (ValueError ''M5.5 v3 requires an output_tokens_override=1 profile'')
      else if m4_profiles report = [] then Inl (ValueError ''M4 report has no estimator profiles'')
      else if \<not> fst ` set ctrls \<subseteq> fst ` set (m4_profiles report) then Inl (ValueError ''M4 report is missing models'')
      else if length page_sizes \<noteq> 1 then Inl (ValueError ''M5.5 requires one common VMM page size'')
      else if mode \<notin> {''demand'', ''next-use''} then Inl (ValueError ''LayerWeave cache policy mode must be demand or next-use'')
      else Inr \<lparr> controllers = ctrls, estimator_models = m4_profiles report, page_size = hd page_sizes, cp_pool_pages = pool,
                 decay = decay_rate, uncertainty_ms = max 0 uncertainty, next_use_mode = (mode = ''next-use''),
                 demands = map (\<lambda>(m, _). (m, new_demand)) ctrls, pending_counts = map (\<lambda>(m, _). (m, 0)) ctrls,
                 next_use_positions = map (\<lambda>(m, _). (m, None)) ctrls, cache_states = map (\<lambda>(m, _). (m, PrefixLayers 0)) ctrls,
                 curve_cache = [] \<rparr>)"

section \<open>Demand\<close>

definition observe :: "int \<Rightarrow> int \<Rightarrow> int \<Rightarrow> int \<Rightarrow> int \<Rightarrow> cache_policy \<Rightarrow> cache_policy result" where
  "observe model_id batch_size input_tokens max_input_tokens sum_squared p =
     (let decayed = map (\<lambda>(m, d). (m, d\<lparr> score := score d * decay p \<rparr>)) (demands p) in
      r_bind (dict_get decayed model_id) (\<lambda>d.
        Inr (p\<lparr> demands := AList.update model_id
          \<lparr> score = score d + 1, md_batch_size = max 1 batch_size, md_input_tokens = max 1 input_tokens,
            md_max_input_tokens = max 1 max_input_tokens, md_sum_squared = max 1 sum_squared \<rparr> decayed \<rparr>)))"

text \<open>One pass over the pending requests: counts, first request and first position of every known model.\<close>

definition pending_step ::
  "(int \<times> nat) list \<times> (int \<times> nat option) list \<times> (int \<times> lw_request) list \<Rightarrow> nat \<times> lw_request \<Rightarrow>
   (int \<times> nat) list \<times> (int \<times> nat option) list \<times> (int \<times> lw_request) list" where
  "pending_step = (\<lambda>(counts, positions, first) (position, r).
     let m = lw_model_id r in
     case map_of counts m of
       None \<Rightarrow> (counts, positions, first)
     | Some n \<Rightarrow> (AList.update m (n + 1) counts,
         AList.update m (Some (case map_of positions m of Some (Some q) \<Rightarrow> min q position | _ \<Rightarrow> position)) positions,
         if map_of first m = None then first @ [(m, r)] else first))"

definition set_pending :: "lw_request list \<Rightarrow> cache_policy \<Rightarrow> cache_policy result" where
  "set_pending requests p =
     (case foldl pending_step (map (\<lambda>(m, _). (m, 0)) (controllers p), map (\<lambda>(m, _). (m, None)) (controllers p), [])
             (zip [0..<length requests] requests) of
        (counts, positions, first) \<Rightarrow>
          r_bind (r_foldl (\<lambda>ds (m, r). r_bind (dict_get ds m) (\<lambda>d.
                   let n = max 1 (lw_input_tokens r) in
                   Inr (AList.update m (d\<lparr> md_batch_size := 1, md_input_tokens := n, md_max_input_tokens := n, md_sum_squared := n\<^sup>2 \<rparr>) ds)))
                  (demands p) first) (\<lambda>ds.
            Inr (p\<lparr> pending_counts := counts, next_use_positions := positions, demands := ds \<rparr>)))"

section \<open>Candidate curves\<close>

definition effective_configuration :: "controller \<Rightarrow> configuration \<Rightarrow> configuration" where
  "effective_configuration c cfg =
     (case cfg of FullModel \<Rightarrow> FullModel
      | PrefixLayers n \<Rightarrow> if length (layer_pages c) \<le> n then FullModel else PrefixLayers n)"

definition add_stage ::
  "controller \<Rightarrow> nat set \<times> est_stage list \<Rightarrow> stage_id \<times> nat set \<Rightarrow> nat set \<times> est_stage list" where
  "add_stage c = (\<lambda>(resident, stages) (stage, required).
     let missing = card (required - resident) in
     (resident \<union> required, stages @ [\<lparr> es_stage = stage, es_to_load_bytes = int missing * ct_page_size c,
        es_mapped_pages = int missing, es_h2d_ms = 0 \<rparr>]))"

definition demand_shape :: "int \<Rightarrow> model_demand \<Rightarrow> shape_key" where
  "demand_shape model_id d = (model_id, md_batch_size d, md_input_tokens d, md_max_input_tokens d, md_sum_squared d)"

fun hypothetical_batch :: "shape_key \<Rightarrow> controller \<Rightarrow> nat set \<Rightarrow> est_batch result" where
  "hypothetical_batch (model_id, batch_size, input_tokens, max_input_tokens, sum_squared) c retained =
     r_bind (list_get (layer_pages c) 0) (\<lambda>first.
       let n = length (layer_pages c) in
       Inr \<lparr> eb_model_id = model_id, eb_batch_size = batch_size, eb_input_tokens = input_tokens,
             eb_max_input_tokens = Some max_input_tokens, eb_sum_squared = Some (of_int sum_squared), eb_prefetch = True,
             eb_phase = ''steady'', eb_page_count = int (card (required_pages c)),
             eb_stages = snd (foldl (add_stage c) (retained, [])
               ((InitialStage, initial_pages c \<union> first) # map (\<lambda>l. (LayerStage l, layer_pages c ! l)) [1..<n])),
             eb_computes = map (\<lambda>l. (l, 0)) [0..<n], eb_host_gap_ms = 0, eb_service_ttft_ms = 0 \<rparr>)"

record curve_state =
  cv_base :: "base_candidate list"
  cv_seen :: "nat set list"
  cv_best_ttft :: "rat option"
  cv_cold_ttft :: "rat option"

definition curve_step ::
  "pipeline_estimator \<Rightarrow> shape_key \<Rightarrow> controller \<Rightarrow> curve_state \<Rightarrow> configuration \<Rightarrow> curve_state result" where
  "curve_step models shape c s cfg =
     (let pages = prefix_cache_pages c cfg in
      if pages \<in> set (cv_seen s) then Inr s
      else
        r_bind (hypothetical_batch shape c pages) (\<lambda>b.
        r_bind (predict models b) (\<lambda>raw.
          let prediction = (case cv_best_ttft s of None \<Rightarrow> predicted_service_ttft_ms raw | Some t \<Rightarrow> min t (predicted_service_ttft_ms raw));
              cold = (case cv_cold_ttft s of None \<Rightarrow> prediction | Some t \<Rightarrow> t) in
          Inr \<lparr> cv_base = cv_base s @ [\<lparr> configuration = effective_configuration c cfg, cand_pages = pages,
                  cand_page_count = card pages, cand_ttft_ms = prediction, cand_gain_ms = max 0 (cold - prediction) \<rparr>],
                cv_seen = cv_seen s @ [pages], cv_best_ttft = Some prediction, cv_cold_ttft = Some cold \<rparr>)))"

definition candidate_curve :: "pipeline_estimator \<Rightarrow> shape_key \<Rightarrow> controller \<Rightarrow> base_candidate list result" where
  "candidate_curve models shape c =
     r_bind (r_foldl (curve_step models shape c) \<lparr> cv_base = [], cv_seen = [], cv_best_ttft = None, cv_cold_ttft = None \<rparr>
               prefix_candidates) (\<lambda>s. Inr (cv_base s))"

definition cached_curve :: "int \<Rightarrow> model_demand \<Rightarrow> controller \<Rightarrow> cache_policy \<Rightarrow> (cache_policy \<times> base_candidate list) result" where
  "cached_curve model_id d c p =
     (let key = demand_shape model_id d in
      case map_of (curve_cache p) key of
        Some base \<Rightarrow> Inr (p, base)
      | None \<Rightarrow> r_bind (candidate_curve (estimator_models p) key c) (\<lambda>base.
          Inr (p\<lparr> curve_cache := AList.update key base (curve_cache p) \<rparr>, base)))"

definition score_candidate :: "rat \<Rightarrow> base_candidate \<Rightarrow> candidate" where
  "score_candidate demand b = base_candidate.extend b (candidate.fields demand (demand * cand_gain_ms b))"

definition score_candidates :: "int \<Rightarrow> controller \<Rightarrow> cache_policy \<Rightarrow> (cache_policy \<times> candidate list) result" where
  "score_candidates model_id c p =
     r_bind (dict_get (demands p) model_id) (\<lambda>d.
     r_bind (cached_curve model_id d c p) (\<lambda>(p', base).
     r_bind (dict_get (pending_counts p) model_id) (\<lambda>pending.
       Inr (p', map (score_candidate (score d + of_nat pending)) base))))"

section \<open>Configurations\<close>

definition configuration_rank :: "configuration \<Rightarrow> nat result" where
  "configuration_rank cfg =
     (if cfg = FullModel then Inr (length prefix_candidates)
      else case filter (\<lambda>i. prefix_candidates ! i = cfg) [0..<length prefix_candidates] of
             [] \<Rightarrow> Inl (ValueError ''tuple.index(x): x not in tuple'')
           | i # _ \<Rightarrow> Inr i)"

definition allowed_candidates :: "int \<Rightarrow> candidate list \<Rightarrow> int \<Rightarrow> cache_policy \<Rightarrow> candidate list result" where
  "allowed_candidates model_id candidates active p =
     (let kept = pareto_candidates candidates in
      if model_id = active then Inr kept
      else
        r_bind (dict_get (cache_states p) model_id) (\<lambda>current.
        r_bind (configuration_rank current) (\<lambda>current_rank.
        r_bind (r_map (\<lambda>c. r_bind (configuration_rank (configuration c)) (\<lambda>r. Inr (c, r))) kept) (\<lambda>ranked.
          let allowed = map fst (filter (\<lambda>(_, r). r \<le> current_rank) ranked) in
          if allowed = [] then Inl (RuntimeError ''Model has no non-upgrading cache configuration'') else Inr allowed))))"

record tier =
  tier_index :: nat
  tier_label :: "configuration \<times> configuration"
  added_pages :: nat
  marginal_gain_ms :: rat
  conservative_gain_ms :: rat
  value_per_page :: rat

definition marginal_tier :: "rat \<Rightarrow> nat \<Rightarrow> nat \<times> candidate \<times> candidate \<Rightarrow> tier" where
  "marginal_tier uncertainty tier_count = (\<lambda>(index, lower, upper).
     let added = card (cand_pages upper - cand_pages lower);
         gain = max 0 (cand_ttft_ms lower - cand_ttft_ms upper);
         conservative = max 0 (gain - uncertainty / of_nat tier_count) in
     \<lparr> tier_index = index, tier_label = (configuration lower, configuration upper), added_pages = added, marginal_gain_ms = gain,
       conservative_gain_ms = conservative,
       value_per_page = (if added = 0 then 0 else effective_demand upper * conservative / of_nat added) \<rparr>)"

text \<open>The tiers between neighbouring candidates, and the tier of every page one of them adds.\<close>

definition marginal_tiers ::
  "int \<Rightarrow> controller \<Rightarrow> cache_policy \<Rightarrow> (cache_policy \<times> candidate list \<times> tier list \<times> (nat \<rightharpoonup> tier)) result" where
  "marginal_tiers model_id c p =
     r_bind (score_candidates model_id c p) (\<lambda>(p', candidates).
       let steps = zip [1..<length candidates] (zip candidates (tl candidates));
           tiers = map (marginal_tier (uncertainty_ms p) (max 1 (length candidates - 1))) steps in
       Inr (p', candidates, tiers,
            foldl (\<lambda>meta ((_, lower, upper), t) page. if page \<in> cand_pages upper - cand_pages lower then Some t else meta page)
              Map.empty (zip steps tiers)))"

section \<open>Dispatch\<close>

type_synonym marginals = "candidate list \<times> tier list \<times> (nat \<rightharpoonup> tier)"

definition all_marginals :: "cache_policy \<Rightarrow> (cache_policy \<times> (int \<times> marginals) list) result" where
  "all_marginals p =
     r_foldl (\<lambda>(p, ms) (m, c). r_bind (marginal_tiers m c p) (\<lambda>(p', marginal). Inr (p', ms @ [(m, marginal)]))) (p, []) (controllers p)"

text \<open>\<open>observe\<close> of the dispatched batch and \<open>set_pending\<close> of the rest.\<close>

definition note_dispatch :: "int \<Rightarrow> lw_request list \<Rightarrow> lw_request list \<Rightarrow> cache_policy \<Rightarrow> cache_policy result" where
  "note_dispatch active batch pending p =
     (let ns = map lw_input_tokens batch in
      r_bind (observe active (int (length batch)) (sum_list ns) (if ns = [] then 1 else Max (set ns))
                (sum_list (map (\<lambda>n. n * n) ns)) p) (set_pending pending))"

definition inactive_candidates :: "int \<Rightarrow> (int \<times> marginals) list \<Rightarrow> cache_policy \<Rightarrow> (int \<times> candidate list) list result" where
  "inactive_candidates active marginal p =
     r_map (\<lambda>m. r_bind (dict_get marginal m) (\<lambda>(candidates, _, _).
       r_bind (allowed_candidates m candidates active p) (\<lambda>allowed. Inr (m, allowed))))
       (filter (\<lambda>m. m \<noteq> active) (map fst (controllers p)))"

definition best_active :: "int \<Rightarrow> (int \<times> marginals) list \<Rightarrow> cache_policy \<Rightarrow> candidate result" where
  "best_active active marginal p =
     r_bind (dict_get marginal active) (\<lambda>(candidates, _, _).
     r_bind (allowed_candidates active candidates active p) (\<lambda>allowed.
       if allowed = [] then Inl (ValueError ''max() arg is an empty sequence'')
       else Inr (arg_min_list (\<lambda>c. (- expected_value_ms c, - int (cand_page_count c))) allowed)))"

definition protected_value :: "(int \<times> marginals) list \<Rightarrow> cache_policy \<Rightarrow> rat result" where
  "protected_value marginal p =
     r_bind (r_map (\<lambda>(m, candidates, _, _). r_bind (dict_get (cache_states p) m) (\<lambda>current.
         Inr (case filter (\<lambda>c. configuration c = current) candidates of [] \<Rightarrow> 0 | c # _ \<Rightarrow> expected_value_ms c))) marginal) (\<lambda>vs.
       Inr (sum_list vs))"

definition protected_capacity :: "int \<Rightarrow> int \<Rightarrow> controller \<Rightarrow> cache_policy \<Rightarrow> int" where
  "protected_capacity current_kv_pages request_kv_pages c p =
     max 0 (cp_pool_pages p - current_kv_pages - request_kv_pages - int (card (required_pages c)))"

record dispatch_estimate =
  de_service_ttft_ms :: rat
  de_exposed_load_ms :: rat
  de_transition_cost_ms :: rat
  de_capacity_pages :: int
  de_resident_pages :: nat
  de_required_pages :: nat
  de_missing_pages :: nat

text \<open>The read-only estimate: the demand it changes while estimating is restored at the end.\<close>

definition estimate_dispatch ::
  "int \<Rightarrow> lw_request list \<Rightarrow> lw_request list \<Rightarrow> int \<Rightarrow> int \<Rightarrow> (int \<times> nat set) list \<Rightarrow> cache_policy \<Rightarrow>
   (cache_policy \<times> dispatch_estimate) result" where
  "estimate_dispatch active batch pending request_kv_pages current_kv_pages residencies p =
     (if batch = [] then Inl (ValueError ''estimate_dispatch requires a non-empty batch'')
      else
        r_bind (dict_get (controllers p) active) (\<lambda>c.
        r_bind (note_dispatch active batch pending p) (\<lambda>p1.
        r_bind (dict_get residencies active) (\<lambda>resident.
        r_bind (dict_get (demands p1) active) (\<lambda>d.
        r_bind (hypothetical_batch (demand_shape active d) c resident) (\<lambda>b.
        r_bind (predict (estimator_models p1) b) (\<lambda>prediction.
        r_bind (all_marginals p1) (\<lambda>(p2, marginal).
        let capacity = protected_capacity current_kv_pages request_kv_pages c p2 in
        r_bind (inactive_candidates active marginal p2) (\<lambda>inactive.
        r_bind (solve_mckp inactive capacity) (\<lambda>sol.
        r_bind (best_active active marginal p2) (\<lambda>choice.
        r_bind (protected_value marginal p2) (\<lambda>before.
          Inr (p2\<lparr> demands := demands p, pending_counts := pending_counts p, next_use_positions := next_use_positions p \<rparr>,
               \<lparr> de_service_ttft_ms = predicted_service_ttft_ms prediction,
                 de_exposed_load_ms = predicted_gpu_ready_stall_ms prediction,
                 de_transition_cost_ms = before - (solution_value_ms sol + expected_value_ms choice), de_capacity_pages = capacity,
                 de_resident_pages = card resident, de_required_pages = card (required_pages c),
                 de_missing_pages = card (required_pages c - resident) \<rparr>)))))))))))))"

section \<open>Planning a dispatch\<close>

record choice =
  ch_configuration :: configuration
  ch_pages :: "nat set"
  ch_value_ms :: rat

definition choice_of :: "candidate \<Rightarrow> choice" where
  "choice_of c = \<lparr> ch_configuration = configuration c, ch_pages = cand_pages c, ch_value_ms = expected_value_ms c \<rparr>"

definition next_use_choices :: "int \<Rightarrow> cache_policy \<Rightarrow> (int \<times> choice) list" where
  "next_use_choices active p =
     map (\<lambda>(m, c). (m, \<lparr> ch_configuration = (if m = active then FullModel else PrefixLayers 0),
                        ch_pages = (if m = active then required_pages c else {}), ch_value_ms = 0 \<rparr>)) (controllers p)"

datatype victim_label = NextUse | Fragment | TierLabel "configuration \<times> configuration"

record victim =
  vc_rank :: "int option"
  vc_value :: rat
  vc_model :: int
  vc_page :: nat
  vc_label :: victim_label

text \<open>\<open>None\<close> as a rank is minus infinity: the model is not needed by any pending request.\<close>

definition model_victims :: "cache_policy \<Rightarrow> (int \<times> marginals) list \<Rightarrow> int \<Rightarrow> nat set \<Rightarrow> victim list result" where
  "model_victims p marginal m soft =
     (if next_use_mode p
      then r_bind (dict_get (next_use_positions p) m) (\<lambda>next_use.
             Inr (map (\<lambda>page. \<lparr> vc_rank = map_option (\<lambda>q. - int q) next_use, vc_value = 0, vc_model = m, vc_page = page,
                               vc_label = NextUse \<rparr>) (sorted_list_of_set soft)))
      else r_bind (dict_get marginal m) (\<lambda>(_, tiers, page_tier).
             Inr (map (\<lambda>page. case page_tier page of
                 None \<Rightarrow> \<lparr> vc_rank = Some (- int (length tiers) - 1), vc_value = 0, vc_model = m, vc_page = page, vc_label = Fragment \<rparr>
               | Some t \<Rightarrow> \<lparr> vc_rank = Some (- int (tier_index t)), vc_value = value_per_page t, vc_model = m, vc_page = page,
                             vc_label = TierLabel (tier_label t) \<rparr>) (sorted_list_of_set soft))))"

definition victim_key :: "victim \<Rightarrow> int option \<times> rat \<times> int \<times> int" where
  "victim_key v = (vc_rank v, vc_value v, vc_model v, - int (vc_page v))"

definition batch_kv_blocks :: "int \<Rightarrow> lw_request list \<Rightarrow> int result" where
  "batch_kv_blocks block_tokens batch =
     r_bind (r_map (\<lambda>r. r_bind (py_div (of_int (lw_input_tokens r + lw_output_tokens r)) (of_int block_tokens)) (\<lambda>q. Inr (ceiling q))) batch)
       (\<lambda>ns. Inr (sum_list ns))"

record dispatch_plan =
  pl_resident_before :: nat
  pl_free_before :: int
  pl_missing :: nat
  pl_request_kv_pages :: int
  pl_reservation :: int
  pl_eviction_required :: int
  pl_capacity :: int
  pl_used_inactive :: nat
  pl_value_before :: rat
  pl_value_after :: rat
  pl_transition_cost :: rat
  pl_choices :: "(int \<times> choice) list"
  pl_evicted :: "victim list"
  pl_retained :: "(int \<times> nat set) list"

text \<open>The protected configurations: \<open>(used inactive pages, value before, choices)\<close>.\<close>

definition plan_protection ::
  "int \<Rightarrow> int \<Rightarrow> (int \<times> marginals) list \<Rightarrow> cache_policy \<Rightarrow> (nat \<times> rat \<times> (int \<times> choice) list) result" where
  "plan_protection active capacity marginal p =
     (if next_use_mode p then Inr (0, 0, next_use_choices active p)
      else
        r_bind (inactive_candidates active marginal p) (\<lambda>inactive.
        r_bind (solve_mckp inactive capacity) (\<lambda>sol.
        r_bind (best_active active marginal p) (\<lambda>c.
        r_bind (protected_value marginal p) (\<lambda>before.
          Inr (used_pages sol, before,
               AList.update active (choice_of c) (map (\<lambda>(m, c). (m, choice_of c)) (solution_choices sol))))))))"

definition plan_victims_of ::
  "int \<Rightarrow> (int \<times> marginals) list \<Rightarrow> (int \<times> choice) list \<Rightarrow> (int \<times> nat set) list \<Rightarrow> cache_policy \<Rightarrow> victim list result" where
  "plan_victims_of active marginal choices residencies p =
     r_bind (r_map (\<lambda>m. r_bind (dict_get residencies m) (\<lambda>resident.
               r_bind (dict_get choices m) (\<lambda>ch. model_victims p marginal m (resident - ch_pages ch))))
             (filter (\<lambda>m. m \<noteq> active) (map fst (controllers p)))) (\<lambda>vss.
       Inr (sort_key victim_key (concat vss)))"

definition retained_pages :: "victim list \<Rightarrow> (int \<times> nat set) list \<Rightarrow> (int \<times> nat set) list" where
  "retained_pages selected residencies =
     map (\<lambda>(m, pages). (m, pages - vc_page ` {v \<in> set selected. vc_model v = m})) residencies"

definition plan_dispatch ::
  "int \<Rightarrow> lw_request list \<Rightarrow> lw_request list \<Rightarrow> int \<Rightarrow> int \<Rightarrow> int \<Rightarrow> (int \<times> nat set) list \<Rightarrow> cache_policy \<Rightarrow>
   (cache_policy \<times> dispatch_plan) result" where
  "plan_dispatch active batch pending kv_block_tokens kv_block_bytes current_kv_pages residencies p =
     r_bind (note_dispatch active batch pending p) (\<lambda>p1.
     r_bind (if next_use_mode p1 then Inr (p1, []) else all_marginals p1) (\<lambda>(p2, marginal).
     r_bind (dict_get (controllers p2) active) (\<lambda>c.
     r_bind (dict_get residencies active) (\<lambda>resident.
     r_bind (batch_kv_blocks kv_block_tokens batch) (\<lambda>kv_blocks.
     r_bind (py_div (of_int kv_block_bytes) (of_int (page_size p2))) (\<lambda>ratio.
     let missing = card (required_pages c - resident);
         request_kv_pages = kv_blocks * ceiling ratio;
         resident_weight = sum_list (map (\<lambda>(_, pages). card pages) residencies);
         free_before = max 0 (cp_pool_pages p2 - int resident_weight - current_kv_pages);
         reservation = int missing + request_kv_pages;
         eviction_required = max 0 (reservation - free_before);
         capacity = protected_capacity current_kv_pages request_kv_pages c p2 in
     r_bind (plan_protection active capacity marginal p2) (\<lambda>(used, before, choices).
     let after = sum_list (map (\<lambda>(_, ch). ch_value_ms ch) choices);
         p3 = p2\<lparr> cache_states := foldl (\<lambda>cs (m, ch). AList.update m (ch_configuration ch) cs) (cache_states p2) choices \<rparr> in
     r_bind (plan_victims_of active marginal choices residencies p3) (\<lambda>victims.
     let selected = take (nat eviction_required) victims in
     if int (length selected) < eviction_required
     then Inl (RuntimeError ''Protected-cache MCKP cannot expose enough soft pages for dispatch'')
     else Inr (p3, \<lparr> pl_resident_before = resident_weight, pl_free_before = free_before, pl_missing = missing,
                 pl_request_kv_pages = request_kv_pages, pl_reservation = reservation, pl_eviction_required = eviction_required,
                 pl_capacity = capacity, pl_used_inactive = used, pl_value_before = before, pl_value_after = after,
                 pl_transition_cost = before - after, pl_choices = choices, pl_evicted = selected,
                 pl_retained = retained_pages selected residencies \<rparr>)))))))))"

section \<open>What the policy relies on\<close>

definition profile_ok :: "est_profile \<Rightarrow> bool" where
  "profile_ok profile \<longleftrightarrow> 0 < bytes_per_ms profile \<and> 0 \<le> fixed_stage_ms profile"

text \<open>The values the policy reads from a controller: no page of the model is in the empty prefix.\<close>

definition controller_ok :: "controller \<Rightarrow> bool" where
  "controller_ok c \<longleftrightarrow> layer_pages c \<noteq> [] \<and> 0 \<le> ct_page_size c \<and> finite (required_pages c)
     \<and> prefix_cache_pages c (PrefixLayers 0) = {} \<and> (\<forall>cfg \<in> set prefix_candidates. finite (prefix_cache_pages c cfg))"

definition cache_ok :: "cache_policy \<Rightarrow> bool" where
  "cache_ok p \<longleftrightarrow> (\<forall>key base. map_of (curve_cache p) key = Some base \<longrightarrow>
     (\<exists>c. map_of (controllers p) (fst key) = Some c \<and> candidate_curve (estimator_models p) key c = Inr base))"

lemma cache_ok_demand [simp]:
  "cache_ok (p\<lparr> demands := x \<rparr>) = cache_ok p" "cache_ok (p\<lparr> pending_counts := y \<rparr>) = cache_ok p"
  "cache_ok (p\<lparr> next_use_positions := z \<rparr>) = cache_ok p" "cache_ok (p\<lparr> cache_states := w \<rparr>) = cache_ok p"
  by (simp_all add: cache_ok_def)

definition policy_ok :: "cache_policy \<Rightarrow> bool" where
  "policy_ok p \<longleftrightarrow>
     distinct (map fst (controllers p)) \<and> map fst (demands p) = map fst (controllers p)
     \<and> map fst (pending_counts p) = map fst (controllers p) \<and> map fst (next_use_positions p) = map fst (controllers p)
     \<and> map fst (cache_states p) = map fst (controllers p)
     \<and> (\<forall>(m, c) \<in> set (controllers p). controller_ok c \<and> (\<exists>profile. map_of (estimator_models p) m = Some profile \<and> profile_ok profile))
     \<and> 0 \<le> decay p \<and> (\<forall>(m, d) \<in> set (demands p). 0 \<le> score d)
     \<and> (\<forall>(m, cfg) \<in> set (cache_states p). cfg \<in> set prefix_candidates) \<and> cache_ok p"

lemma same_keys_get: "map fst d = map fst e \<Longrightarrow> map_of e m = Some c \<Longrightarrow> \<exists>v. map_of d m = Some v"
proof -
  assume keys: "map fst d = map fst e" and "map_of e m = Some c"
  then have "m \<in> set (map fst e)" by (force dest: map_of_SomeD)
  then have "m \<in> fst ` set d" unfolding keys [symmetric] by simp
  then show ?thesis by (rule map_of_mem)
qed

lemma policy_get:
  assumes ok: "policy_ok p" and m: "map_of (controllers p) m = Some c"
  shows "\<exists>d. map_of (demands p) m = Some d \<and> 0 \<le> score d" "\<exists>n. map_of (pending_counts p) m = Some n"
    "\<exists>q. map_of (next_use_positions p) m = Some q" "\<exists>cfg. map_of (cache_states p) m = Some cfg \<and> cfg \<in> set prefix_candidates"
    "controller_ok c" "\<exists>profile. map_of (estimator_models p) m = Some profile \<and> profile_ok profile"
proof -
  have mem: "(m, c) \<in> set (controllers p)" using m by (rule map_of_SomeD)
  note keys = ok [unfolded policy_ok_def]
  show "\<exists>d. map_of (demands p) m = Some d \<and> 0 \<le> score d"
    using same_keys_get [OF _ m, of "demands p"] keys by (fastforce dest: map_of_SomeD)
  show "\<exists>n. map_of (pending_counts p) m = Some n" using same_keys_get [OF _ m, of "pending_counts p"] keys by blast
  show "\<exists>q. map_of (next_use_positions p) m = Some q" using same_keys_get [OF _ m, of "next_use_positions p"] keys by blast
  show "\<exists>cfg. map_of (cache_states p) m = Some cfg \<and> cfg \<in> set prefix_candidates"
    using same_keys_get [OF _ m, of "cache_states p"] keys by (fastforce dest: map_of_SomeD)
  show "controller_ok c" "\<exists>profile. map_of (estimator_models p) m = Some profile \<and> profile_ok profile"
    using mem keys by auto
qed

text \<open>What noting a dispatch may change.\<close>

definition same_static :: "cache_policy \<Rightarrow> cache_policy \<Rightarrow> bool" where
  "same_static p q \<longleftrightarrow> controllers q = controllers p \<and> estimator_models q = estimator_models p \<and> page_size q = page_size p
     \<and> cp_pool_pages q = cp_pool_pages p \<and> next_use_mode q = next_use_mode p \<and> cache_states q = cache_states p
     \<and> uncertainty_ms q = uncertainty_ms p \<and> decay q = decay p"

lemma observe_ok:
  assumes ok: "policy_ok p" and m: "map_of (controllers p) m = Some c"
  shows "\<exists>q. observe m bs n mx sq p = Inr q \<and> policy_ok q \<and> same_static p q \<and> curve_cache q = curve_cache p"
proof -
  let ?dec = "map (\<lambda>(m, d). (m, d\<lparr> score := score d * decay p \<rparr>)) (demands p)"
  obtain d where d: "map_of (demands p) m = Some d" "0 \<le> score d" using policy_get(1) [OF ok m] by blast
  have get: "map_of ?dec m = Some (d\<lparr> score := score d * decay p \<rparr>)" using d(1) by (simp add: map_of_map_key)
  have key: "m \<in> fst ` set ?dec" using map_of_SomeD [OF get] by force
  have keys: "map fst ?dec = map fst (controllers p)" using ok by (simp add: policy_ok_def o_def split_def)
  have dec: "0 \<le> decay p" "\<forall>(m, d) \<in> set (demands p). 0 \<le> score d" using ok by (auto simp: policy_ok_def)
  let ?new = "\<lparr> score = score d * decay p + 1, md_batch_size = max 1 bs, md_input_tokens = max 1 n, md_max_input_tokens = max 1 mx, md_sum_squared = max 1 sq \<rparr>"
  have "\<forall>(k, e) \<in> set (AList.update m ?new ?dec). 0 \<le> score e"
    using set_update [of m ?new ?dec] dec d(2) by (fastforce intro: mult_nonneg_nonneg)
  then have "policy_ok (p\<lparr> demands := AList.update m ?new ?dec \<rparr>)"
    using ok keys keys_update [OF key] by (simp add: policy_ok_def)
  then show ?thesis using get by (auto simp: observe_def same_static_def Let_def)
qed

lemma pending_step_keys:
  assumes "map fst counts = ks" "map fst positions = ks" "fst ` set first \<subseteq> set ks"
  shows "case pending_step (counts, positions, first) x of (counts', positions', first') \<Rightarrow>
    map fst counts' = ks \<and> map fst positions' = ks \<and> fst ` set first' \<subseteq> set ks"
proof -
  obtain i r where x: "x = (i, r)" by (cases x)
  show ?thesis
  proof (cases "map_of counts (lw_model_id r)")
    case None
    then show ?thesis using assms by (simp add: pending_step_def x)
  next
    case (Some n)
    then have key: "lw_model_id r \<in> fst ` set counts" by (force dest: map_of_SomeD)
    then have key': "lw_model_id r \<in> fst ` set positions" "lw_model_id r \<in> set ks" using assms(1,2) by (metis list.set_map)+
    show ?thesis using assms Some by (simp add: pending_step_def x keys_update [OF key] keys_update [OF key'(1)] key'(2) Let_def)
  qed
qed

lemma pending_steps_keys:
  assumes "map fst counts = ks" "map fst positions = ks" "fst ` set first \<subseteq> set ks"
    and "foldl pending_step (counts, positions, first) xs = (counts', positions', first')"
  shows "map fst counts' = ks \<and> map fst positions' = ks \<and> fst ` set first' \<subseteq> set ks"
  using assms
proof (induction xs arbitrary: counts positions first)
  case (Cons x xs)
  obtain c q f where s: "pending_step (counts, positions, first) x = (c, q, f)" by (cases "pending_step (counts, positions, first) x") auto
  have "map fst c = ks \<and> map fst q = ks \<and> fst ` set f \<subseteq> set ks"
    using pending_step_keys [OF Cons.prems(1-3), of x] s by simp
  then show ?case using Cons.IH [of c q f] Cons.prems(4) s by simp
qed simp

lemma set_pending_ok:
  assumes ok: "policy_ok p"
  shows "\<exists>q. set_pending rs p = Inr q \<and> policy_ok q \<and> same_static p q \<and> curve_cache q = curve_cache p"
proof -
  let ?ks = "map fst (controllers p)"
  obtain counts positions first where run:
    "foldl pending_step (map (\<lambda>(m, _). (m, 0)) (controllers p), map (\<lambda>(m, _). (m, None)) (controllers p), []) (zip [0..<length rs] rs)
       = (counts, positions, first)" by (metis prod.exhaust)
  have keys: "map fst counts = ?ks" "map fst positions = ?ks" "fst ` set first \<subseteq> set ?ks"
    using pending_steps_keys [OF _ _ _ run, of ?ks] by (auto simp: o_def split_def)
  let ?upd = "\<lambda>ds (m, r). r_bind (dict_get ds m) (\<lambda>d. let n = max 1 (lw_input_tokens r) in
     Inr (AList.update m (d\<lparr> md_batch_size := 1, md_input_tokens := n, md_max_input_tokens := n, md_sum_squared := n\<^sup>2 \<rparr>) ds))"
  let ?P = "\<lambda>ds :: (int \<times> model_demand) list. map fst ds = ?ks \<and> (\<forall>(m, d) \<in> set ds. 0 \<le> score d)"
  have step: "\<exists>ds'. ?upd ds x = Inr ds' \<and> ?P ds'" if P: "?P ds" and x: "x \<in> set first" for ds x
  proof -
    obtain m r where mr: "x = (m, r)" by (cases x)
    have "m \<in> set ?ks" using keys(3) x mr by force
    then have key: "m \<in> fst ` set ds" using P by (metis list.set_map)
    obtain d where d: "map_of ds m = Some d" using map_of_mem [OF key] by blast
    then have "0 \<le> score d" using P by (auto dest: map_of_SomeD)
    let ?n = "max 1 (lw_input_tokens r)"
    let ?new = "d\<lparr> md_batch_size := 1, md_input_tokens := ?n, md_max_input_tokens := ?n, md_sum_squared := ?n\<^sup>2 \<rparr>"
    have "map fst (AList.update m ?new ds) = ?ks" using P keys_update [OF key] by simp
    moreover have "0 \<le> score e" if "(k, e) \<in> set (AList.update m ?new ds)" for k e
      using set_update [of m ?new ds] that P \<open>0 \<le> score d\<close> by auto
    ultimately have "?P (AList.update m ?new ds)" by auto
    then show ?thesis using d mr by (simp add: Let_def)
  qed
  have "?P (demands p)" using ok by (simp add: policy_ok_def)
  from r_foldl_total [where P = ?P and f = ?upd, OF this step] obtain ds where
    ds: "r_foldl ?upd (demands p) first = Inr ds" "?P ds" by blast
  have "policy_ok (p\<lparr> pending_counts := counts, next_use_positions := positions, demands := ds \<rparr>)"
    using ok keys ds(2) by (simp add: policy_ok_def)
  then show ?thesis using run ds(1) by (auto simp: set_pending_def same_static_def)
qed

lemma note_dispatch_ok:
  assumes "policy_ok p" "map_of (controllers p) active = Some c"
  shows "\<exists>q. note_dispatch active batch pending p = Inr q \<and> policy_ok q \<and> same_static p q \<and> curve_cache q = curve_cache p"
proof -
  obtain q where q: "observe active (int (length batch)) (sum_list (map lw_input_tokens batch))
      (if map lw_input_tokens batch = [] then 1 else Max (set (map lw_input_tokens batch)))
      (sum_list (map (\<lambda>n. n * n) (map lw_input_tokens batch))) p = Inr q" "policy_ok q" "same_static p q" "curve_cache q = curve_cache p"
    using observe_ok [OF assms] by blast
  obtain q' where "set_pending pending q = Inr q'" "policy_ok q'" "same_static q q'" "curve_cache q' = curve_cache q"
    using set_pending_ok [OF q(2)] by blast
  then show ?thesis using q by (auto simp: note_dispatch_def Let_def same_static_def)
qed

section \<open>Curves exist and are well formed\<close>

lemma add_stage_pair:
  "add_stage c (resident, stages) (stage, pages) = (resident \<union> pages, stages @
     [\<lparr> es_stage = stage, es_to_load_bytes = int (card (pages - resident)) * ct_page_size c,
        es_mapped_pages = int (card (pages - resident)), es_h2d_ms = 0 \<rparr>])"
  by (simp add: add_stage_def Let_def)

lemma add_stages_ids: "map es_stage (snd (foldl (add_stage c) (resident, stages) reqs)) = map es_stage stages @ map fst reqs"
  by (induction reqs arbitrary: resident stages) (auto simp: add_stage_pair)

lemma add_stages_bytes:
  assumes "0 \<le> ct_page_size c"
  shows "\<forall>s \<in> set stages. 0 \<le> es_to_load_bytes s \<Longrightarrow>
     \<forall>s \<in> set (snd (foldl (add_stage c) (resident, stages) reqs)). 0 \<le> es_to_load_bytes s"
proof (induction reqs arbitrary: resident stages)
  case (Cons r reqs)
  obtain stage pages where r: "r = (stage, pages)" by (cases r)
  show ?case unfolding r foldl_Cons add_stage_pair by (rule Cons.IH) (use Cons.prems assms in auto)
qed simp

lemma hypothetical_predict:
  assumes c: "controller_ok c" and m: "map_of models m = Some profile" "profile_ok profile"
  shows "\<exists>b pr. hypothetical_batch (m, bs, n, mx, sq) c retained = Inr b \<and> predict models b = Inr pr"
proof -
  let ?n = "length (layer_pages c)"
  let ?reqs = "(InitialStage, initial_pages c \<union> layer_pages c ! 0) # map (\<lambda>l. (LayerStage l, layer_pages c ! l)) [1..<?n]"
  have ne: "0 < ?n" "0 \<le> ct_page_size c" using c by (auto simp: controller_ok_def)
  then obtain b where b: "hypothetical_batch (m, bs, n, mx, sq) c retained = Inr b" "eb_model_id b = m" "length (eb_computes b) = ?n"
      "eb_stages b = snd (foldl (add_stage c) (retained, []) ?reqs)"
    by (simp add: list_get_def Let_def)
  have stages: "map es_stage (eb_stages b) = map fst ?reqs" "\<forall>s \<in> set (eb_stages b). 0 \<le> es_to_load_bytes s"
    using add_stages_ids [of c retained "[]" ?reqs] add_stages_bytes [OF ne(2), of "[]" retained ?reqs] by (simp_all add: b(4) del: foldl_Cons)
  have "es_stage ` set (eb_stages b) = set (map fst ?reqs)" unfolding stages(1) [symmetric] by simp
  then have ids: "es_stage ` set (eb_stages b) = insert InitialStage (LayerStage ` {1..<?n})" by (auto simp: image_iff)
  have "\<exists>s \<in> set (eb_stages b). es_stage s = x" if "x \<in> insert InitialStage (LayerStage ` {1..<?n})" for x
    using that unfolding ids [symmetric] by auto
  then have "pipeline_ok profile b"
    using m(2) stages(2) b(3) by (auto simp: pipeline_ok_def profile_ok_def)
  then obtain gpu where "simulate_gpu b profile = Inr gpu" using simulate_gpu_run by blast
  then show ?thesis using b(1,2) m(1) by (auto simp: predict_def Let_def)
qed

definition base_ok :: "base_candidate \<Rightarrow> bool" where
  "base_ok b \<longleftrightarrow> finite (cand_pages b) \<and> cand_page_count b = card (cand_pages b) \<and> 0 \<le> cand_gain_ms b
     \<and> configuration b \<in> set prefix_candidates"

definition curve_ok :: "base_candidate list \<Rightarrow> bool" where
  "curve_ok base \<longleftrightarrow> (\<forall>b \<in> set base. base_ok b) \<and> distinct (map cand_pages base)
     \<and> (\<exists>b bs. base = b # bs \<and> cand_pages b = {} \<and> configuration b = PrefixLayers 0)"

lemma effective_in: "cfg \<in> set prefix_candidates \<Longrightarrow> effective_configuration c cfg \<in> set prefix_candidates"
proof -
  assume cfg: "cfg \<in> set prefix_candidates"
  have "effective_configuration c cfg = cfg \<or> effective_configuration c cfg = FullModel"
    by (auto simp: effective_configuration_def split: configuration.split)
  then show ?thesis using cfg by (auto simp: prefix_candidates_def)
qed

lemma curve_step_ok:
  assumes c: "controller_ok c" and m: "map_of models m = Some profile" "profile_ok profile" and cfg: "cfg \<in> set prefix_candidates"
    and s: "curve_ok (cv_base s)" "cv_seen s = map cand_pages (cv_base s)"
  shows "\<exists>s'. curve_step models (m, bs, n, mx, sq) c s cfg = Inr s' \<and> curve_ok (cv_base s') \<and> cv_seen s' = map cand_pages (cv_base s')"
proof (cases "prefix_cache_pages c cfg \<in> set (cv_seen s)")
  case True
  then show ?thesis using s by (simp add: curve_step_def Let_def)
next
  case False
  obtain b pr where "hypothetical_batch (m, bs, n, mx, sq) c (prefix_cache_pages c cfg) = Inr b" "predict models b = Inr pr"
    using hypothetical_predict [OF c m] by blast
  moreover have "finite (prefix_cache_pages c cfg)" using c cfg by (simp add: controller_ok_def)
  ultimately show ?thesis using False s effective_in [OF cfg, of c]
    by (auto simp: curve_step_def curve_ok_def base_ok_def Let_def simp del: hypothetical_batch.simps)
qed

lemma candidate_curve_ok:
  assumes c: "controller_ok c" and m: "map_of models m = Some profile" "profile_ok profile"
  shows "\<exists>base. candidate_curve models (m, bs, n, mx, sq) c = Inr base \<and> curve_ok base"
proof -
  let ?shape = "(m, bs, n, mx, sq)"
  let ?s0 = "\<lparr> cv_base = [], cv_seen = [], cv_best_ttft = None, cv_cold_ttft = None \<rparr>"
  let ?P = "\<lambda>s. curve_ok (cv_base s) \<and> cv_seen s = map cand_pages (cv_base s)"
  have zero: "prefix_cache_pages c (PrefixLayers 0) = {}" "layer_pages c \<noteq> []" using c by (auto simp: controller_ok_def)
  obtain b pr where "hypothetical_batch ?shape c {} = Inr b" "predict models b = Inr pr"
    using hypothetical_predict [OF c m] by blast
  then obtain s1 where s1: "curve_step models ?shape c ?s0 (PrefixLayers 0) = Inr s1" "?P s1"
    using zero by (auto simp: curve_step_def curve_ok_def base_ok_def effective_configuration_def prefix_candidates_def Let_def
        simp del: hypothetical_batch.simps)
  have pc: "prefix_candidates = PrefixLayers 0 # tl prefix_candidates" by (simp add: prefix_candidates_def)
  have "\<exists>b. curve_step models ?shape c a x = Inr b \<and> ?P b" if "?P a" "x \<in> set (tl prefix_candidates)" for a x
    by (rule curve_step_ok [OF c m]) (use that list.set_sel(2) [of prefix_candidates x] in \<open>auto simp: prefix_candidates_def\<close>)
  with r_foldl_total [where P = ?P and f = "curve_step models ?shape c" and xs = "tl prefix_candidates", OF s1(2)] obtain s where
    "r_foldl (curve_step models ?shape c) s1 (tl prefix_candidates) = Inr s" "?P s" by blast
  then have "r_foldl (curve_step models ?shape c) ?s0 prefix_candidates = Inr s" using s1(1) by (subst pc) simp
  then show ?thesis using \<open>?P s\<close> by (simp add: candidate_curve_def)
qed

section \<open>Scored candidates\<close>

definition cands_ok :: "candidate list \<Rightarrow> bool" where
  "cands_ok cs \<longleftrightarrow> (\<forall>c \<in> set cs. finite (cand_pages c) \<and> cand_page_count c = card (cand_pages c) \<and> 0 \<le> expected_value_ms c
       \<and> configuration c \<in> set prefix_candidates)
     \<and> distinct (map cand_pages cs) \<and> (\<exists>c \<in> set cs. cand_pages c = {} \<and> configuration c = PrefixLayers 0)"

definition only_cache :: "cache_policy \<Rightarrow> cache_policy \<Rightarrow> bool" where
  "only_cache p q \<longleftrightarrow> q = p\<lparr> curve_cache := curve_cache q \<rparr>"

lemma score_candidate_simps [simp]:
  "configuration (score_candidate d b) = configuration b" "cand_pages (score_candidate d b) = cand_pages b"
  "cand_page_count (score_candidate d b) = cand_page_count b" "cand_ttft_ms (score_candidate d b) = cand_ttft_ms b"
  "effective_demand (score_candidate d b) = d" "expected_value_ms (score_candidate d b) = d * cand_gain_ms b"
  by (simp_all add: score_candidate_def base_candidate.defs candidate.defs)

lemma curve_scored: "curve_ok base \<Longrightarrow> 0 \<le> d \<Longrightarrow> cands_ok (map (score_candidate d) base)"
  by (auto simp: curve_ok_def base_ok_def cands_ok_def o_def)

lemma cached_curve_ok:
  assumes ok: "policy_ok p" and m: "map_of (controllers p) m = Some c"
  shows "\<exists>q base. cached_curve m d c p = Inr (q, base) \<and> candidate_curve (estimator_models p) (demand_shape m d) c = Inr base
     \<and> curve_ok base \<and> policy_ok q \<and> only_cache p q"
proof -
  obtain profile where profile: "map_of (estimator_models p) m = Some profile" "profile_ok profile" using policy_get(6) [OF ok m] by blast
  obtain base where base: "candidate_curve (estimator_models p) (demand_shape m d) c = Inr base" "curve_ok base"
    using candidate_curve_ok [OF policy_get(5) [OF ok m] profile] unfolding demand_shape_def by blast
  show ?thesis
  proof (cases "map_of (curve_cache p) (demand_shape m d)")
    case (Some b)
    have "cache_ok p" using ok by (simp add: policy_ok_def)
    then have "candidate_curve (estimator_models p) (demand_shape m d) c = Inr b"
      using Some m unfolding cache_ok_def demand_shape_def by fastforce
    then show ?thesis using base ok Some by (simp add: cached_curve_def only_cache_def)
  next
    case None
    have "cache_ok (p\<lparr> curve_cache := AList.update (demand_shape m d) base (curve_cache p) \<rparr>)"
      using ok m base(1) by (auto simp: policy_ok_def cache_ok_def update_conv' demand_shape_def)
    then have "policy_ok (p\<lparr> curve_cache := AList.update (demand_shape m d) base (curve_cache p) \<rparr>)"
      using ok by (simp add: policy_ok_def)
    then show ?thesis using base None by (simp add: cached_curve_def only_cache_def)
  qed
qed

lemma score_candidates_ok:
  assumes ok: "policy_ok p" and m: "map_of (controllers p) m = Some c"
  shows "\<exists>q cs. score_candidates m c p = Inr (q, cs) \<and> cands_ok cs \<and> policy_ok q \<and> only_cache p q"
proof -
  obtain d n where "map_of (demands p) m = Some d" "0 \<le> score d" "map_of (pending_counts p) m = Some n"
    using policy_get(1,2) [OF ok m] by blast
  moreover obtain q base where "cached_curve m d c p = Inr (q, base)" "curve_ok base" "policy_ok q" "only_cache p q"
    using cached_curve_ok [OF ok m, of d] by blast
  ultimately show ?thesis using curve_scored [of base "score d + of_nat n"] by (simp add: score_candidates_def)
qed

section \<open>Which configurations are allowed\<close>

lemma configuration_rank_total: "cfg \<in> set prefix_candidates \<Longrightarrow> \<exists>r. configuration_rank cfg = Inr r"
  by (auto simp: configuration_rank_def prefix_candidates_def upt_rec split: list.splits)

lemma configuration_rank_zero: "configuration_rank (PrefixLayers 0) = Inr 0"
  by (simp add: configuration_rank_def prefix_candidates_def upt_rec)

lemma candidate_scan_subset: "set (candidate_scan cs b) \<subseteq> set cs"
  by (induction cs b rule: candidate_scan.induct) auto

lemma pareto_subset: "set (pareto_candidates cs) \<subseteq> set cs"
  unfolding pareto_candidates_def using candidate_scan_subset by fastforce

text \<open>The empty configuration is never dominated: no other has as few pages.\<close>

lemma pareto_empty:
  assumes "cands_ok cs"
  shows "\<exists>c \<in> set (pareto_candidates cs). cand_pages c = {} \<and> configuration c = PrefixLayers 0"
proof -
  let ?key = "\<lambda>c. (cand_page_count c, - expected_value_ms c)"
  obtain c0 where c0: "c0 \<in> set cs" "cand_pages c0 = {}" "configuration c0 = PrefixLayers 0" using assms by (auto simp: cands_ok_def)
  have counts: "cand_page_count c = card (cand_pages c)" "finite (cand_pages c)" "0 \<le> expected_value_ms c" if "c \<in> set cs" for c
    using assms that by (auto simp: cands_ok_def)
  obtain h t where ht: "sort_key ?key cs = h # t" using c0(1) by (cases "sort_key ?key cs") (auto dest: arg_cong [where f = set])
  then have h: "h \<in> set cs" by (metis list.set_intros(1) set_sort)
  have "?key h \<le> ?key c0"
  proof -
    have "c0 \<in> set (h # t)" using c0(1) ht by (metis set_sort)
    moreover have "sorted (map ?key (h # t))" using sorted_sort_key [of ?key cs] ht by simp
    ultimately show ?thesis by auto
  qed
  then have "cand_page_count h = 0" using counts(1) [OF c0(1)] c0(2) by (auto simp: less_eq_prod_def)
  then have "cand_pages h = {}" using counts(1,2) [OF h] by simp
  moreover have "inj_on cand_pages (set cs)" using assms by (auto simp: cands_ok_def distinct_map)
  ultimately have "h = c0" using h c0 by (auto dest: inj_onD)
  moreover have "h \<in> set (pareto_candidates cs)" using counts(3) [OF h] ht by (simp add: pareto_candidates_def)
  ultimately show ?thesis using c0 by blast
qed

definition candidates_fit :: "candidate list \<Rightarrow> bool" where
  "candidates_fit cs \<longleftrightarrow> cs \<noteq> [] \<and> (\<forall>c \<in> set cs. finite (cand_pages c) \<and> cand_page_count c = card (cand_pages c)
     \<and> 0 \<le> expected_value_ms c \<and> configuration c \<in> set prefix_candidates)"

lemma allowed_inactive:
  assumes ok: "policy_ok p" and m: "map_of (controllers p) m = Some c" "m \<noteq> active" and cs: "cands_ok cs"
  shows "\<exists>current allowed. map_of (cache_states p) m = Some current \<and> allowed_candidates m cs active p = Inr allowed \<and> candidates_fit allowed
     \<and> (\<exists>x \<in> set allowed. cand_page_count x = 0)
     \<and> (\<forall>x \<in> set allowed. \<exists>r r'. configuration_rank (configuration x) = Inr r \<and> configuration_rank current = Inr r' \<and> r \<le> r')"
proof -
  let ?kept = "pareto_candidates cs"
  obtain current where cur: "map_of (cache_states p) m = Some current" "current \<in> set prefix_candidates" using policy_get(4) [OF ok m(1)] by blast
  then obtain r' where r': "configuration_rank current = Inr r'" using configuration_rank_total by blast
  have conf: "configuration x \<in> set prefix_candidates" if "x \<in> set ?kept" for x using that cs pareto_subset by (auto simp: cands_ok_def)
  define rk where "rk x = projr (configuration_rank (configuration x))" for x :: candidate
  have rank: "configuration_rank (configuration x) = Inr (rk x)" if "x \<in> set ?kept" for x
    using configuration_rank_total [OF conf [OF that]] by (auto simp: rk_def)
  have ranked: "r_map (\<lambda>c. r_bind (configuration_rank (configuration c)) (\<lambda>r. Inr (c, r))) ?kept = Inr (map (\<lambda>x. (x, rk x)) ?kept)"
    by (rule r_map_total) (simp add: rank)
  define allowed where "allowed = filter (\<lambda>x. rk x \<le> r') ?kept"
  obtain c0 where c0: "c0 \<in> set ?kept" "cand_pages c0 = {}" "configuration c0 = PrefixLayers 0" using pareto_empty [OF cs] by blast
  have "c0 \<in> set allowed" using c0 by (simp add: allowed_def rk_def configuration_rank_zero)
  moreover have "cand_page_count c0 = 0" using c0 cs pareto_subset [of cs] by (fastforce simp: cands_ok_def)
  moreover have sub: "set allowed \<subseteq> set cs" using pareto_subset by (auto simp: allowed_def)
  moreover have "allowed_candidates m cs active p = Inr allowed"
  proof -
    have "map fst (filter (\<lambda>(_, r). r \<le> r') (map (\<lambda>x. (x, rk x)) ?kept)) = allowed"
      by (simp add: filter_map o_def allowed_def)
    moreover have "allowed \<noteq> []" using \<open>c0 \<in> set allowed\<close> by auto
    ultimately show ?thesis using m(2) cur(1) r' ranked by (auto simp: allowed_candidates_def Let_def)
  qed
  moreover have "candidates_fit allowed" using \<open>c0 \<in> set allowed\<close> sub cs by (auto simp: candidates_fit_def cands_ok_def)
  moreover have "\<forall>x \<in> set allowed. \<exists>r r''. configuration_rank (configuration x) = Inr r \<and> configuration_rank current = Inr r'' \<and> r \<le> r''"
    using rank r' by (auto simp: allowed_def)
  ultimately show ?thesis using cur(1) by blast
qed

lemma allowed_active:
  assumes "cands_ok cs"
  shows "\<exists>allowed. allowed_candidates active cs active p = Inr allowed \<and> candidates_fit allowed"
proof -
  obtain c0 where "c0 \<in> set (pareto_candidates cs)" using pareto_empty [OF assms] by blast
  then show ?thesis using assms pareto_subset [of cs] by (auto simp: allowed_candidates_def candidates_fit_def cands_ok_def)
qed

section \<open>Every dispatch gets its marginals\<close>

lemma only_cache_trans: "only_cache p q \<Longrightarrow> only_cache q r \<Longrightarrow> only_cache p r"
proof -
  assume q: "only_cache p q" and r: "only_cache q r"
  have "r = q\<lparr> curve_cache := curve_cache r \<rparr>" using r by (simp add: only_cache_def)
  also have "\<dots> = (p\<lparr> curve_cache := curve_cache q \<rparr>)\<lparr> curve_cache := curve_cache r \<rparr>" using q by (simp add: only_cache_def)
  finally show ?thesis unfolding only_cache_def by simp
qed

lemma only_cacheD:
  assumes "only_cache p q"
  shows "controllers q = controllers p" "cache_states q = cache_states p" "next_use_mode q = next_use_mode p" "cp_pool_pages q = cp_pool_pages p"
    "page_size q = page_size p" "next_use_positions q = next_use_positions p" "estimator_models q = estimator_models p" "demands q = demands p"
    "pending_counts q = pending_counts p" "uncertainty_ms q = uncertainty_ms p" "decay q = decay p"
  by (subst assms [unfolded only_cache_def], simp)+

lemma all_marginals_ok:
  assumes ok: "policy_ok p"
  shows "\<exists>q ms. all_marginals p = Inr (q, ms) \<and> policy_ok q \<and> only_cache p q \<and> map fst ms = map fst (controllers p)
     \<and> (\<forall>x \<in> set ms. cands_ok (fst (snd x)))"
proof -
  let ?f = "\<lambda>(p, ms) (m, c). r_bind (marginal_tiers m c p) (\<lambda>(p', marginal). Inr (p', ms @ [(m, marginal)]))"
  have "\<exists>r ms'. r_foldl ?f (q, ms) xs = Inr (r, ms @ ms') \<and> policy_ok r \<and> only_cache p r \<and> map fst ms' = map fst xs
      \<and> (\<forall>x \<in> set ms'. cands_ok (fst (snd x)))"
    if "policy_ok q" "only_cache p q" "set xs \<subseteq> set (controllers p)" for q ms xs
    using that
  proof (induction xs arbitrary: q ms)
    case (Cons x xs)
    obtain m c where x: "x = (m, c)" by (cases x)
    have "distinct (map fst (controllers q))" using Cons.prems(1) by (simp add: policy_ok_def)
    then have m: "map_of (controllers q) m = Some c" using Cons.prems(2,3) x by (auto simp: only_cacheD intro: map_of_is_SomeI)
    obtain q' cs where sc: "score_candidates m c q = Inr (q', cs)" "cands_ok cs" "policy_ok q'" "only_cache q q'"
      using score_candidates_ok [OF Cons.prems(1) m] by blast
    then obtain tiers meta where mt: "marginal_tiers m c q = Inr (q', cs, tiers, meta)" by (auto simp: marginal_tiers_def Let_def)
    have "only_cache p q'" using Cons.prems(2) sc(4) by (rule only_cache_trans)
    from Cons.IH [OF sc(3) this, of "ms @ [(m, cs, tiers, meta)]"] Cons.prems(3) obtain r ms' where
      "r_foldl ?f (q', ms @ [(m, cs, tiers, meta)]) xs = Inr (r, (ms @ [(m, cs, tiers, meta)]) @ ms')" "policy_ok r" "only_cache p r"
      "map fst ms' = map fst xs" "\<forall>x \<in> set ms'. cands_ok (fst (snd x))" by auto
    then show ?case using mt x sc(2) by (intro exI [of _ r] exI [of _ "(m, cs, tiers, meta) # ms'"]) auto
  qed simp
  from this [OF ok _ order_refl, of "[]"] show ?thesis by (simp add: all_marginals_def only_cache_def)
qed

end
