(* ===== verification/Cache_Safety.thy ===== *)
theory Cache_Safety
  imports Cache_Policy
begin

text \<open>
  What a planned dispatch guarantees. Protection stays within the protected capacity, so enough
  unprotected pages of inactive models remain to be reclaimed; a dispatch that fits the pool is
  therefore always planned. The curve cache changes no candidate.
\<close>

section \<open>Protection within the capacity\<close>

definition not_upgraded :: "cache_policy \<Rightarrow> int \<Rightarrow> configuration \<Rightarrow> bool" where
  "not_upgraded p m cfg \<longleftrightarrow> (\<exists>current r r'. map_of (cache_states p) m = Some current \<and> configuration_rank cfg = Inr r
     \<and> configuration_rank current = Inr r' \<and> r \<le> r')"

definition inactive_keys :: "int \<Rightarrow> cache_policy \<Rightarrow> int list" where
  "inactive_keys active p = filter (\<lambda>m. m \<noteq> active) (map fst (controllers p))"

lemma marginal_get:
  assumes "map fst ms = map fst (controllers p)" "\<forall>x \<in> set ms. cands_ok (fst (snd x))" "map_of (controllers p) m = Some c"
  obtains cs tiers meta where "map_of ms m = Some (cs, tiers, meta)" "cands_ok cs"
proof -
  obtain v where v: "map_of ms m = Some v" using same_keys_get [OF assms(1,3)] by blast
  have "cands_ok (fst v)" using bspec [OF assms(2) map_of_SomeD [OF v]] by simp
  then show thesis using that [of "fst v" "fst (snd v)" "snd (snd v)"] v by simp
qed

lemma inactive_controller: "m \<in> set (inactive_keys active p) \<Longrightarrow> \<exists>c. map_of (controllers p) m = Some c \<and> m \<noteq> active"
  using map_of_mem [of m "controllers p"] by (auto simp: inactive_keys_def)

lemma inactive_candidates_ok:
  assumes ok: "policy_ok p" and ms: "map fst ms = map fst (controllers p)" "\<forall>x \<in> set ms. cands_ok (fst (snd x))"
  shows "\<exists>mcs. inactive_candidates active ms p = Inr mcs \<and> map fst mcs = inactive_keys active p
     \<and> (\<forall>(m, cs) \<in> set mcs. candidates_fit cs \<and> (\<exists>x \<in> set cs. cand_page_count x = 0) \<and> (\<forall>x \<in> set cs. not_upgraded p m (configuration x)))"
proof -
  let ?f = "\<lambda>m. r_bind (dict_get ms m) (\<lambda>(candidates, _, _). r_bind (allowed_candidates m candidates active p) (\<lambda>allowed. Inr (m, allowed)))"
  have each: "\<exists>cs. ?f m = Inr (m, cs) \<and> candidates_fit cs \<and> (\<exists>x \<in> set cs. cand_page_count x = 0) \<and> (\<forall>x \<in> set cs. not_upgraded p m (configuration x))"
    if mk: "m \<in> set (inactive_keys active p)" for m
  proof -
    obtain c where c: "map_of (controllers p) m = Some c" "m \<noteq> active" using inactive_controller [OF mk] by blast
    obtain cs tiers meta where cs: "map_of ms m = Some (cs, tiers, meta)" "cands_ok cs" by (rule marginal_get [OF ms c(1)])
    show ?thesis using allowed_inactive [OF ok c cs(2)] cs(1) by (fastforce simp: not_upgraded_def)
  qed
  define g where "g m = projr (?f m)" for m
  have g: "?f m = Inr (g m)" if "m \<in> set (inactive_keys active p)" for m using each [OF that] by (auto simp: g_def)
  have run: "inactive_candidates active ms p = Inr (map g (inactive_keys active p))"
    unfolding inactive_candidates_def inactive_keys_def [symmetric] by (rule r_map_total) (rule g)
  have "fst (g m) = m \<and> candidates_fit (snd (g m)) \<and> (\<exists>x \<in> set (snd (g m)). cand_page_count x = 0)
      \<and> (\<forall>x \<in> set (snd (g m)). not_upgraded p m (configuration x))" if m: "m \<in> set (inactive_keys active p)" for m
  proof -
    obtain cs where "?f m = Inr (m, cs)" "candidates_fit cs" "\<exists>x \<in> set cs. cand_page_count x = 0"
      "\<forall>x \<in> set cs. not_upgraded p m (configuration x)" using each [OF m] by blast
    moreover have "g m = (m, cs)" using g [OF m] calculation(1) by simp
    ultimately show ?thesis by simp
  qed
  note facts = this
  have "map fst (map g (inactive_keys active p)) = inactive_keys active p" using facts by (simp add: map_idI)
  moreover have "\<forall>(m, cs) \<in> set (map g (inactive_keys active p)). candidates_fit cs \<and> (\<exists>x \<in> set cs. cand_page_count x = 0)
      \<and> (\<forall>x \<in> set cs. not_upgraded p m (configuration x))"
  proof
    fix y assume "y \<in> set (map g (inactive_keys active p))"
    then obtain k where k: "k \<in> set (inactive_keys active p)" "y = g k" by auto
    obtain m cs where "g k = (m, cs)" by (cases "g k")
    then show "case y of (m, cs) \<Rightarrow> candidates_fit cs \<and> (\<exists>x \<in> set cs. cand_page_count x = 0)
      \<and> (\<forall>x \<in> set cs. not_upgraded p m (configuration x))"
      using facts [OF k(1)] k(2) by simp
  qed
  ultimately show ?thesis using run by blast
qed

lemma best_active_ok:
  assumes ms: "map fst ms = map fst (controllers p)" "\<forall>x \<in> set ms. cands_ok (fst (snd x))" and a: "map_of (controllers p) active = Some c"
  shows "\<exists>x. best_active active ms p = Inr x \<and> finite (cand_pages x) \<and> configuration x \<in> set prefix_candidates"
proof -
  obtain cs tiers meta where cs: "map_of ms active = Some (cs, tiers, meta)" "cands_ok cs" by (rule marginal_get [OF ms a])
  obtain allowed where allowed: "allowed_candidates active cs active p = Inr allowed" "candidates_fit allowed"
    using allowed_active [OF cs(2)] by blast
  let ?x = "arg_min_list (\<lambda>c. (- expected_value_ms c, - int (cand_page_count c))) allowed"
  have "?x \<in> set allowed" using allowed(2) by (intro arg_min_list_mem) (simp add: candidates_fit_def)
  then show ?thesis using cs(1) allowed by (simp add: best_active_def candidates_fit_def)
qed

lemma protected_value_ok:
  assumes ok: "policy_ok p" and ms: "map fst ms = map fst (controllers p)"
  shows "\<exists>v. protected_value ms p = Inr v"
proof -
  have "\<exists>y. (\<lambda>(m, candidates, _, _). r_bind (dict_get (cache_states p) m) (\<lambda>current.
         Inr (case filter (\<lambda>c. configuration c = current) candidates of [] \<Rightarrow> 0 | c # _ \<Rightarrow> expected_value_ms c))) x = Inr y"
    if "x \<in> set ms" for x
  proof -
    obtain m cs ts meta where x: "x = (m, cs, ts, meta)" by (cases x) auto
    have "m \<in> set (map fst ms)" using that x by force
    then have "m \<in> fst ` set (controllers p)" unfolding ms by simp
    then obtain c where "map_of (controllers p) m = Some c" using map_of_mem by metis
    then show ?thesis using policy_get(4) [OF ok] x by force
  qed
  from r_map_exists [OF this] show ?thesis unfolding protected_value_def by (auto simp: py_simps)
qed

definition protection_ok :: "cache_policy \<Rightarrow> int \<Rightarrow> int \<Rightarrow> nat \<Rightarrow> (int \<times> choice) list \<Rightarrow> bool" where
  "protection_ok p active capacity used choices \<longleftrightarrow>
     fst ` set choices = fst ` set (controllers p) \<and> distinct (map fst choices)
     \<and> (\<forall>(m, ch) \<in> set choices. finite (ch_pages ch) \<and> ch_configuration ch \<in> set prefix_candidates
          \<and> (m \<noteq> active \<longrightarrow> not_upgraded p m (ch_configuration ch)))
     \<and> (\<Sum>m \<in> set (inactive_keys active p). card (ch_pages (the (map_of choices m)))) = used \<and> int used \<le> capacity"

lemma candidate_ends: "FullModel \<in> set prefix_candidates" "PrefixLayers 0 \<in> set prefix_candidates"
  by (simp_all add: prefix_candidates_def)

lemma plan_protection_ok:
  assumes ok: "policy_ok p" and a: "map_of (controllers p) active = Some c" and cap: "0 \<le> capacity"
    and ms: "\<not> next_use_mode p \<Longrightarrow> map fst ms = map fst (controllers p)" "\<not> next_use_mode p \<Longrightarrow> \<forall>x \<in> set ms. cands_ok (fst (snd x))"
  shows "\<exists>used before choices. plan_protection active capacity ms p = Inr (used, before, choices) \<and> protection_ok p active capacity used choices"
proof (cases "next_use_mode p")
  case True
  let ?ch = "next_use_choices active p"
  have keys: "map fst ?ch = map fst (controllers p)" by (simp add: next_use_choices_def o_def split_def)
  have dis: "distinct (map fst (controllers p))" using ok by (simp add: policy_ok_def)
  have fin: "\<forall>(m, c) \<in> set (controllers p). finite (required_pages c)" using ok by (auto simp: policy_ok_def controller_ok_def)
  have zero: "ch_pages (the (map_of ?ch m)) = {}" if "m \<in> set (inactive_keys active p)" for m
    using inactive_controller [OF that] unfolding next_use_choices_def by (auto simp: map_of_map_key)
  have up: "not_upgraded p m (PrefixLayers 0)" if "(m, x) \<in> set (controllers p)" for m x
    using policy_get(4) [OF ok map_of_is_SomeI [OF dis that]] configuration_rank_total by (fastforce simp: not_upgraded_def configuration_rank_zero)
  have "fst ` set ?ch = fst ` set (controllers p)" using keys by (metis list.set_map)
  moreover have "\<forall>(m, ch) \<in> set ?ch. finite (ch_pages ch) \<and> ch_configuration ch \<in> set prefix_candidates
      \<and> (m \<noteq> active \<longrightarrow> not_upgraded p m (ch_configuration ch))"
    using fin up by (auto simp: next_use_choices_def candidate_ends)
  ultimately have "protection_ok p active capacity 0 ?ch"
    using keys dis cap zero by (auto simp: protection_ok_def)
  then show ?thesis using True by (simp add: plan_protection_def)
next
  case False
  note ms = ms [OF False]
  obtain mcs where mcs: "inactive_candidates active ms p = Inr mcs" "map fst mcs = inactive_keys active p"
      "\<forall>(m, cs) \<in> set mcs. candidates_fit cs \<and> (\<exists>x \<in> set cs. cand_page_count x = 0) \<and> (\<forall>x \<in> set cs. not_upgraded p m (configuration x))"
    using inactive_candidates_ok [OF ok ms] by blast
  obtain x where x: "best_active active ms p = Inr x" "finite (cand_pages x)" "configuration x \<in> set prefix_candidates"
    using best_active_ok [OF ms a] by blast
  obtain before where before: "protected_value ms p = Inr before" using protected_value_ok [OF ok ms(1)] by blast
  have dis: "distinct (map fst mcs)" using ok unfolding mcs(2) inactive_keys_def by (simp add: policy_ok_def)
  have vals: "\<forall>(m, cs) \<in> set mcs. \<forall>c \<in> set cs. 0 \<le> expected_value_ms c" using mcs(3) by (fastforce simp: candidates_fit_def)
  from dis vals cap show ?thesis
  proof (cases rule: solve_mckp_cases)
    case infeasible
    obtain z where z: "\<forall>(m, cs) \<in> set mcs. z cs \<in> set cs \<and> cand_page_count (z cs) = 0"
    proof -
      have "\<forall>cs \<in> snd ` set mcs. \<exists>x. x \<in> set cs \<and> cand_page_count x = 0" using mcs(3) by fastforce
      from bchoice [OF this] show thesis using that by force
    qed
    let ?g = "\<lambda>m. z (cands_of mcs m)"
    have get: "cands_of mcs m = cs" if "(m, cs) \<in> set mcs" for m cs using that dis by (simp add: cands_of_def)
    have "valid_selection mcs ?g" using z get by (auto simp: valid_selection_def)
    moreover have "selection_pages mcs ?g = 0" using z get by (auto simp: selection_pages_def sum_list_eq_0_iff)
    ultimately show ?thesis using infeasible(2) [of ?g] cap by simp
  next
    case (solved f)
    let ?sc = "map (\<lambda>(m, c). (m, choice_of c)) (map (\<lambda>m. (m, f m)) (sort (map fst mcs)))"
    let ?ch = "AList.update active (choice_of x) ?sc"
    have sc: "?sc = map (\<lambda>m. (m, choice_of (f m))) (sort (map fst mcs))" by simp
    have set_sc: "set ?sc = (\<lambda>m. (m, choice_of (f m))) ` set (inactive_keys active p)" unfolding sc mcs(2) by simp
    have na: "active \<notin> fst ` set ?sc" unfolding set_sc by (auto simp: inactive_keys_def)
    then have ch: "?ch = ?sc @ [(active, choice_of x)]" by (rule update_new)
    have fm: "f m \<in> set cs" "cands_of mcs m = cs" if "(m, cs) \<in> set mcs" for m cs
      using solved(1) that dis by (auto simp: valid_selection_def cands_of_def)
    have sel: "finite (cand_pages (f m)) \<and> configuration (f m) \<in> set prefix_candidates \<and> not_upgraded p m (configuration (f m))
        \<and> cand_page_count (f m) = card (cand_pages (f m))" if "m \<in> set (inactive_keys active p)" for m
    proof -
      have "m \<in> set (map fst mcs)" using that mcs(2) by simp
      then obtain cs where cs: "(m, cs) \<in> set mcs" by auto
      then show ?thesis using mcs(3) fm(1) [OF cs] by (fastforce simp: candidates_fit_def)
    qed
    have "fst ` set ?ch = insert active (set (inactive_keys active p))" unfolding ch using set_sc by (auto simp: image_image)
    also have "\<dots> = fst ` set (controllers p)" using map_of_SomeD [OF a] by (force simp: inactive_keys_def)
    finally have keys: "fst ` set ?ch = fst ` set (controllers p)" .
    have dch: "distinct (map fst ?ch)" unfolding ch using dis na by (simp add: o_def image_image)
    have each: "\<forall>(m, c) \<in> set ?ch. finite (ch_pages c) \<and> ch_configuration c \<in> set prefix_candidates
        \<and> (m \<noteq> active \<longrightarrow> not_upgraded p m (ch_configuration c))"
      unfolding ch using set_sc sel x(2,3) by (auto simp: choice_of_def)
    have pages: "ch_pages (the (map_of ?ch m)) = cand_pages (f m)" if "m \<in> set (inactive_keys active p)" for m
    proof -
      have "(m, choice_of (f m)) \<in> set ?ch" unfolding ch using set_sc that by auto
      then show ?thesis using dch by (simp add: map_of_is_SomeI choice_of_def)
    qed
    have "(\<Sum>m \<in> set (inactive_keys active p). card (ch_pages (the (map_of ?ch m)))) = (\<Sum>m \<in> set (inactive_keys active p). cand_page_count (f m))"
      using pages sel by (intro sum.cong) auto
    also have "\<dots> = selection_pages mcs f"
      unfolding selection_pages_def mcs(2) using dis mcs(2) by (simp add: sum_list_distinct_conv_sum_set)
    finally have "protection_ok p active capacity (selection_pages mcs f) ?ch"
      using keys dch each solved(2) by (simp add: protection_ok_def)
    then show ?thesis using False mcs(1) x(1) before solved(3) by (simp add: plan_protection_def)
  qed
qed

section \<open>Victims\<close>

definition soft_pages :: "int \<Rightarrow> (int \<times> choice) list \<Rightarrow> (int \<times> nat set) list \<Rightarrow> cache_policy \<Rightarrow> (int \<times> nat) set" where
  "soft_pages active choices residencies p =
     (SIGMA m : set (inactive_keys active p). the (map_of residencies m) - ch_pages (the (map_of choices m)))"

definition victim_id :: "victim \<Rightarrow> int \<times> nat" where
  "victim_id v = (vc_model v, vc_page v)"

lemma model_victims_ok:
  assumes "next_use_mode p \<Longrightarrow> \<exists>q. map_of (next_use_positions p) m = Some q" "\<not> next_use_mode p \<Longrightarrow> \<exists>v. map_of ms m = Some v" "finite soft"
  shows "\<exists>vs. model_victims p ms m soft = Inr vs \<and> map victim_id vs = map (Pair m) (sorted_list_of_set soft)"
proof (cases "next_use_mode p")
  case True
  then show ?thesis using assms(1) by (auto simp: model_victims_def victim_id_def)
next
  case False
  then obtain cs ts meta where "map_of ms m = Some (cs, ts, meta)" using assms(2) by (metis prod.exhaust)
  then show ?thesis using False by (auto simp: model_victims_def victim_id_def split: option.split)
qed

lemma distinct_concat_pairs:
  "distinct ks \<Longrightarrow> (\<And>k. k \<in> set ks \<Longrightarrow> distinct (g k)) \<Longrightarrow> distinct (concat (map (\<lambda>k. map (Pair k) (g k)) ks))"
  by (induction ks) (auto simp: distinct_map intro: inj_onI)

lemma plan_victims_ok:
  assumes ok: "policy_ok p" and ms: "\<not> next_use_mode p \<Longrightarrow> map fst ms = map fst (controllers p)"
    and res: "fst ` set residencies = fst ` set (controllers p)" "\<forall>(m, pages) \<in> set residencies. finite pages"
    and ch: "fst ` set choices = fst ` set (controllers p)"
  shows "\<exists>vs. plan_victims_of active ms choices residencies p = Inr vs \<and> distinct (map victim_id vs)
     \<and> victim_id ` set vs = soft_pages active choices residencies p"
proof -
  let ?soft = "\<lambda>m. the (map_of residencies m) - ch_pages (the (map_of choices m))"
  let ?f = "\<lambda>m. r_bind (dict_get residencies m) (\<lambda>resident. r_bind (dict_get choices m) (\<lambda>ch. model_victims p ms m (resident - ch_pages ch)))"
  have each: "\<exists>vs. ?f m = Inr vs \<and> map victim_id vs = map (Pair m) (sorted_list_of_set (?soft m))" and fin: "finite (?soft m)"
    if mk: "m \<in> set (inactive_keys active p)" for m
  proof -
    obtain c where c: "map_of (controllers p) m = Some c" using inactive_controller [OF mk] by blast
    then have key: "m \<in> fst ` set (controllers p)" by (force dest: map_of_SomeD)
    obtain r where r: "map_of residencies m = Some r" using map_of_mem [of m residencies] key res(1) by auto
    obtain x where x: "map_of choices m = Some x" using map_of_mem [of m choices] key ch by auto
    have "finite r" using res(2) r by (auto dest: map_of_SomeD)
    then show "finite (?soft m)" using r by simp
    then show "\<exists>vs. ?f m = Inr vs \<and> map victim_id vs = map (Pair m) (sorted_list_of_set (?soft m))"
      using model_victims_ok [of p m ms "?soft m"] policy_get(3) [OF ok c] same_keys_get [OF _ c, of ms] ms r x by simp
  qed
  define g where "g m = projr (?f m)" for m
  have g: "?f m = Inr (g m)" "map victim_id (g m) = map (Pair m) (sorted_list_of_set (?soft m))" if mk: "m \<in> set (inactive_keys active p)" for m
    using each [OF mk] by (auto simp: g_def)
  have run: "plan_victims_of active ms choices residencies p = Inr (sort_key victim_key (concat (map g (inactive_keys active p))))"
    using r_map_total [of "inactive_keys active p" ?f g, OF g(1)] unfolding plan_victims_of_def inactive_keys_def [symmetric] by simp
  have ids: "map victim_id (concat (map g (inactive_keys active p)))
      = concat (map (\<lambda>m. map (Pair m) (sorted_list_of_set (?soft m))) (inactive_keys active p))"
    using g(2) by (simp add: map_concat o_def cong: map_cong)
  have "distinct (inactive_keys active p)" using ok by (simp add: inactive_keys_def policy_ok_def)
  then have "distinct (map victim_id (concat (map g (inactive_keys active p))))"
    unfolding ids by (rule distinct_concat_pairs) simp
  then have "distinct (map victim_id (sort_key victim_key (concat (map g (inactive_keys active p)))))"
    by (metis (no_types) mset_eq_imp_distinct_iff mset_map mset_sort)
  moreover have "victim_id ` set (concat (map g (inactive_keys active p))) = soft_pages active choices residencies p"
  proof -
    have "victim_id ` set (concat (map g (inactive_keys active p))) = set (map victim_id (concat (map g (inactive_keys active p))))"
      by (simp only: list.set_map)
    then show ?thesis unfolding ids soft_pages_def using fin by auto
  qed
  ultimately show ?thesis using run by auto
qed

lemma sum_list_keys:
  assumes "distinct (map fst d)"
  shows "(\<Sum>(k, v) \<leftarrow> d. f v) = (\<Sum>k \<in> fst ` set d. f (the (map_of d k)) :: 'a :: comm_monoid_add)"
  using assms
proof (induction d)
  case (Cons x d)
  obtain k v where x: "x = (k, v)" by (cases x)
  have "(\<Sum>j \<in> fst ` set d. f (the (map_of (x # d) j))) = (\<Sum>j \<in> fst ` set d. f (the (map_of d j)))"
    using Cons.prems x by (intro sum.cong) auto
  then show ?case using Cons x by simp
qed simp

text \<open>What stays after evicting distinct soft pages.\<close>

lemma retained_count:
  assumes dis: "distinct (map fst residencies)" and fin: "\<forall>(m, pages) \<in> set residencies. finite pages"
    and vs: "distinct (map victim_id vs)" "\<And>v. v \<in> set vs \<Longrightarrow> \<exists>pages. map_of residencies (vc_model v) = Some pages \<and> vc_page v \<in> pages"
  shows "(\<Sum>(_, pages) \<leftarrow> retained_pages vs residencies. card pages) + length vs = (\<Sum>(_, pages) \<leftarrow> residencies. card pages)"
  using vs
proof (induction vs rule: rev_induct)
  case Nil
  then show ?case by (simp add: retained_pages_def)
next
  case (snoc v vs)
  obtain pages where p: "map_of residencies (vc_model v) = Some pages" "vc_page v \<in> pages" using snoc.prems(2) [of v] by auto
  let ?keep = "\<lambda>vs m. the (map_of residencies m) - vc_page ` {v \<in> set vs. vc_model v = m}"
  have total: "(\<Sum>(_, pages) \<leftarrow> retained_pages vs residencies. card pages) = (\<Sum>m \<in> fst ` set residencies. card (?keep vs m))" for vs
  proof -
    have "(\<Sum>(_, pages) \<leftarrow> retained_pages vs residencies. card pages) = (\<Sum>m \<in> fst ` set (retained_pages vs residencies). card (the (map_of (retained_pages vs residencies) m)))"
      by (rule sum_list_keys) (use dis in \<open>simp add: retained_pages_def o_def split_def\<close>)
    also have "fst ` set (retained_pages vs residencies) = fst ` set residencies" by (force simp: retained_pages_def)
    also have "(\<Sum>m \<in> fst ` set residencies. card (the (map_of (retained_pages vs residencies) m))) = (\<Sum>m \<in> fst ` set residencies. card (?keep vs m))"
    proof (rule sum.cong [OF refl])
      fix m assume "m \<in> fst ` set residencies"
      then obtain pages where "map_of residencies m = Some pages" using map_of_mem by metis
      then show "card (the (map_of (retained_pages vs residencies) m)) = card (?keep vs m)"
        by (simp add: retained_pages_def map_of_map_key)
    qed
    finally show ?thesis .
  qed
  have key: "vc_model v \<in> fst ` set residencies" using p(1) by (force dest: map_of_SomeD)
  have new: "vc_page v \<notin> vc_page ` {w \<in> set vs. vc_model w = vc_model v}" using snoc.prems(1) by (force simp: victim_id_def image_iff)
  have "finite pages" using fin p(1) by (auto dest: map_of_SomeD)
  then have one: "card (?keep (vs @ [v]) (vc_model v)) + 1 = card (?keep vs (vc_model v))"
  proof -
    have "?keep (vs @ [v]) (vc_model v) = ?keep vs (vc_model v) - {vc_page v}" by auto
    moreover have "vc_page v \<in> ?keep vs (vc_model v)" using p new by simp
    ultimately show ?thesis using card_Suc_Diff1 [of "?keep vs (vc_model v)" "vc_page v"] \<open>finite pages\<close> p(1) by simp
  qed
  have rest: "?keep (vs @ [v]) m = ?keep vs m" if "m \<noteq> vc_model v" for m using that by auto
  have "(\<Sum>m \<in> fst ` set residencies. card (?keep (vs @ [v]) m)) + 1 = (\<Sum>m \<in> fst ` set residencies. card (?keep vs m))"
    using key one rest by (simp add: sum.remove [of _ "vc_model v"])
  then show ?case using snoc.IH snoc.prems total [of vs] total [of "vs @ [v]"] by simp
qed

section \<open>A dispatch that fits is always planned\<close>

definition residency_ok :: "int \<Rightarrow> (int \<times> nat set) list \<Rightarrow> int \<Rightarrow> cache_policy \<Rightarrow> bool" where
  "residency_ok active residencies current_kv_pages p \<longleftrightarrow>
     distinct (map fst residencies) \<and> fst ` set residencies = fst ` set (controllers p)
     \<and> (\<forall>(m, pages) \<in> set residencies. finite pages)
     \<and> the (map_of residencies active) \<subseteq> required_pages (the (map_of (controllers p) active))
     \<and> int (\<Sum>(_, pages) \<leftarrow> residencies. card pages) + current_kv_pages \<le> cp_pool_pages p"

lemma soft_enough:
  assumes ok: "policy_ok p" and a: "map_of (controllers p) active = Some c" and res: "residency_ok active residencies kv p"
    and prot: "protection_ok p active (protected_capacity kv rkv c p) used choices"
    and fits: "int (card (required_pages c)) + kv + rkv \<le> cp_pool_pages p"
  shows "int (card (required_pages c - the (map_of residencies active))) + rkv
      - max 0 (cp_pool_pages p - int (\<Sum>(_, pages) \<leftarrow> residencies. card pages) - kv) \<le> int (card (soft_pages active choices residencies p))"
proof -
  let ?R = "\<lambda>m. the (map_of residencies m)" and ?P = "\<lambda>m. ch_pages (the (map_of choices m))" and ?I = "set (inactive_keys active p)"
  have akey: "active \<in> fst ` set (controllers p)" using a by (force dest: map_of_SomeD)
  have keys: "fst ` set residencies = insert active ?I" using res akey by (auto simp: residency_ok_def inactive_keys_def)
  have fin: "finite (?R m)" if mk: "m \<in> insert active ?I" for m
  proof -
    have "m \<in> fst ` set residencies" using mk keys by simp
    then obtain pages where "map_of residencies m = Some pages" using map_of_mem by metis
    then show ?thesis using res by (auto simp: residency_ok_def dest!: map_of_SomeD)
  qed
  have finP: "finite (?P m)" if mk: "m \<in> ?I" for m
  proof -
    have "m \<in> fst ` set choices" using mk prot by (auto simp: protection_ok_def inactive_keys_def)
    then obtain ch where "map_of choices m = Some ch" using map_of_mem by metis
    then show ?thesis using prot by (auto simp: protection_ok_def dest!: map_of_SomeD)
  qed
  have na: "active \<notin> ?I" by (simp add: inactive_keys_def)
  have total: "(\<Sum>(_, pages) \<leftarrow> residencies. card pages) = card (?R active) + (\<Sum>m \<in> ?I. card (?R m))"
    using sum_list_keys [of residencies card] res keys na by (simp add: residency_ok_def)
  have "card (required_pages c - ?R active) = card (required_pages c) - card (?R active)"
    "card (?R active) \<le> card (required_pages c)"
    using res a fin policy_get(5) [OF ok a] by (auto simp: residency_ok_def controller_ok_def card_Diff_subset intro: card_mono)
  then have missing: "int (card (required_pages c - ?R active)) = int (card (required_pages c)) - int (card (?R active))" by simp
  have soft: "card (soft_pages active choices residencies p) = (\<Sum>m \<in> ?I. card (?R m - ?P m))"
    unfolding soft_pages_def using fin by (intro card_SigmaI) auto
  have "(\<Sum>m \<in> ?I. card (?R m)) \<le> (\<Sum>m \<in> ?I. card (?R m - ?P m) + card (?P m))"
  proof (rule sum_mono)
    fix m assume m: "m \<in> ?I"
    have "card (?R m) \<le> card ((?R m - ?P m) \<union> ?P m)" using fin [of m] finP [OF m] m by (intro card_mono) auto
    also have "\<dots> \<le> card (?R m - ?P m) + card (?P m)" by (rule card_Un_le)
    finally show "card (?R m) \<le> card (?R m - ?P m) + card (?P m)" .
  qed
  also have "\<dots> = card (soft_pages active choices residencies p) + used"
    using prot by (simp add: sum.distrib soft protection_ok_def)
  finally have "(\<Sum>m \<in> ?I. card (?R m)) \<le> card (soft_pages active choices residencies p) + used" .
  then have s: "int (\<Sum>m \<in> ?I. card (?R m)) \<le> int (card (soft_pages active choices residencies p)) + int used"
    by (metis of_nat_add of_nat_le_iff)
  have "int used \<le> cp_pool_pages p - kv - rkv - int (card (required_pages c))"
    using prot fits by (simp add: protection_ok_def protected_capacity_def)
  moreover have "int (\<Sum>(_, pages) \<leftarrow> residencies. card pages) + kv \<le> cp_pool_pages p" using res by (simp add: residency_ok_def)
  moreover have "int (\<Sum>(_, pages) \<leftarrow> residencies. card pages) = int (card (?R active)) + int (\<Sum>m \<in> ?I. card (?R m))"
    using total by simp
  ultimately show ?thesis using s missing by linarith
qed

lemma new_states_ok:
  assumes ok: "policy_ok p" and prot: "protection_ok p active capacity used choices"
  defines "q \<equiv> p\<lparr> cache_states := foldl (\<lambda>cs (m, ch). AList.update m (ch_configuration ch) cs) (cache_states p) choices \<rparr>"
  shows "policy_ok q" "m \<in> set (inactive_keys active p) \<Longrightarrow> \<exists>cfg. map_of (cache_states q) m = Some cfg \<and> not_upgraded p m cfg"
proof -
  let ?cs = "foldl (\<lambda>cs (m, ch). AList.update m (ch_configuration ch) cs) (cache_states p) choices"
  have states: "map fst (cache_states p) = map fst (controllers p)" "\<forall>(m, cfg) \<in> set (cache_states p). cfg \<in> set prefix_candidates"
    using ok by (simp_all add: policy_ok_def)
  have ch: "\<forall>(m, ch) \<in> set choices. ch_configuration ch \<in> set prefix_candidates \<and> m \<in> fst ` set (controllers p)"
  proof (clarify, intro conjI)
    fix m ch assume mem: "(m, ch) \<in> set choices"
    then show "ch_configuration ch \<in> set prefix_candidates" using prot by (auto simp: protection_ok_def)
    have "m \<in> fst ` set choices" using mem by force
    then show "m \<in> fst ` set (controllers p)" using prot by (simp add: protection_ok_def)
  qed
  have "map fst (foldl (\<lambda>cs (m, ch). AList.update m (ch_configuration ch) cs) d xs) = map fst (controllers p)
      \<and> (\<forall>(m, cfg) \<in> set (foldl (\<lambda>cs (m, ch). AList.update m (ch_configuration ch) cs) d xs). cfg \<in> set prefix_candidates)"
    if "map fst d = map fst (controllers p)" "\<forall>(m, cfg) \<in> set d. cfg \<in> set prefix_candidates" "set xs \<subseteq> set choices" for d xs
    using that
  proof (induction xs arbitrary: d)
    case (Cons x xs)
    obtain m c where x: "x = (m, c)" by (cases x)
    have "m \<in> fst ` set (controllers p)" "ch_configuration c \<in> set prefix_candidates" using Cons.prems(3) ch x by auto
    then have key: "m \<in> fst ` set d" using Cons.prems(1) by (metis list.set_map)
    have "\<forall>(k, cfg) \<in> set (AList.update m (ch_configuration c) d). cfg \<in> set prefix_candidates"
      using set_update [of m "ch_configuration c" d] Cons.prems(2) \<open>ch_configuration c \<in> set prefix_candidates\<close> by fastforce
    then show ?case using Cons.IH [of "AList.update m (ch_configuration c) d"] keys_update [OF key] Cons.prems x by simp
  qed simp
  from this [OF states order_refl] show "policy_ok q" using ok by (simp add: q_def policy_ok_def)
  assume m: "m \<in> set (inactive_keys active p)"
  have upd: "map_of (foldl (\<lambda>cs (m, ch). AList.update m (ch_configuration ch) cs) d xs) m
      = (case map_of xs m of None \<Rightarrow> map_of d m | Some ch \<Rightarrow> Some (ch_configuration ch))" if "distinct (map fst xs)" for d xs
    using that
  proof (induction xs arbitrary: d)
    case (Cons x xs)
    obtain k c where x: "x = (k, c)" by (cases x)
    have none: "map_of xs k = None" using Cons.prems x by (simp add: map_of_eq_None_iff)
    have IH: "map_of (foldl (\<lambda>cs (m, ch). AList.update m (ch_configuration ch) cs) (AList.update k (ch_configuration c) d) xs) m
        = (case map_of xs m of None \<Rightarrow> map_of (AList.update k (ch_configuration c) d) m | Some ch \<Rightarrow> Some (ch_configuration ch))"
      by (rule Cons.IH) (use Cons.prems in simp)
    show ?case using none IH x by (cases "k = m") (simp_all add: update_conv' split: option.split)
  qed simp
  have "m \<in> fst ` set choices" using m prot by (auto simp: protection_ok_def inactive_keys_def)
  then obtain ch where ch: "map_of choices m = Some ch" using map_of_mem by metis
  then have "not_upgraded p m (ch_configuration ch)" using prot m by (fastforce simp: protection_ok_def inactive_keys_def dest: map_of_SomeD)
  then show "\<exists>cfg. map_of (cache_states q) m = Some cfg \<and> not_upgraded p m cfg"
    using upd [of choices "cache_states p"] ch prot by (simp add: q_def protection_ok_def)
qed

lemma policy_ok_same_static: "same_static p q \<Longrightarrow> residency_ok active residencies kv q = residency_ok active residencies kv p"
  by (simp add: same_static_def residency_ok_def)

lemma plan_dispatch_run:
  assumes ok: "policy_ok p" and a: "map_of (controllers p) active = Some c" and res: "residency_ok active residencies kv p"
    and blocks: "batch_kv_blocks kv_block_tokens batch = Inr blocks" and page: "page_size p \<noteq> 0"
    and rkv: "rkv = blocks * ceiling (of_int kv_block_bytes / of_int (page_size p) :: rat)"
    and fits: "int (card (required_pages c)) + kv + rkv \<le> cp_pool_pages p"
  shows "\<exists>q plan. plan_dispatch active batch pending kv_block_tokens kv_block_bytes kv residencies p = Inr (q, plan) \<and> policy_ok q
     \<and> int (length (pl_evicted plan)) = pl_eviction_required plan
     \<and> (\<forall>v \<in> set (pl_evicted plan). vc_model v \<noteq> active \<and> vc_page v \<in> the (map_of residencies (vc_model v))
          \<and> vc_page v \<notin> ch_pages (the (map_of (pl_choices plan) (vc_model v))))
     \<and> int (\<Sum>(_, pages) \<leftarrow> pl_retained plan. card pages) + int (pl_missing plan) + rkv + kv \<le> cp_pool_pages p
     \<and> map_of (pl_retained plan) active = map_of residencies active
     \<and> (\<forall>m \<in> set (inactive_keys active p). \<exists>cfg. map_of (cache_states q) m = Some cfg \<and> not_upgraded p m cfg)"
proof -
  obtain p1 where p1: "note_dispatch active batch pending p = Inr p1" "policy_ok p1" "same_static p p1"
    using note_dispatch_ok [OF ok a] by blast
  obtain p2 ms where p2: "(if next_use_mode p1 then Inr (p1, []) else all_marginals p1) = Inr (p2, ms)" "policy_ok p2" "only_cache p1 p2"
      "\<not> next_use_mode p2 \<Longrightarrow> map fst ms = map fst (controllers p2)" "\<not> next_use_mode p2 \<Longrightarrow> \<forall>x \<in> set ms. cands_ok (fst (snd x))"
  proof (cases "next_use_mode p1")
    case True
    then show thesis using that [of p1 "[]"] p1(2) by (simp add: only_cache_def)
  next
    case False
    from all_marginals_ok [OF p1(2)] obtain q ms where "all_marginals p1 = Inr (q, ms)" "policy_ok q" "only_cache p1 q"
      "map fst ms = map fst (controllers p1)" "\<forall>x \<in> set ms. cands_ok (fst (snd x))" by blast
    then show thesis using that [of q ms] False by (simp add: only_cacheD)
  qed
  have same: "controllers p2 = controllers p" "cache_states p2 = cache_states p" "cp_pool_pages p2 = cp_pool_pages p" "page_size p2 = page_size p"
    using p1(3) only_cacheD [OF p2(3)] by (auto simp: same_static_def)
  have a2: "map_of (controllers p2) active = Some c" using a same by simp
  have res2: "residency_ok active residencies kv p2" using res by (simp add: residency_ok_def same)
  have inact: "inactive_keys active p2 = inactive_keys active p" by (simp add: inactive_keys_def same)
  have noup: "not_upgraded p2 m cfg = not_upgraded p m cfg" for m cfg by (simp add: not_upgraded_def same)
  define cap where "cap = protected_capacity kv rkv c p2"
  have "0 \<le> cap" by (simp add: cap_def protected_capacity_def)
  from plan_protection_ok [OF p2(2) a2 this p2(4,5)] obtain used before choices where
    prot: "plan_protection active cap ms p2 = Inr (used, before, choices)" "protection_ok p2 active cap used choices" by blast
  define p3 where "p3 = p2\<lparr> cache_states := foldl (\<lambda>cs (m, ch). AList.update m (ch_configuration ch) cs) (cache_states p2) choices \<rparr>"
  note p3 = new_states_ok [OF p2(2) prot(2), folded p3_def]
  have p3s: "controllers p3 = controllers p2" "next_use_mode p3 = next_use_mode p2" by (simp_all add: p3_def)
  have "active \<in> fst ` set (controllers p)" using a by (force dest: map_of_SomeD)
  then have "active \<in> fst ` set residencies" using res by (simp add: residency_ok_def)
  then obtain r where r: "map_of residencies active = Some r" using map_of_mem by metis
  have rs: "fst ` set residencies = fst ` set (controllers p3)" "\<forall>(m, pages) \<in> set residencies. finite pages" "distinct (map fst residencies)"
      "fst ` set choices = fst ` set (controllers p3)"
    using res prot(2) by (auto simp: residency_ok_def protection_ok_def p3s same)
  have "\<not> next_use_mode p3 \<Longrightarrow> map fst ms = map fst (controllers p3)" using p2(4) p3s by simp
  from plan_victims_ok [OF p3(1) this rs(1,2,4), of active] obtain vs where
    vs: "plan_victims_of active ms choices residencies p3 = Inr vs" "distinct (map victim_id vs)"
      "victim_id ` set vs = soft_pages active choices residencies p3" by blast
  have soft: "soft_pages active choices residencies p3 = soft_pages active choices residencies p2"
    by (simp add: soft_pages_def inactive_keys_def p3s)
  define total where "total = (\<Sum>(_, pages) \<leftarrow> residencies. card pages)"
  define free where "free = max 0 (cp_pool_pages p2 - int total - kv)"
  define need where "need = max 0 (int (card (required_pages c - r)) + rkv - free)"
  have len: "length vs = card (soft_pages active choices residencies p2)"
    using vs(2,3) distinct_card [OF vs(2)] by (simp add: soft)
  have "need \<le> int (length vs)"
    using soft_enough [OF p2(2) a2 res2 prot(2) [unfolded cap_def]] fits r by (simp add: same len need_def free_def total_def)
  moreover have "0 \<le> need" by (simp add: need_def)
  ultimately have sel: "int (length (take (nat need) vs)) = need" by simp
  have mem: "v \<in> set (take (nat need) vs) \<Longrightarrow> vc_model v \<in> set (inactive_keys active p2) \<and> vc_page v \<in> the (map_of residencies (vc_model v))
      \<and> vc_page v \<notin> ch_pages (the (map_of choices (vc_model v)))" for v
  proof -
    assume "v \<in> set (take (nat need) vs)"
    then have "victim_id v \<in> soft_pages active choices residencies p2" using vs(3) soft by (metis imageI in_set_takeD)
    then show ?thesis by (simp add: victim_id_def soft_pages_def)
  qed
  have count: "(\<Sum>(_, pages) \<leftarrow> retained_pages (take (nat need) vs) residencies. card pages) + length (take (nat need) vs) = total"
    unfolding total_def
  proof (rule retained_count [OF rs(3,2)])
    show "distinct (map victim_id (take (nat need) vs))" using vs(2) by (simp add: take_map [symmetric])
    fix v assume "v \<in> set (take (nat need) vs)"
    then have v: "vc_model v \<in> set (inactive_keys active p2)" "vc_page v \<in> the (map_of residencies (vc_model v))" using mem by auto
    then have "vc_model v \<in> fst ` set residencies" using rs(1) p3s by (auto simp: inactive_keys_def)
    then show "\<exists>pages. map_of residencies (vc_model v) = Some pages \<and> vc_page v \<in> pages" using v(2) map_of_mem by force
  qed
  then have fit: "int (\<Sum>(_, pages) \<leftarrow> retained_pages (take (nat need) vs) residencies. card pages) + int (card (required_pages c - r)) + rkv + kv \<le> cp_pool_pages p"
  proof -
    have "int total + kv \<le> cp_pool_pages p" using res by (simp add: residency_ok_def total_def)
    moreover have "int (\<Sum>(_, pages) \<leftarrow> retained_pages (take (nat need) vs) residencies. card pages) + need = int total"
      using count sel by linarith
    ultimately show ?thesis by (simp add: need_def free_def same)
  qed
  have keep: "map_of (retained_pages (take (nat need) vs) residencies) active = map_of residencies active"
    using mem r by (fastforce simp: retained_pages_def map_of_map_key inactive_keys_def)
  have "\<exists>plan. plan_dispatch active batch pending kv_block_tokens kv_block_bytes kv residencies p = Inr (p3, plan)
      \<and> pl_evicted plan = take (nat need) vs \<and> pl_eviction_required plan = need \<and> pl_choices plan = choices
      \<and> pl_missing plan = card (required_pages c - r) \<and> pl_retained plan = retained_pages (take (nat need) vs) residencies"
    using p1(1) p2(1) a2 r blocks page prot(1) vs(1) sel
    by (simp add: plan_dispatch_def same(4) rkv [symmetric] Let_def total_def [symmetric] free_def [symmetric] need_def [symmetric] cap_def [symmetric] p3_def [symmetric])
  then obtain plan where plan: "plan_dispatch active batch pending kv_block_tokens kv_block_bytes kv residencies p = Inr (p3, plan)"
      "pl_evicted plan = take (nat need) vs" "pl_eviction_required plan = need" "pl_choices plan = choices"
      "pl_missing plan = card (required_pages c - r)" "pl_retained plan = retained_pages (take (nat need) vs) residencies" by blast
  have "\<forall>v \<in> set (pl_evicted plan). vc_model v \<noteq> active \<and> vc_page v \<in> the (map_of residencies (vc_model v))
      \<and> vc_page v \<notin> ch_pages (the (map_of (pl_choices plan) (vc_model v)))"
    using mem unfolding plan(2,4) by (auto simp: inactive_keys_def)
  moreover have "\<forall>m \<in> set (inactive_keys active p). \<exists>cfg. map_of (cache_states p3) m = Some cfg \<and> not_upgraded p m cfg"
    using p3(2) unfolding inact noup by blast
  moreover have "int (length (pl_evicted plan)) = pl_eviction_required plan" using sel unfolding plan(2,3) .
  ultimately show ?thesis using plan(1) p3(1) fit [folded plan(5,6)] keep [folded plan(6)] by blast
qed

text \<open>
  C8. A dispatch that fits is always planned, and safely. If the active model's pages and the
  attention pages of the batch fit the pool, planning never fails: it evicts exactly the pages
  that are missing, each of them a resident, unprotected page of an inactive model; afterwards
  the retained pages, the missing ones, the attention pages of the batch and those in use fit the
  pool; the active model keeps its pages, no inactive model is raised to a larger protected
  configuration, and the policy is in a valid state again.
\<close>

theorem plan_dispatch_safe:
  assumes ok: "policy_ok p" and a: "map_of (controllers p) active = Some c" and res: "residency_ok active residencies kv p"
    and blocks: "batch_kv_blocks kv_block_tokens batch = Inr blocks" and page: "page_size p \<noteq> 0"
    and rkv: "rkv = blocks * ceiling (of_int kv_block_bytes / of_int (page_size p) :: rat)"
    and fits: "int (card (required_pages c)) + kv + rkv \<le> cp_pool_pages p"
  shows "\<exists>q plan. plan_dispatch active batch pending kv_block_tokens kv_block_bytes kv residencies p = Inr (q, plan) \<and> policy_ok q
     \<and> int (length (pl_evicted plan)) = pl_eviction_required plan
     \<and> (\<forall>v \<in> set (pl_evicted plan). vc_model v \<noteq> active \<and> vc_page v \<in> the (map_of residencies (vc_model v))
          \<and> vc_page v \<notin> ch_pages (the (map_of (pl_choices plan) (vc_model v))))
     \<and> int (\<Sum>(_, pages) \<leftarrow> pl_retained plan. card pages) + int (pl_missing plan) + rkv + kv \<le> cp_pool_pages p
     \<and> map_of (pl_retained plan) active = map_of residencies active
     \<and> (\<forall>m \<in> set (inactive_keys active p). \<exists>cfg. map_of (cache_states q) m = Some cfg \<and> not_upgraded p m cfg)"
  using plan_dispatch_run [OF assms] by blast

section \<open>A concrete policy\<close>

text \<open>
  Two models of two layers on a pool of eight pages; the second one is resident with four pages
  of its own.
\<close>

definition demo_prefix :: "nat set \<Rightarrow> nat set \<Rightarrow> configuration \<Rightarrow> nat set" where
  "demo_prefix first whole cfg = (case cfg of FullModel \<Rightarrow> whole | PrefixLayers n \<Rightarrow> if n = 0 then {} else first)"

definition demo_controller :: controller where
  "demo_controller = \<lparr> ct_page_size = 4, initial_pages = {0}, layer_pages = [{0, 1}, {2, 3}], required_pages = {0, 1, 2, 3},
     prefix_cache_pages = demo_prefix {0, 1} {0, 1, 2, 3} \<rparr>"

definition demo_estimate :: est_profile where
  "demo_estimate = \<lparr> bytes_per_ms = 4, fixed_stage_ms = 1, ep_compute = [], ep_host_gap_ms = [], ep_service_residual_ms = [] \<rparr>"

definition demo_policy :: cache_policy where
  "demo_policy = \<lparr> controllers = [(1, demo_controller), (2, demo_controller)],
     estimator_models = [(1, demo_estimate), (2, demo_estimate)], page_size = 4, cp_pool_pages = 8, decay = 1 / 2,
     uncertainty_ms = 0, next_use_mode = False, demands = [(1, new_demand), (2, new_demand)], pending_counts = [(1, 0), (2, 0)],
     next_use_positions = [(1, None), (2, None)], cache_states = [(1, PrefixLayers 0), (2, FullModel)], curve_cache = [] \<rparr>"

lemma demo_policy_ok: "policy_ok demo_policy"
  by (auto simp: policy_ok_def demo_policy_def controller_ok_def demo_controller_def demo_prefix_def profile_ok_def demo_estimate_def
      cache_ok_def new_demand_def prefix_candidates_def)

text \<open>A dispatch of the first model that fits beside its four pages.\<close>

definition demo_request :: lw_request where
  "demo_request = \<lparr> lw_model_id = 1, lw_input_tokens = 6, lw_output_tokens = 2 \<rparr>"

lemma demo_fits:
  "map_of (controllers demo_policy) 1 = Some demo_controller" "residency_ok 1 [(1, {0}), (2, {0, 1, 2, 3})] 0 demo_policy"
  "batch_kv_blocks 8 [demo_request] = Inr 1" "page_size demo_policy \<noteq> 0"
  "(2::int) = 1 * ceiling (of_int 8 / of_int (page_size demo_policy) :: rat)"
  "int (card (required_pages demo_controller)) + 0 + 2 \<le> cp_pool_pages demo_policy"
  by (auto simp: demo_policy_def residency_ok_def demo_controller_def batch_kv_blocks_def py_div_def demo_request_def)

theorem plan_dispatch_safe_witness:
  "\<exists>q plan. plan_dispatch 1 [demo_request] [] 8 8 0 [(1, {0}), (2, {0, 1, 2, 3})] demo_policy = Inr (q, plan)
     \<and> int (length (pl_evicted plan)) = pl_eviction_required plan
     \<and> int (\<Sum>(_, pages) \<leftarrow> pl_retained plan. card pages) + int (pl_missing plan) + 2 + 0 \<le> cp_pool_pages demo_policy"
  using plan_dispatch_safe [OF demo_policy_ok demo_fits] by blast

section \<open>The curve cache is transparent\<close>



section \<open>The route estimate is read-only and agrees with the plan\<close>

lemma solution_value:
  assumes ok: "policy_ok p" and ms: "map fst ms = map fst (controllers p)" "\<forall>x \<in> set ms. cands_ok (fst (snd x))" and cap: "0 \<le> capacity"
    and mcs: "inactive_candidates active ms p = Inr mcs" and sol: "solve_mckp mcs capacity = Inr sol"
  shows "sum_list (map (\<lambda>(_, ch). ch_value_ms ch) (AList.update active (choice_of x) (map (\<lambda>(m, c). (m, choice_of c)) (solution_choices sol))))
    = solution_value_ms sol + expected_value_ms x"
proof -
  have m: "map fst mcs = inactive_keys active p"
      "\<forall>(m, cs) \<in> set mcs. candidates_fit cs \<and> (\<exists>x \<in> set cs. cand_page_count x = 0) \<and> (\<forall>x \<in> set cs. not_upgraded p m (configuration x))"
    using inactive_candidates_ok [OF ok ms, of active] mcs by auto
  have dis: "distinct (map fst mcs)" using ok unfolding m(1) inactive_keys_def by (simp add: policy_ok_def)
  have vals: "\<forall>(m, cs) \<in> set mcs. \<forall>c \<in> set cs. 0 \<le> expected_value_ms c" using m(2) by (fastforce simp: candidates_fit_def)
  from dis vals cap show ?thesis
  proof (cases rule: solve_mckp_cases)
    case infeasible
    then show ?thesis using sol by simp
  next
    case (solved f)
    let ?ch = "map (\<lambda>m. (m, choice_of (f m))) (sort (map fst mcs))"
    have new: "active \<notin> fst ` set ?ch" unfolding m(1) by (auto simp: inactive_keys_def)
    have perm: "(\<Sum>m \<leftarrow> sort (map fst mcs). h m) = (\<Sum>m \<leftarrow> map fst mcs. h m)" for h :: "int \<Rightarrow> rat"
      by (metis mset_map mset_sort sum_mset_sum_list)
    have "sol = \<lparr> used_pages = selection_pages mcs f, solution_value_ms = selection_value mcs f,
         solution_choices = map (\<lambda>m. (m, f m)) (sort (map fst mcs)) \<rparr>" using sol solved(3) by simp
    then show ?thesis using perm [of "\<lambda>m. expected_value_ms (f m)"] update_new [OF new, of "choice_of x"]
      by (simp add: selection_value_def choice_of_def o_def split_def)
  qed
qed



end
