(* ===== verification/Fcfs_Scheduler.thy ===== *)
theory Fcfs_Scheduler
  imports Py_Prelude
begin

text \<open>
  The first-come-first-served model loading scheduler
  (\<open>FcfsScheduler\<close> of \<open>src/sllm/serve/schedulers/fcfs_scheduler.py\<close> and \<open>get_worker_nodes\<close> of
  \<open>src/sllm/serve/utils.py\<close>). The scheduler runs on one event loop: none of its locks is held
  across a suspension, so the code between two suspensions is atomic and each such piece is one
  operation here. A coroutine that waits for its allocation is an entry of \<open>waiting\<close>; a future is
  an index into \<open>futures\<close>. The node table the control loop works on is the object stored in the
  scheduler, not a copy. Resources of the cluster manager are an argument.
\<close>

section \<open>Worker nodes\<close>

record ray_node =
  rn_node_id :: "string option"
  rn_resources :: "(string \<times> rat) list"
  rn_address :: "string option"

record worker_node =
  ray_node_id :: string
  address :: string
  free_gpu :: rat
  total_gpu :: rat
  store_port :: rat

definition sllm_store_base_port :: rat where
  "sllm_store_base_port = 8073"

text \<open>\<open>key.split("_")[-1]\<close>: what follows the last underscore.\<close>

definition last_field :: "string \<Rightarrow> string" where
  "last_field key = rev (takeWhile (\<lambda>c. c \<noteq> CHR ''_'') (rev key))"

definition resource_or :: "(string \<times> rat) list \<Rightarrow> string \<Rightarrow> rat \<Rightarrow> rat" where
  "resource_or resources key d = (case map_of resources key of None \<Rightarrow> d | Some v \<Rightarrow> v)"

definition worker_entry :: "string \<Rightarrow> string \<Rightarrow> (string \<times> rat) list \<Rightarrow> worker_node" where
  "worker_entry node_id addr resources =
     \<lparr> ray_node_id = node_id, address = addr, free_gpu = resource_or resources ''GPU'' 0, total_gpu = resource_or resources ''GPU'' 0,
       store_port = resource_or resources ''store_port'' sllm_store_base_port \<rparr>"

definition worker_key :: "string \<Rightarrow> bool" where
  \<comment> \<open>\<open>key.startswith("worker_id_")\<close>\<close>
  "worker_key key \<longleftrightarrow> take 10 key = ''worker_id_''"

definition add_worker_keys :: "worker_node \<Rightarrow> (string \<times> worker_node) list \<Rightarrow> (string \<times> rat) list \<Rightarrow> (string \<times> worker_node) list" where
  "add_worker_keys entry info resources = foldl (\<lambda>d (key, _). if worker_key key then AList.update (last_field key) entry d else d) info resources"

definition add_ray_node :: "(string \<times> worker_node) list \<Rightarrow> ray_node \<Rightarrow> (string \<times> worker_node) list result" where
  "add_ray_node info node =
     (case rn_node_id node of None \<Rightarrow> Inl (AssertionError ''NodeID not found'')
      | Some node_id \<Rightarrow>
        if rn_resources node = [] then Inl (AssertionError ''Resources not found'')
        else case rn_address node of None \<Rightarrow> Inl (AssertionError ''NodeManagerAddress not found'')
          | Some addr \<Rightarrow>
            if addr = '''' then Inl (AssertionError ''NodeManagerAddress not found'')
            else if resource_or (rn_resources node) ''control_node'' 0 > 0 then Inr info
            else Inr (add_worker_keys (worker_entry node_id addr (rn_resources node)) info (rn_resources node)))"

definition get_worker_nodes :: "ray_node list \<Rightarrow> (string \<times> worker_node) list result" where
  "get_worker_nodes ray_nodes = r_foldl add_ray_node [] ray_nodes"

section \<open>State of the scheduler\<close>

datatype allocation = Pending | Granted string | Cancelled

record load_request =
  request_time :: rat
  num_gpus :: rat
  allocation_result :: nat

record fcfs =
  running :: bool
  model_loading_queues :: "(string \<times> load_request list) list"
  worker_nodes :: "(string \<times> worker_node) list"
  model_instance :: "(string \<times> (string \<times> string) list) list"
  futures :: "allocation list"
  waiting :: "(nat \<times> string \<times> string) list"

definition init_scheduler :: fcfs where
  "init_scheduler = \<lparr> running = False, model_loading_queues = [], worker_nodes = [], model_instance = [], futures = [], waiting = [] \<rparr>"

definition start_scheduler :: "fcfs \<Rightarrow> fcfs" where
  "start_scheduler s = (if running s then s else s\<lparr> running := True \<rparr>)"

definition shutdown_scheduler :: "fcfs \<Rightarrow> fcfs" where
  "shutdown_scheduler s = (if \<not> running s then s else s\<lparr> running := False, model_loading_queues := [] \<rparr>)"

section \<open>Allocation\<close>

text \<open>The request up to the point where it waits for its future.\<close>

definition allocate_resource :: "string \<Rightarrow> string \<Rightarrow> rat \<Rightarrow> rat \<Rightarrow> fcfs \<Rightarrow> fcfs" where
  "allocate_resource model_name instance_id gpus now s =
     (let fut = length (futures s);
          queue = (case map_of (model_loading_queues s) model_name of None \<Rightarrow> [] | Some q \<Rightarrow> q) in
      s\<lparr> futures := futures s @ [Pending],
         model_loading_queues := AList.update model_name
           (queue @ [\<lparr> request_time = now, num_gpus = gpus, allocation_result = fut \<rparr>]) (model_loading_queues s),
         waiting := AList.update fut (model_name, instance_id) (waiting s) \<rparr>)"

definition set_instance :: "string \<Rightarrow> string \<Rightarrow> string \<Rightarrow> fcfs \<Rightarrow> fcfs" where
  "set_instance model_name instance_id node_id s =
     (let instances = (case map_of (model_instance s) model_name of None \<Rightarrow> [] | Some d \<Rightarrow> d) in
      s\<lparr> model_instance := AList.update model_name (AList.update instance_id node_id instances) (model_instance s) \<rparr>)"

text \<open>The rest of the request once the future is set; a cancelled request ends.\<close>

definition resume_allocation :: "nat \<Rightarrow> fcfs \<Rightarrow> fcfs" where
  "resume_allocation fut s =
     (case map_of (waiting s) fut of None \<Rightarrow> s
      | Some (model_name, instance_id) \<Rightarrow>
        (case futures s ! fut of
           Pending \<Rightarrow> s
         | Granted node_id \<Rightarrow> set_instance model_name instance_id node_id (s\<lparr> waiting := AList.delete fut (waiting s) \<rparr>)
         | Cancelled \<Rightarrow> s\<lparr> waiting := AList.delete fut (waiting s) \<rparr>))"

text \<open>Cancelling the task that waits cancels its future.\<close>

definition cancel_allocation :: "nat \<Rightarrow> fcfs \<Rightarrow> fcfs" where
  "cancel_allocation fut s =
     (if fut < length (futures s) \<and> futures s ! fut = Pending then s\<lparr> futures := (futures s)[fut := Cancelled] \<rparr> else s)"

definition add_free_gpu :: "rat \<Rightarrow> string \<Rightarrow> fcfs \<Rightarrow> fcfs" where
  "add_free_gpu gpus node_id s =
     s\<lparr> worker_nodes := AList.map_entry node_id (\<lambda>info. info\<lparr> free_gpu := free_gpu info + gpus \<rparr>) (worker_nodes s) \<rparr>"

definition deallocate_resource :: "string \<Rightarrow> string \<Rightarrow> rat \<Rightarrow> fcfs \<Rightarrow> fcfs" where
  "deallocate_resource model_name instance_id gpus s =
     (case map_of (model_instance s) model_name of None \<Rightarrow> s
      | Some instances \<Rightarrow>
        case map_of instances instance_id of None \<Rightarrow> s
        | Some node_id \<Rightarrow>
          let s' = s\<lparr> model_instance := AList.update model_name (AList.delete instance_id instances) (model_instance s) \<rparr> in
          if map_of (worker_nodes s) node_id = None then s' else add_free_gpu gpus node_id s')"

section \<open>The control loop\<close>

definition loading_requests :: "(string \<times> load_request list) list \<Rightarrow> (string \<times> nat \<times> load_request) list" where
  "loading_requests queues = concat (map (\<lambda>(model_name, queue). map (\<lambda>(idx, r). (model_name, idx, r)) (zip [0..<length queue] queue)) queues)"

definition refresh_worker_nodes :: "ray_node list \<Rightarrow> fcfs \<Rightarrow> fcfs result" where
  "refresh_worker_nodes ray_nodes s =
     r_bind (get_worker_nodes ray_nodes) (\<lambda>nodes.
       Inr (s\<lparr> worker_nodes := foldl (\<lambda>d (node_id, info). if map_of d node_id = None then AList.update node_id info d else d)
                                (worker_nodes s) nodes \<rparr>))"

definition update_worker_nodes :: "(string \<times> worker_node) list \<Rightarrow> fcfs \<Rightarrow> fcfs" where
  "update_worker_nodes nodes s =
     s\<lparr> worker_nodes := foldl (\<lambda>d (node_id, info). if map_of d node_id = None then d else AList.update node_id info d) (worker_nodes s) nodes \<rparr>"

definition first_fit :: "rat \<Rightarrow> (string \<times> worker_node) list \<Rightarrow> string option" where
  "first_fit gpus nodes = map_option fst (find (\<lambda>(_, info). gpus \<le> free_gpu info) nodes)"

definition grant_request :: "string \<Rightarrow> load_request \<Rightarrow> load_request list \<Rightarrow> string \<Rightarrow> fcfs \<Rightarrow> fcfs" where
  "grant_request model_name r queue node_id s =
     add_free_gpu (- num_gpus r) node_id
       (s\<lparr> model_loading_queues := AList.update model_name (remove1 r queue) (model_loading_queues s),
           futures := (futures s)[allocation_result r := Granted node_id] \<rparr>)"

definition try_allocate :: "fcfs \<Rightarrow> string \<times> nat \<times> load_request \<Rightarrow> fcfs result" where
  "try_allocate s = (\<lambda>(model_name, _, r).
     case first_fit (num_gpus r) (worker_nodes s) of None \<Rightarrow> Inr s
     | Some node_id \<Rightarrow>
       if futures s ! allocation_result r \<noteq> Pending then Inr s
       else r_bind (dict_get (model_loading_queues s) model_name) (\<lambda>queue.
         if r \<notin> set queue then Inr s else Inr (grant_request model_name r queue node_id s)))"

definition control_iteration :: "ray_node list \<Rightarrow> fcfs \<Rightarrow> fcfs result" where
  "control_iteration ray_nodes s =
     (let requests = loading_requests (model_loading_queues s) in
      if requests = [] then Inr s
      else
        r_bind (refresh_worker_nodes ray_nodes s) (\<lambda>s1.
        r_bind (r_foldl try_allocate s1 (sort_key (\<lambda>(_, idx, _). idx) requests)) (\<lambda>s2.
          Inr (update_worker_nodes (worker_nodes s2) s2))))"

section \<open>Who holds GPUs\<close>

text \<open>
  The instances running on a node, and the requests whose future names the node but which have
  not resumed yet. The clients' contract is a function: every request of a model asks for, and
  gives back, that model's number of GPUs.
\<close>

definition held_on :: "string \<Rightarrow> fcfs \<Rightarrow> (string \<times> string) set" where
  "held_on n s = {(m, i). \<exists>insts. map_of (model_instance s) m = Some insts \<and> map_of insts i = Some n}"

definition granted_on :: "string \<Rightarrow> fcfs \<Rightarrow> (nat \<times> string \<times> string) set" where
  "granted_on n s = {(f, m, i). map_of (waiting s) f = Some (m, i) \<and> futures s ! f = Granted n}"

definition used_gpus :: "(string \<Rightarrow> rat) \<Rightarrow> string \<Rightarrow> fcfs \<Rightarrow> rat" where
  "used_gpus gpus n s = (\<Sum>(m, i) \<in> held_on n s. gpus m) + (\<Sum>(f, m, i) \<in> granted_on n s. gpus m)"

definition queue_of :: "fcfs \<Rightarrow> string \<Rightarrow> load_request set" where
  "queue_of s m = (case map_of (model_loading_queues s) m of None \<Rightarrow> {} | Some q \<Rightarrow> set q)"

definition nodes_inv :: "(string \<Rightarrow> rat) \<Rightarrow> fcfs \<Rightarrow> bool" where
  "nodes_inv gpus s \<longleftrightarrow> distinct (map fst (worker_nodes s))
     \<and> (\<forall>n. map_of (worker_nodes s) n = None \<longrightarrow> held_on n s = {} \<and> granted_on n s = {})
     \<and> (\<forall>n info. map_of (worker_nodes s) n = Some info \<longrightarrow> 0 \<le> free_gpu info \<and> free_gpu info + used_gpus gpus n s = total_gpu info)"

definition queues_inv :: "(string \<Rightarrow> rat) \<Rightarrow> fcfs \<Rightarrow> bool" where
  "queues_inv gpus s \<longleftrightarrow> distinct (map fst (model_loading_queues s))
     \<and> (\<forall>m q. map_of (model_loading_queues s) m = Some q \<longrightarrow> distinct q)
     \<and> (\<forall>m. \<forall>r \<in> queue_of s m. num_gpus r = gpus m \<and> allocation_result r < length (futures s)
          \<and> (futures s ! allocation_result r = Pending \<longrightarrow> (\<exists>i. map_of (waiting s) (allocation_result r) = Some (m, i)))
          \<and> (\<forall>n. futures s ! allocation_result r \<noteq> Granted n))
     \<and> (\<forall>m m'. \<forall>r \<in> queue_of s m. \<forall>r' \<in> queue_of s m'. allocation_result r = allocation_result r' \<longrightarrow> m = m' \<and> r = r')"

definition instances_inv :: "fcfs \<Rightarrow> bool" where
  "instances_inv s \<longleftrightarrow> (\<forall>f m i. map_of (waiting s) f = Some (m, i) \<longrightarrow> f < length (futures s) \<and> (\<forall>n. (m, i) \<notin> held_on n s)
     \<and> (\<forall>f'. map_of (waiting s) f' = Some (m, i) \<longrightarrow> f' = f))"

definition scheduler_inv :: "(string \<Rightarrow> rat) \<Rightarrow> fcfs \<Rightarrow> bool" where
  "scheduler_inv gpus s \<longleftrightarrow> nodes_inv gpus s \<and> queues_inv gpus s \<and> instances_inv s"

lemma finite_held [simp]: "finite (held_on n s)"
proof (rule finite_subset)
  show "held_on n s \<subseteq> set (concat (map (\<lambda>(m, insts). map (\<lambda>(i, _). (m, i)) insts) (model_instance s)))"
    unfolding held_on_def by (force dest: map_of_SomeD)
qed (rule finite_set)

lemma finite_granted [simp]: "finite (granted_on n s)"
proof (rule finite_subset)
  show "granted_on n s \<subseteq> set (waiting s)" unfolding granted_on_def by (auto dest: map_of_SomeD)
qed simp

lemma map_of_map_entry [simp]:
  "map_of (AList.map_entry k f d) k' = (if k' = k then map_option f (map_of d k) else map_of d k')"
  by (induction d) auto

lemma add_free_gpu_simps [simp]:
  "model_loading_queues (add_free_gpu g n s) = model_loading_queues s" "model_instance (add_free_gpu g n s) = model_instance s"
  "futures (add_free_gpu g n s) = futures s" "waiting (add_free_gpu g n s) = waiting s" "running (add_free_gpu g n s) = running s"
  "held_on k (add_free_gpu g n s) = held_on k s" "granted_on k (add_free_gpu g n s) = granted_on k s"
  "used_gpus gpus k (add_free_gpu g n s) = used_gpus gpus k s" "queue_of (add_free_gpu g n s) m = queue_of s m"
  "map_of (worker_nodes (add_free_gpu g n s)) k
     = (if k = n then map_option (\<lambda>info. info\<lparr> free_gpu := free_gpu info + g \<rparr>) (map_of (worker_nodes s) k) else map_of (worker_nodes s) k)"
  by (simp_all add: add_free_gpu_def held_on_def granted_on_def used_gpus_def queue_of_def)

section \<open>Granting a request\<close>

lemma queue_of_Some: "map_of (model_loading_queues s) m = Some q \<Longrightarrow> queue_of s m = set q"
  by (simp add: queue_of_def)

lemma first_fit_Some:
  assumes "first_fit g nodes = Some n" and "distinct (map fst nodes)"
  shows "\<exists>info. map_of nodes n = Some info \<and> g \<le> free_gpu info"
proof -
  obtain x where x: "find (\<lambda>(_, info). g \<le> free_gpu info) nodes = Some x" "n = fst x"
    using assms(1) by (auto simp: first_fit_def)
  then have "x \<in> set nodes \<and> g \<le> free_gpu (snd x)" by (auto simp: find_Some_iff split_def)
  then show ?thesis using assms(2) x(2) by (metis map_of_is_SomeI prod.collapse)
qed

lemma first_fit_None: "first_fit g nodes = None \<Longrightarrow> map_of nodes n = Some info \<Longrightarrow> free_gpu info < g"
  unfolding first_fit_def by (fastforce simp: find_None_iff dest: map_of_SomeD)

lemma grant_fields [simp]:
  "waiting (grant_request m r q n s) = waiting s" "model_instance (grant_request m r q n s) = model_instance s"
  "futures (grant_request m r q n s) = (futures s)[allocation_result r := Granted n]" "running (grant_request m r q n s) = running s"
  "model_loading_queues (grant_request m r q n s) = AList.update m (remove1 r q) (model_loading_queues s)"
  "map_of (worker_nodes (grant_request m r q n s)) k
     = (if k = n then map_option (\<lambda>info. info\<lparr> free_gpu := free_gpu info - num_gpus r \<rparr>) (map_of (worker_nodes s) k) else map_of (worker_nodes s) k)"
  "held_on k (grant_request m r q n s) = held_on k s"
  by (simp_all add: grant_request_def held_on_def)

lemma grant_queue_of:
  assumes "map_of (model_loading_queues s) m = Some q" "distinct q"
  shows "queue_of (grant_request m r q n s) m' = (if m' = m then queue_of s m - {r} else queue_of s m')"
  using assms by (simp add: queue_of_def update_conv')

lemma grant_granted_on:
  assumes "allocation_result r < length (futures s)" "futures s ! allocation_result r = Pending"
    and "map_of (waiting s) (allocation_result r) = Some (m, i)"
  shows "granted_on k (grant_request m r q n s) = (if k = n then insert (allocation_result r, m, i) (granted_on n s) else granted_on k s)"
    "(allocation_result r, m, i) \<notin> granted_on k s"
  using assms by (auto simp: granted_on_def nth_list_update split: if_splits)

lemma grant_nodes_inv:
  assumes inv: "nodes_inv gpus s" and g: "num_gpus r = gpus m" and n: "map_of (worker_nodes s) n = Some info" "num_gpus r \<le> free_gpu info"
    and f: "allocation_result r < length (futures s)" "futures s ! allocation_result r = Pending"
      "map_of (waiting s) (allocation_result r) = Some (m, i)"
  shows "nodes_inv gpus (grant_request m r q n s)"
proof -
  note gr = grant_granted_on [OF f]
  have "used_gpus gpus k (grant_request m r q n s) = used_gpus gpus k s + (if k = n then num_gpus r else 0)" for k
    by (simp add: used_gpus_def gr g)
  moreover have "distinct (map fst (worker_nodes (grant_request m r q n s)))"
    using inv by (simp add: nodes_inv_def grant_request_def add_free_gpu_def distinct_map_entry)
  ultimately show ?thesis using inv n unfolding nodes_inv_def by (auto simp: gr(1))
qed

lemma grant_queues_inv:
  assumes inv: "queues_inv gpus s" and q: "map_of (model_loading_queues s) m = Some q" "r \<in> set q"
  shows "queues_inv gpus (grant_request m r q n s)"
proof -
  let ?s = "grant_request m r q n s"
  have dq: "distinct q" using inv q(1) by (auto simp: queues_inv_def)
  have r: "r \<in> queue_of s m" using q by (simp add: queue_of_def)
  have sub: "r' \<in> queue_of s m' \<and> (r' \<noteq> r \<or> m' \<noteq> m)" if "r' \<in> queue_of ?s m'" for r' m'
    using that by (auto simp: grant_queue_of [OF q(1) dq] split: if_splits)
  have other: "allocation_result r' \<noteq> allocation_result r" if "r' \<in> queue_of ?s m'" for r' m'
    using sub [OF that] r inv unfolding queues_inv_def by metis
  have "distinct q'" if "map_of (model_loading_queues ?s) m' = Some q'" for m' q'
    using that inv dq by (auto simp: queues_inv_def update_conv' split: if_splits)
  moreover have "distinct (map fst (model_loading_queues ?s))" using inv by (simp add: queues_inv_def distinct_update)
  moreover have "num_gpus r' = gpus m' \<and> allocation_result r' < length (futures ?s)
      \<and> (futures ?s ! allocation_result r' = Pending \<longrightarrow> (\<exists>i. map_of (waiting ?s) (allocation_result r') = Some (m', i)))
      \<and> (\<forall>n. futures ?s ! allocation_result r' \<noteq> Granted n)" if "r' \<in> queue_of ?s m'" for m' r'
    using sub [OF that] other [OF that] inv by (auto simp: queues_inv_def)
  moreover have "m' = m'' \<and> r' = r''" if "r' \<in> queue_of ?s m'" "r'' \<in> queue_of ?s m''" "allocation_result r' = allocation_result r''" for m' m'' r' r''
    using sub [OF that(1)] sub [OF that(2)] that(3) inv unfolding queues_inv_def by metis
  ultimately show ?thesis unfolding queues_inv_def by blast
qed

lemma grant_instances_inv: "instances_inv s \<Longrightarrow> instances_inv (grant_request m r q n s)"
  by (simp add: instances_inv_def)

lemma grant_inv:
  assumes inv: "scheduler_inv gpus s" and q: "map_of (model_loading_queues s) m = Some q" "r \<in> set q"
    and p: "futures s ! allocation_result r = Pending" and info: "map_of (worker_nodes s) n = Some info" "num_gpus r \<le> free_gpu info"
  shows "scheduler_inv gpus (grant_request m r q n s)" "num_gpus r = gpus m"
proof -
  have "r \<in> queue_of s m" using q by (simp add: queue_of_def)
  then obtain i where r: "num_gpus r = gpus m" "allocation_result r < length (futures s)" "map_of (waiting s) (allocation_result r) = Some (m, i)"
    using inv p unfolding scheduler_inv_def queues_inv_def by blast
  have parts: "nodes_inv gpus s" "queues_inv gpus s" "instances_inv s" using inv by (simp_all add: scheduler_inv_def)
  show "scheduler_inv gpus (grant_request m r q n s)"
    using grant_nodes_inv [OF parts(1) r(1) info r(2) p r(3)] grant_queues_inv [OF parts(2) q] grant_instances_inv [OF parts(3)]
    by (simp add: scheduler_inv_def)
  show "num_gpus r = gpus m" by (rule r(1))
qed

lemma try_allocate_inv:
  assumes inv: "scheduler_inv gpus s" and m: "m \<in> fst ` set (model_loading_queues s)"
  shows "\<exists>s'. try_allocate s (m, idx, r) = Inr s' \<and> scheduler_inv gpus s' \<and> fst ` set (model_loading_queues s') = fst ` set (model_loading_queues s)"
proof -
  obtain q where q: "map_of (model_loading_queues s) m = Some q" using map_of_mem [OF m] by blast
  show ?thesis
  proof (cases "\<exists>n. first_fit (num_gpus r) (worker_nodes s) = Some n \<and> futures s ! allocation_result r = Pending \<and> r \<in> set q")
    case True
    then obtain n where n: "first_fit (num_gpus r) (worker_nodes s) = Some n" "futures s ! allocation_result r = Pending" "r \<in> set q" by blast
    have dn: "distinct (map fst (worker_nodes s))" using inv by (simp add: scheduler_inv_def nodes_inv_def)
    obtain info where info: "map_of (worker_nodes s) n = Some info" "num_gpus r \<le> free_gpu info" using first_fit_Some [OF n(1) dn] by blast
    have "scheduler_inv gpus (grant_request m r q n s)" by (rule grant_inv(1) [OF inv q n(3,2) info])
    moreover have "fst ` set (model_loading_queues (grant_request m r q n s)) = fst ` set (model_loading_queues s)"
      using m by (simp add: dom_update insert_absorb)
    ultimately show ?thesis using n q by (simp add: try_allocate_def)
  next
    case False
    then have "try_allocate s (m, idx, r) = Inr s" using q by (auto simp: try_allocate_def split: option.split)
    then show ?thesis using inv by simp
  qed
qed

section \<open>One iteration of the control loop\<close>

definition cluster_ok :: "ray_node list \<Rightarrow> bool" where
  "cluster_ok ray_nodes \<longleftrightarrow> (\<forall>node \<in> set ray_nodes. 0 \<le> resource_or (rn_resources node) ''GPU'' 0)"

lemma worker_nodes_fresh:
  assumes nodes: "get_worker_nodes ray_nodes = Inr nodes" and ok: "cluster_ok ray_nodes"
  shows "map_of nodes n = Some info \<Longrightarrow> 0 \<le> free_gpu info \<and> total_gpu info = free_gpu info" and "distinct (map fst nodes)"
proof -
  let ?ok = "\<lambda>info. 0 \<le> free_gpu info \<and> total_gpu info = free_gpu info"
  let ?P = "\<lambda>d. distinct (map fst d) \<and> (\<forall>(n, info) \<in> set d. ?ok info)"
  have entries: "?P (add_worker_keys e d ks)" if "?P d" "?ok e" for d e ks
    using that(1) unfolding add_worker_keys_def
  proof (induction ks arbitrary: d)
    case (Cons k ks)
    let ?d = "AList.update (last_field (fst k)) e d"
    have "distinct (map fst ?d)" using Cons.prems by (simp add: distinct_update)
    moreover have "\<forall>(n, info) \<in> set ?d. ?ok info" using Cons.prems that(2) by (intro ball_update) simp_all
    ultimately have "?P ?d" by blast
    then show ?case using Cons.IH [of ?d] Cons.IH [OF Cons.prems] by (cases k; cases "worker_key (fst k)") simp_all
  qed simp
  have step: "?P b" if P: "?P a" and x: "x \<in> set ray_nodes" and run: "add_ray_node a x = Inr b" for a x b
  proof (cases "b = a")
    case False
    then obtain i ad where b: "b = add_worker_keys (worker_entry i ad (rn_resources x)) a (rn_resources x)"
      using run by (auto simp: add_ray_node_def split: option.splits if_splits)
    have "?ok (worker_entry i ad (rn_resources x))" using ok x by (simp add: cluster_ok_def worker_entry_def)
    from entries [OF P this] show ?thesis unfolding b .
  qed (use P in simp)
  have "?P nodes"
    by (rule r_foldl_invariant [where P = ?P, OF nodes [unfolded get_worker_nodes_def] _ step]) simp_all
  then show "map_of nodes n = Some info \<Longrightarrow> 0 \<le> free_gpu info \<and> total_gpu info = free_gpu info" "distinct (map fst nodes)"
    by (auto dest: map_of_SomeD)
qed

lemma refresh_map:
  "map_of (foldl (\<lambda>d (node_id, info). if map_of d node_id = None then AList.update node_id info d else d) d nodes) n
     = (case map_of d n of None \<Rightarrow> map_of nodes n | Some info \<Rightarrow> Some info)"
proof (induction nodes arbitrary: d)
  case (Cons x nodes)
  then show ?case by (cases x) (auto simp: update_conv' split: option.split)
qed (simp split: option.split)

lemma refresh_distinct:
  "distinct (map fst d) \<Longrightarrow>
   distinct (map fst (foldl (\<lambda>d (node_id, info). if map_of d node_id = None then AList.update node_id info d else d) d nodes))"
  by (induction nodes arbitrary: d) (auto simp: distinct_update)

lemma holders_worker_nodes [simp]:
  "held_on n (s\<lparr> worker_nodes := w \<rparr>) = held_on n s" "granted_on n (s\<lparr> worker_nodes := w \<rparr>) = granted_on n s"
  "used_gpus gpus n (s\<lparr> worker_nodes := w \<rparr>) = used_gpus gpus n s" "queue_of (s\<lparr> worker_nodes := w \<rparr>) m = queue_of s m"
  by (simp_all add: held_on_def granted_on_def used_gpus_def queue_of_def)

lemma refresh_inv:
  assumes inv: "scheduler_inv gpus s" and nodes: "get_worker_nodes ray_nodes = Inr nodes" and ok: "cluster_ok ray_nodes"
  shows "\<exists>s1. refresh_worker_nodes ray_nodes s = Inr s1 \<and> scheduler_inv gpus s1 \<and> model_loading_queues s1 = model_loading_queues s"
proof -
  define w where "w = foldl (\<lambda>d (node_id, info). if map_of d node_id = None then AList.update node_id info d else d) (worker_nodes s) nodes"
  have w: "map_of w n = (case map_of (worker_nodes s) n of None \<Rightarrow> map_of nodes n | Some info \<Rightarrow> Some info)" for n
    unfolding w_def by (rule refresh_map)
  have "distinct (map fst w)" using inv refresh_distinct unfolding w_def by (auto simp: scheduler_inv_def nodes_inv_def)
  moreover have "0 \<le> free_gpu info \<and> free_gpu info + used_gpus gpus n s = total_gpu info" if "map_of w n = Some info" for n info
  proof (cases "map_of (worker_nodes s) n")
    case None
    then have "used_gpus gpus n s = 0" using inv by (simp add: scheduler_inv_def nodes_inv_def used_gpus_def)
    then show ?thesis using worker_nodes_fresh(1) [OF nodes ok] that w [of n] None by auto
  next
    case (Some info')
    then show ?thesis using inv that w [of n] by (auto simp: scheduler_inv_def nodes_inv_def)
  qed
  moreover have "held_on n s = {} \<and> granted_on n s = {}" if "map_of w n = None" for n
    using that w [of n] inv by (auto simp: scheduler_inv_def nodes_inv_def split: option.splits)
  ultimately have "scheduler_inv gpus (s\<lparr> worker_nodes := w \<rparr>)"
    using inv by (simp add: scheduler_inv_def nodes_inv_def queues_inv_def instances_inv_def)
  then show ?thesis using nodes by (simp add: refresh_worker_nodes_def w_def)
qed

lemma update_same: "map_of d k = Some v \<Longrightarrow> AList.update k v d = d"
  by (induction d) auto

text \<open>The table written back is the one the loop has changed in place.\<close>

lemma update_worker_nodes_same:
  assumes "distinct (map fst (worker_nodes s))"
  shows "update_worker_nodes (worker_nodes s) s = s"
proof -
  have "foldl (\<lambda>d (node_id, info). if map_of d node_id = None then d else AList.update node_id info d) (worker_nodes s) xs = worker_nodes s"
    if "set xs \<subseteq> set (worker_nodes s)" for xs
    using that
  proof (induction xs)
    case (Cons x xs)
    obtain n info where x: "x = (n, info)" by (cases x)
    then have "map_of (worker_nodes s) n = Some info" using Cons.prems assms by simp
    then show ?case using Cons x by (simp add: update_same)
  qed simp
  then show ?thesis by (simp add: update_worker_nodes_def)
qed

text \<open>What a queued request still waiting means: it fits no node.\<close>

definition stuck :: "fcfs \<Rightarrow> string \<Rightarrow> load_request \<Rightarrow> bool" where
  "stuck s m r \<longleftrightarrow> (r \<in> queue_of s m \<and> futures s ! allocation_result r = Pending
     \<longrightarrow> (\<forall>n info. map_of (worker_nodes s) n = Some info \<longrightarrow> free_gpu info < num_gpus r))"

lemma try_allocate_cases:
  assumes inv: "scheduler_inv gpus s" and run: "try_allocate s (m, idx, r) = Inr s'"
  obtains (skip) "s' = s" "stuck s m r"
  | (grant) n q where "map_of (model_loading_queues s) m = Some q" "r \<in> set q" "futures s ! allocation_result r = Pending"
      "first_fit (num_gpus r) (worker_nodes s) = Some n" "s' = grant_request m r q n s"
proof (cases "first_fit (num_gpus r) (worker_nodes s)")
  case None
  then show thesis using skip run first_fit_None by (auto simp: try_allocate_def stuck_def)
next
  case (Some n)
  show thesis
  proof (cases "futures s ! allocation_result r = Pending")
    case True
    obtain q where q: "map_of (model_loading_queues s) m = Some q"
      using run Some True by (auto simp: try_allocate_def py_simps)
    show thesis
    proof (cases "r \<in> set q")
      case True
      then show thesis using grant [OF q _ \<open>futures s ! allocation_result r = Pending\<close> Some] run Some q \<open>futures s ! allocation_result r = Pending\<close>
        by (simp add: try_allocate_def)
    next
      case False
      then show thesis using skip run Some q \<open>futures s ! allocation_result r = Pending\<close> by (simp add: try_allocate_def stuck_def queue_of_def)
    qed
  next
    case False
    then show thesis using skip run Some by (simp add: try_allocate_def stuck_def)
  qed
qed

lemma try_allocate_stuck:
  assumes inv: "scheduler_inv gpus s" and g: "\<And>m. 0 \<le> gpus m" and run: "try_allocate s (m, idx, r) = Inr s'"
  shows "stuck s' m r" and "stuck s m' r' \<Longrightarrow> stuck s' m' r'" and "queue_of s' m' \<subseteq> queue_of s m'"
proof -
  have "stuck s' m r \<and> (stuck s m' r' \<longrightarrow> stuck s' m' r') \<and> queue_of s' m' \<subseteq> queue_of s m'"
    using inv run
  proof (cases rule: try_allocate_cases)
    case skip
    then show ?thesis by simp
  next
    case (grant n q)
    have dq: "distinct q" using inv grant(1) unfolding scheduler_inv_def queues_inv_def by blast
    have mem: "r \<in> queue_of s m" using grant(1,2) by (simp add: queue_of_def)
    then have r: "num_gpus r = gpus m" "allocation_result r < length (futures s)" using inv unfolding scheduler_inv_def queues_inv_def by blast+
    note qs = grant_queue_of [OF grant(1) dq, of r n]
    have less: "\<exists>info'. map_of (worker_nodes s) k = Some info' \<and> free_gpu info \<le> free_gpu info'" if "map_of (worker_nodes s') k = Some info" for k info
      using that g [of m] r(1) unfolding grant(5) by (auto split: if_splits)
    have "futures s ! allocation_result r' = Pending" if "futures s' ! allocation_result r' = Pending"
      using that r(2) unfolding grant(5) by (auto simp: nth_list_update split: if_splits)
    then have "stuck s m' r' \<longrightarrow> stuck s' m' r'"
      using less qs [of m'] unfolding stuck_def grant(5) [symmetric] by (force split: if_splits)
    moreover have "stuck s' m r" unfolding stuck_def grant(5) qs by simp
    ultimately show ?thesis unfolding grant(5) qs by auto
  qed
  then show "stuck s' m r" and "stuck s m' r' \<Longrightarrow> stuck s' m' r'" and "queue_of s' m' \<subseteq> queue_of s m'" by blast+
qed

lemma loading_requests_mem:
  assumes "distinct (map fst queues)"
  shows "(\<exists>idx. (m, idx, r) \<in> set (loading_requests queues)) \<longleftrightarrow> (\<exists>q. map_of queues m = Some q \<and> r \<in> set q)"
proof
  assume "\<exists>idx. (m, idx, r) \<in> set (loading_requests queues)"
  then obtain q where "(m, q) \<in> set queues" "r \<in> set q"
    unfolding loading_requests_def by (auto dest: set_zip_rightD)
  then show "\<exists>q. map_of queues m = Some q \<and> r \<in> set q" using assms by (metis map_of_is_SomeI)
next
  assume "\<exists>q. map_of queues m = Some q \<and> r \<in> set q"
  then obtain q i where q: "(m, q) \<in> set queues" "i < length q" "r = q ! i" by (metis in_set_conv_nth map_of_SomeD)
  then have "(i, r) \<in> set (zip [0..<length q] q)" by (force simp: set_zip)
  then have "(m, i, r) \<in> set (loading_requests queues)" using q(1) unfolding loading_requests_def by force
  then show "\<exists>idx. (m, idx, r) \<in> set (loading_requests queues)" by blast
qed

lemma loading_requests_nth:
  assumes "distinct (map fst queues)" "(m, idx, r) \<in> set (loading_requests queues)"
  shows "\<exists>q. map_of queues m = Some q \<and> idx < length q \<and> q ! idx = r"
proof -
  obtain q where "(m, q) \<in> set queues" "(idx, r) \<in> set (zip [0..<length q] q)"
    using assms(2) unfolding loading_requests_def by auto
  then show ?thesis using assms(1) by (auto simp: set_zip)
qed

lemma allocate_all:
  assumes inv: "scheduler_inv gpus s" and g: "\<And>m. 0 \<le> gpus m" and keys: "\<forall>(m, idx, r) \<in> set xs. m \<in> fst ` set (model_loading_queues s)"
  shows "\<exists>s'. r_foldl try_allocate s xs = Inr s' \<and> scheduler_inv gpus s' \<and> (\<forall>m. queue_of s' m \<subseteq> queue_of s m)
    \<and> (\<forall>(m, idx, r) \<in> set xs. stuck s' m r) \<and> (\<forall>m r. stuck s m r \<longrightarrow> stuck s' m r)"
  using inv keys
proof (induction xs arbitrary: s)
  case (Cons x xs)
  obtain m idx r where x: "x = (m, idx, r)" by (cases x)
  have m: "m \<in> fst ` set (model_loading_queues s)" using Cons.prems(2) x by force
  obtain s1 where s1: "try_allocate s x = Inr s1" "scheduler_inv gpus s1" "fst ` set (model_loading_queues s1) = fst ` set (model_loading_queues s)"
    using try_allocate_inv [OF Cons.prems(1) m] x by blast
  note step = try_allocate_stuck [OF Cons.prems(1) g s1(1) [unfolded x]]
  obtain s' where s': "r_foldl try_allocate s1 xs = Inr s'" "scheduler_inv gpus s'" "\<forall>m. queue_of s' m \<subseteq> queue_of s1 m"
      "\<forall>(m, idx, r) \<in> set xs. stuck s' m r" "\<forall>m r. stuck s1 m r \<longrightarrow> stuck s' m r"
    using Cons.IH [OF s1(2)] Cons.prems(2) s1(3) by auto
  have "queue_of s' k \<subseteq> queue_of s k" for k using s'(3) step(3) by blast
  moreover have "stuck s' m r" using step(1) s'(5) by blast
  moreover have "stuck s k r' \<longrightarrow> stuck s' k r'" for k r' using step(2) s'(5) by blast
  ultimately show ?case using s1(1) s'(1,2,4) x by auto
qed simp

text \<open>An iteration succeeds, keeps the accounting, and leaves no request that would fit.\<close>

lemma control_iteration_ok:
  assumes inv: "scheduler_inv gpus s" and g: "\<And>m. 0 \<le> gpus m" and nodes: "get_worker_nodes ray_nodes = Inr nodes" and ok: "cluster_ok ray_nodes"
  shows "\<exists>s'. control_iteration ray_nodes s = Inr s' \<and> scheduler_inv gpus s' \<and> (\<forall>m. queue_of s' m \<subseteq> queue_of s m) \<and> (\<forall>m r. stuck s' m r)"
proof -
  let ?reqs = "loading_requests (model_loading_queues s)"
  have dist: "distinct (map fst (model_loading_queues s))" using inv by (simp add: scheduler_inv_def queues_inv_def)
  have mem: "r \<in> queue_of s m \<Longrightarrow> \<exists>idx. (m, idx, r) \<in> set ?reqs" for m r
    using loading_requests_mem [OF dist, of m r] by (auto simp: queue_of_def split: option.splits)
  show ?thesis
  proof (cases "?reqs = []")
    case True
    have "stuck s m r" for m r using mem [of r m] True by (auto simp: stuck_def)
    then show ?thesis using True inv by (auto simp: control_iteration_def)
  next
    case False
    obtain s1 where s1: "refresh_worker_nodes ray_nodes s = Inr s1" "scheduler_inv gpus s1" "model_loading_queues s1 = model_loading_queues s"
      using refresh_inv [OF inv nodes ok] by blast
    let ?sorted = "sort_key (\<lambda>(_, idx, _). idx) ?reqs"
    have keys: "\<forall>(m, idx, r) \<in> set ?sorted. m \<in> fst ` set (model_loading_queues s1)"
      using loading_requests_mem [OF dist] unfolding s1(3) by (force dest: map_of_SomeD)
    obtain s2 where s2: "r_foldl try_allocate s1 ?sorted = Inr s2" "scheduler_inv gpus s2" "\<forall>m. queue_of s2 m \<subseteq> queue_of s1 m"
        "\<forall>(m, idx, r) \<in> set ?sorted. stuck s2 m r"
      using allocate_all [OF s1(2) g keys] by blast
    have same: "queue_of s1 m = queue_of s m" for m by (simp add: queue_of_def s1(3))
    have "stuck s2 m r" for m r
    proof (cases "r \<in> queue_of s m")
      case True
      then show ?thesis using mem [OF True] s2(4) by auto
    next
      case False
      then have "r \<notin> queue_of s2 m" using s2(3) same by blast
      then show ?thesis by (simp add: stuck_def)
    qed
    moreover have "update_worker_nodes (worker_nodes s2) s2 = s2"
      using s2(2) update_worker_nodes_same by (simp add: scheduler_inv_def nodes_inv_def)
    ultimately show ?thesis using False s1(1) s2(1,2,3) same by (auto simp: control_iteration_def)
  qed
qed

section \<open>The other operations keep the accounting\<close>

lemma start_inv: "scheduler_inv gpus s \<Longrightarrow> scheduler_inv gpus (start_scheduler s)"
  by (simp add: start_scheduler_def scheduler_inv_def nodes_inv_def queues_inv_def instances_inv_def used_gpus_def held_on_def
      granted_on_def queue_of_def)

lemma shutdown_inv: "scheduler_inv gpus s \<Longrightarrow> scheduler_inv gpus (shutdown_scheduler s)"
  by (simp add: shutdown_scheduler_def scheduler_inv_def nodes_inv_def queues_inv_def instances_inv_def used_gpus_def held_on_def
      granted_on_def queue_of_def)

lemma allocate_inv:
  assumes inv: "scheduler_inv gpus s" and fresh: "\<And>n. (m, i) \<notin> held_on n s" "\<And>f. map_of (waiting s) f \<noteq> Some (m, i)"
  shows "scheduler_inv gpus (allocate_resource m i (gpus m) now s)"
proof -
  define f where "f = length (futures s)"
  define r where "r = \<lparr> request_time = now, num_gpus = gpus m, allocation_result = f \<rparr>"
  define s' where "s' = allocate_resource m i (gpus m) now s"
  have fields: "futures s' = futures s @ [Pending]" "map_of (waiting s') = (map_of (waiting s))(f \<mapsto> (m, i))"
      "worker_nodes s' = worker_nodes s" "model_instance s' = model_instance s"
    by (simp_all add: s'_def allocate_resource_def f_def Let_def update_conv')
  have wf: "map_of (waiting s) k = Some x \<Longrightarrow> k < f" for k x
    using inv by (cases x) (auto simp: scheduler_inv_def instances_inv_def f_def)
  have none: "map_of (waiting s) f = None" using wf by (cases "map_of (waiting s) f") auto
  have held: "held_on n s' = held_on n s" for n by (simp add: held_on_def fields)
  have granted: "granted_on n s' = granted_on n s" for n
    using wf none by (auto simp: granted_on_def fields nth_append f_def split: if_splits)
  have qs: "queue_of s' k = (if k = m then insert r (queue_of s m) else queue_of s k)" for k
    by (simp add: s'_def allocate_resource_def queue_of_def update_conv' Let_def r_def f_def split: option.split)
  have old: "r' \<in> queue_of s k \<Longrightarrow> allocation_result r' < f" for k r'
    using inv unfolding scheduler_inv_def queues_inv_def f_def by blast
  have "nodes_inv gpus s'"
    using inv by (simp add: scheduler_inv_def nodes_inv_def used_gpus_def held granted fields)
  moreover have "instances_inv s'"
    using inv fresh wf unfolding scheduler_inv_def instances_inv_def held fields by (auto simp: f_def less_Suc_eq)
  moreover have "queues_inv gpus s'"
  proof -
    have "distinct (map fst (model_loading_queues s'))"
      using inv by (simp add: s'_def allocate_resource_def Let_def scheduler_inv_def queues_inv_def distinct_update)
    moreover have "distinct q" if "map_of (model_loading_queues s') k = Some q" for k q
    proof (cases "k = m")
      case True
      have "r \<notin> queue_of s m" using old [of r m] by (auto simp: r_def)
      moreover have "distinct (case map_of (model_loading_queues s) m of None \<Rightarrow> [] | Some q \<Rightarrow> q)"
        using inv by (auto simp: scheduler_inv_def queues_inv_def split: option.split)
      ultimately show ?thesis using that True
        by (auto simp: s'_def allocate_resource_def Let_def update_conv' queue_of_def r_def f_def split: option.splits)
    next
      case False
      then show ?thesis using that inv by (auto simp: s'_def allocate_resource_def Let_def update_conv' scheduler_inv_def queues_inv_def)
    qed
    moreover have "num_gpus r' = gpus k \<and> allocation_result r' < length (futures s')
        \<and> (futures s' ! allocation_result r' = Pending \<longrightarrow> (\<exists>i. map_of (waiting s') (allocation_result r') = Some (k, i)))
        \<and> (\<forall>n. futures s' ! allocation_result r' \<noteq> Granted n)" if "r' \<in> queue_of s' k" for k r'
    proof (cases "r' = r \<and> k = m")
      case True
      then show ?thesis by (simp add: r_def fields f_def)
    next
      case False
      then have mem: "r' \<in> queue_of s k" using that qs by (auto split: if_splits)
      note lt = old [OF mem]
      then have "futures s' ! allocation_result r' = futures s ! allocation_result r'" "map_of (waiting s') (allocation_result r') = map_of (waiting s) (allocation_result r')"
        by (simp_all add: fields nth_append f_def)
      moreover have "num_gpus r' = gpus k \<and> (futures s ! allocation_result r' = Pending \<longrightarrow> (\<exists>i. map_of (waiting s) (allocation_result r') = Some (k, i)))
          \<and> (\<forall>n. futures s ! allocation_result r' \<noteq> Granted n)" using inv mem unfolding scheduler_inv_def queues_inv_def by blast
      moreover have "allocation_result r' < length (futures s')" using lt by (simp add: fields f_def)
      ultimately show ?thesis by simp
    qed
    moreover have "k = k' \<and> r' = r''" if "r' \<in> queue_of s' k" "r'' \<in> queue_of s' k'" "allocation_result r' = allocation_result r''" for k k' r' r''
    proof -
      have a: "allocation_result r = f" by (simp add: r_def)
      have "r' \<in> queue_of s k \<or> r' = r \<and> k = m" "r'' \<in> queue_of s k' \<or> r'' = r \<and> k' = m" using that(1,2) qs by (auto split: if_splits)
      then show ?thesis using old that(3) a inv unfolding scheduler_inv_def queues_inv_def by (metis less_irrefl)
    qed
    ultimately show ?thesis unfolding queues_inv_def by blast
  qed
  ultimately show ?thesis by (simp add: scheduler_inv_def s'_def)
qed

lemma drop_waiting_inv:
  assumes inv: "scheduler_inv gpus s" and f: "futures s ! f = Cancelled"
  shows "scheduler_inv gpus (s\<lparr> waiting := AList.delete f (waiting s) \<rparr>)"
proof -
  let ?s = "s\<lparr> waiting := AList.delete f (waiting s) \<rparr>"
  have del: "map_of (AList.delete f (waiting s)) k = (if k = f then None else map_of (waiting s) k)" for k
    by (simp add: delete_conv')
  have "held_on n ?s = held_on n s" "granted_on n ?s = granted_on n s" for n
    using f by (auto simp: held_on_def granted_on_def del split: if_splits)
  moreover have "queue_of ?s m = queue_of s m" for m by (simp add: queue_of_def)
  moreover have "queues_inv gpus ?s"
    unfolding queues_inv_def calculation using inv f unfolding scheduler_inv_def queues_inv_def by (auto simp: del)
  ultimately show ?thesis using inv by (auto simp: scheduler_inv_def nodes_inv_def used_gpus_def instances_inv_def del)
qed

lemma set_instance_map:
  "model_instance (set_instance m i n s) = AList.update m (AList.update i n (case map_of (model_instance s) m of None \<Rightarrow> [] | Some d \<Rightarrow> d)) (model_instance s)"
  "waiting (set_instance m i n s) = waiting s" "futures (set_instance m i n s) = futures s" "worker_nodes (set_instance m i n s) = worker_nodes s"
  "model_loading_queues (set_instance m i n s) = model_loading_queues s"
  by (simp_all add: set_instance_def)

lemma set_instance_held:
  assumes "\<And>k. (m, i) \<notin> held_on k s"
  shows "held_on k (set_instance m i n s) = (if k = n then insert (m, i) (held_on n s) else held_on k s)"
  using assms by (auto simp: held_on_def set_instance_map update_conv' split: if_splits option.splits)

lemma resume_granted_inv:
  assumes inv: "scheduler_inv gpus s" and w: "map_of (waiting s) f = Some (m, i)" and f: "futures s ! f = Granted n"
  shows "scheduler_inv gpus (set_instance m i n (s\<lparr> waiting := AList.delete f (waiting s) \<rparr>))"
proof -
  let ?s = "set_instance m i n (s\<lparr> waiting := AList.delete f (waiting s) \<rparr>)"
  have del: "map_of (waiting ?s) k = (if k = f then None else map_of (waiting s) k)" for k
    by (simp add: set_instance_map delete_conv')
  have fresh: "(m, i) \<notin> held_on k s" for k using inv w unfolding scheduler_inv_def instances_inv_def by blast
  have uniq: "map_of (waiting s) f' = Some (m, i) \<Longrightarrow> f' = f" for f' using inv w unfolding scheduler_inv_def instances_inv_def by blast
  have same: "held_on k (s\<lparr> waiting := x \<rparr>) = held_on k s" for k x by (simp add: held_on_def)
  have held: "held_on k ?s = (if k = n then insert (m, i) (held_on n s) else held_on k s)" for k
    using set_instance_held [of m i "s\<lparr> waiting := AList.delete f (waiting s) \<rparr>"] fresh by (simp add: same)
  have mem: "(f, m, i) \<in> granted_on n s" using w f by (simp add: granted_on_def)
  have granted: "granted_on k ?s = (if k = n then granted_on n s - {(f, m, i)} else granted_on k s)" for k
    using w f by (auto simp: granted_on_def set_instance_map delete_conv' split: if_splits)
  have used: "used_gpus gpus k ?s = used_gpus gpus k s" for k
    using fresh [of n] mem by (simp add: used_gpus_def held granted sum.remove)
  have "map_of (worker_nodes s) n \<noteq> None" using inv mem unfolding scheduler_inv_def nodes_inv_def by blast
  then have "nodes_inv gpus ?s"
    using inv unfolding scheduler_inv_def nodes_inv_def used held granted by (auto simp: set_instance_map)
  moreover have qs: "queue_of ?s k = queue_of s k" for k by (simp add: queue_of_def set_instance_map)
  have "queues_inv gpus ?s"
    unfolding queues_inv_def qs using inv f unfolding scheduler_inv_def queues_inv_def by (auto simp: set_instance_map delete_conv')
  moreover have "instances_inv ?s"
    unfolding instances_inv_def held del using inv uniq unfolding scheduler_inv_def instances_inv_def by (auto simp: set_instance_map)
  ultimately show ?thesis by (simp add: scheduler_inv_def)
qed

lemma resume_inv: "scheduler_inv gpus s \<Longrightarrow> scheduler_inv gpus (resume_allocation f s)"
  using drop_waiting_inv [of gpus s f] resume_granted_inv [of gpus s f]
  by (auto simp: resume_allocation_def split: option.split allocation.split)

lemma cancel_inv:
  assumes inv: "scheduler_inv gpus s"
  shows "scheduler_inv gpus (cancel_allocation f s)"
proof (cases "f < length (futures s) \<and> futures s ! f = Pending")
  case True
  let ?s = "s\<lparr> futures := (futures s)[f := Cancelled] \<rparr>"
  have nth: "(futures s)[f := Cancelled] ! k = (if k = f then Cancelled else futures s ! k)" for k using True by (simp add: nth_list_update)
  have "held_on n ?s = held_on n s" "granted_on n ?s = granted_on n s" for n
    using True by (auto simp: held_on_def granted_on_def nth split: if_splits)
  moreover have qs: "queue_of ?s m = queue_of s m" for m by (simp add: queue_of_def)
  moreover have "queues_inv gpus ?s"
    unfolding queues_inv_def qs using inv unfolding scheduler_inv_def queues_inv_def by (auto simp: nth)
  ultimately have "scheduler_inv gpus ?s" using inv by (auto simp: scheduler_inv_def nodes_inv_def used_gpus_def instances_inv_def)
  then show ?thesis using True by (simp add: cancel_allocation_def)
qed (use inv in \<open>auto simp: cancel_allocation_def\<close>)

lemma deallocate_inv:
  assumes inv: "scheduler_inv gpus s" and g: "\<And>m. 0 \<le> gpus m"
  shows "scheduler_inv gpus (deallocate_resource m i (gpus m) s)"
proof (cases "\<exists>n insts. map_of (model_instance s) m = Some insts \<and> map_of insts i = Some n")
  case True
  then obtain n insts where h: "map_of (model_instance s) m = Some insts" "map_of insts i = Some n" by blast
  define s1 where "s1 = s\<lparr> model_instance := AList.update m (AList.delete i insts) (model_instance s) \<rparr>"
  have mem: "(m, i) \<in> held_on n s" using h by (simp add: held_on_def)
  then obtain info where info: "map_of (worker_nodes s) n = Some info"
    using inv by (cases "map_of (worker_nodes s) n") (auto simp: scheduler_inv_def nodes_inv_def)
  have held: "held_on k s1 = (if k = n then held_on n s - {(m, i)} else held_on k s)" for k
    using h by (auto simp: held_on_def s1_def update_conv' delete_conv' split: if_splits)
  have granted: "granted_on k s1 = granted_on k s" for k by (simp add: granted_on_def s1_def)
  have used: "used_gpus gpus k s1 = used_gpus gpus k s - (if k = n then gpus m else 0)" for k
    using mem by (simp add: used_gpus_def held granted sum_diff1)
  have d: "deallocate_resource m i (gpus m) s = add_free_gpu (gpus m) n s1"
    using h info by (simp add: deallocate_resource_def s1_def)
  have s1: "worker_nodes s1 = worker_nodes s" "waiting s1 = waiting s" "futures s1 = futures s" "model_loading_queues s1 = model_loading_queues s"
    by (simp_all add: s1_def)
  have qs: "queue_of s1 k = queue_of s k" for k by (simp add: queue_of_def s1)
  have "distinct (map fst (worker_nodes (add_free_gpu (gpus m) n s1)))"
    using inv by (simp add: add_free_gpu_def s1 distinct_map_entry scheduler_inv_def nodes_inv_def)
  then have "nodes_inv gpus (add_free_gpu (gpus m) n s1)"
    using inv info g [of m] unfolding scheduler_inv_def nodes_inv_def add_free_gpu_simps used held granted s1 by auto
  moreover have "queues_inv gpus (add_free_gpu (gpus m) n s1)"
    using inv unfolding scheduler_inv_def queues_inv_def add_free_gpu_simps qs s1 by blast
  moreover have "instances_inv (add_free_gpu (gpus m) n s1)"
    using inv unfolding scheduler_inv_def instances_inv_def add_free_gpu_simps held s1 by auto
  ultimately show ?thesis unfolding d by (simp add: scheduler_inv_def)
next
  case False
  then have "deallocate_resource m i (gpus m) s = s" by (auto simp: deallocate_resource_def split: option.split)
  then show ?thesis using inv by simp
qed

section \<open>The scheduler as a state machine\<close>

text \<open>
  The atomic steps of the scheduler's event loop, in any order. Clients ask for and return the
  number of GPUs of the model and never reuse an instance id while it is in use (the routers
  draw a fresh one per instance); the cluster manager reports no negative resources.
\<close>

inductive scheduler_step :: "(string \<Rightarrow> rat) \<Rightarrow> fcfs \<Rightarrow> fcfs \<Rightarrow> bool" for gpus where
  step_start: "scheduler_step gpus s (start_scheduler s)"
| step_shutdown: "scheduler_step gpus s (shutdown_scheduler s)"
| step_allocate: "(\<And>n. (m, i) \<notin> held_on n s) \<Longrightarrow> (\<And>f. map_of (waiting s) f \<noteq> Some (m, i)) \<Longrightarrow>
    scheduler_step gpus s (allocate_resource m i (gpus m) now s)"
| step_control: "running s \<Longrightarrow> cluster_ok ray_nodes \<Longrightarrow> control_iteration ray_nodes s = Inr s' \<Longrightarrow> scheduler_step gpus s s'"
| step_resume: "scheduler_step gpus s (resume_allocation f s)"
| step_cancel: "scheduler_step gpus s (cancel_allocation f s)"
| step_deallocate: "scheduler_step gpus s (deallocate_resource m i (gpus m) s)"

inductive_cases scheduler_stepE: "scheduler_step gpus s s'"

lemma control_iteration_fails:
  assumes "get_worker_nodes ray_nodes = Inl e" "control_iteration ray_nodes s = Inr s'"
  shows "s' = s"
  using assms by (auto simp: control_iteration_def refresh_worker_nodes_def Let_def split: if_splits)

lemma scheduler_step_inv:
  assumes "scheduler_step gpus s s'" and "scheduler_inv gpus s" and g: "\<And>m. 0 \<le> gpus m"
  shows "scheduler_inv gpus s'"
  using assms(1)
proof cases
  case (step_control ray_nodes)
  show ?thesis
  proof (cases "get_worker_nodes ray_nodes")
    case (Inl e)
    then show ?thesis using control_iteration_fails [OF Inl step_control(3)] assms(2) by simp
  next
    case (Inr nodes)
    from control_iteration_ok [OF assms(2) g Inr step_control(2)] step_control(3) show ?thesis by auto
  qed
qed (use assms(2) g in \<open>simp_all add: start_inv shutdown_inv allocate_inv resume_inv cancel_inv deallocate_inv\<close>)

definition scheduler_reachable :: "(string \<Rightarrow> rat) \<Rightarrow> fcfs \<Rightarrow> bool" where
  "scheduler_reachable gpus s \<longleftrightarrow> (scheduler_step gpus)\<^sup>*\<^sup>* init_scheduler s"

lemma init_scheduler_inv: "scheduler_inv gpus init_scheduler"
  by (simp add: init_scheduler_def scheduler_inv_def nodes_inv_def queues_inv_def instances_inv_def held_on_def granted_on_def queue_of_def)

lemma reachable_inv:
  assumes "scheduler_reachable gpus s" and "\<And>m. 0 \<le> gpus m"
  shows "scheduler_inv gpus s"
  using assms(1) unfolding scheduler_reachable_def
  by (induction rule: rtranclp_induct) (auto simp: init_scheduler_inv intro: scheduler_step_inv assms(2))

section \<open>Properties\<close>

text \<open>
  C6. GPUs are never over-committed and never lost. In every reachable state, whatever the
  interleaving of requests, grants, cancellations, releases and restarts, the free GPUs of every
  node are non-negative, and together with those of the instances running there and of the
  granted requests that have not resumed yet they are the GPUs of the node.
\<close>

theorem scheduler_no_overcommit:
  assumes "scheduler_reachable gpus s" and "\<forall>m. 0 \<le> gpus m" and "map_of (worker_nodes s) n = Some info"
  shows "0 \<le> free_gpu info \<and> free_gpu info + used_gpus gpus n s = total_gpu info"
  using reachable_inv [OF assms(1)] assms(2,3) by (auto simp: scheduler_inv_def nodes_inv_def)

text \<open>
  C29. The control loop is work-conserving. In every reachable state an iteration succeeds whenever
  the cluster can be listed, keeps the state reachable, only removes requests from the queues, and
  leaves no waiting request that any node could still take.
\<close>

theorem scheduler_work_conserving:
  assumes "scheduler_reachable gpus s" and "\<forall>m. 0 \<le> gpus m" and "running s"
    and "get_worker_nodes ray_nodes = Inr nodes" and "cluster_ok ray_nodes"
  shows "\<exists>s'. control_iteration ray_nodes s = Inr s' \<and> scheduler_reachable gpus s' \<and> (\<forall>m. queue_of s' m \<subseteq> queue_of s m)
     \<and> (\<forall>m. \<forall>r \<in> queue_of s' m. futures s' ! allocation_result r = Pending \<longrightarrow>
          (\<forall>n info. map_of (worker_nodes s') n = Some info \<longrightarrow> free_gpu info < num_gpus r))"
proof -
  have g: "\<And>m. 0 \<le> gpus m" using assms(2) by blast
  obtain s' where s': "control_iteration ray_nodes s = Inr s'" "\<forall>m. queue_of s' m \<subseteq> queue_of s m" "\<forall>m r. stuck s' m r"
    using control_iteration_ok [OF reachable_inv [OF assms(1) g] g assms(4,5)] by blast
  have "scheduler_reachable gpus s'"
    using assms(1) step_control [OF assms(3,5) s'(1), of gpus] unfolding scheduler_reachable_def by (rule rtranclp.rtrancl_into_rtrancl)
  then show ?thesis using s' unfolding stuck_def by blast
qed

section \<open>Witnesses and the order of service\<close>

definition demo_cluster :: "ray_node list" where
  "demo_cluster = [\<lparr> rn_node_id = Some ''r0'', rn_resources = [(''worker_id_0'', 1), (''GPU'', 2)], rn_address = Some ''10.0.0.1'' \<rparr>]"

definition demo_queued :: fcfs where
  "demo_queued = allocate_resource ''B'' ''b0'' 1 3 (allocate_resource ''A'' ''a1'' 1 2 (allocate_resource ''A'' ''a0'' 1 1 (start_scheduler init_scheduler)))"

lemma demo_reachable: "scheduler_reachable (\<lambda>_. 1) demo_queued"
proof -
  note step = rtranclp.rtrancl_into_rtrancl [where r = "scheduler_step (\<lambda>_. 1)" and a = init_scheduler]
  have "(scheduler_step (\<lambda>_. 1))\<^sup>*\<^sup>* init_scheduler (start_scheduler init_scheduler)" by (rule r_into_rtranclp) (rule step_start)
  then have "(scheduler_step (\<lambda>_. 1))\<^sup>*\<^sup>* init_scheduler (allocate_resource ''A'' ''a0'' 1 1 (start_scheduler init_scheduler))"
    by (rule step) (rule step_allocate [where gpus = "\<lambda>_. 1", simplified]; simp add: held_on_def start_scheduler_def init_scheduler_def)
  then have "(scheduler_step (\<lambda>_. 1))\<^sup>*\<^sup>* init_scheduler (allocate_resource ''A'' ''a1'' 1 2 (allocate_resource ''A'' ''a0'' 1 1 (start_scheduler init_scheduler)))"
    by (rule step) (rule step_allocate [where gpus = "\<lambda>_. 1", simplified]; simp add: held_on_def start_scheduler_def init_scheduler_def allocate_resource_def)
  then have "(scheduler_step (\<lambda>_. 1))\<^sup>*\<^sup>* init_scheduler demo_queued" unfolding demo_queued_def
    by (rule step) (rule step_allocate [where gpus = "\<lambda>_. 1", simplified]; simp add: held_on_def start_scheduler_def init_scheduler_def allocate_resource_def)
  then show ?thesis by (simp add: scheduler_reachable_def)
qed

definition demo_worker :: worker_node where
  "demo_worker = \<lparr> ray_node_id = ''r0'', address = ''10.0.0.1'', free_gpu = 2, total_gpu = 2, store_port = sllm_store_base_port \<rparr>"

lemma demo_nodes: "get_worker_nodes demo_cluster = Inr [(''0'', demo_worker)]"
  by code_simp

lemma demo_control:
  "(case control_iteration demo_cluster demo_queued of Inl _ \<Rightarrow> None
    | Inr s' \<Rightarrow> Some (futures s', map_option (map request_time) (map_of (model_loading_queues s') ''A''), worker_nodes s'))
   = Some ([Granted ''0'', Pending, Granted ''0''], Some [2], [(''0'', demo_worker\<lparr> free_gpu := 0 \<rparr>)])"
  by code_simp

lemma demo_controllable: "running demo_queued" "cluster_ok demo_cluster"
  by (simp_all add: demo_queued_def allocate_resource_def start_scheduler_def init_scheduler_def Let_def cluster_ok_def demo_cluster_def
      resource_or_def)

lemma control_reachable:
  "scheduler_reachable gpus s \<Longrightarrow> running s \<Longrightarrow> cluster_ok ray_nodes \<Longrightarrow> control_iteration ray_nodes s = Inr s' \<Longrightarrow> scheduler_reachable gpus s'"
  unfolding scheduler_reachable_def by (rule rtranclp.rtrancl_into_rtrancl) (auto intro: step_control)

theorem scheduler_no_overcommit_witness:
  "\<exists>s'. control_iteration demo_cluster demo_queued = Inr s' \<and> used_gpus (\<lambda>_. 1) ''0'' s' = 2"
proof -
  obtain s' where s': "control_iteration demo_cluster demo_queued = Inr s'" "map_of (worker_nodes s') ''0'' = Some (demo_worker\<lparr> free_gpu := 0 \<rparr>)"
    using demo_control by (cases "control_iteration demo_cluster demo_queued") auto
  have "scheduler_reachable (\<lambda>_. 1) s'" by (rule control_reachable [OF demo_reachable demo_controllable s'(1)])
  from scheduler_no_overcommit [OF this _ s'(2)] have "used_gpus (\<lambda>_. 1) ''0'' s' = 2" by (simp add: demo_worker_def)
  then show ?thesis using s'(1) by blast
qed

theorem scheduler_work_conserving_witness:
  "\<exists>s'. control_iteration demo_cluster demo_queued = Inr s' \<and> scheduler_reachable (\<lambda>_. 1) s'"
  using scheduler_work_conserving [OF demo_reachable _ demo_controllable(1) demo_nodes demo_controllable(2)] by auto

text \<open>
  Service is not first come, first served across models. Three requests for one GPU each arrive
  at times 1, 2 and 3, the first two for one model, on a node with two GPUs: the control loop
  grants the first and the last and leaves the second waiting, because requests are sorted by
  their position in their model's queue and not by their arrival time.
\<close>

lemma fcfs_not_first_come:
  "\<exists>s'. control_iteration demo_cluster demo_queued = Inr s' \<and> futures s' = [Granted ''0'', Pending, Granted ''0'']
     \<and> map_option (map request_time) (map_of (model_loading_queues s') ''A'') = Some [2]"
  using demo_control by (cases "control_iteration demo_cluster demo_queued") auto

end
