(* ===== verification/Store_Manager.thy ===== *)
theory Store_Manager
  imports Py_Prelude
begin

text \<open>
  The checkpoint store of the serving system (\<open>src/sllm/serve/store_manager.py\<close>): per node a local
  store that registers models, queues loads into pinned host memory and runs a loading loop with
  LRU eviction, and the manager that registers models on every node. The store server itself
  (\<open>sllm_store\<close>) is reached through a client: the size it reports for a registered path and
  whether a load succeeded are arguments, as are the wall-clock times. The bodies of the lock
  regions are atomic; only the loading loop takes entries out of the queue.
\<close>

section \<open>The local store\<close>

record local_store =
  disk_models :: "(string \<times> string \<times> int) list"
  queued_models :: "string list"
  pinned_memory_pool :: "(string \<times> rat) list"
  chunk_size :: int
  pinned_memory_pool_chunks :: int
  pinned_memory_pool_usage :: int
  io_queue :: "(string \<times> rat) list"
  disk_bandwidth :: rat
  loader_running :: bool

definition init_local_store :: "int \<Rightarrow> int \<Rightarrow> rat option \<Rightarrow> local_store" where
  "init_local_store mem_pool_size chunk bandwidth =
     (let chunks = (if chunk = 0 then 0 else mem_pool_size div chunk) in
      \<lparr> disk_models = [], queued_models = [], pinned_memory_pool = [], chunk_size = chunk, pinned_memory_pool_chunks = chunks,
        pinned_memory_pool_usage = 0, io_queue = [], disk_bandwidth = (case bandwidth of None \<Rightarrow> 1 | Some b \<Rightarrow> b),
        loader_running = (0 < chunks) \<rparr>)"

definition path_join :: "string \<Rightarrow> string \<Rightarrow> string" where
  "path_join a b = (if take 1 b = ''/'' then b else a @ ''/'' @ b)"

text \<open>
  The size the store server reports: of a checkpoint directory (\<open>None\<close>) or of the directory of one
  rank below it.
\<close>

type_synonym register_client = "string \<Rightarrow> nat option \<Rightarrow> int"

definition registered_size :: "register_client \<Rightarrow> string \<Rightarrow> string \<Rightarrow> nat \<Rightarrow> int result" where
  "registered_size client backend model_path tensor_parallel_size =
     (if backend = ''transformers'' then Inr (client model_path None)
      else if backend = ''vllm'' \<or> backend = ''criu'' then Inr (\<Sum>rank \<leftarrow> [0..<tensor_parallel_size]. client model_path (Some rank))
      else Inl UnboundLocalError)"

definition register_model ::
  "register_client \<Rightarrow> string \<Rightarrow> string \<Rightarrow> nat \<Rightarrow> local_store \<Rightarrow> (local_store \<times> int option) result" where
  "register_model client model_name backend tensor_parallel_size s =
     (if map_of (disk_models s) model_name \<noteq> None then Inr (s, None)
      else let model_path = path_join backend model_name in
        r_bind (registered_size client backend model_path tensor_parallel_size) (\<lambda>model_size.
          Inr (s\<lparr> disk_models := AList.update model_name (model_path, model_size) (disk_models s) \<rparr>, Some model_size)))"

definition store_waiting_time :: "rat \<Rightarrow> local_store \<Rightarrow> rat" where
  "store_waiting_time now s = (if io_queue s = [] then 0 else max 0 (snd (last (io_queue s)) - now))"

definition get_store_info :: "rat \<Rightarrow> local_store \<Rightarrow> (string \<times> string \<times> int) list \<times> (string \<times> rat) list \<times> rat" where
  "get_store_info now s = (disk_models s, pinned_memory_pool s, store_waiting_time now s)"

definition load_to_host :: "rat \<Rightarrow> string \<Rightarrow> local_store \<Rightarrow> (local_store \<times> bool) result" where
  "load_to_host now model_name s =
     (case map_of (disk_models s) model_name of None \<Rightarrow> Inr (s, False)
      | Some (_, model_size) \<Rightarrow>
        if map_of (pinned_memory_pool s) model_name \<noteq> None then Inr (s, True)
        else if model_name \<in> set (queued_models s) then Inr (s, True)
        else
          let start_time = (if io_queue s = [] then now else max (snd (last (io_queue s))) now) in
          r_bind (py_div (of_int model_size) (disk_bandwidth s)) (\<lambda>t.
            Inr (s\<lparr> io_queue := io_queue s @ [(model_name, start_time + t)], queued_models := queued_models s @ [model_name] \<rparr>, True)))"

section \<open>Eviction and the loading loop\<close>

text \<open>
  One pass of the eviction loop per model in order of use. After a model has been unloaded, the
  computation of its chunks adds the pair stored for the model to a number and raises.
\<close>

fun evict_models :: "int \<Rightarrow> string list \<Rightarrow> local_store \<Rightarrow> local_store \<times> unit result" where
  "evict_models required [] s = (s, Inr ())"
| "evict_models required (m # ms) s =
     (if pinned_memory_pool_usage s + required > pinned_memory_pool_chunks s
      then if m \<in> set (queued_models s) then evict_models required ms s
           else case map_of (disk_models s) m of None \<Rightarrow> (s, Inl KeyError)
             | Some _ \<Rightarrow> (s\<lparr> pinned_memory_pool := AList.delete m (pinned_memory_pool s) \<rparr>, Inl TypeError)
      else (s, Inr ()))"

definition required_chunks :: "int \<Rightarrow> local_store \<Rightarrow> int" where
  "required_chunks model_size s = (model_size + chunk_size s - 1) div chunk_size s"

definition lru_eviction :: "int \<Rightarrow> local_store \<Rightarrow> local_store \<times> bool result" where
  "lru_eviction model_size s =
     (if chunk_size s = 0 then (s, Inl ZeroDivisionError)
      else let required = required_chunks model_size s in
        case evict_models required (map fst (sort_key snd (pinned_memory_pool s))) s of
          (s', r) \<Rightarrow> (s', r_bind r (\<lambda>_. Inr (pinned_memory_pool_usage s' + required \<le> pinned_memory_pool_chunks s'))))"

text \<open>
  An iteration of the loading loop; \<open>loaded\<close> is the answer of the store server. An exception ends
  the loop, and with it the loading of models on this node.
\<close>

definition loading_iteration :: "bool \<Rightarrow> rat \<Rightarrow> local_store \<Rightarrow> local_store" where
  "loading_iteration loaded now s =
     (case io_queue s of [] \<Rightarrow> s
      | (model_name, _) # rest \<Rightarrow>
        case map_of (disk_models s) model_name of None \<Rightarrow> s\<lparr> loader_running := False \<rparr>
        | Some (_, model_size) \<Rightarrow>
          case lru_eviction model_size s of
            (s', Inl _) \<Rightarrow> s'\<lparr> loader_running := False \<rparr>
          | (s', Inr can_load) \<Rightarrow>
            if \<not> can_load then s'
            else if model_name \<notin> set (queued_models s') then s'\<lparr> io_queue := rest, loader_running := False \<rparr>
            else let s2 = s'\<lparr> io_queue := rest, queued_models := remove1 model_name (queued_models s') \<rparr> in
              if loaded then s2\<lparr> pinned_memory_pool := AList.update model_name now (pinned_memory_pool s2) \<rparr> else s2)"

section \<open>The store manager\<close>

record store_manager =
  local_servers :: "(string \<times> local_store) list"
  model_info :: "(string \<times> int option) list"
  model_storage_info :: "(string \<times> (string \<times> bool) list) list"

definition sm_load_to_host :: "rat \<Rightarrow> string \<Rightarrow> string \<Rightarrow> store_manager \<Rightarrow> (store_manager \<times> bool) result" where
  "sm_load_to_host now node_id model_name sm =
     (case map_of (local_servers sm) node_id of None \<Rightarrow> Inr (sm, False)
      | Some server \<Rightarrow> r_bind (load_to_host now model_name server) (\<lambda>(server', ok).
          Inr (sm\<lparr> local_servers := AList.update node_id server' (local_servers sm) \<rparr>, ok)))"

definition sm_get_store_info ::
  "rat \<Rightarrow> store_manager \<Rightarrow> (string \<times> (string \<times> string \<times> int) list \<times> (string \<times> rat) list \<times> rat) list" where
  "sm_get_store_info now sm = map (\<lambda>(node_id, server). (node_id, get_store_info now server)) (local_servers sm)"

record store_config =
  sc_model :: string
  sc_backend :: "string option"
  sc_pretrained :: "string option"
  sc_has_model_class :: bool
  sc_tensor_parallel_size :: nat
  sc_memory_pool :: "string list option"

text \<open>A node seen for the first time gets a store with the settings of the first known one.\<close>

definition connect_node :: "store_manager \<Rightarrow> string \<Rightarrow> store_manager result" where
  "connect_node sm node_id =
     (if map_of (local_servers sm) node_id \<noteq> None then Inr sm
      else case local_servers sm of [] \<Rightarrow> Inl (ValueError ''Node not found'')
        | (_, first) # _ \<Rightarrow> Inr (sm\<lparr> local_servers := AList.update node_id
            (init_local_store 1 (chunk_size first) (Some (disk_bandwidth first))) (local_servers sm) \<rparr>))"

text \<open>
  The registration on one node: \<open>(state, backend, size)\<close>, where the size is unset before the first
  registration; \<open>None\<close> in place of the state stops the loop. Downloads are left to the nodes.
\<close>

definition note_storage :: "string \<Rightarrow> string \<Rightarrow> store_manager \<Rightarrow> store_manager" where
  "note_storage model_name node_id sm =
     sm\<lparr> model_storage_info := AList.update model_name
       (AList.update node_id True (case map_of (model_storage_info sm) model_name of None \<Rightarrow> [] | Some d \<Rightarrow> d)) (model_storage_info sm) \<rparr>"

definition register_on_node ::
  "rat \<Rightarrow> (string \<Rightarrow> register_client) \<Rightarrow> store_config \<Rightarrow> string list \<Rightarrow> string \<Rightarrow> store_manager \<times> string \<Rightarrow> ((store_manager \<times> string) \<times> int option) option result" where
  "register_on_node now clients cfg memory_pool node_id = (\<lambda>(sm, backend).
     if backend = ''transformers'' \<and> \<not> sc_has_model_class cfg then Inr None
     else if backend \<notin> {''transformers'', ''vllm'', ''criu'', ''mock''} then Inr None
     else
       let backend' = (if backend = ''transformers'' then backend else ''vllm'') in
       r_bind (dict_get (local_servers sm) node_id) (\<lambda>server.
       r_bind (register_model (clients node_id) (sc_model cfg) backend' (sc_tensor_parallel_size cfg) server) (\<lambda>(server', model_size).
       let sm1 = note_storage (sc_model cfg) node_id (sm\<lparr> local_servers := AList.update node_id server' (local_servers sm) \<rparr>) in
       if node_id \<in> set memory_pool
       then r_bind (case sc_pretrained cfg of None \<Rightarrow> Inr (sm1, False) | Some path \<Rightarrow> sm_load_to_host now node_id path sm1) (\<lambda>(sm2, _).
              Inr (Some ((sm2, backend'), model_size)))
       else Inr (Some ((sm1, backend'), model_size)))))"

fun register_on_nodes ::
  "rat \<Rightarrow> (string \<Rightarrow> register_client) \<Rightarrow> store_config \<Rightarrow> string list \<Rightarrow> string list \<Rightarrow> store_manager \<times> string \<Rightarrow> int option option \<Rightarrow>
   (store_manager \<times> int option option) result" where
  "register_on_nodes now clients cfg memory_pool [] (sm, backend) size_opt = Inr (sm, size_opt)"
| "register_on_nodes now clients cfg memory_pool (node_id # nodes) (sm, backend) size_opt =
     r_bind (register_on_node now clients cfg memory_pool node_id (sm, backend)) (\<lambda>r.
       case r of None \<Rightarrow> Inr (sm, size_opt)
       | Some (st, model_size) \<Rightarrow> register_on_nodes now clients cfg memory_pool nodes st (Some model_size))"

definition sm_register ::
  "rat \<Rightarrow> (string \<Rightarrow> register_client) \<Rightarrow> string list \<Rightarrow> store_config \<Rightarrow> store_manager \<Rightarrow> store_manager result" where
  "sm_register now clients worker_node_info cfg sm =
     (case sc_backend cfg of None \<Rightarrow> Inr sm
      | Some backend \<Rightarrow>
        if map_of (model_info sm) (sc_model cfg) \<noteq> None then Inr sm
        else
          let sm1 = sm\<lparr> model_storage_info := AList.update (sc_model cfg) [] (model_storage_info sm) \<rparr>;
              memory_pool = (case sc_memory_pool cfg of None \<Rightarrow> [] | Some ns \<Rightarrow> ns) in
          if worker_node_info = [] then Inl (AssertionError ''No worker nodes found'')
          else
            r_bind (r_foldl connect_node sm1 worker_node_info) (\<lambda>sm2.
              if \<not> set memory_pool \<subseteq> set worker_node_info then Inr sm2
              else r_bind (register_on_nodes now clients cfg memory_pool worker_node_info (sm2, backend) None) (\<lambda>(sm3, size_opt).
                case size_opt of None \<Rightarrow> Inl UnboundLocalError
                | Some model_size \<Rightarrow> Inr (sm3\<lparr> model_info := AList.update (sc_model cfg) model_size (model_info sm3) \<rparr>))))"

section \<open>The queue of loads\<close>

text \<open>The operations of a local store, in any order; sizes and the bandwidth are positive numbers.\<close>

inductive store_step :: "local_store \<Rightarrow> local_store \<Rightarrow> bool" where
  store_register: "(\<And>path rank. 0 \<le> client path rank) \<Longrightarrow> register_model client model_name backend tp s = Inr (s', r) \<Longrightarrow> store_step s s'"
| store_request: "load_to_host now model_name s = Inr (s', r) \<Longrightarrow> store_step s s'"
| store_iteration: "loader_running s \<Longrightarrow> store_step s (loading_iteration loaded now s)"

definition store_inv :: "local_store \<Rightarrow> bool" where
  "store_inv s \<longleftrightarrow> queued_models s = map fst (io_queue s) \<and> distinct (map fst (io_queue s)) \<and> sorted (map snd (io_queue s))
     \<and> fst ` set (io_queue s) \<subseteq> fst ` set (disk_models s) \<and> fst ` set (pinned_memory_pool s) \<subseteq> fst ` set (disk_models s)
     \<and> fst ` set (io_queue s) \<inter> fst ` set (pinned_memory_pool s) = {}
     \<and> pinned_memory_pool_usage s = 0 \<and> 0 < disk_bandwidth s \<and> (\<forall>(m, path, bytes) \<in> set (disk_models s). 0 \<le> bytes)"

lemma init_store_inv: "0 < b \<Longrightarrow> store_inv (init_local_store n c (Some b))"
  by (simp add: init_local_store_def store_inv_def Let_def)

lemma registered_size_nonneg:
  "(\<And>path rank. 0 \<le> client path rank) \<Longrightarrow> registered_size client backend path tp = Inr n \<Longrightarrow> 0 \<le> n"
  using sum_list_nonneg_map [of "[0..<tp]" "\<lambda>rank. client path (Some rank)"]
  by (fastforce simp: registered_size_def split: if_splits)

lemma register_model_inv:
  assumes inv: "store_inv s" and c: "\<And>path rank. 0 \<le> client path rank" and run: "register_model client m backend tp s = Inr (s', r)"
  shows "store_inv s'"
proof (cases "map_of (disk_models s) m")
  case None
  obtain n where n: "registered_size client backend (path_join backend m) tp = Inr n"
      "s' = s\<lparr> disk_models := AList.update m (path_join backend m, n) (disk_models s) \<rparr>"
    using run None by (auto simp: register_model_def py_simps Let_def)
  have "\<forall>(m, path, bytes) \<in> set (AList.update m (path_join backend m, n) (disk_models s)). 0 \<le> bytes"
    using inv registered_size_nonneg [OF c n(1)] by (intro ball_update) (auto simp: store_inv_def)
  then show ?thesis using inv unfolding n(2) store_inv_def by (simp add: dom_update subset_insertI2)
qed (use run inv in \<open>auto simp: register_model_def\<close>)

lemma load_to_host_cases:
  assumes "load_to_host now m s = Inr (s', r)"
  obtains (same) "s' = s" | (queued) path bytes t where "map_of (disk_models s) m = Some (path, bytes)" "map_of (pinned_memory_pool s) m = None"
      "m \<notin> set (queued_models s)" "t = (if io_queue s = [] then now else max (snd (last (io_queue s))) now) + of_int bytes / disk_bandwidth s"
      "s' = s\<lparr> io_queue := io_queue s @ [(m, t)], queued_models := queued_models s @ [m] \<rparr>"
  using assms by (auto simp: load_to_host_def py_simps Let_def split: option.splits if_splits)

lemma load_to_host_inv:
  assumes inv: "store_inv s" and run: "load_to_host now m s = Inr (s', r)"
  shows "store_inv s'"
  using run
proof (cases rule: load_to_host_cases)
  case (queued path bytes t)
  have "(m, path, bytes) \<in> set (disk_models s)" using queued(1) by (rule map_of_SomeD)
  then have "0 \<le> bytes" using inv by (auto simp: store_inv_def)
  then have "0 \<le> of_int bytes / disk_bandwidth s" using inv by (simp add: store_inv_def)
  then have "t \<ge> snd (last (io_queue s))" if "io_queue s \<noteq> []" using that queued(4) by simp
  moreover have "x \<le> snd (last (io_queue s))" if "x \<in> snd ` set (io_queue s)" for x
  proof -
    have "sorted (map snd (io_queue s))" "x \<in> set (map snd (io_queue s))" using inv that by (simp_all add: store_inv_def)
    then show ?thesis using sorted_le_last [of "map snd (io_queue s)" x] by (cases "io_queue s") (auto simp: last_map)
  qed
  ultimately have "sorted (map snd (io_queue s) @ [t])" using inv by (force simp: store_inv_def sorted_append)
  moreover have "m \<notin> fst ` set (pinned_memory_pool s)" using queued(2) by (simp add: map_of_eq_None_iff)
  moreover have "m \<in> fst ` set (disk_models s)" using queued(1) by (force dest: map_of_SomeD)
  ultimately show ?thesis using inv queued(3) unfolding queued(5) store_inv_def by simp
qed (use inv in simp)

lemma evict_models_fits: "pinned_memory_pool_usage s + required \<le> pinned_memory_pool_chunks s \<Longrightarrow> evict_models required ms s = (s, Inr ())"
  by (cases ms) auto

text \<open>
  What eviction does in a consistent store, whose usage is always zero: nothing for a model that
  fits the whole pool, and an exception as soon as a pinned model would have to go.
\<close>

lemma lru_eviction_cases:
  assumes inv: "store_inv s" and c: "chunk_size s \<noteq> 0"
  obtains (fits) "required_chunks n s \<le> pinned_memory_pool_chunks s" "lru_eviction n s = (s, Inr True)"
  | (never) "pinned_memory_pool_chunks s < required_chunks n s" "pinned_memory_pool s = []" "lru_eviction n s = (s, Inr False)"
  | (raises) m where "pinned_memory_pool_chunks s < required_chunks n s" "m \<in> fst ` set (pinned_memory_pool s)"
      "lru_eviction n s = (s\<lparr> pinned_memory_pool := AList.delete m (pinned_memory_pool s) \<rparr>, Inl TypeError)"
proof -
  have u: "pinned_memory_pool_usage s = 0" using inv by (simp add: store_inv_def)
  consider "required_chunks n s \<le> pinned_memory_pool_chunks s"
    | "pinned_memory_pool_chunks s < required_chunks n s" "pinned_memory_pool s = []"
    | "pinned_memory_pool_chunks s < required_chunks n s" "pinned_memory_pool s \<noteq> []" by linarith
  then show thesis
  proof cases
    case 1
    then show thesis using fits c u evict_models_fits by (simp add: lru_eviction_def)
  next
    case 2
    then show thesis using never c u by (simp add: lru_eviction_def)
  next
    case 3
    obtain m t rest where sorted: "sort_key snd (pinned_memory_pool s) = (m, t) # rest"
      using 3(2) by (metis length_0_conv length_sort neq_Nil_conv surj_pair)
    then have "(m, t) \<in> set (pinned_memory_pool s)" by (metis list.set_intros(1) set_sort)
    then have m: "m \<in> fst ` set (pinned_memory_pool s)" by force
    then have "m \<notin> set (queued_models s)" "m \<in> fst ` set (disk_models s)" using inv unfolding store_inv_def by auto
    moreover obtain v where "map_of (disk_models s) m = Some v" using map_of_mem [OF calculation(2)] by blast
    ultimately have "lru_eviction n s = (s\<lparr> pinned_memory_pool := AList.delete m (pinned_memory_pool s) \<rparr>, Inl TypeError)"
      using 3(1) u c sorted by (simp add: lru_eviction_def)
    then show thesis using raises 3(1) m by blast
  qed
qed

lemma iteration_loads:
  assumes inv: "store_inv s" and c: "chunk_size s \<noteq> 0" and q: "io_queue s = (m, t) # rest" and m: "map_of (disk_models s) m = Some (path, n)"
    and fits: "required_chunks n s \<le> pinned_memory_pool_chunks s"
  shows "loading_iteration loaded now s = (let s' = s\<lparr> io_queue := rest, queued_models := map fst rest \<rparr> in
     if loaded then s'\<lparr> pinned_memory_pool := AList.update m now (pinned_memory_pool s') \<rparr> else s')"
  using inv c
proof (cases rule: lru_eviction_cases [where n = n])
  case fits
  have "queued_models s = m # map fst rest" using inv q by (simp add: store_inv_def)
  then show ?thesis using fits(2) q m by (simp add: loading_iteration_def)
qed (use fits in simp_all)

lemma loading_iteration_inv:
  assumes inv: "store_inv s"
  shows "store_inv (loading_iteration loaded now s)"
proof (cases "io_queue s")
  case Nil
  then show ?thesis using inv by (simp add: loading_iteration_def)
next
  case (Cons x rest)
  obtain m t where x: "x = (m, t)" by (cases x)
  have "m \<in> fst ` set (disk_models s)" using inv Cons x by (simp add: store_inv_def)
  then obtain path n where d: "map_of (disk_models s) m = Some (path, n)" using map_of_mem by (metis surj_pair)
  have dead: "store_inv (s\<lparr> loader_running := False \<rparr>)" using inv by (simp add: store_inv_def)
  show ?thesis
  proof (cases "chunk_size s = 0")
    case True
    then show ?thesis using dead Cons x d by (simp add: loading_iteration_def lru_eviction_def)
  next
    case False
    with inv show ?thesis
    proof (cases rule: lru_eviction_cases [where n = n])
      case fits
      have keys: "fst ` set (AList.update m now (pinned_memory_pool s)) = insert m (fst ` set (pinned_memory_pool s))" by (simp add: dom_update)
      show ?thesis unfolding iteration_loads [OF inv False Cons [unfolded x] d fits(1)]
        using inv Cons x by (auto simp: store_inv_def Let_def keys)
    next
      case never
      then show ?thesis using inv Cons x d by (simp add: loading_iteration_def)
    next
      case (raises k)
      have keys: "fst ` set (AList.delete k (pinned_memory_pool s)) = fst ` set (pinned_memory_pool s) - {k}" by (metis delete_keys list.set_map set_removeAll)
      have "store_inv (s\<lparr> pinned_memory_pool := AList.delete k (pinned_memory_pool s), loader_running := False \<rparr>)"
        using inv by (auto simp: store_inv_def keys)
      then show ?thesis using raises(3) Cons x d by (simp add: loading_iteration_def)
    qed
  qed
qed

lemma store_step_inv: "store_step s s' \<Longrightarrow> store_inv s \<Longrightarrow> store_inv s'"
  by (induction rule: store_step.induct) (auto intro: register_model_inv load_to_host_inv loading_iteration_inv)

definition store_reachable :: "local_store \<Rightarrow> bool" where
  "store_reachable s \<longleftrightarrow> (\<exists>n c b. 0 < b \<and> store_step\<^sup>*\<^sup>* (init_local_store n c (Some b)) s)"

lemma store_reachable_inv:
  assumes "store_reachable s" shows "store_inv s"
proof -
  obtain n c b where b: "0 < b" and run: "store_step\<^sup>*\<^sup>* (init_local_store n c (Some b)) s" using assms by (auto simp: store_reachable_def)
  from run show ?thesis by (induction rule: rtranclp_induct) (auto simp: init_store_inv [OF b] intro: store_step_inv)
qed

lemma store_reachable_step: "store_reachable s \<Longrightarrow> store_step s s' \<Longrightarrow> store_reachable s'"
  unfolding store_reachable_def by (blast intro: rtranclp.rtrancl_into_rtrancl)

lemma store_reachable_init: "0 < b \<Longrightarrow> store_reachable (init_local_store n c (Some b))"
  unfolding store_reachable_def by blast

section \<open>Properties\<close>

text \<open>
  C30. The queue of loads is consistent. In every reachable state of a local store the models marked
  as queued are exactly those in the queue, once each and in its order, none of them pinned
  already; completion estimates never decrease along the queue, so that the waiting time reported
  to the scheduler covers every queued load.
\<close>

theorem store_queue_consistent:
  assumes "store_reachable s"
  shows "queued_models s = map fst (io_queue s) \<and> distinct (queued_models s) \<and> sorted (map snd (io_queue s))
     \<and> set (queued_models s) \<inter> fst ` set (pinned_memory_pool s) = {}
     \<and> (\<forall>(m, t) \<in> set (io_queue s). t - now \<le> store_waiting_time now s)"
proof -
  have inv: "store_inv s" by (rule store_reachable_inv [OF assms])
  have "t \<le> snd (last (io_queue s))" if "(m, t) \<in> set (io_queue s)" for m t
  proof -
    have "t \<in> set (map snd (io_queue s))" using that by force
    then show ?thesis using sorted_le_last [of "map snd (io_queue s)" t] inv that by (cases "io_queue s") (auto simp: last_map store_inv_def)
  qed
  then have "t - now \<le> store_waiting_time now s" if "(m, t) \<in> set (io_queue s)" for m t
    using that by (fastforce simp: store_waiting_time_def)
  then show ?thesis using inv by (auto simp: store_inv_def)
qed


section \<open>A concrete store\<close>

text \<open>A pool of four chunks and two registered models of three chunks each.\<close>

definition demo_client :: register_client where
  "demo_client path rank = 6"

definition demo_register :: "string \<Rightarrow> local_store \<Rightarrow> local_store" where
  "demo_register m s = fst (projr (register_model demo_client m ''vllm'' 1 s))"

definition demo_store :: local_store where
  "demo_store = demo_register ''B'' (demo_register ''A'' (init_local_store 8 2 (Some 3)))"

definition demo_loading :: local_store where
  "demo_loading = fst (projr (load_to_host 1 ''B'' (fst (projr (load_to_host 0 ''A'' demo_store)))))"

lemma demo_loading_eq:
  "demo_loading = \<lparr> disk_models = [(''A'', ''vllm/A'', 6), (''B'', ''vllm/B'', 6)], queued_models = [''A'', ''B''], pinned_memory_pool = [],
     chunk_size = 2, pinned_memory_pool_chunks = 4, pinned_memory_pool_usage = 0, io_queue = [(''A'', 2), (''B'', 4)], disk_bandwidth = 3,
     loader_running = True \<rparr>"
  by code_simp

lemma demo_register_step: "isl (register_model demo_client m ''vllm'' 1 s) = False \<Longrightarrow> store_step s (demo_register m s)"
  unfolding demo_register_def
  by (rule store_register [where client = demo_client and model_name = m and backend = "''vllm''" and tp = 1
        and r = "snd (projr (register_model demo_client m ''vllm'' 1 s))"]) (simp_all add: demo_client_def sum.expand)

lemma demo_store_reachable: "store_reachable demo_store"
proof -
  have "store_reachable (init_local_store 8 2 (Some 3))" by (rule store_reachable_init) simp
  moreover have "store_step (init_local_store 8 2 (Some 3)) (demo_register ''A'' (init_local_store 8 2 (Some 3)))" by (rule demo_register_step) code_simp
  moreover have "store_step (demo_register ''A'' (init_local_store 8 2 (Some 3))) demo_store"
    unfolding demo_store_def by (rule demo_register_step) code_simp
  ultimately show ?thesis by (blast intro: store_reachable_step)
qed

lemma demo_load_step: "store_step demo_store (fst (projr (load_to_host 0 ''A'' demo_store)))"
  by (rule store_request [where now = 0 and model_name = "''A''" and r = True]) code_simp

lemma demo_loading_reachable: "store_reachable demo_loading"
proof -
  have "store_step (fst (projr (load_to_host 0 ''A'' demo_store))) demo_loading"
    by (rule store_request [where now = 1 and model_name = "''B''" and r = True]) code_simp
  then show ?thesis using demo_store_reachable demo_load_step by (blast intro: store_reachable_step)
qed

theorem store_queue_consistent_witness:
  "queued_models demo_loading = [''A'', ''B''] \<and> 4 - 1 \<le> store_waiting_time 1 demo_loading"
  using store_queue_consistent [OF demo_loading_reachable, of 1] by (auto simp: demo_loading_eq)


lemma demo_pinned:
  "loading_iteration True 6 (loading_iteration True 5 demo_loading) = demo_loading\<lparr> queued_models := [], io_queue := [],
     pinned_memory_pool := [(''A'', 5), (''B'', 6)] \<rparr>"
  by code_simp

text \<open>
  The pinned pool is over-committed. The usage counter is never increased, so two models of
  three chunks each are both loaded into a pool of four chunks, and nothing is evicted.
\<close>

lemma pool_overcommitted:
  "\<exists>s. store_reachable s \<and> pinned_memory_pool_chunks s = 4 \<and> map fst (pinned_memory_pool s) = [''A'', ''B'']
     \<and> (\<Sum>m \<leftarrow> map fst (pinned_memory_pool s). required_chunks (snd (the (map_of (disk_models s) m))) s) = 6 \<and> pinned_memory_pool_usage s = 0"
proof -
  let ?s = "loading_iteration True 6 (loading_iteration True 5 demo_loading)"
  have r: "loader_running demo_loading" "loader_running (loading_iteration True 5 demo_loading)" by code_simp+
  have "store_reachable ?s"
    by (rule store_reachable_step [OF store_reachable_step [OF demo_loading_reachable store_iteration [OF r(1)]] store_iteration [OF r(2)]])
  then show ?thesis by (rule exI [where x = ?s, OF conjI]) (unfold demo_pinned, simp add: demo_loading_eq required_chunks_def)
qed


text \<open>A pinned model, and a queued one of twenty bytes.\<close>

definition demo_oversize :: local_store where
  "demo_oversize =
     (let s1 = fst (projr (load_to_host 0 ''A'' demo_store)); s2 = loading_iteration True 5 s1;
          s3 = fst (projr (register_model (\<lambda>_ _. 20) ''C'' ''vllm'' 1 s2)) in fst (projr (load_to_host 6 ''C'' s3)))"

lemma demo_oversize_reachable: "store_reachable demo_oversize"
proof -
  define s1 where "s1 = fst (projr (load_to_host 0 ''A'' demo_store))"
  define s2 where "s2 = loading_iteration True 5 s1"
  define s3 where "s3 = fst (projr (register_model (\<lambda>_ _. 20) ''C'' ''vllm'' 1 s2))"
  note defs = s1_def s2_def s3_def
  have "store_step demo_store s1" unfolding s1_def by (rule demo_load_step)
  moreover have "store_step s1 s2" unfolding s2_def by (rule store_iteration) (unfold s1_def, code_simp)
  moreover have "store_step s2 s3" unfolding s3_def
    by (rule store_register [where client = "\<lambda>_ _. 20" and model_name = "''C''" and backend = "''vllm''" and tp = 1 and r = "Some 20"])
      (simp, unfold s2_def s1_def, code_simp)
  moreover have "store_step s3 demo_oversize"
    by (rule store_request [where now = 6 and model_name = "''C''" and r = True]) (unfold demo_oversize_def Let_def defs, code_simp)
  ultimately show ?thesis using demo_store_reachable by (blast intro: store_reachable_step)
qed

lemma demo_oversize_eq:
  "demo_oversize = \<lparr> disk_models = [(''A'', ''vllm/A'', 6), (''B'', ''vllm/B'', 6), (''C'', ''vllm/C'', 20)], queued_models = [''C''],
     pinned_memory_pool = [(''A'', 5)], chunk_size = 2, pinned_memory_pool_chunks = 4, pinned_memory_pool_usage = 0,
     io_queue = [(''C'', 38 / 3)], disk_bandwidth = 3, loader_running = True \<rparr>"
  by code_simp


end
