(* ===== verification/Reuse_Scheduler.thy ===== *)
theory Reuse_Scheduler
  imports Fcfs_Scheduler Store_Manager
begin

text \<open>
  The reuse-aware scheduler (\<open>src/sllm/serve/schedulers/reuse_aware_scheduler.py\<close>), which the
  controller starts when storage awareness is enabled. It shares the state and the allocation
  operations of the first-come-first-served scheduler; its control loop orders requests by arrival
  and sends each to the node with room on which the model is ready soonest. The answers of the
  store manager are arguments. The unused policies of the class are not modelled.
\<close>

section \<open>The policy\<close>

record hardware =
  hw_disk_bandwidth :: rat
  hw_pcie_bandwidth :: rat

type_synonym store_info = "(string \<times> (string \<times> string \<times> int) list \<times> (string \<times> rat) list \<times> rat) list"

record store_answers =
  sa_store_info :: store_info
  sa_hardware :: "(string \<times> hardware) list"
  sa_to_load_size :: "string \<Rightarrow> (string \<times> int) list"

definition reuse_loading_time :: "int \<Rightarrow> hardware \<Rightarrow> rat result" where
  "reuse_loading_time model_size hw = py_div (of_int model_size) (hw_pcie_bandwidth hw)"

definition reuse_option :: "store_answers \<Rightarrow> string \<Rightarrow> rat \<Rightarrow> string \<times> worker_node \<Rightarrow> (string \<times> rat) option result" where
  "reuse_option ans model_name gpus = (\<lambda>(node_id, node_info).
     case map_of (sa_store_info ans) node_id of None \<Rightarrow> Inr None
     | Some (node_store_info, _, _) \<Rightarrow>
       if free_gpu node_info < gpus then Inr None
       else if map_of node_store_info model_name = None then Inr None
       else r_bind (dict_get (sa_to_load_size ans model_name) node_id) (\<lambda>to_load_size.
         if to_load_size = - 1 then Inr None
         else r_bind (dict_get (sa_hardware ans) node_id) (\<lambda>hw.
              r_bind (reuse_loading_time to_load_size hw) (\<lambda>latency. Inr (Some (node_id, latency))))))"

definition reuse_options :: "store_answers \<Rightarrow> string \<Rightarrow> rat \<Rightarrow> (string \<times> worker_node) list \<Rightarrow> (string \<times> rat) list result" where
  "reuse_options ans model_name gpus nodes =
     r_bind (r_map (reuse_option ans model_name gpus) nodes) (\<lambda>opts. Inr (map the (filter (\<lambda>x. x \<noteq> None) opts)))"

text \<open>One request: the indices to remove are collected per model.\<close>

definition reuse_request ::
  "store_answers \<Rightarrow> fcfs \<times> (string \<times> nat list) list \<Rightarrow> string \<times> nat \<times> load_request \<Rightarrow> (fcfs \<times> (string \<times> nat list) list) result" where
  "reuse_request ans = (\<lambda>(s, to_remove) (model_name, idx, r).
     r_bind (reuse_options ans model_name (num_gpus r) (worker_nodes s)) (\<lambda>options.
       if options = [] then if worker_nodes s = [] then Inl UnboundLocalError else Inr (s, to_remove)
       else if futures s ! allocation_result r \<noteq> Pending then Inl InvalidStateError
       else let node_id = fst (arg_min_list snd options) in
         Inr (add_free_gpu (- num_gpus r) node_id (s\<lparr> futures := (futures s)[allocation_result r := Granted node_id] \<rparr>),
              AList.update model_name ((case map_of to_remove model_name of None \<Rightarrow> [] | Some is \<Rightarrow> is) @ [idx]) to_remove)))"

section \<open>Removing the granted requests\<close>

definition list_pop :: "'a list \<Rightarrow> nat \<Rightarrow> 'a list result" where
  "list_pop xs idx = (if idx < length xs then Inr (take idx xs @ drop (Suc idx) xs) else Inl (IndexError ''pop index out of range''))"

definition remove_requests :: "fcfs \<Rightarrow> string \<times> nat list \<Rightarrow> fcfs result" where
  "remove_requests s = (\<lambda>(model_name, indices).
     r_bind (dict_get (model_loading_queues s) model_name) (\<lambda>queue.
     r_bind (r_foldl list_pop queue (rev (sort indices))) (\<lambda>queue'.
       Inr (s\<lparr> model_loading_queues := AList.update model_name queue' (model_loading_queues s) \<rparr>))))"

definition reuse_iteration :: "ray_node list \<Rightarrow> store_answers \<Rightarrow> fcfs \<Rightarrow> fcfs result" where
  "reuse_iteration ray_nodes ans s =
     (let requests = loading_requests (model_loading_queues s) in
      if requests = [] then Inr s
      else
        r_bind (refresh_worker_nodes ray_nodes s) (\<lambda>s1.
        r_bind (r_foldl (reuse_request ans) (s1, []) (sort_key (\<lambda>(_, _, r). request_time r) requests)) (\<lambda>(s2, to_remove).
          r_foldl remove_requests (update_worker_nodes (worker_nodes s2) s2) to_remove)))"

lemma list_pop_Inr [py_simps]: "list_pop xs d = Inr ys \<longleftrightarrow> d < length xs \<and> ys = take d xs @ drop (Suc d) xs"
  by (auto simp: list_pop_def)

lemma list_pop_append: "r_foldl list_pop xs ds = Inr zs \<Longrightarrow> r_foldl list_pop (xs @ [x]) ds = Inr (zs @ [x])"
proof (induction ds arbitrary: xs)
  case (Cons d ds)
  then have d: "d < length xs" "r_foldl list_pop (take d xs @ drop (Suc d) xs) ds = Inr zs" by (auto simp: py_simps)
  then have "list_pop (xs @ [x]) d = Inr ((take d xs @ drop (Suc d) xs) @ [x])" by (simp add: py_simps)
  then show ?case using Cons.IH [OF d(2)] by simp
qed simp

text \<open>Popping indices from the back removes exactly the elements they named at the start.\<close>

lemma pop_descending:
  "sorted_wrt (>) ds \<Longrightarrow> set ds = {i. i < length xs \<and> \<not> P (xs ! i)} \<Longrightarrow> r_foldl list_pop xs ds = Inr (filter P xs)"
proof (induction xs arbitrary: ds rule: rev_induct)
  case Nil
  then show ?case by simp
next
  case (snoc x xs)
  show ?case
  proof (cases "P x")
    case True
    have "set ds = {i. i < length xs \<and> \<not> P (xs ! i)}" unfolding snoc.prems(2) using True by (auto simp: nth_append less_Suc_eq)
    from list_pop_append [OF snoc.IH [OF snoc.prems(1) this]] show ?thesis using True by simp
  next
    case False
    have mem: "length xs \<in> set ds" unfolding snoc.prems(2) using False by simp
    have top: "i \<le> length xs" if "i \<in> set ds" for i using that unfolding snoc.prems(2) by auto
    obtain d ds' where ds: "ds = d # ds'" using mem by (cases ds) auto
    have d: "d = length xs" using mem top [of d] snoc.prems(1) unfolding ds by (auto dest: order.strict_implies_order)
    have "set ds' = set ds - {length xs}" using snoc.prems(1) unfolding ds d by auto
    then have "set ds' = {i. i < length xs \<and> \<not> P (xs ! i)}" unfolding snoc.prems(2) by (auto simp: nth_append less_Suc_eq)
    moreover have "sorted_wrt (>) ds'" using snoc.prems(1) by (simp add: ds)
    moreover have "list_pop (xs @ [x]) d = Inr xs" by (simp add: py_simps d)
    ultimately show ?thesis using snoc.IH [of ds'] False by (simp add: ds)
  qed
qed

lemma descending_sort: "distinct is \<Longrightarrow> sorted_wrt (>) (rev (sort is))" for "is" :: "nat list"
proof -
  assume "distinct is"
  then have "sorted_wrt (<) (sort is)" by (simp add: strict_sorted_iff)
  then show ?thesis by (simp add: sorted_wrt_rev)
qed

section \<open>The options of a request\<close>

definition answers_ok :: "store_answers \<Rightarrow> bool" where
  "answers_ok ans \<longleftrightarrow> (\<forall>n \<in> fst ` set (sa_store_info ans). (\<forall>m. n \<in> fst ` set (sa_to_load_size ans m))
     \<and> (\<exists>hw. map_of (sa_hardware ans) n = Some hw \<and> hw_pcie_bandwidth hw \<noteq> 0))"

lemma reuse_option_total:
  assumes ok: "answers_ok ans"
  shows "\<exists>x. reuse_option ans m g (n, info) = Inr x \<and> (\<forall>k t. x = Some (k, t) \<longrightarrow> k = n \<and> g \<le> free_gpu info)"
proof (cases "map_of (sa_store_info ans) n")
  case None
  then show ?thesis by (simp add: reuse_option_def)
next
  case (Some entry)
  obtain disk pinned w where e: "entry = (disk, pinned, w)" by (cases entry)
  have mem: "n \<in> fst ` set (sa_store_info ans)" using map_of_SomeD [OF Some] by force
  then have "n \<in> fst ` set (sa_to_load_size ans m)" using ok unfolding answers_ok_def by blast
  then obtain size where size: "map_of (sa_to_load_size ans m) n = Some size" using map_of_mem by metis
  obtain hw where hw: "map_of (sa_hardware ans) n = Some hw" "hw_pcie_bandwidth hw \<noteq> 0" using ok mem unfolding answers_ok_def by blast
  show ?thesis using Some size hw by (simp add: reuse_option_def e reuse_loading_time_def)
qed

lemma reuse_options_total:
  assumes ok: "answers_ok ans"
  shows "\<exists>opts. reuse_options ans m g nodes = Inr opts \<and> (\<forall>(n, t) \<in> set opts. \<exists>info. (n, info) \<in> set nodes \<and> g \<le> free_gpu info)
    \<and> (opts = [] \<longrightarrow> (\<forall>x \<in> set nodes. reuse_option ans m g x = Inr None))"
proof -
  have "\<exists>y. reuse_option ans m g x = Inr y" for x using reuse_option_total [OF ok, of m g "fst x" "snd x"] by auto
  then obtain xs where xs: "r_map (reuse_option ans m g) nodes = Inr xs" using r_map_exists by metis
  then have all: "list_all2 (\<lambda>x y. reuse_option ans m g x = Inr y) nodes xs" by (simp add: r_map_Inr_iff)
  have "\<exists>info. (n, info) \<in> set nodes \<and> g \<le> free_gpu info" if h: "Some (n, t) \<in> set xs" for n t
  proof -
    obtain i where i: "i < length xs" "xs ! i = Some (n, t)" using h by (auto simp: in_set_conv_nth)
    obtain k info where k: "nodes ! i = (k, info)" by (cases "nodes ! i")
    have "(k, info) \<in> set nodes" "reuse_option ans m g (k, info) = Inr (Some (n, t))"
      using list_all2_nthD2 [OF all i(1)] i list_all2_lengthD [OF all] k nth_mem [of i nodes] by simp_all
    then show ?thesis using reuse_option_total [OF ok, of m g k info] by auto
  qed
  moreover have "reuse_option ans m g x = Inr None" if h: "filter (\<lambda>x. x \<noteq> None) xs = []" "x \<in> set nodes" for x
  proof -
    obtain i where i: "i < length nodes" "nodes ! i = x" using h(2) by (auto simp: in_set_conv_nth)
    then have "xs ! i \<in> set xs" using list_all2_lengthD [OF all] by simp
    then have "xs ! i = None" using h(1) unfolding filter_empty_conv by blast
    then show ?thesis using list_all2_nthD [OF all i(1)] i(2) by simp
  qed
  ultimately show ?thesis using xs by (auto simp: reuse_options_def)
qed

lemma reuse_option_less:
  assumes "reuse_option ans m g (n, info) = Inr None" "free_gpu info' \<le> free_gpu info"
  shows "reuse_option ans m g (n, info') = Inr None"
  using assms by (auto simp: reuse_option_def py_simps split: option.splits if_splits)

section \<open>The control loop grants and removes the same requests\<close>

text \<open>The queues without the requests granted so far: what they will be once the indices are removed.\<close>

definition still_pending :: "fcfs \<Rightarrow> load_request \<Rightarrow> bool" where
  "still_pending s r \<longleftrightarrow> futures s ! allocation_result r = Pending"

definition pending_part :: "fcfs \<Rightarrow> fcfs" where
  "pending_part s = s\<lparr> model_loading_queues := map (\<lambda>(m, q). (m, filter (still_pending s) q)) (model_loading_queues s) \<rparr>"

lemma pending_part_simps [simp]:
  "futures (pending_part s) = futures s" "waiting (pending_part s) = waiting s" "worker_nodes (pending_part s) = worker_nodes s"
  "model_instance (pending_part s) = model_instance s" "running (pending_part s) = running s"
  "map_of (model_loading_queues (pending_part s)) m = map_option (filter (still_pending s)) (map_of (model_loading_queues s) m)"
  by (simp_all add: pending_part_def map_of_map_key)

lemma update_map:
  "distinct (map fst d) \<Longrightarrow> map_of d k = Some w \<Longrightarrow> AList.update k v d = map (\<lambda>(k', w). (k', if k' = k then v else w)) d"
proof (induction d)
  case (Cons x d)
  obtain k' w' where x: "x = (k', w')" by (cases x)
  show ?case
  proof (cases "k' = k")
    case True
    have "map (\<lambda>(k', w). (k', if k' = k then v else w)) d = d"
      by (rule map_idI) (use Cons.prems(1) x True in \<open>force\<close>)
    then show ?thesis using True x by simp
  qed (use Cons x in simp)
qed simp

text \<open>What the loop needs of the queues it started from.\<close>

definition queues_ok :: "nat \<Rightarrow> (string \<times> load_request list) list \<Rightarrow> bool" where
  "queues_ok n queues \<longleftrightarrow> distinct (map fst queues)
     \<and> (\<forall>m q. (m, q) \<in> set queues \<longrightarrow> distinct q \<and> (\<forall>r \<in> set q. allocation_result r < n))
     \<and> (\<forall>m q m' q' r r'. (m, q) \<in> set queues \<longrightarrow> (m', q') \<in> set queues \<longrightarrow> r \<in> set q \<longrightarrow> r' \<in> set q' \<longrightarrow>
          allocation_result r = allocation_result r' \<longrightarrow> m = m' \<and> r = r')"

lemma queues_okD:
  assumes "queues_ok n queues" "(m, q) \<in> set queues" "(m', q') \<in> set queues" "r \<in> set q" "r' \<in> set q'" "allocation_result r = allocation_result r'"
  shows "m = m' \<and> r = r'"
  using assms unfolding queues_ok_def by blast

lemma filter_remove_granted:
  assumes "distinct q" "r \<in> set q" "P r" "\<not> P' r" "\<And>x. x \<in> set q \<Longrightarrow> x \<noteq> r \<Longrightarrow> P' x = P x"
  shows "filter P' q = remove1 r (filter P q)"
  using assms
proof (induction q)
  case (Cons x q)
  show ?case
  proof (cases "x = r")
    case True
    then have "filter P' q = filter P q" using Cons.prems by (intro filter_cong) auto
    then show ?thesis using Cons.prems True by simp
  qed (use Cons in auto)
qed simp

lemma pending_part_grant:
  fixes n :: string
  assumes qs: "queues_ok (length (futures s)) (model_loading_queues s)" and q: "map_of (model_loading_queues s) m = Some q" "r \<in> set q"
    and p: "still_pending s r"
  defines "s' \<equiv> add_free_gpu (- num_gpus r) n (s\<lparr> futures := (futures s)[allocation_result r := Granted n] \<rparr>)"
  shows "pending_part s' = grant_request m r (filter (still_pending s) q) n (pending_part s)"
proof -
  have mem: "(m, q) \<in> set (model_loading_queues s)" using q(1) by (rule map_of_SomeD)
  have dist: "distinct (map fst (model_loading_queues s))" using qs by (simp add: queues_ok_def)
  have r: "distinct q" "allocation_result r < length (futures s)" using qs mem q(2) by (auto simp: queues_ok_def)
  have fut: "futures s' = (futures s)[allocation_result r := Granted n]" by (simp add: s'_def)
  have other: "still_pending s' x = still_pending s x" if "(m', q') \<in> set (model_loading_queues s)" "x \<in> set q'" "\<not> (x = r \<and> m' = m)" for m' q' x
  proof -
    have "allocation_result x = allocation_result r \<Longrightarrow> m' = m \<and> x = r" using queues_okD [OF qs that(1) mem that(2) q(2)] .
    then have "allocation_result x \<noteq> allocation_result r" using that(3) by blast
    then show ?thesis by (simp add: still_pending_def fut)
  qed
  have gone: "\<not> still_pending s' r" using r(2) by (simp add: still_pending_def fut)
  have mine: "filter (still_pending s') q = remove1 r (filter (still_pending s) q)"
    by (rule filter_remove_granted [where P = "still_pending s" and P' = "still_pending s'", OF r(1) q(2) p gone]) (use other [OF mem] in blast)
  have each: "filter (still_pending s') q' = (if m' = m then remove1 r (filter (still_pending s) q) else filter (still_pending s) q')"
    if "(m', q') \<in> set (model_loading_queues s)" for m' q'
  proof (cases "m' = m")
    case True
    then have "q' = q" using that mem dist by (metis eq_key_imp_eq_value)
    then show ?thesis using True mine by simp
  next
    case False
    then show ?thesis using other [OF that] by (auto intro: filter_cong)
  qed
  have "map (\<lambda>(m, q). (m, filter (still_pending s') q)) (model_loading_queues s)
      = AList.update m (remove1 r (filter (still_pending s) q)) (map (\<lambda>(m, q). (m, filter (still_pending s) q)) (model_loading_queues s))"
  proof -
    let ?d = "map (\<lambda>(m, q). (m, filter (still_pending s) q)) (model_loading_queues s)"
    have "distinct (map fst ?d)" using dist by (simp add: o_def split_def)
    moreover have "map_of ?d m = Some (filter (still_pending s) q)" using q(1) by (simp add: map_of_map_key)
    ultimately have "AList.update m (remove1 r (filter (still_pending s) q)) ?d
        = map (\<lambda>(k', w). (k', if k' = m then remove1 r (filter (still_pending s) q) else w)) ?d" by (rule update_map)
    then show ?thesis using each by (auto simp: o_def)
  qed
  then show ?thesis by (simp add: pending_part_def grant_request_def s'_def add_free_gpu_def)
qed

definition indices_of :: "(string \<times> nat list) list \<Rightarrow> string \<Rightarrow> nat list" where
  "indices_of to_remove m = (case map_of to_remove m of None \<Rightarrow> [] | Some is \<Rightarrow> is)"

definition reuse_inv :: "(string \<Rightarrow> rat) \<Rightarrow> (string \<times> load_request list) list \<Rightarrow> fcfs \<Rightarrow> (string \<times> nat list) list \<Rightarrow> bool" where
  "reuse_inv gpus queues s to_remove \<longleftrightarrow> model_loading_queues s = queues \<and> queues_ok (length (futures s)) queues
     \<and> scheduler_inv gpus (pending_part s) \<and> worker_nodes s \<noteq> []
     \<and> distinct (map fst to_remove) \<and> fst ` set to_remove \<subseteq> fst ` set queues
     \<and> (\<forall>m q. map_of queues m = Some q \<longrightarrow> distinct (indices_of to_remove m)
          \<and> set (indices_of to_remove m) = {i. i < length q \<and> \<not> still_pending s (q ! i)})"

definition no_option :: "store_answers \<Rightarrow> fcfs \<Rightarrow> string \<Rightarrow> load_request \<Rightarrow> bool" where
  "no_option ans s m r \<longleftrightarrow>
     (\<forall>n info. map_of (worker_nodes s) n = Some info \<longrightarrow> reuse_option ans m (num_gpus r) (n, info) = Inr None)"

lemma pending_nodes: "scheduler_inv gpus (pending_part s) \<Longrightarrow> distinct (map fst (worker_nodes s))"
  by (simp add: scheduler_inv_def nodes_inv_def)

lemma reuse_granted:
  assumes inv: "reuse_inv gpus queues s rem" and g: "\<And>m. 0 \<le> gpus m" and q: "map_of queues m = Some q" "idx < length q" "q ! idx = r"
    and p: "still_pending s r" and n: "map_of (worker_nodes s) n = Some info" "num_gpus r \<le> free_gpu info"
  defines "s' \<equiv> add_free_gpu (- num_gpus r) n (s\<lparr> futures := (futures s)[allocation_result r := Granted n] \<rparr>)"
  defines "rem' \<equiv> AList.update m (indices_of rem m @ [idx]) rem"
  shows "reuse_inv gpus queues s' rem'" and "\<And>r'. allocation_result r' \<noteq> allocation_result r \<Longrightarrow> still_pending s' r' = still_pending s r'"
    and "\<not> still_pending s' r" and "no_option ans s k r' \<Longrightarrow> no_option ans s' k r'"
proof -
  note I = inv [unfolded reuse_inv_def]
  have mq: "(m, q) \<in> set queues" "r \<in> set q" using q map_of_SomeD [OF q(1)] by auto
  have qs: "queues_ok (length (futures s)) (model_loading_queues s)" "map_of (model_loading_queues s) m = Some q" using I q(1) by auto
  have lt: "allocation_result r < length (futures s)" using qs(1) mq I unfolding queues_ok_def by blast
  have fut: "futures s' = (futures s)[allocation_result r := Granted n]" by (simp add: s'_def)
  show other: "still_pending s' r' = still_pending s r'" if "allocation_result r' \<noteq> allocation_result r" for r'
    using that by (simp add: still_pending_def fut)
  show gone: "\<not> still_pending s' r" using lt by (simp add: still_pending_def fut)
  have inv': "scheduler_inv gpus (grant_request m r (filter (still_pending s) q) n (pending_part s))" and num: "num_gpus r = gpus m"
    using grant_inv [of gpus "pending_part s" m "filter (still_pending s) q" r n info] I qs(2) mq p n
    by (simp_all add: still_pending_def)
  have eq: "pending_part s' = grant_request m r (filter (still_pending s) q) n (pending_part s)"
    unfolding s'_def by (rule pending_part_grant [OF qs mq(2) p])
  have iff: "still_pending s' (q' ! i) = (still_pending s (q' ! i) \<and> \<not> (m' = m \<and> i = idx))" if "map_of queues m' = Some q'" "i < length q'" for m' q' i
  proof (cases "m' = m \<and> i = idx")
    case True
    then show ?thesis using that q gone by auto
  next
    case False
    have mem': "(m', q') \<in> set queues" "q' ! i \<in> set q'" using that map_of_SomeD [OF that(1)] by auto
    have "allocation_result (q' ! i) \<noteq> allocation_result r"
    proof
      assume "allocation_result (q' ! i) = allocation_result r"
      then have same: "m' = m" "q' ! i = r" using queues_okD [OF qs(1), of m' q' m q "q' ! i" r] mem' mq I by auto
      have "distinct q" using qs(1) mq(1) I unfolding queues_ok_def by blast
      then show False using False same that q nth_eq_iff_index_eq [of q i idx] by auto
    qed
    then show ?thesis using other False by simp
  qed
  have idxs: "indices_of rem' k = (if k = m then indices_of rem m @ [idx] else indices_of rem k)" for k
    by (simp add: rem'_def indices_of_def update_conv')
  have new: "idx \<notin> set (indices_of rem m)" using I q p by auto
  have "distinct (indices_of rem' k) \<and> set (indices_of rem' k) = {i. i < length q' \<and> \<not> still_pending s' (q' ! i)}" if "map_of queues k = Some q'" for k q'
  proof -
    have base: "distinct (indices_of rem k)" "set (indices_of rem k) = {i. i < length q' \<and> \<not> still_pending s (q' ! i)}" using I that by blast+
    have "{i. i < length q' \<and> \<not> still_pending s' (q' ! i)} = {i. i < length q' \<and> \<not> still_pending s (q' ! i)} \<union> (if k = m then {idx} else {})"
      using iff [OF that] that q(1,2) by auto
    then show ?thesis using base new by (cases "k = m") (simp_all add: idxs)
  qed
  moreover have "distinct (map fst rem')" using I by (simp add: rem'_def distinct_update)
  moreover have "m \<in> fst ` set queues" using mq(1) by force
  then have "fst ` set rem' \<subseteq> fst ` set queues" using I by (simp add: rem'_def dom_update)
  moreover have "worker_nodes s' \<noteq> []" using n by (cases "worker_nodes s") (auto simp: s'_def add_free_gpu_def)
  moreover have "model_loading_queues s' = queues" "length (futures s') = length (futures s)" using I by (simp_all add: s'_def)
  ultimately show "reuse_inv gpus queues s' rem'" using I inv' unfolding reuse_inv_def eq by auto
  show "no_option ans s' k r'" if "no_option ans s k r'"
    unfolding no_option_def
  proof (intro allI impI)
    fix n' info' assume "map_of (worker_nodes s') n' = Some info'"
    then obtain info0 where "map_of (worker_nodes s) n' = Some info0" "free_gpu info' \<le> free_gpu info0"
      using g [of m] num by (auto simp: s'_def split: if_splits)
    then show "reuse_option ans k (num_gpus r') (n', info') = Inr None" using that reuse_option_less unfolding no_option_def by blast
  qed
qed

lemma reuse_request_step:
  assumes inv: "reuse_inv gpus queues s rem" and g: "\<And>m. 0 \<le> gpus m" and ok: "answers_ok ans"
    and q: "map_of queues m = Some q" "idx < length q" "q ! idx = r" and p: "still_pending s r"
  shows "\<exists>s' rem'. reuse_request ans (s, rem) (m, idx, r) = Inr (s', rem') \<and> reuse_inv gpus queues s' rem'
    \<and> (\<forall>r'. allocation_result r' \<noteq> allocation_result r \<longrightarrow> still_pending s' r' = still_pending s r')
    \<and> (still_pending s' r \<longrightarrow> no_option ans s' m r) \<and> (\<forall>k r'. no_option ans s k r' \<longrightarrow> no_option ans s' k r')"
proof -
  obtain opts where opts: "reuse_options ans m (num_gpus r) (worker_nodes s) = Inr opts"
      "\<forall>(n, t) \<in> set opts. \<exists>info. (n, info) \<in> set (worker_nodes s) \<and> num_gpus r \<le> free_gpu info"
      "opts = [] \<longrightarrow> (\<forall>x \<in> set (worker_nodes s). reuse_option ans m (num_gpus r) x = Inr None)"
    using reuse_options_total [OF ok] by blast
  show ?thesis
  proof (cases "opts = []")
    case True
    have "no_option ans s m r" using opts(3) True by (auto simp: no_option_def dest: map_of_SomeD)
    then show ?thesis using True opts(1) inv by (simp add: reuse_request_def reuse_inv_def)
  next
    case False
    obtain n t where n: "arg_min_list snd opts = (n, t)" by (cases "arg_min_list snd opts")
    then have "(n, t) \<in> set opts" using arg_min_list_mem [OF False, of snd] by simp
    then obtain info where "(n, info) \<in> set (worker_nodes s)" "num_gpus r \<le> free_gpu info" using opts(2) by auto
    then have info: "map_of (worker_nodes s) n = Some info" "num_gpus r \<le> free_gpu info"
      using inv pending_nodes unfolding reuse_inv_def by auto
    note granted = reuse_granted [OF inv g q p info]
    have "reuse_request ans (s, rem) (m, idx, r) = Inr (add_free_gpu (- num_gpus r) n (s\<lparr> futures := (futures s)[allocation_result r := Granted n] \<rparr>),
        AList.update m (indices_of rem m @ [idx]) rem)"
      using False opts(1) n p by (simp add: reuse_request_def still_pending_def indices_of_def)
    then show ?thesis using granted by blast
  qed
qed

lemma reuse_requests_run:
  assumes "reuse_inv gpus queues s rem" and g: "\<And>m. 0 \<le> gpus m" and ok: "answers_ok ans"
    and "\<forall>(m, idx, r) \<in> set xs. \<exists>q. map_of queues m = Some q \<and> idx < length q \<and> q ! idx = r \<and> still_pending s r"
    and "distinct (map (\<lambda>(_, _, r). allocation_result r) xs)"
  shows "\<exists>s' rem'. r_foldl (reuse_request ans) (s, rem) xs = Inr (s', rem') \<and> reuse_inv gpus queues s' rem'
    \<and> (\<forall>(m, idx, r) \<in> set xs. still_pending s' r \<longrightarrow> no_option ans s' m r) \<and> (\<forall>k r'. no_option ans s k r' \<longrightarrow> no_option ans s' k r')
    \<and> (\<forall>r'. allocation_result r' \<notin> (\<lambda>(_, _, r). allocation_result r) ` set xs \<longrightarrow> still_pending s' r' = still_pending s r')"
  using assms(1,4,5)
proof (induction xs arbitrary: s rem)
  case (Cons x xs)
  obtain m idx r where x: "x = (m, idx, r)" by (cases x)
  obtain q where q: "map_of queues m = Some q" "idx < length q" "q ! idx = r" "still_pending s r" using Cons.prems(2) x by auto
  obtain s1 rem1 where s1: "reuse_request ans (s, rem) x = Inr (s1, rem1)" "reuse_inv gpus queues s1 rem1"
      "\<forall>r'. allocation_result r' \<noteq> allocation_result r \<longrightarrow> still_pending s1 r' = still_pending s r'"
      "still_pending s1 r \<longrightarrow> no_option ans s1 m r" "\<forall>k r'. no_option ans s k r' \<longrightarrow> no_option ans s1 k r'"
    using reuse_request_step [OF Cons.prems(1) g ok q] x by blast
  have notin: "allocation_result r \<notin> (\<lambda>(_, _, r). allocation_result r) ` set xs" using Cons.prems(3) x by simp
  have "\<forall>(m, idx, r) \<in> set xs. \<exists>q. map_of queues m = Some q \<and> idx < length q \<and> q ! idx = r \<and> still_pending s1 r"
  proof (clarify)
    fix m' idx' r' assume mem: "(m', idx', r') \<in> set xs"
    then have "allocation_result r' \<noteq> allocation_result r" using notin by (metis (mono_tags, lifting) image_eqI split_conv)
    then show "\<exists>q. map_of queues m' = Some q \<and> idx' < length q \<and> q ! idx' = r' \<and> still_pending s1 r'"
      using Cons.prems(2) mem s1(3) by auto
  qed
  then obtain s' rem' where s': "r_foldl (reuse_request ans) (s1, rem1) xs = Inr (s', rem')" "reuse_inv gpus queues s' rem'"
      "\<forall>(m, idx, r) \<in> set xs. still_pending s' r \<longrightarrow> no_option ans s' m r" "\<forall>k r'. no_option ans s1 k r' \<longrightarrow> no_option ans s' k r'"
      "\<forall>r'. allocation_result r' \<notin> (\<lambda>(_, _, r). allocation_result r) ` set xs \<longrightarrow> still_pending s' r' = still_pending s1 r'"
    using Cons.IH [OF s1(2)] Cons.prems(3) by auto
  have "still_pending s' r \<longrightarrow> no_option ans s' m r" using s1(4) s'(4,5) notin by blast
  then show ?case using s1(1,3,5) s' x by auto
qed simp

lemma map_snd_zip_alloc: "map (\<lambda>p. allocation_result (snd p)) (zip [0..<length q] q) = map allocation_result q"
  by (rule nth_equalityI) auto

lemma queues_ok_subset: "queues_ok n queues \<Longrightarrow> set queues' \<subseteq> set queues \<Longrightarrow> distinct (map fst queues') \<Longrightarrow> queues_ok n queues'"
  unfolding queues_ok_def by blast

lemma loading_requests_alloc:
  assumes "queues_ok n queues"
  shows "distinct (map (\<lambda>(_, _, r). allocation_result r) (loading_requests queues))"
proof -
  have "map (\<lambda>(_, _, r). allocation_result r) (loading_requests queues) = concat (map (\<lambda>(m, q). map allocation_result q) queues)"
    by (induction queues) (auto simp: loading_requests_def o_def split_def map_snd_zip_alloc)
  moreover have "distinct (concat (map (\<lambda>(m, q). map allocation_result q) queues))"
    using assms
  proof (induction queues)
    case (Cons x queues)
    obtain m q where x: "x = (m, q)" by (cases x)
    have ok: "queues_ok n queues" using Cons.prems by (rule queues_ok_subset) (use Cons.prems in \<open>auto simp: queues_ok_def\<close>)
    have q: "distinct q" "m \<notin> fst ` set queues" using Cons.prems x by (auto simp: queues_ok_def)
    have "inj_on allocation_result (set q)"
      using queues_okD [OF Cons.prems, of m q m q] x by (auto simp: inj_on_def)
    moreover have "allocation_result ` set q \<inter> set (concat (map (\<lambda>(m, q). map allocation_result q) queues)) = {}"
    proof -
      have False if "(m', q') \<in> set queues" "r \<in> set q" "r' \<in> set q'" "allocation_result r = allocation_result r'" for m' q' r r'
        using queues_okD [OF Cons.prems, of m q m' q' r r'] that x q(2) by force
      then show ?thesis by fastforce
    qed
    ultimately show ?case using Cons.IH [OF ok] q(1) x by (simp add: distinct_map)
  qed simp
  ultimately show ?thesis by simp
qed

lemma refresh_nonempty:
  assumes "nodes \<noteq> []"
  shows "foldl (\<lambda>d (node_id, info). if map_of d node_id = None then AList.update node_id info d else d) d nodes \<noteq> []"
proof -
  obtain n info rest where nodes: "nodes = (n, info) # rest" using assms by (cases nodes) auto
  have "map_of (foldl (\<lambda>d (node_id, info). if map_of d node_id = None then AList.update node_id info d else d) d nodes) n \<noteq> None"
    unfolding refresh_map by (simp add: nodes split: option.split)
  then show ?thesis by auto
qed

lemma remove_requests_run:
  assumes "queues_ok n queues" and "distinct (map fst rem)" and "fst ` set rem \<subseteq> fst ` set queues"
    and "model_loading_queues s = map (\<lambda>(m, q). (m, if m \<in> done_set then filter P q else q)) queues"
    and "\<And>m is q. (m, is) \<in> set rem \<Longrightarrow> map_of queues m = Some q \<Longrightarrow> distinct is \<and> set is = {i. i < length q \<and> \<not> P (q ! i)}"
    and "done_set \<inter> fst ` set rem = {}"
  shows "r_foldl remove_requests s rem
    = Inr (s\<lparr> model_loading_queues := map (\<lambda>(m, q). (m, if m \<in> done_set \<union> fst ` set rem then filter P q else q)) queues \<rparr>)"
  using assms(2-)
proof (induction rem arbitrary: s done_set)
  case Nil
  then show ?case by simp
next
  case (Cons x rem)
  obtain m ids where x: "x = (m, ids)" by (cases x)
  have dist: "distinct (map fst queues)" using assms(1) by (simp add: queues_ok_def)
  have "m \<in> fst ` set queues" using Cons.prems(2) x by auto
  then obtain q where q: "map_of queues m = Some q" using map_of_mem by metis
  have out: "m \<notin> done_set" using Cons.prems(5) x by auto
  let ?d = "map (\<lambda>(m, q). (m, if m \<in> done_set then filter P q else q)) queues"
  let ?d' = "map (\<lambda>(m', q). (m', if m' \<in> insert m done_set then filter P q else q)) queues"
  have get: "map_of ?d m = Some q" using q out by (simp add: map_of_map_key)
  have "distinct ids" "set ids = {i. i < length q \<and> \<not> P (q ! i)}" using Cons.prems(4) [of m ids q] q x by auto
  then have pop: "r_foldl list_pop q (rev (sort ids)) = Inr (filter P q)" by (intro pop_descending descending_sort) simp_all
  have "AList.update m (filter P q) ?d = map (\<lambda>(k, w). (k, if k = m then filter P q else w)) ?d"
    by (rule update_map [OF _ get]) (use dist in \<open>simp add: o_def split_def\<close>)
  also have "\<dots> = ?d'"
    unfolding map_map
  proof (rule map_cong [OF refl])
    fix y assume "y \<in> set queues"
    moreover obtain k w where "y = (k, w)" by (cases y)
    ultimately have y: "y = (k, w)" "(k, w) \<in> set queues" by simp_all
    have "k = m \<Longrightarrow> w = q" using y(2) q dist by auto
    then show "((\<lambda>(k, w). (k, if k = m then filter P q else w)) \<circ> (\<lambda>(m, q). (m, if m \<in> done_set then filter P q else q))) y
        = (case y of (m', q) \<Rightarrow> (m', if m' \<in> insert m done_set then filter P q else q))" by (auto simp: y(1))
  qed
  finally have upd: "AList.update m (filter P q) ?d = ?d'" .
  have step: "remove_requests s x = Inr (s\<lparr> model_loading_queues := ?d' \<rparr>)"
    using get pop upd by (simp add: remove_requests_def x Cons.prems(3))
  have "r_foldl remove_requests (s\<lparr> model_loading_queues := ?d' \<rparr>) rem
    = Inr (s\<lparr> model_loading_queues := ?d' \<rparr>\<lparr> model_loading_queues := map (\<lambda>(k, q). (k, if k \<in> insert m done_set \<union> fst ` set rem then filter P q else q)) queues \<rparr>)"
    by (rule Cons.IH) (use Cons.prems x in \<open>auto\<close>)
  then show ?case using step x by simp
qed

text \<open>A round starts with nothing to remove, and ends by removing exactly the granted requests.\<close>

lemma reuse_inv_start:
  assumes "scheduler_inv gpus s" "model_loading_queues s = queues" "queues_ok (length (futures s)) queues" "worker_nodes s \<noteq> []"
    and all: "\<And>m q r. map_of queues m = Some q \<Longrightarrow> r \<in> set q \<Longrightarrow> still_pending s r"
  shows "reuse_inv gpus queues s []"
proof -
  have "map_of queues m = Some q" if "(m, q) \<in> set queues" for m q using assms(3) that by (simp add: queues_ok_def)
  then have "map (\<lambda>(m, q). (m, filter (still_pending s) q)) queues = queues"
    using all by (intro map_idI) (fastforce intro!: filter_True)
  then have "pending_part s = s" by (simp add: pending_part_def assms(2))
  then show ?thesis using assms by (auto simp: reuse_inv_def indices_of_def)
qed

lemma remove_granted:
  assumes inv: "reuse_inv gpus queues s rem"
  shows "r_foldl remove_requests s rem = Inr (pending_part s)"
proof -
  note I = inv [unfolded reuse_inv_def]
  have dist: "distinct (map fst queues)" and qok: "queues_ok (length (futures s)) queues" using I by (simp_all add: queues_ok_def)
  have idx: "distinct is \<and> set is = {i. i < length q \<and> \<not> still_pending s (q ! i)}" if "(m, is) \<in> set rem" "map_of queues m = Some q" for m "is" q
  proof -
    have "indices_of rem m = is" using that(1) I by (simp add: indices_of_def)
    then show ?thesis using I that(2) by blast
  qed
  have "r_foldl remove_requests s rem
      = Inr (s\<lparr> model_loading_queues := map (\<lambda>(m, q). (m, if m \<in> {} \<union> fst ` set rem then filter (still_pending s) q else q)) queues \<rparr>)"
    by (rule remove_requests_run [OF qok]) (use I idx in auto)
  moreover have "(if m \<in> fst ` set rem then filter (still_pending s) q else q) = filter (still_pending s) q" if "(m, q) \<in> set queues" for m q
  proof (cases "m \<in> fst ` set rem")
    case False
    then have "map_of rem m = None" by (simp add: map_of_eq_None_iff)
    then have "indices_of rem m = []" by (simp add: indices_of_def)
    moreover have "map_of queues m = Some q" using that dist by simp
    ultimately have "{i. i < length q \<and> \<not> still_pending s (q ! i)} = {}" using I by (metis list.set(1))
    then have "\<forall>r \<in> set q. still_pending s r" by (auto simp: in_set_conv_nth)
    then show ?thesis using False by simp
  qed simp
  then have "map (\<lambda>(m, q). (m, if m \<in> {} \<union> fst ` set rem then filter (still_pending s) q else q)) queues
      = map (\<lambda>(m, q). (m, filter (still_pending s) q)) queues" by (intro map_cong) auto
  ultimately show ?thesis using I by (simp add: pending_part_def)
qed


definition demo_answers :: store_answers where
  "demo_answers = \<lparr> sa_store_info = [(''0'', [(''A'', ''vllm/A'', 6), (''B'', ''vllm/B'', 6)], [], 0)],
     sa_hardware = [(''0'', \<lparr> hw_disk_bandwidth = 1, hw_pcie_bandwidth = 2 \<rparr>)], sa_to_load_size = (\<lambda>m. [(''0'', 6)]) \<rparr>"


text \<open>
  One cancelled request stops the reuse-aware scheduler. The control loop sets the result of
  every request it can place without asking whether its future is still waiting: with a cancelled
  request in the queue the iteration raises, and so does every later one.
\<close>

lemma cancelled_request_raises:
  "reuse_iteration demo_cluster demo_answers (cancel_allocation 1 demo_queued) = Inl InvalidStateError"
  by code_simp

end
