(* ===== verification/Storage_Scheduler.thy ===== *)
theory Storage_Scheduler
  imports Reuse_Scheduler "HOL-Library.Char_ord"
begin

text \<open>
  The storage-aware scheduler (\<open>src/sllm/serve/schedulers/storage_aware_scheduler.py\<close>): loading
  times from the state of the node stores, migration of running instances by dynamic programming
  over the GPUs to free, and the control loop that takes requests out of the queues by index. It
  inherits the state and the allocation operations of the first-come-first-served scheduler.
  Answers of the store manager and of the routers are arguments, and the control loop is modelled
  as if nothing else ran between them.
\<close>

section \<open>Loading times and migration targets\<close>

definition get_model_loading_time :: "string \<Rightarrow> int \<Rightarrow> hardware \<Rightarrow> rat \<Rightarrow> (string \<times> rat) list \<Rightarrow> rat result" where
  "get_model_loading_time model_name model_size hw node_waiting_time pinned_pool =
     (if map_of pinned_pool model_name = None
      then r_bind (py_div (of_int model_size) (hw_disk_bandwidth hw)) (\<lambda>t. Inr (node_waiting_time + t))
      else py_div (of_int model_size) (hw_pcie_bandwidth hw))"

record instance_status =
  is_instance_id :: string
  is_model_name :: string
  is_num_gpu :: nat
  is_resuming_latency :: rat

record cluster_view =
  cv_nodes :: "(string \<times> worker_node) list"
  cv_model_info :: "(string \<times> int) list"
  cv_hardware :: "(string \<times> hardware) list"

text \<open>
  \<open>store_info\<close> may be Python's \<open>None\<close>, and then subscripting it raises. The result is \<open>None\<close> when
  no node has room.
\<close>

definition migration_candidate ::
  "cluster_view \<Rightarrow> string \<Rightarrow> nat \<Rightarrow> string \<Rightarrow> store_info option \<Rightarrow> string \<times> worker_node \<Rightarrow> (string \<times> rat) option result" where
  "migration_candidate v model_name num_gpu source_node_id store = (\<lambda>(node_id, node_info).
     if node_id = source_node_id then Inr None
     else if free_gpu node_info < of_nat num_gpu then Inr None
     else
       r_bind (dict_get (cv_model_info v) model_name) (\<lambda>model_size.
       r_bind (dict_get (cv_hardware v) node_id) (\<lambda>hw.
       case store of None \<Rightarrow> Inl TypeError
       | Some info \<Rightarrow> r_bind (dict_get info node_id) (\<lambda>(_, pinned_pool, waiting_time).
           r_bind (get_model_loading_time model_name model_size hw waiting_time pinned_pool) (\<lambda>t. Inr (Some (node_id, t)))))))"

definition get_migration_target ::
  "cluster_view \<Rightarrow> string \<Rightarrow> nat \<Rightarrow> string \<Rightarrow> store_info option \<Rightarrow> (string \<times> rat) option result" where
  "get_migration_target v model_name num_gpu source_node_id store =
     r_bind (r_map (migration_candidate v model_name num_gpu source_node_id store) (cv_nodes v)) (\<lambda>opts.
       let candidates = map the (filter (\<lambda>x. x \<noteq> None) opts) in
       Inr (if candidates = [] then None else Some (arg_min_list snd candidates)))"

section \<open>Migration plans\<close>

record migration_plan =
  target_node_id :: string
  source_instance :: instance_status

text \<open>A latency of \<open>None\<close> is infinity.\<close>

record migration_plans =
  total_latency :: "rat option"
  evicted_gpus :: nat
  plans :: "migration_plan list"
  mp_store_info :: "store_info option"

definition no_plans :: migration_plans where
  "no_plans = \<lparr> total_latency = None, evicted_gpus = 0, plans = [], mp_store_info = None \<rparr>"

definition latency_less :: "rat option \<Rightarrow> rat option \<Rightarrow> bool" where
  "latency_less a b = (case a of None \<Rightarrow> False | Some x \<Rightarrow> (case b of None \<Rightarrow> True | Some y \<Rightarrow> x < y))"

definition add_waiting :: "string \<Rightarrow> rat \<Rightarrow> store_info \<Rightarrow> store_info" where
  "add_waiting node_id t info = AList.map_entry node_id (\<lambda>(disk, pinned, waiting_time). (disk, pinned, waiting_time + t)) info"

definition append_plan :: "migration_plan \<Rightarrow> rat option \<Rightarrow> migration_plans \<Rightarrow> migration_plans" where
  "append_plan plan latency mp =
     mp\<lparr> total_latency := latency, evicted_gpus := evicted_gpus mp + is_num_gpu (source_instance plan), plans := plans mp @ [plan] \<rparr>"

text \<open>The cell of instance \<open>inst\<close> and \<open>j\<close> GPUs, from the row before it.\<close>

definition migration_cell ::
  "cluster_view \<Rightarrow> string \<Rightarrow> instance_status \<Rightarrow> migration_plans list \<Rightarrow> nat \<Rightarrow> migration_plans result" where
  "migration_cell v source_node_id inst row j =
     (if j < is_num_gpu inst then Inr (row ! j)
      else let prev = row ! (j - is_num_gpu inst) in
        r_bind (get_migration_target v (is_model_name inst) (is_num_gpu inst) source_node_id (mp_store_info prev)) (\<lambda>target.
          case target of None \<Rightarrow> Inl TypeError
          | Some (node_id, loading_time) \<Rightarrow>
            let latency = map_option (\<lambda>t. is_resuming_latency inst + loading_time + t) (total_latency prev) in
            if latency_less latency (total_latency (row ! j))
            then Inr ((append_plan \<lparr> target_node_id = node_id, source_instance = inst \<rparr> latency prev)
                        \<lparr> mp_store_info := map_option (add_waiting node_id loading_time) (mp_store_info prev) \<rparr>)
            else Inr (row ! j)))"

definition migration_row ::
  "cluster_view \<Rightarrow> string \<Rightarrow> nat \<Rightarrow> migration_plans list \<Rightarrow> instance_status \<Rightarrow> migration_plans list result" where
  "migration_row v source_node_id gpu_shortage row inst = r_map (migration_cell v source_node_id inst row) [0..<gpu_shortage + 1]"

definition first_row :: "nat \<Rightarrow> store_info \<Rightarrow> migration_plans list" where
  "first_row gpu_shortage store = no_plans\<lparr> total_latency := Some 0, mp_store_info := Some store \<rparr> # replicate gpu_shortage no_plans"

definition optimal_plans :: "nat \<Rightarrow> migration_plans list \<Rightarrow> migration_plans option" where
  "optimal_plans gpu_shortage row =
     snd (foldl (\<lambda>(min_latency, best) mp.
            if latency_less (total_latency mp) min_latency \<and> gpu_shortage \<le> evicted_gpus mp then (total_latency mp, Some mp) else (min_latency, best))
          (None, None) row)"

text \<open>Any exception of the search is logged and gives \<open>None\<close>.\<close>

definition get_migration_plans :: "cluster_view \<Rightarrow> nat \<Rightarrow> string \<Rightarrow> instance_status list \<Rightarrow> store_info \<Rightarrow> migration_plans option" where
  "get_migration_plans v gpu_shortage source_node_id migratable store =
     (if migratable = [] then None
      else case r_foldl (migration_row v source_node_id gpu_shortage) (first_row gpu_shortage store) migratable of
             Inl _ \<Rightarrow> None | Inr row \<Rightarrow> optimal_plans gpu_shortage row)"

text \<open>
  The instances that can be migrated away from a node: those of other models, with the status their
  routers report (\<open>None\<close> for an instance that is gone) and the resuming latency from the model's
  configuration.
\<close>

definition migratable_instances ::
  "fcfs \<Rightarrow> (string \<Rightarrow> rat \<times> rat) \<Rightarrow> (string \<Rightarrow> string \<Rightarrow> (nat \<times> nat) option) \<Rightarrow> string \<Rightarrow> string \<Rightarrow> instance_status list" where
  "migratable_instances s config status model_name source_node_id =
     concat (map (\<lambda>(target_model, instances).
       if target_model = model_name then []
       else concat (map (\<lambda>(instance_id, node_id).
         if node_id \<noteq> source_node_id then []
         else case status target_model instance_id of None \<Rightarrow> []
           | Some (gpus, tokens) \<Rightarrow> (case config target_model of (alpha, beta) \<Rightarrow>
               [\<lparr> is_instance_id = instance_id, is_model_name = target_model, is_num_gpu = gpus,
                  is_resuming_latency = alpha * of_nat tokens + beta \<rparr>])) instances)) (model_instance s))"

section \<open>Scheduling a request\<close>

record allocation_plan =
  ap_node_id :: string
  ap_latency :: "rat option"
  ap_migration :: "migration_plans option"

definition schedule_node ::
  "bool \<Rightarrow> cluster_view \<Rightarrow> store_info \<Rightarrow> (string \<Rightarrow> instance_status list) \<Rightarrow> string \<Rightarrow> rat \<Rightarrow> string \<times> worker_node \<Rightarrow> allocation_plan option result" where
  "schedule_node enable_migration v store migratable model_name gpus = (\<lambda>(node_id, node_info).
     case map_of store node_id of None \<Rightarrow> Inr None
     | Some (node_store_info, pinned_pool, waiting_time) \<Rightarrow>
       if map_of node_store_info model_name = None then Inr None
       else
         r_bind (dict_get (cv_model_info v) model_name) (\<lambda>model_size.
         r_bind (dict_get (cv_hardware v) node_id) (\<lambda>hw.
         r_bind (get_model_loading_time model_name model_size hw waiting_time pinned_pool) (\<lambda>latency.
           if gpus \<le> free_gpu node_info
           then Inr (Some \<lparr> ap_node_id = node_id, ap_latency = Some latency, ap_migration = None \<rparr>)
           else if enable_migration
           then Inr (map_option (\<lambda>mp. \<lparr> ap_node_id = node_id, ap_latency = map_option ((+) latency) (total_latency mp), ap_migration = Some mp \<rparr>)
                  (get_migration_plans v (nat \<lfloor>gpus - free_gpu node_info\<rfloor>) node_id (migratable node_id) store))
           else Inr None))))"

definition schedule ::
  "bool \<Rightarrow> cluster_view \<Rightarrow> store_info \<Rightarrow> (string \<Rightarrow> instance_status list) \<Rightarrow> string \<Rightarrow> rat \<Rightarrow> allocation_plan list result" where
  "schedule enable_migration v store migratable model_name gpus =
     r_bind (r_map (schedule_node enable_migration v store migratable model_name gpus) (cv_nodes v)) (\<lambda>opts.
       Inr (map the (filter (\<lambda>x. x \<noteq> None) opts)))"

text \<open>
  Serving one request of the control loop. The plan is the first by latency and node; each migration
  is charged to its target node with the GPUs of the new request, and given back when the router
  reports failure (\<open>migrated\<close>). Then the request is popped by the index it had when the requests
  were collected.
\<close>

definition charge_migrations :: "(migration_plan \<Rightarrow> bool) \<Rightarrow> rat \<Rightarrow> fcfs \<Rightarrow> migration_plans \<Rightarrow> fcfs" where
  "charge_migrations migrated gpus s mp =
     foldl (\<lambda>s plan. if migrated plan then add_free_gpu (- gpus) (target_node_id plan) s else s) s (plans mp)"

definition latency_key :: "allocation_plan \<Rightarrow> (bool \<times> rat) \<times> string" where
  "latency_key p = ((ap_latency p = None, case ap_latency p of None \<Rightarrow> 0 | Some t \<Rightarrow> t), ap_node_id p)"

definition storage_request ::
  "bool \<Rightarrow> cluster_view \<Rightarrow> store_info \<Rightarrow> (fcfs \<Rightarrow> string \<Rightarrow> string \<Rightarrow> instance_status list) \<Rightarrow> (migration_plan \<Rightarrow> bool) \<Rightarrow>
   fcfs \<Rightarrow> string \<times> nat \<times> load_request \<Rightarrow> fcfs result" where
  "storage_request enable_migration v store migratable migrated s = (\<lambda>(model_name, idx, r).
     r_bind (schedule enable_migration (v\<lparr> cv_nodes := worker_nodes s \<rparr>) store (migratable s model_name) model_name (num_gpus r)) (\<lambda>options.
       if options = [] then Inr s
       else
         let plan = hd (sort_key latency_key options);
             s1 = (case ap_migration plan of None \<Rightarrow> s | Some mp \<Rightarrow> charge_migrations migrated (num_gpus r) s mp) in
         r_bind (dict_get (model_loading_queues s1) model_name) (\<lambda>queue.
         r_bind (list_pop queue idx) (\<lambda>queue'.
           if futures s1 ! allocation_result r \<noteq> Pending then Inl InvalidStateError
           else Inr (add_free_gpu (- num_gpus r) (ap_node_id plan)
                  (s1\<lparr> model_loading_queues := AList.update model_name queue' (model_loading_queues s1),
                       futures := (futures s1)[allocation_result r := Granted (ap_node_id plan)] \<rparr>))))))"

definition storage_iteration ::
  "ray_node list \<Rightarrow> bool \<Rightarrow> cluster_view \<Rightarrow> store_info \<Rightarrow> (fcfs \<Rightarrow> string \<Rightarrow> string \<Rightarrow> instance_status list) \<Rightarrow> (migration_plan \<Rightarrow> bool) \<Rightarrow>
   fcfs \<Rightarrow> fcfs result" where
  "storage_iteration ray_nodes enable_migration v store migratable migrated s =
     (let requests = loading_requests (model_loading_queues s) in
      if requests = [] then Inr s
      else
        r_bind (refresh_worker_nodes ray_nodes s) (\<lambda>s1.
        r_bind (r_foldl (storage_request enable_migration v store migratable migrated) s1 (sort_key (\<lambda>(_, idx, _). idx) requests)) (\<lambda>s2.
          Inr (update_worker_nodes (worker_nodes s2) s2))))"

definition mark_resource :: "string \<Rightarrow> string \<Rightarrow> string \<Rightarrow> fcfs \<Rightarrow> fcfs \<times> bool" where
  "mark_resource model_name instance_id node_id s = (set_instance model_name instance_id node_id s, True)"

section \<open>Migration moves one instance or none\<close>

lemma get_migration_target_Some:
  assumes "get_migration_target v m g src store = Inr (Some (n, t))"
  shows "n \<noteq> src \<and> (\<exists>info. (n, info) \<in> set (cv_nodes v) \<and> of_nat g \<le> free_gpu info) \<and> store \<noteq> None"
proof -
  obtain opts where opts: "r_map (migration_candidate v m g src store) (cv_nodes v) = Inr opts"
      "filter (\<lambda>x. x \<noteq> None) opts \<noteq> []" "arg_min_list snd (map the (filter (\<lambda>x. x \<noteq> None) opts)) = (n, t)"
    using assms by (auto simp: get_migration_target_def py_simps Let_def split: if_splits)
  have "(n, t) \<in> set (map the (filter (\<lambda>x. x \<noteq> None) opts))"
    using arg_min_list_mem [of "map the (filter (\<lambda>x. x \<noteq> None) opts)" snd] opts(2,3) by simp
  then have "Some (n, t) \<in> set opts" by auto
  then obtain i where i: "i < length opts" "opts ! i = Some (n, t)" by (auto simp: in_set_conv_nth)
  have all: "list_all2 (\<lambda>x y. migration_candidate v m g src store x = Inr y) (cv_nodes v) opts" using opts(1) by (simp add: r_map_Inr_iff)
  obtain k info where k: "cv_nodes v ! i = (k, info)" by (cases "cv_nodes v ! i")
  have mem: "(k, info) \<in> set (cv_nodes v)" using k i(1) list_all2_lengthD [OF all] nth_mem [of i "cv_nodes v"] by simp
  have "migration_candidate v m g src store (k, info) = Inr (Some (n, t))" using list_all2_nthD2 [OF all i(1)] i(2) k by simp
  then have "k = n \<and> n \<noteq> src \<and> of_nat g \<le> free_gpu info \<and> store \<noteq> None"
    by (auto simp: migration_candidate_def py_simps split: if_splits option.splits)
  then show ?thesis using mem by blast
qed

definition base_cell :: "store_info \<Rightarrow> migration_plans" where
  "base_cell store = no_plans\<lparr> total_latency := Some 0, mp_store_info := Some store \<rparr>"

definition single_move :: "cluster_view \<Rightarrow> string \<Rightarrow> nat \<Rightarrow> instance_status set \<Rightarrow> migration_plans \<Rightarrow> bool" where
  "single_move v src shortage insts mp \<longleftrightarrow> (\<exists>plan. plans mp = [plan] \<and> is_num_gpu (source_instance plan) = shortage
     \<and> source_instance plan \<in> insts \<and> target_node_id plan \<noteq> src
     \<and> (\<exists>info. (target_node_id plan, info) \<in> set (cv_nodes v) \<and> of_nat shortage \<le> free_gpu info))"

text \<open>The rows that occur: nothing but the empty plan in the first column and a single move in the last.\<close>

definition row_ok :: "cluster_view \<Rightarrow> string \<Rightarrow> nat \<Rightarrow> store_info \<Rightarrow> instance_status set \<Rightarrow> migration_plans list \<Rightarrow> bool" where
  "row_ok v src shortage store insts row \<longleftrightarrow> length row = shortage + 1 \<and> row ! 0 = base_cell store
     \<and> (\<forall>j. 0 < j \<longrightarrow> j < shortage \<longrightarrow> row ! j = no_plans) \<and> (row ! shortage = no_plans \<or> single_move v src shortage insts (row ! shortage))"

lemma first_row_ok: "0 < shortage \<Longrightarrow> row_ok v src shortage store {} (first_row shortage store)"
  unfolding row_ok_def first_row_def base_cell_def by (simp add: nth_Cons' del: replicate.simps)

lemma migration_cell_target:
  assumes run: "migration_cell v src inst row j = Inr c" and j: "\<not> j < is_num_gpu inst"
  shows "\<exists>n t. get_migration_target v (is_model_name inst) (is_num_gpu inst) src (mp_store_info (row ! (j - is_num_gpu inst))) = Inr (Some (n, t))"
    (is "\<exists>n t. ?target = _")
proof (rule ccontr)
  assume none: "\<nexists>n t. ?target = Inr (Some (n, t))"
  have "isl (migration_cell v src inst row j)"
  proof (cases ?target)
    case (Inr x)
    then have "x = None" using none by (cases x) auto
    then show ?thesis using Inr j by (simp add: migration_cell_def Let_def)
  qed (use j in \<open>simp add: migration_cell_def Let_def\<close>)
  then show False using run by simp
qed

lemma migration_cell_new:
  assumes run: "migration_cell v src inst row j = Inr c" and new: "c \<noteq> row ! j"
  shows "\<not> j < is_num_gpu inst \<and> (\<exists>n t. get_migration_target v (is_model_name inst) (is_num_gpu inst) src (mp_store_info (row ! (j - is_num_gpu inst))) = Inr (Some (n, t))
    \<and> plans c = plans (row ! (j - is_num_gpu inst)) @ [\<lparr> target_node_id = n, source_instance = inst \<rparr>])"
proof -
  have j: "\<not> j < is_num_gpu inst" using run new by (auto simp: migration_cell_def)
  obtain n t where t: "get_migration_target v (is_model_name inst) (is_num_gpu inst) src (mp_store_info (row ! (j - is_num_gpu inst))) = Inr (Some (n, t))"
    using migration_cell_target [OF run j] by blast
  then show ?thesis using run new j by (auto simp: migration_cell_def append_plan_def Let_def split: if_splits)
qed

lemma migration_row_step:
  assumes ok: "row_ok v src shortage store insts row" and pos: "0 < shortage" "0 < is_num_gpu inst"
    and run: "migration_row v src shortage row inst = Inr row'"
  shows "shortage \<le> is_num_gpu inst \<and> row_ok v src shortage store (insert inst insts) row'"
proof -
  note R = ok [unfolded row_ok_def]
  have all: "list_all2 (\<lambda>j cell. migration_cell v src inst row j = Inr cell) [0..<shortage + 1] row'"
    using run by (simp add: migration_row_def r_map_Inr_iff)
  have len: "length row' = shortage + 1" using list_all2_lengthD [OF all] by simp
  have cell: "migration_cell v src inst row j = Inr (row' ! j)" if "j \<le> shortage" for j
    using list_all2_nthD [OF all, of j] that by (simp del: upt_Suc)
  have "shortage \<le> is_num_gpu inst"
  proof (rule ccontr)
    assume less: "\<not> shortage \<le> is_num_gpu inst"
    have prev: "row ! (is_num_gpu inst + 1 - is_num_gpu inst) = no_plans" using R less pos(2) by simp
    have "migration_cell v src inst row (is_num_gpu inst + 1) = Inr (row' ! (is_num_gpu inst + 1))" using cell less by simp
    then obtain n t where "get_migration_target v (is_model_name inst) (is_num_gpu inst) src (mp_store_info no_plans) = Inr (Some (n, t))"
      using migration_cell_target prev by fastforce
    then show False using get_migration_target_Some by (fastforce simp: no_plans_def)
  qed
  moreover have "row' ! j = row ! j" if "j < shortage" for j
    using cell [of j] that calculation by (simp add: migration_cell_def)
  moreover have "row' ! shortage = row ! shortage \<or> single_move v src shortage (insert inst insts) (row' ! shortage)"
  proof (cases "row' ! shortage = row ! shortage")
    case False
    then have new: "\<not> shortage < is_num_gpu inst" "\<exists>n t. get_migration_target v (is_model_name inst) (is_num_gpu inst) src
        (mp_store_info (row ! (shortage - is_num_gpu inst))) = Inr (Some (n, t))
        \<and> plans (row' ! shortage) = plans (row ! (shortage - is_num_gpu inst)) @ [\<lparr> target_node_id = n, source_instance = inst \<rparr>]"
      using migration_cell_new [OF cell [OF order_refl]] by auto
    have n: "is_num_gpu inst = shortage" using new(1) calculation(1) by simp
    have prev: "row ! (shortage - shortage) = base_cell store" using R by simp
    obtain n t where nt: "get_migration_target v (is_model_name inst) shortage src (mp_store_info (base_cell store)) = Inr (Some (n, t))"
        "plans (row' ! shortage) = [\<lparr> target_node_id = n, source_instance = inst \<rparr>]"
      using new(2) unfolding n prev by (auto simp: base_cell_def no_plans_def)
    show ?thesis using get_migration_target_Some [OF nt(1)] nt(2) n by (auto simp: single_move_def)
  qed simp
  moreover have "single_move v src shortage insts mp \<Longrightarrow> single_move v src shortage (insert inst insts) mp" for mp
    by (auto simp: single_move_def)
  ultimately show ?thesis using R len pos unfolding row_ok_def by fastforce
qed

lemma migration_rows:
  assumes "r_foldl (migration_row v src shortage) row insts = Inr row'" and "row_ok v src shortage store done_insts row"
    and "0 < shortage" and "\<forall>inst \<in> set insts. 0 < is_num_gpu inst"
  shows "(\<forall>inst \<in> set insts. shortage \<le> is_num_gpu inst) \<and> row_ok v src shortage store (done_insts \<union> set insts) row'"
  using assms
proof (induction insts arbitrary: row done_insts)
  case (Cons inst insts)
  obtain row1 where row1: "migration_row v src shortage row inst = Inr row1" "r_foldl (migration_row v src shortage) row1 insts = Inr row'"
    using Cons.prems(1) by (auto simp: py_simps)
  have step: "shortage \<le> is_num_gpu inst" "row_ok v src shortage store (insert inst done_insts) row1"
    using migration_row_step [OF Cons.prems(2,3) _ row1(1)] Cons.prems(4) by auto
  from Cons.IH [OF row1(2) step(2) Cons.prems(3)] Cons.prems(4) step(1) show ?case by simp
qed simp

lemma optimal_plans_mem:
  assumes "optimal_plans shortage row = Some mp"
  shows "mp \<in> set row \<and> shortage \<le> evicted_gpus mp"
proof -
  let ?f = "\<lambda>(min_latency, best) mp. if latency_less (total_latency mp) min_latency \<and> shortage \<le> evicted_gpus mp then (total_latency mp, Some mp) else (min_latency, best)"
  have "snd (foldl ?f acc xs) = Some mp \<Longrightarrow> snd acc = Some mp \<or> mp \<in> set xs \<and> shortage \<le> evicted_gpus mp" for acc xs
  proof (induction xs arbitrary: acc)
    case (Cons x xs)
    obtain a b where acc: "acc = (a, b)" by (cases acc)
    have "snd (foldl ?f (?f acc x) xs) = Some mp" using Cons.prems by simp
    from Cons.IH [OF this] show ?case unfolding acc by (auto split: if_splits)
  qed simp
  from this [of "(None, None)" row] show ?thesis using assms by (simp add: optimal_plans_def)
qed

text \<open>
  C33. Migration never combines instances. Whenever the search returns a plan, it moves exactly one
  instance, of exactly as many GPUs as are missing, to another node with room; and every instance
  on the node has at least as many GPUs as are missing. In other words, as soon as one smaller
  instance runs on the node the search fails, although its table is meant to combine instances:
  it reads the store state of cells that no plan reaches, raises, and reports no plan.
\<close>

theorem migration_never_combines:
  assumes "get_migration_plans v gpu_shortage src migratable store = Some mp" and "0 < gpu_shortage"
    and "\<forall>inst \<in> set migratable. 0 < is_num_gpu inst"
  shows "(\<forall>inst \<in> set migratable. gpu_shortage \<le> is_num_gpu inst) \<and> single_move v src gpu_shortage (set migratable) mp"
proof -
  obtain row where row: "r_foldl (migration_row v src gpu_shortage) (first_row gpu_shortage store) migratable = Inr row"
      "optimal_plans gpu_shortage row = Some mp"
    using assms(1) by (auto simp: get_migration_plans_def split: if_splits sum.splits)
  have all: "\<forall>inst \<in> set migratable. gpu_shortage \<le> is_num_gpu inst" "row_ok v src gpu_shortage store (set migratable) row"
    using migration_rows [OF row(1) first_row_ok [OF assms(2)] assms(2,3)] by simp_all
  have mp: "mp \<in> set row" "gpu_shortage \<le> evicted_gpus mp" using optimal_plans_mem [OF row(2)] by auto
  then obtain j where j: "j \<le> gpu_shortage" "mp = row ! j" using all(2) by (auto simp: in_set_conv_nth row_ok_def less_Suc_eq_le)
  have "row ! j = no_plans \<or> row ! j = base_cell store \<or> single_move v src gpu_shortage (set migratable) (row ! j)"
    using all(2) j(1) unfolding row_ok_def by (metis le_neq_implies_less neq0_conv)
  then show ?thesis using all(1) mp(2) assms(2) j(2) by (auto simp: no_plans_def base_cell_def)
qed

section \<open>Concrete clusters\<close>

definition demo_node :: "rat \<Rightarrow> worker_node" where
  "demo_node free = \<lparr> ray_node_id = ''r'', address = ''a'', free_gpu = free, total_gpu = 4, store_port = 0 \<rparr>"

definition demo_view :: cluster_view where
  "demo_view = \<lparr> cv_nodes = [(''0'', demo_node 0), (''1'', demo_node 4)], cv_model_info = [(''A'', 6), (''B'', 6)],
     cv_hardware = [(''0'', \<lparr> hw_disk_bandwidth = 1, hw_pcie_bandwidth = 2 \<rparr>), (''1'', \<lparr> hw_disk_bandwidth = 1, hw_pcie_bandwidth = 2 \<rparr>)] \<rparr>"

definition demo_disk :: store_info where
  "demo_disk = [(''0'', [(''A'', ''vllm/A'', 6), (''B'', ''vllm/B'', 6)], [], 0), (''1'', [(''A'', ''vllm/A'', 6), (''B'', ''vllm/B'', 6)], [], 0)]"

definition demo_instance :: "string \<Rightarrow> nat \<Rightarrow> instance_status" where
  "demo_instance i gpus = \<lparr> is_instance_id = i, is_model_name = ''B'', is_num_gpu = gpus, is_resuming_latency = 1 \<rparr>"

lemma demo_migration:
  "get_migration_plans demo_view 2 ''0'' [demo_instance ''b0'' 2] demo_disk
   = Some \<lparr> total_latency = Some 7, evicted_gpus = 2, plans = [\<lparr> target_node_id = ''1'', source_instance = demo_instance ''b0'' 2 \<rparr>],
            mp_store_info = Some (add_waiting ''1'' 6 demo_disk) \<rparr>"
  by code_simp

theorem migration_never_combines_witness:
  "single_move demo_view ''0'' 2 {demo_instance ''b0'' 2} (the (get_migration_plans demo_view 2 ''0'' [demo_instance ''b0'' 2] demo_disk))
   \<and> get_migration_plans demo_view 2 ''0'' [demo_instance ''b0'' 1, demo_instance ''b1'' 1] demo_disk = None"
proof
  show "single_move demo_view ''0'' 2 {demo_instance ''b0'' 2} (the (get_migration_plans demo_view 2 ''0'' [demo_instance ''b0'' 2] demo_disk))"
    unfolding demo_migration option.sel using migration_never_combines [OF demo_migration] by (simp add: demo_instance_def)
  show "get_migration_plans demo_view 2 ''0'' [demo_instance ''b0'' 1, demo_instance ''b1'' 1] demo_disk = None" by code_simp
qed

definition demo_ray :: ray_node where
  "demo_ray = \<lparr> rn_node_id = Some ''r0'', rn_resources = [(''worker_id_0'', 1), (''GPU'', 3)], rn_address = Some ''10.0.0.1'' \<rparr>"

text \<open>
  Two grants to one model in one iteration stop the storage-aware scheduler. Requests are popped
  from the queue by the index they had when the iteration began: after the first request of a
  model has been popped the index of its second one is out of range, the iteration raises, and the
  control loop ends.
\<close>

lemma stale_index_raises:
  "storage_iteration [demo_ray] False (demo_view\<lparr> cv_nodes := [] \<rparr>) demo_disk (\<lambda>_ _ _. []) (\<lambda>_. True) demo_queued
   = Inl (IndexError ''pop index out of range'')"
  by code_simp

end
