(* ===== verification/Router.thy ===== *)
theory Router
  imports Fcfs_Scheduler
begin

text \<open>
  The per-model request router (\<open>RoundRobinRouter\<close> of
  \<open>src/sllm/serve/routers/roundrobin_router.py\<close> and \<open>InstanceHandle\<close> of
  \<open>src/sllm/serve/utils.py\<close>): the auto-scaler, the round-robin load balancer, the life cycle of an
  instance (starting, ready, deleting) and the requests.

  The router is an actor with one event loop and none of its locks is held across a suspension,
  so the code between two suspensions is atomic; each such piece is one operation here, and the
  coroutines are interleaved by the relation \<open>router_step\<close>. The place where a coroutine is
  suspended is part of the state (\<open>auto_scaler_task\<close>, \<open>load_balancer\<close>, \<open>start_tasks\<close>,
  \<open>stop_tasks\<close>, the stage of a request). Instance handles are shared objects: they live in the
  store \<open>handles\<close> under their instance id and the three dictionaries hold ids. A fresh id
  (\<open>uuid4\<close>), the replies of the scheduler and the outcome of a call to a backend are arguments.
\<close>

section \<open>Instance handles\<close>

record instance_status =
  is_instance_id :: string
  is_node_id :: "string option"
  is_num_gpu :: rat
  is_concurrency :: int

record instance_handle =
  instance_id :: string
  max_queue_length :: int
  num_gpu :: rat
  node_id :: "string option"
  backend_instance :: "string option"
  ready :: bool
  concurrency :: int
  criu_backend :: "(string \<times> string) option"
  status :: "bool option"

definition new_handle :: "string \<Rightarrow> int \<Rightarrow> rat \<Rightarrow> instance_handle" where
  "new_handle i q g =
     \<lparr> instance_id = i, max_queue_length = q, num_gpu = g, node_id = None, backend_instance = None, ready = False, concurrency = 0,
       criu_backend = None, status = None \<rparr>"

definition add_requests :: "int \<Rightarrow> instance_handle \<Rightarrow> instance_handle \<times> bool" where
  "add_requests num_requests h =
     (if \<not> ready h then (h, False)
      else if concurrency h + num_requests > max_queue_length h \<or> concurrency h + num_requests < 0 then (h, False)
      else (h\<lparr> concurrency := concurrency h + num_requests \<rparr>, True))"

definition check_request_queue :: "instance_handle \<Rightarrow> bool" where
  "check_request_queue h \<longleftrightarrow> concurrency h + 1 \<le> max_queue_length h"

definition get_status :: "instance_handle \<Rightarrow> instance_status" where
  "get_status h = \<lparr> is_instance_id = instance_id h, is_node_id = node_id h, is_num_gpu = num_gpu h, is_concurrency = concurrency h \<rparr>"

section \<open>Auto-scaling policy\<close>

record scaling_config =
  min_instances :: "int option"
  max_instances :: "int option"
  target :: "int option"
  keep_alive :: "rat option"
  metric :: "string option"

definition config_get :: "'a option \<Rightarrow> 'a \<Rightarrow> 'a" where
  "config_get v d = (case v of None \<Rightarrow> d | Some x \<Rightarrow> x)"

definition auto_scaler :: "int \<Rightarrow> scaling_config \<Rightarrow> int result" where
  "auto_scaler request_count config =
     (let lo = config_get (min_instances config) 0; hi = config_get (max_instances config) 10;
          target_ongoing_requests = config_get (target config) 16 in
      if target_ongoing_requests = 0 then Inl ZeroDivisionError
      else Inr (min hi (max lo ((request_count + target_ongoing_requests - 1) div target_ongoing_requests))))"

section \<open>State of a router\<close>

text \<open>
  A request is queued until the balancer assigns it to an instance; then its coroutine resumes
  and calls the backend. \<open>Lost\<close> is the answer \<open>Instance not found\<close>, \<open>Raised\<close> an exception that
  leaves \<open>inference\<close>.
\<close>

datatype stage = Queued | Assigned string | Serving string | Lost string | Raised string | Answered string

datatype scaler = Not_started | Scaling | Stopping | Died py_error

datatype balancer = Unstarted | Idle | Polled nat "string list" | Backoff nat

datatype start_phase = Created | Allocating | Booting string | Initializing | Start_failed

datatype stop_phase = Finish_queued | Shutdown_queued | Halting

record router =
  model_name :: string
  required_gpus :: rat
  backend :: string
  node_info :: "(string \<times> worker_node) list"
  store_address :: "(string \<times> int) option"
  request_queue :: "nat list"
  requests :: "(string \<times> stage) list"
  handles :: "(string \<times> instance_handle) list"
  starting_instances :: "string list"
  deleting_instances :: "string list"
  ready_instances :: "string list"
  auto_scaling_config :: "scaling_config option"
  request_count :: int
  running :: bool
  idle_time :: rat
  auto_scaler_task :: scaler
  load_balancer :: balancer
  round_robin_index :: nat
  start_tasks :: "(string \<times> start_phase) list"
  stop_tasks :: "(string \<times> stop_phase) list"

definition loop_interval :: rat where
  "loop_interval = 1 / 10"

definition init_router :: "string \<Rightarrow> rat \<Rightarrow> string \<Rightarrow> (string \<times> worker_node) list \<Rightarrow> router" where
  "init_router name gpus be nodes =
     \<lparr> model_name = name, required_gpus = gpus, backend = be, node_info = nodes, store_address = None, request_queue = [], requests = [],
       handles = [], starting_instances = [], deleting_instances = [], ready_instances = [],
       auto_scaling_config = Some \<lparr> min_instances = None, max_instances = None, target = None, keep_alive = None, metric = None \<rparr>,
       request_count = 0, running = False, idle_time = 0, auto_scaler_task = Not_started, load_balancer = Unstarted,
       round_robin_index = 0, start_tasks = [], stop_tasks = [] \<rparr>"

definition start_router :: "scaling_config option \<Rightarrow> router \<Rightarrow> router" where
  "start_router config r = r\<lparr> auto_scaling_config := config, auto_scaler_task := Scaling, load_balancer := Idle, running := True \<rparr>"

definition update_router :: "scaling_config option \<Rightarrow> router \<Rightarrow> router" where
  "update_router config r = r\<lparr> auto_scaling_config := config \<rparr>"

definition with_handle :: "string \<Rightarrow> (instance_handle \<Rightarrow> instance_handle) \<Rightarrow> router \<Rightarrow> router" where
  "with_handle i g r = r\<lparr> handles := AList.map_entry i g (handles r) \<rparr>"

definition put_key :: "string \<Rightarrow> string list \<Rightarrow> string list" where
  \<comment> \<open>\<open>d[key] = v\<close> seen on the keys of an ordered dictionary\<close>
  "put_key i ks = (if i \<in> set ks then ks else ks @ [i])"

section \<open>Requests\<close>

definition set_stage :: "nat \<Rightarrow> stage \<Rightarrow> router \<Rightarrow> router" where
  "set_stage f st r = r\<lparr> requests := (requests r)[f := (fst (requests r ! f), st)] \<rparr>"

text \<open>From the call to the point where the request waits for its instance.\<close>

definition inference :: "string \<Rightarrow> router \<Rightarrow> router \<times> string option" where
  "inference action r =
     (if \<not> running r then (r, Some ''Instance stopped'')
      else (r\<lparr> request_count := request_count r + 1, idle_time := 0, requests := requests r @ [(action, Queued)],
               request_queue := request_queue r @ [length (requests r)] \<rparr>, None))"

text \<open>The end of \<open>inference\<close>: the slot is returned (the verdict of \<open>add_requests\<close> is ignored).\<close>

definition complete_request :: "nat \<Rightarrow> string \<Rightarrow> string \<Rightarrow> router \<Rightarrow> router" where
  "complete_request f i reply r =
     (let r1 = with_handle i (\<lambda>h. fst (add_requests (-1) h)) r in
      set_stage f (Answered reply) (r1\<lparr> request_count := request_count r1 - 1 \<rparr>))"

definition rpc_backend :: "router \<Rightarrow> bool" where
  "rpc_backend r \<longleftrightarrow> backend r = ''criu'' \<or> backend r = ''mock''"

text \<open>The coroutine resumes with its instance and reaches the call of the backend.\<close>

definition resume_inference :: "nat \<Rightarrow> string \<Rightarrow> router \<Rightarrow> router" where
  "resume_inference f i r =
     (if i \<notin> set (ready_instances r) then set_stage f (Lost i) r
      else case map_of (handles r) i of None \<Rightarrow> r
        | Some h \<Rightarrow>
          if fst (requests r ! f) = ''generate'' then
            (if (if rpc_backend r then criu_backend h = None else backend_instance h = None) then set_stage f (Raised i) r
             else set_stage f (Serving i) r)
          else if fst (requests r ! f) = ''encode'' then
            (if backend_instance h = None then set_stage f (Raised i) r else set_stage f (Serving i) r)
          else complete_request f i ''Invalid action'' r)"

definition finish_inference :: "nat \<Rightarrow> string \<Rightarrow> string result \<Rightarrow> router \<Rightarrow> router" where
  "finish_inference f i outcome r =
     (case outcome of Inl e \<Rightarrow> set_stage f (Raised i) r | Inr reply \<Rightarrow> complete_request f i reply r)"

text \<open>
  Unpacking a future that is not done as a pair raises: the first queued request makes
  \<open>shutdown\<close> fail after it was taken from the queue.
\<close>

definition shutdown_router :: "router \<Rightarrow> router \<times> string list result" where
  "shutdown_router r =
     (case request_queue r of
        f # fs \<Rightarrow> (r\<lparr> running := False, request_queue := fs \<rparr>, Inl (RuntimeError ''await was not used with future''))
      | [] \<Rightarrow> (r\<lparr> running := False, stop_tasks := stop_tasks r @ map (\<lambda>i. (i, Shutdown_queued)) (ready_instances r) \<rparr>,
               Inr (ready_instances r)))"

section \<open>The load balancer\<close>

definition balancer_get :: "router \<Rightarrow> router" where
  "balancer_get r =
     (case (load_balancer r, request_queue r) of
        (Idle, f # fs) \<Rightarrow> r\<lparr> request_queue := fs, load_balancer := Polled f (ready_instances r) \<rparr>
      | _ \<Rightarrow> r)"

definition try_assign :: "nat \<Rightarrow> string \<Rightarrow> instance_handle \<Rightarrow> router \<Rightarrow> router" where
  "try_assign f i h r =
     (if check_request_queue h then
        (case add_requests 1 h of (h', allocated) \<Rightarrow>
           if allocated then set_stage f (Assigned i) (with_handle i (\<lambda>_. h') r\<lparr> load_balancer := Idle \<rparr>)
           else r\<lparr> load_balancer := Backoff f \<rparr>)
      else r\<lparr> load_balancer := Backoff f \<rparr>)"

definition balancer_wake :: "router \<Rightarrow> router" where
  "balancer_wake r =
     (case load_balancer r of
        Polled f instance_options \<Rightarrow>
          if instance_options = [] then r\<lparr> load_balancer := Polled f (ready_instances r) \<rparr>
          else
            let i = instance_options ! (round_robin_index r mod length instance_options);
                r1 = r\<lparr> round_robin_index := round_robin_index r + 1 \<rparr> in
            if i \<notin> set (ready_instances r1) then r1\<lparr> load_balancer := Polled f (ready_instances r1) \<rparr>
            else (case map_of (handles r1) i of None \<Rightarrow> r1 | Some h \<Rightarrow> try_assign f i h r1)
      | Backoff f \<Rightarrow> r\<lparr> load_balancer := Polled f (ready_instances r) \<rparr>
      | _ \<Rightarrow> r)"

section \<open>Creating and starting an instance\<close>

definition create_instance :: "string \<Rightarrow> scaling_config \<Rightarrow> router \<Rightarrow> router" where
  "create_instance new_id config r =
     (let max_request_length = (if config_get (metric config) '''' = ''concurrency'' then config_get (target config) 1 else 1) in
      r\<lparr> handles := AList.update new_id (new_handle new_id max_request_length (required_gpus r)) (handles r),
         starting_instances := put_key new_id (starting_instances r),
         start_tasks := start_tasks r @ [(new_id, Created)] \<rparr>)"

definition set_phase :: "string \<Rightarrow> start_phase \<Rightarrow> router \<Rightarrow> router" where
  "set_phase i ph r = r\<lparr> start_tasks := AList.update i ph (start_tasks r) \<rparr>"

text \<open>\<open>_start_instance\<close> up to the request to the scheduler; \<open>True\<close> when it asks.\<close>

definition start_entry :: "string \<Rightarrow> router \<Rightarrow> router \<times> bool" where
  "start_entry i r =
     (if i \<notin> set (starting_instances r) then (r\<lparr> start_tasks := AList.delete i (start_tasks r) \<rparr>, False)
      else (set_phase i Allocating r, True))"

definition py_int :: "rat \<Rightarrow> int" where
  "py_int q = (if q < 0 then \<lceil>q\<rceil> else \<lfloor>q\<rfloor>)"

text \<open>The scheduler has answered with a node; a node that is not in \<open>node_info\<close> is a \<open>KeyError\<close>.\<close>

definition start_allocated :: "string \<Rightarrow> string \<Rightarrow> router \<Rightarrow> router" where
  "start_allocated i startup_node r =
     (case map_of (node_info r) startup_node of None \<Rightarrow> set_phase i Start_failed r
      | Some info \<Rightarrow>
        let r1 = r\<lparr> store_address := Some (address info, py_int (store_port info)) \<rparr>;
            r2 = (if backend r = ''criu'' then with_handle i (\<lambda>h. h\<lparr> criu_backend := Some (model_name r, address info) \<rparr>) r1
                  else if backend r = ''mock'' then with_handle i (\<lambda>h. h\<lparr> criu_backend := Some (model_name r, startup_node) \<rparr>) r1
                  else r1) in
        set_phase i (Booting startup_node) r2)"

definition to_ready :: "string \<Rightarrow> router \<Rightarrow> router" where
  "to_ready i r =
     r\<lparr> ready_instances := put_key i (ready_instances r), starting_instances := remove1 i (starting_instances r),
        start_tasks := AList.delete i (start_tasks r) \<rparr>"

definition start_booted :: "string \<Rightarrow> string \<Rightarrow> unit result \<Rightarrow> router \<Rightarrow> router" where
  "start_booted i startup_node outcome r =
     (case outcome of Inl e \<Rightarrow> set_phase i Start_failed r
      | Inr _ \<Rightarrow>
        if rpc_backend r then to_ready i (with_handle i (\<lambda>h. h\<lparr> ready := True, node_id := Some startup_node \<rparr>) r)
        else set_phase i Initializing
          (with_handle i (\<lambda>h. h\<lparr> backend_instance := Some i, ready := True, node_id := Some startup_node \<rparr>) r))"

definition start_initialized :: "string \<Rightarrow> unit result \<Rightarrow> router \<Rightarrow> router" where
  "start_initialized i outcome r = (case outcome of Inl e \<Rightarrow> set_phase i Start_failed r | Inr _ \<Rightarrow> to_ready i r)"

section \<open>Stopping an instance\<close>

text \<open>
  \<open>_stop_instance\<close> without an argument, as the auto-scaler calls it: it waits for a ready instance
  and takes the one that became ready last; the auto-scaler then resets the idle time.
\<close>

definition stop_instance :: "router \<Rightarrow> router" where
  "stop_instance r =
     (if ready_instances r = [] then r\<lparr> auto_scaler_task := Stopping \<rparr>
      else let i = last (ready_instances r) in
        r\<lparr> ready_instances := butlast (ready_instances r), deleting_instances := put_key i (deleting_instances r),
           stop_tasks := stop_tasks r @ [(i, Finish_queued)], idle_time := 0, auto_scaler_task := Scaling \<rparr>)"

definition set_halting :: "string \<Rightarrow> router \<Rightarrow> router" where
  "set_halting i r =
     (with_handle i (\<lambda>h. h\<lparr> status := Some False \<rparr>) r)\<lparr> stop_tasks := stop_tasks r @ [(i, Halting)] \<rparr>"

text \<open>\<open>_finish_instance\<close> and \<open>_shutdown_instance\<close> up to the call of the backend.\<close>

definition finish_entry :: "string \<Rightarrow> router \<Rightarrow> router" where
  "finish_entry i r =
     (let r1 = r\<lparr> stop_tasks := remove1 (i, Finish_queued) (stop_tasks r) \<rparr> in
      if i \<notin> set (deleting_instances r) then r1
      else set_halting i (r1\<lparr> deleting_instances := remove1 i (deleting_instances r1) \<rparr>))"

definition shutdown_entry :: "string \<Rightarrow> router \<Rightarrow> router" where
  "shutdown_entry i r =
     (let r1 = r\<lparr> stop_tasks := remove1 (i, Shutdown_queued) (stop_tasks r) \<rparr> in
      if i \<notin> set (ready_instances r) then r1
      else
        let r2 = r1\<lparr> ready_instances := remove1 i (ready_instances r1) \<rparr> in
        (case map_of (handles r2) i of None \<Rightarrow> r2
         | Some h \<Rightarrow>
           if (if backend r2 = ''criu'' then criu_backend h = None else backend_instance h = None)
           then with_handle i (\<lambda>h. h\<lparr> status := Some False \<rparr>) r2
           else set_halting i r2))"

text \<open>The backend has stopped or the call raised; \<open>True\<close> when the scheduler is told.\<close>

definition halt_done :: "string \<Rightarrow> unit result \<Rightarrow> router \<Rightarrow> router \<times> bool" where
  "halt_done i outcome r =
     (r\<lparr> stop_tasks := remove1 (i, Halting) (stop_tasks r) \<rparr>, (case outcome of Inl e \<Rightarrow> False | Inr _ \<Rightarrow> True))"

section \<open>The auto-scaler loop\<close>

definition scaler_iteration :: "string \<Rightarrow> router \<Rightarrow> router" where
  "scaler_iteration new_id r =
     (case auto_scaling_config r of None \<Rightarrow> r\<lparr> auto_scaler_task := Died AttributeError \<rparr>
      | Some config \<Rightarrow>
        case auto_scaler (request_count r) config of
          Inl e \<Rightarrow> r\<lparr> auto_scaler_task := Died e \<rparr>
        | Inr desired_instances \<Rightarrow>
          let num_running_instances = int (length (starting_instances r)) + int (length (ready_instances r)) in
          if desired_instances > num_running_instances then create_instance new_id config r
          else if desired_instances < num_running_instances then
            (if idle_time r \<ge> config_get (keep_alive config) 0 then stop_instance r
             else r\<lparr> idle_time := idle_time r + loop_interval \<rparr>)
          else r)"

section \<open>The router as a state machine\<close>

text \<open>
  The steps of the coroutines, labelled with what the scheduler sees: a request for resources,
  its answer, and the release. The controller starts a router once; ids are fresh.
\<close>

datatype sched_call = Silent | Allocate string | Allocated string string | Release string

inductive router_step :: "router \<Rightarrow> sched_call \<Rightarrow> router \<Rightarrow> bool" where
  rs_start: "auto_scaler_task r = Not_started \<Longrightarrow> router_step r Silent (start_router config r)"
| rs_update: "router_step r Silent (update_router config r)"
| rs_inference: "router_step r Silent (fst (inference action r))"
| rs_resume: "f < length (requests r) \<Longrightarrow> snd (requests r ! f) = Assigned i \<Longrightarrow> router_step r Silent (resume_inference f i r)"
| rs_answer: "f < length (requests r) \<Longrightarrow> snd (requests r ! f) = Serving i \<Longrightarrow> router_step r Silent (finish_inference f i outcome r)"
| rs_shutdown: "router_step r Silent (fst (shutdown_router r))"
| rs_get: "router_step r Silent (balancer_get r)"
| rs_wake: "router_step r Silent (balancer_wake r)"
| rs_scale: "auto_scaler_task r = Scaling \<Longrightarrow> new_id \<notin> fst ` set (handles r) \<Longrightarrow> router_step r Silent (scaler_iteration new_id r)"
| rs_stop: "auto_scaler_task r = Stopping \<Longrightarrow> router_step r Silent (stop_instance r)"
| rs_start_entry: "map_of (start_tasks r) i = Some Created \<Longrightarrow>
    router_step r (if snd (start_entry i r) then Allocate i else Silent) (fst (start_entry i r))"
| rs_allocated: "map_of (start_tasks r) i = Some Allocating \<Longrightarrow> router_step r (Allocated i node) (start_allocated i node r)"
| rs_booted: "map_of (start_tasks r) i = Some (Booting node) \<Longrightarrow> router_step r Silent (start_booted i node booted r)"
| rs_initialized: "map_of (start_tasks r) i = Some Initializing \<Longrightarrow> router_step r Silent (start_initialized i booted r)"
| rs_finish: "(i, Finish_queued) \<in> set (stop_tasks r) \<Longrightarrow> router_step r Silent (finish_entry i r)"
| rs_force: "(i, Shutdown_queued) \<in> set (stop_tasks r) \<Longrightarrow> router_step r Silent (shutdown_entry i r)"
| rs_halted: "(i, Halting) \<in> set (stop_tasks r) \<Longrightarrow>
    router_step r (if snd (halt_done i booted r) then Release i else Silent) (fst (halt_done i booted r))"

inductive_cases router_stepE: "router_step r c r'"

definition router_reachable :: "router \<Rightarrow> bool" where
  "router_reachable r \<longleftrightarrow> (\<exists>name gpus be nodes. (\<lambda>r r'. \<exists>c. router_step r c r')\<^sup>*\<^sup>* (init_router name gpus be nodes) r)"

section \<open>Invariants\<close>

definition halting_ids :: "router \<Rightarrow> string list" where
  "halting_ids r = map fst (filter (\<lambda>(i, ph). ph = Halting) (stop_tasks r))"

definition live_ids :: "router \<Rightarrow> string list" where
  "live_ids r = starting_instances r @ ready_instances r @ deleting_instances r @ halting_ids r"

definition lifecycle_inv :: "router \<Rightarrow> bool" where
  "lifecycle_inv r \<longleftrightarrow> distinct (live_ids r) \<and> set (live_ids r) \<subseteq> fst ` set (handles r) \<and> distinct (map fst (start_tasks r))
     \<and> fst ` set (start_tasks r) = set (starting_instances r)
     \<and> (\<forall>i h. map_of (handles r) i = Some h \<longrightarrow> i \<notin> set (starting_instances r) \<or> map_of (start_tasks r) i = Some Initializing \<longrightarrow> ready h)"

fun occupies :: "string \<Rightarrow> stage \<Rightarrow> bool" where
  "occupies i (Assigned j) = (i = j)"
| "occupies i (Serving j) = (i = j)"
| "occupies i (Lost j) = (i = j)"
| "occupies i (Raised j) = (i = j)"
| "occupies i _ = False"

fun answered :: "stage \<Rightarrow> bool" where
  "answered (Answered _) = True"
| "answered _ = False"

definition stage_count :: "(stage \<Rightarrow> bool) \<Rightarrow> router \<Rightarrow> int" where
  "stage_count P r = int (length (filter (\<lambda>q. P (snd q)) (requests r)))"

definition slot_ok :: "int \<Rightarrow> instance_handle \<Rightarrow> bool" where
  "slot_ok n h \<longleftrightarrow> concurrency h = n \<and> (n \<le> max_queue_length h \<or> n = 0)"

definition slots_inv :: "router \<Rightarrow> bool" where
  "slots_inv r \<longleftrightarrow> request_count r = stage_count (\<lambda>st. \<not> answered st) r
     \<and> (\<forall>i h. map_of (handles r) i = Some h \<longrightarrow> slot_ok (stage_count (occupies i) r) h)
     \<and> (\<forall>f i. f < length (requests r) \<and> occupies i (snd (requests r ! f)) \<longrightarrow> (\<exists>h. map_of (handles r) i = Some h \<and> ready h))"

fun in_hand :: "balancer \<Rightarrow> nat list" where
  "in_hand (Polled f _) = [f]"
| "in_hand (Backoff f) = [f]"
| "in_hand _ = []"

definition queue_inv :: "router \<Rightarrow> bool" where
  "queue_inv r \<longleftrightarrow> distinct (request_queue r @ in_hand (load_balancer r))
     \<and> (\<forall>f \<in> set (request_queue r @ in_hand (load_balancer r)). f < length (requests r) \<and> snd (requests r ! f) = Queued)
     \<and> (running r \<longrightarrow> (\<forall>f < length (requests r). snd (requests r ! f) = Queued \<longrightarrow> f \<in> set (request_queue r @ in_hand (load_balancer r))))
     \<and> (auto_scaler_task r = Not_started \<longrightarrow> requests r = [] \<and> \<not> running r \<and> load_balancer r = Unstarted)"

definition router_inv :: "router \<Rightarrow> bool" where
  "router_inv r \<longleftrightarrow> lifecycle_inv r \<and> slots_inv r \<and> queue_inv r"

lemma count_update:
  assumes "f < length xs"
  shows "int (length (filter P (xs[f := y]))) = int (length (filter P xs)) - of_bool (P (xs ! f)) + of_bool (P y)"
  using assms
proof (induction xs arbitrary: f)
  case (Cons x xs)
  then show ?case by (cases f) auto
qed simp

lemma stage_count_set:
  assumes "f < length (requests r)"
  shows "stage_count P (set_stage f st r) = stage_count P r - of_bool (P (snd (requests r ! f))) + of_bool (P st)"
  using count_update [OF assms, of "\<lambda>q. P (snd q)" "(fst (requests r ! f), st)"] by (simp add: stage_count_def set_stage_def)

lemma stage_count_requests: "requests r' = requests r \<Longrightarrow> stage_count P r' = stage_count P r"
  by (simp add: stage_count_def)

lemma stage_count_nonneg [simp]: "0 \<le> stage_count P r"
  by (simp add: stage_count_def)

lemma stage_count_pos:
  assumes "f < length (requests r)" "P (snd (requests r ! f))"
  shows "1 \<le> stage_count P r"
proof -
  have "requests r ! f \<in> set (filter (\<lambda>q. P (snd q)) (requests r))" using assms by simp
  then have "filter (\<lambda>q. P (snd q)) (requests r) \<noteq> []" by (metis empty_iff empty_set)
  then show ?thesis by (simp add: stage_count_def Suc_leI flip: length_greater_0_conv)
qed

lemma set_stage_simps [simp]:
  "model_name (set_stage f st r) = model_name r" "request_queue (set_stage f st r) = request_queue r"
  "handles (set_stage f st r) = handles r" "live_ids (set_stage f st r) = live_ids r"
  "starting_instances (set_stage f st r) = starting_instances r" "start_tasks (set_stage f st r) = start_tasks r"
  "ready_instances (set_stage f st r) = ready_instances r" "deleting_instances (set_stage f st r) = deleting_instances r"
  "stop_tasks (set_stage f st r) = stop_tasks r"
  "request_count (set_stage f st r) = request_count r" "running (set_stage f st r) = running r"
  "auto_scaler_task (set_stage f st r) = auto_scaler_task r" "load_balancer (set_stage f st r) = load_balancer r"
  "length (requests (set_stage f st r)) = length (requests r)"
  by (simp_all add: set_stage_def live_ids_def halting_ids_def)

lemma set_stage_nth [simp]:
  "f < length (requests r) \<Longrightarrow> snd (requests (set_stage f st r) ! k) = (if k = f then st else snd (requests r ! k))"
  by (simp add: set_stage_def nth_list_update)

lemma with_handle_simps [simp]:
  "model_name (with_handle i g r) = model_name r" "request_queue (with_handle i g r) = request_queue r"
  "requests (with_handle i g r) = requests r" "starting_instances (with_handle i g r) = starting_instances r"
  "ready_instances (with_handle i g r) = ready_instances r" "deleting_instances (with_handle i g r) = deleting_instances r"
  "start_tasks (with_handle i g r) = start_tasks r" "stop_tasks (with_handle i g r) = stop_tasks r"
  "request_count (with_handle i g r) = request_count r" "running (with_handle i g r) = running r"
  "auto_scaler_task (with_handle i g r) = auto_scaler_task r" "load_balancer (with_handle i g r) = load_balancer r"
  "live_ids (with_handle i g r) = live_ids r" "fst ` set (handles (with_handle i g r)) = fst ` set (handles r)"
  "map_of (handles (with_handle i g r)) j = (if j = i then map_option g (map_of (handles r) j) else map_of (handles r) j)"
  by (simp_all add: with_handle_def live_ids_def halting_ids_def) (auto simp: dom_def simp flip: dom_map_of_conv_image_fst)

lemma queue_inv_cong:
  assumes "queue_inv r" "request_queue r' = request_queue r" "load_balancer r' = load_balancer r" "requests r' = requests r"
    "running r' = running r" "auto_scaler_task r' = auto_scaler_task r \<or> auto_scaler_task r' \<noteq> Not_started"
  shows "queue_inv r'"
  using assms by (auto simp: queue_inv_def)

lemma queue_inv_stage:
  assumes "queue_inv r" "f < length (requests r)" "snd (requests r ! f) \<noteq> Queued" "st \<noteq> Queued"
  shows "queue_inv (set_stage f st r)"
  using assms by (auto simp: queue_inv_def)

lemma complete_request_queue:
  assumes "queue_inv r" "f < length (requests r)" "snd (requests r ! f) \<noteq> Queued"
  shows "queue_inv (complete_request f i reply r)"
  unfolding complete_request_def Let_def
  by (rule queue_inv_stage) (use assms in \<open>auto intro: queue_inv_cong [OF assms(1)]\<close>)

lemma resume_inference_queue:
  assumes "queue_inv r" "f < length (requests r)" "snd (requests r ! f) \<noteq> Queued"
  shows "queue_inv (resume_inference f i r)"
  using assms by (auto simp: resume_inference_def intro: queue_inv_stage complete_request_queue split: option.split)

lemma try_assign_queue:
  assumes "queue_inv r" "in_hand (load_balancer r) = [f]"
  shows "queue_inv (try_assign f i h r)"
proof -
  have f: "f < length (requests r)" and task: "auto_scaler_task r \<noteq> Not_started" using assms by (auto simp: queue_inv_def)
  have "queue_inv (set_stage f (Assigned i) (with_handle i g r\<lparr> load_balancer := Idle \<rparr>))" for g
    using assms f task by (auto simp: queue_inv_def)
  moreover have "queue_inv (r\<lparr> load_balancer := Backoff f \<rparr>)" using assms task by (auto simp: queue_inv_def)
  ultimately show ?thesis by (auto simp: try_assign_def split: prod.split)
qed

lemma polled_queue:
  assumes "queue_inv r" "in_hand (load_balancer r) = [f]"
  shows "queue_inv (r\<lparr> load_balancer := Polled f opts \<rparr>)"
  using assms by (auto simp: queue_inv_def)

lemma balancer_get_queue: "queue_inv r \<Longrightarrow> queue_inv (balancer_get r)"
  by (auto simp: balancer_get_def queue_inv_def split: balancer.split list.split)

lemma balancer_wake_queue:
  assumes "queue_inv r"
  shows "queue_inv (balancer_wake r)"
proof (cases "load_balancer r")
  case (Polled f opts)
  define r1 where "r1 = r\<lparr> round_robin_index := round_robin_index r + 1 \<rparr>"
  have r1: "queue_inv r1" "in_hand (load_balancer r1) = [f]"
    using queue_inv_cong [OF assms, of r1] by (simp_all add: r1_def Polled)
  have hand: "in_hand (load_balancer r) = [f]" by (simp add: Polled)
  show ?thesis
    using polled_queue [OF assms hand] polled_queue [OF r1] try_assign_queue [OF r1] r1(1)
    by (simp add: balancer_wake_def Polled Let_def r1_def split: option.split)
next
  case (Backoff f)
  then show ?thesis using polled_queue [OF assms, of f] by (simp add: balancer_wake_def)
qed (use assms in \<open>simp_all add: balancer_wake_def\<close>)

lemma inference_queue:
  assumes "queue_inv r"
  shows "queue_inv (fst (inference action r))"
proof (cases "running r")
  case True
  let ?q = "request_queue r @ in_hand (load_balancer r)"
  have old: "\<forall>f \<in> set ?q. f < length (requests r) \<and> snd (requests r ! f) = Queued" "distinct ?q" "auto_scaler_task r \<noteq> Not_started"
    "\<forall>f < length (requests r). snd (requests r ! f) = Queued \<longrightarrow> f \<in> set ?q"
    using assms True unfolding queue_inv_def by blast+
  have "length (requests r) \<notin> set ?q" using old(1) by blast
  moreover have "\<forall>f < Suc (length (requests r)). snd ((requests r @ [(action, Queued)]) ! f) = Queued \<longrightarrow> f = length (requests r) \<or> f \<in> set ?q"
    using old(4) by (simp add: nth_append less_Suc_eq)
  moreover have "\<forall>f \<in> set ?q. f < Suc (length (requests r)) \<and> snd ((requests r @ [(action, Queued)]) ! f) = Queued"
    using old(1) by (metis less_SucI nth_append_left)
  ultimately show ?thesis using True old(2,3) by (simp add: inference_def queue_inv_def)
qed (simp add: inference_def assms)

lemma router_step_queue:
  assumes "router_step r c r'" and inv: "queue_inv r"
  shows "queue_inv r'"
  using assms(1)
proof cases
  case (rs_start config)
  then show ?thesis using inv by (auto simp: queue_inv_def start_router_def)
next
  case (rs_inference action)
  then show ?thesis using inference_queue [OF inv] by simp
next
  case (rs_answer f i outcome)
  then show ?thesis using inv by (auto simp: finish_inference_def intro: queue_inv_stage complete_request_queue split: sum.split)
next
  case rs_shutdown
  then show ?thesis using inv by (auto simp: queue_inv_def shutdown_router_def split: list.split)
next
  case (rs_scale new_id)
  then show ?thesis using inv
    by (auto simp: scaler_iteration_def create_instance_def stop_instance_def Let_def intro!: queue_inv_cong [OF inv] split: option.split sum.split)
qed (use inv in \<open>auto simp: resume_inference_queue balancer_get_queue balancer_wake_queue update_router_def stop_instance_def start_entry_def
      set_phase_def start_allocated_def start_booted_def start_initialized_def to_ready_def finish_entry_def set_halting_def
      shutdown_entry_def halt_done_def Let_def intro!: queue_inv_cong [OF inv] split: option.split sum.split\<close>)

text \<open>Slots: a step keeps what a handle has taken in line with the requests that hold a slot.\<close>

lemma slots_inv_cong:
  assumes "slots_inv r" "requests r' = requests r" "request_count r' = request_count r" "handles r' = handles r"
  shows "slots_inv r'"
  using assms unfolding slots_inv_def by (simp add: stage_count_requests [OF assms(2)])

lemma slots_with_handle:
  assumes "slots_inv r"
    and "\<And>h. concurrency (g h) = concurrency h" "\<And>h. max_queue_length (g h) = max_queue_length h" "\<And>h. ready h \<Longrightarrow> ready (g h)"
  shows "slots_inv (with_handle i g r)"
proof -
  have ok: "slot_ok n (g h) = slot_ok n h" for n h by (simp add: slot_ok_def assms)
  have cnt: "stage_count P (with_handle i g r) = stage_count P r" for P by (rule stage_count_requests) simp
  have "\<exists>h. map_of (handles (with_handle i g r)) j = Some h \<and> ready h" if "map_of (handles r) j = Some h'" "ready h'" for j h'
    using that assms(4) by auto
  moreover have "slot_ok n h" if "map_of (handles (with_handle i g r)) j = Some h" "\<And>h. map_of (handles r) j = Some h \<Longrightarrow> slot_ok n h" for j h n
    using that by (auto simp: ok split: if_splits)
  ultimately show ?thesis using assms(1) unfolding slots_inv_def cnt with_handle_simps(3,9) by meson
qed

lemma slots_stage:
  assumes "slots_inv r" "f < length (requests r)" "\<And>i. occupies i st = occupies i (snd (requests r ! f))"
    "answered st = answered (snd (requests r ! f))"
  shows "slots_inv (set_stage f st r)"
  using assms(1,2) unfolding slots_inv_def by (auto simp: stage_count_set assms(3,4))

lemma occupies_unique: "occupies i st \<Longrightarrow> occupies j st \<longleftrightarrow> i = j"
  by (cases st) auto

lemma occupies_not_answered: "occupies i st \<Longrightarrow> \<not> answered st"
  by (cases st) auto

lemma complete_request_slots:
  assumes "slots_inv r" "f < length (requests r)" "occupies i (snd (requests r ! f))"
  shows "slots_inv (complete_request f i reply r)"
proof -
  let ?r = "complete_request f i reply r"
  obtain h where h: "map_of (handles r) i = Some h" "ready h" using assms unfolding slots_inv_def by blast
  then have c: "concurrency h = stage_count (occupies i) r" "concurrency h \<le> max_queue_length h \<or> concurrency h = 0"
    using assms(1) by (auto simp: slots_inv_def slot_ok_def)
  have pos: "1 \<le> concurrency h" unfolding c(1) using assms(2,3) by (rule stage_count_pos)
  have add: "fst (add_requests (-1) h) = h\<lparr> concurrency := concurrency h - 1 \<rparr>" using h(2) c(2) pos by (simp add: add_requests_def)
  have hs: "map_of (handles ?r) j = (if j = i then Some (h\<lparr> concurrency := concurrency h - 1 \<rparr>) else map_of (handles r) j)" for j
    by (simp add: complete_request_def Let_def h(1) add)
  have cnt: "stage_count P ?r = stage_count P r - of_bool (P (snd (requests r ! f))) + of_bool (P (Answered reply))" for P
    unfolding complete_request_def Let_def by (subst stage_count_set) (use assms(2) in \<open>auto simp: stage_count_def\<close>)
  have stages: "snd (requests ?r ! k) = (if k = f then Answered reply else snd (requests r ! k))" "length (requests ?r) = length (requests r)" for k
    using assms(2) by (simp_all add: complete_request_def Let_def)
  have "request_count ?r = request_count r - 1" by (simp add: complete_request_def Let_def)
  moreover have "of_bool (occupies j (snd (requests r ! f))) = (if j = i then 1 else 0 :: int)" for j
    using occupies_unique [OF assms(3), of j] by simp
  moreover have "slot_ok (stage_count (occupies i) r - 1) (h\<lparr> concurrency := concurrency h - 1 \<rparr>)"
    using c pos by (auto simp: slot_ok_def)
  ultimately show ?thesis
    using assms(1) h(2) occupies_not_answered [OF assms(3)] unfolding slots_inv_def cnt hs stages by auto
qed

lemma resume_inference_slots:
  assumes "slots_inv r" "f < length (requests r)" "snd (requests r ! f) = Assigned i"
  shows "slots_inv (resume_inference f i r)"
  using assms by (auto simp: resume_inference_def intro!: slots_stage complete_request_slots split: option.split)

lemma try_assign_slots:
  assumes "slots_inv r" "f < length (requests r)" "snd (requests r ! f) = Queued" and h: "map_of (handles r) i = Some h"
  shows "slots_inv (try_assign f i h r)"
proof (cases "check_request_queue h \<and> ready h")
  case True
  have c: "concurrency h = stage_count (occupies i) r" using assms(1) h by (simp add: slots_inv_def slot_ok_def)
  let ?h = "h\<lparr> concurrency := concurrency h + 1 \<rparr>"
  have "0 \<le> concurrency h" using c by simp
  then have add: "add_requests 1 h = (?h, True)" using True by (simp add: add_requests_def check_request_queue_def)
  let ?r = "set_stage f (Assigned i) (with_handle i (\<lambda>_. ?h) r\<lparr> load_balancer := Idle \<rparr>)"
  have cnt: "stage_count P ?r = stage_count P r - of_bool (P Queued) + of_bool (P (Assigned i))" for P
    by (subst stage_count_set) (use assms(2,3) in \<open>auto simp: stage_count_def\<close>)
  have hs: "map_of (handles ?r) j = (if j = i then Some ?h else map_of (handles r) j)" for j by (simp add: h)
  have stages: "snd (requests ?r ! k) = (if k = f then Assigned i else snd (requests r ! k))" "length (requests ?r) = length (requests r)"
    "request_count ?r = request_count r" for k using assms(2) by simp_all
  have "slot_ok (stage_count (occupies i) r + 1) ?h" using True c by (auto simp: slot_ok_def check_request_queue_def)
  then have "slots_inv ?r" using assms(1) True unfolding slots_inv_def cnt hs stages by auto
  then show ?thesis using True by (simp add: try_assign_def add)
next
  case False
  have "slots_inv (r\<lparr> load_balancer := Backoff f \<rparr>)" by (rule slots_inv_cong [OF assms(1)]) auto
  then show ?thesis using False by (auto simp: try_assign_def add_requests_def)
qed

lemma balancer_wake_slots:
  assumes "slots_inv r" "queue_inv r"
  shows "slots_inv (balancer_wake r)"
proof (cases "load_balancer r")
  case (Polled f opts)
  define r1 where "r1 = r\<lparr> round_robin_index := round_robin_index r + 1 \<rparr>"
  have r1: "slots_inv r1" by (rule slots_inv_cong [OF assms(1)]) (auto simp: r1_def)
  have f: "f < length (requests r1)" "snd (requests r1 ! f) = Queued" using assms(2) Polled by (simp_all add: queue_inv_def r1_def)
  have "slots_inv (r\<lparr> load_balancer := b \<rparr>)" "slots_inv (r1\<lparr> load_balancer := b \<rparr>)" for b
    by (rule slots_inv_cong [OF assms(1)]; auto simp: r1_def)+
  then show ?thesis using try_assign_slots [OF r1 f] r1
    by (simp add: balancer_wake_def Polled Let_def r1_def split: option.split)
next
  case (Backoff f)
  have "slots_inv (r\<lparr> load_balancer := b \<rparr>)" for b by (rule slots_inv_cong [OF assms(1)]) auto
  then show ?thesis using Backoff by (simp add: balancer_wake_def)
qed (use assms in \<open>simp_all add: balancer_wake_def\<close>)

lemma create_instance_slots:
  assumes "slots_inv r" "new_id \<notin> fst ` set (handles r)"
  shows "slots_inv (create_instance new_id config r)"
proof -
  have none: "map_of (handles r) new_id = None" using assms(2) by (simp add: map_of_eq_None_iff)
  then have zero: "stage_count (occupies new_id) r = 0"
    using assms(1) by (fastforce simp: slots_inv_def stage_count_def filter_empty_conv in_set_conv_nth)
  let ?r = "create_instance new_id config r"
  have hs: "map_of (handles ?r) = (map_of (handles r))(new_id \<mapsto> new_handle new_id
      (if config_get (metric config) '''' = ''concurrency'' then config_get (target config) 1 else 1) (required_gpus r))"
    by (simp add: create_instance_def Let_def update_conv')
  have same: "requests ?r = requests r" "request_count ?r = request_count r" by (simp_all add: create_instance_def Let_def)
  have "slot_ok 0 (new_handle new_id q g)" for q g by (simp add: slot_ok_def new_handle_def)
  moreover have "slot_ok n h" if "map_of (handles ?r) i = Some h" "\<And>h. map_of (handles r) i = Some h \<Longrightarrow> slot_ok n h" "i = new_id \<Longrightarrow> n = 0"
    "\<And>q g. slot_ok 0 (new_handle new_id q g)" for i n h
    using that unfolding hs by (auto split: if_splits)
  moreover have "\<exists>h. map_of (handles ?r) i = Some h \<and> ready h" if "map_of (handles r) i = Some h'" "ready h'" for i h'
    using that none unfolding hs by auto
  ultimately show ?thesis
    using assms(1) zero unfolding slots_inv_def stage_count_requests [OF same(1)] same by metis
qed

lemma slots_with_phase:
  assumes "slots_inv r"
  shows "slots_inv (set_phase i ph r)" "slots_inv (to_ready i r)"
  by (rule slots_inv_cong [OF assms]; simp add: set_phase_def to_ready_def)+

lemma set_halting_slots: "slots_inv r \<Longrightarrow> slots_inv (set_halting i r)"
  unfolding set_halting_def by (rule slots_inv_cong [where r = "with_handle i (\<lambda>h. h\<lparr> status := Some False \<rparr>) r"])
    (auto intro: slots_with_handle)

lemma stop_instance_slots: "slots_inv r \<Longrightarrow> slots_inv (stop_instance r)"
  by (rule slots_inv_cong [where r = r]) (auto simp: stop_instance_def Let_def)

lemma scaler_iteration_slots:
  assumes "slots_inv r" "new_id \<notin> fst ` set (handles r)"
  shows "slots_inv (scaler_iteration new_id r)"
  using create_instance_slots [OF assms] stop_instance_slots [OF assms(1)] assms(1)
    slots_inv_cong [OF assms(1), of "r\<lparr> auto_scaler_task := b \<rparr>" for b] slots_inv_cong [OF assms(1), of "r\<lparr> idle_time := b \<rparr>" for b]
  by (simp add: scaler_iteration_def Let_def split: option.split sum.split)

lemma inference_slots:
  assumes "slots_inv r"
  shows "slots_inv (fst (inference action r))"
proof (cases "running r")
  case True
  let ?r = "fst (inference action r)"
  have cnt: "stage_count P ?r = stage_count P r + of_bool (P Queued)" for P using True by (simp add: inference_def stage_count_def)
  have "requests ?r ! f = (if f < length (requests r) then requests r ! f else (action, Queued))" if "f < length (requests ?r)" for f
    using that True by (auto simp: inference_def nth_append less_Suc_eq)
  moreover have "handles ?r = handles r" "request_count ?r = request_count r + 1" using True by (simp_all add: inference_def)
  ultimately show ?thesis using assms unfolding slots_inv_def cnt by (auto split: if_splits)
qed (simp add: inference_def assms)

lemma start_allocated_slots:
  assumes "slots_inv r"
  shows "slots_inv (start_allocated i node r)"
proof -
  have "slots_inv (r\<lparr> store_address := a \<rparr>)" for a by (rule slots_inv_cong [OF assms]) auto
  then show ?thesis using assms
    by (auto simp: start_allocated_def Let_def intro!: slots_with_phase slots_with_handle split: option.split)
qed

lemma shutdown_entry_slots:
  assumes "slots_inv r"
  shows "slots_inv (shutdown_entry i r)"
proof -
  define r1 where "r1 = r\<lparr> stop_tasks := remove1 (i, Shutdown_queued) (stop_tasks r) \<rparr>"
  define r2 where "r2 = r1\<lparr> ready_instances := remove1 i (ready_instances r1) \<rparr>"
  have "slots_inv r1" "slots_inv r2" by (rule slots_inv_cong [OF assms]; simp add: r1_def r2_def)+
  then show ?thesis
    unfolding shutdown_entry_def Let_def r1_def [symmetric] r2_def [symmetric]
    by (auto intro: set_halting_slots slots_with_handle split: option.split)
qed

lemma finish_entry_slots:
  assumes "slots_inv r"
  shows "slots_inv (finish_entry i r)"
proof -
  define r1 where "r1 = r\<lparr> stop_tasks := remove1 (i, Finish_queued) (stop_tasks r) \<rparr>"
  have "slots_inv r1" "slots_inv (r1\<lparr> deleting_instances := d \<rparr>)" for d by (rule slots_inv_cong [OF assms]; simp add: r1_def)+
  then show ?thesis unfolding finish_entry_def Let_def r1_def [symmetric] by (auto intro: set_halting_slots)
qed

lemma router_step_slots:
  assumes "router_step r c r'" and inv: "slots_inv r" "queue_inv r"
  shows "slots_inv r'"
  using assms(1)
proof cases
  case (rs_answer f i outcome)
  then show ?thesis using inv by (auto simp: finish_inference_def intro!: slots_stage complete_request_slots split: sum.split)
next
  case (rs_booted i node booted)
  then show ?thesis using inv by (auto simp: start_booted_def intro!: slots_with_phase slots_with_handle split: sum.split)
next
  case (rs_initialized i booted)
  then show ?thesis using inv by (auto simp: start_initialized_def intro!: slots_with_phase split: sum.split)
next
  case rs_get
  show ?thesis unfolding rs_get by (rule slots_inv_cong [OF inv(1)]; simp add: balancer_get_def split: balancer.split list.split)
next
  case rs_shutdown
  show ?thesis unfolding rs_shutdown by (rule slots_inv_cong [OF inv(1)]; simp add: shutdown_router_def split: list.split)
qed (use inv in \<open>simp_all add: inference_slots resume_inference_slots balancer_wake_slots scaler_iteration_slots stop_instance_slots
      start_allocated_slots finish_entry_slots shutdown_entry_slots\<close>,
     (rule slots_inv_cong [OF inv(1)]; simp add: start_router_def update_router_def start_entry_def set_phase_def halt_done_def)+)

text \<open>Life cycle: an instance is in at most one place, and it is ready once it has left the first.\<close>

lemma halting_simps [simp]:
  "halting_ids (r\<lparr> stop_tasks := ts @ [(i, ph)] \<rparr>) = map fst (filter (\<lambda>(i, ph). ph = Halting) ts) @ (if ph = Halting then [i] else [])"
  "ph \<noteq> Halting \<Longrightarrow> halting_ids (r\<lparr> stop_tasks := ts @ map (\<lambda>i. (i, ph)) is \<rparr>) = map fst (filter (\<lambda>(i, ph). ph = Halting) ts)"
  by (simp_all add: halting_ids_def comp_def)

lemma mset_Cons_part:
  assumes "mset xs = mset (x # ys)" "distinct xs"
  shows "distinct ys" "set ys \<subseteq> set xs"
  using mset_eq_imp_distinct_iff [OF assms(1)] mset_eq_setD [OF assms(1)] assms(2) by auto

lemma filter_remove1_id: "\<not> P x \<Longrightarrow> filter P (remove1 x xs) = filter P xs"
  by (induction xs) auto

lemma lifecycle_cong:
  assumes "lifecycle_inv r" "live_ids r' = live_ids r" "starting_instances r' = starting_instances r" "start_tasks r' = start_tasks r"
    "handles r' = handles r"
  shows "lifecycle_inv r'"
  using assms(1) unfolding lifecycle_inv_def assms(2-) .

lemma lifecycle_with_handle:
  assumes "lifecycle_inv r" "\<And>h. map_of (handles r) i = Some h \<Longrightarrow> ready h \<Longrightarrow> ready (g h)"
  shows "lifecycle_inv (with_handle i g r)"
proof -
  have "ready h" if "map_of (handles (with_handle i g r)) j = Some h" "\<And>h'. map_of (handles r) j = Some h' \<Longrightarrow> ready h'" for j h
    using that assms(2) by (auto split: if_splits)
  then show ?thesis using assms(1) unfolding lifecycle_inv_def with_handle_simps(4,7,13,14) by meson
qed

text \<open>Moving ids towards the end of their life keeps the invariant.\<close>

lemma lifecycle_shrink:
  assumes "lifecycle_inv r" "distinct (live_ids r')" "set (live_ids r') \<subseteq> set (live_ids r)"
    "starting_instances r' = starting_instances r" "start_tasks r' = start_tasks r" "handles r' = handles r"
  shows "lifecycle_inv r'"
  using assms(1-3) unfolding lifecycle_inv_def assms(4-) by blast

lemma lifecycle_phase:
  assumes "lifecycle_inv r" "i \<in> set (starting_instances r)" "ph = Initializing \<Longrightarrow> \<exists>h. map_of (handles r) i = Some h \<and> ready h"
  shows "lifecycle_inv (set_phase i ph r)"
proof -
  have key: "i \<in> fst ` set (start_tasks r)" using assms(1,2) by (simp add: lifecycle_inv_def)
  let ?r = "set_phase i ph r"
  have same: "live_ids ?r = live_ids r" "starting_instances ?r = starting_instances r" "handles ?r = handles r"
    by (simp_all add: set_phase_def live_ids_def halting_ids_def)
  have tasks: "map fst (start_tasks ?r) = map fst (start_tasks r)" unfolding set_phase_def by (simp add: keys_update [OF key])
  then have keys: "fst ` set (start_tasks ?r) = fst ` set (start_tasks r)" by (metis list.set_map)
  have phases: "map_of (start_tasks ?r) j = (if j = i then Some ph else map_of (start_tasks r) j)" for j
    by (simp add: set_phase_def update_conv')
  show ?thesis using assms(1,3) unfolding lifecycle_inv_def same tasks keys phases by (auto split: if_splits)
qed

lemma live_handle:
  assumes "lifecycle_inv r" "i \<in> set (live_ids r)"
  shows "\<exists>h. map_of (handles r) i = Some h"
  by (rule map_of_mem) (use assms in \<open>auto simp: lifecycle_inv_def\<close>)

lemma starting_task: "lifecycle_inv r \<Longrightarrow> map_of (start_tasks r) i = Some ph \<Longrightarrow> i \<in> set (starting_instances r)"
  by (auto simp: lifecycle_inv_def dest!: map_of_SomeD) (metis fst_conv image_eqI)

lemma set_stop_parts:
  "starting_instances (set_halting i r) = starting_instances r" "ready_instances (set_halting i r) = ready_instances r"
  "deleting_instances (set_halting i r) = deleting_instances r" "halting_ids (set_halting i r) = halting_ids r @ [i]"
  by (simp_all add: set_halting_def) (simp add: halting_ids_def)

lemma to_ready_lifecycle:
  assumes inv: "lifecycle_inv r" and i: "i \<in> set (starting_instances r)" and h: "map_of (handles r) i = Some h" "ready h"
  shows "lifecycle_inv (to_ready i r)"
proof -
  let ?r = "to_ready i r"
  have d: "distinct (live_ids r)" and i': "i \<notin> set (ready_instances r)" using inv i by (auto simp: lifecycle_inv_def live_ids_def)
  have halt: "halting_ids ?r = halting_ids r" by (simp add: to_ready_def halting_ids_def)
  have live: "mset (live_ids ?r) = mset (live_ids r)"
    using i i' by (simp add: live_ids_def halt) (simp add: to_ready_def put_key_def)
  have "distinct (live_ids ?r)" using mset_eq_imp_distinct_iff [OF live] d by simp
  moreover have "set (live_ids ?r) = set (live_ids r)" using live by (metis set_mset_mset)
  moreover have "handles ?r = handles r" "start_tasks ?r = AList.delete i (start_tasks r)" by (simp_all add: to_ready_def)
  moreover have "set (starting_instances ?r) = set (starting_instances r) - {i}" using d by (simp add: to_ready_def live_ids_def)
  moreover have "fst ` set (AList.delete i (start_tasks r)) = fst ` set (start_tasks r) - {i}"
    by (metis delete_keys list.set_map set_removeAll)
  ultimately show ?thesis using inv h unfolding lifecycle_inv_def by (auto simp: delete_conv' distinct_delete)
qed

lemma create_instance_lifecycle:
  assumes inv: "lifecycle_inv r" and new: "new_id \<notin> fst ` set (handles r)"
  shows "lifecycle_inv (create_instance new_id config r)"
proof -
  let ?r = "create_instance new_id config r"
  have fresh: "new_id \<notin> set (live_ids r)" using inv new by (auto simp: lifecycle_inv_def)
  then have f': "new_id \<notin> set (starting_instances r)" "new_id \<notin> fst ` set (start_tasks r)" using inv by (auto simp: lifecycle_inv_def live_ids_def)
  have parts: "starting_instances ?r = starting_instances r @ [new_id]" "start_tasks ?r = start_tasks r @ [(new_id, Created)]"
    "ready_instances ?r = ready_instances r" "deleting_instances ?r = deleting_instances r" "halting_ids ?r = halting_ids r"
    using f' by (simp_all add: create_instance_def put_key_def Let_def halting_ids_def)
  have live: "mset (live_ids ?r) = mset (new_id # live_ids r)" by (simp add: live_ids_def parts)
  have dist: "distinct (live_ids ?r)" using mset_eq_imp_distinct_iff [OF live] fresh inv by (simp add: lifecycle_inv_def)
  have lives: "set (live_ids ?r) = insert new_id (set (live_ids r))" using live by (metis list.simps(15) set_mset_mset)
  have hs: "fst ` set (handles ?r) = insert new_id (fst ` set (handles r))"
    by (simp add: create_instance_def Let_def dom_update insert_commute)
  have "map_of (handles ?r) i = map_of (handles r) i" if "i \<noteq> new_id" for i using that
    by (simp add: create_instance_def Let_def update_conv')
  moreover have "map_of (start_tasks ?r) i = map_of (start_tasks r) i" if "i \<noteq> new_id" for i using that by (simp add: parts map_add_def split: option.split)
  moreover have "map_of (start_tasks ?r) new_id = Some Created"
    using f'(2) by (simp add: parts map_add_def map_of_eq_None_iff [THEN iffD2])
  ultimately have "i \<notin> set (starting_instances ?r) \<or> map_of (start_tasks ?r) i = Some Initializing \<longrightarrow> ready h"
    if "map_of (handles ?r) i = Some h" for i h
    using that inv unfolding lifecycle_inv_def parts(1) by (cases "i = new_id") auto
  moreover have "distinct (map fst (start_tasks ?r))" "fst ` set (start_tasks ?r) = set (starting_instances ?r)"
    using inv f' by (auto simp: lifecycle_inv_def parts)
  moreover have "set (live_ids ?r) \<subseteq> fst ` set (handles ?r)" using lives hs inv by (auto simp: lifecycle_inv_def)
  ultimately show ?thesis using dist unfolding lifecycle_inv_def by blast
qed

lemma stop_instance_lifecycle:
  assumes inv: "lifecycle_inv r"
  shows "lifecycle_inv (stop_instance r)"
proof (cases "ready_instances r" rule: rev_cases)
  case Nil
  then show ?thesis by (simp add: stop_instance_def) (rule lifecycle_cong [OF inv]; simp add: live_ids_def halting_ids_def)
next
  case (snoc rs i)
  let ?r = "stop_instance r"
  have i: "i \<notin> set (deleting_instances r)" using inv snoc by (auto simp: lifecycle_inv_def live_ids_def)
  have parts: "starting_instances ?r = starting_instances r" "ready_instances ?r = rs" "deleting_instances ?r = deleting_instances r @ [i]"
    "start_tasks ?r = start_tasks r" "handles ?r = handles r" "halting_ids ?r = halting_ids r"
    using snoc i by (simp_all add: stop_instance_def Let_def put_key_def halting_ids_def)
  have live: "mset (live_ids ?r) = mset (live_ids r)" by (simp add: live_ids_def parts snoc)
  have "distinct (live_ids ?r)" "set (live_ids ?r) = set (live_ids r)"
    using mset_eq_imp_distinct_iff [OF live] mset_eq_setD [OF live] inv by (simp_all add: lifecycle_inv_def)
  then show ?thesis using inv by (auto intro: lifecycle_shrink simp: parts)
qed

lemma set_halting_lifecycle:
  assumes inv: "lifecycle_inv r" and same: "starting_instances r1 = starting_instances r" "start_tasks r1 = start_tasks r" "handles r1 = handles r"
    and live: "mset (live_ids r) = add_mset i (mset (live_ids r1))"
  shows "lifecycle_inv (set_halting i r1)"
proof -
  let ?g = "\<lambda>h. h\<lparr> status := Some False \<rparr>" and ?r = "set_halting i r1"
  have "mset (live_ids ?r) = mset (live_ids r)" unfolding live by (simp add: live_ids_def set_stop_parts)
  then have "distinct (live_ids ?r)" "set (live_ids ?r) = set (live_ids r)"
    using mset_eq_imp_distinct_iff mset_eq_setD inv unfolding lifecycle_inv_def by metis+
  moreover have "lifecycle_inv (with_handle i ?g r)" using inv by (rule lifecycle_with_handle) simp
  moreover have "handles ?r = handles (with_handle i ?g r)" "start_tasks ?r = start_tasks r"
    using same by (simp_all add: set_halting_def with_handle_def)
  ultimately show ?thesis using same by (auto intro: lifecycle_shrink [of "with_handle i ?g r"] simp: set_stop_parts)
qed

lemma finish_entry_lifecycle:
  assumes inv: "lifecycle_inv r"
  shows "lifecycle_inv (finish_entry i r)"
proof (cases "i \<in> set (deleting_instances r)")
  case True
  define r1 where "r1 = r\<lparr> stop_tasks := remove1 (i, Finish_queued) (stop_tasks r), deleting_instances := remove1 i (deleting_instances r) \<rparr>"
  have "lifecycle_inv (set_halting i r1)"
    using True by (intro set_halting_lifecycle [OF inv]) (simp_all add: r1_def live_ids_def halting_ids_def filter_remove1_id)
  then show ?thesis using True by (simp add: finish_entry_def r1_def Let_def)
next
  case False
  then show ?thesis by (simp add: finish_entry_def Let_def) (rule lifecycle_cong [OF inv]; simp add: live_ids_def halting_ids_def filter_remove1_id)
qed

lemma shutdown_entry_lifecycle:
  assumes inv: "lifecycle_inv r"
  shows "lifecycle_inv (shutdown_entry i r)"
proof (cases "i \<in> set (ready_instances r)")
  case True
  define r1 where "r1 = r\<lparr> stop_tasks := remove1 (i, Shutdown_queued) (stop_tasks r) \<rparr>"
  define r2 where "r2 = r1\<lparr> ready_instances := remove1 i (ready_instances r1) \<rparr>"
  have live: "mset (live_ids r) = add_mset i (mset (live_ids r2))"
    using True by (simp add: r1_def r2_def live_ids_def halting_ids_def filter_remove1_id)
  have "lifecycle_inv (set_halting i r2)" by (rule set_halting_lifecycle [OF inv _ _ _ live]) (simp_all add: r1_def r2_def)
  moreover have "mset (live_ids r) = mset (i # live_ids r2)" using live by simp
  from mset_Cons_part [OF this] have "lifecycle_inv r2"
    using inv by (intro lifecycle_shrink [OF inv]) (simp_all add: lifecycle_inv_def r1_def r2_def)
  moreover from this have "lifecycle_inv (with_handle i (\<lambda>h. h\<lparr> status := Some False \<rparr>) r2)" by (rule lifecycle_with_handle) simp
  ultimately show ?thesis using True
    unfolding shutdown_entry_def Let_def r1_def [symmetric] r2_def [symmetric] by (auto split: option.split)
next
  case False
  then show ?thesis by (simp add: shutdown_entry_def Let_def) (rule lifecycle_cong [OF inv]; simp add: live_ids_def halting_ids_def filter_remove1_id)
qed

lemma halt_done_live:
  assumes i: "(i, Halting) \<in> set (stop_tasks r)"
  shows "mset (live_ids r) = mset (i # live_ids (fst (halt_done i outcome r)))"
proof -
  let ?r = "fst (halt_done i outcome r)"
  have "mset (map fst (filter (\<lambda>(i, ph). ph = Halting) ts)) = add_mset i (mset (map fst (filter (\<lambda>(i, ph). ph = Halting) (remove1 (i, Halting) ts))))"
    if "(i, Halting) \<in> set ts" for ts using that by (induction ts) auto
  then have "mset (halting_ids r) = add_mset i (mset (halting_ids ?r))" using i by (simp add: halting_ids_def halt_done_def)
  then show ?thesis by (simp add: live_ids_def) (simp add: halt_done_def)
qed

lemma halt_done_lifecycle:
  assumes inv: "lifecycle_inv r" and i: "(i, Halting) \<in> set (stop_tasks r)"
  shows "lifecycle_inv (fst (halt_done i outcome r))"
  using mset_Cons_part [OF halt_done_live [OF i, of outcome]] inv
  by (intro lifecycle_shrink [OF inv]) (simp_all add: lifecycle_inv_def halt_done_def)

lemma start_allocated_lifecycle:
  assumes inv: "lifecycle_inv r" and i: "i \<in> set (starting_instances r)"
  shows "lifecycle_inv (start_allocated i node r)"
proof -
  have "lifecycle_inv (r\<lparr> store_address := a \<rparr>)" for a by (rule lifecycle_cong [OF inv]) (simp_all add: live_ids_def halting_ids_def)
  then show ?thesis using inv i
    by (auto simp: start_allocated_def Let_def intro!: lifecycle_phase lifecycle_with_handle split: option.split)
qed

lemma start_booted_lifecycle:
  assumes inv: "lifecycle_inv r" and i: "i \<in> set (starting_instances r)"
  shows "lifecycle_inv (start_booted i node outcome r)"
proof -
  obtain h where "map_of (handles r) i = Some h" using live_handle [OF inv, of i] i by (auto simp: live_ids_def)
  then show ?thesis using inv i
    by (auto simp: start_booted_def intro!: lifecycle_phase to_ready_lifecycle lifecycle_with_handle split: sum.split)
qed

lemma start_initialized_lifecycle:
  assumes inv: "lifecycle_inv r" and i: "map_of (start_tasks r) i = Some Initializing"
  shows "lifecycle_inv (start_initialized i outcome r)"
proof -
  have s: "i \<in> set (starting_instances r)" using inv i by (rule starting_task)
  then obtain h where "map_of (handles r) i = Some h" using live_handle [OF inv, of i] by (auto simp: live_ids_def)
  moreover have "ready h" using calculation inv i by (auto simp: lifecycle_inv_def)
  ultimately show ?thesis using inv s
    by (auto simp: start_initialized_def intro!: lifecycle_phase to_ready_lifecycle split: sum.split)
qed

lemma scaler_iteration_lifecycle:
  assumes inv: "lifecycle_inv r" and new: "new_id \<notin> fst ` set (handles r)"
  shows "lifecycle_inv (scaler_iteration new_id r)"
  using create_instance_lifecycle [OF assms] stop_instance_lifecycle [OF inv] inv
    lifecycle_cong [OF inv, of "r\<lparr> auto_scaler_task := b \<rparr>" for b] lifecycle_cong [OF inv, of "r\<lparr> idle_time := b \<rparr>" for b]
  by (simp add: scaler_iteration_def Let_def live_ids_def halting_ids_def split: option.split sum.split)

lemma complete_request_lifecycle: "lifecycle_inv r \<Longrightarrow> lifecycle_inv (complete_request f i reply r)"
  by (rule lifecycle_cong [where r = "with_handle i (\<lambda>h. fst (add_requests (-1) h)) r"])
    (auto simp: complete_request_def Let_def live_ids_def halting_ids_def add_requests_def intro!: lifecycle_with_handle)

lemma set_stage_lifecycle: "lifecycle_inv r \<Longrightarrow> lifecycle_inv (set_stage f st r)"
  by (rule lifecycle_cong) auto

lemma balancer_lifecycle: "lifecycle_inv r \<Longrightarrow> lifecycle_inv (r\<lparr> load_balancer := b \<rparr>)"
  by (rule lifecycle_cong) (simp_all add: live_ids_def halting_ids_def)

lemma try_assign_lifecycle:
  assumes "lifecycle_inv r" "map_of (handles r) i = Some h"
  shows "lifecycle_inv (try_assign f i h r)"
proof -
  have "lifecycle_inv (with_handle i (\<lambda>_. h\<lparr> concurrency := c \<rparr>) r)" for c
    using assms(1) by (rule lifecycle_with_handle) (use assms(2) in simp)
  then show ?thesis using assms(1)
    by (simp add: try_assign_def add_requests_def set_stage_lifecycle balancer_lifecycle)
qed

lemma balancer_wake_lifecycle:
  assumes inv: "lifecycle_inv r"
  shows "lifecycle_inv (balancer_wake r)"
proof (cases "load_balancer r")
  case (Polled f opts)
  define r1 where "r1 = r\<lparr> round_robin_index := round_robin_index r + 1 \<rparr>"
  have r1: "lifecycle_inv r1" by (rule lifecycle_cong [OF inv]) (auto simp: r1_def live_ids_def halting_ids_def)
  show ?thesis using balancer_lifecycle [OF inv] balancer_lifecycle [OF r1] try_assign_lifecycle [OF r1] r1
    by (simp add: balancer_wake_def Polled Let_def r1_def split: option.split)
qed (use inv in \<open>simp_all add: balancer_wake_def balancer_lifecycle\<close>)

lemma resume_inference_lifecycle: "lifecycle_inv r \<Longrightarrow> lifecycle_inv (resume_inference f i r)"
  by (simp add: resume_inference_def set_stage_lifecycle complete_request_lifecycle split: option.split)

lemma router_step_lifecycle:
  assumes "router_step r c r'" and inv: "lifecycle_inv r"
  shows "lifecycle_inv r'"
  using assms(1)
proof cases
  case (rs_answer f i outcome)
  then show ?thesis using inv by (simp add: finish_inference_def set_stage_lifecycle complete_request_lifecycle split: sum.split)
next
  case (rs_start_entry i)
  then show ?thesis using lifecycle_phase [OF inv starting_task [OF inv], of i Created Allocating] starting_task [OF inv, of i Created]
    by (simp add: start_entry_def)
next
  case rs_get
  show ?thesis unfolding rs_get
    by (rule lifecycle_cong [OF inv]; simp add: balancer_get_def live_ids_def halting_ids_def split: balancer.split list.split)
next
  case rs_shutdown
  show ?thesis unfolding rs_shutdown
    by (rule lifecycle_cong [OF inv]; simp add: shutdown_router_def live_ids_def halting_ids_def comp_def split: list.split)
qed (use inv starting_task [OF inv] in \<open>simp_all add: resume_inference_lifecycle balancer_wake_lifecycle scaler_iteration_lifecycle
      stop_instance_lifecycle start_allocated_lifecycle start_booted_lifecycle start_initialized_lifecycle finish_entry_lifecycle
      shutdown_entry_lifecycle halt_done_lifecycle\<close>,
     (rule lifecycle_cong [OF inv]; simp add: start_router_def update_router_def inference_def live_ids_def halting_ids_def)+)

lemma init_router_inv: "router_inv (init_router name gpus be nodes)"
  by (simp add: router_inv_def init_router_def lifecycle_inv_def slots_inv_def queue_inv_def live_ids_def halting_ids_def stage_count_def)

lemma router_step_inv: "router_step r c r' \<Longrightarrow> router_inv r \<Longrightarrow> router_inv r'"
  by (simp add: router_inv_def router_step_lifecycle router_step_slots router_step_queue)

lemma router_reachable_inv:
  assumes "router_reachable r"
  shows "router_inv r"
proof -
  obtain name gpus be nodes where "(\<lambda>r r'. \<exists>c. router_step r c r')\<^sup>*\<^sup>* (init_router name gpus be nodes) r"
    using assms unfolding router_reachable_def by blast
  then show ?thesis by (induction rule: rtranclp_induct) (auto simp: init_router_inv intro: router_step_inv)
qed

section \<open>Round robin\<close>

text \<open>What the balancer needs of its pool: every ready instance has a handle that is ready.\<close>

definition pool_ok :: "router \<Rightarrow> bool" where
  "pool_ok r \<longleftrightarrow> (\<forall>i \<in> set (ready_instances r). \<exists>h. map_of (handles r) i = Some h \<and> ready h \<and> 0 \<le> concurrency h)"

lemma router_inv_pool:
  assumes "router_inv r"
  shows "pool_ok r"
  unfolding pool_ok_def
proof
  fix i assume i: "i \<in> set (ready_instances r)"
  then have live: "i \<in> set (live_ids r)" "i \<notin> set (starting_instances r)" using assms by (auto simp: router_inv_def lifecycle_inv_def live_ids_def)
  obtain h where "map_of (handles r) i = Some h" using live_handle live(1) assms unfolding router_inv_def by blast
  then show "\<exists>h. map_of (handles r) i = Some h \<and> ready h \<and> 0 \<le> concurrency h"
    using assms live(2) by (auto simp: router_inv_def lifecycle_inv_def slots_inv_def slot_ok_def)
qed

definition has_room :: "router \<Rightarrow> string \<Rightarrow> bool" where
  "has_room r i \<longleftrightarrow> (\<exists>h. map_of (handles r) i = Some h \<and> check_request_queue h)"

lemma wake_room:
  assumes "pool_ok r" "load_balancer r = Polled f (ready_instances r)" "f < length (requests r)"
    and i: "i = ready_instances r ! (round_robin_index r mod length (ready_instances r))" "ready_instances r \<noteq> []" "has_room r i"
  shows "snd (requests (balancer_wake r) ! f) = Assigned i"
proof -
  have mem: "i \<in> set (ready_instances r)" using i(1,2) by simp
  obtain h where h: "map_of (handles r) i = Some h" "ready h" "0 \<le> concurrency h" using assms(1) mem unfolding pool_ok_def by blast
  have "check_request_queue h" using i(3) h(1) by (simp add: has_room_def)
  then have "add_requests 1 h = (h\<lparr> concurrency := concurrency h + 1 \<rparr>, True)" using h by (simp add: add_requests_def check_request_queue_def)
  then show ?thesis using i(2) mem h(1) \<open>check_request_queue h\<close> assms(3)
    by (simp add: balancer_wake_def assms(2) Let_def try_assign_def flip: i(1))
qed

lemma wake_full:
  assumes "pool_ok r" "load_balancer r = Polled f (ready_instances r)"
    and i: "i = ready_instances r ! (round_robin_index r mod length (ready_instances r))" "ready_instances r \<noteq> []" "\<not> has_room r i"
  shows "balancer_wake (balancer_wake r) = r\<lparr> round_robin_index := round_robin_index r + 1 \<rparr>"
proof -
  have mem: "i \<in> set (ready_instances r)" using i(1,2) by simp
  obtain h where h: "map_of (handles r) i = Some h" using assms(1) mem unfolding pool_ok_def by blast
  have "\<not> check_request_queue h" using i(3) h by (simp add: has_room_def)
  then have "balancer_wake r = r\<lparr> round_robin_index := round_robin_index r + 1, load_balancer := Backoff f \<rparr>"
    using i(2) mem h by (simp add: balancer_wake_def assms(2) Let_def try_assign_def flip: i(1))
  then have "balancer_wake (balancer_wake r) = r\<lparr> round_robin_index := round_robin_index r + 1, load_balancer := Polled f (ready_instances r) \<rparr>"
    by (simp add: balancer_wake_def)
  then show ?thesis using assms(2) by (cases r) simp
qed

lemma round_robin_search:
  assumes "pool_ok r" "load_balancer r = Polled f (ready_instances r)" "f < length (requests r)" "ready_instances r \<noteq> []"
    "has_room r (ready_instances r ! ((round_robin_index r + d) mod length (ready_instances r)))"
  shows "\<exists>k \<le> 2 * d + 1. \<exists>i \<in> set (ready_instances r). has_room r i \<and> snd (requests ((balancer_wake ^^ k) r) ! f) = Assigned i"
  using assms
proof (induction d arbitrary: r)
  case 0
  then show ?case using wake_room [OF 0(1-3) refl 0(4)] by (intro exI [of _ 1]) simp
next
  case (Suc d)
  let ?i = "ready_instances r ! (round_robin_index r mod length (ready_instances r))"
  show ?case
  proof (cases "has_room r ?i")
    case True
    then show ?thesis using wake_room [OF Suc.prems(1-3) refl Suc.prems(4)] Suc.prems(4) by (intro exI [of _ 1]) simp
  next
    case False
    let ?r = "r\<lparr> round_robin_index := round_robin_index r + 1 \<rparr>"
    have room: "has_room ?r i = has_room r i" for i by (simp add: has_room_def)
    have "\<exists>k \<le> 2 * d + 1. \<exists>i \<in> set (ready_instances ?r). has_room ?r i \<and> snd (requests ((balancer_wake ^^ k) ?r) ! f) = Assigned i"
      by (rule Suc.IH) (use Suc.prems in \<open>simp_all add: pool_ok_def has_room_def\<close>)
    then obtain k i where k: "k \<le> 2 * d + 1" "i \<in> set (ready_instances r)" "has_room r i"
      "snd (requests ((balancer_wake ^^ k) ?r) ! f) = Assigned i" unfolding room by auto
    have "(balancer_wake ^^ (k + 2)) r = (balancer_wake ^^ k) ?r"
      using wake_full [OF Suc.prems(1,2) refl Suc.prems(4) False] by (simp add: funpow_swap1)
    then show ?thesis using k by (intro exI [of _ "k + 2"]) auto
  qed
qed

section \<open>Slots that are never returned\<close>

fun leaks :: "string \<Rightarrow> stage \<Rightarrow> bool" where
  "leaks i (Lost j) = (i = j)"
| "leaks i (Raised j) = (i = j)"
| "leaks i _ = False"

lemma leaks_occupies: "stage_count (leaks i) r \<le> stage_count (occupies i) r"
proof -
  have "length (filter (\<lambda>q. leaks i (snd q)) qs) \<le> length (filter (\<lambda>q. occupies i (snd q)) qs)" for qs :: "(string \<times> stage) list"
  proof (induction qs)
    case (Cons q qs)
    have "leaks i (snd q) \<Longrightarrow> occupies i (snd q)" by (cases "snd q") auto
    then show ?case using Cons by auto
  qed simp
  then show ?thesis by (simp add: stage_count_def)
qed

definition stage_step :: "router \<Rightarrow> router \<Rightarrow> bool" where
  "stage_step r r' \<longleftrightarrow> requests r' = requests r \<or> (\<exists>action. requests r' = requests r @ [(action, Queued)])
     \<or> (\<exists>f q. f < length (requests r) \<and> (\<forall>i. \<not> leaks i (snd (requests r ! f))) \<and> requests r' = (requests r)[f := q])"

lemma stage_step_leaks:
  assumes "stage_step r r'"
  shows "stage_count (leaks i) r \<le> stage_count (leaks i) r'"
proof -
  have "int (length (filter (\<lambda>q. leaks i (snd q)) (requests r))) \<le> int (length (filter (\<lambda>q. leaks i (snd q)) ((requests r)[f := q])))"
    if "f < length (requests r)" "\<not> leaks i (snd (requests r ! f))" for f q
    using count_update [OF that(1), of "\<lambda>q. leaks i (snd q)" q] that(2) by simp
  then show ?thesis using assms unfolding stage_step_def stage_count_def by auto
qed

lemma stage_step_update:
  "f < length (requests r) \<Longrightarrow> (\<And>i. \<not> leaks i (snd (requests r ! f))) \<Longrightarrow> requests r' = (requests r)[f := q] \<Longrightarrow> stage_step r r'"
  unfolding stage_step_def by blast

lemma complete_request_requests: "requests (complete_request f i reply r) = (requests r)[f := (fst (requests r ! f), Answered reply)]"
  by (simp add: complete_request_def set_stage_def Let_def)

lemma set_stage_step:
  assumes "f < length (requests r)" "\<And>i. \<not> leaks i (snd (requests r ! f))" "requests r1 = requests r"
  shows "stage_step r (set_stage f st r1)"
  by (rule stage_step_update [OF assms(1,2)]) (simp add: set_stage_def assms(3))

lemma complete_request_step:
  "f < length (requests r) \<Longrightarrow> (\<And>i. \<not> leaks i (snd (requests r ! f))) \<Longrightarrow> stage_step r (complete_request f i reply r)"
  by (rule stage_step_update) (simp_all add: complete_request_requests)

lemma balancer_wake_step:
  assumes "queue_inv r"
  shows "stage_step r (balancer_wake r)"
proof (cases "load_balancer r")
  case (Polled f opts)
  have f: "f < length (requests r)" "\<And>i. \<not> leaks i (snd (requests r ! f))" using assms Polled by (simp_all add: queue_inv_def)
  have "stage_step r (try_assign f i h r1)" if "requests r1 = requests r" for i h r1
    using set_stage_step [OF f, of "with_handle i g r1\<lparr> load_balancer := Idle \<rparr>" for g] that
    by (simp add: try_assign_def split: prod.split) (simp add: stage_step_def)
  then show ?thesis by (simp add: balancer_wake_def Polled Let_def split: option.split) (simp add: stage_step_def)
qed (simp_all add: balancer_wake_def stage_step_def)

lemma router_step_stages:
  assumes "router_step r c r'" and inv: "queue_inv r"
  shows "stage_step r r'"
  using assms(1)
proof cases
  case (rs_inference action)
  then show ?thesis by (auto simp: stage_step_def inference_def)
next
  case (rs_resume f i)
  then show ?thesis
    by (auto simp: resume_inference_def intro!: set_stage_step complete_request_step split: option.split) (simp add: stage_step_def)
next
  case (rs_answer f i outcome)
  then show ?thesis by (auto simp: finish_inference_def intro!: set_stage_step complete_request_step split: sum.split)
next
  case rs_wake
  then show ?thesis using balancer_wake_step [OF inv] by simp
next
  case rs_get
  then show ?thesis by (auto simp: stage_step_def balancer_get_def split: balancer.split list.split)
qed (auto simp: stage_step_def start_router_def update_router_def shutdown_router_def scaler_iteration_def create_instance_def stop_instance_def
      Let_def start_entry_def set_phase_def start_allocated_def start_booted_def start_initialized_def to_ready_def finish_entry_def
      shutdown_entry_def set_halting_def halt_done_def split: option.split sum.split list.split)

text \<open>A handle is never dropped and its queue length never changes.\<close>

definition keeps_length :: "router \<Rightarrow> router \<Rightarrow> bool" where
  "keeps_length r r' \<longleftrightarrow> (\<forall>i h. map_of (handles r) i = Some h \<longrightarrow> (\<exists>h'. map_of (handles r') i = Some h' \<and> max_queue_length h' = max_queue_length h))"

lemma keeps_length_same: "handles r' = handles r \<Longrightarrow> keeps_length r r'"
  by (simp add: keeps_length_def)

lemma keeps_length_with:
  assumes "handles r' = handles (with_handle i g r)" "\<And>h. map_of (handles r) i = Some h \<Longrightarrow> max_queue_length (g h) = max_queue_length h"
  shows "keeps_length r r'"
  using assms by (auto simp: keeps_length_def)

lemma try_assign_length:
  assumes "handles r1 = handles r" "map_of (handles r) i = Some h"
  shows "keeps_length r (try_assign f i h r1)"
proof -
  have "keeps_length r (set_stage f st (with_handle i (\<lambda>_. h\<lparr> concurrency := c \<rparr>) r1\<lparr> load_balancer := Idle \<rparr>))" for st c
    by (rule keeps_length_with [where i = i and g = "\<lambda>_. h\<lparr> concurrency := c \<rparr>"]) (use assms in \<open>auto simp: with_handle_def\<close>)
  then show ?thesis using assms by (simp add: try_assign_def add_requests_def keeps_length_same)
qed

lemma balancer_wake_length: "keeps_length r (balancer_wake r)"
  by (cases "load_balancer r") (simp_all add: balancer_wake_def Let_def keeps_length_same try_assign_length split: option.split)

lemma create_instance_length:
  assumes "new_id \<notin> fst ` set (handles r)"
  shows "keeps_length r (create_instance new_id config r)"
proof -
  have "map_of (handles r) new_id = None" using assms by (simp add: map_of_eq_None_iff)
  then show ?thesis by (auto simp: keeps_length_def create_instance_def Let_def update_conv')
qed

lemma complete_request_length: "keeps_length r (complete_request f i reply r)"
  by (rule keeps_length_with [where i = i and g = "\<lambda>h. fst (add_requests (-1) h)"])
    (simp_all add: complete_request_def Let_def with_handle_def add_requests_def)

lemma start_allocated_length: "keeps_length r (start_allocated i node r)"
proof -
  have "keeps_length r (set_phase i ph (with_handle i (\<lambda>h. h\<lparr> criu_backend := b \<rparr>) (r\<lparr> store_address := a \<rparr>)))" for ph b a
    by (rule keeps_length_with [where i = i and g = "\<lambda>h. h\<lparr> criu_backend := b \<rparr>"]) (simp_all add: set_phase_def with_handle_def)
  then show ?thesis by (auto simp: start_allocated_def Let_def keeps_length_same set_phase_def split: option.split)
qed

lemma start_booted_length: "keeps_length r (start_booted i node outcome r)"
proof -
  have "keeps_length r (set_phase i ph (with_handle i (\<lambda>h. h\<lparr> backend_instance := b, ready := True, node_id := n \<rparr>) r))" for ph b n
    by (rule keeps_length_with [where i = i and g = "\<lambda>h. h\<lparr> backend_instance := b, ready := True, node_id := n \<rparr>"])
      (simp_all add: set_phase_def with_handle_def)
  moreover have "keeps_length r (to_ready i (with_handle i (\<lambda>h. h\<lparr> ready := True, node_id := n \<rparr>) r))" for n
    by (rule keeps_length_with [where i = i and g = "\<lambda>h. h\<lparr> ready := True, node_id := n \<rparr>"]) (simp_all add: to_ready_def with_handle_def)
  ultimately show ?thesis by (simp add: start_booted_def keeps_length_same set_phase_def split: sum.split)
qed

lemma halting_length:
  assumes "handles r1 = handles r"
  shows "keeps_length r (set_halting i r1)" "keeps_length r (with_handle i (\<lambda>h. h\<lparr> status := Some False \<rparr>) r1)"
  by (rule keeps_length_with [where i = i and g = "\<lambda>h. h\<lparr> status := Some False \<rparr>"]; simp add: set_halting_def with_handle_def assms)+

lemma router_step_length:
  assumes "router_step r c r'"
  shows "keeps_length r r'"
  using assms
proof cases
  case (rs_resume f i)
  then show ?thesis by (simp add: resume_inference_def keeps_length_same complete_request_length split: option.split)
next
  case (rs_answer f i outcome)
  then show ?thesis by (simp add: finish_inference_def keeps_length_same complete_request_length split: sum.split)
next
  case (rs_scale new_id)
  then show ?thesis
    by (simp add: scaler_iteration_def Let_def stop_instance_def create_instance_length keeps_length_same split: option.split sum.split)
next
  case (rs_finish i)
  then show ?thesis by (simp add: finish_entry_def Let_def halting_length keeps_length_same)
next
  case (rs_force i)
  then show ?thesis by (simp add: shutdown_entry_def Let_def halting_length keeps_length_same split: option.split)
next
  case rs_get
  show ?thesis unfolding rs_get by (rule keeps_length_same) (simp add: balancer_get_def split: balancer.split list.split)
qed (simp_all add: balancer_wake_length start_allocated_length start_booted_length keeps_length_same start_router_def update_router_def
      inference_def shutdown_router_def stop_instance_def Let_def start_entry_def set_phase_def start_initialized_def to_ready_def halt_done_def
      split: list.split sum.split)

definition later :: "router \<Rightarrow> router \<Rightarrow> bool" where
  "later = (\<lambda>r r'. \<exists>c. router_step r c r')\<^sup>*\<^sup>*"

lemma later_leaks:
  assumes "later r r'" "router_inv r" "map_of (handles r) i = Some h"
  shows "router_inv r' \<and> stage_count (leaks i) r \<le> stage_count (leaks i) r'
    \<and> (\<exists>h'. map_of (handles r') i = Some h' \<and> max_queue_length h' = max_queue_length h)"
  using assms(1) unfolding later_def
proof (induction rule: rtranclp_induct)
  case (step r1 r2)
  then obtain c where c: "router_step r1 c r2" by blast
  have inv: "router_inv r1" "router_inv r2" using step.IH router_step_inv [OF c] by blast+
  have "stage_count (leaks i) r1 \<le> stage_count (leaks i) r2"
    using stage_step_leaks [OF router_step_stages [OF c]] inv(1) by (simp add: router_inv_def)
  moreover have "\<exists>h'. map_of (handles r2) i = Some h' \<and> max_queue_length h' = max_queue_length h"
    using step.IH router_step_length [OF c] unfolding keeps_length_def by fastforce
  ultimately show ?case using step.IH inv(2) by auto
qed (use assms in auto)

section \<open>Properties\<close>

lemma mod_distance:
  fixes n :: nat
  assumes "p < n"
  shows "\<exists>d < n. (k + d) mod n = p"
proof (intro exI conjI)
  let ?d = "(p + n - k mod n) mod n"
  show "?d < n" using assms by simp
  have "k mod n < n" using assms by (intro mod_less_divisor) simp
  then have "k mod n + (p + n - k mod n) = p + n" by linarith
  then have "(k mod n + (p + n - k mod n)) mod n = p" using assms by simp
  then show "(k + ?d) mod n = p" by (simp add: mod_simps)
qed

lemma leaks_uncounted: "stage_count (leaks i) r \<le> stage_count (\<lambda>st. \<not> answered st) r"
proof -
  have "length (filter (\<lambda>q. leaks i (snd q)) qs) \<le> length (filter (\<lambda>q. \<not> answered (snd q)) qs)" for qs :: "(string \<times> stage) list"
  proof (induction qs)
    case (Cons q qs)
    have "leaks i (snd q) \<Longrightarrow> \<not> answered (snd q)" by (cases "snd q") auto
    then show ?case using Cons by auto
  qed simp
  then show ?thesis by (simp add: stage_count_def)
qed

text \<open>
  C4. The router counts exactly. In every reachable state, whatever the interleaving of requests,
  balancer, auto-scaler and instance tasks, the concurrency of an instance is the number of
  requests that were assigned to it and have not been answered, it never exceeds the queue
  length of the instance, the request count is the number of requests without an answer, and an
  instance is in at most one of the states starting, ready, deleting and stopping; a ready
  instance accepts requests. As long as the router runs, every request that waits for an instance
  is in the queue or in the hands of the balancer, once.
\<close>

theorem router_slots_exact:
  assumes "router_reachable r" and "map_of (handles r) i = Some h"
  shows "concurrency h = stage_count (occupies i) r \<and> 0 \<le> concurrency h \<and> concurrency h \<le> max 0 (max_queue_length h)
    \<and> request_count r = stage_count (\<lambda>st. \<not> answered st) r
    \<and> distinct (starting_instances r @ ready_instances r @ deleting_instances r @ halting_ids r) \<and> (i \<in> set (ready_instances r) \<longrightarrow> ready h)
    \<and> distinct (request_queue r @ in_hand (load_balancer r))
    \<and> (running r \<longrightarrow> set (request_queue r @ in_hand (load_balancer r)) = {f. f < length (requests r) \<and> snd (requests r ! f) = Queued})"
proof -
  note inv = router_reachable_inv [OF assms(1)]
  have ok: "slot_ok (stage_count (occupies i) r) h" and cnt: "request_count r = stage_count (\<lambda>st. \<not> answered st) r"
    using inv assms(2) by (auto simp: router_inv_def slots_inv_def)
  have "distinct (live_ids r)" using inv by (simp add: router_inv_def lifecycle_inv_def)
  moreover have "ready h" if "i \<in> set (ready_instances r)" using router_inv_pool [OF inv] that assms(2) by (auto simp: pool_ok_def)
  moreover have "set (request_queue r @ in_hand (load_balancer r)) = {f. f < length (requests r) \<and> snd (requests r ! f) = Queued}" if "running r"
    using inv that unfolding router_inv_def queue_inv_def by blast
  moreover have "distinct (request_queue r @ in_hand (load_balancer r))" using inv unfolding router_inv_def queue_inv_def by blast
  ultimately show ?thesis using ok cnt by (auto simp: slot_ok_def live_ids_def)
qed


text \<open>
  C38. A slot is lost for good when a backend raises or a request finds its instance gone. Once as
  many requests of an instance ended that way as its queue is long (one, by default), no later
  state of the router has a free slot on it although it stays in the pool, and the request count
  that drives the auto-scaler never falls below their number again.
\<close>

theorem leaked_slots_permanent:
  assumes "router_reachable r" and "map_of (handles r) i = Some h" and "max_queue_length h \<le> stage_count (leaks i) r" and "later r r'"
  shows "\<not> has_room r' i \<and> stage_count (leaks i) r \<le> request_count r'"
proof -
  from later_leaks [OF assms(4) router_reachable_inv [OF assms(1)] assms(2)] obtain h' where
    inv: "router_inv r'" and le: "stage_count (leaks i) r \<le> stage_count (leaks i) r'" and
    h': "map_of (handles r') i = Some h'" "max_queue_length h' = max_queue_length h" by blast
  have "concurrency h' = stage_count (occupies i) r'" "request_count r' = stage_count (\<lambda>st. \<not> answered st) r'"
    using inv h'(1) by (auto simp: router_inv_def slots_inv_def slot_ok_def)
  then show ?thesis using le h' assms(3) leaks_occupies [of i r'] leaks_uncounted [of i r'] by (simp add: has_room_def check_request_queue_def)
qed

definition pool :: "router \<Rightarrow> int" where
  "pool r = int (length (starting_instances r)) + int (length (ready_instances r))"

lemma ceil_target:
  fixes n t :: int
  assumes "0 < t"
  shows "n \<le> ((n + t - 1) div t) * t" "((n + t - 1) div t - 1) * t < n"
proof -
  define a b where "a = (n + t - 1) div t" and "b = (n + t - 1) mod t"
  have "a * t + b = n + t - 1" "0 \<le> b" "b < t" using assms by (simp_all add: a_def b_def)
  then show "n \<le> ((n + t - 1) div t) * t" "((n + t - 1) div t - 1) * t < n" unfolding a_def [symmetric] by (simp_all add: left_diff_distrib)
qed

text \<open>
  C34. The auto-scaler tracks the load within its bounds. With a positive target the number of
  instances wanted is between the configured minimum and maximum; below the maximum it is enough for
  the target number of requests per instance, above the minimum one instance less would not be.
  One iteration moves the pool by at most one instance towards it and never grows it past the
  maximum.
\<close>

theorem autoscaler_tracks_load:
  assumes "auto_scaling_config r = Some config" and "lo = config_get (min_instances config) 0" and "hi = config_get (max_instances config) 10"
    and "t = config_get (target config) 16" and "0 < t" and "lo \<le> hi" and "new_id \<notin> set (starting_instances r)"
  shows "\<exists>d. auto_scaler (request_count r) config = Inr d \<and> lo \<le> d \<and> d \<le> hi \<and> (d < hi \<longrightarrow> request_count r \<le> d * t)
    \<and> (lo < d \<longrightarrow> (d - 1) * t < request_count r)
    \<and> pool (scaler_iteration new_id r) = pool r + (if pool r < d then 1 else if d < pool r \<and> ready_instances r \<noteq> []
          \<and> config_get (keep_alive config) 0 \<le> idle_time r then -1 else 0)
    \<and> pool (scaler_iteration new_id r) \<le> max (pool r) hi"
proof -
  define q where "q = (request_count r + t - 1) div t"
  define d where "d = min hi (max lo q)"
  have d: "auto_scaler (request_count r) config = Inr d"
    using assms(5) by (simp add: auto_scaler_def d_def q_def Let_def flip: assms(2-4))
  have q: "request_count r \<le> q * t" "(q - 1) * t < request_count r" unfolding q_def using ceil_target [OF assms(5)] by blast+
  have up: "request_count r \<le> d * t" if "d < hi"
  proof -
    have "q \<le> d" using that by (auto simp: d_def)
    then have "q * t \<le> d * t" using assms(5) by simp
    then show ?thesis using q(1) by simp
  qed
  have down: "(d - 1) * t < request_count r" if "lo < d"
  proof -
    have "d \<le> q" using that by (auto simp: d_def)
    then have "(d - 1) * t \<le> (q - 1) * t" using assms(5) by simp
    then show ?thesis using q(2) by simp
  qed
  have move: "pool (scaler_iteration new_id r) = pool r + (if pool r < d then 1 else if d < pool r \<and> ready_instances r \<noteq> []
      \<and> config_get (keep_alive config) 0 \<le> idle_time r then -1 else 0)"
    using assms(7) by (simp add: scaler_iteration_def assms(1) d pool_def create_instance_def put_key_def stop_instance_def Let_def of_nat_diff Suc_leI)
  have "lo \<le> d" "d \<le> hi" using assms(6) by (auto simp: d_def)
  then show ?thesis using d up down move by auto
qed

section \<open>Witnesses\<close>

text \<open>A router of one GPU per instance whose first instance is ready, then holds a request.\<close>

definition demo_config :: scaling_config where
  "demo_config = \<lparr> min_instances = Some 1, max_instances = Some 2, target = Some 4, keep_alive = None, metric = None \<rparr>"

definition demo_node :: worker_node where
  "demo_node = \<lparr> ray_node_id = ''r0'', address = ''10.0.0.1'', free_gpu = 1, total_gpu = 1, store_port = 8073 \<rparr>"

definition demo_scaled :: router where
  "demo_scaled = scaler_iteration ''m_0'' (start_router (Some demo_config) (init_router ''m'' 1 ''vllm'' [(''0'', demo_node)]))"

definition demo_ready :: router where
  "demo_ready = start_initialized ''m_0'' (Inr ()) (start_booted ''m_0'' ''0'' (Inr ())
     (start_allocated ''m_0'' ''0'' (fst (start_entry ''m_0'' demo_scaled))))"

definition demo_held :: router where
  "demo_held = balancer_get (fst (inference ''generate'' demo_ready))"

definition demo_raised :: router where
  "demo_raised = finish_inference 0 ''m_0'' (Inl (RuntimeError ''Connection refused'')) (resume_inference 0 ''m_0'' (balancer_wake demo_held))"

lemma reachable_step: "router_reachable r \<Longrightarrow> router_step r c r' \<Longrightarrow> router_reachable r'"
  unfolding router_reachable_def by (metis (mono_tags, lifting) rtranclp.rtrancl_into_rtrancl)

lemma reachable_init: "router_reachable (init_router name gpus be nodes)"
  unfolding router_reachable_def by blast

lemma demo_scaled_reachable: "router_reachable demo_scaled"
  unfolding demo_scaled_def
  by (rule reachable_step [OF reachable_step [OF reachable_init rs_start] rs_scale])
    (simp_all add: init_router_def start_router_def)

lemma demo_ready_reachable: "router_reachable demo_ready"
  unfolding demo_ready_def
  by (rule reachable_step [OF reachable_step [OF reachable_step [OF reachable_step [OF demo_scaled_reachable rs_start_entry]
      rs_allocated] rs_booted] rs_initialized]) code_simp+

lemma demo_held_reachable: "router_reachable demo_held"
  unfolding demo_held_def by (rule reachable_step [OF reachable_step [OF demo_ready_reachable rs_inference] rs_get])

lemma demo_raised_reachable: "router_reachable demo_raised"
  unfolding demo_raised_def
  by (rule reachable_step [OF reachable_step [OF reachable_step [OF demo_held_reachable rs_wake] rs_resume] rs_answer]) code_simp+

definition demo_handle :: instance_handle where
  "demo_handle = \<lparr> instance_id = ''m_0'', max_queue_length = 1, num_gpu = 1, node_id = Some ''0'', backend_instance = Some ''m_0'', ready = True,
     concurrency = 0, criu_backend = None, status = None \<rparr>"

lemma demo_held_eqs:
  "ready_instances demo_held = [''m_0'']" "load_balancer demo_held = Polled 0 [''m_0'']" "map_of (handles demo_held) ''m_0'' = Some demo_handle"
  "request_count demo_held = 1"
  by code_simp+

lemma demo_raised_eqs:
  "map_of (handles demo_raised) ''m_0'' = Some (demo_handle\<lparr> concurrency := 1 \<rparr>)" "stage_count (leaks ''m_0'') demo_raised = 1"
  by code_simp+

theorem router_slots_exact_witness: "request_count demo_held = stage_count (\<lambda>st. \<not> answered st) demo_held"
  using router_slots_exact [OF demo_held_reachable demo_held_eqs(3)] by blast


theorem leaked_slots_permanent_witness: "\<not> has_room (balancer_wake demo_raised) ''m_0''"
proof -
  have "later demo_raised (balancer_wake demo_raised)" unfolding later_def by (rule r_into_rtranclp) (blast intro: rs_wake)
  from leaked_slots_permanent [OF demo_raised_reachable demo_raised_eqs(1) _ this] show ?thesis
    by (simp add: demo_raised_eqs demo_handle_def)
qed

theorem autoscaler_tracks_load_witness: "\<exists>d. auto_scaler (request_count demo_held) demo_config = Inr d \<and> d \<le> 2"
proof -
  have c: "auto_scaling_config demo_held = Some demo_config" "starting_instances demo_held = []" by code_simp+
  from autoscaler_tracks_load [OF c(1) refl refl refl, of "''m_1''"] show ?thesis
    by (auto simp: c demo_config_def config_get_def)
qed

text \<open>
  Shutting a router down does not work while a request waits, and does not stop the
  auto-scaler. With a queued request \<open>shutdown\<close> raises after it has taken the request from the
  queue, so no instance is stopped and the request is never answered; without one it succeeds,
  and the auto-scaler of the stopped router starts a new instance once the old one is gone.
\<close>

lemma shutdown_incomplete:
  "(let (r, outcome) = shutdown_router (fst (inference ''generate'' demo_ready)) in
     outcome = Inl (RuntimeError ''await was not used with future'') \<and> request_queue r = [] \<and> in_hand (load_balancer r) = []
     \<and> snd (requests r ! 0) = Queued \<and> stop_tasks r = [] \<and> ready_instances r = [''m_0''])
   \<and> (let r = shutdown_entry ''m_0'' (fst (shutdown_router demo_ready)) in
     \<not> running r \<and> starting_instances r = [] \<and> ready_instances r = [] \<and> starting_instances (scaler_iteration ''m_1'' r) = [''m_1''])"
  by code_simp

end
