(* ===== verification/Serving.thy ===== *)
theory Serving
  imports Router
begin

text \<open>
  The serving system: the routers of all models together with the scheduler that gives them
  GPUs. What a router may rely on is the locale \<open>resource_allocator\<close>; the first-come-first-served
  scheduler is an instance of it. The properties of the scheduler were shown for clients that
  never reuse an instance id while it is in use and return what they asked for: here the routers
  are shown to be such clients, so the properties hold of the composed system, and an instance a
  router considers up is one the scheduler has booked.
\<close>

section \<open>What a router shows to the scheduler\<close>

definition asked :: "router \<Rightarrow> string \<Rightarrow> bool" where
  "asked r i \<longleftrightarrow> i \<in> fst ` set (handles r) \<and> map_of (start_tasks r) i \<noteq> Some Created"

fun placed :: "start_phase \<Rightarrow> bool" where
  "placed (Booting _) = True"
| "placed Initializing = True"
| "placed _ = False"

definition booting_ids :: "router \<Rightarrow> string set" where
  "booting_ids r = {i. \<exists>ph. map_of (start_tasks r) i = Some ph \<and> placed ph}"

definition up_ids :: "router \<Rightarrow> string set" where
  "up_ids r = booting_ids r \<union> set (ready_instances r) \<union> set (deleting_instances r) \<union> set (halting_ids r)"

text \<open>A step asks for no instance twice, and only creates tasks for new ids.\<close>

definition asks_once :: "router \<Rightarrow> router \<Rightarrow> bool" where
  "asks_once r r' \<longleftrightarrow> (\<forall>i. map_of (start_tasks r') i = Some Created \<longrightarrow> map_of (start_tasks r) i = Some Created \<or> i \<notin> fst ` set (handles r))"

lemma asks_once_same: "start_tasks r' = start_tasks r \<Longrightarrow> asks_once r r'"
  by (simp add: asks_once_def)

lemma asks_once_phase: "start_tasks r' = AList.update i ph (start_tasks r) \<Longrightarrow> ph \<noteq> Created \<Longrightarrow> asks_once r r'"
  by (auto simp: asks_once_def update_conv')

lemma asks_once_delete: "start_tasks r' = AList.delete i (start_tasks r) \<Longrightarrow> asks_once r r'"
  by (auto simp: asks_once_def delete_conv')

lemma asks_once_create:
  assumes "new_id \<notin> fst ` set (handles r)"
  shows "asks_once r (create_instance new_id config r)"
  unfolding asks_once_def
proof (intro allI impI)
  fix i assume "map_of (start_tasks (create_instance new_id config r)) i = Some Created"
  then have "i = new_id \<or> map_of (start_tasks r) i = Some Created"
    by (auto simp: create_instance_def Let_def map_add_def split: option.splits if_splits)
  then show "map_of (start_tasks r) i = Some Created \<or> i \<notin> fst ` set (handles r)" using assms by blast
qed

lemma task_simps [simp]:
  "start_tasks (set_phase i ph r) = AList.update i ph (start_tasks r)" "start_tasks (to_ready i r) = AList.delete i (start_tasks r)"
  "start_tasks (set_halting i r) = start_tasks r" "start_tasks (complete_request f i reply r) = start_tasks r"
  "start_tasks (try_assign f i h r) = start_tasks r" "start_tasks (stop_instance r) = start_tasks r"
  by (simp_all add: set_phase_def to_ready_def set_halting_def complete_request_def try_assign_def stop_instance_def Let_def split: prod.split)

lemma balancer_tasks [simp]: "start_tasks (balancer_wake r) = start_tasks r" "start_tasks (balancer_get r) = start_tasks r"
  by (simp_all add: balancer_wake_def balancer_get_def Let_def split: balancer.split option.split list.split)

lemma start_allocated_tasks:
  "\<exists>ph. start_tasks (start_allocated i node r) = AList.update i ph (start_tasks r) \<and> (placed ph \<or> ph = Start_failed)"
  by (cases "map_of (node_info r) node") (auto simp: start_allocated_def Let_def)

lemma router_step_asks_once:
  assumes "router_step r c r'"
  shows "asks_once r r'"
  using assms
proof cases
  case (rs_resume f i)
  then show ?thesis by (simp add: resume_inference_def asks_once_same split: option.split)
next
  case (rs_answer f i outcome)
  then show ?thesis by (simp add: finish_inference_def asks_once_same split: sum.split)
next
  case (rs_scale new_id)
  then show ?thesis by (simp add: scaler_iteration_def Let_def asks_once_same asks_once_create split: option.split sum.split)
next
  case (rs_start_entry i)
  then show ?thesis by (auto simp: start_entry_def intro: asks_once_phase asks_once_delete)
next
  case (rs_allocated i node)
  obtain ph where "start_tasks r' = AList.update i ph (start_tasks r)" "placed ph \<or> ph = Start_failed"
    using start_allocated_tasks [of i node r] rs_allocated by blast
  then show ?thesis by (auto intro: asks_once_phase)
next
  case (rs_booted i node booted)
  then show ?thesis by (cases booted) (auto simp: start_booted_def intro: asks_once_phase asks_once_delete)
next
  case (rs_initialized i booted)
  then show ?thesis by (cases booted) (auto simp: start_initialized_def intro: asks_once_phase asks_once_delete)
qed (simp_all add: asks_once_same start_router_def update_router_def inference_def shutdown_router_def finish_entry_def shutdown_entry_def
      halt_done_def Let_def split: list.split option.split)

lemma router_step_asked:
  assumes "router_step r c r'" "asked r i"
  shows "asked r' i"
proof -
  obtain h where "map_of (handles r) i = Some h" using assms(2) map_of_mem unfolding asked_def by metis
  then obtain h' where "map_of (handles r') i = Some h'" using router_step_length [OF assms(1)] unfolding keeps_length_def by blast
  then have "i \<in> fst ` set (handles r')" by (metis domI dom_map_of_conv_image_fst)
  then show ?thesis using assms(2) router_step_asks_once [OF assms(1)] unfolding asked_def asks_once_def by blast
qed

lemma router_step_asks:
  assumes "router_step r (Allocate i) r'" "lifecycle_inv r"
  shows "\<not> asked r i" "asked r' i"
proof -
  have a: "map_of (start_tasks r) i = Some Created" "r' = fst (start_entry i r)" "i \<in> set (starting_instances r)"
    using assms(1) by (auto elim!: router_stepE simp: start_entry_def split: if_splits)
  have "i \<in> fst ` set (handles r)" using assms(2) a(3) by (auto simp: lifecycle_inv_def live_ids_def)
  then show "\<not> asked r i" "asked r' i" using a by (simp_all add: asked_def start_entry_def update_conv') (simp add: set_phase_def)
qed

text \<open>A step takes no instance up unless the scheduler has just placed it.\<close>

lemma up_ids_cong:
  assumes "start_tasks r' = start_tasks r" "ready_instances r' = ready_instances r" "deleting_instances r' = deleting_instances r"
    "halting_ids r' = halting_ids r"
  shows "up_ids r' = up_ids r"
  by (simp add: up_ids_def booting_ids_def assms)

lemma up_ids_live:
  assumes "start_tasks r' = start_tasks r" "set (ready_instances r' @ deleting_instances r' @ halting_ids r') \<subseteq> set (ready_instances r @ deleting_instances r @ halting_ids r)"
  shows "up_ids r' \<subseteq> up_ids r"
  using assms(2) by (auto simp: up_ids_def booting_ids_def assms(1))

lemma up_ids_phase:
  assumes "start_tasks r' = AList.update i ph (start_tasks r)" "ready_instances r' = ready_instances r" "deleting_instances r' = deleting_instances r"
    "halting_ids r' = halting_ids r"
  shows "up_ids r' \<subseteq> up_ids r \<union> (if placed ph then {i} else {})"
  by (auto simp: up_ids_def booting_ids_def assms update_conv' split: if_splits)

lemma up_ids_ready:
  assumes "i \<in> booting_ids r"
  shows "up_ids (to_ready i (with_handle i g r)) \<subseteq> up_ids r" "up_ids (to_ready i r) \<subseteq> up_ids r"
  using assms by (auto simp: up_ids_def booting_ids_def delete_conv' put_key_def to_ready_def halting_ids_def split: if_splits)

lemma halting_set: "set (halting_ids r) = {i. (i, Halting) \<in> set (stop_tasks r)}"
  by (auto simp: halting_ids_def image_iff)

lemma resume_up: "up_ids (resume_inference f i r) = up_ids r" "up_ids (finish_inference f i outcome r) = up_ids r"
  by (rule up_ids_cong; simp add: resume_inference_def finish_inference_def complete_request_def halting_ids_def Let_def
      split: option.split sum.split)+

lemma balancer_up: "up_ids (balancer_wake r) = up_ids r" "up_ids (balancer_get r) = up_ids r"
  by (rule up_ids_cong; simp add: balancer_wake_def balancer_get_def try_assign_def Let_def halting_ids_def
      split: balancer.split option.split list.split prod.split)+

lemma request_up:
  "up_ids (start_router config r) = up_ids r" "up_ids (update_router config r) = up_ids r" "up_ids (fst (inference action r)) = up_ids r"
  "up_ids (fst (shutdown_router r)) = up_ids r"
  by (rule up_ids_cong; simp add: start_router_def update_router_def inference_def shutdown_router_def halting_ids_def comp_def split: list.split)+

lemma stop_instance_up: "up_ids (stop_instance r) \<subseteq> up_ids r"
  by (rule up_ids_live) (auto simp: stop_instance_def Let_def halting_ids_def put_key_def dest: in_set_butlastD)

lemma create_instance_up:
  assumes "new_id \<notin> fst ` set (handles r)" "lifecycle_inv r"
  shows "up_ids (create_instance new_id config r) = up_ids r"
proof -
  have "new_id \<notin> fst ` set (start_tasks r)" using assms by (auto simp: lifecycle_inv_def live_ids_def)
  then have none: "map_of (start_tasks r) new_id = None" by (simp add: map_of_eq_None_iff)
  have tasks: "map_of (start_tasks (create_instance new_id config r)) i = (if i = new_id then Some Created else map_of (start_tasks r) i)" for i
    using none by (simp add: create_instance_def Let_def map_add_def split: option.split)
  have "booting_ids (create_instance new_id config r) = booting_ids r"
    using none by (auto simp: booting_ids_def tasks split: if_splits)
  then show ?thesis by (simp add: up_ids_def create_instance_def Let_def halting_ids_def)
qed

lemma stop_entries_up: "up_ids (finish_entry i r) \<subseteq> up_ids r" "up_ids (shutdown_entry i r) \<subseteq> up_ids r"
  by (rule up_ids_live; auto simp: finish_entry_def shutdown_entry_def set_halting_def halting_set Let_def
      dest: set_remove1_subset [THEN subsetD] split: option.splits if_splits)+

lemma start_allocated_up: "up_ids (start_allocated i node r) \<subseteq> insert i (up_ids r)"
proof -
  obtain ph where "start_tasks (start_allocated i node r) = AList.update i ph (start_tasks r)" using start_allocated_tasks by blast
  moreover have "ready_instances (start_allocated i node r) = ready_instances r" "deleting_instances (start_allocated i node r) = deleting_instances r"
    "halting_ids (start_allocated i node r) = halting_ids r"
    by (simp_all add: start_allocated_def set_phase_def Let_def halting_ids_def split: option.split)
  ultimately show ?thesis using up_ids_phase [of "start_allocated i node r" i ph r] by (auto split: if_splits)
qed

lemma phase_up:
  assumes "\<not> placed ph \<or> i \<in> up_ids r"
  shows "up_ids (set_phase i ph r) \<subseteq> up_ids r" "up_ids (set_phase i ph (with_handle i g r)) \<subseteq> up_ids r"
  using up_ids_phase [of "set_phase i ph r" i ph r] up_ids_phase [of "set_phase i ph (with_handle i g r)" i ph r] assms
  by (auto simp: set_phase_def halting_ids_def split: if_splits)

lemma booting_up: "map_of (start_tasks r) i = Some ph \<Longrightarrow> placed ph \<Longrightarrow> i \<in> booting_ids r \<and> i \<in> up_ids r"
  by (auto simp: booting_ids_def up_ids_def)

definition newly_up :: "sched_call \<Rightarrow> string set" where
  "newly_up c = (case c of Allocated i node \<Rightarrow> {i} | _ \<Rightarrow> {})"

lemma router_step_up:
  assumes "router_step r c r'" and inv: "lifecycle_inv r"
  shows "up_ids r' \<subseteq> up_ids r \<union> newly_up c"
  using assms(1)
proof cases
  case (rs_scale new_id)
  have "up_ids (r\<lparr> auto_scaler_task := b \<rparr>) = up_ids r" "up_ids (r\<lparr> idle_time := t \<rparr>) = up_ids r" for b t
    by (rule up_ids_cong; simp add: halting_ids_def)+
  then show ?thesis using rs_scale create_instance_up [OF rs_scale(4) inv] stop_instance_up [of r]
    by (simp add: scaler_iteration_def Let_def newly_up_def split: option.split sum.split)
next
  case (rs_start_entry i)
  have "up_ids (r\<lparr> start_tasks := AList.delete i (start_tasks r) \<rparr>) \<subseteq> up_ids r"
    by (auto simp: up_ids_def booting_ids_def delete_conv' halting_ids_def split: if_splits)
  then show ?thesis using rs_start_entry phase_up [of Allocating i r] by (auto simp: start_entry_def newly_up_def)
next
  case (rs_allocated i node)
  then show ?thesis using start_allocated_up [of i node r] by (auto simp: newly_up_def)
next
  case (rs_booted i node booted)
  note b = booting_up [OF rs_booted(3), simplified]
  then show ?thesis using rs_booted phase_up(1) [of Start_failed i r] phase_up(2) [of Initializing i r] up_ids_ready(1) [of i r]
    by (cases booted) (auto simp: start_booted_def newly_up_def)
next
  case (rs_initialized i booted)
  note b = booting_up [OF rs_initialized(3), simplified]
  then show ?thesis using rs_initialized phase_up(1) [of Start_failed i r] up_ids_ready(2) [of i r]
    by (cases booted) (auto simp: start_initialized_def newly_up_def)
next
  case (rs_finish i)
  then show ?thesis using stop_entries_up by (simp add: newly_up_def)
next
  case (rs_force i)
  then show ?thesis using stop_entries_up by (simp add: newly_up_def)
next
  case (rs_halted i booted)
  have "up_ids (fst (halt_done i booted r)) \<subseteq> up_ids r"
    by (rule up_ids_live) (auto simp: halt_done_def halting_set dest: set_remove1_subset [THEN subsetD])
  then show ?thesis using rs_halted by auto
next
  case rs_stop
  then show ?thesis using stop_instance_up by (auto simp: newly_up_def)
qed (simp_all add: newly_up_def resume_up balancer_up request_up)

lemma up_ids_subset: "lifecycle_inv r \<Longrightarrow> up_ids r \<subseteq> set (live_ids r)"
  by (auto simp: up_ids_def live_ids_def booting_ids_def intro: starting_task)

lemma router_step_release:
  assumes "router_step r (Release i) r'" "lifecycle_inv r"
  shows "i \<notin> up_ids r'"
proof -
  obtain outcome where i: "(i, Halting) \<in> set (stop_tasks r)" "r' = fst (halt_done i outcome r)"
    using assms(1) by (auto elim!: router_stepE simp: start_entry_def split: if_splits)
  have "distinct (i # live_ids r')"
    using mset_eq_imp_distinct_iff [OF halt_done_live [OF i(1), of outcome]] assms(2) unfolding i(2) lifecycle_inv_def by blast
  then show ?thesis using up_ids_subset [OF router_step_lifecycle [OF assms]] by auto
qed

lemma router_step_identity:
  assumes "router_step r c r'"
  shows "model_name r' = model_name r" "required_gpus r' = required_gpus r"
  using assms
  by (auto elim!: router_stepE simp: start_router_def update_router_def inference_def resume_inference_def finish_inference_def complete_request_def
      set_stage_def with_handle_def shutdown_router_def balancer_get_def balancer_wake_def try_assign_def scaler_iteration_def create_instance_def
      stop_instance_def start_entry_def set_phase_def start_allocated_def start_booted_def start_initialized_def to_ready_def finish_entry_def
      shutdown_entry_def set_halting_def halt_done_def Let_def split: option.splits sum.splits list.splits balancer.splits prod.splits)

section \<open>The composed system\<close>

text \<open>
  The state is a router per registered model and the allocator. A router's request, its answer
  and its release are steps of both sides; an answer names a node on which the allocator has
  booked the instance.
\<close>

inductive system_step :: "(string \<Rightarrow> string \<Rightarrow> rat \<Rightarrow> rat \<Rightarrow> 's \<Rightarrow> 's) \<Rightarrow> (string \<Rightarrow> string \<Rightarrow> rat \<Rightarrow> 's \<Rightarrow> 's) \<Rightarrow> ('s \<Rightarrow> 's \<Rightarrow> bool)
    \<Rightarrow> (string \<Rightarrow> 's \<Rightarrow> (string \<times> string) set) \<Rightarrow> (string \<Rightarrow> rat) \<Rightarrow> (string \<Rightarrow> router option) \<times> 's \<Rightarrow> (string \<Rightarrow> router option) \<times> 's \<Rightarrow> bool"
  for ask release internal booked_on gpus where
  sys_register: "R m = None \<Longrightarrow> system_step ask release internal booked_on gpus (R, s) (R(m \<mapsto> init_router m (gpus m) be nodes), s)"
| sys_silent: "R m = Some r \<Longrightarrow> router_step r Silent r' \<Longrightarrow> system_step ask release internal booked_on gpus (R, s) (R(m \<mapsto> r'), s)"
| sys_ask: "R m = Some r \<Longrightarrow> router_step r (Allocate i) r' \<Longrightarrow>
    system_step ask release internal booked_on gpus (R, s) (R(m \<mapsto> r'), ask (model_name r) i (required_gpus r) now s)"
| sys_answer: "R m = Some r \<Longrightarrow> router_step r (Allocated i node) r' \<Longrightarrow> (model_name r, i) \<in> booked_on node s \<Longrightarrow>
    system_step ask release internal booked_on gpus (R, s) (R(m \<mapsto> r'), s)"
| sys_release: "R m = Some r \<Longrightarrow> router_step r (Release i) r' \<Longrightarrow>
    system_step ask release internal booked_on gpus (R, s) (R(m \<mapsto> r'), release (model_name r) i (required_gpus r) s)"
| sys_internal: "internal s s' \<Longrightarrow> system_step ask release internal booked_on gpus (R, s) (R, s')"

section \<open>The contract between routers and scheduler\<close>

locale resource_allocator =
  fixes ok :: "'s \<Rightarrow> bool" and ids :: "'s \<Rightarrow> (string \<times> string) set" and booked_on :: "string \<Rightarrow> 's \<Rightarrow> (string \<times> string) set"
    and ask :: "string \<Rightarrow> string \<Rightarrow> rat \<Rightarrow> rat \<Rightarrow> 's \<Rightarrow> 's" and release :: "string \<Rightarrow> string \<Rightarrow> rat \<Rightarrow> 's \<Rightarrow> 's" and internal :: "'s \<Rightarrow> 's \<Rightarrow> bool"
    and gpus :: "string \<Rightarrow> rat"
  assumes ask_ok: "ok s \<Longrightarrow> (m, i) \<notin> ids s \<Longrightarrow> ok (ask m i (gpus m) now s)"
    and ask_ids: "ok s \<Longrightarrow> ids (ask m i g now s) \<subseteq> insert (m, i) (ids s)"
    and ask_booked: "ok s \<Longrightarrow> booked_on n s \<subseteq> booked_on n (ask m i g now s)"
    and release_ok: "ok s \<Longrightarrow> ok (release m i (gpus m) s)"
    and release_ids: "ok s \<Longrightarrow> ids (release m i g s) \<subseteq> ids s"
    and release_booked: "ok s \<Longrightarrow> booked_on n s - {(m, i)} \<subseteq> booked_on n (release m i g s)"
    and internal_ok: "ok s \<Longrightarrow> internal s s' \<Longrightarrow> ok s'"
    and internal_ids: "ok s \<Longrightarrow> internal s s' \<Longrightarrow> ids s' \<subseteq> ids s"
    and internal_booked: "ok s \<Longrightarrow> internal s s' \<Longrightarrow> booked_on n s \<subseteq> booked_on n s'"
begin

definition system_inv :: "(string \<Rightarrow> router option) \<Rightarrow> 's \<Rightarrow> bool" where
  "system_inv R s \<longleftrightarrow> ok s \<and> (\<forall>m r. R m = Some r \<longrightarrow> router_inv r \<and> model_name r = m \<and> required_gpus r = gpus m
       \<and> (\<forall>i \<in> up_ids r. \<exists>n. (m, i) \<in> booked_on n s))
     \<and> (\<forall>m i. (m, i) \<in> ids s \<longrightarrow> (\<exists>r. R m = Some r \<and> asked r i))"

lemma system_invD:
  assumes "system_inv R s" "R m = Some r"
  shows "router_inv r" "lifecycle_inv r" "model_name r = m" "required_gpus r = gpus m" "i \<in> up_ids r \<Longrightarrow> \<exists>n. (m, i) \<in> booked_on n s"
  using assms unfolding system_inv_def router_inv_def by blast+

text \<open>One router takes a step and the allocator answers it.\<close>

lemma system_inv_step:
  assumes inv: "system_inv R s" and r: "R m = Some r" and step: "router_step r c r'" and ok': "ok s'"
    and ids: "\<And>k j. (k, j) \<in> ids s' \<Longrightarrow> (k, j) \<in> ids s \<or> k = m \<and> asked r' j"
    and kept: "\<And>k j n. (k, j) \<in> booked_on n s \<Longrightarrow> k \<noteq> m \<or> j \<in> up_ids r' \<Longrightarrow> \<exists>n. (k, j) \<in> booked_on n s'"
    and new: "\<And>j. j \<in> newly_up c \<Longrightarrow> \<exists>n. (m, j) \<in> booked_on n s"
  shows "system_inv (R(m \<mapsto> r')) s'"
proof -
  note old = system_invD [OF inv r]
  have "\<exists>n. (m, i) \<in> booked_on n s'" if "i \<in> up_ids r'" for i
    using that router_step_up [OF step old(2)] old(5) new kept by blast
  moreover have "\<exists>n. (k, i) \<in> booked_on n s'" if "k \<noteq> m" "R k = Some q" "i \<in> up_ids q" for k q i
    using system_invD(5) [OF inv that(2,3)] that(1) kept by blast
  moreover have "\<exists>q. (R(m \<mapsto> r')) k = Some q \<and> asked q i" if mem: "(k, i) \<in> ids s'" for k i
  proof (cases "k = m \<and> asked r' i")
    case False
    then obtain q where "R k = Some q" "asked q i" using ids [OF mem] inv unfolding system_inv_def by blast
    then show ?thesis using router_step_asked [OF step] r by (cases "k = m") auto
  qed auto
  ultimately show ?thesis
    using inv ok' router_step_inv [OF step old(1)] router_step_identity [OF step] old(3,4) unfolding system_inv_def by auto
qed

lemma system_step_inv:
  assumes "system_step ask release internal booked_on gpus S S'" "system_inv (fst S) (snd S)"
  shows "system_inv (fst S') (snd S')"
  using assms(1)
proof cases
  case (sys_register R m s be nodes)
  have "up_ids (init_router m (gpus m) be nodes) = {}" by (simp add: up_ids_def booting_ids_def halting_ids_def init_router_def)
  moreover have "model_name (init_router m (gpus m) be nodes) = m" "required_gpus (init_router m (gpus m) be nodes) = gpus m"
    by (simp_all add: init_router_def)
  moreover have inv: "system_inv R s" using assms(2) sys_register(1) by simp
  moreover have "\<exists>q. (R(m \<mapsto> q')) k = Some q \<and> asked q i" if "(k, i) \<in> ids s" for k i q'
    using inv that sys_register(3) unfolding system_inv_def by (metis fun_upd_apply option.distinct(1))
  ultimately have "system_inv (R(m \<mapsto> init_router m (gpus m) be nodes)) s"
    using init_router_inv [of m "gpus m" be nodes] unfolding system_inv_def by simp
  then show ?thesis using sys_register(2) by simp
next
  case (sys_silent R m r r' s)
  have inv: "system_inv R s" using assms(2) sys_silent(1) by simp
  have "system_inv (R(m \<mapsto> r')) s"
    by (rule system_inv_step [OF inv sys_silent(3,4)]) (use inv in \<open>auto simp: newly_up_def system_inv_def\<close>)
  then show ?thesis using sys_silent(2) by simp
next
  case (sys_ask R m r i r' s now)
  have inv: "system_inv R s" using assms(2) sys_ask(1) by simp
  note old = system_invD [OF inv sys_ask(3)]
  note ask = router_step_asks [OF sys_ask(4) old(2)]
  have fresh: "(m, i) \<notin> ids s" using inv ask(1) sys_ask(3) unfolding system_inv_def by fastforce
  have ok: "ok s" using inv by (simp add: system_inv_def)
  have "system_inv (R(m \<mapsto> r')) (ask m i (gpus m) now s)"
  proof (rule system_inv_step [OF inv sys_ask(3,4) ask_ok [OF ok fresh]])
    show "(k, j) \<in> ids s \<or> k = m \<and> asked r' j" if "(k, j) \<in> ids (ask m i (gpus m) now s)" for k j
      using ask_ids [OF ok, of m i "gpus m" now] that ask(2) by blast
    show "\<exists>n. (k, j) \<in> booked_on n (ask m i (gpus m) now s)" if "(k, j) \<in> booked_on n s" for k j n
      using ask_booked [OF ok, of n m i "gpus m" now] that by blast
  qed (simp add: newly_up_def)
  then show ?thesis using sys_ask(2) old(3,4) by simp
next
  case (sys_answer R m r i node r' s)
  have inv: "system_inv R s" using assms(2) sys_answer(1) by simp
  note old = system_invD [OF inv sys_answer(3)]
  have "system_inv (R(m \<mapsto> r')) s"
    by (rule system_inv_step [OF inv sys_answer(3,4)]) (use inv sys_answer(5) old(3) in \<open>auto simp: newly_up_def system_inv_def\<close>)
  then show ?thesis using sys_answer(2) by simp
next
  case (sys_release R m r i r' s)
  have inv: "system_inv R s" using assms(2) sys_release(1) by simp
  note old = system_invD [OF inv sys_release(3)]
  have ok: "ok s" using inv by (simp add: system_inv_def)
  have "system_inv (R(m \<mapsto> r')) (release m i (gpus m) s)"
  proof (rule system_inv_step [OF inv sys_release(3,4) release_ok [OF ok]])
    show "(k, j) \<in> ids s \<or> k = m \<and> asked r' j" if "(k, j) \<in> ids (release m i (gpus m) s)" for k j
      using release_ids [OF ok, of m i "gpus m"] that by blast
    show "\<exists>n. (k, j) \<in> booked_on n (release m i (gpus m) s)" if "(k, j) \<in> booked_on n s" "k \<noteq> m \<or> j \<in> up_ids r'" for k j n
      using release_booked [OF ok, of n m i "gpus m"] that router_step_release [OF sys_release(4) old(2)] by blast
  qed (simp add: newly_up_def)
  then show ?thesis using sys_release(2) old(3,4) by simp
next
  case (sys_internal s s' R)
  have inv: "system_inv R s" using assms(2) sys_internal(1) by simp
  have ok: "ok s" using inv by (simp add: system_inv_def)
  have "system_inv R s'"
    using inv internal_ok [OF ok sys_internal(3)] internal_ids [OF ok sys_internal(3)] internal_booked [OF ok sys_internal(3)]
    unfolding system_inv_def by blast
  then show ?thesis using sys_internal(2) by simp
qed

lemma system_reachable_inv:
  assumes "(system_step ask release internal booked_on gpus)\<^sup>*\<^sup>* (Map.empty, s0) (R, s)" "ok s0" "ids s0 = {}"
  shows "system_inv R s"
proof -
  have "system_inv (fst S) (snd S)" if "(system_step ask release internal booked_on gpus)\<^sup>*\<^sup>* (Map.empty, s0) S" for S
    using that
  proof (induction rule: rtranclp_induct)
    case base
    then show ?case using assms(2,3) by (simp add: system_inv_def)
  next
    case (step S1 S2)
    show ?case by (rule system_step_inv [OF step.hyps(2) step.IH])
  qed
  from this [OF assms(1)] show ?thesis by simp
qed

end

section \<open>The first-come-first-served scheduler keeps the contract\<close>

definition sched_ids :: "fcfs \<Rightarrow> (string \<times> string) set" where
  "sched_ids s = {(m, i). (\<exists>n. (m, i) \<in> held_on n s) \<or> (\<exists>f. map_of (waiting s) f = Some (m, i))}"

text \<open>What the scheduler does on its own; no client of it cancels a request.\<close>

inductive scheduler_internal :: "fcfs \<Rightarrow> fcfs \<Rightarrow> bool" where
  "scheduler_internal s (start_scheduler s)"
| "scheduler_internal s (shutdown_scheduler s)"
| "scheduler_internal s (resume_allocation f s)"
| "fcfs.running s \<Longrightarrow> cluster_ok ray_nodes \<Longrightarrow> control_iteration ray_nodes s = Inr s' \<Longrightarrow> scheduler_internal s s'"

definition same_holders :: "fcfs \<Rightarrow> fcfs \<Rightarrow> bool" where
  "same_holders s s' \<longleftrightarrow> waiting s' = waiting s \<and> model_instance s' = model_instance s"

lemma same_holders_ids: "same_holders s s' \<Longrightarrow> sched_ids s' = sched_ids s" "same_holders s s' \<Longrightarrow> held_on n s' = held_on n s"
  by (simp_all add: same_holders_def sched_ids_def held_on_def)

lemma same_holders_trans: "same_holders s s' \<Longrightarrow> same_holders s' s'' \<Longrightarrow> same_holders s s''"
  by (simp add: same_holders_def)

lemma control_same_holders:
  assumes "control_iteration ray_nodes s = Inr s'"
  shows "same_holders s s'"
proof -
  have step: "same_holders a b" if "try_allocate a x = Inr b" for a b x
    using that by (cases x) (auto simp: try_allocate_def py_simps same_holders_def grant_request_def add_free_gpu_def split: option.splits if_splits)
  have loop: "same_holders a b" if "r_foldl try_allocate a xs = Inr b" for a b xs
    using that by (rule r_foldl_invariant [where P = "same_holders a"]) (auto simp: same_holders_def dest!: step)
  have "same_holders s s1" if "refresh_worker_nodes ray_nodes s = Inr s1" for s1
    using that by (auto simp: refresh_worker_nodes_def py_simps same_holders_def)
  then show ?thesis using assms
    by (auto simp: control_iteration_def Let_def py_simps update_worker_nodes_def same_holders_def dest!: loop split: if_splits)
qed

lemma resume_holders:
  assumes "instances_inv s"
  shows "sched_ids (resume_allocation f s) \<subseteq> sched_ids s" "held_on n s \<subseteq> held_on n (resume_allocation f s)"
proof -
  have drop: "sched_ids (s\<lparr> waiting := AList.delete f (waiting s) \<rparr>) \<subseteq> sched_ids s" "held_on n (s\<lparr> waiting := w \<rparr>) = held_on n s" for n w
    by (auto simp: sched_ids_def held_on_def delete_conv' split: if_splits)
  have ids: "sched_ids (set_instance m i k (s\<lparr> waiting := AList.delete f (waiting s) \<rparr>)) \<subseteq> sched_ids s"
    and held: "held_on n s \<subseteq> held_on n (set_instance m i k (s\<lparr> waiting := AList.delete f (waiting s) \<rparr>))"
    if w: "map_of (waiting s) f = Some (m, i)" for m i k n
  proof -
    let ?s = "s\<lparr> waiting := AList.delete f (waiting s) \<rparr>"
    have free: "(m, i) \<notin> held_on k s" for k using assms w unfolding instances_inv_def by blast
    have h: "held_on n (set_instance m i k ?s) = (if n = k then insert (m, i) (held_on k s) else held_on n s)" for n
      using set_instance_held [of m i ?s n k] free unfolding drop(2) by blast
    have waits: "map_of (waiting (set_instance m i k ?s)) f' = (if f' = f then None else map_of (waiting s) f')" for f'
      by (simp add: set_instance_map delete_conv')
    show "sched_ids (set_instance m i k ?s) \<subseteq> sched_ids s"
    proof (rule subrelI)
      fix a b assume "(a, b) \<in> sched_ids (set_instance m i k ?s)"
      then have "(a, b) = (m, i) \<or> (\<exists>n. (a, b) \<in> held_on n s) \<or> (\<exists>f'. map_of (waiting s) f' = Some (a, b))"
        unfolding sched_ids_def mem_Collect_eq case_prod_conv h waits by (metis insert_iff option.distinct(1))
      then show "(a, b) \<in> sched_ids s" using w unfolding sched_ids_def by blast
    qed
    show "held_on n s \<subseteq> held_on n (set_instance m i k ?s)" unfolding h by auto
  qed
  show "sched_ids (resume_allocation f s) \<subseteq> sched_ids s" "held_on n s \<subseteq> held_on n (resume_allocation f s)"
    using ids held drop by (simp_all add: resume_allocation_def split: option.split allocation.split prod.split)
qed

lemma internal_holders:
  assumes "scheduler_internal s s'" "instances_inv s"
  shows "sched_ids s' \<subseteq> sched_ids s" "held_on n s \<subseteq> held_on n s'"
proof -
  have "sched_ids s' \<subseteq> sched_ids s \<and> (\<forall>n. held_on n s \<subseteq> held_on n s')"
    using assms(1)
  proof cases
    case 1
    have "same_holders s s'" by (simp add: 1 same_holders_def start_scheduler_def)
    then show ?thesis by (simp add: same_holders_ids)
  next
    case 2
    have "same_holders s s'" by (simp add: 2 same_holders_def shutdown_scheduler_def)
    then show ?thesis by (simp add: same_holders_ids)
  next
    case (3 f)
    then show ?thesis using resume_holders [OF assms(2)] by simp
  next
    case (4 ray_nodes)
    then show ?thesis using control_same_holders [OF 4(3)] by (simp add: same_holders_ids)
  qed
  then show "sched_ids s' \<subseteq> sched_ids s" "held_on n s \<subseteq> held_on n s'" by blast+
qed

lemma deallocate_holders:
  "sched_ids (deallocate_resource m i g s) \<subseteq> sched_ids s" "held_on n s - {(m, i)} \<subseteq> held_on n (deallocate_resource m i g s)"
proof -
  define s' where "s' = deallocate_resource m i g s"
  have w: "waiting s' = waiting s" by (simp add: s'_def deallocate_resource_def Let_def split: option.split)
  have mi: "model_instance s' = (case map_of (model_instance s) m of None \<Rightarrow> model_instance s | Some insts \<Rightarrow>
      if map_of insts i = None then model_instance s else AList.update m (AList.delete i insts) (model_instance s))"
    by (auto simp: s'_def deallocate_resource_def add_free_gpu_def Let_def split: option.split)
  have held: "held_on k s' \<subseteq> held_on k s" "held_on k s - {(m, i)} \<subseteq> held_on k s'" for k
    by (auto simp: held_on_def mi update_conv' delete_conv' split: option.splits if_splits)
  then show "held_on n s - {(m, i)} \<subseteq> held_on n (deallocate_resource m i g s)" unfolding s'_def by blast
  have "sched_ids s' \<subseteq> sched_ids s" using held(1) unfolding sched_ids_def w by blast
  then show "sched_ids (deallocate_resource m i g s) \<subseteq> sched_ids s" unfolding s'_def .
qed

lemma allocate_holders:
  assumes "instances_inv s"
  shows "sched_ids (allocate_resource m i g now s) \<subseteq> insert (m, i) (sched_ids s)" "held_on n (allocate_resource m i g now s) = held_on n s"
  by (auto simp: allocate_resource_def sched_ids_def held_on_def update_conv' Let_def split: if_splits)

definition nonneg_gpus :: "(string \<Rightarrow> rat) \<Rightarrow> fcfs \<Rightarrow> bool" where
  "nonneg_gpus gpus s \<longleftrightarrow> (\<forall>m. 0 \<le> gpus m) \<and> scheduler_inv gpus s"

interpretation fcfs_alloc: resource_allocator "nonneg_gpus gpus" sched_ids held_on allocate_resource deallocate_resource scheduler_internal gpus
  for gpus
proof
  fix s :: fcfs and s' m i now n g
  assume ok: "nonneg_gpus gpus s"
  then have g: "\<And>m. 0 \<le> gpus m" and inv: "scheduler_inv gpus s" and inst: "instances_inv s" by (auto simp: nonneg_gpus_def scheduler_inv_def)
  show "nonneg_gpus gpus (allocate_resource m i (gpus m) now s)" if fresh: "(m, i) \<notin> sched_ids s"
    using allocate_inv [OF inv] fresh g by (simp add: nonneg_gpus_def sched_ids_def)
  show "nonneg_gpus gpus (deallocate_resource m i (gpus m) s)" using deallocate_inv [OF inv g] g by (simp add: nonneg_gpus_def)
  show "nonneg_gpus gpus s'" if "scheduler_internal s s'"
  proof -
    have "scheduler_step gpus s s'"
      using that by cases (auto intro: step_start step_shutdown step_resume step_control)
    then show ?thesis using scheduler_step_inv [OF _ inv g] g by (simp add: nonneg_gpus_def)
  qed
  show "sched_ids s' \<subseteq> sched_ids s" "held_on n s \<subseteq> held_on n s'" if "scheduler_internal s s'"
    using internal_holders [OF that inst] by simp_all
qed (use deallocate_holders allocate_holders in \<open>auto simp: nonneg_gpus_def scheduler_inv_def\<close>)

section \<open>Starts that fail\<close>

lemma router_step_failed:
  assumes "router_step r c r'" "lifecycle_inv r" and i: "map_of (start_tasks r) i = Some Start_failed"
  shows "map_of (start_tasks r') i = Some Start_failed"
  using assms(1)
proof cases
  case (rs_scale new_id)
  have "i \<in> fst ` set (handles r)" using starting_task [OF assms(2) i] assms(2) by (auto simp: lifecycle_inv_def live_ids_def)
  then have "i \<noteq> new_id" using rs_scale(4) by blast
  then have "map_of (start_tasks (create_instance new_id config r)) i = Some Start_failed" for config
    using i by (simp add: create_instance_def Let_def map_add_def)
  then show ?thesis using rs_scale i by (simp add: scaler_iteration_def Let_def split: option.split sum.split)
next
  case (rs_allocated j node)
  obtain ph where "start_tasks r' = AList.update j ph (start_tasks r)" using start_allocated_tasks [of j node r] rs_allocated(2) by blast
  moreover have "j \<noteq> i" using rs_allocated(3) i by auto
  ultimately show ?thesis using i by (simp add: update_conv')
next
  case (rs_booted j node booted)
  have "j \<noteq> i" using rs_booted(3) i by auto
  then show ?thesis using rs_booted i by (cases booted) (auto simp: start_booted_def update_conv' delete_conv')
next
  case (rs_initialized j booted)
  have "j \<noteq> i" using rs_initialized(3) i by auto
  then show ?thesis using rs_initialized i by (cases booted) (auto simp: start_initialized_def update_conv' delete_conv')
next
  case (rs_start_entry j)
  have "j \<noteq> i" using rs_start_entry(3) i by auto
  then show ?thesis using rs_start_entry i by (auto simp: start_entry_def update_conv' delete_conv')
next
  case (rs_resume f j)
  then show ?thesis using i by (simp add: resume_inference_def split: option.split)
next
  case (rs_answer f j outcome)
  then show ?thesis using i by (simp add: finish_inference_def split: sum.split)
qed (use i in \<open>simp_all add: start_router_def update_router_def inference_def shutdown_router_def finish_entry_def shutdown_entry_def halt_done_def
      Let_def split: list.split option.split\<close>)

lemma deallocate_other:
  assumes "(m, i) \<in> held_on n s" "(k, j) \<noteq> (m, i)"
  shows "(m, i) \<in> held_on n (deallocate_resource k j g s)"
  using deallocate_holders(2) [of n s k j g] assms by blast

section \<open>Properties of the serving system\<close>

definition serving_step :: "(string \<Rightarrow> rat) \<Rightarrow> (string \<Rightarrow> router option) \<times> fcfs \<Rightarrow> (string \<Rightarrow> router option) \<times> fcfs \<Rightarrow> bool" where
  "serving_step = system_step allocate_resource deallocate_resource scheduler_internal held_on"

definition serving_reachable :: "(string \<Rightarrow> rat) \<Rightarrow> (string \<Rightarrow> router option) \<times> fcfs \<Rightarrow> bool" where
  "serving_reachable gpus S \<longleftrightarrow> (serving_step gpus)\<^sup>*\<^sup>* (Map.empty, init_scheduler) S"

lemma init_sched_ids: "sched_ids init_scheduler = {}"
  by (simp add: sched_ids_def held_on_def init_scheduler_def)

lemma serving_inv:
  assumes "serving_reachable gpus S" "\<forall>m. 0 \<le> gpus m"
  shows "fcfs_alloc.system_inv gpus (fst S) (snd S)"
proof -
  have "nonneg_gpus gpus init_scheduler" using assms(2) by (simp add: nonneg_gpus_def init_scheduler_inv)
  from fcfs_alloc.system_reachable_inv [of gpus init_scheduler "fst S" "snd S", OF _ this init_sched_ids] show ?thesis
    using assms(1) by (simp add: serving_reachable_def serving_step_def)
qed

text \<open>
  C1. The routers and the scheduler together account for every GPU. In every reachable state of
  the composed system, whatever the interleaving of the routers' coroutines with the scheduler's,
  the free GPUs of a node are non-negative and with those booked on it they are all its GPUs;
  every ready instance of every router is booked on a node; and whatever the scheduler has booked
  or queued belongs to an instance that a registered router has created.
\<close>

theorem serving_accounts_gpus:
  assumes "serving_reachable gpus (R, s)" and "\<forall>m. 0 \<le> gpus m"
  shows "(\<forall>n info. map_of (worker_nodes s) n = Some info \<longrightarrow> 0 \<le> free_gpu info \<and> free_gpu info + used_gpus gpus n s = total_gpu info)
    \<and> (\<forall>m r i. R m = Some r \<and> i \<in> set (ready_instances r) \<longrightarrow> (\<exists>n. (m, i) \<in> held_on n s))
    \<and> (\<forall>m i. (m, i) \<in> sched_ids s \<longrightarrow> (\<exists>r. R m = Some r \<and> i \<in> fst ` set (handles r)))"
proof -
  have inv: "fcfs_alloc.system_inv gpus R s" using serving_inv [OF assms] by simp
  have "scheduler_inv gpus s" using inv unfolding fcfs_alloc.system_inv_def nonneg_gpus_def by blast
  then have "\<forall>n info. map_of (worker_nodes s) n = Some info \<longrightarrow> 0 \<le> free_gpu info \<and> free_gpu info + used_gpus gpus n s = total_gpu info"
    by (simp add: scheduler_inv_def nodes_inv_def)
  moreover have "\<exists>n. (m, i) \<in> held_on n s" if "R m = Some r" "i \<in> set (ready_instances r)" for m r i
    using fcfs_alloc.system_invD(5) [OF inv that(1)] that(2) by (simp add: up_ids_def)
  moreover have "\<exists>r. R m = Some r \<and> i \<in> fst ` set (handles r)" if "(m, i) \<in> sched_ids s" for m i
    using inv that unfolding fcfs_alloc.system_inv_def asked_def by blast
  ultimately show ?thesis by blast
qed

text \<open>
  C39. A start that fails keeps its GPUs for ever. When the start of an instance raises after the
  scheduler has booked a node for it (the node joined after the model was registered, or the
  backend failed to come up), then in every later state the instance is still counted as
  starting and the scheduler still has it booked on that node.
\<close>

theorem failed_start_keeps_gpus:
  assumes "serving_reachable gpus (R, s)" and "\<forall>m. 0 \<le> gpus m" and "R m = Some r" and "map_of (start_tasks r) i = Some Start_failed"
    and "(m, i) \<in> held_on n s" and "(serving_step gpus)\<^sup>*\<^sup>* (R, s) (R', s')"
  shows "\<exists>r'. R' m = Some r' \<and> i \<in> set (starting_instances r') \<and> map_of (start_tasks r') i = Some Start_failed \<and> (m, i) \<in> held_on n s'"
proof -
  let ?kept = "\<lambda>S. serving_reachable gpus S \<and> (\<exists>r. fst S m = Some r \<and> map_of (start_tasks r) i = Some Start_failed \<and> (m, i) \<in> held_on n (snd S))"
  have "?kept S" if "(serving_step gpus)\<^sup>*\<^sup>* (R, s) S" for S
    using that
  proof (induction rule: rtranclp_induct)
    case base
    then show ?case using assms by simp
  next
    case (step S1 S2)
    then obtain q where q: "fst S1 m = Some q" "map_of (start_tasks q) i = Some Start_failed" "(m, i) \<in> held_on n (snd S1)" by blast
    have inv: "fcfs_alloc.system_inv gpus (fst S1) (snd S1)" using step.IH assms(2) serving_inv by blast
    have inst: "instances_inv (snd S1)" using inv by (simp add: fcfs_alloc.system_inv_def nonneg_gpus_def scheduler_inv_def)
    have life: "lifecycle_inv q" by (rule fcfs_alloc.system_invD(2) [OF inv q(1)])
    have failed: "map_of (start_tasks q') i = Some Start_failed" if "router_step q c q'" for c q'
      using router_step_failed [OF that life q(2)] .
    have "serving_reachable gpus S2"
      using step.IH step.hyps(2) unfolding serving_reachable_def by (meson rtranclp.rtrancl_into_rtrancl)
    moreover have "\<exists>r. fst S2 m = Some r \<and> map_of (start_tasks r) i = Some Start_failed \<and> (m, i) \<in> held_on n (snd S2)"
      using step.hyps(2) unfolding serving_step_def
    proof cases
      case (sys_release Ra k ra j ra' sa)
      have "j \<noteq> i" if "k = m"
      proof
        assume "j = i"
        have "i \<in> up_ids q" using sys_release(1,3,4) q(1) that \<open>j = i\<close>
          by (auto elim!: router_stepE simp: up_ids_def halting_set start_entry_def split: if_splits)
        then have "i \<in> set (ready_instances q @ deleting_instances q @ halting_ids q)"
          using q(2) by (auto simp: up_ids_def booting_ids_def)
        then show False using starting_task [OF life q(2)] life by (auto simp: lifecycle_inv_def live_ids_def)
      qed
      then have ne: "(k, j) \<noteq> (m, i)" by blast
      have "model_name ra = k" using fcfs_alloc.system_invD(3) [OF inv, of k ra] sys_release(1,3) by simp
      then have "(m, i) \<in> held_on n (snd S2)" using deallocate_other [OF q(3) ne] sys_release(1,2) by simp
      then show ?thesis using sys_release q failed by (cases "k = m") auto
    next
      case (sys_internal sa sa' Ra)
      then show ?thesis using internal_holders(2) [OF sys_internal(3), of n] inst q by auto
    next
      case (sys_ask Ra k ra j ra' sa now)
      then show ?thesis using allocate_holders(2) [OF inst] q failed by (cases "k = m") auto
    qed (use q failed in \<open>auto split: if_splits\<close>)
    ultimately show ?case by blast
  qed
  from this [OF assms(6)] obtain r' where r': "R' m = Some r'" "map_of (start_tasks r') i = Some Start_failed" "(m, i) \<in> held_on n s'"
    "serving_reachable gpus (R', s')" by auto
  have "lifecycle_inv r'" using fcfs_alloc.system_invD(2) serving_inv [OF r'(4) assms(2)] r'(1) by fastforce
  from starting_task [OF this r'(2)] show ?thesis using r' by blast
qed

section \<open>Witnesses of the composed system\<close>

text \<open>One model, registered before its node joined: the scheduler books the node, the start fails.\<close>

definition demo_unplaced :: router where
  "demo_unplaced = scaler_iteration ''m_0'' (start_router (Some demo_config) (init_router ''m'' 1 ''vllm'' []))"

definition demo_asking :: router where
  "demo_asking = fst (start_entry ''m_0'' demo_unplaced)"

definition demo_failed :: router where
  "demo_failed = start_allocated ''m_0'' ''0'' demo_asking"

definition demo_asked :: fcfs where
  "demo_asked = start_scheduler (allocate_resource ''m'' ''m_0'' 1 0 init_scheduler)"

definition demo_booked :: fcfs where
  "demo_booked = resume_allocation 0 (projr (control_iteration demo_cluster demo_asked))"

lemma serving_next: "serving_reachable gpus S \<Longrightarrow> serving_step gpus S S' \<Longrightarrow> serving_reachable gpus S'"
  unfolding serving_reachable_def by (rule rtranclp.rtrancl_into_rtrancl)

lemmas serving_steps = sys_register sys_silent sys_ask sys_answer sys_release sys_internal

lemma demo_unplaced_serving: "serving_reachable (\<lambda>_. 1) ([''m'' \<mapsto> demo_unplaced], init_scheduler)"
proof -
  let ?r = "init_router ''m'' 1 ''vllm'' []"
  let ?r1 = "start_router (Some demo_config) ?r"
  have "serving_reachable (\<lambda>_. 1) (Map.empty, init_scheduler)" by (simp add: serving_reachable_def)
  then have "serving_reachable (\<lambda>_. 1) ([''m'' \<mapsto> ?r], init_scheduler)"
    by (rule serving_next) (unfold serving_step_def, rule sys_register [where gpus = "\<lambda>_. 1" and R = Map.empty], simp)
  moreover have "serving_step (\<lambda>_. 1) ([''m'' \<mapsto> ?r], init_scheduler) ([''m'' \<mapsto> ?r, ''m'' \<mapsto> ?r1], init_scheduler)"
    unfolding serving_step_def by (rule sys_silent, simp, rule rs_start, simp add: init_router_def)
  ultimately have "serving_reachable (\<lambda>_. 1) ([''m'' \<mapsto> ?r, ''m'' \<mapsto> ?r1], init_scheduler)" by (rule serving_next)
  moreover have "serving_step (\<lambda>_. 1) ([''m'' \<mapsto> ?r, ''m'' \<mapsto> ?r1], init_scheduler) ([''m'' \<mapsto> ?r, ''m'' \<mapsto> ?r1, ''m'' \<mapsto> demo_unplaced], init_scheduler)"
    unfolding serving_step_def demo_unplaced_def by (rule sys_silent, simp, rule rs_scale, simp_all add: start_router_def init_router_def)
  ultimately show ?thesis using serving_next by fastforce
qed

lemma demo_asked_serving: "serving_reachable (\<lambda>_. 1) ([''m'' \<mapsto> demo_asking], demo_asked)"
proof -
  have a: "snd (start_entry ''m_0'' demo_unplaced)" "map_of (start_tasks demo_unplaced) ''m_0'' = Some Created"
    "model_name demo_unplaced = ''m''" "required_gpus demo_unplaced = 1" by code_simp+
  have "router_step demo_unplaced (Allocate ''m_0'') demo_asking"
    using rs_start_entry [OF a(2)] a(1) by (simp add: demo_asking_def)
  from sys_ask [of "[''m'' \<mapsto> demo_unplaced]" "''m''", OF _ this, where now = 0] a(3,4)
  have "serving_step (\<lambda>_. 1) ([''m'' \<mapsto> demo_unplaced], init_scheduler)
      ([''m'' \<mapsto> demo_unplaced, ''m'' \<mapsto> demo_asking], allocate_resource ''m'' ''m_0'' 1 0 init_scheduler)"
    by (simp add: serving_step_def)
  with demo_unplaced_serving have "serving_reachable (\<lambda>_. 1) ([''m'' \<mapsto> demo_asking], allocate_resource ''m'' ''m_0'' 1 0 init_scheduler)"
    using serving_next by fastforce
  moreover have "serving_step (\<lambda>_. 1) ([''m'' \<mapsto> demo_asking], allocate_resource ''m'' ''m_0'' 1 0 init_scheduler) ([''m'' \<mapsto> demo_asking], demo_asked)"
    unfolding serving_step_def demo_asked_def by (intro sys_internal scheduler_internal.intros)
  ultimately show ?thesis by (rule serving_next)
qed

lemma demo_asked_control:
  "control_iteration demo_cluster demo_asked = Inr (projr (control_iteration demo_cluster demo_asked))" "fcfs.running demo_asked"
  by code_simp+

lemma demo_booked_nodes: "worker_nodes demo_booked = [(''0'', demo_worker\<lparr> free_gpu := 1 \<rparr>)]" "model_instance demo_booked = [(''m'', [(''m_0'', ''0'')])]"
  by code_simp+

lemma demo_booked_serving: "serving_reachable (\<lambda>_. 1) ([''m'' \<mapsto> demo_asking], demo_booked)"
proof -
  have "serving_step (\<lambda>_. 1) ([''m'' \<mapsto> demo_asking], demo_asked) ([''m'' \<mapsto> demo_asking], projr (control_iteration demo_cluster demo_asked))"
    unfolding serving_step_def by (intro sys_internal scheduler_internal.intros(4)) (use demo_asked_control demo_controllable in auto)
  with demo_asked_serving have "serving_reachable (\<lambda>_. 1) ([''m'' \<mapsto> demo_asking], projr (control_iteration demo_cluster demo_asked))"
    by (rule serving_next)
  moreover have "serving_step (\<lambda>_. 1) ([''m'' \<mapsto> demo_asking], projr (control_iteration demo_cluster demo_asked)) ([''m'' \<mapsto> demo_asking], demo_booked)"
    unfolding serving_step_def demo_booked_def by (intro sys_internal scheduler_internal.intros)
  ultimately show ?thesis by (rule serving_next)
qed

lemma demo_booked_held: "(''m'', ''m_0'') \<in> held_on ''0'' demo_booked"
  by (simp add: held_on_def demo_booked_nodes)

lemma demo_failed_serving: "serving_reachable (\<lambda>_. 1) ([''m'' \<mapsto> demo_failed], demo_booked)"
proof -
  have a: "map_of (start_tasks demo_asking) ''m_0'' = Some Allocating" "model_name demo_asking = ''m''" by code_simp+
  have "serving_step (\<lambda>_. 1) ([''m'' \<mapsto> demo_asking], demo_booked) ([''m'' \<mapsto> demo_asking, ''m'' \<mapsto> demo_failed], demo_booked)"
    unfolding serving_step_def demo_failed_def
    by (rule sys_answer [OF _ rs_allocated [OF a(1)]]) (use a(2) demo_booked_held in simp_all)
  then show ?thesis using serving_next [OF demo_booked_serving] by fastforce
qed

theorem serving_accounts_gpus_witness: "used_gpus (\<lambda>_. 1) ''0'' demo_booked = 1"
proof -
  have node: "map_of (worker_nodes demo_booked) ''0'' = Some (demo_worker\<lparr> free_gpu := 1 \<rparr>)" by (simp add: demo_booked_nodes)
  have nonneg: "\<forall>m :: string. (0 :: rat) \<le> (\<lambda>_. 1) m" by simp
  from serving_accounts_gpus [OF demo_booked_serving nonneg, THEN conjunct1, rule_format, OF node] show ?thesis
    by (simp add: demo_worker_def)
qed

theorem failed_start_keeps_gpus_witness:
  "\<exists>r'. [''m'' \<mapsto> demo_failed] ''m'' = Some r' \<and> ''m_0'' \<in> set (starting_instances r') \<and> (''m'', ''m_0'') \<in> held_on ''0'' (shutdown_scheduler demo_booked)"
proof -
  have f: "map_of (start_tasks demo_failed) ''m_0'' = Some Start_failed" by code_simp
  have "(serving_step (\<lambda>_. 1))\<^sup>*\<^sup>* ([''m'' \<mapsto> demo_failed], demo_booked) ([''m'' \<mapsto> demo_failed], shutdown_scheduler demo_booked)"
    unfolding serving_step_def by (intro r_into_rtranclp sys_internal scheduler_internal.intros)
  from failed_start_keeps_gpus [OF demo_failed_serving _ _ f demo_booked_held this] show ?thesis by auto
qed

end
