(* ===== verification/Controller.thy ===== *)
theory Controller
  imports Router
begin

text \<open>
  The controller (\<open>SllmController\<close> of \<open>src/sllm/serve/controller.py\<close>): it starts the store
  manager and the scheduler and keeps one router per registered model. It is an actor with one
  event loop; \<open>register\<close> is suspended while the store manager registers the checkpoint, and the
  other operations are atomic (no lock is held across a suspension). A registration that waits
  for the store is an entry of \<open>registering\<close>; the cluster listing and the verdict of the store are
  arguments. Starting and updating a router are calls to its actor; their effect on the router is
  applied at the call. Logging is left out, and a model configuration has a model name.
\<close>

section \<open>State\<close>

record model_config =
  mc_model :: string
  mc_backend :: "string option"
  mc_num_gpus :: "rat option"
  mc_auto_scaling :: "scaling_config option"

datatype scheduler_class = Fcfs | Reuse_aware

datatype router_class = Round_robin | Migration

record controller_config =
  enable_storage_aware :: "bool option"
  enable_migration :: "bool option"

record pending_registration =
  pr_config :: model_config
  pr_backend :: string
  pr_nodes :: "(string \<times> worker_node) list"

record controller =
  config :: controller_config
  running :: bool
  request_routers :: "(string \<times> router) list"
  registered_models :: "(string \<times> model_config) list"
  scheduler_cls :: "scheduler_class option"
  router_cls :: "router_class option"
  registering :: "pending_registration list"

definition init_controller :: "controller_config \<Rightarrow> controller" where
  "init_controller cfg =
     \<lparr> config = cfg, running = False, request_routers = [], registered_models = [], scheduler_cls = None, router_cls = None, registering = [] \<rparr>"

definition start_controller :: "controller \<Rightarrow> controller result" where
  "start_controller c =
     (if running c then Inl (RuntimeError ''Controller already started'')
      else Inr (c\<lparr> running := True,
                   scheduler_cls := Some (if config_get (enable_storage_aware (config c)) False then Reuse_aware else Fcfs),
                   router_cls := Some (if config_get (enable_migration (config c)) False then Migration else Round_robin) \<rparr>))"

section \<open>Registration\<close>

text \<open>Up to the call of the store manager.\<close>

definition register :: "ray_node list \<Rightarrow> model_config \<Rightarrow> controller \<Rightarrow> controller result" where
  "register ray_nodes cfg c =
     (if \<not> running c then Inr c
      else case mc_backend cfg of None \<Rightarrow> Inr c
        | Some be \<Rightarrow>
          if mc_model cfg \<in> fst ` set (registered_models c) then Inr c
          else r_bind (get_worker_nodes ray_nodes) (\<lambda>nodes.
            Inr (c\<lparr> registering := registering c @ [\<lparr> pr_config = cfg, pr_backend = be, pr_nodes = nodes \<rparr>] \<rparr>)))"

text \<open>The store manager has answered: its error is raised, or the router is created and started.\<close>

definition finish_register :: "pending_registration \<Rightarrow> unit result \<Rightarrow> controller \<Rightarrow> controller \<times> unit result" where
  "finish_register p outcome c =
     (let c1 = c\<lparr> registering := remove1 p (registering c) \<rparr>; name = mc_model (pr_config p) in
      case outcome of Inl e \<Rightarrow> (c1, Inl e)
      | Inr _ \<Rightarrow>
        let request_router = init_router name (config_get (mc_num_gpus (pr_config p)) 0) (pr_backend p) (pr_nodes p) in
        if name \<in> fst ` set (request_routers c1) then (c1, Inr ())
        else (c1\<lparr> registered_models := AList.update name (pr_config p) (registered_models c1),
                  request_routers := AList.update name (start_router (mc_auto_scaling (pr_config p)) request_router) (request_routers c1) \<rparr>,
              Inr ()))"

section \<open>Update, delete, shutdown\<close>

definition update_model :: "string \<Rightarrow> model_config \<Rightarrow> controller \<Rightarrow> controller result" where
  "update_model name cfg c =
     (if name \<notin> fst ` set (registered_models c) \<or> name \<notin> fst ` set (request_routers c)
      then Inl (ValueError ''Model not found, please register first'')
      else case mc_auto_scaling cfg of None \<Rightarrow> Inr c
        | Some scaling \<Rightarrow>
          Inr (c\<lparr> registered_models := AList.map_entry name (\<lambda>old. old\<lparr> mc_auto_scaling := Some scaling \<rparr>) (registered_models c),
                  request_routers := AList.map_entry name (update_router (Some scaling)) (request_routers c) \<rparr>))"

definition model_exists :: "string \<Rightarrow> controller \<Rightarrow> bool" where
  "model_exists name c \<longleftrightarrow> name \<in> fst ` set (registered_models c)"

definition get_models :: "controller \<Rightarrow> (string \<times> model_config) list" where
  "get_models c = registered_models c"

text \<open>The router is dropped without being shut down.\<close>

definition delete_model :: "string \<Rightarrow> controller \<Rightarrow> controller result" where
  "delete_model name c =
     (if name \<notin> fst ` set (request_routers c) then Inr c
      else if name \<notin> fst ` set (registered_models c) then Inl KeyError
      else Inr (c\<lparr> request_routers := AList.delete name (request_routers c),
                   registered_models := AList.delete name (registered_models c) \<rparr>))"

text \<open>The method \<open>_delete\<close> the list of tasks is built with does not exist.\<close>

definition shutdown_controller :: "controller \<Rightarrow> controller \<times> unit result" where
  "shutdown_controller c =
     (if \<not> running c then (c, Inl (RuntimeError ''Controller not running''))
      else let c1 = c\<lparr> running := False \<rparr> in
        if request_routers c1 \<noteq> [] then (c1, Inl AttributeError) else (c1, Inr ()))"

section \<open>The controller as a state machine\<close>

inductive controller_step :: "controller \<Rightarrow> controller \<Rightarrow> bool" where
  cs_start: "start_controller c = Inr c' \<Longrightarrow> controller_step c c'"
| cs_register: "register ray_nodes cfg c = Inr c' \<Longrightarrow> controller_step c c'"
| cs_registered: "p \<in> set (registering c) \<Longrightarrow> controller_step c (fst (finish_register p outcome c))"
| cs_update: "update_model m cfg c = Inr c' \<Longrightarrow> controller_step c c'"
| cs_delete: "delete_model m c = Inr c' \<Longrightarrow> controller_step c c'"
| cs_shutdown: "controller_step c (fst (shutdown_controller c))"

definition controller_reachable :: "controller \<Rightarrow> bool" where
  "controller_reachable c \<longleftrightarrow> (\<exists>cfg. controller_step\<^sup>*\<^sup>* (init_controller cfg) c)"

text \<open>
  Both dictionaries hold the same models, and the router of a model is that model's: started with
  the scaling configuration that is registered for it and asking for its number of GPUs.
\<close>

definition router_matches :: "string \<Rightarrow> model_config \<Rightarrow> router \<Rightarrow> bool" where
  "router_matches m cfg r \<longleftrightarrow> mc_model cfg = m \<and> model_name r = m \<and> required_gpus r = config_get (mc_num_gpus cfg) 0
     \<and> auto_scaling_config r = mc_auto_scaling cfg \<and> router.running r"

definition registry_inv :: "controller \<Rightarrow> bool" where
  "registry_inv c \<longleftrightarrow> distinct (map fst (request_routers c)) \<and> distinct (map fst (registered_models c))
     \<and> (\<forall>m. rel_option (router_matches m) (map_of (registered_models c) m) (map_of (request_routers c) m))"

lemma registry_invD:
  assumes "registry_inv c"
  shows "map_of (registered_models c) m = None \<longleftrightarrow> map_of (request_routers c) m = None"
    "m \<in> fst ` set (registered_models c) \<longleftrightarrow> m \<in> fst ` set (request_routers c)"
proof -
  show none: "map_of (registered_models c) m = None \<longleftrightarrow> map_of (request_routers c) m = None"
    using assms unfolding registry_inv_def by (metis option.rel_distinct option.exhaust)
  show "m \<in> fst ` set (registered_models c) \<longleftrightarrow> m \<in> fst ` set (request_routers c)"
    using none by (simp add: map_of_eq_None_iff)
qed

lemma registry_cong:
  "registry_inv c \<Longrightarrow> registered_models c' = registered_models c \<Longrightarrow> request_routers c' = request_routers c \<Longrightarrow> registry_inv c'"
  by (simp add: registry_inv_def)

lemma started_matches:
  "router_matches (mc_model cfg) cfg (start_router (mc_auto_scaling cfg) (init_router (mc_model cfg) (config_get (mc_num_gpus cfg) 0) be nodes))"
  by (simp add: router_matches_def start_router_def init_router_def)

lemma finish_register_registry:
  assumes "registry_inv c"
  shows "registry_inv (fst (finish_register p outcome c))"
proof (cases "(\<exists>u. outcome = Inr u) \<and> mc_model (pr_config p) \<notin> fst ` set (request_routers c)")
  case True
  then show ?thesis using assms started_matches
    by (auto simp: finish_register_def Let_def registry_inv_def distinct_update update_conv')
next
  case False
  then show ?thesis by (intro registry_cong [OF assms]) (auto simp: finish_register_def Let_def split: sum.split)
qed

lemma update_model_registry:
  assumes "registry_inv c" "update_model m cfg c = Inr c'"
  shows "registry_inv c'"
proof (cases "mc_auto_scaling cfg")
  case None
  then show ?thesis using assms by (simp add: update_model_def split: if_splits)
next
  case (Some scaling)
  let ?g = "\<lambda>old. old\<lparr> mc_auto_scaling := Some scaling \<rparr>"
  have "router_matches k (?g a) (update_router (Some scaling) b)" if "router_matches k a b" for k a b
    using that by (simp add: router_matches_def update_router_def)
  moreover have "registered_models c' = AList.map_entry m ?g (registered_models c)"
    "request_routers c' = AList.map_entry m (update_router (Some scaling)) (request_routers c)"
    using assms(2) Some by (auto simp: update_model_def split: if_splits)
  moreover have "rel_option (router_matches k) (map_option ?g x) (map_option (update_router (Some scaling)) y)" if "rel_option (router_matches k) x y" for k x y
    using that calculation(1) by (cases x; cases y) auto
  ultimately show ?thesis using assms(1) unfolding registry_inv_def by (simp add: distinct_map_entry)
qed

lemma delete_model_registry:
  assumes "registry_inv c" "delete_model m c = Inr c'"
  shows "registry_inv c'"
  using assms by (auto simp: delete_model_def registry_inv_def distinct_delete delete_conv' split: if_splits)

lemma controller_step_registry:
  assumes "controller_step c c'" and inv: "registry_inv c"
  shows "registry_inv c'"
  using assms(1)
proof cases
  case cs_start
  then show ?thesis by (intro registry_cong [OF inv]) (auto simp: start_controller_def split: if_splits)
next
  case (cs_register ray_nodes cfg)
  then show ?thesis by (intro registry_cong [OF inv]) (auto simp: register_def py_simps split: if_splits option.splits)
next
  case cs_shutdown
  then show ?thesis by (intro registry_cong [OF inv]) (auto simp: shutdown_controller_def Let_def)
qed (use inv in \<open>auto intro: finish_register_registry update_model_registry delete_model_registry\<close>)

lemma init_registry: "registry_inv (init_controller cfg)"
  by (simp add: registry_inv_def init_controller_def)

lemma controller_registry_inv:
  assumes "controller_reachable c"
  shows "registry_inv c"
proof -
  obtain cfg where "controller_step\<^sup>*\<^sup>* (init_controller cfg) c" using assms unfolding controller_reachable_def by blast
  then show ?thesis
    by (induction rule: rtranclp_induct) (auto intro: init_registry controller_step_registry)
qed

section \<open>Properties\<close>

lemma registry_matches:
  assumes "registry_inv c" "map_of (registered_models c) m = Some cfg"
  shows "\<exists>r. map_of (request_routers c) m = Some r \<and> router_matches m cfg r"
  using assms unfolding registry_inv_def by (metis option_rel_Some1)

text \<open>
  C35. The registry is consistent. In every reachable state of the controller, also while several
  registrations of the same model wait for the store, the models with a router are the
  registered models, a router is the one of its model and runs with the scaling configuration
  registered for it; so updating or deleting a registered model never fails, deleting it makes it
  unknown, and it can be registered again.
\<close>

theorem controller_registry_consistent:
  assumes "controller_reachable c" and "model_exists m c"
  shows "(\<exists>cfg r. map_of (registered_models c) m = Some cfg \<and> map_of (request_routers c) m = Some r \<and> router_matches m cfg r)
    \<and> (\<exists>c'. update_model m new c = Inr c' \<and> (\<forall>k. model_exists k c' = model_exists k c))
    \<and> (\<exists>c'. delete_model m c = Inr c' \<and> (\<forall>k. model_exists k c' = (k \<noteq> m \<and> model_exists k c)))"
proof -
  note inv = controller_registry_inv [OF assms(1)]
  have keys: "m \<in> fst ` set (registered_models c)" "m \<in> fst ` set (request_routers c)"
    using assms(2) registry_invD(2) [OF inv] by (auto simp: model_exists_def)
  obtain cfg where cfg: "map_of (registered_models c) m = Some cfg" using map_of_mem [OF keys(1)] by blast
  have "fst ` set (AList.delete m (registered_models c)) = fst ` set (registered_models c) - {m}"
    by (metis delete_keys list.set_map set_removeAll)
  then have "\<exists>c'. delete_model m c = Inr c' \<and> (\<forall>k. model_exists k c' = (k \<noteq> m \<and> model_exists k c))"
    using keys by (auto simp: delete_model_def model_exists_def)
  moreover have "fst ` set (AList.map_entry m g (registered_models c)) = fst ` set (registered_models c)" for g
    by (metis dom_map_entry)
  then have "\<exists>c'. update_model m new c = Inr c' \<and> (\<forall>k. model_exists k c' = model_exists k c)"
    using keys by (auto simp: update_model_def model_exists_def split: option.split)
  ultimately show ?thesis using cfg registry_matches [OF inv cfg] by blast
qed

text \<open>
  C40. The controller cannot be shut down while it has models. From every reachable running state
  with a registered model \<open>shutdown\<close> raises and leaves every model registered and every router
  running, but the controller marked as stopped: it refuses new registrations, and a second
  shutdown raises another error.
\<close>

theorem controller_shutdown_stuck:
  assumes "controller_reachable c" and "running c" and "model_exists m c"
  shows "\<exists>c'. shutdown_controller c = (c', Inl AttributeError) \<and> request_routers c' = request_routers c \<and> registered_models c' = registered_models c
    \<and> register ray_nodes new c' = Inr c' \<and> snd (shutdown_controller c') = Inl (RuntimeError ''Controller not running'')"
proof -
  have "request_routers c \<noteq> []"
    using registry_invD(2) [OF controller_registry_inv [OF assms(1)], of m] assms(3) by (auto simp: model_exists_def)
  then show ?thesis using assms(2) by (simp add: shutdown_controller_def register_def)
qed

section \<open>Witnesses\<close>

definition demo_model :: model_config where
  "demo_model = \<lparr> mc_model = ''m'', mc_backend = Some ''vllm'', mc_num_gpus = Some 1, mc_auto_scaling = Some demo_config \<rparr>"

definition demo_started :: controller where
  "demo_started = projr (start_controller (init_controller \<lparr> enable_storage_aware = None, enable_migration = None \<rparr>))"

definition demo_twice :: controller where
  "demo_twice = projr (register demo_cluster demo_model (projr (register demo_cluster demo_model demo_started)))"

definition demo_pending :: pending_registration where
  "demo_pending = \<lparr> pr_config = demo_model, pr_backend = ''vllm'', pr_nodes = [(''0'', demo_worker)] \<rparr>"

definition demo_registered :: controller where
  "demo_registered = fst (finish_register demo_pending (Inr ()) (fst (finish_register demo_pending (Inr ()) demo_twice)))"

lemma controller_next: "controller_reachable c \<Longrightarrow> controller_step c c' \<Longrightarrow> controller_reachable c'"
  unfolding controller_reachable_def by (meson rtranclp.rtrancl_into_rtrancl)

lemma demo_twice_reachable: "controller_reachable demo_twice"
proof -
  have "controller_reachable (init_controller \<lparr> enable_storage_aware = None, enable_migration = None \<rparr>)"
    unfolding controller_reachable_def by blast
  then have "controller_reachable demo_started" by (rule controller_next) (rule cs_start, code_simp)
  then have "controller_reachable (projr (register demo_cluster demo_model demo_started))"
    by (rule controller_next) (rule cs_register [of demo_cluster demo_model], code_simp)
  then show ?thesis by (rule controller_next) (rule cs_register [of demo_cluster demo_model], code_simp)
qed

lemma demo_registered_reachable: "controller_reachable demo_registered"
proof -
  have p: "demo_pending \<in> set (registering demo_twice)" "demo_pending \<in> set (registering (fst (finish_register demo_pending (Inr ()) demo_twice)))"
    by code_simp+
  show ?thesis unfolding demo_registered_def
    by (rule controller_next [OF controller_next [OF demo_twice_reachable cs_registered [OF p(1)]] cs_registered [OF p(2)]])
qed

lemma demo_registered_facts: "running demo_registered" "model_exists ''m'' demo_registered" "length (request_routers demo_registered) = 1"
  by code_simp+

theorem controller_registry_consistent_witness: "\<exists>c'. delete_model ''m'' demo_registered = Inr c' \<and> \<not> model_exists ''m'' c'"
  using controller_registry_consistent [OF demo_registered_reachable demo_registered_facts(2), of demo_model] by auto

theorem controller_shutdown_stuck_witness: "\<exists>c'. shutdown_controller demo_registered = (c', Inl AttributeError)"
  using controller_shutdown_stuck [OF demo_registered_reachable demo_registered_facts(1,2)] by blast

end
