(* ===== verification/Migration_Router.thy ===== *)
theory Migration_Router
  imports Router
begin

text \<open>
  Live migration (\<open>MigrationRouter\<close> of \<open>src/sllm/serve/routers/migration_router.py\<close>), the
  subclass of the round-robin router that moves a running instance to another node. It adds a
  record of migrated instances to the state, overrides \<open>inference\<close> and adds
  \<open>execute_migration_plan\<close> and \<open>get_instance_status\<close>. The plan is executed in the pieces between its
  suspensions; the token loop blocks the event loop (\<open>ray.get\<close>), so it is one piece. The replies
  of the scheduler and of the backends are arguments, a generation is reduced to what the router
  reads of it.
\<close>

section \<open>State\<close>

record migration_router =
  base :: router
  migration_record :: "(string \<times> string) list"
  migration_delta :: int

definition init_migration_router :: "router \<Rightarrow> int option \<Rightarrow> migration_router" where
  "init_migration_router r delta = \<lparr> base = r, migration_record = [], migration_delta = config_get delta 20 \<rparr>"

section \<open>Requests\<close>

definition inference_migrating :: "string \<Rightarrow> migration_router \<Rightarrow> migration_router \<times> string option" where
  \<comment> \<open>as in the base class, but the idle time is not reset\<close>
  "inference_migrating action M =
     (let r = base M in
      if \<not> running r then (M, Some ''Instance stopped'')
      else (M\<lparr> base := r\<lparr> request_count := request_count r + 1, requests := requests r @ [(action, Queued)],
                          request_queue := request_queue r @ [length (requests r)] \<rparr> \<rparr>, None))"

text \<open>What a backend answers to \<open>generate\<close>: a result, or the tokens so far of a preempted request.\<close>

datatype generation = Complete string | Preempted int string

text \<open>
  A preempted request is resumed on the instance its instance was migrated to: the call is the
  pair of the target and the remaining token budget. The budget is lowered in the caller's
  request when it has one. \<open>Lost\<close> is the answer \<open>No target instance found\<close>.
\<close>

datatype resumption = Finished | Resumed string "int option" | Failed_resume py_error

definition after_generate :: "nat \<Rightarrow> string \<Rightarrow> int option \<Rightarrow> generation result \<Rightarrow> migration_router \<Rightarrow> migration_router \<times> resumption" where
  "after_generate f i max_tokens outcome M =
     (case outcome of
        Inl e \<Rightarrow> (M\<lparr> base := set_stage f (Raised i) (base M) \<rparr>, Failed_resume e)
      | Inr (Complete reply) \<Rightarrow> (M\<lparr> base := complete_request f i reply (base M) \<rparr>, Finished)
      | Inr (Preempted completed_tokens current_output) \<Rightarrow>
        (case map_of (migration_record M) i of
           None \<Rightarrow> (M\<lparr> base := set_stage f (Lost i) (base M) \<rparr>, Finished)
         | Some target_instance_id \<Rightarrow>
           if target_instance_id = '''' then (M\<lparr> base := set_stage f (Lost i) (base M) \<rparr>, Finished)
           else if target_instance_id \<notin> set (ready_instances (base M))
           then (M\<lparr> base := set_stage f (Raised i) (base M) \<rparr>, Failed_resume KeyError)
           else (M, Resumed target_instance_id (map_option (\<lambda>n. n - completed_tokens) max_tokens))))"

text \<open>The target has answered; the slot that is returned is the one of the first instance.\<close>

definition after_resume :: "nat \<Rightarrow> string \<Rightarrow> string result \<Rightarrow> migration_router \<Rightarrow> migration_router" where
  "after_resume f i outcome M = M\<lparr> base := finish_inference f i outcome (base M) \<rparr>"

definition get_instance_status :: "string \<Rightarrow> nat list \<Rightarrow> migration_router \<Rightarrow> (instance_status \<times> nat) option" where
  \<comment> \<open>the status of a ready instance and the number of tokens of its first request\<close>
  "get_instance_status i current_tokens M =
     (if i \<notin> set (ready_instances (base M)) then None
      else case map_of (handles (base M)) i of None \<Rightarrow> None
        | Some h \<Rightarrow> Some (get_status h, (case current_tokens of [] \<Rightarrow> 0 | n # _ \<Rightarrow> n)))"

section \<open>Copying the tokens\<close>

text \<open>
  The loop polls the source for the tokens of its first request (\<open>None\<close>: it has none) and sends
  them to the target until at most \<open>delta\<close> tokens are new. The polls are given by their replies;
  the result is the list of counts that were sent and the last poll, or \<open>None\<close> when the loop is
  still running after all of them.
\<close>

fun copy_tokens :: "int \<Rightarrow> int \<Rightarrow> int option list \<Rightarrow> (int list \<times> int option) option" where
  "copy_tokens delta previous [] = None"
| "copy_tokens delta previous (None # polls) = Some ([], None)"
| "copy_tokens delta previous (Some current # polls) =
     (if current - previous \<le> delta then Some ([], Some current)
      else map_option (\<lambda>(sent, end). (current # sent, end)) (copy_tokens delta current polls))"

section \<open>Executing a migration plan\<close>

record migration_plan =
  source_instance_id :: string
  target_node_id :: string

definition begin_migration :: "string \<Rightarrow> migration_router \<Rightarrow> migration_router" where
  \<comment> \<open>the handle of the target, up to the request to mark its resources\<close>
  "begin_migration new_id M =
     M\<lparr> base := (base M)\<lparr> handles := AList.update new_id (new_handle new_id 10 (required_gpus (base M))) (handles (base M)) \<rparr> \<rparr>"

definition target_started :: "string \<Rightarrow> string \<Rightarrow> migration_router \<Rightarrow> migration_router" where
  "target_started new_id node M =
     M\<lparr> base := with_handle new_id (\<lambda>h. h\<lparr> backend_instance := Some new_id, ready := True, node_id := Some node \<rparr>) (base M) \<rparr>"

definition abandon_target :: "string \<Rightarrow> migration_router \<Rightarrow> migration_router" where
  "abandon_target new_id M = M\<lparr> base := with_handle new_id (\<lambda>h. h\<lparr> ready := False \<rparr>) (base M) \<rparr>"

text \<open>
  The backend of the target is up: the tokens are copied and the source is replaced, or the
  target is given up when the source is gone. \<open>None\<close>: the loop has not ended.
\<close>

definition switch_over :: "migration_plan \<Rightarrow> string \<Rightarrow> int option list \<Rightarrow> migration_router \<Rightarrow> (migration_router \<times> bool) option" where
  "switch_over plan new_id polls M =
     (let source = source_instance_id plan; r = base M in
      if source \<notin> set (ready_instances r) then Some (abandon_target new_id M, False)
      else map_option (\<lambda>_.
        let r1 = with_handle source (\<lambda>h. h\<lparr> status := Some False \<rparr>) (r\<lparr> ready_instances := remove1 source (ready_instances r) \<rparr>) in
        (M\<lparr> base := r1\<lparr> ready_instances := put_key new_id (ready_instances r1) \<rparr>,
            migration_record := AList.update source new_id (migration_record M) \<rparr>, True))
        (copy_tokens (migration_delta M) 0 polls))"

section \<open>Properties\<close>

lemma copy_tokens_converges:
  assumes "0 \<le> delta" "\<And>c. Some c \<in> set polls \<Longrightarrow> c \<le> limit" "limit - previous < int (length polls) * (delta + 1)"
    "previous \<le> limit"
  shows "\<exists>sent end. copy_tokens delta previous polls = Some (sent, end) \<and> int (length sent) * (delta + 1) \<le> limit - previous
    \<and> sorted_wrt (<) (previous # sent) \<and> (\<forall>c. end = Some c \<longrightarrow> c - last (previous # sent) \<le> delta)"
  using assms(2-4)
proof (induction polls arbitrary: previous)
  case Nil
  then show ?case by simp
next
  case (Cons p polls)
  show ?case
  proof (cases p)
    case None
    then show ?thesis using Cons.prems(3) by simp
  next
    case (Some current)
    show ?thesis
    proof (cases "current - previous \<le> delta")
      case True
      then show ?thesis using Some Cons.prems(3) by simp
    next
      case False
      have "limit - current < int (length polls) * (delta + 1)" using Cons.prems(2) False by (simp add: algebra_simps)
      moreover have "current \<le> limit" using Cons.prems(1) Some by simp
      ultimately obtain sent stop where
        IH: "copy_tokens delta current polls = Some (sent, stop)" "int (length sent) * (delta + 1) \<le> limit - current"
          "sorted_wrt (<) (current # sent)" "\<forall>c. stop = Some c \<longrightarrow> c - last (current # sent) \<le> delta"
        using Cons.IH [of current] Cons.prems(1) by auto
      have "int (length (current # sent)) * (delta + 1) \<le> limit - previous" using IH(2) False by (simp add: algebra_simps)
      moreover have "sorted_wrt (<) (previous # current # sent)" using IH(3) False assms(1) by fastforce
      ultimately show ?thesis using Some False IH(1,4) by simp
    qed
  qed
qed

text \<open>
  C36. Migration converges. When the source generates at most \<open>limit\<close> tokens, the loop that copies
  them to the target ends after at most \<open>limit div (delta + 1) + 1\<close> polls, whatever the source
  answers, each transfer but the last poll carries more than \<open>delta\<close> new tokens, and at the end at
  most \<open>delta\<close> tokens have not been sent.
\<close>

theorem token_copy_converges:
  assumes "0 \<le> delta" and "0 \<le> limit" and "\<forall>c. Some c \<in> set polls \<longrightarrow> c \<le> limit" and "limit div (delta + 1) < int (length polls)"
  shows "\<exists>sent end. copy_tokens delta 0 polls = Some (sent, end) \<and> int (length sent) \<le> limit div (delta + 1)
    \<and> sorted_wrt (<) (0 # sent) \<and> (\<forall>c. end = Some c \<longrightarrow> c - last (0 # sent) \<le> delta)"
proof -
  have pos: "0 < delta + 1" using assms(1) by simp
  have "limit < (limit div (delta + 1) + 1) * (delta + 1)"
    using pos by (metis div_mod_decomp_int pos_mod_bound add_strict_left_mono distrib_right mult_1)
  also have "\<dots> \<le> int (length polls) * (delta + 1)" using assms(4) pos by (intro mult_right_mono) auto
  finally have "limit - 0 < int (length polls) * (delta + 1)" by simp
  from copy_tokens_converges [OF assms(1) _ this assms(2)] assms(3) obtain sent stop where
    r: "copy_tokens delta 0 polls = Some (sent, stop)" "int (length sent) * (delta + 1) \<le> limit" "sorted_wrt (<) (0 # sent)"
      "\<forall>c. stop = Some c \<longrightarrow> c - last (0 # sent) \<le> delta" by auto
  from r(2) have "int (length sent) \<le> limit div (delta + 1)" using pos by (metis zdiv_mono1 nonzero_mult_div_cancel_right less_irrefl)
  then show ?thesis using r by blast
qed


theorem token_copy_converges_witness:
  "\<exists>sent end. copy_tokens 20 0 (map Some [50, 80, 95]) = Some (sent, end) \<and> int (length sent) \<le> 4"
proof -
  have "\<forall>c. Some c \<in> set (map Some [50, 80, 95 :: int] @ replicate 2 None) \<longrightarrow> c \<le> 95" by auto
  from token_copy_converges [of 20 95 "map Some [50, 80, 95] @ replicate 2 None", OF _ _ this] show ?thesis
    by (simp add: numeral_2_eq_2)
qed

definition demo_migration_router :: migration_router where
  "demo_migration_router = begin_migration ''m_1'' (init_migration_router demo_held None)"


end
