(* ===== verification/End2End.thy ===== *)
theory End2End
  imports Py_Prelude
begin

text \<open>
  The online end-to-end simulator (\<open>src/evaluation/end2end/simulate_end2end.py\<close>): a cache of tensor
  groups per GPU with least-recently-used eviction (\<open>OnlineVRAMBackend\<close>), its model-level variant
  with keep-alive (\<open>SLLMBackend\<close>), the online choice of a GPU, the run over a trace, and the
  summary. Both backends are one record; \<open>keep_alive_ms\<close> is \<open>None\<close> for the first. The binding to the
  C++ backend, the command line and writing files are left out; parsed input is a value. An
  ordered dictionary is an association list, oldest entry first. The generator of the random
  policy is an argument: \<open>rng k n\<close> is its \<open>k\<close>-th draw below \<open>n\<close>.
\<close>

section \<open>Data\<close>

record e2e_request =
  req_id :: nat
  arrival_ms :: rat
  rq_model_id :: int
  input_tokens :: int
  output_tokens :: int

record shared_group =
  fingerprint :: string
  group_bytes :: int

record model_info =
  model_id :: int
  model_path :: string
  tensor_groups :: "shared_group list"
  sensitivity :: rat

definition total_bytes :: "model_info \<Rightarrow> int" where
  "total_bytes m = sum_list (map group_bytes (tensor_groups m))"

record load_estimate =
  le_gpu_id :: nat
  cached_bytes :: int
  to_load_bytes :: int
  total_model_bytes :: int
  full_model_hit :: bool
  load_ms :: rat

record simulated_request =
  sr_req_id :: nat
  sr_arrival_ms :: rat
  sr_model_id :: int
  gpu_id :: nat
  queue_ms :: rat
  sr_load_ms :: rat
  prefill_ms :: rat
  decode_ms :: rat
  ttft_ms :: rat
  e2e_ms :: rat
  base_slo_ms :: rat
  sr_to_load_bytes :: int
  sr_cached_bytes :: int
  sr_total_model_bytes :: int
  sr_full_model_hit :: bool

section \<open>The caches\<close>

record vram =
  models :: "(int \<times> model_info) list"
  num_gpus :: nat
  gpu_capacity_bytes :: int
  load_bandwidth_gbps :: rat
  load_overhead_ms :: rat
  gpu_caches :: "(string \<times> int) list list"
  gpu_used_bytes :: "int list"
  keep_alive_ms :: "rat option"
  last_model_finish :: "((nat \<times> int) \<times> rat) list"

definition init_vram :: "model_info list \<Rightarrow> nat \<Rightarrow> int \<Rightarrow> rat \<Rightarrow> rat \<Rightarrow> rat option \<Rightarrow> vram" where
  "init_vram ms n capacity bandwidth overhead keep_alive =
     \<lparr> models = dict_of (map (\<lambda>m. (model_id m, m)) ms), num_gpus = n, gpu_capacity_bytes = capacity, load_bandwidth_gbps = bandwidth,
       load_overhead_ms = overhead, gpu_caches = replicate n [], gpu_used_bytes = replicate n 0, keep_alive_ms = keep_alive,
       last_model_finish = [] \<rparr>"

definition bytes_load_ms :: "int \<Rightarrow> vram \<Rightarrow> rat" where
  "bytes_load_ms n b =
     (if n \<le> 0 then 0 else if load_bandwidth_gbps b \<le> 0 then 0
      else of_int n / (load_bandwidth_gbps b * 1000 * 1000 * 1000) * 1000 + load_overhead_ms b)"

definition in_cache :: "string \<Rightarrow> (string \<times> int) list \<Rightarrow> bool" where
  "in_cache f cache \<longleftrightarrow> f \<in> fst ` set cache"

definition estimate_shared :: "int \<Rightarrow> nat \<Rightarrow> vram \<Rightarrow> load_estimate result" where
  "estimate_shared m g b =
     r_bind (dict_get (models b) m) (\<lambda>model.
     r_bind (list_get (gpu_caches b) g) (\<lambda>cache.
       let cached = sum_list (map group_bytes (filter (\<lambda>x. in_cache (fingerprint x) cache) (tensor_groups model)));
           to_load = total_bytes model - cached in
       Inr \<lparr> le_gpu_id = g, cached_bytes = cached, to_load_bytes = to_load, total_model_bytes = total_bytes model,
             full_model_hit = (to_load = 0), load_ms = bytes_load_ms to_load b \<rparr>))"

definition move_to_end :: "string \<Rightarrow> (string \<times> int) list \<Rightarrow> (string \<times> int) list" where
  "move_to_end f cache = (case map_of cache f of None \<Rightarrow> cache | Some s \<Rightarrow> AList.delete f cache @ [(f, s)])"

definition touch_groups :: "shared_group list \<Rightarrow> (string \<times> int) list \<Rightarrow> (string \<times> int) list" where
  "touch_groups gs cache = foldl (\<lambda>c x. if in_cache (fingerprint x) c then move_to_end (fingerprint x) c else c) cache gs"

lemma find_key_mem: "find P cache = Some (f, s) \<Longrightarrow> (f, s) \<in> set cache \<and> P (f, s)"
  by (induction cache) (auto split: if_splits)

lemma length_delete_less: "(f, s) \<in> set cache \<Longrightarrow> length (AList.delete f cache) < length cache"
  by (induction cache) (auto simp: less_Suc_eq_le length_delete_le)

text \<open>Evict the oldest entries the model does not need until the missing bytes fit.\<close>

function make_room :: "int \<Rightarrow> int \<Rightarrow> string set \<Rightarrow> (string \<times> int) list \<Rightarrow> int \<Rightarrow> ((string \<times> int) list \<times> int) result" where
  "make_room capacity missing_bytes protected cache used =
     (if used + missing_bytes \<le> capacity then Inr (cache, used)
      else case find (\<lambda>(f, _). f \<notin> protected) cache of
          None \<Rightarrow> Inl (ValueError ''all remaining cache entries are required by this model'')
        | Some (f, s) \<Rightarrow> make_room capacity missing_bytes protected (AList.delete f cache) (used - s))"
  by pat_completeness auto

termination
  by (relation "measure (\<lambda>(_, _, _, cache, _). length cache)") (auto dest!: find_key_mem length_delete_less)

declare make_room.simps [simp del]

definition load_groups :: "shared_group list \<Rightarrow> (string \<times> int) list \<Rightarrow> (string \<times> int) list" where
  "load_groups gs cache = foldl (\<lambda>c x. AList.update (fingerprint x) (group_bytes x) c) cache gs"

definition commit_shared :: "int \<Rightarrow> nat \<Rightarrow> vram \<Rightarrow> (vram \<times> load_estimate) result" where
  "commit_shared m g b =
     r_bind (estimate_shared m g b) (\<lambda>est.
     r_bind (dict_get (models b) m) (\<lambda>model.
     r_bind (list_get (gpu_caches b) g) (\<lambda>cache0.
     r_bind (list_get (gpu_used_bytes b) g) (\<lambda>used0.
       let protected = fingerprint ` set (tensor_groups model);
           cache1 = touch_groups (tensor_groups model) cache0;
           missing = filter (\<lambda>x. \<not> in_cache (fingerprint x) cache1) (tensor_groups model);
           missing_bytes = sum_list (map group_bytes missing) in
       if missing_bytes > gpu_capacity_bytes b then Inl (ValueError ''larger than GPU capacity'')
       else r_bind (make_room (gpu_capacity_bytes b) missing_bytes protected cache1 used0) (\<lambda>(cache2, used2).
         Inr (b\<lparr> gpu_caches := (gpu_caches b)[g := load_groups missing cache2],
                 gpu_used_bytes := (gpu_used_bytes b)[g := used2 + missing_bytes] \<rparr>, est))))))"

section \<open>Keep-alive\<close>

definition estimate :: "int \<Rightarrow> nat \<Rightarrow> vram \<Rightarrow> load_estimate result" where
  "estimate m g b =
     (case keep_alive_ms b of
        Some k \<Rightarrow>
          if k \<ge> 0 then estimate_shared m g b
          else r_bind (dict_get (models b) m) (\<lambda>model.
            Inr \<lparr> le_gpu_id = g, cached_bytes = 0, to_load_bytes = total_bytes model, total_model_bytes = total_bytes model,
                  full_model_hit = False, load_ms = bytes_load_ms (total_bytes model) b \<rparr>)
      | None \<Rightarrow> estimate_shared m g b)"

definition commit :: "int \<Rightarrow> nat \<Rightarrow> vram \<Rightarrow> (vram \<times> load_estimate) result" where
  "commit m g b =
     (case keep_alive_ms b of
        Some k \<Rightarrow> if k \<ge> 0 then commit_shared m g b else r_bind (estimate m g b) (\<lambda>est. Inr (b, est))
      | None \<Rightarrow> commit_shared m g b)"

text \<open>An idle model is dropped by the fingerprint of its first group (it has one).\<close>

definition expire_entry :: "rat \<Rightarrow> rat \<Rightarrow> vram \<Rightarrow> (nat \<times> int) \<times> rat \<Rightarrow> vram result" where
  "expire_entry now k b = (\<lambda>((g, m), finish_ms).
     if now \<le> finish_ms + k then Inr b
     else r_bind (dict_get (models b) m) (\<lambda>model.
          r_bind (list_get (tensor_groups model) 0) (\<lambda>first.
          r_bind (list_get (gpu_caches b) g) (\<lambda>cache.
            let b1 = b\<lparr> last_model_finish := AList.delete (g, m) (last_model_finish b) \<rparr> in
            case map_of cache (fingerprint first) of None \<Rightarrow> Inr b1
            | Some s \<Rightarrow>
              r_bind (list_get (gpu_used_bytes b) g) (\<lambda>used.
                Inr (b1\<lparr> gpu_caches := (gpu_caches b1)[g := AList.delete (fingerprint first) cache],
                         gpu_used_bytes := (gpu_used_bytes b1)[g := used - s] \<rparr>))))))"

definition expire :: "rat \<Rightarrow> vram \<Rightarrow> vram result" where
  "expire now b =
     (case keep_alive_ms b of None \<Rightarrow> Inr b
      | Some k \<Rightarrow> if k < 0 then Inr b else r_foldl (expire_entry now k) b (last_model_finish b))"

definition mark_finish :: "int \<Rightarrow> nat \<Rightarrow> rat \<Rightarrow> vram \<Rightarrow> vram" where
  "mark_finish m g finish_ms b = b\<lparr> last_model_finish := AList.update (g, m) finish_ms (last_model_finish b) \<rparr>"

section \<open>Choosing a GPU\<close>

datatype scheduler_policy = Online_ttft | Locality | Random

definition ttft_end :: "rat \<Rightarrow> rat list \<Rightarrow> rat list \<Rightarrow> rat \<Rightarrow> load_estimate \<Rightarrow> rat" where
  "ttft_end arrival load_available infer_available prefill est =
     max (max arrival (load_available ! le_gpu_id est) + load_ms est) (infer_available ! le_gpu_id est) + prefill"

definition choose_gpu ::
  "e2e_request \<Rightarrow> load_estimate list \<Rightarrow> rat list \<Rightarrow> rat list \<Rightarrow> rat \<Rightarrow> scheduler_policy \<Rightarrow> (nat \<Rightarrow> nat) \<Rightarrow> load_estimate result" where
  "choose_gpu rq estimates load_available infer_available prefill policy draw =
     (if estimates = [] then Inl (ValueError ''empty range'')
      else case policy of
          Random \<Rightarrow> list_get estimates (draw (length estimates))
        | Locality \<Rightarrow> Inr (arg_min_list (\<lambda>est. (to_load_bytes est, max (arrival_ms rq) (load_available ! le_gpu_id est) + load_ms est,
                               infer_available ! le_gpu_id est, le_gpu_id est)) estimates)
        | Online_ttft \<Rightarrow> Inr (arg_min_list (\<lambda>est. (ttft_end (arrival_ms rq) load_available infer_available prefill est,
                               to_load_bytes est, le_gpu_id est)) estimates))"

section \<open>The run\<close>

datatype occupancy = Until_load | Until_ttft | Until_finish

record e2e_settings =
  engine_overhead_ms :: rat
  prefill_ms_per_token :: rat
  decode_ms_per_token :: rat
  s_base_slo_ms :: rat
  occupy_until :: occupancy
  policy :: scheduler_policy

record e2e_state =
  backend :: vram
  load_available :: "rat list"
  infer_available :: "rat list"
  draws :: nat
  rows :: "simulated_request list"

definition simulated_row :: "e2e_settings \<Rightarrow> e2e_request \<Rightarrow> nat \<Rightarrow> load_estimate \<Rightarrow> rat \<Rightarrow> rat \<Rightarrow> rat \<Rightarrow> simulated_request" where
  "simulated_row cfg rq g committed prefill_start prefill decode =
     \<lparr> sr_req_id = req_id rq, sr_arrival_ms = arrival_ms rq, sr_model_id = rq_model_id rq, gpu_id = g,
       queue_ms = max 0 (prefill_start - arrival_ms rq - load_ms committed), sr_load_ms = load_ms committed, prefill_ms = prefill,
       decode_ms = decode, ttft_ms = prefill_start + prefill - arrival_ms rq, e2e_ms = prefill_start + prefill + decode - arrival_ms rq,
       base_slo_ms = (if s_base_slo_ms cfg > 0 then s_base_slo_ms cfg
                      else engine_overhead_ms cfg + of_int (input_tokens rq) * prefill_ms_per_token cfg),
       sr_to_load_bytes = to_load_bytes committed, sr_cached_bytes = cached_bytes committed,
       sr_total_model_bytes = total_model_bytes committed, sr_full_model_hit = full_model_hit committed \<rparr>"

definition serve :: "(nat \<Rightarrow> nat \<Rightarrow> nat) \<Rightarrow> e2e_settings \<Rightarrow> bool \<Rightarrow> e2e_state \<Rightarrow> e2e_request \<Rightarrow> e2e_state result" where
  "serve rng cfg collect_rows s rq =
     r_bind (expire (arrival_ms rq) (backend s)) (\<lambda>b.
     let prefill = engine_overhead_ms cfg + of_int (input_tokens rq) * prefill_ms_per_token cfg;
         decode = of_int (output_tokens rq) * decode_ms_per_token cfg in
     r_bind (r_map (\<lambda>g. estimate (rq_model_id rq) g b) [0..<length (load_available s)]) (\<lambda>estimates.
     r_bind (choose_gpu rq estimates (load_available s) (infer_available s) prefill (policy cfg) (rng (draws s))) (\<lambda>chosen.
     let g = le_gpu_id chosen in
     r_bind (commit (rq_model_id rq) g b) (\<lambda>(b1, committed).
       let load_end = max (arrival_ms rq) (load_available s ! g) + load_ms committed;
           prefill_start = max load_end (infer_available s ! g);
           ttft_time = prefill_start + prefill;
           finish_time = ttft_time + decode in
       Inr (s\<lparr> backend := (if keep_alive_ms b1 = None then b1 else mark_finish (rq_model_id rq) g finish_time b1),
               load_available := (load_available s)[g := load_end],
               infer_available := (case occupy_until cfg of
                   Until_ttft \<Rightarrow> (infer_available s)[g := ttft_time]
                 | Until_finish \<Rightarrow> (infer_available s)[g := finish_time]
                 | Until_load \<Rightarrow> infer_available s),
               draws := (if policy cfg = Random then draws s + 1 else draws s),
               rows := (if collect_rows then rows s @ [simulated_row cfg rq g committed prefill_start prefill decode] else rows s) \<rparr>)))))"

definition simulate_e2e :: "(nat \<Rightarrow> nat \<Rightarrow> nat) \<Rightarrow> e2e_settings \<Rightarrow> bool \<Rightarrow> nat \<Rightarrow> vram \<Rightarrow> nat \<Rightarrow> e2e_request list \<Rightarrow> e2e_state result" where
  "simulate_e2e rng cfg collect_rows n b drawn requests =
     r_foldl (serve rng cfg collect_rows)
       \<lparr> backend = b, load_available = replicate n 0, infer_available = replicate n 0, draws = drawn, rows = [] \<rparr> requests"

text \<open>The main program: an unreported warm-up on the same caches, with clocks set back, then the run.\<close>

definition run_e2e :: "(nat \<Rightarrow> nat \<Rightarrow> nat) \<Rightarrow> e2e_settings \<Rightarrow> nat \<Rightarrow> nat \<Rightarrow> vram \<Rightarrow> e2e_request list \<Rightarrow> simulated_request list result" where
  "run_e2e rng cfg warmup_step n b all_requests =
     (let warmup = take warmup_step all_requests; requests = drop warmup_step all_requests in
      r_bind (if warmup = [] then Inr (b, 0)
              else r_bind (simulate_e2e rng cfg False n b 0 warmup) (\<lambda>s. Inr (backend s, draws s))) (\<lambda>(b1, drawn).
      r_bind (simulate_e2e rng cfg True n b1 drawn requests) (\<lambda>s. Inr (rows s))))"

section \<open>Input\<close>

text \<open>A line of a trace: skipped (blank, a comment, the header), too short, or a request.\<close>

datatype e2e_line = Skipped | Short | Fields rat int int int

fun read_e2e_trace :: "nat \<Rightarrow> e2e_request list \<Rightarrow> e2e_line list \<Rightarrow> e2e_request list result" where
  "read_e2e_trace max_requests requests [] = Inr requests"
| "read_e2e_trace max_requests requests (Skipped # ls) = read_e2e_trace max_requests requests ls"
| "read_e2e_trace max_requests requests (Short # ls) = Inl (ValueError ''Invalid trace row'')"
| "read_e2e_trace max_requests requests (Fields t m i out # ls) =
     (let requests' = requests @ [\<lparr> req_id = length requests, arrival_ms = t * 1000, rq_model_id = m, input_tokens = i, output_tokens = out \<rparr>] in
      if max_requests > 0 \<and> length requests' \<ge> max_requests then Inr requests' else read_e2e_trace max_requests requests' ls)"

text \<open>A line of a group index that matters carries a size or a fingerprint.\<close>

datatype index_line = Group_size int | Fingerprint string | Other_line

fun read_index :: "int option \<Rightarrow> shared_group list \<Rightarrow> index_line list \<Rightarrow> shared_group list" where
  "read_index current_size groups [] = groups"
| "read_index current_size groups (Group_size n # ls) = read_index (Some n) groups ls"
| "read_index current_size groups (Fingerprint f # ls) =
     (case current_size of None \<Rightarrow> read_index None groups ls
      | Some n \<Rightarrow> read_index None (groups @ [\<lparr> fingerprint = f, group_bytes = n \<rparr>]) ls)"
| "read_index current_size groups (Other_line # ls) = read_index current_size groups ls"

record model_files =
  index_file :: "index_line list option"
  data_sizes :: "int list"

definition model_file_size :: "model_files \<Rightarrow> int result" where
  "model_file_size fs = (if sum_list (data_sizes fs) = 0 then Inl (ValueError ''No tensor.data files found'') else Inr (sum_list (data_sizes fs)))"

definition read_tensor_groups :: "(string \<Rightarrow> model_files) \<Rightarrow> string \<Rightarrow> shared_group list result" where
  "read_tensor_groups files path =
     (let whole = r_bind (model_file_size (files path)) (\<lambda>n. Inr [\<lparr> fingerprint = ''model:'' @ path, group_bytes = n \<rparr>]) in
      case index_file (files path) of None \<Rightarrow> whole
      | Some ls \<Rightarrow> let groups = read_index None [] ls in if groups = [] then whole else Inr groups)"

datatype e2e_config = Model_lists "(int option \<times> string \<times> rat option) list" | Model_dirs "string list" | No_models

definition raw_models :: "e2e_config \<Rightarrow> (int \<times> string \<times> rat) list result" where
  "raw_models c =
     (case c of
        Model_lists items \<Rightarrow>
          Inr (map (\<lambda>(idx, i, p, w). ((case i of None \<Rightarrow> int idx | Some k \<Rightarrow> k), p, (case w of None \<Rightarrow> 1 | Some x \<Rightarrow> x)))
                 (zip [0..<length items] items))
      | Model_dirs paths \<Rightarrow> Inr (map (\<lambda>(idx, p). (int idx, p, 1)) (zip [0..<length paths] paths))
      | No_models \<Rightarrow> Inl (ValueError ''must contain model_lists or model_dirs''))"

text \<open>\<open>name i p\<close> is the text \<open>model:i:p\<close> that identifies a whole model.\<close>

definition read_model :: "(int \<Rightarrow> string \<Rightarrow> string) \<Rightarrow> (string \<Rightarrow> model_files) \<Rightarrow> nat \<Rightarrow> int \<times> string \<times> rat \<Rightarrow> model_info result" where
  "read_model name files reuse_granularity = (\<lambda>(i, p, w).
     r_bind (read_tensor_groups files p) (\<lambda>groups.
       let groups' = (if reuse_granularity = 0 then [\<lparr> fingerprint = name i p, group_bytes = sum_list (map group_bytes groups) \<rparr>] else groups) in
       Inr \<lparr> model_id = i, model_path = p, tensor_groups = groups', sensitivity = w \<rparr>))"

definition read_models :: "(int \<Rightarrow> string \<Rightarrow> string) \<Rightarrow> (string \<Rightarrow> model_files) \<Rightarrow> e2e_config \<Rightarrow> nat \<Rightarrow> model_info list result" where
  "read_models name files c reuse_granularity =
     r_bind (raw_models c) (\<lambda>raw. r_map (read_model name files reuse_granularity) (sort_key (\<lambda>(i, _). i) raw))"

datatype e2e_system = Sllm_cm | Tangram

definition build_backend ::
  "(int \<Rightarrow> string \<Rightarrow> string) \<Rightarrow> (string \<Rightarrow> model_files) \<Rightarrow> e2e_config \<Rightarrow> e2e_system \<Rightarrow> nat \<Rightarrow> int \<Rightarrow> rat \<Rightarrow> rat \<Rightarrow> rat \<Rightarrow> vram result" where
  "build_backend name files c system n capacity bandwidth overhead keep_alive =
     r_bind (read_models name files c (if system = Sllm_cm then 0 else 1)) (\<lambda>ms.
       Inr (init_vram ms n capacity bandwidth overhead (if system = Sllm_cm then Some keep_alive else None)))"

section \<open>Summary\<close>

definition e2e_percentile :: "rat list \<Rightarrow> rat \<Rightarrow> rat" where
  "e2e_percentile xs pct =
     (if xs = [] then 0
      else let ordered = sort xs; rank = of_nat (length ordered - 1) * pct / 100; lo = nat \<lfloor>rank\<rfloor>;
               hi = min (lo + 1) (length ordered - 1); frac = rank - of_nat lo in
           ordered ! lo * (1 - frac) + ordered ! hi * frac)"

definition mean_or_zero :: "rat list \<Rightarrow> rat" where
  "mean_or_zero xs = (if xs = [] then 0 else sum_list xs / of_nat (length xs))"

record summary_row =
  slo_scale :: rat
  slo_attainment :: rat
  request_count :: nat
  mean_ttft_ms :: rat
  ttft_percentiles :: "rat list"
  mean_e2e_ms :: rat
  p99_e2e_ms :: rat
  mean_load_ms :: rat
  p99_load_ms :: rat
  reuse_ratio :: rat
  keep_alive_hit_ratio :: rat

definition e2e_summary :: "simulated_request list \<Rightarrow> rat list \<Rightarrow> summary_row list" where
  "e2e_summary rs slo_scales =
     (let ttfts = map ttft_ms rs; e2es = map e2e_ms rs; load_times = map sr_load_ms rs;
          total_to_load = sum_list (map sr_to_load_bytes rs); total_model = sum_list (map sr_total_model_bytes rs);
          ratio = (\<lambda>k. if rs = [] then 0 else of_nat k / of_nat (length rs)) in
      map (\<lambda>scale.
        \<lparr> slo_scale = scale, slo_attainment = ratio (length (filter (\<lambda>r. ttft_ms r \<le> base_slo_ms r * scale) rs)), request_count = length rs,
          mean_ttft_ms = mean_or_zero ttfts, ttft_percentiles = map (e2e_percentile ttfts) [50, 90, 95, 99], mean_e2e_ms = mean_or_zero e2es,
          p99_e2e_ms = e2e_percentile e2es 99, mean_load_ms = mean_or_zero load_times, p99_load_ms = e2e_percentile load_times 99,
          reuse_ratio = (if total_model > 0 then 1 - of_int total_to_load / of_int total_model else 0),
          keep_alive_hit_ratio = ratio (length (filter sr_full_model_hit rs)) \<rparr>) slo_scales)"

section \<open>The caches keep their accounting\<close>

text \<open>
  A fingerprint stands for one tensor group, whose size \<open>sz\<close> gives; a model names no fingerprint twice.
\<close>

definition model_ok :: "(string \<Rightarrow> int) \<Rightarrow> int \<Rightarrow> model_info \<Rightarrow> bool" where
  "model_ok sz capacity m \<longleftrightarrow> distinct (map fingerprint (tensor_groups m)) \<and> tensor_groups m \<noteq> [] \<and> total_bytes m \<le> capacity
     \<and> (\<forall>x \<in> set (tensor_groups m). group_bytes x = sz (fingerprint x) \<and> 0 \<le> group_bytes x)"

definition cache_ok :: "(string \<Rightarrow> int) \<Rightarrow> (string \<times> int) list \<Rightarrow> int \<Rightarrow> bool" where
  "cache_ok sz cache used \<longleftrightarrow> distinct (map fst cache) \<and> (\<forall>(f, s) \<in> set cache. s = sz f \<and> 0 \<le> s) \<and> used = sum_list (map snd cache)"

definition vram_ok :: "(string \<Rightarrow> int) \<Rightarrow> nat \<Rightarrow> vram \<Rightarrow> bool" where
  "vram_ok sz n b \<longleftrightarrow> length (gpu_caches b) = n \<and> length (gpu_used_bytes b) = n \<and> 0 \<le> gpu_capacity_bytes b \<and> 0 \<le> load_overhead_ms b
     \<and> (\<forall>m model. map_of (models b) m = Some model \<longrightarrow> model_ok sz (gpu_capacity_bytes b) model)
     \<and> (\<forall>g < n. cache_ok sz (gpu_caches b ! g) (gpu_used_bytes b ! g) \<and> gpu_used_bytes b ! g \<le> gpu_capacity_bytes b)
     \<and> (\<forall>(g, m) \<in> fst ` set (last_model_finish b). g < n \<and> m \<in> fst ` set (models b))"

lemma cache_sum: "cache_ok sz cache used \<Longrightarrow> used = (\<Sum>f \<in> fst ` set cache. sz f)"
proof -
  assume ok: "cache_ok sz cache used"
  have "sum_list (map snd cache) = sum_list (map sz (map fst cache))"
    using ok by (intro arg_cong [where f = sum_list]) (auto simp: cache_ok_def)
  also have "\<dots> = (\<Sum>f \<in> set (map fst cache). sz f)" using ok by (intro sum_list_distinct_conv_sum_set) (simp add: cache_ok_def)
  finally show ?thesis using ok by (simp add: cache_ok_def)
qed

lemma sum_delete:
  assumes "distinct (map fst cache)" "(f, s) \<in> set cache"
  shows "sum_list (map snd (AList.delete f cache)) = sum_list (map snd cache) - (s :: int)"
  using assms
proof (induction cache)
  case (Cons x cache)
  show ?case
  proof (cases "x = (f, s)")
    case True
    then show ?thesis using Cons.prems(1) by simp
  next
    case False
    then have mem: "(f, s) \<in> set cache" using Cons.prems(2) by simp
    then have "fst x \<noteq> f" using Cons.prems(1) by (auto simp: rev_image_eqI)
    then show ?thesis using Cons.IH mem Cons.prems(1) by (cases x) simp
  qed
qed simp

lemma set_delete: "set (AList.delete f cache) = {x \<in> set cache. fst x \<noteq> f}"
  by (auto simp: AList.delete_eq)

lemma cache_ok_delete:
  assumes "cache_ok sz cache used" "(f, s) \<in> set cache"
  shows "cache_ok sz (AList.delete f cache) (used - s)"
  using assms sum_delete [of cache f s] by (auto simp: cache_ok_def distinct_delete set_delete)

lemma cache_ok_append:
  assumes "cache_ok sz cache used" "f \<notin> fst ` set cache" "s = sz f" "0 \<le> s"
  shows "cache_ok sz (cache @ [(f, s)]) (used + s)"
  using assms by (auto simp: cache_ok_def)

lemma move_to_end_ok:
  assumes "cache_ok sz cache used"
  shows "cache_ok sz (move_to_end f cache) used \<and> fst ` set (move_to_end f cache) = fst ` set cache"
proof (cases "map_of cache f")
  case (Some s)
  then have mem: "(f, s) \<in> set cache" by (rule map_of_SomeD)
  have "s = sz f" "0 \<le> s" using assms mem by (auto simp: cache_ok_def)
  then have "cache_ok sz (AList.delete f cache @ [(f, s)]) (used - s + s)"
    by (intro cache_ok_append [OF cache_ok_delete [OF assms mem]]) (auto simp: set_delete)
  moreover have "fst ` set (AList.delete f cache @ [(f, s)]) = fst ` set cache" using mem by (force simp: set_delete)
  ultimately show ?thesis using Some by (simp add: move_to_end_def)
qed (use assms in \<open>simp add: move_to_end_def\<close>)

lemma touch_groups_ok:
  assumes "cache_ok sz cache used"
  shows "cache_ok sz (touch_groups gs cache) used \<and> fst ` set (touch_groups gs cache) = fst ` set cache"
  using assms unfolding touch_groups_def
proof (induction gs arbitrary: cache)
  case (Cons x gs)
  then show ?case using move_to_end_ok [OF Cons.prems, of "fingerprint x"] by (cases "in_cache (fingerprint x) cache") auto
qed simp

lemma load_groups_ok:
  assumes "cache_ok sz cache used" "distinct (map fingerprint gs)" "\<forall>x \<in> set gs. group_bytes x = sz (fingerprint x) \<and> 0 \<le> group_bytes x"
    "\<forall>x \<in> set gs. fingerprint x \<notin> fst ` set cache"
  shows "cache_ok sz (load_groups gs cache) (used + sum_list (map group_bytes gs))"
    "fst ` set (load_groups gs cache) = fst ` set cache \<union> fingerprint ` set gs"
proof -
  have "cache_ok sz (load_groups gs cache) (used + sum_list (map group_bytes gs)) \<and> fst ` set (load_groups gs cache) = fst ` set cache \<union> fingerprint ` set gs"
    using assms unfolding load_groups_def
  proof (induction gs arbitrary: cache used)
    case (Cons x gs)
    have new: "AList.update (fingerprint x) (group_bytes x) cache = cache @ [(fingerprint x, group_bytes x)]"
      using Cons.prems(4) by (intro update_new) simp
    have ok: "cache_ok sz (cache @ [(fingerprint x, group_bytes x)]) (used + group_bytes x)"
      using Cons.prems by (intro cache_ok_append) auto
    have rest: "distinct (map fingerprint gs)" "\<forall>y \<in> set gs. group_bytes y = sz (fingerprint y) \<and> 0 \<le> group_bytes y"
      "\<forall>y \<in> set gs. fingerprint y \<notin> fst ` set (cache @ [(fingerprint x, group_bytes x)])" using Cons.prems(2-4) by (auto simp: image_iff)
    show ?case using Cons.IH [OF ok rest] unfolding foldl_Cons new by (simp add: add.assoc)
  qed simp
  then show "cache_ok sz (load_groups gs cache) (used + sum_list (map group_bytes gs))"
    "fst ` set (load_groups gs cache) = fst ` set cache \<union> fingerprint ` set gs" by blast+
qed

text \<open>With what is protected and missing within the capacity, the eviction loop makes room.\<close>

lemma make_room_ok:
  assumes "cache_ok sz cache used" "finite protected" "(\<Sum>f \<in> fst ` set cache \<inter> protected. sz f) + missing \<le> capacity"
  shows "\<exists>cache' used'. make_room capacity missing protected cache used = Inr (cache', used') \<and> cache_ok sz cache' used'
    \<and> used' + missing \<le> capacity \<and> fst ` set cache' \<subseteq> fst ` set cache \<and> fst ` set cache' \<inter> protected = fst ` set cache \<inter> protected"
  using assms
proof (induction "length cache" arbitrary: cache used rule: less_induct)
  case less
  show ?case
  proof (cases "used + missing \<le> capacity")
    case True
    then show ?thesis using less.prems by (subst make_room.simps) simp
  next
    case False
    show ?thesis
    proof (cases "find (\<lambda>(f, _). f \<notin> protected) cache")
      case None
      then have "fst ` set cache \<subseteq> protected" by (force simp: find_None_iff)
      then have "used + missing \<le> capacity" using cache_sum [OF less.prems(1)] less.prems(3) by (simp add: Int_absorb2)
      then show ?thesis using False by simp
    next
      case (Some x)
      obtain f s where x: "x = (f, s)" by (cases x)
      have mem: "(f, s) \<in> set cache" "f \<notin> protected" using find_key_mem Some x by fastforce+
      have keys: "fst ` set (AList.delete f cache) = fst ` set cache - {f}" by (auto simp: set_delete)
      then have same: "fst ` set (AList.delete f cache) \<inter> protected = fst ` set cache \<inter> protected" using mem(2) by auto
      obtain cache' used' where "make_room capacity missing protected (AList.delete f cache) (used - s) = Inr (cache', used')"
        "cache_ok sz cache' used'" "used' + missing \<le> capacity" "fst ` set cache' \<subseteq> fst ` set (AList.delete f cache)"
        "fst ` set cache' \<inter> protected = fst ` set (AList.delete f cache) \<inter> protected"
        using less.hyps [OF length_delete_less [OF mem(1)] cache_ok_delete [OF less.prems(1) mem(1)] less.prems(2)] less.prems(3) same by auto
      then show ?thesis using False Some x same keys by (subst make_room.simps) auto
    qed
  qed
qed

lemma present_sum:
  assumes "model_ok sz capacity m"
  shows "(\<Sum>f \<in> A \<inter> fingerprint ` set (tensor_groups m). sz f) = sum_list (map group_bytes (filter (\<lambda>x. fingerprint x \<in> A) (tensor_groups m)))"
proof -
  let ?gs = "filter (\<lambda>x. fingerprint x \<in> A) (tensor_groups m)"
  have "sum_list (map group_bytes ?gs) = sum_list (map sz (map fingerprint ?gs))"
    using assms by (intro arg_cong [where f = sum_list]) (auto simp: model_ok_def)
  also have "\<dots> = (\<Sum>f \<in> set (map fingerprint ?gs). sz f)"
    using assms by (intro sum_list_distinct_conv_sum_set) (auto simp: model_ok_def distinct_map intro: inj_on_subset)
  also have "set (map fingerprint ?gs) = A \<inter> fingerprint ` set (tensor_groups m)" by auto
  finally show ?thesis by simp
qed

lemma split_bytes: "sum_list (map group_bytes (filter P gs)) + sum_list (map group_bytes (filter (\<lambda>x. \<not> P x) gs)) = sum_list (map group_bytes gs)"
  by (induction gs) auto

definition same_setup :: "vram \<Rightarrow> vram \<Rightarrow> bool" where
  "same_setup b b' \<longleftrightarrow> models b' = models b \<and> gpu_capacity_bytes b' = gpu_capacity_bytes b \<and> load_bandwidth_gbps b' = load_bandwidth_gbps b
     \<and> load_overhead_ms b' = load_overhead_ms b \<and> keep_alive_ms b' = keep_alive_ms b"

lemma estimate_shared_ok:
  assumes "vram_ok sz n b" "g < n" "map_of (models b) m = Some model"
  shows "\<exists>est. estimate_shared m g b = Inr est \<and> le_gpu_id est = g \<and> 0 \<le> load_ms est \<and> cached_bytes est + to_load_bytes est = total_bytes model
    \<and> total_model_bytes est = total_bytes model"
proof -
  have "list_get (gpu_caches b) g = Inr (gpu_caches b ! g)" using assms(1,2) by (simp add: list_get_def vram_ok_def)
  then show ?thesis using assms(1,3) by (simp add: estimate_shared_def Let_def bytes_load_ms_def vram_ok_def)
qed

lemma commit_shared_ok:
  assumes ok: "vram_ok sz n b" and g: "g < n" and m: "map_of (models b) m = Some model"
  shows "\<exists>b' est. commit_shared m g b = Inr (b', est) \<and> estimate_shared m g b = Inr est \<and> vram_ok sz n b' \<and> same_setup b b'
    \<and> last_model_finish b' = last_model_finish b \<and> fingerprint ` set (tensor_groups model) \<subseteq> fst ` set (gpu_caches b' ! g)"
proof -
  let ?cap = "gpu_capacity_bytes b" and ?gs = "tensor_groups model"
  have mok: "model_ok sz ?cap model" using ok m by (auto simp: vram_ok_def)
  obtain est where est: "estimate_shared m g b = Inr est" using estimate_shared_ok [OF ok g m] by blast
  define c0 where "c0 = gpu_caches b ! g"
  define u0 where "u0 = gpu_used_bytes b ! g"
  have c0: "list_get (gpu_caches b) g = Inr c0" "list_get (gpu_used_bytes b) g = Inr u0" "cache_ok sz c0 u0"
    using ok g by (auto simp: list_get_def vram_ok_def c0_def u0_def)
  define c1 where "c1 = touch_groups ?gs c0"
  have c1: "cache_ok sz c1 u0" "fst ` set c1 = fst ` set c0" using touch_groups_ok [OF c0(3)] by (auto simp: c1_def)
  define missing where "missing = filter (\<lambda>x. \<not> in_cache (fingerprint x) c1) ?gs"
  define mb where "mb = sum_list (map group_bytes missing)"
  have split: "(\<Sum>f \<in> fst ` set c1 \<inter> fingerprint ` set ?gs. sz f) + mb = total_bytes model"
    unfolding present_sum [OF mok] mb_def missing_def in_cache_def total_bytes_def by (rule split_bytes)
  have total: "total_bytes model \<le> ?cap" using mok by (simp add: model_ok_def)
  have "0 \<le> (\<Sum>f \<in> fst ` set c1 \<inter> fingerprint ` set ?gs. sz f)" using mok by (intro sum_nonneg) (auto simp: model_ok_def)
  then have fits: "\<not> mb > ?cap" using split total by simp
  obtain c2 u2 where c2: "make_room ?cap mb (fingerprint ` set ?gs) c1 u0 = Inr (c2, u2)" "cache_ok sz c2 u2" "u2 + mb \<le> ?cap"
    "fst ` set c2 \<subseteq> fst ` set c1" "fst ` set c2 \<inter> fingerprint ` set ?gs = fst ` set c1 \<inter> fingerprint ` set ?gs"
    using make_room_ok [OF c1(1), of "fingerprint ` set ?gs" mb ?cap] split total by auto
  have miss: "distinct (map fingerprint missing)" "\<forall>x \<in> set missing. group_bytes x = sz (fingerprint x) \<and> 0 \<le> group_bytes x"
    "\<forall>x \<in> set missing. fingerprint x \<notin> fst ` set c2"
    using mok c2(4) by (auto simp: model_ok_def missing_def in_cache_def distinct_map intro: inj_on_subset)
  note load = load_groups_ok [OF c2(2) miss]
  let ?b = "b\<lparr> gpu_caches := (gpu_caches b)[g := load_groups missing c2], gpu_used_bytes := (gpu_used_bytes b)[g := u2 + mb] \<rparr>"
  have "commit_shared m g b = Inr (?b, est)"
    using est m c0 fits c2(1) by (simp add: commit_shared_def Let_def flip: c1_def missing_def mb_def)
  moreover have "vram_ok sz n ?b" using ok g load(1) c2(3) by (auto simp: vram_ok_def nth_list_update mb_def)
  moreover have "fingerprint ` set ?gs \<subseteq> fst ` set (gpu_caches ?b ! g)"
  proof -
    have "x \<in> fst ` set c2 \<union> fingerprint ` set missing" if "x \<in> fingerprint ` set ?gs" for x
      using that c2(5) by (auto simp: missing_def in_cache_def)
    then show ?thesis using ok g load(2) by (auto simp: vram_ok_def)
  qed
  ultimately show ?thesis using est by (auto simp: same_setup_def)
qed

lemma vram_ok_finish: "vram_ok sz n b \<Longrightarrow> g < n \<Longrightarrow> m \<in> fst ` set (models b) \<Longrightarrow> vram_ok sz n (mark_finish m g t b)"
  by (auto simp: vram_ok_def mark_finish_def dom_update)

lemma expire_entry_ok:
  assumes ok: "vram_ok sz n b" and g: "g < n" and m: "m \<in> fst ` set (models b)"
  shows "\<exists>b'. expire_entry now k b ((g, m), t) = Inr b' \<and> vram_ok sz n b' \<and> same_setup b b'"
proof (cases "now \<le> t + k")
  case True
  then show ?thesis using ok by (auto simp: expire_entry_def same_setup_def)
next
  case False
  obtain model where model: "map_of (models b) m = Some model" using map_of_mem [OF m] by blast
  have "tensor_groups model \<noteq> []" using ok model by (auto simp: vram_ok_def model_ok_def)
  then have first: "list_get (tensor_groups model) 0 = Inr (tensor_groups model ! 0)" by (simp add: list_get_def)
  have cache: "list_get (gpu_caches b) g = Inr (gpu_caches b ! g)" "list_get (gpu_used_bytes b) g = Inr (gpu_used_bytes b ! g)"
    using ok g by (simp_all add: list_get_def vram_ok_def)
  let ?f = "fingerprint (tensor_groups model ! 0)"
  let ?b1 = "b\<lparr> last_model_finish := AList.delete (g, m) (last_model_finish b) \<rparr>"
  have b1: "vram_ok sz n ?b1" "same_setup b ?b1" using ok by (auto simp: vram_ok_def same_setup_def set_delete)
  show ?thesis
  proof (cases "map_of (gpu_caches b ! g) ?f")
    case None
    then show ?thesis using False model first cache b1 by (simp add: expire_entry_def Let_def)
  next
    case (Some s)
    let ?b2 = "?b1\<lparr> gpu_caches := (gpu_caches ?b1)[g := AList.delete ?f (gpu_caches b ! g)],
        gpu_used_bytes := (gpu_used_bytes ?b1)[g := gpu_used_bytes b ! g - s] \<rparr>"
    have c: "cache_ok sz (gpu_caches b ! g) (gpu_used_bytes b ! g)" using ok g by (simp add: vram_ok_def)
    have "cache_ok sz (AList.delete ?f (gpu_caches b ! g)) (gpu_used_bytes b ! g - s)" "0 \<le> s"
      using cache_ok_delete [OF c map_of_SomeD [OF Some]] c map_of_SomeD [OF Some] by (auto simp: cache_ok_def)
    then have "vram_ok sz n ?b2" using b1(1) g by (auto simp: vram_ok_def nth_list_update)
    then show ?thesis using False model first cache Some b1(2) by (simp add: expire_entry_def Let_def same_setup_def)
  qed
qed

lemma expire_ok:
  assumes ok: "vram_ok sz n b"
  shows "\<exists>b'. expire now b = Inr b' \<and> vram_ok sz n b' \<and> same_setup b b'"
proof -
  have refl: "same_setup b b" by (simp add: same_setup_def)
  have "\<exists>b'. r_foldl (expire_entry now k) b (last_model_finish b) = Inr b' \<and> (vram_ok sz n b' \<and> same_setup b b')" for k
  proof (rule r_foldl_total)
    fix a x assume a: "vram_ok sz n a \<and> same_setup b a" and x: "x \<in> set (last_model_finish b)"
    obtain g m t where e: "x = ((g, m), t)" by (metis prod.exhaust)
    have in_finish: "(g, m) \<in> fst ` set (last_model_finish b)" using imageI [OF x, of fst] by (simp add: e)
    have "\<forall>(g, m) \<in> fst ` set (last_model_finish b). g < n \<and> m \<in> fst ` set (models a)"
      using ok a unfolding vram_ok_def same_setup_def by metis
    from bspec [OF this in_finish] have "g < n" "m \<in> fst ` set (models a)" by simp_all
    from expire_entry_ok [OF conjunct1 [OF a] this] obtain b' where "expire_entry now k a x = Inr b'" "vram_ok sz n b'" "same_setup a b'"
      unfolding e by blast
    then show "\<exists>b'. expire_entry now k a x = Inr b' \<and> vram_ok sz n b' \<and> same_setup b b'" using a by (auto simp: same_setup_def)
  qed (use ok refl in blast)
  then show ?thesis using ok refl by (auto simp: expire_def split: option.split)
qed

lemma estimate_ok:
  assumes "vram_ok sz n b" "g < n" "map_of (models b) m = Some model"
  shows "\<exists>est. estimate m g b = Inr est \<and> le_gpu_id est = g \<and> 0 \<le> load_ms est \<and> cached_bytes est + to_load_bytes est = total_bytes model
    \<and> total_model_bytes est = total_bytes model"
proof -
  have "0 \<le> bytes_load_ms (total_bytes model) b" using assms(1) by (simp add: bytes_load_ms_def vram_ok_def)
  then show ?thesis using estimate_shared_ok [OF assms] assms(3) by (auto simp: estimate_def split: option.split)
qed

lemma commit_ok:
  assumes "vram_ok sz n b" "g < n" "map_of (models b) m = Some model"
  shows "\<exists>b' est. commit m g b = Inr (b', est) \<and> estimate m g b = Inr est \<and> vram_ok sz n b' \<and> same_setup b b'"
proof -
  obtain est where est: "estimate m g b = Inr est" using estimate_ok [OF assms] by blast
  have refl: "same_setup b b" by (simp add: same_setup_def)
  show ?thesis
  proof (cases "\<exists>k. keep_alive_ms b = Some k \<and> k < 0")
    case True
    then show ?thesis using est refl assms(1) by (auto simp: commit_def)
  next
    case False
    then have "commit m g b = commit_shared m g b" "estimate m g b = estimate_shared m g b"
      by (auto simp: commit_def estimate_def split: option.split)
    then show ?thesis using commit_shared_ok [OF assms] by auto
  qed
qed

section \<open>The run serves every request\<close>

definition clocks_ok :: "nat \<Rightarrow> e2e_state \<Rightarrow> bool" where
  "clocks_ok n s \<longleftrightarrow> length (load_available s) = n \<and> length (infer_available s) = n"

definition costs_ok :: "e2e_settings \<Rightarrow> bool" where
  "costs_ok cfg \<longleftrightarrow> 0 \<le> engine_overhead_ms cfg \<and> 0 \<le> prefill_ms_per_token cfg \<and> 0 \<le> decode_ms_per_token cfg"

definition request_ok :: "vram \<Rightarrow> e2e_request \<Rightarrow> bool" where
  "request_ok b rq \<longleftrightarrow> rq_model_id rq \<in> fst ` set (models b) \<and> 0 \<le> input_tokens rq \<and> 0 \<le> output_tokens rq"

definition row_balanced :: "nat \<Rightarrow> simulated_request \<Rightarrow> bool" where
  "row_balanced n r \<longleftrightarrow> gpu_id r < n \<and> 0 \<le> queue_ms r \<and> 0 \<le> sr_load_ms r \<and> 0 \<le> prefill_ms r \<and> 0 \<le> decode_ms r
     \<and> ttft_ms r = queue_ms r + sr_load_ms r + prefill_ms r \<and> e2e_ms r = ttft_ms r + decode_ms r
     \<and> sr_cached_bytes r + sr_to_load_bytes r = sr_total_model_bytes r"

lemma e2e_choice_ok:
  assumes "estimates \<noteq> []" "\<And>k. 0 < k \<Longrightarrow> draw k < k"
  shows "\<exists>est. choose_gpu rq estimates load infer prefill pol draw = Inr est \<and> est \<in> set estimates
    \<and> (pol = Online_ttft \<longrightarrow> (\<forall>e \<in> set estimates. ttft_end (arrival_ms rq) load infer prefill est \<le> ttft_end (arrival_ms rq) load infer prefill e))"
proof (cases pol)
  case Random
  have "draw (length estimates) < length estimates" using assms by simp
  then show ?thesis using Random assms(1) by (simp add: choose_gpu_def list_get_def)
next
  case Locality
  then show ?thesis using assms(1) by (simp add: choose_gpu_def arg_min_list_mem)
next
  case Online_ttft
  let ?key = "\<lambda>est. (ttft_end (arrival_ms rq) load infer prefill est, to_load_bytes est, le_gpu_id est)"
  have "ttft_end (arrival_ms rq) load infer prefill (arg_min_list ?key estimates) \<le> ttft_end (arrival_ms rq) load infer prefill e"
    if "e \<in> set estimates" for e
    using arg_min_list_le [OF that, of ?key] by (auto simp: less_eq_prod_def less_prod_def)
  then show ?thesis using Online_ttft assms(1) by (simp add: choose_gpu_def arg_min_list_mem)
qed

text \<open>One request: it is served, its row balances, and it starts when its GPU is free.\<close>

lemma serve_ok:
  assumes ok: "vram_ok sz n (backend s)" and clocks: "clocks_ok n s" and n: "0 < n" and cfg: "costs_ok cfg" and rq: "request_ok (backend s) rq"
    and rng: "\<forall>j k. 0 < k \<longrightarrow> rng j k < k"
  shows "\<exists>s' r. serve rng cfg collect s rq = Inr s' \<and> vram_ok sz n (backend s') \<and> same_setup (backend s) (backend s') \<and> clocks_ok n s'
    \<and> rows s' = (if collect then rows s @ [r] else rows s) \<and> row_balanced n r \<and> sr_req_id r = req_id rq
    \<and> infer_available s ! gpu_id r \<le> sr_arrival_ms r + ttft_ms r - prefill_ms r
    \<and> (occupy_until cfg = Until_finish \<longrightarrow> infer_available s' = (infer_available s)[gpu_id r := sr_arrival_ms r + e2e_ms r])"
proof -
  obtain b where b: "expire (arrival_ms rq) (backend s) = Inr b" "vram_ok sz n b" "same_setup (backend s) b" using expire_ok [OF ok] by blast
  obtain model where model: "map_of (models b) (rq_model_id rq) = Some model"
    using rq b(3) map_of_mem [of "rq_model_id rq" "models b"] by (auto simp: request_ok_def same_setup_def)
  define prefill where "prefill = engine_overhead_ms cfg + of_int (input_tokens rq) * prefill_ms_per_token cfg"
  define decode where "decode = of_int (output_tokens rq) * decode_ms_per_token cfg"
  have nonneg: "0 \<le> prefill" "0 \<le> decode" using cfg rq by (auto simp: prefill_def decode_def costs_ok_def request_ok_def)
  have len: "length (load_available s) = n" "length (infer_available s) = n" using clocks by (simp_all add: clocks_ok_def)
  obtain ests where ests: "r_map (\<lambda>g. estimate (rq_model_id rq) g b) [0..<n] = Inr ests"
    using r_map_exists [of "[0..<n]" "\<lambda>g. estimate (rq_model_id rq) g b"] estimate_ok [OF b(2) _ model] by fastforce
  then have all: "list_all2 (\<lambda>g est. estimate (rq_model_id rq) g b = Inr est) [0..<n] ests" by (simp add: r_map_Inr_iff)
  then have ne: "ests \<noteq> []" using n by auto
  obtain chosen where chosen: "choose_gpu rq ests (load_available s) (infer_available s) prefill (policy cfg) (rng (draws s)) = Inr chosen" "chosen \<in> set ests"
    using e2e_choice_ok [OF ne, of "rng (draws s)"] rng by blast
  define g where "g = le_gpu_id chosen"
  obtain j where j: "j < n" "estimate (rq_model_id rq) j b = Inr chosen" using all chosen(2) by (auto simp: list_all2_conv_all_nth in_set_conv_nth)
  have g: "g < n" using estimate_ok [OF b(2) j(1) model] j by (auto simp: g_def)
  obtain b1 est where b1: "commit (rq_model_id rq) g b = Inr (b1, est)" "estimate (rq_model_id rq) g b = Inr est" "vram_ok sz n b1" "same_setup b b1"
    using commit_ok [OF b(2) g model] by blast
  have load: "0 \<le> load_ms est" using estimate_ok [OF b(2) g model] b1(2) by auto
  have bytes: "cached_bytes est + to_load_bytes est = total_model_bytes est"
    using b1(2) estimate_ok [OF b(2) g model] by auto
  define load_end where "load_end = max (arrival_ms rq) (load_available s ! g) + load_ms est"
  define start where "start = max load_end (infer_available s ! g)"
  define r where "r = simulated_row cfg rq g est start prefill decode"
  define s' where "s' = s\<lparr> backend := (if keep_alive_ms b1 = None then b1 else mark_finish (rq_model_id rq) g (start + prefill + decode) b1),
      load_available := (load_available s)[g := load_end],
      infer_available := (case occupy_until cfg of Until_ttft \<Rightarrow> (infer_available s)[g := start + prefill]
        | Until_finish \<Rightarrow> (infer_available s)[g := start + prefill + decode] | Until_load \<Rightarrow> infer_available s),
      draws := (if policy cfg = Random then draws s + 1 else draws s), rows := (if collect then rows s @ [r] else rows s) \<rparr>"
  have run: "serve rng cfg collect s rq = Inr s'"
    unfolding s'_def r_def start_def load_end_def g_def prefill_def decode_def
    using b(1) ests chosen(1) [unfolded prefill_def] b1(1) [unfolded g_def] len by (simp add: serve_def Let_def)
  have gap: "arrival_ms rq + load_ms est \<le> start" by (simp add: start_def load_end_def)
  have same: "same_setup (backend s) b1" using b(3) b1(4) by (simp add: same_setup_def)
  have mem: "rq_model_id rq \<in> fst ` set (models b1)" using rq same by (simp add: request_ok_def same_setup_def)
  have "vram_ok sz n (backend s')" using b1(3) vram_ok_finish [OF b1(3) g mem] by (simp add: s'_def)
  moreover have "same_setup (backend s) (backend s')" using same by (simp add: s'_def same_setup_def mark_finish_def)
  moreover have "clocks_ok n s'" using len by (simp add: clocks_ok_def s'_def split: occupancy.split)
  moreover have "row_balanced n r" using g gap load nonneg bytes by (simp add: row_balanced_def r_def simulated_row_def)
  moreover have "infer_available s ! gpu_id r \<le> sr_arrival_ms r + ttft_ms r - prefill_ms r" by (simp add: r_def simulated_row_def start_def)
  moreover have "infer_available s' = (infer_available s)[gpu_id r := sr_arrival_ms r + e2e_ms r]" if "occupy_until cfg = Until_finish"
    using that by (simp add: s'_def r_def simulated_row_def add.assoc)
  moreover have "rows s' = (if collect then rows s @ [r] else rows s)" "sr_req_id r = req_id rq" by (simp_all add: s'_def r_def simulated_row_def)
  ultimately show ?thesis using run by blast
qed

text \<open>Executions on a GPU do not overlap when a request occupies it until it has finished.\<close>

definition after_on_gpu :: "simulated_request \<Rightarrow> simulated_request \<Rightarrow> bool" where
  "after_on_gpu r r' \<longleftrightarrow> (gpu_id r = gpu_id r' \<longrightarrow> sr_arrival_ms r + e2e_ms r \<le> sr_arrival_ms r' + ttft_ms r' - prefill_ms r')"

definition run_inv :: "(string \<Rightarrow> int) \<Rightarrow> nat \<Rightarrow> e2e_settings \<Rightarrow> vram \<Rightarrow> e2e_state \<Rightarrow> bool" where
  "run_inv sz n cfg b s \<longleftrightarrow> vram_ok sz n (backend s) \<and> same_setup b (backend s) \<and> clocks_ok n s \<and> (\<forall>r \<in> set (rows s). row_balanced n r)
     \<and> (occupy_until cfg = Until_finish \<longrightarrow> sorted_wrt after_on_gpu (rows s)
          \<and> (\<forall>r \<in> set (rows s). sr_arrival_ms r + e2e_ms r \<le> infer_available s ! gpu_id r))"

lemma serve_run_inv:
  assumes inv: "run_inv sz n cfg b s" and n: "0 < n" and cfg: "costs_ok cfg" and rq: "request_ok b rq" and rng: "\<forall>j k. 0 < k \<longrightarrow> rng j k < k"
  shows "\<exists>s'. serve rng cfg True s rq = Inr s' \<and> run_inv sz n cfg b s' \<and> map sr_req_id (rows s') = map sr_req_id (rows s) @ [req_id rq]"
proof -
  have rq': "request_ok (backend s) rq" using rq inv by (simp add: request_ok_def run_inv_def same_setup_def)
  from inv have ok: "vram_ok sz n (backend s)" "clocks_ok n s" by (simp_all add: run_inv_def)
  from serve_ok [OF ok n cfg rq' rng, where collect = True] obtain s' r where
    s': "serve rng cfg True s rq = Inr s'" "vram_ok sz n (backend s')" "same_setup (backend s) (backend s')" "clocks_ok n s'"
      "rows s' = rows s @ [r]" "row_balanced n r" "sr_req_id r = req_id rq"
      "infer_available s ! gpu_id r \<le> sr_arrival_ms r + ttft_ms r - prefill_ms r"
      "occupy_until cfg = Until_finish \<longrightarrow> infer_available s' = (infer_available s)[gpu_id r := sr_arrival_ms r + e2e_ms r]" by auto
  have gap: "sr_arrival_ms r + ttft_ms r - prefill_ms r \<le> sr_arrival_ms r + e2e_ms r" using s'(6) by (simp add: row_balanced_def)
  have fin: "sorted_wrt after_on_gpu (rows s') \<and> (\<forall>q \<in> set (rows s'). sr_arrival_ms q + e2e_ms q \<le> infer_available s' ! gpu_id q)"
    if occ: "occupy_until cfg = Until_finish"
  proof -
    have old: "sorted_wrt after_on_gpu (rows s)" "\<forall>q \<in> set (rows s). sr_arrival_ms q + e2e_ms q \<le> infer_available s ! gpu_id q"
      using inv occ by (simp_all add: run_inv_def)
    have len: "gpu_id r < length (infer_available s)" using s'(6) ok(2) by (simp add: row_balanced_def clocks_ok_def)
    have "after_on_gpu q r" if "q \<in> set (rows s)" for q
      using old(2) that s'(8) unfolding after_on_gpu_def by (metis order_trans)
    moreover have "sr_arrival_ms q + e2e_ms q \<le> infer_available s' ! gpu_id q" if q: "q \<in> set (rows s)" for q
    proof (cases "gpu_id q = gpu_id r")
      case True
      then have "sr_arrival_ms q + e2e_ms q \<le> infer_available s ! gpu_id r" using old(2) q by metis
      then show ?thesis using True s'(8,9) occ gap len by simp
    next
      case False
      then show ?thesis using old(2) q s'(9) occ by simp
    qed
    ultimately show ?thesis using old(1) s'(5,9) occ len by (auto simp: sorted_wrt_append)
  qed
  have "same_setup b (backend s')" using inv s'(3) by (auto simp: run_inv_def same_setup_def)
  then have "run_inv sz n cfg b s'" using fin inv s'(2,4,5,6) by (auto simp: run_inv_def)
  then show ?thesis using s'(1,5,7) by simp
qed

lemma run_loop:
  assumes "run_inv sz n cfg b s" "0 < n" "costs_ok cfg" "\<forall>rq \<in> set requests. request_ok b rq" "\<forall>j k. 0 < k \<longrightarrow> rng j k < k"
  shows "\<exists>s'. r_foldl (serve rng cfg True) s requests = Inr s' \<and> run_inv sz n cfg b s' \<and> map sr_req_id (rows s') = map sr_req_id (rows s) @ map req_id requests"
  using assms(1,4)
proof (induction requests arbitrary: s)
  case (Cons rq requests)
  have "request_ok b rq" using Cons.prems(2) by simp
  from serve_run_inv [OF Cons.prems(1) assms(2,3) this assms(5)] obtain s1 where
    s1: "serve rng cfg True s rq = Inr s1" "run_inv sz n cfg b s1" "map sr_req_id (rows s1) = map sr_req_id (rows s) @ [req_id rq]" by auto
  from Cons.IH [OF s1(2)] Cons.prems(2) obtain s2 where
    "r_foldl (serve rng cfg True) s1 requests = Inr s2" "run_inv sz n cfg b s2" "map sr_req_id (rows s2) = map sr_req_id (rows s1) @ map req_id requests"
    by auto
  then show ?case using s1 by simp
qed simp


text \<open>The online policy is greedy: no other GPU would have given an earlier first token.\<close>

lemma online_choice_least:
  assumes "vram_ok sz n b" "0 < n" "map_of (models b) (rq_model_id rq) = Some model"
    "r_map (\<lambda>g. estimate (rq_model_id rq) g b) [0..<n] = Inr ests"
    "choose_gpu rq ests load infer prefill Online_ttft draw = Inr chosen" "g < n" "estimate (rq_model_id rq) g b = Inr est"
  shows "ttft_end (arrival_ms rq) load infer prefill chosen \<le> ttft_end (arrival_ms rq) load infer prefill est"
proof -
  have all: "list_all2 (\<lambda>g est. estimate (rq_model_id rq) g b = Inr est) [0..<n] ests" using assms(4) by (simp add: r_map_Inr_iff)
  then have "ests \<noteq> []" "est \<in> set ests" using assms(2,6,7) by (auto simp: list_all2_conv_all_nth in_set_conv_nth)
  let ?key = "\<lambda>est. (ttft_end (arrival_ms rq) load infer prefill est, to_load_bytes est, le_gpu_id est)"
  have "chosen = arg_min_list ?key ests" using assms(5) \<open>ests \<noteq> []\<close> by (simp add: choose_gpu_def)
  then show ?thesis using arg_min_list_le [OF \<open>est \<in> set ests\<close>, of ?key] by (auto simp: less_eq_prod_def less_prod_def)
qed

section \<open>Witness and a drift of the counters\<close>

definition demo_group :: "string \<Rightarrow> int \<Rightarrow> shared_group" where
  "demo_group f n = \<lparr> fingerprint = f, group_bytes = n \<rparr>"

definition demo_vram :: vram where
  "demo_vram = init_vram
     [\<lparr> model_id = 0, model_path = ''a'', tensor_groups = [demo_group ''x'' 4, demo_group ''y'' 3], sensitivity = 1 \<rparr>,
      \<lparr> model_id = 1, model_path = ''b'', tensor_groups = [demo_group ''x'' 4, demo_group ''z'' 5], sensitivity = 1 \<rparr>] 1 10 1 0 None"

definition demo_settings :: e2e_settings where
  "demo_settings = \<lparr> engine_overhead_ms = 20, prefill_ms_per_token = 1 / 50, decode_ms_per_token = 2, s_base_slo_ms = 0,
     occupy_until = Until_finish, policy = Online_ttft \<rparr>"

definition demo_e2e_requests :: "e2e_request list" where
  "demo_e2e_requests = [\<lparr> req_id = 0, arrival_ms = 0, rq_model_id = 0, input_tokens = 100, output_tokens = 10 \<rparr>,
     \<lparr> req_id = 1, arrival_ms = 5, rq_model_id = 1, input_tokens = 50, output_tokens = 4 \<rparr>]"

definition demo_sizes :: "string \<Rightarrow> int" where
  "demo_sizes f = (if f = ''x'' then 4 else if f = ''y'' then 3 else 5)"

lemma demo_vram_models: "models demo_vram =
    [(0, \<lparr> model_id = 0, model_path = ''a'', tensor_groups = [demo_group ''x'' 4, demo_group ''y'' 3], sensitivity = 1 \<rparr>),
     (1, \<lparr> model_id = 1, model_path = ''b'', tensor_groups = [demo_group ''x'' 4, demo_group ''z'' 5], sensitivity = 1 \<rparr>)]"
  by (simp add: demo_vram_def init_vram_def dict_of_def)

lemma demo_vram_fields:
  "gpu_caches demo_vram = [[]]" "gpu_used_bytes demo_vram = [0]" "gpu_capacity_bytes demo_vram = 10" "load_overhead_ms demo_vram = 0"
  "last_model_finish demo_vram = []"
  by (simp_all add: demo_vram_def init_vram_def)

lemma demo_vram_ok: "vram_ok demo_sizes 1 demo_vram"
  unfolding vram_ok_def demo_vram_models demo_vram_fields
  by (auto simp: model_ok_def total_bytes_def demo_group_def demo_sizes_def cache_ok_def split: if_splits)


text \<open>
  A model that names a fingerprint twice is charged twice for one cache entry: after it was loaded
  the counter exceeds the bytes in the cache.
\<close>

lemma duplicate_fingerprint_drifts:
  "(case commit_shared 0 0 (init_vram [\<lparr> model_id = 0, model_path = ''a'', tensor_groups = [demo_group ''x'' 4, demo_group ''x'' 4], sensitivity = 1 \<rparr>]
       1 10 1 0 None) of Inl _ \<Rightarrow> None | Inr (b, _) \<Rightarrow> Some (gpu_caches b, gpu_used_bytes b)) = Some ([[(''x'', 4)]], [8])"
  by code_simp

end
