(* ===== verification/Spec2Isabelle.thy ===== *)
theory Spec2Isabelle
  imports Simulator Cache_Safety Storage_Scheduler Store_Manager Serving Controller Migration_Router End2End
begin

text \<open>
  Verification of ServerlessLLM/Tangram, a serving system for large language models that starts
  model instances on demand, and of the simulator its cache policies are evaluated with.

  \<^bold>\<open>The program.\<close> Three parts of the repository carry its own logic and are modelled here.

  \<^item> \<^bold>\<open>Serving\<close> (\<open>src/sllm/serve\<close>). A controller keeps one router per registered model. A router
    queues requests, assigns them to instances round robin, scales the pool of instances with the
    load and takes instances through their life cycle; it asks the model-loading scheduler for
    the GPUs of a new instance and returns them when the instance is stopped. The scheduler
    places requests on worker nodes, first come first served, by the bytes already cached
    on a node, or by loading time with live migration; it consults the store manager, whose
    local stores load checkpoints into pinned memory.
  \<^item> \<^bold>\<open>Cache placement\<close> (\<open>src/evaluation/tensor_simulator\<close>, \<open>src/tools/layerpipe\<close>). A discrete
    simulation of GPUs that cache the weights of many models: memory layouts (tensor pages,
    compact pages, segments, a request-level segment planner), replacement policies, an exact
    planner that evicts suffixes of models at the least expected stall, request execution that
    overlaps loading with computing, routing over several GPUs, and reporting; and the LayerWeave
    policy of the real system, an estimator fitted to measurements and a planner that protects
    pages by their predicted benefit.
  \<^item> \<^bold>\<open>End-to-end simulation\<close> (\<open>src/evaluation/end2end\<close>). A lighter simulator that serves a trace on
    GPUs with shared tensor groups or kept-alive models and reports the time to the first token.

  \<^bold>\<open>Theories, in the order of the code.\<close>

  \<^item> \<open>Py_Prelude\<close>: exceptions as values, loops and comprehensions that may raise, dictionaries,
    rounding and search helpers, shared list lemmas.
  \<^item> \<open>Stall_Table\<close>, \<open>Pareto_Search\<close>, \<open>Prefix_Mckp\<close> (\<open>tensor_sim_mckp.py\<close>): the prefix stall table, the
    search over a pruned frontier as a locale, and the covering knapsack. Shown: constructed
    tables satisfy the invariant of the lookups, lookups never grow with the resident
    prefix, the planner is exact.
  \<^item> \<open>Memory_Common\<close>, \<open>Tensor_Groups\<close>, \<open>Page_Prefix\<close>, \<open>Execution\<close>, \<open>Profile_Execution\<close>
    (\<open>tensor_sim_memory_common.py\<close>, parts of \<open>tensor_sim_page_backends.py\<close> and
    \<open>layerweave_tensor_pipeline_sim.py\<close>): types, victim selection, grouping, the locales
    \<open>page_prefix\<close> (what prefix reclaim needs of a layout) and \<open>mem_backend\<close> (what executing a
    request needs of a backend), with the execution theorems proved once in them.
  \<^item> \<open>Tensor_Page\<close>, \<open>Compact_Page\<close>, \<open>Segment\<close>, \<open>Mock_Segment\<close>, \<open>Backends\<close>: the layouts, their
    representation invariants, and the interpretations of the locales. Shown: every request that
    fits is executed without an error within the memory left for weights; allocation and release
    are inverse; partition-based placement never fails when the bytes are free.
  \<^item> \<open>Statistics\<close>, \<open>Routing\<close>, \<open>Sim_Report\<close>, \<open>Pipeline_Benefits\<close>, \<open>Trace_IO\<close>, \<open>Simulator\<close>: percentiles,
    candidate choice and online timing, rows and summaries, marginal benefits, traces, and the
    runs that compose everything. Shown: a run of feasible requests ends with one row each; online
    timing never overlaps requests on a GPU; loaded requests respect the limits.
  \<^item> \<open>Least_Squares\<close>, \<open>Pipeline_Estimator\<close>, \<open>Layer_Mckp\<close>, \<open>Cache_Policy\<close>, \<open>Cache_Safety\<close>
    (\<open>layerweave_estimator.py\<close>, \<open>layerweave_cache_policy.py\<close>): regressions, the estimator, the
    protected-cache solver, and the single-GPU policy. Shown: the ridge fit minimises its loss, the
    solver is exact, a dispatch that fits is planned with exactly the missing pages evicted from
    unprotected pages of inactive models, and the curve cache changes no result.
  \<^item> \<open>Fcfs_Scheduler\<close>, \<open>Reuse_Scheduler\<close>, \<open>Storage_Scheduler\<close> (\<open>schedulers/\<close>, \<open>get_worker_nodes\<close> of
    \<open>utils.py\<close>): the three schedulers over one state. Shown: GPUs are never over-committed, the
    control loop leaves no request that fits; where the code fails, that it fails.
  \<^item> \<open>Store_Manager\<close> (\<open>store_manager.py\<close>): the local store with its loading loop, and the manager's
    registration. Shown: the queue is consistent and drains; eviction ends the loop.
  \<^item> \<open>Router\<close>, \<open>Serving\<close>, \<open>Controller\<close>, \<open>Migration_Router\<close> (\<open>routers/\<close>, \<open>controller.py\<close>,
    \<open>InstanceHandle\<close> of \<open>utils.py\<close>): the router as a state machine with exact accounting of slots
    and requests; the locale \<open>resource_allocator\<close>, the contract between routers and scheduler, its
    interpretation on the first-come-first-served scheduler and the properties of the composed
    system; the registry; live migration.
  \<^item> \<open>End2End\<close> (\<open>simulate_end2end.py\<close>): its cache backends, the choice of a GPU, the run and the
    summary. Shown: every request of a trace over models that fit is served, the counters of the
    caches stay exact, the rows balance, and executions on a GPU do not overlap.

  \<^bold>\<open>How the models correspond to the code.\<close> A class is a record with the fields of the class, a
  method a function on it with the method's name where HOL allows (prefixes \<open>tp_\<close>, \<open>cp_\<close>, \<open>seg_\<close>,
  \<open>mk_\<close>, \<open>sm_\<close> tell apart classes with equal method names). Exceptions are values; every raise and
  early return is a branch. The actors of the serving part run on one event loop each: the
  code between two suspensions of a coroutine is one atomic operation, the place where a coroutine
  is suspended is part of the state, and an inductive step relation interleaves the operations in
  any order; their properties are invariants or reachability statements over all interleavings.
  Floating-point numbers are rationals, so arithmetic is exact; an explicit infinity is \<open>None\<close>.
  Python integers are \<open>int\<close>, or \<open>nat\<close> where the code only counts or indexes. Wall-clock times, random
  draws, fresh ids, replies of other actors and outcomes of backend calls are arguments; parsed
  files are values.

  \<^bold>\<open>Bounds and fuel.\<close> No definition uses fuel: loops over data are structural recursions, the others
  are functions with a termination measure (the bytes or objects left to evict, the extents
  left to visit). An endless loop of a coroutine is a step that can be taken again. The token
  loop of a migration is given the replies of its polls and returns \<open>None\<close> while it has not ended;
  it is shown to end after a bounded number of polls.

  \<^bold>\<open>Not modelled.\<close> Of the simulators: reading CSV and JSON files, writing reports, the timeline of a
  row, the command line, and the binding of the end-to-end simulator to a C++ backend. Of the schedulers: two policies of the reuse-aware scheduler
  that nothing calls. Of the store manager: connecting to the store servers at start-up, downloads
  and calls handed through to the servers. The backends (vLLM, transformers, CRIU), the HTTP and
  command-line front ends, the checkpoint store in C++ and CUDA and its generated bindings, and
  the benchmark drivers, trace generators, plots and tests are either other languages, glue around
  external services, or measurement scripts without state of their own. Cancellation of a request
  by its client is part of the schedulers' models but not of the routers', whose callers never
  cancel.
\<close>

end
